(* ===== verification/Prelude.thy ===== *)
theory Prelude
  imports Main "HOL-Library.Word" "HOL-Library.AList" "HOL-Library.Code_Target_Nat"
begin

text \<open>
  Shared layer of the development: names for Rust's machine integers and byte buffers, the
  big- and little-endian conversions of the standard library (\<^verbatim>\<open>to_be_bytes\<close>,
  \<^verbatim>\<open>from_be_bytes\<close>, \<^verbatim>\<open>from_le_bytes\<close>), Rust's slice assignment, the error monad used for
  \<^verbatim>\<open>Result\<close>, and \<^verbatim>\<open>std::collections::HashMap\<close> as an association list with distinct keys,
  together with the contract the components rely on (locale \<open>hash_map\<close>).
\<close>

unbundle bit_operations_syntax

named_theorems byte_simps \<open>conversions between bytes and wider integers\<close>
named_theorems hm_simps \<open>laws of the hash map layer\<close>

type_synonym u8 = "8 word"
type_synonym u16 = "16 word"
type_synonym u32 = "32 word"
type_synonym bytes = "u8 list"

section \<open>Endian conversions\<close>

definition hi8 :: "u16 \<Rightarrow> u8" where
  "hi8 w = word_of_nat (unat w div 256)"

definition lo8 :: "u16 \<Rightarrow> u8" where
  "lo8 w = word_of_nat (unat w mod 256)"

text \<open>\<^verbatim>\<open>u16::to_be_bytes\<close> and \<^verbatim>\<open>u16::from_be_bytes\<close>.\<close>

definition to_be16 :: "u16 \<Rightarrow> bytes" where
  "to_be16 w = [hi8 w, lo8 w]"

definition from_be16 :: "u8 \<Rightarrow> u8 \<Rightarrow> u16" where
  "from_be16 a b = word_of_nat (unat a * 256 + unat b)"

text \<open>\<^verbatim>\<open>u16::from_le_bytes\<close> and \<^verbatim>\<open>u32::from_le_bytes\<close>.\<close>

definition from_le16 :: "u8 \<Rightarrow> u8 \<Rightarrow> u16" where
  "from_le16 a b = from_be16 b a"

definition from_le32 :: "u8 \<Rightarrow> u8 \<Rightarrow> u8 \<Rightarrow> u8 \<Rightarrow> u32" where
  "from_le32 a b c d =
     word_of_nat (unat a + 256 * unat b + 65536 * unat c + 16777216 * unat d)"

text \<open>\<^verbatim>\<open>u32::to_be_bytes\<close>.\<close>

definition to_be32 :: "u32 \<Rightarrow> bytes" where
  "to_be32 w =
     [word_of_nat (unat w div 16777216), word_of_nat (unat w div 65536),
      word_of_nat (unat w div 256), word_of_nat (unat w)]"

text \<open>\<^verbatim>\<open>u64::to_be_bytes\<close>.\<close>

definition to_be64 :: "64 word \<Rightarrow> bytes" where
  "to_be64 w = map (\<lambda>i. word_of_nat (unat w div 256 ^ (7 - i))) [0..<8]"

lemma unat_u8_lt [simp]: "unat (b :: u8) < 256"
  using unsigned_less [of b] by simp

lemma unat_u16_lt [simp]: "unat (w :: u16) < 65536"
  using unsigned_less [of w] by simp

lemma unat_u32_lt [simp]: "unat (w :: u32) < 4294967296"
  using unsigned_less [of w] by simp

lemma unat_of_nat_u8 [byte_simps]: "unat (word_of_nat n :: u8) = n mod 256"
  by (simp add: unat_of_nat take_bit_eq_mod)

lemma unat_of_nat_u16 [byte_simps]: "unat (word_of_nat n :: u16) = n mod 65536"
  by (simp add: unat_of_nat take_bit_eq_mod)

lemma unat_of_nat_u32 [byte_simps]: "unat (word_of_nat n :: u32) = n mod 4294967296"
  by (simp add: unat_of_nat take_bit_eq_mod)

lemma two_bytes_bound: "unat (a :: u8) * 256 + unat (b :: u8) < 65536"
  using unat_u8_lt [of a] unat_u8_lt [of b] by linarith

lemma unat_from_be16 [byte_simps]: "unat (from_be16 a b) = unat a * 256 + unat b"
  unfolding from_be16_def unat_of_nat_u16 using two_bytes_bound [of a b] by simp

lemma from_be16_hi_lo [simp]: "from_be16 (hi8 w) (lo8 w) = w"
proof -
  have "unat w div 256 < 256" using unat_u16_lt [of w] by linarith
  then have "unat (from_be16 (hi8 w) (lo8 w)) = unat w"
    unfolding unat_from_be16 hi8_def lo8_def unat_of_nat_u8 by simp
  then show ?thesis by (simp add: word_unat_eq_iff)
qed

lemma hi8_from_be16 [simp]: "hi8 (from_be16 a b) = a"
  unfolding hi8_def unat_from_be16 using unat_u8_lt [of b] by simp

lemma lo8_from_be16 [simp]: "lo8 (from_be16 a b) = b"
proof -
  have "(unat a * 256 + unat b) mod 256 = unat b" by simp
  then show ?thesis unfolding lo8_def unat_from_be16 by simp
qed

lemma length_to_be16 [simp]: "length (to_be16 w) = 2"
  by (simp add: to_be16_def)

lemma length_to_be32 [simp]: "length (to_be32 w) = 4"
  by (simp add: to_be32_def)

lemma length_to_be64 [simp]: "length (to_be64 w) = 8"
  by (simp add: to_be64_def)

section \<open>Slices\<close>

text \<open>
  \<^verbatim>\<open>buf[off..off + src.len()].copy_from_slice(src)\<close>. Rust panics when the range leaves the
  buffer; the model then leaves the buffer's length unchanged as well, and the callers are
  shown to stay inside it.
\<close>

definition put_at :: "nat \<Rightarrow> 'a list \<Rightarrow> 'a list \<Rightarrow> 'a list" where
  "put_at off src buf =
     take off buf @ take (length buf - off) src @ drop (off + length src) buf"

text \<open>\<^verbatim>\<open>&buf[a..b]\<close>.\<close>

definition slice :: "nat \<Rightarrow> nat \<Rightarrow> 'a list \<Rightarrow> 'a list" where
  "slice a b buf = take (b - a) (drop a buf)"

lemma length_put_at [simp]:
  "off \<le> length buf \<Longrightarrow> length (put_at off src buf) = length buf"
  by (simp add: put_at_def)

lemma length_slice [simp]: "length (slice a b buf) = min (b - a) (length buf - a)"
  by (simp add: slice_def min.commute)

lemma nth_put_at:
  assumes "off + length src \<le> length buf" and "i < length buf"
  shows "put_at off src buf ! i =
    (if i < off then buf ! i else if i < off + length src then src ! (i - off) else buf ! i)"
  using assms by (auto simp: put_at_def nth_append)

lemma slice_put_at:
  assumes "off + length src \<le> length buf"
  shows "slice off (off + length src) (put_at off src buf) = src"
  using assms by (simp add: slice_def put_at_def)

lemma slice_append:
  assumes "a \<le> b" "b \<le> c"
  shows "slice a b xs @ slice b c xs = slice a c xs"
proof -
  have "take (c - a) (drop a xs) = take ((b - a) + (c - b)) (drop a xs)" using assms by simp
  also have "\<dots> = take (b - a) (drop a xs) @ take (c - b) (drop (b - a) (drop a xs))" by (rule take_add)
  finally show ?thesis using assms by (simp add: slice_def)
qed

lemma put_at_append_left:
  "off + length src \<le> length xs \<Longrightarrow> put_at off src (xs @ ys) = put_at off src xs @ ys"
  by (simp add: put_at_def)

text \<open>Consecutive writes at a running offset, \<^verbatim>\<open>buf[o..o + n].copy_from_slice(c); o += n;\<close>.\<close>

fun put_all :: "nat \<Rightarrow> 'a list list \<Rightarrow> 'a list \<Rightarrow> 'a list" where
  "put_all off [] buf = buf"
| "put_all off (c # cs) buf = put_all (off + length c) cs (put_at off c buf)"

lemma put_all_eq:
  "off + length (concat cs) \<le> length buf \<Longrightarrow>
   put_all off cs buf = take off buf @ concat cs @ drop (off + length (concat cs)) buf"
proof (induction off cs buf rule: put_all.induct)
  case (2 off c cs buf)
  have le: "off + length c \<le> length buf" "off + length c + length (concat cs) \<le> length buf"
    using "2.prems" by simp_all
  then have p: "put_at off c buf = take off buf @ c @ drop (off + length c) buf"
    by (simp add: put_at_def)
  have "put_all (off + length c) cs (put_at off c buf) =
      take (off + length c) (put_at off c buf) @ concat cs
      @ drop (off + length c + length (concat cs)) (put_at off c buf)"
    by (rule "2.IH") (use le in \<open>simp add: p\<close>)
  also have "take (off + length c) (put_at off c buf) = take off buf @ c"
    using le by (simp add: p)
  also have "drop (off + length c + length (concat cs)) (put_at off c buf) =
      drop (off + length c + length (concat cs)) buf"
    using le by (simp add: p add.commute)
  finally show ?case by (simp add: add.assoc)
qed simp

section \<open>Results\<close>

text \<open>\<^verbatim>\<open>Result<T, E>\<close> is \<open>'e + 'a\<close>; \<open>try\<close> is the \<^verbatim>\<open>?\<close> operator.\<close>

definition bind_result :: "'e + 'a \<Rightarrow> ('a \<Rightarrow> 'e + 'b) \<Rightarrow> 'e + 'b" where
  "bind_result r f = (case r of Inl e \<Rightarrow> Inl e | Inr a \<Rightarrow> f a)"

lemma bind_result_simps [simp]:
  "bind_result (Inl e) f = Inl e"
  "bind_result (Inr a) f = f a"
  by (simp_all add: bind_result_def)

lemma bind_result_Inr_iff:
  "bind_result r f = Inr b \<longleftrightarrow> (\<exists>a. r = Inr a \<and> f a = Inr b)"
  by (cases r) simp_all

text \<open>\<^verbatim>\<open>Option::or_else\<close>.\<close>

definition or_else :: "'a option \<Rightarrow> 'a option \<Rightarrow> 'a option" where
  "or_else a b = (case a of None \<Rightarrow> b | Some x \<Rightarrow> Some x)"

lemma or_else_simps [simp]: "or_else None b = b" "or_else (Some x) b = Some x"
  by (simp_all add: or_else_def)

text \<open>\<^verbatim>\<open>Option::unwrap_or\<close> and \<^verbatim>\<open>Option::filter\<close>.\<close>

definition unwrap_or :: "'a \<Rightarrow> 'a option \<Rightarrow> 'a" where
  "unwrap_or d x = (case x of None \<Rightarrow> d | Some v \<Rightarrow> v)"

lemma unwrap_or_simps [simp]: "unwrap_or d None = d" "unwrap_or d (Some v) = v"
  by (simp_all add: unwrap_or_def)

definition opt_filter :: "('a \<Rightarrow> bool) \<Rightarrow> 'a option \<Rightarrow> 'a option" where
  "opt_filter p x = (case x of None \<Rightarrow> None | Some v \<Rightarrow> if p v then Some v else None)"

lemma opt_filter_Some_iff [simp]: "opt_filter p x = Some v \<longleftrightarrow> x = Some v \<and> p v"
  by (auto simp: opt_filter_def split: option.splits)

definition is_some_and :: "('a \<Rightarrow> bool) \<Rightarrow> 'a option \<Rightarrow> bool" where
  "is_some_and p x = (case x of None \<Rightarrow> False | Some v \<Rightarrow> p v)"

lemma is_some_and_simps [simp]: "is_some_and p None = False" "is_some_and p (Some v) = p v"
  by (simp_all add: is_some_and_def)

section \<open>HashMap\<close>

text \<open>
  \<^verbatim>\<open>HashMap<K, V>\<close>: an association list without duplicate keys. Its iteration order is
  unspecified in Rust; code that iterates takes the order as an argument.
\<close>

type_synonym ('k, 'v) hmap = "('k \<times> 'v) list"

definition hm_ok :: "('k, 'v) hmap \<Rightarrow> bool" where
  "hm_ok m \<longleftrightarrow> distinct (map fst m)"

definition hm_get :: "('k, 'v) hmap \<Rightarrow> 'k \<Rightarrow> 'v option" where
  "hm_get m k = map_of m k"

definition hm_insert :: "'k \<Rightarrow> 'v \<Rightarrow> ('k, 'v) hmap \<Rightarrow> ('k, 'v) hmap" where
  "hm_insert k v m = AList.update k v m"

definition hm_remove :: "'k \<Rightarrow> ('k, 'v) hmap \<Rightarrow> ('k, 'v) hmap" where
  "hm_remove k m = AList.delete k m"

definition hm_len :: "('k, 'v) hmap \<Rightarrow> nat" where
  "hm_len m = length m"

definition hm_retain :: "('k \<Rightarrow> 'v \<Rightarrow> bool) \<Rightarrow> ('k, 'v) hmap \<Rightarrow> ('k, 'v) hmap" where
  "hm_retain p m = filter (\<lambda>(k, v). p k v) m"

text \<open>The contract the clients of the map use, in terms of lookups alone.\<close>

locale hash_map =
  fixes ok :: "'m \<Rightarrow> bool"
    and get :: "'m \<Rightarrow> 'k \<Rightarrow> 'v option"
    and insert :: "'k \<Rightarrow> 'v \<Rightarrow> 'm \<Rightarrow> 'm"
    and remove :: "'k \<Rightarrow> 'm \<Rightarrow> 'm"
    and len :: "'m \<Rightarrow> nat"
    and empty :: "'m"
  assumes ok_empty: "ok empty"
    and get_empty: "get empty k = None"
    and ok_insert: "ok m \<Longrightarrow> ok (insert k v m)"
    and get_insert: "get (insert k v m) k' = (if k' = k then Some v else get m k')"
    and ok_remove: "ok m \<Longrightarrow> ok (remove k m)"
    and get_remove: "get (remove k m) k' = (if k' = k then None else get m k')"
    and len_card: "ok m \<Longrightarrow> len m = card (dom (get m))"
    and finite_dom: "finite (dom (get m))"
begin

lemma get_insert_same: "get (insert k v m) k = Some v"
  by (simp add: get_insert)

lemma dom_insert: "dom (get (insert k v m)) = Set.insert k (dom (get m))"
  by (auto simp: get_insert dom_def)

lemma dom_remove: "dom (get (remove k m)) = dom (get m) - {k}"
  by (auto simp: get_remove dom_def split: if_splits)

lemma len_insert: "ok m \<Longrightarrow> len (insert k v m) = (if get m k = None then Suc (len m) else len m)"
  by (auto simp: len_card ok_insert dom_insert finite_dom card_insert_if domIff)

lemma len_remove: "ok m \<Longrightarrow> len (remove k m) = (if get m k = None then len m else len m - 1)"
  using finite_dom [of m] by (auto simp: len_card ok_remove dom_remove card_Diff_singleton_if domIff)

lemma remove_lt: "ok m \<Longrightarrow> get m k = Some v \<Longrightarrow> len (remove k m) < len m"
  using card_gt_0_iff [of "dom (get m)"] finite_dom [of m]
  by (auto simp: len_remove len_card)

end

lemma map_of_update_AList: "map_of (AList.update k v m) k' = (if k' = k then Some v else map_of m k')"
  by (simp add: update_conv)

lemma map_of_delete_AList: "map_of (AList.delete k m) k' = (if k' = k then None else map_of m k')"
  by (simp add: delete_conv')

interpretation hm: hash_map hm_ok hm_get hm_insert hm_remove hm_len "[]"
proof (unfold_locales, goal_cases)
  case (3 m k v)
  then show ?case by (simp add: hm_ok_def hm_insert_def distinct_update)
next
  case (5 m k)
  then show ?case by (simp add: hm_ok_def hm_remove_def distinct_delete)
next
  case (7 m)
  then have "card (set (map fst m)) = length m"
    by (metis distinct_card hm_ok_def length_map)
  moreover have "dom (hm_get m) = set (map fst m)"
    by (auto simp: hm_get_def [abs_def] dom_map_of_conv_image_fst)
  ultimately show ?case by (simp add: hm_len_def)
next
  case (8 m)
  show ?case by (simp add: hm_get_def [abs_def] finite_dom_map_of)
qed (simp_all add: hm_ok_def hm_get_def hm_insert_def hm_remove_def update_conv delete_conv'
      finite_dom_map_of)

lemmas hm_laws [hm_simps, simp] =
  hm.ok_empty hm.get_empty hm.ok_insert hm.get_insert hm.ok_remove hm.get_remove

lemma hm_ok_retain [hm_simps, simp]: "hm_ok m \<Longrightarrow> hm_ok (hm_retain p m)"
  by (auto simp: hm_ok_def hm_retain_def distinct_map inj_on_def)

lemma hm_get_retain [hm_simps]:
  assumes "hm_ok m"
  shows "hm_get (hm_retain p m) k = opt_filter (p k) (hm_get m k)"
  using assms
  by (induction m) (auto simp: hm_ok_def hm_get_def hm_retain_def opt_filter_def
      split: option.splits dest: map_of_SomeD intro: rev_image_eqI)

section \<open>Bounded search\<close>

text \<open>
  A loop \<open>for _ in 0..n\<close> that tries the states \<open>s, f s, f (f s), \<dots>\<close> and stops at
  the first that satisfies \<open>p\<close>: the shape of both allocators of the program.
\<close>

fun search :: "nat \<Rightarrow> ('s \<Rightarrow> bool) \<Rightarrow> ('s \<Rightarrow> 's) \<Rightarrow> 's \<Rightarrow> 's option" where
  "search 0 p f s = None"
| "search (Suc n) p f s = (if p s then Some s else search n p f (f s))"

lemma search_Some:
  assumes "search n p f s = Some t"
  shows "p t \<and> (\<exists>i<n. t = (f ^^ i) s)"
  using assms
proof (induction n arbitrary: s)
  case (Suc n)
  show ?case
  proof (cases "p s")
    case True
    with Suc.prems show ?thesis by (auto intro!: exI [of _ 0])
  next
    case False
    with Suc.prems have "search n p f (f s) = Some t" by simp
    then obtain i where "p t" "i < n" "t = (f ^^ i) (f s)" using Suc.IH by blast
    then show ?thesis by (auto intro!: exI [of _ "Suc i"] simp: funpow_swap1)
  qed
qed simp

lemma search_None:
  "search n p f s = None \<Longrightarrow> i < n \<Longrightarrow> \<not> p ((f ^^ i) s)"
proof (induction n arbitrary: s i)
  case (Suc n)
  then have np: "\<not> p s" and rest: "search n p f (f s) = None" by (auto split: if_splits)
  show ?case
  proof (cases i)
    case 0
    with np show ?thesis by simp
  next
    case (Suc j)
    with Suc.prems rest have "\<not> p ((f ^^ j) (f s))" using Suc.IH [OF rest, of j] \<open>i = Suc j\<close> by simp
    with Suc show ?thesis by (simp add: funpow_swap1)
  qed
qed simp


text \<open>A cyclic counter visits distinct values within one turn.\<close>

lemma add_mod_once:
  "(a :: nat) < m \<Longrightarrow> i < m \<Longrightarrow> (a + i) mod m = (if a + i < m then a + i else a + i - m)"
  by (simp add: mod_if)

lemma cyclic_inj:
  assumes "(a :: nat) < m" "i < m" "j < m" "(a + i) mod m = (a + j) mod m"
  shows "i = j"
  using assms add_mod_once [of a m] by (auto split: if_splits)

end
