(* ===== verification/RustStr.thy ===== *)
theory RustStr
  imports Prelude
begin

text \<open>
  The parts of Rust's standard library on strings that the program uses. A Rust
  \<^verbatim>\<open>str\<close> is its UTF-8 byte sequence, kept as a HOL string (one \<open>char\<close> per byte), so
  lengths and indices count bytes as in Rust. Unicode white space (\<^verbatim>\<open>char::is_whitespace\<close>)
  is recognised by its encodings.
\<close>

type_synonym rstr = string

section \<open>Bytes and characters\<close>

definition byte_of :: "char \<Rightarrow> u8" where
  "byte_of c = word_of_nat (of_char c)"

definition chr_of :: "u8 \<Rightarrow> char" where
  "chr_of b = char_of (unat b)"

definition as_bytes :: "rstr \<Rightarrow> bytes" where
  "as_bytes s = map byte_of s"

lemma of_char_lt [simp]: "(of_char c :: nat) < 256"
  by (cases c) (simp add: of_char_def horner_sum_simps)

lemma unat_byte_of [simp]: "unat (byte_of c) = of_char c"
  by (simp add: byte_of_def unat_of_nat_u8)

lemma chr_of_byte_of [simp]: "chr_of (byte_of c) = c"
  by (simp add: chr_of_def)

lemma byte_of_chr_of [simp]: "byte_of (chr_of b) = b"
  by (simp add: chr_of_def byte_of_def of_char_of)

lemma byte_of_inj [simp]: "byte_of c = byte_of d \<longleftrightarrow> c = d"
  by (metis chr_of_byte_of)

lemma map_chr_of_as_bytes [simp]: "map chr_of (as_bytes s) = s"
  by (simp add: as_bytes_def comp_def)

lemma length_as_bytes [simp]: "length (as_bytes s) = length s"
  by (simp add: as_bytes_def)

definition code_of :: "char \<Rightarrow> nat" where
  "code_of c = of_char c"

definition is_upper :: "char \<Rightarrow> bool" where
  "is_upper c \<longleftrightarrow> 65 \<le> code_of c \<and> code_of c \<le> 90"

definition is_digit :: "char \<Rightarrow> bool" where
  "is_digit c \<longleftrightarrow> 48 \<le> code_of c \<and> code_of c \<le> 57"

definition is_hexdigit :: "char \<Rightarrow> bool" where
  "is_hexdigit c \<longleftrightarrow>
     is_digit c \<or> (65 \<le> code_of c \<and> code_of c \<le> 70) \<or> (97 \<le> code_of c \<and> code_of c \<le> 102)"

definition is_ascii :: "char \<Rightarrow> bool" where
  "is_ascii c \<longleftrightarrow> code_of c < 128"

text \<open>\<^verbatim>\<open>to_ascii_lowercase\<close> and \<^verbatim>\<open>eq_ignore_ascii_case\<close>.\<close>

definition lower_char :: "char \<Rightarrow> char" where
  "lower_char c = (if is_upper c then char_of (code_of c + 32) else c)"

definition lowercase :: "rstr \<Rightarrow> rstr" where
  "lowercase s = map lower_char s"

definition eq_ci :: "rstr \<Rightarrow> rstr \<Rightarrow> bool" where
  "eq_ci a b \<longleftrightarrow> lowercase a = lowercase b"

lemma code_of_lower: "code_of (lower_char c) = (if is_upper c then code_of c + 32 else code_of c)"
  by (simp add: lower_char_def code_of_def is_upper_def of_char_of)

lemma lower_char_idem [simp]: "lower_char (lower_char c) = lower_char c"
proof (cases "is_upper c")
  case True
  then have "\<not> is_upper (lower_char c)" using code_of_lower [of c] by (simp add: is_upper_def)
  then show ?thesis by (simp add: lower_char_def)
qed (simp add: lower_char_def)

lemma lowercase_idem [simp]: "lowercase (lowercase s) = lowercase s"
  by (simp add: lowercase_def)

lemma length_lowercase [simp]: "length (lowercase s) = length s"
  by (simp add: lowercase_def)

lemma lowercase_append: "lowercase (a @ b) = lowercase a @ lowercase b"
  by (simp add: lowercase_def)

lemma eq_ci_refl [simp]: "eq_ci s s"
  by (simp add: eq_ci_def)

lemma eq_ci_sym: "eq_ci a b \<longleftrightarrow> eq_ci b a"
  by (auto simp: eq_ci_def)

section \<open>White space\<close>

text \<open>
  UTF-8 encodings of the characters with the Unicode property \<^verbatim>\<open>White_Space\<close>: U+0009 to
  U+000D, U+0020, U+0085, U+00A0, U+1680, U+2000 to U+200A, U+2028, U+2029, U+202F, U+205F,
  U+3000.
\<close>

definition ws_encodings :: "rstr list" where
  "ws_encodings =
     map (\<lambda>n. [char_of n]) [9, 10, 11, 12, 13, 32 :: nat]
     @ map (\<lambda>n. [char_of (0xC2 :: nat), char_of n]) [0x85, 0xA0 :: nat]
     @ [[char_of (0xE1 :: nat), char_of (0x9A :: nat), char_of (0x80 :: nat)]]
     @ map (\<lambda>n. [char_of (0xE2 :: nat), char_of (0x80 :: nat), char_of n])
         ([0x80..<0x8B] @ [0xA8, 0xA9, 0xAF])
     @ [[char_of (0xE2 :: nat), char_of (0x81 :: nat), char_of (0x9F :: nat)],
        [char_of (0xE3 :: nat), char_of (0x80 :: nat), char_of (0x80 :: nat)]]"

text \<open>Drop leading occurrences of the given (non-empty) encodings.\<close>

fun take_prefix :: "'a list \<Rightarrow> 'a list \<Rightarrow> 'a list option" where
  "take_prefix [] s = Some s"
| "take_prefix (p # ps) [] = None"
| "take_prefix (p # ps) (c # cs) = (if p = c then take_prefix ps cs else None)"

fun first_prefix :: "'a list list \<Rightarrow> 'a list \<Rightarrow> 'a list option" where
  "first_prefix [] s = None"
| "first_prefix (e # es) s =
     (case take_prefix e s of
        Some r \<Rightarrow> (if length r < length s then Some r else first_prefix es s)
      | None \<Rightarrow> first_prefix es s)"

lemma take_prefix_Some_iff: "take_prefix p s = Some r \<longleftrightarrow> s = p @ r"
  by (induction p s rule: take_prefix.induct) auto

lemma first_prefix_shorter: "first_prefix es s = Some r \<Longrightarrow> length r < length s"
  by (induction es) (auto split: option.splits if_splits)

function strip_start :: "'a list list \<Rightarrow> 'a list \<Rightarrow> 'a list" where
  "strip_start es s = (case first_prefix es s of None \<Rightarrow> s | Some r \<Rightarrow> strip_start es r)"
  by pat_completeness auto
termination
  by (relation "measure (\<lambda>(es, s). length s)") (auto dest: first_prefix_shorter)

declare strip_start.simps [simp del]

text \<open>\<^verbatim>\<open>trim_start\<close>, \<^verbatim>\<open>trim_end\<close> and \<^verbatim>\<open>trim\<close>.\<close>

definition trim_start :: "rstr \<Rightarrow> rstr" where
  "trim_start s = strip_start ws_encodings s"

definition trim_end :: "rstr \<Rightarrow> rstr" where
  "trim_end s = rev (strip_start (map rev ws_encodings) (rev s))"

definition trim :: "rstr \<Rightarrow> rstr" where
  "trim s = trim_end (trim_start s)"

lemma strip_start_suffix: "\<exists>p. s = p @ strip_start es s"
proof (induction es s rule: strip_start.induct)
  case (1 es s)
  show ?case
  proof (cases "first_prefix es s")
    case None
    then show ?thesis by (auto simp: strip_start.simps [of es s])
  next
    case (Some r)
    then obtain p where "r = p @ strip_start es r" using "1" by blast
    moreover from Some obtain e where "s = e @ r"
      by (induction es) (auto split: option.splits if_splits simp: take_prefix_Some_iff)
    ultimately have "s = (e @ p) @ strip_start es r" by simp
    then show ?thesis using Some by (metis option.case(2) strip_start.simps)
  qed
qed

lemma strip_start_length: "length (strip_start es s) \<le> length s"
  by (metis strip_start_suffix length_append le_add2)

lemma strip_start_fixed: "first_prefix es (strip_start es s) = None"
proof (induction es s rule: strip_start.induct)
  case (1 es s)
  then show ?case
    by (cases "first_prefix es s") (simp_all add: strip_start.simps [of es s])
qed

lemma strip_start_idem [simp]: "strip_start es (strip_start es s) = strip_start es s"
  by (subst strip_start.simps) (simp add: strip_start_fixed)

lemma strip_start_Nil [simp]: "strip_start es [] = []"
  using strip_start_length [of es "[]"] by simp

lemma trim_Nil [simp]: "trim [] = []" "trim_start [] = []" "trim_end [] = []"
  by (simp_all add: trim_def trim_start_def trim_end_def)

lemma trim_end_idem [simp]: "trim_end (trim_end s) = trim_end s"
  by (simp add: trim_end_def)

lemma trim_length: "length (trim s) \<le> length s"
proof -
  have "length (trim s) \<le> length (trim_start s)"
    unfolding trim_def trim_end_def using strip_start_length by (metis length_rev)
  also have "\<dots> \<le> length s" unfolding trim_start_def by (rule strip_start_length)
  finally show ?thesis .
qed

text \<open>A graphic ASCII character at an end is never trimmed.\<close>

definition graphic :: "char \<Rightarrow> bool" where
  "graphic c \<longleftrightarrow> 33 \<le> code_of c \<and> code_of c \<le> 126"

lemma ws_heads: "e \<in> set ws_encodings \<Longrightarrow> e \<noteq> [] \<and> \<not> graphic (hd e) \<and> \<not> graphic (last e)"
  by (auto simp: ws_encodings_def graphic_def code_of_def of_char_of)

lemma first_prefix_graphic:
  assumes "\<forall>e \<in> set es. e \<noteq> [] \<and> \<not> graphic (hd e)" and "graphic c"
  shows "first_prefix es (c # s) = None"
  using assms
proof (induction es)
  case (Cons e es)
  then have "take_prefix e (c # s) = None"
    by (cases e) auto
  with Cons show ?case by simp
qed simp

lemma trim_start_graphic [simp]: "graphic c \<Longrightarrow> trim_start (c # s) = c # s"
  unfolding trim_start_def
  by (subst strip_start.simps) (simp add: first_prefix_graphic ws_heads)

lemma trim_end_graphic [simp]: "graphic c \<Longrightarrow> trim_end (s @ [c]) = s @ [c]"
proof -
  assume g: "graphic c"
  have "\<forall>e \<in> set (map rev ws_encodings). e \<noteq> [] \<and> \<not> graphic (hd e)"
    using ws_heads by (auto simp: hd_rev)
  then show ?thesis unfolding trim_end_def
    by (subst strip_start.simps) (simp add: first_prefix_graphic g)
qed

lemma trim_graphic:
  assumes "s \<noteq> []" and "graphic (hd s)" and "graphic (last s)"
  shows "trim s = s"
proof -
  have "trim_start s = s" using assms by (cases s) auto
  moreover have "trim_end s = s"
    using assms trim_end_graphic [of "last s" "butlast s"] by simp
  ultimately show ?thesis by (simp add: trim_def)
qed

section \<open>Searching and splitting\<close>

text \<open>\<^verbatim>\<open>trim_matches\<close>, \<^verbatim>\<open>trim_end_matches\<close> with a set of one-byte characters.\<close>

definition trim_start_chars :: "(char \<Rightarrow> bool) \<Rightarrow> rstr \<Rightarrow> rstr" where
  "trim_start_chars p s = dropWhile p s"

definition trim_end_chars :: "(char \<Rightarrow> bool) \<Rightarrow> rstr \<Rightarrow> rstr" where
  "trim_end_chars p s = rev (dropWhile p (rev s))"

definition trim_chars :: "(char \<Rightarrow> bool) \<Rightarrow> rstr \<Rightarrow> rstr" where
  "trim_chars p s = trim_end_chars p (trim_start_chars p s)"

definition brackets :: "char \<Rightarrow> bool" where
  "brackets c \<longleftrightarrow> c = CHR ''['' \<or> c = CHR '']''"

text \<open>\<^verbatim>\<open>find\<close> and \<^verbatim>\<open>rfind\<close> of a one-byte character.\<close>

fun find_char :: "char \<Rightarrow> rstr \<Rightarrow> nat option" where
  "find_char c [] = None"
| "find_char c (x # xs) = (if x = c then Some 0 else map_option Suc (find_char c xs))"

definition rfind_char :: "char \<Rightarrow> rstr \<Rightarrow> nat option" where
  "rfind_char c s = map_option (\<lambda>i. length s - 1 - i) (find_char c (rev s))"

lemma find_char_None_iff: "find_char c s = None \<longleftrightarrow> c \<notin> set s"
  by (induction s) auto

lemma find_char_Some: "find_char c s = Some i \<Longrightarrow> i < length s \<and> s ! i = c \<and> c \<notin> set (take i s)"
  by (induction s arbitrary: i) (auto split: if_splits)

lemma find_char_append: "c \<notin> set a \<Longrightarrow> find_char c (a @ c # b) = Some (length a)"
  by (induction a) auto

lemma rfind_char_append: "c \<notin> set b \<Longrightarrow> rfind_char c (a @ c # b) = Some (length a)"
  using find_char_append [of c "rev b" "rev a"] by (simp add: rfind_char_def)

text \<open>\<^verbatim>\<open>split\<close> at the characters satisfying \<open>p\<close>; never empty, as in Rust.\<close>

fun split_at :: "(char \<Rightarrow> bool) \<Rightarrow> rstr \<Rightarrow> rstr list" where
  "split_at p [] = [[]]"
| "split_at p (c # cs) =
     (if p c then [] # split_at p cs
      else (case split_at p cs of [] \<Rightarrow> [[c]] | w # ws \<Rightarrow> (c # w) # ws))"

definition split_char :: "char \<Rightarrow> rstr \<Rightarrow> rstr list" where
  "split_char c s = split_at (\<lambda>x. x = c) s"

text \<open>\<^verbatim>\<open>split_once\<close> and \<^verbatim>\<open>rsplit_once\<close> at a one-byte character.\<close>

definition split_once :: "char \<Rightarrow> rstr \<Rightarrow> (rstr \<times> rstr) option" where
  "split_once c s = map_option (\<lambda>i. (take i s, drop (Suc i) s)) (find_char c s)"

definition rsplit_once :: "char \<Rightarrow> rstr \<Rightarrow> (rstr \<times> rstr) option" where
  "rsplit_once c s = map_option (\<lambda>i. (take i s, drop (Suc i) s)) (rfind_char c s)"

definition starts_with :: "rstr \<Rightarrow> rstr \<Rightarrow> bool" where
  "starts_with p s \<longleftrightarrow> take_prefix p s \<noteq> None"

definition ends_with :: "rstr \<Rightarrow> rstr \<Rightarrow> bool" where
  "ends_with p s \<longleftrightarrow> take_prefix (rev p) (rev s) \<noteq> None"

abbreviation strip_prefix :: "rstr \<Rightarrow> rstr \<Rightarrow> rstr option" where
  "strip_prefix \<equiv> take_prefix"

text \<open>Index of the first occurrence of a substring (\<^verbatim>\<open>str::find\<close>, \<^verbatim>\<open>windows(n).position\<close>).\<close>

fun find_sub :: "'a list \<Rightarrow> 'a list \<Rightarrow> nat option" where
  "find_sub p [] = (if p = [] then Some 0 else None)"
| "find_sub p (c # cs) =
     (if take_prefix p (c # cs) \<noteq> None then Some 0 else map_option Suc (find_sub p cs))"

definition contains_str :: "'a list \<Rightarrow> 'a list \<Rightarrow> bool" where
  "contains_str p s \<longleftrightarrow> find_sub p s \<noteq> None"

lemma split_at_ne [simp]: "split_at p s \<noteq> []"
  by (induction s) (auto split: list.splits)

lemma split_at_no_sep: "w \<in> set (split_at p s) \<Longrightarrow> c \<in> set w \<Longrightarrow> \<not> p c"
  by (induction s arbitrary: w) (fastforce split: list.splits if_splits)+

lemma split_at_none: "(\<forall>c\<in>set s. \<not> p c) \<Longrightarrow> split_at p s = [s]"
  by (induction s) auto

lemma split_at_append_sep:
  "\<lbrakk>\<forall>c\<in>set a. \<not> p c; p x\<rbrakk> \<Longrightarrow> split_at p (a @ x # b) = a # split_at p b"
  by (induction a) auto

lemma split_once_append: "c \<notin> set a \<Longrightarrow> split_once c (a @ c # b) = Some (a, b)"
  by (simp add: split_once_def find_char_append)

lemma split_once_none: "c \<notin> set a \<Longrightarrow> split_once c a = None"
  by (simp add: split_once_def find_char_None_iff)

lemma starts_with_iff: "starts_with p s \<longleftrightarrow> (\<exists>r. s = p @ r)"
  by (auto simp: starts_with_def take_prefix_Some_iff)

lemma find_sub_Some:
  "find_sub p s = Some i \<Longrightarrow> \<exists>r. s = take i s @ p @ r \<and> i + length p \<le> length s"
proof (induction s arbitrary: i)
  case (Cons c cs)
  show ?case
  proof (cases "take_prefix p (c # cs)")
    case None
    with Cons.prems obtain j where "find_sub p cs = Some j" "i = Suc j" by auto
    with Cons.IH show ?thesis by fastforce
  next
    case (Some r)
    with Cons.prems have "i = 0" "c # cs = p @ r" by (auto simp: take_prefix_Some_iff)
    then show ?thesis by (metis append_Nil le_add1 length_append plus_nat.add_0 take_0)
  qed
qed (auto split: if_splits)

lemma find_sub_append:
  "\<exists>i \<le> length a. find_sub p (a @ p @ b) = Some i"
proof (induction a)
  case Nil
  have "take_prefix p (p @ b) = Some b" by (simp add: take_prefix_Some_iff)
  then show ?case by (cases "p @ b") auto
next
  case (Cons c a)
  then show ?case by (cases "take_prefix p (c # a @ p @ b)") auto
qed

section \<open>Numbers\<close>

text \<open>
  \<^verbatim>\<open>str::parse\<close> for unsigned integers: an optional \<^verbatim>\<open>+\<close>, then one or more digits, and an
  error on overflow of the type's maximum.
\<close>

definition digit_val :: "char \<Rightarrow> nat" where
  "digit_val c = code_of c - 48"

fun digits_val :: "nat \<Rightarrow> rstr \<Rightarrow> nat option" where
  "digits_val acc [] = Some acc"
| "digits_val acc (c # cs) =
     (if is_digit c then digits_val (acc * 10 + digit_val c) cs else None)"

definition parse_uint :: "nat \<Rightarrow> rstr \<Rightarrow> nat option" where
  "parse_uint mx s =
     (let d = (case s of c # cs \<Rightarrow> if c = CHR ''+'' \<and> cs \<noteq> [] then cs else s | [] \<Rightarrow> s)
      in if d = [] then None else opt_filter (\<lambda>n. n \<le> mx) (digits_val 0 d))"

definition parse_u16 :: "rstr \<Rightarrow> u16 option" where
  "parse_u16 s = map_option word_of_nat (parse_uint 65535 s)"

definition parse_u32 :: "rstr \<Rightarrow> u32 option" where
  "parse_u32 s = map_option word_of_nat (parse_uint 4294967295 s)"

text \<open>\<^verbatim>\<open>parse::<i64>\<close>: a sign is allowed.\<close>

definition parse_i64 :: "rstr \<Rightarrow> int option" where
  "parse_i64 s =
     (case s of
        c # cs \<Rightarrow>
          (if c = CHR ''-'' \<and> cs \<noteq> []
           then map_option (\<lambda>n. - int n)
                  (opt_filter (\<lambda>n. n \<le> 9223372036854775808) (digits_val 0 cs))
           else map_option int (parse_uint 9223372036854775807 s))
      | [] \<Rightarrow> None)"

text \<open>\<^verbatim>\<open>Display\<close> of an unsigned integer.\<close>

fun show_nat :: "nat \<Rightarrow> rstr" where
  "show_nat n =
     (if n < 10 then [char_of (48 + n)] else show_nat (n div 10) @ [char_of (48 + n mod 10)])"

declare show_nat.simps [simp del]

definition show_u16 :: "u16 \<Rightarrow> rstr" where
  "show_u16 w = show_nat (unat w)"

definition show_int :: "int \<Rightarrow> rstr" where
  "show_int i = (if i < 0 then CHR ''-'' # show_nat (nat (- i)) else show_nat (nat i))"

lemma digits_val_append:
  "digits_val acc (a @ b) = Option.bind (digits_val acc a) (\<lambda>v. digits_val v b)"
  by (induction acc a rule: digits_val.induct) auto

lemma is_digit_char_of: "d < 10 \<Longrightarrow> is_digit (char_of (48 + d)) \<and> digit_val (char_of (48 + d)) = d"
  by (auto simp: is_digit_def digit_val_def code_of_def of_char_of)

lemma digits_val_show_nat [simp]: "digits_val 0 (show_nat n) = Some n"
proof (induction n rule: show_nat.induct)
  case (1 n)
  show ?case
  proof (cases "n < 10")
    case True
    then show ?thesis using is_digit_char_of [of n] by (simp add: show_nat.simps [of n])
  next
    case False
    then have "digits_val 0 (show_nat (n div 10)) = Some (n div 10)" using "1" by simp
    then show ?thesis using False is_digit_char_of [of "n mod 10"]
      by (simp add: show_nat.simps [of n] digits_val_append)
  qed
qed

lemma show_nat_ne [simp]: "show_nat n \<noteq> []"
  by (subst show_nat.simps) simp

lemma show_nat_digits: "c \<in> set (show_nat n) \<Longrightarrow> is_digit c"
proof (induction n rule: show_nat.induct)
  case (1 n)
  then show ?case
    using is_digit_char_of [of n] is_digit_char_of [of "n mod 10"]
    by (cases "n < 10") (auto simp: show_nat.simps [of n])
qed

lemma plus_not_digit: "\<not> is_digit (CHR ''+'')"
  by (simp add: is_digit_def code_of_def)

lemma parse_uint_show_nat: "n \<le> mx \<Longrightarrow> parse_uint mx (show_nat n) = Some n"
proof -
  assume n: "n \<le> mx"
  obtain c cs where s: "show_nat n = c # cs" by (cases "show_nat n") auto
  then have "c \<noteq> CHR ''+''" using show_nat_digits [of c n] plus_not_digit by auto
  then show ?thesis using n s digits_val_show_nat [of n] by (simp add: parse_uint_def)
qed

lemma parse_show_u16 [simp]: "parse_u16 (show_u16 w) = Some w"
proof -
  have "unat w \<le> 65535" using unat_u16_lt [of w] by linarith
  then show ?thesis by (simp add: parse_u16_def show_u16_def parse_uint_show_nat)
qed

section \<open>Characters, slices and replacement\<close>

text \<open>A string given by its bytes, for literals outside ASCII.\<close>

definition str_of :: "nat list \<Rightarrow> rstr" where
  "str_of ns = map char_of ns"

text \<open>
  \<^verbatim>\<open>is_char_boundary\<close>: an index in front of a byte that continues a character is not one, and
  slicing there (\<^verbatim>\<open>&s[i..]\<close>, \<^verbatim>\<open>&s[..i]\<close>) panics, as it does out of range.
\<close>

definition continues :: "char \<Rightarrow> bool" where
  "continues c \<longleftrightarrow> 128 \<le> code_of c \<and> code_of c < 192"

definition char_boundary :: "rstr \<Rightarrow> nat \<Rightarrow> bool" where
  "char_boundary s i \<longleftrightarrow> i \<le> length s \<and> (i < length s \<longrightarrow> i = 0 \<or> \<not> continues (s ! i))"

lemma char_boundary_ascii: "\<forall>c \<in> set s. is_ascii c \<Longrightarrow> i \<le> length s \<Longrightarrow> char_boundary s i"
  using nth_mem [of i s] by (fastforce simp: char_boundary_def continues_def is_ascii_def)

text \<open>\<^verbatim>\<open>str::replace\<close> of a nonempty pattern: matches are taken from the left and do not overlap.\<close>

fun replace_from :: "nat \<Rightarrow> rstr \<Rightarrow> rstr \<Rightarrow> rstr \<Rightarrow> rstr" where
  "replace_from k p r [] = []"
| "replace_from (Suc k) p r (c # cs) = replace_from k p r cs"
| "replace_from 0 p r (c # cs) =
     (if p \<noteq> [] \<and> take_prefix p (c # cs) \<noteq> None then r @ replace_from (length p - 1) p r cs
      else c # replace_from 0 p r cs)"

definition replace_str :: "rstr \<Rightarrow> rstr \<Rightarrow> rstr \<Rightarrow> rstr" where
  "replace_str p r s = replace_from 0 p r s"

lemma replace_str_Nil [simp]: "replace_str p r [] = []"
  by (simp add: replace_str_def)

lemma replace_str_one: "replace_str [x] r s = concat (map (\<lambda>c. if c = x then r else [c]) s)"
  by (induction s) (auto simp: replace_str_def)

lemma replace_str_two:
  "replace_str [x, y] r (c # cs) =
     (if c = x \<and> cs \<noteq> [] \<and> hd cs = y then r @ replace_str [x, y] r (tl cs) else c # replace_str [x, y] r cs)"
  by (cases cs) (auto simp: replace_str_def)

text \<open>\<^verbatim>\<open>trim_start_matches\<close> with a string.\<close>

definition trim_start_matches :: "rstr \<Rightarrow> rstr \<Rightarrow> rstr" where
  "trim_start_matches p s = strip_start [p] s"

text \<open>All white space removed, \<^verbatim>\<open>chars().filter(|c| !c.is_whitespace())\<close>.\<close>

function drop_whitespace :: "rstr \<Rightarrow> rstr" where
  "drop_whitespace s =
     (case first_prefix ws_encodings s of
        Some r \<Rightarrow> drop_whitespace r
      | None \<Rightarrow> (case s of [] \<Rightarrow> [] | c # cs \<Rightarrow> c # drop_whitespace cs))"
  by pat_completeness auto
termination
  by (relation "measure length") (auto dest: first_prefix_shorter)

declare drop_whitespace.simps [simp del]

text \<open>\<^verbatim>\<open>str::lines\<close>: split at line feeds, a trailing carriage return of each dropped, no last empty line.\<close>

definition strip_cr :: "rstr \<Rightarrow> rstr" where
  "strip_cr l = (if l \<noteq> [] \<and> last l = CHR 13 then butlast l else l)"

definition lines_of :: "rstr \<Rightarrow> rstr list" where
  "lines_of s =
     (let ws = split_char (CHR 10) s
      in map strip_cr (butlast ws) @ (if last ws = [] then [] else [last ws]))"

text \<open>\<^verbatim>\<open>v.join(sep)\<close>.\<close>

fun join_with :: "rstr \<Rightarrow> rstr list \<Rightarrow> rstr" where
  "join_with sep [] = []"
| "join_with sep [x] = x"
| "join_with sep (x # y # ys) = x @ sep @ join_with sep (y # ys)"

end
