(* ===== verification/IpAddr.thy ===== *)
theory IpAddr
  imports RustStr
begin

text \<open>
  \<^verbatim>\<open>std::net\<close>: addresses, their classification predicates, and the textual parsers behind
  \<^verbatim>\<open>str::parse::<IpAddr>()\<close>. An IPv6 address is the list of its eight 16-bit segments.
\<close>

datatype ipv4 = Ipv4 (oct0: u8) (oct1: u8) (oct2: u8) (oct3: u8)

datatype ip_addr = V4 ipv4 | V6 "u16 list"

type_synonym sockaddr_v4 = "ipv4 \<times> u16"

definition octets :: "ipv4 \<Rightarrow> bytes" where
  "octets ip = [oct0 ip, oct1 ip, oct2 ip, oct3 ip]"

definition octets6 :: "u16 list \<Rightarrow> bytes" where
  "octets6 segs = concat (map to_be16 segs)"

definition is_ipv4 :: "ip_addr \<Rightarrow> bool" where
  "is_ipv4 ip = (case ip of V4 _ \<Rightarrow> True | V6 _ \<Rightarrow> False)"

lemma is_ipv4_simps [simp]: "is_ipv4 (V4 a)" "\<not> is_ipv4 (V6 b)"
  by (simp_all add: is_ipv4_def)

lemma octets_inj [simp]: "octets a = octets b \<longleftrightarrow> a = b"
  by (cases a; cases b) (simp add: octets_def)

lemma length_octets [simp]: "length (octets a) = 4"
  by (simp add: octets_def)

section \<open>Classification\<close>

text \<open>\<^verbatim>\<open>Ipv4Addr::is_loopback\<close>, \<^verbatim>\<open>is_private\<close>, \<^verbatim>\<open>is_link_local\<close>, \<^verbatim>\<open>is_unspecified\<close>.\<close>

definition v4_loopback :: "ipv4 \<Rightarrow> bool" where
  "v4_loopback ip \<longleftrightarrow> oct0 ip = 127"

definition v4_private :: "ipv4 \<Rightarrow> bool" where
  "v4_private ip \<longleftrightarrow>
     oct0 ip = 10 \<or> (oct0 ip = 172 \<and> 16 \<le> oct1 ip \<and> oct1 ip \<le> 31) \<or>
     (oct0 ip = 192 \<and> oct1 ip = 168)"

definition v4_link_local :: "ipv4 \<Rightarrow> bool" where
  "v4_link_local ip \<longleftrightarrow> oct0 ip = 169 \<and> oct1 ip = 254"

definition v4_unspecified :: "ipv4 \<Rightarrow> bool" where
  "v4_unspecified ip \<longleftrightarrow> ip = Ipv4 0 0 0 0"

text \<open>\<^verbatim>\<open>Ipv6Addr::is_loopback\<close>, \<^verbatim>\<open>is_unicast_link_local\<close>, \<^verbatim>\<open>is_multicast\<close>.\<close>

definition v6_loopback :: "u16 list \<Rightarrow> bool" where
  "v6_loopback s \<longleftrightarrow> s = [0, 0, 0, 0, 0, 0, 0, 1]"

definition v6_link_local :: "u16 list \<Rightarrow> bool" where
  "v6_link_local s \<longleftrightarrow> (hd s AND 0xffc0) = 0xfe80"

definition v6_multicast :: "u16 list \<Rightarrow> bool" where
  "v6_multicast s \<longleftrightarrow> (hd s AND 0xff00) = 0xff00"

section \<open>Display of IPv4\<close>

definition show_u8 :: "u8 \<Rightarrow> rstr" where
  "show_u8 b = show_nat (unat b)"

definition show_ipv4 :: "ipv4 \<Rightarrow> rstr" where
  "show_ipv4 ip =
     show_u8 (oct0 ip) @ ''.'' @ show_u8 (oct1 ip) @ ''.'' @ show_u8 (oct2 ip) @ ''.'' @
     show_u8 (oct3 ip)"

section \<open>Parser\<close>

text \<open>
  \<^verbatim>\<open>Parser::read_number\<close> (\<^verbatim>\<open>core::net::parser\<close>): at most \<open>maxd\<close> digits of the radix, at least
  one, no value above \<open>mx\<close>; with \<open>zero_prefix\<close> false a leading zero may only be the number
  zero. Reading one digit too many is an error, not a stop.
\<close>

definition hex_val :: "char \<Rightarrow> nat option" where
  "hex_val c =
     (if is_digit c then Some (code_of c - 48)
      else if 97 \<le> code_of c \<and> code_of c \<le> 102 then Some (code_of c - 87)
      else if 65 \<le> code_of c \<and> code_of c \<le> 70 then Some (code_of c - 55)
      else None)"

definition radix_digit :: "nat \<Rightarrow> char \<Rightarrow> nat option" where
  "radix_digit r c = opt_filter (\<lambda>d. d < r) (hex_val c)"

fun read_digits :: "nat \<Rightarrow> nat \<Rightarrow> nat \<Rightarrow> nat \<Rightarrow> nat \<Rightarrow> rstr \<Rightarrow> (nat \<times> nat \<times> rstr) option" where
  "read_digits r maxd mx n acc [] = Some (n, acc, [])"
| "read_digits r maxd mx n acc (c # cs) =
     (case radix_digit r c of
        None \<Rightarrow> Some (n, acc, c # cs)
      | Some d \<Rightarrow>
          (let acc' = acc * r + d in
           if mx < acc' \<or> maxd < Suc n then None else read_digits r maxd mx (Suc n) acc' cs))"

definition read_number :: "nat \<Rightarrow> nat \<Rightarrow> nat \<Rightarrow> bool \<Rightarrow> rstr \<Rightarrow> (nat \<times> rstr) option" where
  "read_number r maxd mx zero_prefix s =
     (case read_digits r maxd mx 0 0 s of
        None \<Rightarrow> None
      | Some (n, v, rest) \<Rightarrow>
          if n = 0 then None
          else if \<not> zero_prefix \<and> s \<noteq> [] \<and> hd s = CHR ''0'' \<and> 1 < n then None
          else Some (v, rest))"

definition read_char :: "char \<Rightarrow> rstr \<Rightarrow> rstr option" where
  "read_char c s = (case s of [] \<Rightarrow> None | x # xs \<Rightarrow> if x = c then Some xs else None)"

definition read_octet :: "rstr \<Rightarrow> (u8 \<times> rstr) option" where
  "read_octet s = map_option (\<lambda>(v, r). (word_of_nat v, r)) (read_number 10 3 255 False s)"

definition read_ipv4 :: "rstr \<Rightarrow> (ipv4 \<times> rstr) option" where
  "read_ipv4 s =
     Option.bind (read_octet s) (\<lambda>(a, s1).
     Option.bind (read_char CHR ''.'' s1) (\<lambda>s2.
     Option.bind (read_octet s2) (\<lambda>(b, s3).
     Option.bind (read_char CHR ''.'' s3) (\<lambda>s4.
     Option.bind (read_octet s4) (\<lambda>(c, s5).
     Option.bind (read_char CHR ''.'' s5) (\<lambda>s6.
     Option.bind (read_octet s6) (\<lambda>(d, s7).
       Some (Ipv4 a b c d, s7))))))))"

text \<open>\<^verbatim>\<open>read_separator\<close>: a colon before every group but the first.\<close>

definition after_sep :: "nat \<Rightarrow> rstr \<Rightarrow> rstr option" where
  "after_sep i s = (if i = 0 then Some s else read_char CHR '':'' s)"

text \<open>\<^verbatim>\<open>read_groups\<close>: the groups from index \<open>i\<close> up to \<open>limit\<close>, whether they end with an
  embedded IPv4 address, and the rest of the input.\<close>

function read_groups :: "nat \<Rightarrow> nat \<Rightarrow> rstr \<Rightarrow> u16 list \<times> bool \<times> rstr" where
  "read_groups limit i s =
     (if limit \<le> i then ([], False, s)
      else
        (case (if i + 1 < limit then Option.bind (after_sep i s) read_ipv4 else None) of
           Some (ip, r) \<Rightarrow>
             ([from_be16 (oct0 ip) (oct1 ip), from_be16 (oct2 ip) (oct3 ip)], True, r)
         | None \<Rightarrow>
             (case Option.bind (after_sep i s) (read_number 16 4 65535 True) of
                None \<Rightarrow> ([], False, s)
              | Some (v, r) \<Rightarrow>
                  (let (gs, v4, r') = read_groups limit (Suc i) r
                   in (word_of_nat v # gs, v4, r')))))"
  by pat_completeness auto
termination
  by (relation "measure (\<lambda>(limit, i, s). limit - i)") auto

declare read_groups.simps [simp del]

definition read_ipv6 :: "rstr \<Rightarrow> (u16 list \<times> rstr) option" where
  "read_ipv6 s =
     (let (head, v4, r) = read_groups 8 0 s in
      if length head = 8 then Some (head, r)
      else if v4 then None
      else
        Option.bind (read_char CHR '':'' r) (\<lambda>r1.
        Option.bind (read_char CHR '':'' r1) (\<lambda>r2.
          (let (tail, _, r3) = read_groups (8 - (length head + 1)) 0 r2 in
           Some (head @ replicate (8 - length head - length tail) 0 @ tail, r3)))))"

text \<open>\<^verbatim>\<open>IpAddr::from_str\<close>: IPv4 first, then IPv6; all input must be consumed.\<close>

definition parse_ip :: "rstr \<Rightarrow> ip_addr option" where
  "parse_ip s =
     (case read_ipv4 s of
        Some (ip, r) \<Rightarrow> if r = [] then Some (V4 ip) else None
      | None \<Rightarrow>
          (case read_ipv6 s of
             Some (segs, r) \<Rightarrow> if r = [] then Some (V6 segs) else None
           | None \<Rightarrow> None))"

section \<open>Parser facts\<close>

lemma read_groups_length: "length (fst (read_groups limit i s)) \<le> limit - i"
proof (induction limit i s rule: read_groups.induct)
  case (1 limit i s)
  show ?case
  proof (cases "limit \<le> i")
    case True
    then show ?thesis by (simp add: read_groups.simps [of limit i s])
  next
    case False
    then show ?thesis using "1"
      by (fastforce simp: read_groups.simps [of limit i s] split: option.splits prod.splits if_splits)
  qed
qed

text \<open>A parsed IPv6 address has exactly eight segments.\<close>

lemma read_ipv6_length:
  assumes "read_ipv6 s = Some (segs, r)"
  shows "length segs = 8"
proof -
  obtain head v4 r0 where h: "read_groups 8 0 s = (head, v4, r0)"
    by (cases "read_groups 8 0 s") auto
  have hl: "length head \<le> 8" using read_groups_length [of 8 0 s] h by simp
  show ?thesis
  proof (cases "length head = 8")
    case True
    with assms h show ?thesis by (simp add: read_ipv6_def)
  next
    case False
    then obtain r2 tail v t where tl: "read_groups (8 - (length head + 1)) 0 r2 = (tail, v, t)"
      and s: "segs = head @ replicate (8 - length head - length tail) 0 @ tail"
      using assms h
      by (fastforce simp: read_ipv6_def bind_eq_Some_conv Let_def case_prod_beta prod_eq_iff
          split: if_splits)
    have "length tail \<le> 8 - (length head + 1)"
      using read_groups_length [of "8 - (length head + 1)" 0 r2] tl by simp
    with s hl False show ?thesis by simp
  qed
qed

lemma parse_ip_V6_length: "parse_ip s = Some (V6 segs) \<Longrightarrow> length segs = 8"
  by (auto simp: parse_ip_def read_ipv6_length split: option.splits if_splits prod.splits)

lemma length_octets6 [simp]: "length (octets6 segs) = 2 * length segs"
  by (induction segs) (simp_all add: octets6_def)

text \<open>Reading back a printed number: at most three digits, no leading zero.\<close>

lemma radix_digit_dec: "is_digit c \<Longrightarrow> radix_digit 10 c = Some (digit_val c)"
  by (auto simp: radix_digit_def hex_val_def is_digit_def digit_val_def opt_filter_def)

lemma radix_digit_nondec: "radix_digit 10 c = None \<longleftrightarrow> \<not> is_digit c"
  by (auto simp: radix_digit_def hex_val_def is_digit_def opt_filter_def)

lemma digits_val_mono: "digits_val acc s = Some v \<Longrightarrow> acc \<le> v"
  by (induction acc s rule: digits_val.induct) (fastforce split: if_splits)+

lemma read_digits_exact:
  assumes "digits_val acc d = Some v" and "v \<le> mx" and "n + length d \<le> maxd"
    and "rest = [] \<or> \<not> is_digit (hd rest)"
  shows "read_digits 10 maxd mx n acc (d @ rest) = Some (n + length d, v, rest)"
  using assms
proof (induction d arbitrary: n acc)
  case Nil
  then show ?case by (cases rest) (auto simp: radix_digit_nondec [THEN iffD2])
next
  case (Cons c d)
  then have dig: "is_digit c" and v: "digits_val (acc * 10 + digit_val c) d = Some v"
    by (auto split: if_splits)
  then have "acc * 10 + digit_val c \<le> mx" using digits_val_mono Cons.prems(2) by fastforce
  with Cons dig v show ?case by (simp add: radix_digit_dec Let_def)
qed

lemma show_nat_small:
  "n < 1000 \<Longrightarrow> length (show_nat n) \<le> 3 \<and> (hd (show_nat n) = CHR ''0'' \<longrightarrow> length (show_nat n) = 1)"
proof -
  assume n: "n < 1000"
  have one: "show_nat m = [char_of (48 + m)]" if "m < 10" for m
    using that by (simp add: show_nat.simps)
  have z: "char_of (48 + m) = CHR ''0'' \<longleftrightarrow> m = 0" if "m < 10" for m :: nat
  proof
    assume "char_of (48 + m) = CHR ''0''"
    then have "of_char (char_of (48 + m) :: char) = (48 :: nat)" by simp
    with that show "m = 0" by (simp add: of_char_of)
  qed (simp add: char_of_eq_iff take_bit_eq_mod)
  consider "n < 10" | "10 \<le> n" "n < 100" | "100 \<le> n" by linarith
  then show ?thesis
  proof cases
    case 1
    then show ?thesis by (simp add: one)
  next
    case 2
    then have "n div 10 < 10" "n div 10 \<noteq> 0" by auto
    with 2 show ?thesis by (simp add: show_nat.simps [of n] one z)
  next
    case 3
    with n have "n div 10 div 10 < 10" "n div 10 div 10 \<noteq> 0" "\<not> n < 10" "\<not> n div 10 < 10" by auto
    then show ?thesis
      by (simp add: show_nat.simps [of n] show_nat.simps [of "n div 10"] one z hd_append)
  qed
qed

lemma read_octet_show:
  assumes "rest = [] \<or> \<not> is_digit (hd rest)"
  shows "read_octet (show_u8 b @ rest) = Some (b, rest)"
proof -
  have b: "unat b < 1000" "unat b \<le> 255" using unat_u8_lt [of b] by linarith+
  have d: "read_digits 10 3 255 0 0 (show_nat (unat b) @ rest) =
      Some (0 + length (show_nat (unat b)), unat b, rest)"
    by (rule read_digits_exact) (use b assms show_nat_small [OF b(1)] in auto)
  then show ?thesis using show_nat_small [OF b(1)]
    by (auto simp: read_octet_def show_u8_def read_number_def hd_append)
qed

lemma read_octet_dot: "read_octet (show_u8 b @ CHR ''.'' # r) = Some (b, CHR ''.'' # r)"
  by (rule read_octet_show) (simp add: is_digit_def code_of_def)

text \<open>Printing an IPv4 address and parsing it again gives the address.\<close>

lemma parse_ip_show_ipv4: "parse_ip (show_ipv4 ip) = Some (V4 ip)"
proof -
  have "read_ipv4 (show_ipv4 ip) = Some (ip, [])"
    using read_octet_show [of "[]" "oct3 ip"]
    by (simp add: read_ipv4_def show_ipv4_def read_octet_dot read_char_def)
  then show ?thesis by (simp add: parse_ip_def)
qed


section \<open>Display of addresses\<close>

text \<open>Lower-case hexadecimal without leading zeros, \<^verbatim>\<open>{:x}\<close>.\<close>

definition hex_digit :: "nat \<Rightarrow> char" where
  "hex_digit n = ''0123456789abcdef'' ! (n mod 16)"

fun show_hex :: "nat \<Rightarrow> rstr" where
  "show_hex n = (if n < 16 then [hex_digit n] else show_hex (n div 16) @ [hex_digit n])"

declare show_hex.simps [simp del]

text \<open>Length of the run of zero segments at the head, and the first longest run.\<close>

fun zero_run :: "u16 list \<Rightarrow> nat" where
  "zero_run [] = 0"
| "zero_run (s # ss) = (if s = 0 then Suc (zero_run ss) else 0)"

fun longest_zeros :: "nat \<Rightarrow> u16 list \<Rightarrow> nat \<times> nat \<Rightarrow> nat \<times> nat" where
  "longest_zeros i [] best = best"
| "longest_zeros i (s # ss) best =
     (let n = zero_run (s # ss)
      in longest_zeros (Suc i) ss (if snd best < n then (i, n) else best))"

definition colon_join :: "u16 list \<Rightarrow> rstr" where
  "colon_join ss = concat (map (\<lambda>(i, s). (if i = 0 then [] else '':'') @ show_hex (unat s)) (enumerate 0 ss))"

definition show_ipv6 :: "u16 list \<Rightarrow> rstr" where
  "show_ipv6 ss =
     (if take 6 ss = [0, 0, 0, 0, 0, 0xFFFF] \<and> length ss = 8 then
        ''::ffff:'' @ show_ipv4 (Ipv4 (hi8 (ss ! 6)) (lo8 (ss ! 6)) (hi8 (ss ! 7)) (lo8 (ss ! 7)))
      else
        (case longest_zeros 0 ss (0, 0) of
           (start, len) \<Rightarrow>
             if 1 < len then colon_join (take start ss) @ ''::'' @ colon_join (drop (start + len) ss)
             else colon_join ss))"

definition show_ip :: "ip_addr \<Rightarrow> rstr" where
  "show_ip ip = (case ip of V4 a \<Rightarrow> show_ipv4 a | V6 ss \<Rightarrow> show_ipv6 ss)"

end
