(* ===== verification/Packet.thy ===== *)
theory Packet
  imports IpAddr
begin

text \<open>
  \<^verbatim>\<open>crates/clash-tun/src/packet.rs\<close>: IPv4, UDP and TCP headers of the packets that cross the
  tunnel device, with the Internet checksum. Buffers that the source mutates in place are
  returned. The main result is that every rewritten header verifies: the one's complement acc
  over the covered bytes, checksum included, folds to zero.
\<close>

definition PROTO_TCP :: u8 where "PROTO_TCP = 6"
definition PROTO_UDP :: u8 where "PROTO_UDP = 17"
definition IP_HDR_MIN :: nat where "IP_HDR_MIN = 20"
definition UDP_HDR :: nat where "UDP_HDR = 8"
definition TCP_HDR_MIN :: nat where "TCP_HDR_MIN = 20"

section \<open>Checksum\<close>

definition add_ip :: "u32 \<Rightarrow> ipv4 \<Rightarrow> u32" where
  "add_ip acc ip =
     acc + (push_bit 8 (ucast (oct0 ip)) OR ucast (oct1 ip))
       + (push_bit 8 (ucast (oct2 ip)) OR ucast (oct3 ip))"

fun sum_words :: "bytes \<Rightarrow> u32" where
  "sum_words [] = 0"
| "sum_words [a] = push_bit 8 (ucast a)"
| "sum_words (a # b # rest) = (push_bit 8 (ucast a) OR ucast b) + sum_words rest"

function fold16 :: "u32 \<Rightarrow> u16" where
  "fold16 acc =
     (if 0xFFFF < acc then fold16 ((acc AND 0xFFFF) + drop_bit 16 acc) else ucast (NOT acc))"
  by pat_completeness auto

lemma and_ffff: "unat (s AND 0xFFFF :: u32) = unat s mod 65536"
proof -
  have "s AND 0xFFFF = take_bit 16 s" by (simp add: take_bit_eq_mask mask_eq_exp_minus_1)
  then show ?thesis by (simp add: take_bit_eq_mod unat_mod)
qed

lemma shift16: "unat (drop_bit 16 s :: u32) = unat s div 65536"
  by (simp add: drop_bit_eq_div unat_div)

lemma fold_step_unat:
  "unat ((s AND 0xFFFF) + drop_bit 16 s :: u32) = unat s mod 65536 + unat s div 65536"
proof -
  have "unat s mod 65536 + unat s div 65536 < 4294967296"
    using unat_u32_lt [of s] by linarith
  then show ?thesis unfolding unat_word_ariths and_ffff shift16 by simp
qed

lemma fold_step_less:
  assumes "65535 < n"
  shows "n mod 65536 + n div 65536 < (n :: nat)"
proof -
  have "0 < n div 65536" using assms by (simp add: div_greater_zero_iff)
  then show ?thesis using div_mult_mod_eq [of n 65536] by linarith
qed

termination fold16
proof (relation "measure unat", goal_cases)
  case (2 s)
  then have "65535 < unat s" by (simp add: word_less_nat_alt)
  then have "unat s mod 65536 + unat s div 65536 < unat s" by (rule fold_step_less)
  then show ?case unfolding in_measure fold_step_unat .
qed simp

declare fold16.simps [simp del]

section \<open>Headers\<close>

definition parse_ipv4 :: "bytes \<Rightarrow> (nat \<times> u8 \<times> ipv4 \<times> ipv4 \<times> nat) option" where
  "parse_ipv4 packet =
     (if length packet < IP_HDR_MIN then None
      else if drop_bit 4 (packet ! 0) \<noteq> 4 then None
      else
        (let header_len = unat (packet ! 0 AND 0x0F) * 4 in
         if header_len < IP_HDR_MIN \<or> length packet < header_len then None
         else
           (let total_len = unat (from_be16 (packet ! 2) (packet ! 3));
                total_len = (if total_len < header_len \<or> length packet < total_len
                             then length packet else total_len);
                proto = packet ! 9;
                src = Ipv4 (packet ! 12) (packet ! 13) (packet ! 14) (packet ! 15);
                dst = Ipv4 (packet ! 16) (packet ! 17) (packet ! 18) (packet ! 19)
            in Some (header_len, proto, src, dst, total_len))))"

definition update_ip_checksum :: "nat \<Rightarrow> bytes \<Rightarrow> bytes" where
  "update_ip_checksum header_len packet =
     (let packet = packet[10 := 0, 11 := 0];
          acc = fold16 (sum_words (take header_len packet))
      in put_at 10 (to_be16 acc) packet)"

definition set_addresses :: "nat \<Rightarrow> ipv4 \<Rightarrow> ipv4 \<Rightarrow> bytes \<Rightarrow> bytes" where
  "set_addresses header_len src dst packet =
     update_ip_checksum header_len (put_at 16 (octets dst) (put_at 12 (octets src) packet))"

definition set_total_length :: "u16 \<Rightarrow> bytes \<Rightarrow> bytes" where
  "set_total_length total_len packet =
     (let packet = put_at 2 (to_be16 total_len) packet;
          header_len = unat (packet ! 0 AND 0x0F) * 4
      in update_ip_checksum header_len packet)"

definition parse_udp :: "bytes \<Rightarrow> (u16 \<times> u16 \<times> nat) option" where
  "parse_udp segment =
     (if length segment < UDP_HDR then None
      else
        (let src = from_be16 (segment ! 0) (segment ! 1);
             dst = from_be16 (segment ! 2) (segment ! 3);
             udp_len = unat (from_be16 (segment ! 4) (segment ! 5));
             udp_len = (if udp_len < UDP_HDR \<or> length segment < udp_len then length segment else udp_len)
         in Some (src, dst, udp_len - UDP_HDR)))"

definition write_udp :: "u16 \<Rightarrow> u16 \<Rightarrow> bytes \<Rightarrow> ipv4 \<Rightarrow> ipv4 \<Rightarrow> bytes \<Rightarrow> bytes" where
  "write_udp src_port dst_port payload src dst segment =
     (let udp_len = UDP_HDR + length payload;
          segment = put_at 0 (to_be16 src_port) segment;
          segment = put_at 2 (to_be16 dst_port) segment;
          segment = put_at 4 (to_be16 (word_of_nat udp_len)) segment;
          segment = segment[6 := 0, 7 := 0];
          segment = put_at UDP_HDR payload segment;
          acc = add_ip (add_ip 0 src) dst;
          acc = acc + ucast PROTO_UDP;
          acc = acc + word_of_nat udp_len;
          acc = acc + sum_words (take udp_len segment);
          csum = fold16 acc;
          csum = (if csum = 0 then 0xFFFF else csum)
      in put_at 6 (to_be16 csum) segment)"

definition parse_tcp :: "bytes \<Rightarrow> (u16 \<times> u16 \<times> u8 \<times> nat) option" where
  "parse_tcp segment =
     (if length segment < TCP_HDR_MIN then None
      else
        (let src = from_be16 (segment ! 0) (segment ! 1);
             dst = from_be16 (segment ! 2) (segment ! 3);
             data_off = unat (drop_bit 4 (segment ! 12)) * 4
         in if data_off < TCP_HDR_MIN \<or> length segment < data_off then None
            else Some (src, dst, segment ! 13, data_off)))"

definition set_tcp_ports :: "u16 \<Rightarrow> u16 \<Rightarrow> bytes \<Rightarrow> bytes" where
  "set_tcp_ports src dst segment = put_at 2 (to_be16 dst) (put_at 0 (to_be16 src) segment)"

text \<open>The length of the TCP segment as \<^verbatim>\<open>update_tcp_checksum\<close> derives it.\<close>

definition tcp_total :: "nat \<Rightarrow> bytes \<Rightarrow> nat" where
  "tcp_total ip_hdr_len packet =
     (let hdr_total = unat (from_be16 (packet ! 2) (packet ! 3)) in
      if ip_hdr_len \<le> hdr_total \<and> hdr_total \<le> length packet then hdr_total else length packet)"

definition update_tcp_checksum :: "nat \<Rightarrow> ipv4 \<Rightarrow> ipv4 \<Rightarrow> bytes \<Rightarrow> bytes" where
  "update_tcp_checksum ip_hdr_len src dst packet =
     (let tcp_len = tcp_total ip_hdr_len packet - ip_hdr_len in
      if tcp_len < TCP_HDR_MIN then packet
      else
        (let packet = packet[ip_hdr_len + 16 := 0, ip_hdr_len + 17 := 0];
             acc = add_ip (add_ip 0 src) dst;
             acc = acc + ucast PROTO_TCP;
             acc = acc + word_of_nat tcp_len;
             acc = acc + sum_words (slice ip_hdr_len (ip_hdr_len + tcp_len) packet)
         in put_at (ip_hdr_len + 16) (to_be16 (fold16 acc)) packet))"

section \<open>One's complement sums over the natural numbers\<close>

fun nsum :: "bytes \<Rightarrow> nat" where
  "nsum [] = 0"
| "nsum [a] = 256 * unat a"
| "nsum (a # b # rest) = 256 * unat a + unat b + nsum rest"

lemma word16_unat: "unat (push_bit 8 (ucast (a :: u8)) OR ucast (b :: u8) :: u32) = 256 * unat a + unat b"
proof -
  have d: "push_bit 8 (ucast a :: u32) OR ucast b = push_bit 8 (ucast a) + ucast b"
    by (rule disjunctive_add [symmetric]) (auto simp: bit_simps dest: bit_imp_le_length)
  have "unat a * 256 + unat b < 65536" by (rule two_bytes_bound)
  then show ?thesis unfolding d
    by (simp add: push_bit_eq_mult unat_word_ariths unsigned_ucast_eq take_bit_eq_mod)
qed

lemma word16_of_nat:
  "push_bit 8 (ucast (a :: u8)) OR ucast (b :: u8) = (word_of_nat (256 * unat a + unat b) :: u32)"
  unfolding word16_unat [symmetric] by simp

lemma sum_words_nsum: "sum_words d = word_of_nat (nsum d)"
proof (induction d rule: sum_words.induct)
  case (2 a)
  show ?case using word16_of_nat [of a 0] by simp
next
  case (3 a b rest)
  show ?case unfolding sum_words.simps nsum.simps 3 word16_of_nat by simp
qed simp

lemma nsum_bound: "nsum d \<le> 65535 * ((length d + 1) div 2)"
proof (induction d rule: nsum.induct)
  case (2 a)
  have "256 * unat a \<le> 65535" using unat_u8_lt [of a] by linarith
  then show ?case by simp
next
  case (3 a b rest)
  then show ?case using two_bytes_bound [of a b] by simp
qed simp

lemma nsum_append: "even (length xs) \<Longrightarrow> nsum (xs @ ys) = nsum xs + nsum ys"
  by (induction xs rule: nsum.induct) auto

lemma nsum_to_be16: "nsum (to_be16 w) = unat w"
proof -
  have "unat w div 256 < 256" using unat_u16_lt [of w] by linarith
  then show ?thesis by (simp add: to_be16_def hi8_def lo8_def unat_of_nat_u8)
qed

lemma unat_NOT_small:
  assumes "unat s \<le> 65535"
  shows "unat (ucast (NOT s :: u32) :: u16) = 65535 - unat s"
proof -
  have "NOT s = - 1 - s" by (simp add: not_eq_complement)
  then have "unat (NOT s) = unat (- 1 :: u32) - unat s"
    by (simp add: unat_sub word_order.extremum)
  then have "unat (NOT s) = 4294967295 - unat s" by (simp add: unsigned_minus_1_eq_mask mask_eq_exp_minus_1)
  moreover obtain d where d: "65535 = unat s + d" using le_Suc_ex [OF assms] by blast
  have "4294967295 = unat s + (65535 * 65536 + d)" using d by linarith
  then have "4294967295 - unat s = 65535 * 65536 + d" by (metis diff_add_inverse)
  moreover have "d < 65536" "65535 - unat s = d" using d by linarith+
  moreover have "(65535 * 65536 + d) mod 65536 = d"
    unfolding mod_mult_self3 by (rule mod_less) fact
  ultimately show ?thesis by (simp add: unsigned_ucast_eq take_bit_eq_mod)
qed

text \<open>Folding a sum computes the complement of its residue modulo 65535, where a nonzero
  multiple of 65535 is represented by 65535.\<close>

lemma fold16_residue:
  "\<exists>r. unat (fold16 s) = 65535 - r \<and> r \<le> 65535 \<and> r mod 65535 = unat s mod 65535
     \<and> (r = 0 \<longleftrightarrow> unat s = 0)"
proof (induction s rule: fold16.induct)
  case (1 s)
  show ?case
  proof (cases "0xFFFF < s")
    case True
    then have big: "65535 < unat s" by (simp add: word_less_nat_alt)
    have s: "unat s = unat s div 65536 * 65535 + (unat s mod 65536 + unat s div 65536)"
      using div_mult_mod_eq [of "unat s" 65536] by linarith
    have "(unat s mod 65536 + unat s div 65536) mod 65535 = unat s mod 65535"
      by (subst (3) s) (rule mod_mult_self3 [symmetric])
    moreover have "unat s mod 65536 + unat s div 65536 = 0 \<longleftrightarrow> unat s = 0"
      using s by linarith
    ultimately show ?thesis using 1 [OF True] fold16.simps [of s] True
      unfolding fold_step_unat by simp
  next
    case False
    then have "unat s \<le> 65535" by (simp add: word_less_nat_alt)
    then show ?thesis using False fold16.simps [of s] unat_NOT_small by auto
  qed
qed

lemma fold16_zero:
  assumes "n mod 65535 = 0" "0 < n" "n < 4294967296"
  shows "fold16 (word_of_nat n) = 0"
proof -
  have n: "unat (word_of_nat n :: u32) = n" using assms by (simp add: unat_of_nat_u32)
  obtain r where r: "unat (fold16 (word_of_nat n)) = 65535 - r" "r \<le> 65535"
    "r mod 65535 = 0" "r \<noteq> 0"
    using fold16_residue [of "word_of_nat n"] assms unfolding n by auto
  then have "r = 65535" by (cases "r = 65535") auto
  then show ?thesis using r by (simp add: unat_eq_zero)
qed

lemma checksum_completes:
  assumes "n < 4294901760" "0 < n"
  shows "(n + unat (fold16 (word_of_nat n))) mod 65535 = 0"
proof -
  have n: "unat (word_of_nat n :: u32) = n" using assms by (simp add: unat_of_nat_u32)
  obtain r where r: "unat (fold16 (word_of_nat n)) = 65535 - r" "r \<le> 65535" "r mod 65535 = n mod 65535"
    using fold16_residue [of "word_of_nat n"] unfolding n by auto
  have "(n + (65535 - r)) mod 65535 = (r + (65535 - r)) mod 65535"
    using r(3) by (metis mod_add_left_eq)
  then show ?thesis using r by simp
qed

lemma checksum_verifies:
  assumes "n < 4294901760" "0 < n"
  shows "fold16 (word_of_nat (n + unat (fold16 (word_of_nat n)))) = 0"
proof (rule fold16_zero)
  show "n + unat (fold16 (word_of_nat n)) < 4294967296"
    using assms unat_u16_lt [of "fold16 (word_of_nat n)"] by linarith
qed (use assms checksum_completes in auto)


text \<open>Writing a checksum into its zeroed field adds it to the sum.\<close>

lemma nsum_split:
  assumes "even off" "off + 2 \<le> length buf"
  shows "nsum buf = nsum (take off buf) + nsum [buf ! off, buf ! (off + 1)] + nsum (drop (off + 2) buf)"
proof -
  have "buf = take off buf @ [buf ! off, buf ! (off + 1)] @ drop (off + 2) buf"
    using assms by (simp add: id_take_nth_drop Cons_nth_drop_Suc)
  then have "nsum buf = nsum (take off buf @ [buf ! off, buf ! (off + 1)] @ drop (off + 2) buf)"
    by (rule arg_cong)
  also have "\<dots> = nsum (take off buf) + nsum ([buf ! off, buf ! (off + 1)] @ drop (off + 2) buf)"
    using assms by (intro nsum_append) simp
  finally show ?thesis by simp
qed

lemma nsum_put:
  assumes "even off" "off + 2 \<le> length buf" "buf ! off = 0" "buf ! (off + 1) = 0"
  shows "nsum (put_at off (to_be16 c) buf) = nsum buf + unat c"
proof -
  have l: "length (to_be16 c) = 2" by (simp add: to_be16_def)
  have p: "put_at off (to_be16 c) buf = take off buf @ to_be16 c @ drop (off + 2) buf"
    using assms by (simp add: put_at_def l)
  have "nsum (put_at off (to_be16 c) buf) = nsum (take off buf) + (nsum (to_be16 c) + nsum (drop (off + 2) buf))"
    unfolding p using assms by (simp add: nsum_append l)
  then show ?thesis using nsum_split [OF assms(1,2)] assms by (simp add: nsum_to_be16)
qed

definition header_verifies :: "nat \<Rightarrow> bytes \<Rightarrow> bool" where
  "header_verifies header_len packet \<longleftrightarrow> fold16 (sum_words (take header_len packet)) = 0"

definition segment_verifies :: "u8 \<Rightarrow> ipv4 \<Rightarrow> ipv4 \<Rightarrow> bytes \<Rightarrow> bool" where
  "segment_verifies proto src dst seg \<longleftrightarrow>
     fold16 (add_ip (add_ip 0 src) dst + ucast proto + word_of_nat (length seg) + sum_words seg) = 0"

lemma take_put_at:
  "off + length src \<le> n \<Longrightarrow> n \<le> length buf \<Longrightarrow> take n (put_at off src buf) = put_at off src (take n buf)"
  by (cases "n = off") (auto simp: put_at_def take_drop min_def)

lemma update_ip_checksum_verifies:
  assumes "12 \<le> header_len" "header_len \<le> length packet" "header_len \<le> 60" "packet ! 0 \<noteq> 0"
  shows "header_verifies header_len (update_ip_checksum header_len packet)"
proof -
  define p where "p = packet[10 := 0, 11 := 0]"
  define h where "h = take header_len p"
  have len: "length h = header_len" "header_len \<le> length p" using assms by (simp_all add: h_def p_def)
  have z: "h ! 10 = 0" "h ! 11 = 0" "h ! 0 = packet ! 0" using assms by (simp_all add: h_def p_def)
  have "(length h + 1) div 2 \<le> 30" using assms len by simp
  then have "nsum h \<le> 65535 * 30" using nsum_bound [of h] by (meson le_trans mult_le_mono2)
  then have small: "nsum h < 4294901760" by linarith
  obtain a b rest where h: "h = a # b # rest" using len assms
    by (cases h rule: nsum.cases) auto
  have "0 < nsum h" using z assms h by (auto simp: unat_gt_0)
  then have "fold16 (word_of_nat (nsum h + unat (fold16 (word_of_nat (nsum h))))) = 0"
    using checksum_verifies small by blast
  moreover have "nsum (put_at 10 (to_be16 c) h) = nsum h + unat c" for c
    using assms len z by (intro nsum_put) simp_all
  moreover have "take header_len (put_at 10 (to_be16 c) p) = put_at 10 (to_be16 c) h" for c
    unfolding h_def using assms len by (intro take_put_at) (simp_all add: to_be16_def)
  ultimately show ?thesis
    unfolding header_verifies_def update_ip_checksum_def Let_def p_def [symmetric] h_def [symmetric]
      sum_words_nsum by simp
qed


lemma header_len_bound: "unat (x AND 0x0F :: u8) * 4 \<le> 60"
proof -
  have "x AND 0x0F = take_bit 4 x" by (simp add: take_bit_eq_mask mask_eq_exp_minus_1)
  then have "unat (x AND 0x0F) < 16" by (simp add: take_bit_eq_mod unat_mod)
  then show ?thesis by linarith
qed

lemma length_update_ip_checksum [simp]:
  "10 \<le> length p \<Longrightarrow> length (update_ip_checksum n p) = length p"
  by (simp add: update_ip_checksum_def Let_def)

lemma nth_update_ip_checksum:
  "\<lbrakk>12 \<le> length p; i < length p; i \<noteq> 10; i \<noteq> 11\<rbrakk> \<Longrightarrow> update_ip_checksum n p ! i = p ! i"
  by (auto simp: update_ip_checksum_def Let_def nth_put_at)

lemma length_set_addresses [simp]:
  "16 \<le> length p \<Longrightarrow> length (set_addresses n src dst p) = length p"
  by (simp add: set_addresses_def)

lemma nth_set_addresses:
  assumes "20 \<le> length p" "i < length p" "i \<notin> {10, 11}" "i \<notin> {12..<20}"
  shows "set_addresses n src dst p ! i = p ! i"
  using assms by (auto simp: set_addresses_def nth_update_ip_checksum nth_put_at)

lemma set_addresses_fields:
  assumes "20 \<le> length p" "i < 4"
  shows "set_addresses n src dst p ! (12 + i) = octets src ! i"
    and "set_addresses n src dst p ! (16 + i) = octets dst ! i"
  using assms by (simp_all add: set_addresses_def nth_update_ip_checksum nth_put_at)


lemma set_addresses_parse:
  assumes "parse_ipv4 packet = Some (hl, proto, s, d, tlen)"
  shows "parse_ipv4 (set_addresses hl src dst packet) = Some (hl, proto, src, dst, tlen)"
proof -
  have len: "20 \<le> length packet"
    using assms by (auto simp: parse_ipv4_def IP_HDR_MIN_def split: if_splits)
  then have "0 < length packet" by linarith
  note same = nth_set_addresses [OF len]
  have [simp]: "set_addresses hl src dst packet ! 0 = packet ! 0"
    "set_addresses hl src dst packet ! 2 = packet ! 2"
    "set_addresses hl src dst packet ! 3 = packet ! 3"
    "set_addresses hl src dst packet ! 9 = packet ! 9"
    using len \<open>0 < length packet\<close> by (simp_all add: same)
  note f = set_addresses_fields [OF len, of 0] set_addresses_fields [OF len, of 1]
    set_addresses_fields [OF len, of 2] set_addresses_fields [OF len, of 3]
  have [simp]: "Ipv4 (set_addresses hl src dst packet ! 12) (set_addresses hl src dst packet ! 13)
      (set_addresses hl src dst packet ! 14) (set_addresses hl src dst packet ! 15) = src"
    "Ipv4 (set_addresses hl src dst packet ! 16) (set_addresses hl src dst packet ! 17)
      (set_addresses hl src dst packet ! 18) (set_addresses hl src dst packet ! 19) = dst"
    using f by (simp_all add: octets_def)
  show ?thesis using assms len
    by (auto simp: parse_ipv4_def Let_def split: if_splits)
qed

lemma parse_ipv4_facts:
  assumes "parse_ipv4 packet = Some (hl, proto, s, d, tlen)"
  shows "20 \<le> hl" "hl \<le> length packet" "hl \<le> 60" "packet ! 0 \<noteq> 0" "even hl"
    "hl \<le> tlen" "tlen \<le> length packet"
  using assms header_len_bound [of "packet ! 0"]
  by (auto simp: parse_ipv4_def Let_def IP_HDR_MIN_def split: if_splits)

lemma set_addresses_verifies:
  assumes "parse_ipv4 packet = Some (hl, proto, s, d, tlen)"
  shows "header_verifies hl (set_addresses hl src dst packet)"
proof -
  have "0 < length packet" using parse_ipv4_facts [OF assms] by linarith
  then show ?thesis unfolding set_addresses_def
    by (intro update_ip_checksum_verifies)
      (use parse_ipv4_facts [OF assms] in \<open>simp_all add: nth_put_at\<close>)
qed

lemma set_addresses_payload:
  assumes "parse_ipv4 packet = Some (hl, proto, s, d, tlen)"
  shows "drop hl (set_addresses hl src dst packet) = drop hl packet"
  using parse_ipv4_facts [OF assms] by (intro nth_equalityI) (simp_all add: nth_set_addresses)

text \<open>
  rewriting the addresses of a packet that parses as IPv4 gives a packet that parses with the
  same header length, protocol and total length and the new addresses; its header checksum
  verifies, and the bytes after the header (and the packet's length) are untouched.
\<close>

theorem set_addresses_correct:
  assumes "parse_ipv4 packet = Some (hl, proto, s, d, tlen)"
  shows "parse_ipv4 (set_addresses hl src dst packet) = Some (hl, proto, src, dst, tlen)
    \<and> header_verifies hl (set_addresses hl src dst packet)
    \<and> drop hl (set_addresses hl src dst packet) = drop hl packet
    \<and> length (set_addresses hl src dst packet) = length packet"
  using set_addresses_parse [OF assms] set_addresses_verifies [OF assms]
    set_addresses_payload [OF assms] parse_ipv4_facts [OF assms] by simp

definition example_packet :: bytes where
  "example_packet =
     [0x45, 0, 0, 44, 0, 1, 0x40, 0, 64, 6, 0, 0, 172, 19, 0, 1, 198, 18, 0, 4,
      0xC0, 0, 1, 0xBB, 0, 0, 0, 1, 0, 0, 0, 0, 0x60, 2, 0xFF, 0xFF, 0, 0, 0, 0, 2, 4, 5, 0xB4]"

theorem set_addresses_correct_witness:
  "parse_ipv4 example_packet = Some (20, 6, Ipv4 172 19 0 1, Ipv4 198 18 0 4, 44)
   \<and> header_verifies 20 (set_addresses 20 (Ipv4 172 19 0 2) (Ipv4 172 19 0 1) example_packet)"
proof -
  have p: "parse_ipv4 example_packet = Some (20, 6, Ipv4 172 19 0 1, Ipv4 198 18 0 4, 44)"
    by code_simp
  show ?thesis using p set_addresses_correct [OF p] by simp
qed


section \<open>Segments\<close>

definition pseudo_sum :: "u8 \<Rightarrow> ipv4 \<Rightarrow> ipv4 \<Rightarrow> nat \<Rightarrow> nat" where
  "pseudo_sum proto src dst len =
     nsum (octets src) + nsum (octets dst) + unat proto + len"

lemma add_ip_nsum: "add_ip acc ip = acc + word_of_nat (nsum (octets ip))"
  unfolding add_ip_def octets_def nsum.simps word16_of_nat by simp

lemma pseudo_sum_word:
  "add_ip (add_ip 0 src) dst + ucast proto + word_of_nat len + sum_words seg
   = word_of_nat (pseudo_sum proto src dst len + nsum seg)"
proof -
  have "(ucast proto :: u32) = word_of_nat (unat proto)" by simp
  then show ?thesis unfolding add_ip_nsum sum_words_nsum pseudo_sum_def by simp
qed

lemma segment_verifies_nsum:
  "segment_verifies proto src dst seg \<longleftrightarrow>
   fold16 (word_of_nat (pseudo_sum proto src dst (length seg) + nsum seg)) = 0"
  unfolding segment_verifies_def pseudo_sum_word ..

lemma pseudo_sum_bounds:
  assumes "length seg \<le> 65535" "proto \<noteq> 0"
  shows "0 < pseudo_sum proto src dst (length seg) + nsum seg"
    and "pseudo_sum proto src dst (length seg) + nsum seg < 4294901760"
proof -
  have "0 < unat proto" using assms by (simp add: unat_gt_0)
  then show "0 < pseudo_sum proto src dst (length seg) + nsum seg" by (simp add: pseudo_sum_def)
  have o: "nsum (octets a) \<le> 131070" for a using nsum_bound [of "octets a"] by simp
  have "(length seg + 1) div 2 \<le> 32768" using assms by linarith
  then have "nsum seg \<le> 65535 * 32768" using nsum_bound [of seg] by (meson le_trans mult_le_mono2)
  then show "pseudo_sum proto src dst (length seg) + nsum seg < 4294901760"
    using assms unat_u8_lt [of proto] o [of src] o [of dst]
    unfolding pseudo_sum_def by linarith
qed

text \<open>The checksum over the zeroed field completes the segment; so does 0xFFFF in place of 0.\<close>

lemma segment_checksum:
  assumes "even off" "off + 2 \<le> length seg" "seg ! off = 0" "seg ! (off + 1) = 0"
    and len: "length seg \<le> 65535" "proto \<noteq> 0"
    and c: "c = fold16 (add_ip (add_ip 0 src) dst + ucast proto + word_of_nat (length seg) + sum_words seg)"
    and c': "c' = c \<or> c = 0 \<and> c' = 0xFFFF"
  shows "segment_verifies proto src dst (put_at off (to_be16 c') seg)"
proof -
  define n where "n = pseudo_sum proto src dst (length seg) + nsum seg"
  have n: "0 < n" "n < 4294901760" unfolding n_def using pseudo_sum_bounds [OF len] by auto
  have c: "c = fold16 (word_of_nat n)" unfolding c pseudo_sum_word n_def ..
  have "(n + unat c') mod 65535 = 0"
    using checksum_completes [OF n(2,1)] c' unfolding c [symmetric] by auto
  then have "fold16 (word_of_nat (n + unat c')) = 0"
    using n unat_u16_lt [of c'] by (intro fold16_zero) linarith+
  moreover have "nsum (put_at off (to_be16 c') seg) = nsum seg + unat c'"
    using assms by (intro nsum_put) simp_all
  ultimately show ?thesis
    using assms(2) unfolding segment_verifies_nsum n_def by (simp add: add.assoc)
qed


text \<open>\<^verbatim>\<open>write_udp\<close> on a buffer of exactly the datagram's length, as its caller allocates it.\<close>

definition udp_fields :: "u16 \<Rightarrow> u16 \<Rightarrow> bytes \<Rightarrow> bytes" where
  "udp_fields src_port dst_port payload =
     to_be16 src_port @ to_be16 dst_port @ to_be16 (word_of_nat (8 + length payload)) @ [0, 0] @ payload"

lemma write_udp_eq:
  assumes "length segment = 8 + length payload"
  shows "\<exists>c. c \<noteq> 0
    \<and> write_udp src_port dst_port payload src dst segment
        = put_at 6 (to_be16 c) (udp_fields src_port dst_port payload)
    \<and> (let f = fold16 (add_ip (add_ip 0 src) dst + ucast PROTO_UDP + word_of_nat (8 + length payload)
           + sum_words (udp_fields src_port dst_port payload)) in c = f \<or> f = 0 \<and> c = 0xFFFF)"
proof -
  obtain a b c d e f g h rest where s: "segment = a # b # c # d # e # f # g # h # rest"
    "length rest = length payload"
    using assms by (auto simp: numeral_eq_Suc length_Suc_conv)
  have "put_at 8 payload ((put_at 4 (to_be16 (word_of_nat (8 + length payload)))
      (put_at 2 (to_be16 dst_port) (put_at 0 (to_be16 src_port) segment)))[6 := 0, 7 := 0])
    = udp_fields src_port dst_port payload"
    using s(2) by (simp add: s(1) put_at_def udp_fields_def to_be16_def)
  moreover have "take (8 + length payload) (udp_fields src_port dst_port payload)
      = udp_fields src_port dst_port payload"
    by (simp add: udp_fields_def)
  ultimately show ?thesis
    unfolding write_udp_def Let_def UDP_HDR_def by (auto intro: exI [of _ "0xFFFF :: u16"])
qed

lemma udp_fields_nth [simp]:
  "length (udp_fields sp dp payload) = 8 + length payload"
  "udp_fields sp dp payload ! 6 = 0" "udp_fields sp dp payload ! 7 = 0"
  by (simp_all add: udp_fields_def to_be16_def)

lemma parse_udp_fields:
  assumes "length payload \<le> 65527"
  shows "parse_udp (put_at 6 (to_be16 c) (udp_fields sp dp payload)) = Some (sp, dp, length payload)"
    and "drop 8 (put_at 6 (to_be16 c) (udp_fields sp dp payload)) = payload"
proof -
  have e: "put_at 6 (to_be16 c) (udp_fields sp dp payload)
    = hi8 sp # lo8 sp # hi8 dp # lo8 dp # hi8 (word_of_nat (8 + length payload))
      # lo8 (word_of_nat (8 + length payload)) # to_be16 c @ payload"
    by (simp add: put_at_def udp_fields_def to_be16_def)
  show "drop 8 (put_at 6 (to_be16 c) (udp_fields sp dp payload)) = payload"
    unfolding e by (simp add: to_be16_def)
  have "unat (from_be16 (hi8 (word_of_nat (8 + length payload))) (lo8 (word_of_nat (8 + length payload))))
    = 8 + length payload"
    unfolding from_be16_hi_lo using assms by (simp only: unat_of_nat_u16) simp
  then show "parse_udp (put_at 6 (to_be16 c) (udp_fields sp dp payload)) = Some (sp, dp, length payload)"
    unfolding e parse_udp_def Let_def UDP_HDR_def by (simp add: from_be16_hi_lo to_be16_def)
qed

lemma write_udp_spec:
  assumes "length segment = 8 + length payload" "length payload \<le> 65527"
  shows "let seg = write_udp src_port dst_port payload src dst segment in
    parse_udp seg = Some (src_port, dst_port, length payload) \<and> drop 8 seg = payload
    \<and> from_be16 (seg ! 6) (seg ! 7) \<noteq> 0 \<and> segment_verifies PROTO_UDP src dst seg"
proof -
  define f where "f = fold16 (add_ip (add_ip 0 src) dst + ucast PROTO_UDP + word_of_nat (8 + length payload)
    + sum_words (udp_fields src_port dst_port payload))"
  obtain c where c: "c \<noteq> 0"
    and w: "write_udp src_port dst_port payload src dst segment
      = put_at 6 (to_be16 c) (udp_fields src_port dst_port payload)"
    and cf: "c = f \<or> f = 0 \<and> c = 0xFFFF"
    using write_udp_eq [OF assms(1)] unfolding f_def Let_def by blast
  have "segment_verifies PROTO_UDP src dst (put_at 6 (to_be16 c) (udp_fields src_port dst_port payload))"
    by (rule segment_checksum [where c = f]) (use assms cf in \<open>simp_all add: f_def PROTO_UDP_def\<close>)
  moreover have "from_be16 (put_at 6 (to_be16 c) (udp_fields src_port dst_port payload) ! 6)
      (put_at 6 (to_be16 c) (udp_fields src_port dst_port payload) ! 7) = c"
    by (simp add: nth_put_at to_be16_def from_be16_hi_lo)
  ultimately show ?thesis
    unfolding w Let_def using parse_udp_fields [OF assms(2)] c by simp
qed

text \<open>
  a datagram written by \<^verbatim>\<open>write_udp\<close> parses back to its ports and payload, its checksum
  field is never the value 0 (which would mean that no checksum is present), and the checksum
  over the pseudo header and the datagram verifies.
\<close>

theorem write_udp_correct:
  assumes "length segment = 8 + length payload" "length payload \<le> 65527"
  shows "let seg = write_udp src_port dst_port payload src dst segment in
    parse_udp seg = Some (src_port, dst_port, length payload) \<and> drop 8 seg = payload
    \<and> from_be16 (seg ! 6) (seg ! 7) \<noteq> 0 \<and> segment_verifies PROTO_UDP src dst seg"
  using assms by (rule write_udp_spec)

theorem write_udp_correct_witness:
  "segment_verifies PROTO_UDP (Ipv4 198 18 0 2) (Ipv4 172 19 0 2)
     (write_udp 53 12345 (map byte_of ''hello'') (Ipv4 198 18 0 2) (Ipv4 172 19 0 2) (replicate 13 0))"
  using write_udp_correct [of "replicate 13 0" "map byte_of ''hello''" 53 12345
      "Ipv4 198 18 0 2" "Ipv4 172 19 0 2"] by (simp add: Let_def)


lemma tcp_total_parse:
  assumes "parse_ipv4 packet = Some (hl, proto, s, d, tlen)"
  shows "tcp_total hl packet = tlen"
  using assms by (auto simp: parse_ipv4_def tcp_total_def Let_def split: if_splits)

lemma length_update_tcp_checksum [simp]:
  "hl + 16 \<le> length p \<Longrightarrow> length (update_tcp_checksum hl src dst p) = length p"
  by (simp add: update_tcp_checksum_def Let_def)

lemma nth_update_tcp_checksum:
  "\<lbrakk>hl + 18 \<le> length p; i < length p; i \<noteq> hl + 16; i \<noteq> hl + 17\<rbrakk>
   \<Longrightarrow> update_tcp_checksum hl src dst p ! i = p ! i"
  by (auto simp: update_tcp_checksum_def Let_def nth_put_at)

lemma slice_put_at_shift:
  assumes "hl + off + length x \<le> e" "e \<le> length p"
  shows "slice hl e (put_at (hl + off) x p) = put_at off x (slice hl e p)"
proof (rule nth_equalityI)
  show "length (slice hl e (put_at (hl + off) x p)) = length (put_at off x (slice hl e p))"
    using assms by simp
  fix i assume "i < length (slice hl e (put_at (hl + off) x p))"
  then have i: "hl + i < e" using assms by simp
  then show "slice hl e (put_at (hl + off) x p) ! i = put_at off x (slice hl e p) ! i"
    using assms by (simp add: slice_def nth_put_at)
qed

lemma update_tcp_checksum_verifies:
  assumes total: "tcp_total hl packet = e" and e: "hl + 20 \<le> e" "e \<le> length packet" "e - hl \<le> 65535"
  shows "segment_verifies PROTO_TCP src dst (slice hl e (update_tcp_checksum hl src dst packet))"
proof -
  define p where "p = packet[hl + 16 := 0, hl + 17 := 0]"
  define seg where "seg = slice hl e p"
  define c where "c = fold16 (add_ip (add_ip 0 src) dst + ucast PROTO_TCP + word_of_nat (e - hl) + sum_words seg)"
  have len: "length seg = e - hl" using e by (simp add: seg_def p_def)
  have "\<not> e - hl < 20" using e by linarith
  then have u: "update_tcp_checksum hl src dst packet = put_at (hl + 16) (to_be16 c) p"
    using e \<open>\<not> e - hl < 20\<close> by (simp add: update_tcp_checksum_def total TCP_HDR_MIN_def Let_def c_def seg_def p_def)
  have z: "seg ! 16 = 0" "seg ! (16 + 1) = 0" using e by (simp_all add: seg_def slice_def p_def)
  have "segment_verifies PROTO_TCP src dst (put_at 16 (to_be16 c) seg)"
    by (rule segment_checksum [where c = c]) (use e len z in \<open>simp_all add: c_def PROTO_TCP_def\<close>)
  moreover have "slice hl e (put_at (hl + 16) (to_be16 c) p) = put_at 16 (to_be16 c) seg"
    unfolding seg_def using e by (intro slice_put_at_shift) (simp_all add: p_def)
  ultimately show ?thesis unfolding u by simp
qed

text \<open>
  Recomputing the TCP checksum of a parsed packet (of at most 65535 bytes, holding at least a
  TCP header) makes the segment verify for the given addresses and changes no byte but the two
  of the checksum field; a shorter segment is left alone.
\<close>

theorem update_tcp_checksum_correct:
  assumes "parse_ipv4 packet = Some (hl, proto, s, d, tlen)" "length packet \<le> 65535"
  shows "let p = update_tcp_checksum hl src dst packet in
    (if tlen < hl + 20 then p = packet
     else segment_verifies PROTO_TCP src dst (slice hl tlen p)
       \<and> length p = length packet
       \<and> (\<forall>i < length p. i \<noteq> hl + 16 \<longrightarrow> i \<noteq> hl + 17 \<longrightarrow> p ! i = packet ! i))"
proof (cases "tlen < hl + 20")
  case True
  then show ?thesis
    by (auto simp: update_tcp_checksum_def tcp_total_parse [OF assms(1)] TCP_HDR_MIN_def Let_def)
next
  case False
  note f = parse_ipv4_facts [OF assms(1)]
  have "segment_verifies PROTO_TCP src dst (slice hl tlen (update_tcp_checksum hl src dst packet))"
    by (rule update_tcp_checksum_verifies [OF tcp_total_parse [OF assms(1)]]) (use False f assms in auto)
  then show ?thesis using False f by (simp add: Let_def nth_update_tcp_checksum)
qed

theorem update_tcp_checksum_correct_witness:
  "segment_verifies PROTO_TCP (Ipv4 172 19 0 2) (Ipv4 172 19 0 1)
     (slice 20 44 (update_tcp_checksum 20 (Ipv4 172 19 0 2) (Ipv4 172 19 0 1) example_packet))"
proof -
  have p: "parse_ipv4 example_packet = Some (20, 6, Ipv4 172 19 0 1, Ipv4 198 18 0 4, 44)"
    by code_simp
  show ?thesis
    using update_tcp_checksum_correct [OF p] by (simp add: Let_def example_packet_def)
qed

end
