(* ===== verification/TcpNat.thy ===== *)
theory TcpNat
  imports IpAddr
begin

text \<open>
  \<^verbatim>\<open>crates/clash-tun/src/nat.rs\<close>: the table that translates the source address of a captured
  TCP flow into a port of the tunnel's own listener and back. Time (\<^verbatim>\<open>Instant::now()\<close>) is an
  argument. The invariant says that the two maps are inverse to each other; the allocator is
  shown to find a port while fewer than 55535 flows are open.
\<close>

record tcp_session =
  source :: sockaddr_v4
  destination :: sockaddr_v4
  last_seen :: nat

record nat_inner =
  addr_map :: "(sockaddr_v4, u16) hmap"
  port_map :: "(u16, tcp_session) hmap"
  port_index :: u16

record tcp_nat = nat_inner +
  timeout :: nat

definition nat_new :: "nat \<Rightarrow> tcp_nat" where
  "nat_new t = \<lparr>addr_map = [], port_map = [], port_index = 10000, timeout = t\<rparr>"

text \<open>The port the allocation loop tries next, and the index it leaves.\<close>

definition nat_port :: "u16 \<Rightarrow> u16" where
  "nat_port idx = (if idx = 0 then 10000 else idx)"

definition nat_next :: "u16 \<Rightarrow> u16" where
  "nat_next idx = (if idx = 0 then 10001 else idx + 1)"

text \<open>The loop carries \<^verbatim>\<open>next\<close> and \<^verbatim>\<open>port_index\<close>; \<open>busy\<close> is \<^verbatim>\<open>port_map.contains_key\<close>.\<close>

fun nat_loop :: "nat \<Rightarrow> (u16 \<Rightarrow> bool) \<Rightarrow> u16 \<Rightarrow> u16 \<Rightarrow> u16 \<times> u16" where
  "nat_loop 0 busy nx idx = (nx, idx)"
| "nat_loop (Suc n) busy nx idx =
     (let nx = nat_port idx; idx = nat_next idx in
      if \<not> busy nx then (nx, idx) else nat_loop n busy nx idx)"

definition nat_lookup ::
  "nat \<Rightarrow> sockaddr_v4 \<Rightarrow> sockaddr_v4 \<Rightarrow> tcp_nat \<Rightarrow> u16 option \<times> tcp_nat" where
  "nat_lookup now src dst g =
     (case hm_get (addr_map g) src of
        Some existing \<Rightarrow>
          (let dest_changed = is_some_and (\<lambda>s. destination s \<noteq> dst) (hm_get (port_map g) existing);
               g = (if dest_changed then
                      (let s = unwrap_or src (map_option source (hm_get (port_map g) existing)) in
                       g\<lparr>port_map := hm_insert existing
                           \<lparr>source = s, destination = dst, last_seen = now\<rparr> (port_map g)\<rparr>)
                    else
                      (case hm_get (port_map g) existing of
                         Some s \<Rightarrow> g\<lparr>port_map := hm_insert existing (s\<lparr>last_seen := now\<rparr>) (port_map g)\<rparr>
                       | None \<Rightarrow> g))
           in (Some existing, g))
      | None \<Rightarrow>
          (case nat_loop 55535 (\<lambda>p. hm_get (port_map g) p \<noteq> None) 0 (port_index g) of
             (nx, idx) \<Rightarrow>
               (let g = g\<lparr>port_index := idx\<rparr> in
                if nx = 0 \<or> hm_get (port_map g) nx \<noteq> None then (None, g)
                else
                  (Some nx, g\<lparr>addr_map := hm_insert src nx (addr_map g),
                              port_map := hm_insert nx
                                \<lparr>source = src, destination = dst, last_seen = now\<rparr> (port_map g)\<rparr>))))"

definition lookup_back :: "nat \<Rightarrow> u16 \<Rightarrow> tcp_nat \<Rightarrow> (sockaddr_v4 \<times> sockaddr_v4) option \<times> tcp_nat" where
  "lookup_back now port g =
     (case hm_get (port_map g) port of
        None \<Rightarrow> (None, g)
      | Some s \<Rightarrow>
          (Some (source s, destination s),
           g\<lparr>port_map := hm_insert port (s\<lparr>last_seen := now\<rparr>) (port_map g)\<rparr>))"

definition has_destination :: "ipv4 \<Rightarrow> tcp_nat \<Rightarrow> bool" where
  "has_destination ip g \<longleftrightarrow> (\<exists>(p, s) \<in> set (port_map g). fst (destination s) = ip)"

text \<open>\<^verbatim>\<open>duration_since\<close> saturates at zero, as subtraction on \<open>nat\<close> does.\<close>

definition sweep_one :: "u16 \<Rightarrow> tcp_nat \<Rightarrow> tcp_nat" where
  "sweep_one p g =
     (case hm_get (port_map g) p of
        None \<Rightarrow> g
      | Some s \<Rightarrow> g\<lparr>port_map := hm_remove p (port_map g), addr_map := hm_remove (source s) (addr_map g)\<rparr>)"

definition expired :: "nat \<Rightarrow> tcp_nat \<Rightarrow> tcp_session \<Rightarrow> bool" where
  "expired now g s \<longleftrightarrow> timeout g < now - last_seen s"

definition sweep :: "nat \<Rightarrow> tcp_nat \<Rightarrow> tcp_nat" where
  "sweep now g =
     (let dead = map fst (filter (\<lambda>(p, s). expired now g s) (port_map g))
      in fold sweep_one dead g)"

section \<open>Invariant\<close>

definition nat_ok :: "tcp_nat \<Rightarrow> bool" where
  "nat_ok g \<longleftrightarrow>
     hm_ok (addr_map g) \<and> hm_ok (port_map g)
     \<and> (\<forall>a p. hm_get (addr_map g) a = Some p \<longleftrightarrow>
          (\<exists>s. hm_get (port_map g) p = Some s \<and> source s = a))
     \<and> (\<forall>p s. hm_get (port_map g) p = Some s \<longrightarrow> 10000 \<le> unat p)
     \<and> (port_index g = 0 \<or> 10000 \<le> unat (port_index g))"

lemma nat_okD:
  assumes "nat_ok g"
  shows "hm_get (addr_map g) a = Some p \<longleftrightarrow> (\<exists>s. hm_get (port_map g) p = Some s \<and> source s = a)"
    and "hm_get (port_map g) p = Some s \<Longrightarrow> 10000 \<le> unat p"
    and "port_index g = 0 \<or> 10000 \<le> unat (port_index g)"
    and "hm_ok (addr_map g)" and "hm_ok (port_map g)"
  using assms by (auto simp: nat_ok_def simp del: split_paired_All)

lemma nat_source_inj:
  assumes "nat_ok g" "hm_get (port_map g) p = Some s" "hm_get (port_map g) p' = Some s'"
    and "source s = source s'"
  shows "p = p'"
  using assms nat_okD(1) [OF assms(1), of "source s"] by (metis option.inject)

lemma nat_new_ok [simp]: "nat_ok (nat_new t)"
  by (simp add: nat_ok_def nat_new_def)

text \<open>Renewing a session in place (its source kept) preserves the invariant.\<close>

lemma renew_ok:
  assumes "nat_ok g" "hm_get (port_map g) p = Some s" "source s' = source s"
  shows "nat_ok (g\<lparr>port_map := hm_insert p s' (port_map g)\<rparr>)"
  using assms nat_okD [OF assms(1)] unfolding nat_ok_def by (auto simp del: split_paired_All)

lemma lookup_back_ok: "nat_ok g \<Longrightarrow> nat_ok (snd (lookup_back now p g))"
  by (auto simp: lookup_back_def renew_ok split: option.splits)

lemma sweep_one_ok:
  assumes "nat_ok g"
  shows "nat_ok (sweep_one p g)"
proof (cases "hm_get (port_map g) p")
  case (Some s)
  have "source s' \<noteq> source s" if "p' \<noteq> p" "hm_get (port_map g) p' = Some s'" for p' s'
    using nat_source_inj [OF assms Some that(2)] that(1) by auto
  then show ?thesis using Some nat_okD [OF assms]
    unfolding nat_ok_def sweep_one_def by (auto simp del: split_paired_All)
qed (simp add: sweep_one_def assms)

lemma fold_sweep_ok: "nat_ok g \<Longrightarrow> nat_ok (fold sweep_one dead g)"
  by (induction dead arbitrary: g) (simp_all add: sweep_one_ok)

lemma sweep_ok: "nat_ok g \<Longrightarrow> nat_ok (sweep now g)"
  by (simp add: sweep_def fold_sweep_ok)


section \<open>The allocation loop\<close>

definition idx_ok :: "u16 \<Rightarrow> bool" where
  "idx_ok idx \<longleftrightarrow> idx = 0 \<or> 10000 \<le> unat idx"

lemma nat_port_ok: "idx_ok idx \<Longrightarrow> 10000 \<le> unat (nat_port idx)"
  by (auto simp: idx_ok_def nat_port_def)

lemma nat_next_step:
  assumes "idx_ok idx"
  shows "idx_ok (nat_next idx)"
    and "unat (nat_port (nat_next idx)) - 10000 = (unat (nat_port idx) - 10000 + 1) mod 55536"
proof -
  have u: "unat (idx + 1) = (if unat idx = 65535 then 0 else unat idx + 1)"
    using unat_u16_lt [of idx] by (simp add: unat_word_ariths mod_Suc)
  have z: "idx + 1 = 0 \<longleftrightarrow> unat idx = 65535" using u by (auto simp: unat_eq_zero [symmetric])
  show "idx_ok (nat_next idx)" using assms u z by (auto simp: idx_ok_def nat_next_def)
  have b: "unat idx < 65536" by (rule unat_u16_lt)
  show "unat (nat_port (nat_next idx)) - 10000 = (unat (nat_port idx) - 10000 + 1) mod 55536"
  proof (cases "idx = 0 \<or> unat idx = 65535")
    case True
    then show ?thesis using z u by (auto simp: nat_next_def nat_port_def)
  next
    case False
    then have "10000 \<le> unat idx" using assms by (simp add: idx_ok_def)
    then obtain k where k: "unat idx = 10000 + k" using le_Suc_ex by blast
    then have "k < 55535" using b False by linarith
    have "nat_port (nat_next idx) = idx + 1" "nat_port idx = idx"
      using False z by (auto simp: nat_next_def nat_port_def)
    then show ?thesis using k u \<open>k < 55535\<close> by simp
  qed
qed

lemma nat_next_orbit:
  "idx_ok idx \<Longrightarrow> idx_ok ((nat_next ^^ i) idx)
    \<and> unat (nat_port ((nat_next ^^ i) idx)) - 10000 = (unat (nat_port idx) - 10000 + i) mod 55536"
proof (induction i)
  case 0
  have "unat (nat_port idx) - 10000 < 55536" using unat_u16_lt [of "nat_port idx"] by linarith
  then show ?case using 0 by simp
next
  case (Suc i)
  then show ?case using nat_next_step [of "(nat_next ^^ i) idx"] by (simp add: mod_Suc_eq)
qed

lemma nat_orbit_inj:
  assumes "idx_ok idx"
  shows "inj_on (\<lambda>i. nat_port ((nat_next ^^ i) idx)) {..<55535}"
proof (rule inj_onI)
  fix i j :: nat
  assume ij: "i \<in> {..<55535}" "j \<in> {..<55535}"
    and eq: "nat_port ((nat_next ^^ i) idx) = nat_port ((nat_next ^^ j) idx)"
  have "unat (nat_port idx) - 10000 < 55536" using unat_u16_lt [of "nat_port idx"] by linarith
  moreover have "(unat (nat_port idx) - 10000 + i) mod 55536 = (unat (nat_port idx) - 10000 + j) mod 55536"
    using nat_next_orbit [OF assms, of i] nat_next_orbit [OF assms, of j] eq by metis
  moreover have "i < 55536" "j < 55536" using ij by simp_all
  ultimately show "i = j" using cyclic_inj by blast
qed

lemma nat_loop_spec:
  assumes "idx_ok idx" "0 < n" "nat_loop n busy nx0 idx = (nx, idx')"
  shows "idx_ok idx' \<and> 10000 \<le> unat nx
    \<and> (\<not> busy nx \<or> (\<forall>i<n. busy (nat_port ((nat_next ^^ i) idx))))"
  using assms
proof (induction n arbitrary: nx0 idx)
  case (Suc n)
  note step = nat_next_step(1) [OF Suc.prems(1)] nat_port_ok [OF Suc.prems(1)]
  show ?case
  proof (cases "busy (nat_port idx) \<and> 0 < n")
    case True
    then have l: "nat_loop n busy (nat_port idx) (nat_next idx) = (nx, idx')" using Suc.prems by simp
    have "busy (nat_port ((nat_next ^^ i) idx))"
      if "\<forall>i<n. busy (nat_port ((nat_next ^^ i) (nat_next idx)))" "i < Suc n" for i
      using that True by (cases i) (simp_all add: funpow_swap1)
    then show ?thesis using Suc.IH [OF step(1) _ l] True by blast
  next
    case False
    then show ?thesis using Suc.prems step by (cases n) (auto simp: Let_def split: if_splits)
  qed
qed simp

lemma nat_loop_finds:
  assumes "idx_ok idx" "finite B" "card B < 55535" "\<And>p. busy p \<Longrightarrow> p \<in> B"
    and "nat_loop 55535 busy nx0 idx = (nx, idx')"
  shows "\<not> busy nx"
proof
  assume "busy nx"
  then have all: "\<forall>i<55535. busy (nat_port ((nat_next ^^ i) idx))"
    using nat_loop_spec [OF assms(1) _ assms(5)] by simp
  have "card ((\<lambda>i. nat_port ((nat_next ^^ i) idx)) ` {..<55535}) \<le> card B"
    by (rule card_mono [OF assms(2)]) (use all assms(4) in auto)
  then show False using card_image [OF nat_orbit_inj [OF assms(1)]] assms(3) by simp
qed


section \<open>What a lookup does\<close>

lemma nat_lookup_cases:
  assumes "nat_ok g" "nat_lookup now src dst g = (r, g')"
  obtains (known) p s s' where "hm_get (addr_map g) src = Some p" "hm_get (port_map g) p = Some s"
      "source s = src" "source s' = src" "destination s' = dst" "r = Some p"
      "g' = g\<lparr>port_map := hm_insert p s' (port_map g)\<rparr>"
  | (fresh) p idx where "hm_get (addr_map g) src = None" "hm_get (port_map g) p = None"
      "10000 \<le> unat p" "idx_ok idx" "r = Some p"
      "g' = g\<lparr>port_index := idx, addr_map := hm_insert src p (addr_map g),
              port_map := hm_insert p \<lparr>source = src, destination = dst, last_seen = now\<rparr> (port_map g)\<rparr>"
  | (full) idx where "hm_get (addr_map g) src = None" "55535 \<le> hm_len (port_map g)"
      "idx_ok idx" "r = None" "g' = g\<lparr>port_index := idx\<rparr>"
proof (cases "hm_get (addr_map g) src")
  case (Some p)
  then obtain s where s: "hm_get (port_map g) p = Some s" "source s = src"
    using nat_okD(1) [OF assms(1)] by blast
  have "r = Some p \<and> g' = g\<lparr>port_map := hm_insert p
     (if destination s = dst then s\<lparr>last_seen := now\<rparr>
      else \<lparr>source = src, destination = dst, last_seen = now\<rparr>) (port_map g)\<rparr>"
    using assms(2) Some s by (auto simp: nat_lookup_def Let_def)
  then show ?thesis
    using known [OF Some s, of "if destination s = dst then s\<lparr>last_seen := now\<rparr>
      else \<lparr>source = src, destination = dst, last_seen = now\<rparr>"] s(2) by simp
next
  case None
  have idx: "idx_ok (port_index g)" using nat_okD(3) [OF assms(1)] by (simp add: idx_ok_def)
  let ?busy = "\<lambda>p. hm_get (port_map g) p \<noteq> None"
  obtain nx i where l: "nat_loop 55535 ?busy 0 (port_index g) = (nx, i)" by fastforce
  then have i: "idx_ok i" "10000 \<le> unat nx" using nat_loop_spec [OF idx _ l] by simp_all
  then have nz: "nx \<noteq> 0" by auto
  show ?thesis
  proof (cases "?busy nx")
    case True
    have "dom (hm_get (port_map g)) = {p. ?busy p}" by auto
    then have "\<not> card (dom (hm_get (port_map g))) < 55535"
      using nat_loop_finds [OF idx hm.finite_dom, of "port_map g" ?busy, OF _ _ l] True by auto
    then have "55535 \<le> hm_len (port_map g)"
      using hm.len_card [OF nat_okD(5) [OF assms(1)]] by simp
    then show ?thesis
      using full [OF None _ i(1)] assms(2) None l True nz by (simp add: nat_lookup_def Let_def)
  next
    case False
    then show ?thesis
      using fresh [OF None _ i(2,1)] assms(2) None l nz by (simp add: nat_lookup_def Let_def)
  qed
qed

lemma nat_lookup_ok:
  assumes "nat_ok g"
  shows "nat_ok (snd (nat_lookup now src dst g))"
proof -
  obtain r g' where l: "nat_lookup now src dst g = (r, g')" by (cases "nat_lookup now src dst g")
  from assms l show ?thesis
  proof (cases rule: nat_lookup_cases)
    case (known p s s')
    then show ?thesis using l renew_ok [OF assms known(2)] by simp
  next
    case (fresh p idx)
    have "source s \<noteq> src" if "hm_get (port_map g) p' = Some s" for p' s
      using fresh(1) nat_okD(1) [OF assms, of "source s" p'] that by auto
    moreover have "hm_get (addr_map g) a \<noteq> Some p" for a
      using fresh(2) nat_okD(1) [OF assms, of a p] by simp
    ultimately show ?thesis using l fresh nat_okD [OF assms]
      unfolding nat_ok_def by (auto simp: idx_ok_def simp del: split_paired_All)
  next
    case (full idx)
    then show ?thesis using l assms by (auto simp: nat_ok_def idx_ok_def)
  qed
qed

text \<open>What the reverse lookup would answer in a state.\<close>

definition flow_of :: "u16 \<Rightarrow> tcp_nat \<Rightarrow> (sockaddr_v4 \<times> sockaddr_v4) option" where
  "flow_of p g = map_option (\<lambda>s. (source s, destination s)) (hm_get (port_map g) p)"

lemma fst_lookup_back: "fst (lookup_back now p g) = flow_of p g"
  by (simp add: lookup_back_def flow_of_def split: option.splits)

lemma flow_of_lookup_back [simp]: "flow_of q (snd (lookup_back now p g)) = flow_of q g"
  by (auto simp: lookup_back_def flow_of_def split: option.splits)

section \<open>The contract of an address translation\<close>

locale translation =
  fixes ok :: "'s \<Rightarrow> bool"
    and assign :: "'t \<Rightarrow> 'a \<Rightarrow> 'd \<Rightarrow> 's \<Rightarrow> 'p option \<times> 's"
    and flow :: "'p \<Rightarrow> 's \<Rightarrow> ('a \<times> 'd) option"
  assumes assign_ok: "ok s \<Longrightarrow> ok (snd (assign t a d s))"
    and assign_flow: "ok s \<Longrightarrow> assign t a d s = (Some p, s') \<Longrightarrow>
      flow q s' = (if q = p then Some (a, d) else flow q s)"
    and assign_owner: "ok s \<Longrightarrow> assign t a d s = (Some p, s') \<Longrightarrow>
      flow p s = None \<or> (\<exists>d'. flow p s = Some (a, d'))"
    and assign_full: "ok s \<Longrightarrow> assign t a d s = (None, s') \<Longrightarrow> flow q s' = flow q s"
    and flow_inj: "ok s \<Longrightarrow> flow p s = Some (a, d) \<Longrightarrow> flow q s = Some (a, d') \<Longrightarrow> p = q"
begin

text \<open>Assignments in sequence.\<close>

fun run :: "('t \<times> 'a \<times> 'd) list \<Rightarrow> 's \<Rightarrow> 's" where
  "run [] s = s"
| "run ((t, a, d) # as) s = run as (snd (assign t a d s))"

lemma run_ok: "ok s \<Longrightarrow> ok (run as s)"
  by (induction as s rule: run.induct) (simp_all add: assign_ok)

lemma assign_keeps:
  assumes "ok s" "flow p s = Some (a, d)" "b \<noteq> a"
  shows "flow p (snd (assign t b e s)) = Some (a, d)"
proof (cases "assign t b e s")
  case (Pair r s')
  show ?thesis
  proof (cases r)
    case None
    then show ?thesis using Pair assign_full assms by fastforce
  next
    case (Some q)
    then show ?thesis
      using assign_flow [OF assms(1), of t b e q s'] assign_owner [OF assms(1), of t b e q s'] Pair assms
      by auto
  qed
qed

text \<open>Flows opened by other sources never steal or redirect an open flow.\<close>

lemma run_keeps:
  assumes "ok s" "flow p s = Some (a, d)" "a \<notin> (\<lambda>(t, b, e). b) ` set as"
  shows "flow p (run as s) = Some (a, d)"
  using assms
proof (induction as s rule: run.induct)
  case (2 t b e as s)
  then have "b \<noteq> a" by auto
  then show ?case using 2 assign_keeps [OF 2(2,3), of b t e] by (simp add: assign_ok)
qed simp

lemma assign_then_run:
  assumes "ok s" "assign t a d s = (Some p, s')" "a \<notin> (\<lambda>(t, b, e). b) ` set as"
  shows "flow p (run as s') = Some (a, d)"
  using run_keeps [of s' p a d as] assign_ok [OF assms(1), of t a d] assign_flow [OF assms(1,2)] assms
  by simp

end

interpretation flows: translation nat_ok nat_lookup flow_of
proof (unfold_locales, goal_cases)
  case (1 s t a d)
  then show ?case by (rule nat_lookup_ok)
next
  case (2 s t a d p s' q)
  from 2 show ?case by (cases rule: nat_lookup_cases) (auto simp: flow_of_def)
next
  case (3 s t a d p s')
  from 3 show ?case by (cases rule: nat_lookup_cases) (auto simp: flow_of_def)
next
  case (4 s t a d s' q)
  from 4 show ?case by (cases rule: nat_lookup_cases) (auto simp: flow_of_def)
next
  case (5 s p a d q d')
  then show ?case using nat_source_inj [OF 5(1)] by (auto simp: flow_of_def)
qed


section \<open>Sweeping\<close>

lemma fold_sweep_ports:
  "hm_get (port_map (fold sweep_one dead g)) p = (if p \<in> set dead then None else hm_get (port_map g) p)"
proof (induction dead arbitrary: g)
  case (Cons q dead)
  have "hm_get (port_map (sweep_one q g)) p = (if p = q then None else hm_get (port_map g) p)"
    by (auto simp: sweep_one_def split: option.splits)
  then show ?case by (auto simp: Cons)
qed simp

lemma sweep_ports:
  assumes "nat_ok g"
  shows "hm_get (port_map (sweep now g)) p = opt_filter (\<lambda>s. \<not> expired now g s) (hm_get (port_map g) p)"
proof -
  have d: "distinct (map fst (port_map g))" using nat_okD(5) [OF assms] by (simp add: hm_ok_def)
  have "p \<in> fst ` set (filter (\<lambda>(p, s). expired now g s) (port_map g)) \<longleftrightarrow>
    (\<exists>s. hm_get (port_map g) p = Some s \<and> expired now g s)"
    by (force simp: hm_get_def map_of_eq_Some_iff [OF d])
  then show ?thesis
    unfolding sweep_def Let_def fold_sweep_ports
    by (auto simp: opt_filter_def split: option.splits)
qed

section \<open>Reachable tables\<close>

inductive nat_step :: "tcp_nat \<Rightarrow> tcp_nat \<Rightarrow> bool" where
  open_flow: "nat_step g (snd (nat_lookup now src dst g))"
| answer: "nat_step g (snd (lookup_back now p g))"
| expire: "nat_step g (sweep now g)"

inductive_cases nat_stepE: "nat_step g g'"

definition nat_reachable :: "tcp_nat \<Rightarrow> bool" where
  "nat_reachable g \<longleftrightarrow> (\<exists>t. nat_step\<^sup>*\<^sup>* (nat_new t) g)"

lemma nat_step_ok: "nat_step g g' \<Longrightarrow> nat_ok g \<Longrightarrow> nat_ok g'"
  by (auto elim!: nat_stepE simp: nat_lookup_ok lookup_back_ok sweep_ok)

lemma nat_reachable_ok: "nat_reachable g \<Longrightarrow> nat_ok g"
proof -
  assume "nat_reachable g"
  then obtain t where "nat_step\<^sup>*\<^sup>* (nat_new t) g" by (auto simp: nat_reachable_def)
  then show "nat_ok g" by (induction rule: rtranclp_induct) (auto intro: nat_step_ok)
qed

text \<open>At most 55536 flows are open, so at most as many addresses are their destinations.\<close>

lemma nat_ports_card:
  assumes "nat_ok g"
  shows "card (dom (hm_get (port_map g))) \<le> 55536"
proof -
  have "card (dom (hm_get (port_map g))) \<le> card {10000 ..< 65536 :: nat}"
  proof (rule card_inj_on_le [where f = unat])
    show "unat ` dom (hm_get (port_map g)) \<subseteq> {10000..<65536}"
      using nat_okD(2) [OF assms] unat_u16_lt by auto
  qed (auto simp: inj_on_def word_unat_eq_iff)
  then show ?thesis by simp
qed

lemma has_destination_iff:
  assumes "nat_ok g"
  shows "has_destination ip g \<longleftrightarrow> (\<exists>p s. hm_get (port_map g) p = Some s \<and> fst (destination s) = ip)"
proof -
  have d: "distinct (map fst (port_map g))" using nat_okD(5) [OF assms] by (simp add: hm_ok_def)
  show ?thesis unfolding has_destination_def hm_get_def map_of_eq_Some_iff [OF d] by fastforce
qed

lemma nat_destinations_card:
  assumes "nat_ok g"
  shows "finite {ip. has_destination ip g} \<and> card {ip. has_destination ip g} \<le> 55536"
proof -
  let ?D = "dom (hm_get (port_map g))"
  have "{ip. has_destination ip g} \<subseteq> (\<lambda>p. fst (destination (the (hm_get (port_map g) p)))) ` ?D"
    using has_destination_iff [OF assms] by force
  then show ?thesis
    using card_mono card_image_le [of ?D] hm.finite_dom [of "port_map g"] nat_ports_card [OF assms]
    by (meson finite_imageI finite_subset le_trans)
qed

section \<open>Properties\<close>

text \<open>
  C10: in every reachable table the two maps are inverse to each other (a source has at most one
  port, a port exactly the session of its source), and every port in use is at least 10000.
\<close>

theorem nat_invariant:
  assumes "nat_reachable g"
  shows "(hm_get (addr_map g) a = Some p \<longleftrightarrow> (\<exists>s. hm_get (port_map g) p = Some s \<and> source s = a))
    \<and> (hm_get (port_map g) p = Some s \<longrightarrow> 10000 \<le> unat p)"
  using nat_okD [OF nat_reachable_ok [OF assms]] by blast

theorem nat_invariant_witness:
  "let g = snd (nat_lookup 7 (Ipv4 172 19 0 1, 50000) (Ipv4 198 18 0 4, 443) (nat_new 300));
       s = \<lparr>source = (Ipv4 172 19 0 1, 50000), destination = (Ipv4 198 18 0 4, 443), last_seen = 7\<rparr>
   in hm_get (port_map g) 10000 = Some s \<and> hm_get (addr_map g) (source s) = Some 10000 \<and> 10000 \<le> unat (10000 :: u16)"
proof -
  let ?g = "snd (nat_lookup 7 (Ipv4 172 19 0 1, 50000) (Ipv4 198 18 0 4, 443) (nat_new 300))"
    and ?s = "\<lparr>source = (Ipv4 172 19 0 1, 50000), destination = (Ipv4 198 18 0 4, 443), last_seen = 7\<rparr>"
  have r: "nat_reachable ?g"
    unfolding nat_reachable_def by (blast intro: nat_step.intros)
  have s: "hm_get (port_map ?g) 10000 = Some ?s" by code_simp
  then show ?thesis using nat_invariant [OF r, of "source ?s" 10000 ?s] by (simp add: Let_def)
qed

text \<open>
  C11: while fewer than 55535 flows are open, a lookup finds a port; the reverse lookup of the port
  gives back the source and the destination of the flow, also after any sequence of lookups of
  other sources and any reverse lookup in between.
\<close>

theorem nat_roundtrip:
  assumes "nat_reachable g" "hm_len (port_map g) < 55535"
  shows "\<exists>p g'. nat_lookup now src dst g = (Some p, g')
    \<and> (\<forall>others later. src \<notin> (\<lambda>(t, b, e). b) ` set others \<longrightarrow>
         fst (lookup_back later p (fold (\<lambda>(t, b, e) s. snd (nat_lookup t b e s)) others g')) = Some (src, dst))"
proof -
  note ok = nat_reachable_ok [OF assms(1)]
  obtain r g' where l: "nat_lookup now src dst g = (r, g')" by (cases "nat_lookup now src dst g")
  have "r \<noteq> None" using ok l assms(2) by (cases rule: nat_lookup_cases) auto
  then obtain p where p: "r = Some p" by blast
  have run: "flows.run others s = fold (\<lambda>(t, b, e) s. snd (nat_lookup t b e s)) others s" for others s
    by (induction others s rule: flows.run.induct) simp_all
  show ?thesis
    using l p flows.assign_then_run [OF ok, of now src dst p g'] unfolding fst_lookup_back run by simp
qed

theorem nat_roundtrip_witness:
  "\<exists>p g'. nat_lookup 7 (Ipv4 172 19 0 1, 50000) (Ipv4 198 18 0 4, 443) (nat_new 300) = (Some p, g')
     \<and> fst (lookup_back 9 p g') = Some ((Ipv4 172 19 0 1, 50000), (Ipv4 198 18 0 4, 443))"
proof -
  have r: "nat_reachable (nat_new 300)" by (auto simp: nat_reachable_def)
  have "hm_len (port_map (nat_new 300)) < 55535" by (simp add: nat_new_def hm_len_def)
  from nat_roundtrip [OF r this, of 7 "(Ipv4 172 19 0 1, 50000)" "(Ipv4 198 18 0 4, 443)"]
  obtain p g' where g': "nat_lookup 7 (Ipv4 172 19 0 1, 50000) (Ipv4 198 18 0 4, 443) (nat_new 300) = (Some p, g')"
    and all: "\<forall>others later. (Ipv4 172 19 0 1, 50000) \<notin> (\<lambda>(t, b, e). b) ` set others \<longrightarrow>
      fst (lookup_back later p (fold (\<lambda>(t, b, e) s. snd (nat_lookup t b e s)) others g'))
      = Some ((Ipv4 172 19 0 1, 50000), (Ipv4 198 18 0 4, 443))" by blast
  show ?thesis using g' all [rule_format, of "[]" 9] by auto
qed

text \<open>
  a sweep removes exactly the flows idle for longer than the timeout: a port keeps its session
  when the session is not expired and is free afterwards otherwise, and a source still has a
  port after the sweep exactly when its session survived.
\<close>

theorem sweep_exact:
  assumes "nat_reachable g"
  shows "hm_get (port_map (sweep now g)) p = opt_filter (\<lambda>s. now - last_seen s \<le> timeout g) (hm_get (port_map g) p)
    \<and> (hm_get (addr_map (sweep now g)) a = Some p \<longleftrightarrow>
        hm_get (addr_map g) a = Some p
        \<and> is_some_and (\<lambda>s. now - last_seen s \<le> timeout g) (hm_get (port_map g) p))"
proof -
  note ok = nat_reachable_ok [OF assms]
  have ports: "hm_get (port_map (sweep now g)) p
      = opt_filter (\<lambda>s. now - last_seen s \<le> timeout g) (hm_get (port_map g) p)"
    unfolding sweep_ports [OF ok] expired_def not_less ..
  show ?thesis
    using ports nat_okD(1) [OF ok, of a p] nat_okD(1) [OF sweep_ok [OF ok, of now], of a p]
    by (auto simp: opt_filter_def split: option.splits if_splits)
qed

theorem sweep_exact_witness:
  "hm_get (port_map (sweep 400 (snd (nat_lookup 7 (Ipv4 172 19 0 1, 50000) (Ipv4 198 18 0 4, 443) (nat_new 300))))) 10000
   = None"
proof -
  let ?g = "snd (nat_lookup 7 (Ipv4 172 19 0 1, 50000) (Ipv4 198 18 0 4, 443) (nat_new 300))"
  have r: "nat_reachable ?g" unfolding nat_reachable_def by (blast intro: nat_step.open_flow)
  have "hm_get (port_map ?g) 10000
    = Some \<lparr>source = (Ipv4 172 19 0 1, 50000), destination = (Ipv4 198 18 0 4, 443), last_seen = 7\<rparr>"
    "timeout ?g = 300"
    by code_simp+
  then show ?thesis using sweep_exact [OF r, of 400 10000] by (simp add: opt_filter_def)
qed

end
