(* ===== verification/Utils.thy ===== *)
theory Utils
  imports RustStr
begin

text \<open>
  \<^verbatim>\<open>crates/clash-core/src/utils.rs\<close>: host name normalisation and the bounded cache with
  expiry times. Time is a natural number of milliseconds that the caller reads from the
  clock; the iteration order of the hash map is an argument of the operation that iterates.
\<close>

section \<open>Host names\<close>

text \<open>The \<^verbatim>\<open>idna\<close> crate is a parameter: \<open>idna h\<close> is \<open>idna::domain_to_ascii(h).ok()\<close>.\<close>

type_synonym idna_fn = "rstr \<Rightarrow> rstr option"

definition trim_dots :: "rstr \<Rightarrow> rstr" where
  "trim_dots s = trim_end_chars (\<lambda>c. c = CHR ''.'') s"

definition domain_to_ascii :: "idna_fn \<Rightarrow> rstr \<Rightarrow> rstr" where
  "domain_to_ascii idna host =
     (let host = lowercase (trim_dots (trim host)) in
      if host = [] \<or> (\<forall>c \<in> set host. is_ascii c) then host
      else unwrap_or host (idna host))"

lemma domain_to_ascii_Nil [simp]: "domain_to_ascii idna [] = []"
  by (simp add: domain_to_ascii_def trim_dots_def trim_end_chars_def lowercase_def Let_def)

text \<open>A name in normal form: lower case, ASCII, no dot or white space at its ends.\<close>

definition normal_name :: "rstr \<Rightarrow> bool" where
  "normal_name h \<longleftrightarrow>
     (\<forall>c \<in> set h. is_ascii c) \<and> lowercase h = h \<and> trim h = h \<and> trim_dots h = h"

lemma domain_to_ascii_normal: "normal_name h \<Longrightarrow> domain_to_ascii idna h = h"
  by (simp add: domain_to_ascii_def normal_name_def Let_def)

lemma trim_dots_graphic:
  assumes "s \<noteq> []" and "last s \<noteq> CHR ''.''"
  shows "trim_dots s = s"
  using assms by (cases s rule: rev_cases) (auto simp: trim_dots_def trim_end_chars_def)

section \<open>TtlLru\<close>

record 'v ttl_entry =
  val :: 'v
  expire :: nat

record 'v ttl_lru =
  inner :: "(rstr, 'v ttl_entry) hmap"
  capacity :: nat

definition ttl_new :: "nat \<Rightarrow> 'v ttl_lru" where
  "ttl_new cap = \<lparr>inner = [], capacity = max cap 16\<rparr>"

definition ttl_get :: "nat \<Rightarrow> rstr \<Rightarrow> 'v ttl_lru \<Rightarrow> 'v option \<times> 'v ttl_lru" where
  "ttl_get now key c =
     (case hm_get (inner c) key of
        None \<Rightarrow> (None, c)
      | Some e \<Rightarrow>
          if expire e < now then (None, c\<lparr>inner := hm_remove key (inner c)\<rparr>)
          else (Some (val e), c))"

text \<open>\<^verbatim>\<open>Duration::from_mins_compat(10)\<close>.\<close>

definition default_ttl :: nat where
  "default_ttl = 10 * 60 * 1000"

fun remove_keys :: "rstr list \<Rightarrow> (rstr, 'v) hmap \<Rightarrow> (rstr, 'v) hmap" where
  "remove_keys [] m = m"
| "remove_keys (k # ks) m = remove_keys ks (hm_remove k m)"

text \<open>\<open>order m\<close> is \<open>m.keys()\<close> in the order the map iterates; the clock is read twice.\<close>

definition ttl_set ::
  "((rstr, 'v ttl_entry) hmap \<Rightarrow> rstr list) \<Rightarrow> nat \<Rightarrow> nat \<Rightarrow> rstr \<Rightarrow> 'v \<Rightarrow> nat option
    \<Rightarrow> 'v ttl_lru \<Rightarrow> 'v ttl_lru" where
  "ttl_set order now now2 key v ttl c =
     (let m = hm_insert key \<lparr>val = v, expire = now + unwrap_or default_ttl ttl\<rparr> (inner c) in
      if hm_len m \<le> capacity c then c\<lparr>inner := m\<rparr>
      else
        (let m' = hm_retain (\<lambda>_ e. now2 \<le> expire e) m in
         if hm_len m' \<le> capacity c then c\<lparr>inner := m'\<rparr>
         else c\<lparr>inner := remove_keys (take (hm_len m' - capacity c) (order m')) m'\<rparr>))"

definition ttl_ok :: "'v ttl_lru \<Rightarrow> bool" where
  "ttl_ok c \<longleftrightarrow> hm_ok (inner c) \<and> hm_len (inner c) \<le> capacity c"

definition ttl_entries :: "'v ttl_lru \<Rightarrow> rstr \<Rightarrow> 'v option" where
  "ttl_entries c k = map_option val (hm_get (inner c) k)"

text \<open>Every order a hash map may iterate in lists each key once.\<close>

definition key_order :: "((rstr, 'v) hmap \<Rightarrow> rstr list) \<Rightarrow> bool" where
  "key_order order \<longleftrightarrow> (\<forall>m. hm_ok m \<longrightarrow> distinct (order m) \<and> set (order m) = dom (hm_get m))"

lemma key_order_fst: "key_order (map fst)"
  by (simp add: key_order_def hm_ok_def hm_get_def [abs_def] dom_map_of_conv_image_fst)

lemma hm_ok_remove_keys [simp]: "hm_ok m \<Longrightarrow> hm_ok (remove_keys ks m)"
  by (induction ks m rule: remove_keys.induct) auto

lemma hm_get_remove_keys:
  "hm_get (remove_keys ks m) k = (if k \<in> set ks then None else hm_get m k)"
  by (induction ks m rule: remove_keys.induct) auto

lemma hm_len_remove_keys:
  "\<lbrakk>hm_ok m; distinct ks; set ks \<subseteq> dom (hm_get m)\<rbrakk>
    \<Longrightarrow> hm_len (remove_keys ks m) = hm_len m - length ks"
proof (induction ks m rule: remove_keys.induct)
  case (2 k ks m)
  then have sub: "set ks \<subseteq> dom (hm_get (hm_remove k m))" by (auto simp: hm.dom_remove)
  have "hm_len (remove_keys ks (hm_remove k m)) = hm_len (hm_remove k m) - length ks"
    by (rule "2.IH") (use "2.prems" sub in auto)
  with "2.prems" show ?case by (auto simp: hm.len_remove)
qed simp

lemma ttl_new_ok [simp]: "ttl_ok (ttl_new cap)"
  by (simp add: ttl_ok_def ttl_new_def hm_len_def)

lemma ttl_get_ok: "ttl_ok c \<Longrightarrow> ttl_ok (snd (ttl_get now key c))"
  by (auto simp: ttl_ok_def ttl_get_def hm.len_remove split: option.splits)

lemma hm_len_retain: "hm_len (hm_retain p m) \<le> hm_len m"
  by (simp add: hm_len_def hm_retain_def)

text \<open>\<^verbatim>\<open>set\<close> keeps the cache within its capacity.\<close>

lemma ttl_set_ok:
  assumes "ttl_ok c" and "key_order order"
  shows "ttl_ok (ttl_set order now now2 key v ttl c)"
proof -
  define m where "m = hm_insert key \<lparr>val = v, expire = now + unwrap_or default_ttl ttl\<rparr> (inner c)"
  define m' where "m' = hm_retain (\<lambda>_ e. now2 \<le> expire e) m"
  define ks where "ks = take (hm_len m' - capacity c) (order m')"
  have ok: "hm_ok m" "hm_ok m'" using assms by (auto simp: m_def m'_def ttl_ok_def)
  then have ord: "distinct (order m')" "set (order m') = dom (hm_get m')"
    using assms(2) by (auto simp: key_order_def)
  then have "length (order m') = hm_len m'"
    by (metis distinct_card hm.len_card ok(2))
  moreover have "distinct ks" "set ks \<subseteq> dom (hm_get m')"
    using ord set_take_subset by (fastforce simp: ks_def)+
  ultimately have "hm_len (remove_keys ks m') \<le> capacity c"
    using hm_len_remove_keys [OF ok(2)] by (simp add: ks_def)
  with ok show ?thesis
    unfolding ttl_set_def Let_def m_def [symmetric] m'_def [symmetric] ks_def [symmetric]
    by (simp add: ttl_ok_def)
qed

section \<open>Memoisation\<close>

text \<open>
  What a client that caches the results of a pure function may rely on: a lookup returns a
  stored value or nothing, and neither operation invents an entry. Entries may vanish at any
  time (expiry, eviction), so nothing is promised about presence.
\<close>

locale memo_cache =
  fixes valid :: "'c \<Rightarrow> bool"
    and entries :: "'c \<Rightarrow> 'k \<Rightarrow> 'v option"
    and lookup :: "nat \<Rightarrow> 'k \<Rightarrow> 'c \<Rightarrow> 'v option \<times> 'c"
    and store :: "nat \<Rightarrow> nat \<Rightarrow> 'k \<Rightarrow> 'v \<Rightarrow> 'c \<Rightarrow> 'c"
  assumes lookup_valid: "valid c \<Longrightarrow> valid (snd (lookup t k c))"
    and store_valid: "valid c \<Longrightarrow> valid (store t t2 k v c)"
    and lookup_sound: "fst (lookup t k c) = Some v \<Longrightarrow> entries c k = Some v"
    and lookup_keeps: "entries (snd (lookup t k c)) k' = Some v \<Longrightarrow> entries c k' = Some v"
    and store_sound: "valid c \<Longrightarrow> entries (store t t2 k v c) k' = Some v' \<Longrightarrow>
           (k' = k \<and> v' = v) \<or> entries c k' = Some v'"
begin

definition coherent :: "('k \<Rightarrow> 'v) \<Rightarrow> 'c \<Rightarrow> bool" where
  "coherent f c \<longleftrightarrow> valid c \<and> (\<forall>k v. entries c k = Some v \<longrightarrow> v = f k)"

definition memo :: "('k \<Rightarrow> 'v) \<Rightarrow> nat \<Rightarrow> nat \<Rightarrow> 'k \<Rightarrow> 'c \<Rightarrow> 'v \<times> 'c" where
  "memo f t t2 k c =
     (case lookup t k c of
        (Some v, c') \<Rightarrow> (v, c')
      | (None, c') \<Rightarrow> (f k, store t t2 k (f k) c'))"

lemma memo_value: "coherent f c \<Longrightarrow> fst (memo f t t2 k c) = f k"
  using lookup_sound [of t k c] by (auto simp: memo_def coherent_def split: prod.splits option.splits)

lemma memo_coherent:
  assumes "coherent f c"
  shows "coherent f (snd (memo f t t2 k c))"
proof -
  obtain r c' where l: "lookup t k c = (r, c')" by (cases "lookup t k c")
  have v: "valid c'" and k: "\<And>k' v. entries c' k' = Some v \<Longrightarrow> v = f k'"
    using assms lookup_valid [of c t k] lookup_keeps [of t k c] l by (auto simp: coherent_def)
  show ?thesis
  proof (cases r)
    case None
    then have "memo f t t2 k c = (f k, store t t2 k (f k) c')" using l by (simp add: memo_def)
    moreover have "w = f k'" if "entries (store t t2 k (f k) c') k' = Some w" for k' w
      using store_sound [OF v that] k by blast
    ultimately show ?thesis using store_valid [OF v] by (simp add: coherent_def)
  next
    case (Some x)
    then show ?thesis using l v k by (auto simp: memo_def coherent_def)
  qed
qed

end

text \<open>
  The program's cache fulfils the contract, for stores with the default expiry and a fixed
  iteration order (the first-inserted-first order of the model's maps).
\<close>

definition ttl_valid :: "'v ttl_lru \<Rightarrow> bool" where
  "ttl_valid c \<longleftrightarrow> hm_ok (inner c)"

definition ttl_set_default ::
  "((rstr, 'v ttl_entry) hmap \<Rightarrow> rstr list) \<Rightarrow> nat \<Rightarrow> nat \<Rightarrow> rstr \<Rightarrow> 'v \<Rightarrow> 'v ttl_lru \<Rightarrow> 'v ttl_lru" where
  "ttl_set_default order now now2 key v c = ttl_set order now now2 key v None c"

lemma ttl_set_inner_ok: "hm_ok (inner c) \<Longrightarrow> hm_ok (inner (ttl_set order now now2 key v ttl c))"
  by (simp add: ttl_set_def Let_def)

lemma ttl_set_entries:
  assumes "hm_ok (inner c)" and "ttl_entries (ttl_set order now now2 key v ttl c) k' = Some v'"
  shows "(k' = key \<and> v' = v) \<or> ttl_entries c k' = Some v'"
  using assms
  by (auto simp: ttl_set_def ttl_entries_def Let_def hm_get_remove_keys hm_get_retain
      split: if_splits)

interpretation ttl: memo_cache ttl_valid ttl_entries ttl_get "ttl_set_default order"
  for order :: "(rstr, 'v ttl_entry) hmap \<Rightarrow> rstr list"
proof (unfold_locales, goal_cases)
  case (1 c t k)
  then show ?case by (auto simp: ttl_valid_def ttl_get_def split: option.splits)
next
  case (2 c t t2 k v)
  then show ?case by (simp add: ttl_valid_def ttl_set_default_def ttl_set_inner_ok)
next
  case (3 t k c v)
  then show ?case by (auto simp: ttl_get_def ttl_entries_def split: option.splits if_splits)
next
  case (4 t k c k' v)
  then show ?case by (auto simp: ttl_get_def ttl_entries_def split: option.splits if_splits)
next
  case (5 c t t2 k v k' v')
  then show ?case by (simp add: ttl_valid_def ttl_set_default_def ttl_set_entries)
qed

end
