(* ===== verification/FakeIp.thy ===== *)
theory FakeIp
  imports Utils IpAddr
begin

text \<open>
  \<^verbatim>\<open>FakeIpPool\<close> and \<^verbatim>\<open>DohBlocklist\<close> of \<^verbatim>\<open>crates/clash-core/src/dns.rs\<close>: the pool that hands out
  addresses of 198.18.0.0/16 for host names, with least-recently-used eviction, and the
  blocklist of public resolvers. The two hash maps of the pool are inverse to each other and
  the queue holds each host once; every operation keeps this.
\<close>

section \<open>Pool\<close>

record fake_pool =
  host_ip :: "(rstr, ipv4) hmap"
  ip_host :: "(ipv4, rstr) hmap"
  lru :: "rstr list"
  next_bits :: u32

definition FIRST :: u32 where "FIRST = 4"
definition LAST :: u32 where "LAST = 0xFFFE"
definition POOL_MAX :: nat where "POOL_MAX = 8192"
definition DNS_ADDR :: ipv4 where "DNS_ADDR = Ipv4 198 18 0 2"

definition pool_new :: fake_pool where
  "pool_new = \<lparr>host_ip = [], ip_host = [], lru = [], next_bits = FIRST\<rparr>"

definition is_fake_ip :: "ip_addr \<Rightarrow> bool" where
  "is_fake_ip ip =
     (case ip of
        V6 _ \<Rightarrow> False
      | V4 v \<Rightarrow>
          if oct0 v \<noteq> 198 \<or> oct1 v \<noteq> 18 then False
          else FIRST \<le> (push_bit 8 (ucast (oct2 v)) OR ucast (oct3 v)))"

definition is_fake_ip_v4 :: "ipv4 \<Rightarrow> bool" where
  "is_fake_ip_v4 ip = is_fake_ip (V4 ip)"

definition host_to_ip :: "u32 \<Rightarrow> ipv4" where
  "host_to_ip bits = Ipv4 198 18 (ucast (drop_bit 8 bits)) (ucast bits)"

text \<open>\<open>position\<close> and \<open>remove(i)\<close> of the queue, then \<open>push_front\<close>.\<close>

definition touch :: "rstr \<Rightarrow> fake_pool \<Rightarrow> fake_pool" where
  "touch host p = (if host \<in> set (lru p) then p\<lparr>lru := host # remove1 host (lru p)\<rparr> else p)"

definition evict :: "fake_pool \<Rightarrow> fake_pool" where
  "evict p =
     (if lru p = [] then p
      else
        (let host = last (lru p); p = p\<lparr>lru := butlast (lru p)\<rparr> in
         case hm_get (host_ip p) host of
           None \<Rightarrow> p
         | Some ip \<Rightarrow> p\<lparr>host_ip := hm_remove host (host_ip p), ip_host := hm_remove ip (ip_host p)\<rparr>))"

definition advance :: "u32 \<Rightarrow> u32" where
  "advance nx = (if LAST < nx + 1 then FIRST else nx + 1)"

text \<open>The allocation loop; \<open>busy ip\<close> is \<^verbatim>\<open>ip_to_host.contains_key(&ip) || in_use(ip)\<close>.\<close>

fun alloc_loop :: "nat \<Rightarrow> (ipv4 \<Rightarrow> bool) \<Rightarrow> u32 \<Rightarrow> ipv4 option \<times> u32" where
  "alloc_loop 0 busy nx = (None, nx)"
| "alloc_loop (Suc n) busy nx =
     (let ip = host_to_ip nx; nx = advance nx in
      if oct3 ip = 0 \<or> oct3 ip = 255 then alloc_loop n busy nx
      else if busy ip then alloc_loop n busy nx
      else (Some ip, nx))"

definition lookup_avoiding ::
  "idna_fn \<Rightarrow> rstr \<Rightarrow> (ipv4 \<Rightarrow> bool) \<Rightarrow> fake_pool \<Rightarrow> ipv4 \<times> fake_pool" where
  "lookup_avoiding idna host in_use p =
     (let host = domain_to_ascii idna host in
      case hm_get (host_ip p) host of
        Some ip \<Rightarrow> (ip, touch host p)
      | None \<Rightarrow>
          (let p = (if POOL_MAX \<le> hm_len (host_ip p) then evict p else p) in
           case alloc_loop 65530 (\<lambda>ip. hm_get (ip_host p) ip \<noteq> None \<or> in_use ip) (next_bits p) of
             (Some ip, nx) \<Rightarrow>
               (ip, p\<lparr>host_ip := hm_insert host ip (host_ip p),
                      ip_host := hm_insert ip host (ip_host p),
                      lru := host # lru p, next_bits := nx\<rparr>)
           | (None, nx) \<Rightarrow> (Ipv4 198 18 0 4, p\<lparr>next_bits := nx\<rparr>)))"

definition lookup_fake :: "idna_fn \<Rightarrow> rstr \<Rightarrow> fake_pool \<Rightarrow> ipv4 \<times> fake_pool" where
  "lookup_fake idna host p = lookup_avoiding idna host (\<lambda>_. False) p"

definition lookback :: "ipv4 \<Rightarrow> fake_pool \<Rightarrow> rstr option \<times> fake_pool" where
  "lookback ip p =
     (case hm_get (ip_host p) ip of
        None \<Rightarrow> (None, p)
      | Some host \<Rightarrow> (Some host, touch host p))"

section \<open>Blocklist of public resolvers\<close>

definition doh_hosts :: "rstr list" where
  "doh_hosts =
     [''1.1.1.1'', ''1.0.0.1'', ''8.8.8.8'', ''8.8.4.4'', ''9.9.9.9'', ''149.112.112.112'',
      ''208.67.222.222'', ''208.67.220.220'', ''94.140.14.14'', ''94.140.15.15'',
      ''1.12.12.12'', ''120.53.53.53'', ''223.5.5.5'', ''223.6.6.6'', ''76.76.21.21'',
      ''185.222.222.222'', ''45.90.28.167'', ''45.90.30.167'']"

definition v4_bits :: "ipv4 \<Rightarrow> u32" where
  "v4_bits v =
     word_of_nat (unat (oct0 v) * 16777216 + unat (oct1 v) * 65536 + unat (oct2 v) * 256
       + unat (oct3 v))"

definition doh_blocklist :: "u32 list" where
  "doh_blocklist =
     List.map_filter (\<lambda>h. case parse_ip h of Some (V4 v) \<Rightarrow> Some (v4_bits v) | _ \<Rightarrow> None) doh_hosts"

definition is_blocked :: "u32 list \<Rightarrow> ip_addr \<Rightarrow> bool" where
  "is_blocked blocked ip = (case ip of V4 v \<Rightarrow> v4_bits v \<in> set blocked | V6 _ \<Rightarrow> False)"

section \<open>Invariant\<close>

definition usable_ip :: "ipv4 \<Rightarrow> bool" where
  "usable_ip ip \<longleftrightarrow> is_fake_ip_v4 ip \<and> oct3 ip \<noteq> 0 \<and> oct3 ip \<noteq> 255"

definition next_ok :: "u32 \<Rightarrow> bool" where
  "next_ok nx \<longleftrightarrow> FIRST \<le> nx \<and> nx \<le> LAST"

definition pool_ok :: "fake_pool \<Rightarrow> bool" where
  "pool_ok p \<longleftrightarrow>
     hm_ok (host_ip p) \<and> hm_ok (ip_host p)
     \<and> (\<forall>h ip. hm_get (host_ip p) h = Some ip \<longleftrightarrow> hm_get (ip_host p) ip = Some h)
     \<and> distinct (lru p) \<and> set (lru p) = dom (hm_get (host_ip p))
     \<and> length (lru p) \<le> POOL_MAX
     \<and> next_ok (next_bits p)
     \<and> (\<forall>ip. hm_get (ip_host p) ip \<noteq> None \<longrightarrow> usable_ip ip)"

lemma next_ok_unat: "next_ok nx \<longleftrightarrow> 4 \<le> unat nx \<and> unat nx \<le> 65534"
  by (simp add: next_ok_def FIRST_def LAST_def word_le_nat_alt)

lemma unat_advance: "next_ok nx \<Longrightarrow> unat (advance nx) = (if unat nx = 65534 then 4 else unat nx + 1)"
proof -
  assume n: "next_ok nx"
  then have "unat (nx + 1) = unat nx + 1"
    by (simp add: next_ok_unat unat_word_ariths)
  with n show ?thesis
    by (auto simp: advance_def next_ok_unat LAST_def FIRST_def word_less_nat_alt)
qed

lemma advance_ok: "next_ok nx \<Longrightarrow> next_ok (advance nx)"
  by (auto simp: next_ok_unat unat_advance)

lemma host_to_ip_octets:
  assumes "unat bits < 65536"
  shows "unat (oct2 (host_to_ip bits)) = unat bits div 256"
    and "unat (oct3 (host_to_ip bits)) = unat bits mod 256"
  using assms by (simp_all add: host_to_ip_def unsigned_ucast_eq unat_drop_bit_eq
      drop_bit_eq_div take_bit_eq_mod unat_div)

lemma host_to_ip_inj:
  assumes "unat a < 65536" and "unat b < 65536" and "host_to_ip a = host_to_ip b"
  shows "a = b"
proof -
  have "unat a div 256 = unat b div 256" "unat a mod 256 = unat b mod 256"
    using host_to_ip_octets [OF assms(1)] host_to_ip_octets [OF assms(2)] assms(3) by auto
  then have "unat a = unat b" by (metis div_mult_mod_eq)
  then show ?thesis by (simp add: word_unat_eq_iff)
qed

lemma fake_host_bits:
  "unat (push_bit 8 (ucast (b2 :: u8)) OR ucast (b3 :: u8) :: u32) = unat b2 * 256 + unat b3"
proof -
  have d: "push_bit 8 (ucast b2 :: u32) OR ucast b3 = push_bit 8 (ucast b2) + ucast b3"
    by (rule disjunctive_add [symmetric]) (auto simp: bit_simps dest: bit_imp_le_length)
  have "unat b2 * 256 + unat b3 < 65536" by (rule two_bytes_bound)
  then show ?thesis unfolding d
    by (simp add: push_bit_eq_mult unat_word_ariths unsigned_ucast_eq take_bit_eq_mod)
qed

lemma host_to_ip_fake: "next_ok nx \<Longrightarrow> is_fake_ip_v4 (host_to_ip nx)"
proof -
  assume n: "next_ok nx"
  then have lt: "unat nx < 65536" by (simp add: next_ok_unat)
  have "unat (oct2 (host_to_ip nx)) * 256 + unat (oct3 (host_to_ip nx)) = unat nx"
    using host_to_ip_octets [OF lt] by simp
  with n have "4 \<le> unat (push_bit 8 (ucast (oct2 (host_to_ip nx)))
      OR ucast (oct3 (host_to_ip nx)) :: u32)"
    unfolding fake_host_bits by (simp add: next_ok_unat)
  then show ?thesis
    by (simp add: is_fake_ip_v4_def is_fake_ip_def FIRST_def word_le_nat_alt)
      (simp add: host_to_ip_def)
qed

section \<open>Every operation keeps the invariant\<close>

lemma pool_new_ok: "pool_ok pool_new"
  by (auto simp: pool_ok_def pool_new_def next_ok_def FIRST_def LAST_def)

lemma touch_fields [simp]:
  "host_ip (touch h p) = host_ip p" "ip_host (touch h p) = ip_host p"
  "next_bits (touch h p) = next_bits p" "set (lru (touch h p)) = set (lru p)"
  "length (lru (touch h p)) = length (lru p)" "distinct (lru p) \<Longrightarrow> distinct (lru (touch h p))"
  by (auto simp: touch_def length_remove1 dest: in_set_remove1 [THEN iffD1, rotated]
      intro: notin_set_remove1 in_set_remove1 [THEN iffD2])
    (metis One_nat_def Suc_pred length_pos_if_in_set)

lemma touch_ok: "pool_ok p \<Longrightarrow> pool_ok (touch h p)"
  by (simp add: pool_ok_def)

lemma lookback_ok: "pool_ok p \<Longrightarrow> pool_ok (snd (lookback ip p))"
  by (auto simp: lookback_def touch_ok split: option.splits)

lemma evict_ok:
  assumes "pool_ok p"
  shows "pool_ok (evict p) \<and> (lru p \<noteq> [] \<longrightarrow> length (lru (evict p)) = length (lru p) - 1)
    \<and> next_bits (evict p) = next_bits p \<and> set (lru (evict p)) \<subseteq> set (lru p)"
proof (cases "lru p" rule: rev_cases)
  case Nil
  with assms show ?thesis by (simp add: evict_def)
next
  case (snoc hs h)
  then have "h \<in> dom (hm_get (host_ip p))" using assms by (auto simp: pool_ok_def)
  then obtain ip where ip: "hm_get (host_ip p) h = Some ip" by auto
  have inv: "hm_get (host_ip p) h' = Some ip' \<longleftrightarrow> hm_get (ip_host p) ip' = Some h'" for h' ip'
    using assms by (simp add: pool_ok_def)
  have e: "evict p = p\<lparr>lru := hs, host_ip := hm_remove h (host_ip p),
      ip_host := hm_remove ip (ip_host p)\<rparr>"
    using snoc ip by (simp add: evict_def)
  have "set hs = dom (hm_get (hm_remove h (host_ip p)))"
    using assms snoc by (auto simp: pool_ok_def hm.dom_remove)
  moreover have "hm_get (hm_remove h (host_ip p)) h' = Some ip' \<longleftrightarrow>
      hm_get (hm_remove ip (ip_host p)) ip' = Some h'" for h' ip'
    using inv [of h' ip'] inv [of h ip'] inv [of h' ip] ip by auto
  ultimately show ?thesis using assms snoc
    by (auto simp: pool_ok_def e split: if_splits)
qed

lemma alloc_loop_spec:
  assumes "next_ok nx" and "alloc_loop n busy nx = (r, nx')"
  shows "next_ok nx' \<and> (\<forall>ip. r = Some ip \<longrightarrow> usable_ip ip \<and> \<not> busy ip)
    \<and> (r = None \<longrightarrow> (\<forall>i<n. let ip = host_to_ip ((advance ^^ i) nx) in
          oct3 ip = 0 \<or> oct3 ip = 255 \<or> busy ip))"
  using assms
proof (induction n arbitrary: nx)
  case (Suc n)
  let ?ip = "host_to_ip nx"
  have adv: "next_ok (advance nx)" using Suc.prems(1) by (rule advance_ok)
  show ?case
  proof (cases "oct3 ?ip = 0 \<or> oct3 ?ip = 255 \<or> busy ?ip")
    case True
    then have "alloc_loop n busy (advance nx) = (r, nx')"
      using Suc.prems(2) by (auto simp: Let_def split: if_splits)
    from Suc.IH [OF adv this] True show ?thesis
      by (auto simp: Let_def less_Suc_eq_0_disj funpow_swap1)
  next
    case False
    then show ?thesis using Suc.prems adv host_to_ip_fake [OF Suc.prems(1)]
      by (auto simp: Let_def usable_ip_def)
  qed
qed simp

lemma insert_ok:
  assumes "pool_ok p" and "hm_get (host_ip p) h = None" and "hm_get (ip_host p) ip = None"
    and "usable_ip ip" and "length (lru p) < POOL_MAX" and "next_ok nx"
  shows "pool_ok (p\<lparr>host_ip := hm_insert h ip (host_ip p), ip_host := hm_insert ip h (ip_host p),
    lru := h # lru p, next_bits := nx\<rparr>)"
proof -
  have inv: "hm_get (host_ip p) h' = Some ip' \<longleftrightarrow> hm_get (ip_host p) ip' = Some h'" for h' ip'
    using assms(1) by (simp add: pool_ok_def)
  have "hm_get (hm_insert h ip (host_ip p)) h' = Some ip' \<longleftrightarrow>
      hm_get (hm_insert ip h (ip_host p)) ip' = Some h'" for h' ip'
    using inv [of h' ip'] inv [of h ip'] inv [of h' ip] assms(2,3) by auto
  moreover have "h \<notin> set (lru p)" using assms(1,2) by (auto simp: pool_ok_def)
  ultimately show ?thesis using assms
    by (auto simp: pool_ok_def hm.dom_insert split: if_splits)
qed

lemma len_host_ip: "pool_ok p \<Longrightarrow> hm_len (host_ip p) = length (lru p)"
  by (metis distinct_card hm.len_card pool_ok_def)

definition make_room :: "fake_pool \<Rightarrow> fake_pool" where
  "make_room p = (if POOL_MAX \<le> hm_len (host_ip p) then evict p else p)"

lemma make_room_ok:
  assumes "pool_ok p"
  shows "pool_ok (make_room p) \<and> length (lru (make_room p)) < POOL_MAX
    \<and> next_bits (make_room p) = next_bits p \<and> set (lru (make_room p)) \<subseteq> set (lru p)"
proof -
  have "length (lru p) \<le> POOL_MAX" using assms by (simp add: pool_ok_def)
  then show ?thesis using evict_ok [OF assms] assms
    by (auto simp: make_room_def len_host_ip [OF assms] POOL_MAX_def)
qed

lemma lru_iff: "pool_ok p \<Longrightarrow> h \<in> set (lru p) \<longleftrightarrow> hm_get (host_ip p) h \<noteq> None"
  by (auto simp: pool_ok_def)

lemma make_room_absent:
  assumes "pool_ok p" and "hm_get (host_ip p) h = None"
  shows "hm_get (host_ip (make_room p)) h = None"
proof -
  have "h \<notin> set (lru (make_room p))"
    using make_room_ok [OF assms(1)] lru_iff [OF assms(1), of h] assms(2) by auto
  with make_room_ok [OF assms(1)] lru_iff [of "make_room p" h] show ?thesis by simp
qed

text \<open>The three outcomes of a lookup: known host, fresh address, or exhaustion.\<close>

lemma lookup_avoiding_cases:
  assumes "pool_ok p" and "lookup_avoiding idna host in_use p = (ip, p')"
  obtains
    (known) "hm_get (host_ip p) (domain_to_ascii idna host) = Some ip"
      "p' = touch (domain_to_ascii idna host) p"
  | (fresh) nx where "hm_get (host_ip p) (domain_to_ascii idna host) = None"
      "alloc_loop 65530 (\<lambda>ip. hm_get (ip_host (make_room p)) ip \<noteq> None \<or> in_use ip)
         (next_bits (make_room p)) = (Some ip, nx)"
      "p' = (make_room p)\<lparr>
         host_ip := hm_insert (domain_to_ascii idna host) ip (host_ip (make_room p)),
         ip_host := hm_insert ip (domain_to_ascii idna host) (ip_host (make_room p)),
         lru := domain_to_ascii idna host # lru (make_room p), next_bits := nx\<rparr>"
  | (full) nx where "hm_get (host_ip p) (domain_to_ascii idna host) = None"
      "alloc_loop 65530 (\<lambda>ip. hm_get (ip_host (make_room p)) ip \<noteq> None \<or> in_use ip)
         (next_bits (make_room p)) = (None, nx)"
      "ip = Ipv4 198 18 0 4" "p' = (make_room p)\<lparr>next_bits := nx\<rparr>"
  using assms(2) unfolding lookup_avoiding_def Let_def make_room_def [symmetric]
  by (auto split: option.splits prod.splits)

lemma lookup_avoiding_ok:
  assumes "pool_ok p"
  shows "pool_ok (snd (lookup_avoiding idna host in_use p))"
proof -
  obtain ip p' where l: "lookup_avoiding idna host in_use p = (ip, p')"
    by (cases "lookup_avoiding idna host in_use p")
  note room = make_room_ok [OF assms]
  from assms l show ?thesis
  proof (cases rule: lookup_avoiding_cases)
    case known
    with assms l show ?thesis by (simp add: touch_ok)
  next
    case (fresh nx)
    have "next_ok (next_bits (make_room p))" using room unfolding pool_ok_def by blast
    from alloc_loop_spec [OF this fresh(2)] have "next_ok nx" "usable_ip ip"
      "hm_get (ip_host (make_room p)) ip = None" by auto
    then show ?thesis
      using insert_ok [of "make_room p"] room make_room_absent [OF assms fresh(1)] fresh(3) l by simp
  next
    case (full nx)
    have "next_ok (next_bits (make_room p))" using room unfolding pool_ok_def by blast
    from alloc_loop_spec [OF this full(2)] have "next_ok nx" by simp
    then show ?thesis using room full l by (simp add: pool_ok_def)
  qed
qed

section \<open>The pool is never exhausted\<close>

lemma advance_orbit:
  "next_ok nx \<Longrightarrow> next_ok ((advance ^^ i) nx)
    \<and> unat ((advance ^^ i) nx) = 4 + (unat nx - 4 + i) mod 65531"
proof (induction i)
  case 0
  then have "unat nx - 4 < 65531" "4 \<le> unat nx" by (auto simp: next_ok_unat)
  with 0 show ?case by simp
next
  case (Suc i)
  let ?m = "(unat nx - 4 + i) mod 65531"
  have ih: "next_ok ((advance ^^ i) nx)" "unat ((advance ^^ i) nx) = 4 + ?m"
    using Suc by auto
  have "(unat nx - 4 + Suc i) mod 65531 = (if ?m = 65530 then 0 else Suc ?m)"
    by (simp add: mod_Suc)
  with ih show ?case by (auto simp: advance_ok unat_advance)
qed

lemma advance_orbit_inj:
  assumes "next_ok nx"
  shows "inj_on (\<lambda>i. (advance ^^ i) nx) {..<65530}"
proof (rule inj_onI)
  fix i j :: nat
  assume ij: "i \<in> {..<65530}" "j \<in> {..<65530}" and eq: "(advance ^^ i) nx = (advance ^^ j) nx"
  have "(unat nx - 4 + i) mod 65531 = (unat nx - 4 + j) mod 65531"
    using eq advance_orbit [OF assms, of i] advance_orbit [OF assms, of j] by simp
  moreover have "unat nx - 4 < 65531" using assms by (auto simp: next_ok_unat)
  ultimately show "i = j" using ij add_mod_once [of "unat nx - 4" 65531] by (auto split: if_splits)
qed

definition edge_bits :: "nat set" where
  "edge_bits = (\<lambda>k. k * 256) ` {..<256} \<union> (\<lambda>k. k * 256 + 255) ` {..<256}"

lemma card_edge_bits: "finite edge_bits \<and> card edge_bits \<le> 512"
proof -
  have "card edge_bits \<le> card ((\<lambda>k :: nat. k * 256) ` {..<256}) + card ((\<lambda>k :: nat. k * 256 + 255) ` {..<256})"
    unfolding edge_bits_def by (rule card_Un_le)
  also have "\<dots> \<le> 256 + 256"
    by (intro add_mono) (metis card_image_le card_lessThan finite_lessThan)+
  finally show ?thesis by (simp add: edge_bits_def)
qed

lemma edge_bits_iff:
  assumes "unat bits < 65536" and "oct3 (host_to_ip bits) = 0 \<or> oct3 (host_to_ip bits) = 255"
  shows "unat bits \<in> edge_bits"
proof -
  have m: "unat bits mod 256 = 0 \<or> unat bits mod 256 = 255"
    using assms host_to_ip_octets(2) [OF assms(1)] by auto
  have d: "unat bits div 256 \<in> {..<256}" using assms(1) by (simp add: less_mult_imp_div_less)
  from m have "unat bits = unat bits div 256 * 256 \<or> unat bits = unat bits div 256 * 256 + 255"
    using div_mult_mod_eq [of "unat bits" 256] by linarith
  with d show ?thesis unfolding edge_bits_def by blast
qed

text \<open>Fewer than 65018 busy addresses leave one that the loop of 65530 rounds finds.\<close>

lemma alloc_loop_finds:
  assumes "next_ok nx" and "finite B" and "card B < 65018" and "\<And>ip. busy ip \<Longrightarrow> ip \<in> B"
  shows "\<exists>ip nx'. alloc_loop 65530 busy nx = (Some ip, nx')"
proof (rule ccontr)
  assume "\<not> ?thesis"
  then obtain nx' where none: "alloc_loop 65530 busy nx = (None, nx')"
    by (metis not_None_eq surj_pair)
  let ?S = "(\<lambda>i. (advance ^^ i) nx) ` {..<65530}"
  have S: "next_ok b" "unat b < 65536" if "b \<in> ?S" for b
    using that advance_orbit [OF assms(1)] by (auto simp: next_ok_unat)
  have cover: "oct3 (host_to_ip b) = 0 \<or> oct3 (host_to_ip b) = 255 \<or> busy (host_to_ip b)"
    if "b \<in> ?S" for b
    using that alloc_loop_spec [OF assms(1) none] by (auto simp: Let_def)
  let ?E = "{b \<in> ?S. unat b \<in> edge_bits}" and ?F = "{b \<in> ?S. host_to_ip b \<in> B}"
  have "?S \<subseteq> ?E \<union> ?F"
    using cover S(2) edge_bits_iff assms(4) by blast
  then have "card ?S \<le> card (?E \<union> ?F)" by (intro card_mono) auto
  also have "\<dots> \<le> card ?E + card ?F" by (rule card_Un_le)
  finally have "card ?S \<le> card ?E + card ?F" .
  moreover have "card ?E \<le> 512"
  proof -
    have "card ?E \<le> card edge_bits"
      by (rule card_inj_on_le [where f = unat]) (auto simp: inj_on_def card_edge_bits word_unat_eq_iff)
    with card_edge_bits show ?thesis by linarith
  qed
  moreover have "card ?F \<le> card B"
    by (rule card_inj_on_le [where f = host_to_ip])
      (use assms(2) S(2) host_to_ip_inj in \<open>auto intro!: inj_onI\<close>)
  moreover have "card ?S = 65530"
    using card_image [OF advance_orbit_inj [OF assms(1)]] by simp
  ultimately show False using assms(3) by linarith
qed

lemma dom_ip_host_card:
  assumes "pool_ok p"
  shows "finite (dom (hm_get (ip_host p))) \<and> card (dom (hm_get (ip_host p))) = length (lru p)"
proof -
  have inv: "hm_get (host_ip p) h = Some ip \<longleftrightarrow> hm_get (ip_host p) ip = Some h" for h ip
    using assms by (simp add: pool_ok_def)
  have "bij_betw (\<lambda>ip. the (hm_get (ip_host p) ip)) (dom (hm_get (ip_host p))) (dom (hm_get (host_ip p)))"
  proof (rule bij_betwI')
    fix x y
    assume "x \<in> dom (hm_get (ip_host p))" "y \<in> dom (hm_get (ip_host p))"
    then show "(the (hm_get (ip_host p) x) = the (hm_get (ip_host p) y)) = (x = y)"
      using inv by (metis domD option.inject option.sel)
  next
    fix x
    assume "x \<in> dom (hm_get (ip_host p))"
    then show "the (hm_get (ip_host p) x) \<in> dom (hm_get (host_ip p))" using inv by force
  next
    fix h
    assume "h \<in> dom (hm_get (host_ip p))"
    then obtain ip where "hm_get (ip_host p) ip = Some h" using inv by auto
    then show "\<exists>x\<in>dom (hm_get (ip_host p)). h = the (hm_get (ip_host p) x)" by force
  qed
  then have "card (dom (hm_get (ip_host p))) = card (dom (hm_get (host_ip p)))"
    by (rule bij_betw_same_card)
  also have "\<dots> = length (lru p)" using assms by (metis distinct_card pool_ok_def)
  finally show ?thesis by (simp add: hm.finite_dom)
qed

text \<open>
  With at most 55536 addresses reported as in use (the number of ports of the translation
  table), a lookup always binds the normalised name to the address it returns.
\<close>

lemma lookup_avoiding_binds:
  assumes "pool_ok p" and "finite U" and "card U \<le> 55536" and "\<And>ip. in_use ip \<Longrightarrow> ip \<in> U"
    and "lookup_avoiding idna host in_use p = (ip, p')"
  defines "h \<equiv> domain_to_ascii idna host"
  shows "hm_get (host_ip p') h = Some ip \<and> hm_get (ip_host p') ip = Some h \<and> hd (lru p') = h
    \<and> usable_ip ip \<and> (hm_get (host_ip p) h = None \<longrightarrow> \<not> in_use ip)"
proof -
  have ok': "pool_ok p'" using lookup_avoiding_ok [OF assms(1), of idna host in_use] assms(5) by simp
  have inv: "hm_get (host_ip q) x = Some y \<longleftrightarrow> hm_get (ip_host q) y = Some x" if "pool_ok q" for q x y
    using that by (simp add: pool_ok_def)
  note room = make_room_ok [OF assms(1)]
  have nx: "next_ok (next_bits (make_room p))" using room unfolding pool_ok_def by blast
  from assms(1,5) show ?thesis
  proof (cases rule: lookup_avoiding_cases)
    case known
    then have "h \<in> set (lru p)" using lru_iff [OF assms(1)] by (simp add: h_def)
    moreover have "usable_ip ip" using known(1) inv [OF assms(1)] assms(1) by (auto simp: pool_ok_def)
    ultimately show ?thesis
      using known inv [OF assms(1), of h ip] by (simp add: h_def touch_def)
  next
    case (fresh n)
    from alloc_loop_spec [OF nx fresh(2)] fresh(3) show ?thesis by (simp add: h_def)
  next
    case (full n)
    let ?B = "dom (hm_get (ip_host (make_room p))) \<union> U"
    have "finite ?B" "card ?B \<le> length (lru (make_room p)) + card U"
      using dom_ip_host_card [of "make_room p"] room assms(2)
        card_Un_le [of "dom (hm_get (ip_host (make_room p)))" U]
      by simp_all
    moreover have "length (lru (make_room p)) + card U < 65018"
      using room assms(3) by (simp add: POOL_MAX_def)
    ultimately have "\<exists>ip n. alloc_loop 65530
        (\<lambda>ip. hm_get (ip_host (make_room p)) ip \<noteq> None \<or> in_use ip) (next_bits (make_room p)) = (Some ip, n)"
      by (intro alloc_loop_finds [OF nx, of ?B]) (use assms(4) in auto)
    with full(2) show ?thesis by simp
  qed
qed

section \<open>Properties\<close>

inductive pool_step :: "idna_fn \<Rightarrow> fake_pool \<Rightarrow> fake_pool \<Rightarrow> bool" for idna where
  assign: "pool_step idna p (snd (lookup_avoiding idna host in_use p))"
| resolve: "pool_step idna p (snd (lookback ip p))"

inductive pool_reachable :: "idna_fn \<Rightarrow> fake_pool \<Rightarrow> bool" for idna where
  start: "pool_reachable idna pool_new"
| step: "pool_reachable idna p \<Longrightarrow> pool_step idna p q \<Longrightarrow> pool_reachable idna q"

inductive_cases pool_stepE: "pool_step idna p q"

lemma pool_step_ok: "pool_step idna p q \<Longrightarrow> pool_ok p \<Longrightarrow> pool_ok q"
  by (auto elim!: pool_stepE simp: lookup_avoiding_ok lookback_ok)

lemma reachable_ok: "pool_reachable idna p \<Longrightarrow> pool_ok p"
  by (induction rule: pool_reachable.induct) (auto simp: pool_new_ok intro: pool_step_ok)

text \<open>
  C8: in every state the pool can reach, the two hash maps are inverse to each other, the
  queue lists exactly the bound hosts, there are at most 8192 of them, the cursor stays in its
  range, and every bound address is a fake address whose last octet is neither 0 nor 255.
\<close>

theorem fake_pool_invariant:
  assumes "pool_reachable idna p"
  shows "pool_ok p"
  using assms by (rule reachable_ok)

theorem fake_pool_invariant_witness:
  "pool_ok (snd (lookback (Ipv4 198 18 0 4) (snd (lookup_avoiding (\<lambda>h. None) ''a.com'' (\<lambda>_. False) pool_new))))"
  by (rule fake_pool_invariant [of "\<lambda>h. None"])
    (rule pool_reachable.step [OF pool_reachable.step [OF pool_reachable.start pool_step.assign]
        pool_step.resolve])

text \<open>
  a name and its fake address are bound both ways. As long as the addresses reported as
  in use number at most 55536, a lookup returns a fake address, an immediate \<^verbatim>\<open>lookback\<close> of
  that address gives the normalised name, and a fresh address is not one in use: the fallback
  address of the source is never handed out.
\<close>

theorem fake_ip_roundtrip:
  assumes "pool_reachable idna p" and "finite U" and "card U \<le> 55536"
    and "\<forall>ip. in_use ip \<longrightarrow> ip \<in> U"
    and "lookup_avoiding idna host in_use p = (ip, p')"
  shows "fst (lookback ip p') = Some (domain_to_ascii idna host) \<and> is_fake_ip_v4 ip
    \<and> (hm_get (host_ip p) (domain_to_ascii idna host) = None \<longrightarrow> \<not> in_use ip)"
  using lookup_avoiding_binds [OF reachable_ok [OF assms(1)] assms(2,3) _ assms(5)] assms(4)
  by (auto simp: lookback_def usable_ip_def)

theorem fake_ip_roundtrip_witness:
  "fst (lookback (Ipv4 198 18 0 5)
     (snd (lookup_avoiding (\<lambda>h. None) ''Www.Example.com.'' (\<lambda>ip. ip = Ipv4 198 18 0 4) pool_new)))
   = Some ''www.example.com''"
proof -
  let ?l = "lookup_avoiding (\<lambda>h. None) ''Www.Example.com.'' (\<lambda>ip. ip = Ipv4 198 18 0 4) pool_new"
  have l: "?l = (Ipv4 198 18 0 5, snd ?l)"
    and d: "domain_to_ascii (\<lambda>h. None) ''Www.Example.com.'' = ''www.example.com''"
    by code_simp+
  show ?thesis
    using fake_ip_roundtrip [OF pool_reachable.start, of "{Ipv4 198 18 0 4}"
        "\<lambda>ip. ip = Ipv4 198 18 0 4", OF _ _ _ l] d
    by simp
qed

text \<open>
  eviction is least-recently-used. When the pool is full, binding a new name drops
  exactly the name at the back of the queue, and the new name enters at the front.
\<close>

theorem fake_pool_evicts_lru:
  assumes "pool_ok p" and "length (lru p) = POOL_MAX"
    and "hm_get (host_ip p) (domain_to_ascii idna host) = None"
    and "lookup_avoiding idna host (\<lambda>_. False) p = (ip, p')"
  shows "lru p' = domain_to_ascii idna host # butlast (lru p) \<and>
    dom (hm_get (host_ip p')) =
      insert (domain_to_ascii idna host) (dom (hm_get (host_ip p)) - {last (lru p)})"
proof -
  have ok': "pool_ok p'" using lookup_avoiding_ok [OF assms(1), of idna host "\<lambda>_. False"] assms(4) by simp
  have ne: "lru p \<noteq> []" using assms(2) by (auto simp: POOL_MAX_def)
  then have mr: "lru (make_room p) = butlast (lru p)"
    using assms(2) len_host_ip [OF assms(1)]
    by (auto simp: make_room_def evict_def Let_def split: option.splits)
  have bind: "hm_get (host_ip p') (domain_to_ascii idna host) = Some ip"
    using lookup_avoiding_binds [OF assms(1), of "{}", OF _ _ _ assms(4)] by simp
  from assms(1,4) have lru': "lru p' = domain_to_ascii idna host # butlast (lru p)"
  proof (cases rule: lookup_avoiding_cases)
    case (full n)
    then have "hm_get (host_ip p') (domain_to_ascii idna host) = None"
      using make_room_absent [OF assms(1,3)] by simp
    with bind show ?thesis by simp
  qed (use assms(3) mr in simp_all)
  have "dom (hm_get (host_ip p')) = set (lru p')" "dom (hm_get (host_ip p)) = set (lru p)"
    "distinct (lru p)"
    using ok' assms(1) by (auto simp: pool_ok_def)
  moreover have "set (butlast (lru p)) = set (lru p) - {last (lru p)}"
    using ne \<open>distinct (lru p)\<close> by (cases "lru p" rule: rev_cases) auto
  ultimately show ?thesis using lru' by simp
qed

text \<open>A full pool, filled by 8192 lookups of different names, for the witness.\<close>

definition fill_name :: "nat \<Rightarrow> rstr" where
  "fill_name n = replicate (Suc n) CHR ''a''"

fun fill :: "nat \<Rightarrow> fake_pool" where
  "fill 0 = pool_new"
| "fill (Suc n) = snd (lookup_avoiding (\<lambda>h. None) (fill_name n) (\<lambda>_. False) (fill n))"

lemma fill_name_normal: "domain_to_ascii (\<lambda>h. None) (fill_name n) = fill_name n"
proof (rule domain_to_ascii_normal)
  have ends: "hd (fill_name n) = CHR ''a''" "last (fill_name n) = CHR ''a''" "fill_name n \<noteq> []"
    by (auto simp: fill_name_def simp del: replicate_Suc)
  then have "trim (fill_name n) = fill_name n" "trim_dots (fill_name n) = fill_name n"
    by (simp_all add: trim_graphic trim_dots_graphic graphic_def code_of_def)
  then show "normal_name (fill_name n)"
    by (auto simp: normal_name_def fill_name_def is_ascii_def code_of_def lowercase_def
        lower_char_def is_upper_def)
qed

lemma fill_spec:
  "n \<le> POOL_MAX \<Longrightarrow> pool_ok (fill n) \<and> length (lru (fill n)) = n \<and> set (lru (fill n)) = fill_name ` {..<n}"
proof (induction n)
  case 0
  then show ?case by (simp add: pool_new_ok) (simp add: pool_new_def)
next
  case (Suc n)
  then have ok: "pool_ok (fill n)" and len: "length (lru (fill n)) = n"
    and set: "set (lru (fill n)) = fill_name ` {..<n}" by auto
  have "fill_name n \<notin> set (lru (fill n))" by (auto simp: set fill_name_def dest: replicate_eqI)
  then have new: "hm_get (host_ip (fill n)) (fill_name n) = None" using lru_iff [OF ok] by simp
  have room: "make_room (fill n) = fill n"
    using Suc.prems len_host_ip [OF ok] len by (simp add: make_room_def)
  obtain ip q where l: "lookup_avoiding (\<lambda>h. None) (fill_name n) (\<lambda>_. False) (fill n) = (ip, q)"
    by (cases "lookup_avoiding (\<lambda>h. None) (fill_name n) (\<lambda>_. False) (fill n)")
  have q: "fill (Suc n) = q" by (simp add: l)
  have bind: "hm_get (host_ip q) (fill_name n) = Some ip"
    using lookup_avoiding_binds [OF ok, of "{}", OF _ _ _ l] by (simp add: fill_name_normal)
  from ok l have "lru q = fill_name n # lru (fill n)"
  proof (cases rule: lookup_avoiding_cases)
    case (full nx)
    then show ?thesis using bind new room by simp
  qed (use new room in \<open>simp_all add: fill_name_normal\<close>)
  moreover have "pool_ok q"
    using lookup_avoiding_ok [OF ok, of "\<lambda>h. None" "fill_name n" "\<lambda>_. False"] l by simp
  ultimately show ?case by (simp only: q) (simp add: len set lessThan_Suc)
qed

theorem fake_pool_evicts_lru_witness:
  "lru (fill (Suc POOL_MAX)) = fill_name POOL_MAX # butlast (lru (fill POOL_MAX))"
proof -
  have f: "pool_ok (fill POOL_MAX)" "length (lru (fill POOL_MAX)) = POOL_MAX"
    "set (lru (fill POOL_MAX)) = fill_name ` {..<POOL_MAX}"
    using fill_spec [of POOL_MAX] by auto
  have "fill_name POOL_MAX \<notin> set (lru (fill POOL_MAX))"
    by (auto simp: f(3) fill_name_def dest: replicate_eqI)
  then have new: "hm_get (host_ip (fill POOL_MAX)) (domain_to_ascii (\<lambda>h. None) (fill_name POOL_MAX)) = None"
    using lru_iff [OF f(1)] by (simp add: fill_name_normal)
  obtain ip q where
    l: "lookup_avoiding (\<lambda>h. None) (fill_name POOL_MAX) (\<lambda>_. False) (fill POOL_MAX) = (ip, q)"
    by (cases "lookup_avoiding (\<lambda>h. None) (fill_name POOL_MAX) (\<lambda>_. False) (fill POOL_MAX)")
  show ?thesis using fake_pool_evicts_lru [OF f(1,2) new l] by (simp add: l fill_name_normal)
qed

end
