(* ===== verification/Utf8.thy ===== *)
theory Utf8
  imports RustStr
begin

text \<open>
  \<^verbatim>\<open>String::from_utf8_lossy\<close> and \<^verbatim>\<open>str::from_utf8\<close> of the standard library. The scanner
  classifies the bytes at the head of a buffer as one well-formed sequence or as one
  malformed prefix, with the length that is consumed; the lossy decoder replaces each
  malformed prefix by U+FFFD.
\<close>

definition cont_byte :: "u8 option \<Rightarrow> bool" where
  "cont_byte b = (case b of None \<Rightarrow> False | Some x \<Rightarrow> x AND 192 = 128)"

text \<open>\<^verbatim>\<open>safe_get\<close>: the byte at an index, if any.\<close>

definition at :: "bytes \<Rightarrow> nat \<Rightarrow> u8 option" where
  "at bs i = (if i < length bs then Some (bs ! i) else None)"

definition in_range :: "nat \<Rightarrow> nat \<Rightarrow> u8 option \<Rightarrow> bool" where
  "in_range lo hi b = (case b of None \<Rightarrow> False | Some x \<Rightarrow> lo \<le> unat x \<and> unat x \<le> hi)"

text \<open>The allowed second bytes of three- and four-byte sequences.\<close>

definition second3 :: "nat \<Rightarrow> u8 option \<Rightarrow> bool" where
  "second3 b0 b1 =
     (if b0 = 0xE0 then in_range 0xA0 0xBF b1
      else if b0 = 0xED then in_range 0x80 0x9F b1
      else in_range 0x80 0xBF b1)"

definition second4 :: "nat \<Rightarrow> u8 option \<Rightarrow> bool" where
  "second4 b0 b1 =
     (if b0 = 0xF0 then in_range 0x90 0xBF b1
      else if b0 = 0xF4 then in_range 0x80 0x8F b1
      else in_range 0x80 0xBF b1)"

definition utf8_scan :: "bytes \<Rightarrow> bool \<times> nat" where
  "utf8_scan bs =
     (let b0 = unat (hd bs) in
      if b0 < 128 then (True, 1)
      else if 0xC2 \<le> b0 \<and> b0 \<le> 0xDF then
        (if cont_byte (at bs 1) then (True, 2) else (False, 1))
      else if 0xE0 \<le> b0 \<and> b0 \<le> 0xEF then
        (if \<not> second3 b0 (at bs 1) then (False, 1)
         else if cont_byte (at bs 2) then (True, 3) else (False, 2))
      else if 0xF0 \<le> b0 \<and> b0 \<le> 0xF4 then
        (if \<not> second4 b0 (at bs 1) then (False, 1)
         else if \<not> cont_byte (at bs 2) then (False, 2)
         else if cont_byte (at bs 3) then (True, 4) else (False, 3))
      else (False, 1))"

lemma utf8_scan_pos: "0 < snd (utf8_scan bs)"
  by (simp add: utf8_scan_def Let_def)

lemma utf8_scan_shorter: "(ok, n) = utf8_scan (b # bs) \<Longrightarrow> length (drop n (b # bs)) < length (b # bs)"
  using utf8_scan_pos [of "b # bs"] by (cases "utf8_scan (b # bs)") auto

definition replacement :: rstr where
  "replacement = [char_of (0xEF :: nat), char_of (0xBF :: nat), char_of (0xBD :: nat)]"

function from_utf8_lossy :: "bytes \<Rightarrow> rstr" where
  "from_utf8_lossy [] = []"
| "from_utf8_lossy (b # bs) =
     (let (ok, n) = utf8_scan (b # bs) in
      (if ok then map chr_of (take n (b # bs)) else replacement)
      @ from_utf8_lossy (drop n (b # bs)))"
  by pat_completeness auto
termination
  by (relation "measure length") (auto dest: utf8_scan_shorter simp del: length_drop)

function from_utf8 :: "bytes \<Rightarrow> rstr option" where
  "from_utf8 [] = Some []"
| "from_utf8 (b # bs) =
     (let (ok, n) = utf8_scan (b # bs) in
      if ok then map_option (\<lambda>r. map chr_of (take n (b # bs)) @ r) (from_utf8 (drop n (b # bs)))
      else None)"
  by pat_completeness auto
termination
  by (relation "measure length") (auto dest: utf8_scan_shorter simp del: length_drop)

declare from_utf8_lossy.simps [simp del] from_utf8.simps [simp del]

lemma from_utf8_lossy_Nil [simp]: "from_utf8_lossy [] = []"
  by (simp add: from_utf8_lossy.simps)

text \<open>On well-formed input the two decoders agree and change no byte.\<close>

lemma from_utf8_exact: "from_utf8 bs = Some s \<Longrightarrow> from_utf8_lossy bs = s \<and> as_bytes s = bs"
proof (induction bs arbitrary: s rule: from_utf8.induct)
  case 1
  then show ?case by (simp add: from_utf8.simps as_bytes_def)
next
  case (2 b bs)
  obtain ok n where sc: "utf8_scan (b # bs) = (ok, n)" by (cases "utf8_scan (b # bs)")
  with "2.prems" obtain r where ok: "ok" and r: "from_utf8 (drop n (b # bs)) = Some r"
    and s: "s = map chr_of (take n (b # bs)) @ r"
    by (auto simp: from_utf8.simps split: if_splits)
  from "2.IH" [OF sc [symmetric] refl ok r]
  have ih: "from_utf8_lossy (drop n (b # bs)) = r" "as_bytes r = drop n (b # bs)" by auto
  have "as_bytes s = take n (b # bs) @ drop n (b # bs)"
    by (simp only: s as_bytes_def map_append map_map comp_def byte_of_chr_of map_ident
        ih(2) [unfolded as_bytes_def])
  then show ?case using ih(1) s ok sc by (simp add: from_utf8_lossy.simps)
qed

lemma utf8_scan_ascii: "unat b < 128 \<Longrightarrow> utf8_scan (b # bs) = (True, 1)"
  by (simp add: utf8_scan_def)

lemma from_utf8_ascii: "\<forall>c \<in> set s. is_ascii c \<Longrightarrow> from_utf8 (as_bytes s) = Some s"
proof (induction s)
  case (Cons c s)
  then have "unat (byte_of c) < 128" by (simp add: is_ascii_def code_of_def)
  with Cons show ?case
    by (simp add: as_bytes_def from_utf8.simps utf8_scan_ascii)
qed (simp add: as_bytes_def from_utf8.simps)

text \<open>ASCII text is read back unchanged.\<close>

lemma lossy_ascii [simp]: "\<forall>c \<in> set s. is_ascii c \<Longrightarrow> from_utf8_lossy (as_bytes s) = s"
  using from_utf8_exact [OF from_utf8_ascii] by blast

section \<open>Well-formed text\<close>

definition valid_utf8 :: "rstr \<Rightarrow> bool" where
  "valid_utf8 s \<longleftrightarrow> from_utf8 (as_bytes s) \<noteq> None"

lemma valid_utf8_decodes: "valid_utf8 s \<Longrightarrow> from_utf8 (as_bytes s) = Some s"
  using from_utf8_exact [of "as_bytes s"] by (metis map_chr_of_as_bytes option.exhaust valid_utf8_def)

lemma valid_utf8_ascii: "\<forall>c \<in> set s. is_ascii c \<Longrightarrow> valid_utf8 s"
  by (simp add: valid_utf8_def from_utf8_ascii)

lemma at_take: "n \<le> length bs \<Longrightarrow> i < n \<Longrightarrow> at (take n bs @ r) i = at bs i"
  by (simp add: at_def nth_append)

lemma cont_byte_at: "cont_byte (at bs i) \<Longrightarrow> i < length bs \<and> 128 \<le> unat (bs ! i)"
proof -
  assume c: "cont_byte (at bs i)"
  then have i: "i < length bs" "(bs ! i) AND 192 = 128" by (auto simp: cont_byte_def at_def split: if_splits)
  then have "128 \<le> bs ! i" by (metis word_and_le2)
  then show ?thesis using i by (simp add: word_le_nat_alt)
qed

lemma in_range_at: "in_range lo hi (at bs i) \<Longrightarrow> i < length bs \<and> lo \<le> unat (bs ! i)"
  by (auto simp: in_range_def at_def split: if_splits)

lemma second_at:
  "second3 b0 (at bs i) \<Longrightarrow> i < length bs \<and> 128 \<le> unat (bs ! i)"
  "second4 b0 (at bs i) \<Longrightarrow> i < length bs \<and> 128 \<le> unat (bs ! i)"
  using in_range_at [of _ _ bs i] by (fastforce simp: second3_def second4_def split: if_splits)+

text \<open>A well-formed head: it lies inside the text, does not depend on what follows, and is one ASCII
  byte or has no ASCII byte at all.\<close>

lemma scan_ok:
  assumes "utf8_scan bs = (True, n)" "bs \<noteq> []"
  shows "utf8_scan (take n bs @ r) = (True, n)" "n \<le> length bs"
    "n = 1 \<and> unat (hd bs) < 128 \<or> (\<forall>b \<in> set (take n bs). 128 \<le> unat b)"
proof -
  obtain b bs' where bs: "bs = b # bs'" using assms(2) by (cases bs) auto
  have n0: "0 < n" using utf8_scan_pos [of bs] assms(1) by simp
  then have hd: "hd (take n bs @ r) = b" using bs by (cases n) auto
  have b0: "bs ! 0 = b" using bs by simp
  consider "n = 1" "unat b < 128"
    | "n = 2" "0xC2 \<le> unat b" "unat b \<le> 0xDF" "cont_byte (at bs 1)"
    | "n = 3" "0xE0 \<le> unat b" "unat b \<le> 0xEF" "second3 (unat b) (at bs 1)" "cont_byte (at bs 2)"
    | "n = 4" "0xF0 \<le> unat b" "unat b \<le> 0xF4" "second4 (unat b) (at bs 1)" "cont_byte (at bs 2)" "cont_byte (at bs 3)"
    using assms(1) bs by (auto simp: utf8_scan_def Let_def split: if_splits)
  then have "n \<le> length bs \<and> utf8_scan (take n bs @ r) = (True, n)
    \<and> (n = 1 \<and> unat (hd bs) < 128 \<or> (\<forall>i < n. 128 \<le> unat (bs ! i)))"
  proof cases
    case 1
    then show ?thesis using bs hd by (simp add: utf8_scan_def)
  next
    case 2
    note c = cont_byte_at [OF 2(4)]
    have l: "n \<le> length bs" using 2 c by simp
    have "128 \<le> unat (bs ! i)" if "i < n" for i
      using that 2 c b0 by (cases "i = 0") (auto simp: numeral_eq_Suc less_Suc_eq)
    then show ?thesis using 2 l hd by (simp add: utf8_scan_def Let_def at_take)
  next
    case 3
    note c = cont_byte_at [OF 3(5)] second_at(1) [OF 3(4)]
    have l: "n \<le> length bs" using 3 c by simp
    have "128 \<le> unat (bs ! i)" if "i < n" for i
    proof -
      have "i = 0 \<or> i = 1 \<or> i = 2" using that 3(1) by arith
      then show ?thesis using 3 c b0 by (elim disjE) simp_all
    qed
    then show ?thesis using 3 l hd by (simp add: utf8_scan_def Let_def at_take)
  next
    case 4
    note c = cont_byte_at [OF 4(5)] cont_byte_at [OF 4(6)] second_at(2) [OF 4(4)]
    have l: "n \<le> length bs" using 4 c by simp
    have "128 \<le> unat (bs ! i)" if "i < n" for i
    proof -
      have "i = 0 \<or> i = 1 \<or> i = 2 \<or> i = 3" using that 4(1) by arith
      then show ?thesis using 4 c b0 by (elim disjE) simp_all
    qed
    then show ?thesis using 4 l hd by (simp add: utf8_scan_def Let_def at_take)
  qed
  then show "utf8_scan (take n bs @ r) = (True, n)" "n \<le> length bs"
    "n = 1 \<and> unat (hd bs) < 128 \<or> (\<forall>b \<in> set (take n bs). 128 \<le> unat b)"
    by (auto simp: in_set_conv_nth)
qed

text \<open>Text as a sequence of such heads: an induction rule.\<close>

lemma valid_utf8_induct [consumes 1, case_names Nil ascii wide]:
  assumes "valid_utf8 s" "P []"
    and "\<And>c s. is_ascii c \<Longrightarrow> valid_utf8 s \<Longrightarrow> P s \<Longrightarrow> P (c # s)"
    and "\<And>w s. w \<noteq> [] \<Longrightarrow> \<forall>c \<in> set w. \<not> is_ascii c \<Longrightarrow> (\<And>r. utf8_scan (as_bytes (w @ r)) = (True, length w)) \<Longrightarrow>
      valid_utf8 s \<Longrightarrow> P s \<Longrightarrow> P (w @ s)"
  shows "P s"
  using assms(1)
proof (induction s rule: measure_induct_rule [of length])
  case (less s)
  show ?case
  proof (cases s)
    case Nil
    then show ?thesis using assms(2) by simp
  next
    case (Cons c s')
    let ?bs = "as_bytes s"
    have ne: "?bs \<noteq> []" using Cons by (simp add: as_bytes_def)
    obtain ok n where sc: "utf8_scan ?bs = (ok, n)" by fastforce
    have bs: "?bs = byte_of c # as_bytes s'" using Cons by (simp add: as_bytes_def)
    have ok: "ok" "from_utf8 (drop n ?bs) \<noteq> None"
      using less.prems sc unfolding valid_utf8_def bs by (auto simp: from_utf8.simps split: if_splits)
    have sc: "utf8_scan ?bs = (True, n)" using sc ok by simp
    note k = scan_ok [OF sc ne]
    have n0: "0 < n" using utf8_scan_pos [of ?bs] sc by simp
    have dr: "drop n ?bs = as_bytes (drop n s)" by (simp add: as_bytes_def drop_map)
    then have v: "valid_utf8 (drop n s)" using ok(2) by (simp add: valid_utf8_def)
    have "length (drop n s) < length s" using n0 k(2) ne by (simp add: as_bytes_def)
    then have ih: "P (drop n s)" using less.IH v by blast
    show ?thesis
    proof (cases "n = 1 \<and> unat (hd ?bs) < 128")
      case True
      then have "is_ascii c" "drop n s = s'" using bs Cons by (auto simp: is_ascii_def code_of_def)
      then show ?thesis using assms(3) v ih Cons by simp
    next
      case False
      then have w: "\<forall>b \<in> set (take n ?bs). 128 \<le> unat b" using k(3) by blast
      have tk: "take n ?bs = as_bytes (take n s)" by (simp add: as_bytes_def take_map)
      have na: "\<forall>c \<in> set (take n s). \<not> is_ascii c"
        using w unfolding tk by (auto simp: as_bytes_def is_ascii_def code_of_def)
      have ln: "length (take n s) = n" using k(2) by simp
      have sw: "utf8_scan (as_bytes (take n s @ r)) = (True, length (take n s))" for r
        using k(1) [of "as_bytes r"] ln unfolding tk by (simp add: as_bytes_def)
      have "P (take n s @ drop n s)"
        by (rule assms(4) [OF _ na sw v ih]) (use n0 Cons in \<open>simp add: take_Cons'\<close>)
      then show ?thesis by simp
    qed
  qed
qed

lemma valid_utf8_wide: "(\<And>r. utf8_scan (as_bytes (w @ r)) = (True, length w)) \<Longrightarrow> w \<noteq> [] \<Longrightarrow> valid_utf8 s \<Longrightarrow> valid_utf8 (w @ s)"
proof -
  assume sc: "\<And>r. utf8_scan (as_bytes (w @ r)) = (True, length w)" and w: "w \<noteq> []" and v: "valid_utf8 s"
  obtain b bs where b: "as_bytes (w @ s) = b # bs" using w by (cases w) (auto simp: as_bytes_def)
  have "drop (length w) (as_bytes (w @ s)) = as_bytes s" by (simp add: as_bytes_def)
  then show ?thesis using sc [of s] v unfolding valid_utf8_def b by (simp add: from_utf8.simps)
qed

lemma valid_utf8_Cons: "is_ascii c \<Longrightarrow> valid_utf8 s \<Longrightarrow> valid_utf8 (c # s)"
  by (simp add: valid_utf8_def as_bytes_def from_utf8.simps utf8_scan_ascii is_ascii_def code_of_def)

lemma valid_utf8_Nil [simp]: "valid_utf8 []"
  by (simp add: valid_utf8_def as_bytes_def from_utf8.simps)

lemma valid_utf8_append: "valid_utf8 a \<Longrightarrow> valid_utf8 b \<Longrightarrow> valid_utf8 (a @ b)"
proof (induction a rule: valid_utf8_induct)
  case (wide w s)
  then show ?case using valid_utf8_wide [of w "s @ b"] by simp
qed (simp_all add: valid_utf8_Cons)

lemma valid_utf8_concat: "list_all valid_utf8 ls \<Longrightarrow> valid_utf8 (concat ls)"
  by (induction ls) (simp_all add: valid_utf8_append)

text \<open>Replacing an ASCII character by ASCII text keeps text well-formed.\<close>

lemma valid_utf8_replace:
  assumes "valid_utf8 s" "is_ascii x" "\<forall>c \<in> set r. is_ascii c"
  shows "valid_utf8 (replace_str [x] r s)"
  using assms(1)
proof (induction s rule: valid_utf8_induct)
  case (ascii c s)
  then show ?case using assms(3) by (auto simp: replace_str_one valid_utf8_Cons intro: valid_utf8_append valid_utf8_ascii)
next
  case (wide w s)
  have "x \<notin> set w" using wide(2) assms(2) by blast
  then have "concat (map (\<lambda>c. if c = x then r else [c]) w) = w" by (induction w) auto
  then show ?case using valid_utf8_wide [OF wide(3,1)] wide(5) by (simp add: replace_str_one)
qed (simp add: replace_str_one)

end
