(* ===== verification/DnsWire.thy ===== *)
theory DnsWire
  imports Utils Utf8 IpAddr
begin

text \<open>
  The DNS message code of \<^verbatim>\<open>crates/clash-core/src/dns.rs\<close>: name encoding and decoding with
  compression pointers, query and response builders, and the two parsers. Out-of-range reads,
  which the source turns into \<^verbatim>\<open>None\<close>, are \<open>None\<close> here; each read is guarded as in the source.
\<close>

section \<open>Names\<close>

definition join_dots :: "rstr list \<Rightarrow> rstr" where
  "join_dots ls = (case ls of [] \<Rightarrow> [] | x # xs \<Rightarrow> x @ concat (map (\<lambda>y. CHR ''.'' # y) xs))"

text \<open>\<^verbatim>\<open>msg[i]\<close> and \<^verbatim>\<open>&msg[a..b]\<close> panic outside the message.\<close>

datatype dns_panic = Out_of_range

definition byte_get :: "bytes \<Rightarrow> nat \<Rightarrow> dns_panic + u8" where
  "byte_get msg i = (if i < length msg then Inr (msg ! i) else Inl Out_of_range)"

definition slice_get :: "nat \<Rightarrow> nat \<Rightarrow> bytes \<Rightarrow> dns_panic + bytes" where
  "slice_get a b msg = (if a \<le> b \<and> b \<le> length msg then Inr (slice a b msg) else Inl Out_of_range)"

lemma byte_get_in [simp]: "i < length msg \<Longrightarrow> byte_get msg i = Inr (msg ! i)"
  by (simp add: byte_get_def)

lemma slice_get_in [simp]: "a \<le> b \<Longrightarrow> b \<le> length msg \<Longrightarrow> slice_get a b msg = Inr (slice a b msg)"
  by (simp add: slice_get_def)

text \<open>
  The loop of \<^verbatim>\<open>read_dns_name\<close>: at most 64 rounds; \<open>e\<close> is the offset to resume from, fixed by
  the first pointer that is followed. The result is the name and the offset after it.
\<close>

fun read_name_loop :: "nat \<Rightarrow> bytes \<Rightarrow> nat \<Rightarrow> nat \<Rightarrow> bool \<Rightarrow> rstr list \<Rightarrow> dns_panic + (rstr \<times> nat) option" where
  "read_name_loop 0 msg off e jumped labels = Inr None"
| "read_name_loop (Suc n) msg off e jumped labels =
     (if length msg \<le> off then Inr None
      else
        bind_result (byte_get msg off) (\<lambda>len.
         if len = 0 then
           (let off = off + 1; e = (if jumped then e else off) in Inr (Some (join_dots labels, e)))
         else if len AND 0xC0 = 0xC0 then
           (if length msg \<le> off + 1 then Inr None
            else
              bind_result (byte_get msg (off + 1)) (\<lambda>low.
               let ptr = unat (len AND 0x3F) * 256 + unat low; e = (if jumped then e else off + 2)
               in read_name_loop n msg ptr e True labels))
         else
           (let off = off + 1 in
            if length msg < off + unat len then Inr None
            else
              bind_result (slice_get off (off + unat len) msg) (\<lambda>l.
               read_name_loop n msg (off + unat len) e jumped (labels @ [from_utf8_lossy l])))))"

definition read_dns_name :: "bytes \<Rightarrow> nat \<Rightarrow> dns_panic + (rstr \<times> nat) option" where
  "read_dns_name msg off = read_name_loop 64 msg off off False []"

text \<open>\<^verbatim>\<open>read_dns_name(..)?\<close> in the parsers below; that the call never panics is shown with its bounds.\<close>

definition name_at :: "bytes \<Rightarrow> nat \<Rightarrow> (rstr \<times> nat) option" where
  "name_at msg off = (case read_dns_name msg off of Inr r \<Rightarrow> r | Inl _ \<Rightarrow> None)"

text \<open>\<^verbatim>\<open>b.len() as u8\<close> keeps the low eight bits.\<close>

definition encode_label :: "rstr \<Rightarrow> bytes" where
  "encode_label l = word_of_nat (length l) # as_bytes l"

definition dns_labels :: "idna_fn \<Rightarrow> rstr \<Rightarrow> rstr list" where
  "dns_labels idna name = filter (\<lambda>s. s \<noteq> []) (split_char CHR ''.'' (domain_to_ascii idna name))"

definition encode_dns_name :: "idna_fn \<Rightarrow> rstr \<Rightarrow> bytes" where
  "encode_dns_name idna name = concat (map encode_label (dns_labels idna name)) @ [0]"

section \<open>Builders\<close>

definition build_dns_query :: "idna_fn \<Rightarrow> u16 \<Rightarrow> rstr \<Rightarrow> bytes" where
  "build_dns_query idna qid qname =
     put_all 0 [to_be16 qid, to_be16 0x0100, to_be16 1] (replicate 12 0)
     @ encode_dns_name idna qname @ to_be16 1 @ to_be16 1"

definition build_named_a_response :: "idna_fn \<Rightarrow> u16 \<Rightarrow> rstr \<Rightarrow> ipv4 \<Rightarrow> bytes" where
  "build_named_a_response idna qid qname ip =
     (let name = encode_dns_name idna qname;
          buf = replicate (12 + length name + 4 + 16) 0;
          buf = put_all 0 [to_be16 qid, to_be16 0x8580, to_be16 1, to_be16 1] buf;
          buf = put_all 12 [name, to_be16 1, to_be16 1, to_be16 0xC00C, to_be16 1, to_be16 1,
                  to_be32 300, to_be16 4, octets ip] buf
      in take (12 + length name + 16 + 4) buf)"

definition build_empty_dns :: "idna_fn \<Rightarrow> u16 \<Rightarrow> rstr \<Rightarrow> u16 \<Rightarrow> bytes" where
  "build_empty_dns idna qid qname qtype =
     (let name = encode_dns_name idna qname;
          buf = replicate (12 + length name + 4) 0;
          buf = put_all 0 [to_be16 qid, to_be16 0x8180, to_be16 1] buf
      in put_all 12 [name, to_be16 qtype, to_be16 1] buf)"

text \<open>The end of the question's labels, \<^verbatim>\<open>while i < len && query[i] != 0\<close>.\<close>

function skip_labels :: "bytes \<Rightarrow> nat \<Rightarrow> nat" where
  "skip_labels query i =
     (if i < length query \<and> query ! i \<noteq> 0 then skip_labels query (i + 1 + unat (query ! i)) else i)"
  by pat_completeness auto
termination
  by (relation "measure (\<lambda>(q, i). length q - i)") auto

declare skip_labels.simps [simp del]

definition build_a_response :: "bytes \<Rightarrow> ipv4 \<Rightarrow> bytes option" where
  "build_a_response query ip =
     (if length query < 12 then None
      else
        (let out = (take 12 query)[2 := 0x81, 3 := 0x80, 6 := 0, 7 := 1];
             i = skip_labels query 12 + 5
         in if length query < i then None
            else Some (out @ slice 12 i query
              @ [0xC0, 0x0C, 0x00, 0x01, 0x00, 0x01, 0x00, 0x00, 0x00, 0x3C, 0x00, 0x04]
              @ octets ip)))"

section \<open>Parsers\<close>

definition parse_dns_query :: "bytes \<Rightarrow> (u16 \<times> rstr \<times> u16) option" where
  "parse_dns_query payload =
     (if length payload < 12 then None
      else
        (let qid = from_be16 (payload ! 0) (payload ! 1);
             flags = from_be16 (payload ! 2) (payload ! 3);
             qd = from_be16 (payload ! 4) (payload ! 5)
         in if flags AND 0x8000 \<noteq> 0 then None
            else if qd < 1 then None
            else
              (case name_at payload 12 of
                 None \<Rightarrow> None
               | Some (qname, off) \<Rightarrow>
                   if length payload < off + 4 \<or> qname = [] then None
                   else
                     (let qtype = from_be16 (payload ! off) (payload ! (off + 1));
                          qclass = from_be16 (payload ! (off + 2)) (payload ! (off + 3))
                      in if qclass = 1 then Some (qid, qname, qtype) else None))))"

fun skip_questions :: "nat \<Rightarrow> bytes \<Rightarrow> nat \<Rightarrow> nat option" where
  "skip_questions 0 msg off = Some off"
| "skip_questions (Suc n) msg off =
     (case name_at msg off of
        None \<Rightarrow> None
      | Some (_, off) \<Rightarrow>
          (let off = off + 4 in if length msg < off then None else skip_questions n msg off))"

fun read_answers :: "nat \<Rightarrow> bytes \<Rightarrow> nat \<Rightarrow> ip_addr list \<Rightarrow> ip_addr list option" where
  "read_answers 0 msg off ips = Some ips"
| "read_answers (Suc n) msg off ips =
     (case name_at msg off of
        None \<Rightarrow> None
      | Some (_, off) \<Rightarrow>
          if length msg < off + 10 then None
          else
            (let ty = from_be16 (msg ! off) (msg ! (off + 1));
                 rdlen = unat (from_be16 (msg ! (off + 8)) (msg ! (off + 9)));
                 off = off + 10
             in if length msg < off + rdlen then None
                else
                  read_answers n msg (off + rdlen)
                    (if ty = 1 \<and> rdlen = 4
                     then ips @ [V4 (Ipv4 (msg ! off) (msg ! (off + 1)) (msg ! (off + 2)) (msg ! (off + 3)))]
                     else ips)))"

definition parse_a_answers :: "bytes \<Rightarrow> ip_addr list option" where
  "parse_a_answers msg =
     (if length msg < 12 then None
      else
        (let flags = from_be16 (msg ! 2) (msg ! 3);
             qd = unat (from_be16 (msg ! 4) (msg ! 5));
             an = unat (from_be16 (msg ! 6) (msg ! 7))
         in if flags AND 0x8000 = 0 then None
            else
              (case skip_questions qd msg 12 of
                 None \<Rightarrow> None
               | Some off \<Rightarrow> read_answers an msg off [])))"

section \<open>Bounds of the name reader\<close>

lemma read_name_loop_bounds:
  assumes "jumped \<Longrightarrow> s < e \<and> e \<le> length msg" "\<not> jumped \<Longrightarrow> s \<le> off"
  shows "\<exists>r. read_name_loop n msg off e jumped labels = Inr r \<and> (\<forall>name off'. r = Some (name, off') \<longrightarrow> s < off' \<and> off' \<le> length msg)"
  using assms
proof (induction n arbitrary: off e jumped labels)
  case (Suc n)
  consider "length msg \<le> off" | "off < length msg" "msg ! off = 0"
    | "off < length msg" "msg ! off \<noteq> 0" "msg ! off AND 0xC0 = 0xC0"
    | "off < length msg" "msg ! off \<noteq> 0" "msg ! off AND 0xC0 \<noteq> 0xC0" by linarith
  then show ?case
  proof cases
    case 3
    have "\<exists>r. read_name_loop n msg ptr (if jumped then e else off + 2) True labels = Inr r
        \<and> (\<forall>name off'. r = Some (name, off') \<longrightarrow> s < off' \<and> off' \<le> length msg)" if "off + 1 < length msg" for ptr
      by (rule Suc.IH) (use Suc.prems that in auto)
    then show ?thesis using 3 by (simp add: Let_def)
  next
    case 4
    let ?off = "off + 1 + unat (msg ! off)"
    have "\<exists>r. read_name_loop n msg ?off e jumped ls = Inr r
        \<and> (\<forall>name off'. r = Some (name, off') \<longrightarrow> s < off' \<and> off' \<le> length msg)" for ls
      by (rule Suc.IH) (use Suc.prems in auto)
    then show ?thesis using 4 by (simp add: Let_def)
  qed (use Suc.prems in \<open>auto simp: Let_def\<close>)
qed simp

lemma name_at_bounds: "name_at msg off = Some (name, off') \<Longrightarrow> off < off' \<and> off' \<le> length msg"
  using read_name_loop_bounds [of False off off msg off 64 "[]"] by (auto simp: name_at_def read_dns_name_def)

section \<open>Reading back an encoded name\<close>

definition label_ok :: "rstr \<Rightarrow> bool" where
  "label_ok l \<longleftrightarrow> l \<noteq> [] \<and> length l < 64 \<and> (\<forall>c \<in> set l. is_ascii c)"

lemma small_no_pointer: "n < 64 \<Longrightarrow> (word_of_nat n :: u8) AND 0xC0 = 0"
proof -
  have "list_all (\<lambda>n. (word_of_nat n :: u8) AND 0xC0 = 0) [0..<64]" by code_simp
  then show "n < 64 \<Longrightarrow> ?thesis" by (simp add: list_all_iff)
qed

lemma label_len:
  assumes "label_ok l"
  shows "(word_of_nat (length l) :: u8) \<noteq> 0" "unat (word_of_nat (length l) :: u8) = length l"
    "(word_of_nat (length l) :: u8) AND 0xC0 \<noteq> 0xC0"
proof -
  show u: "unat (word_of_nat (length l) :: u8) = length l"
    using assms by (simp add: unat_of_nat_u8 label_ok_def)
  show "(word_of_nat (length l) :: u8) \<noteq> 0" using u assms by (auto simp: label_ok_def)
  show "(word_of_nat (length l) :: u8) AND 0xC0 \<noteq> 0xC0"
    using small_no_pointer [of "length l"] assms by (simp add: label_ok_def)
qed

lemma read_labels:
  assumes "\<forall>l \<in> set ls. label_ok l" and "length ls < n"
    and "msg = pre @ concat (map encode_label ls) @ 0 # post"
  shows "read_name_loop n msg (length pre) e jumped acc =
    Inr (Some (join_dots (acc @ ls),
      if jumped then e else length pre + length (concat (map encode_label ls)) + 1))"
  using assms
proof (induction ls arbitrary: n pre acc)
  case Nil
  then obtain m where "n = Suc m" by (cases n) auto
  with Nil show ?case by (simp add: nth_append)
next
  case (Cons l ls)
  then obtain m where n: "n = Suc m" and m: "length ls < m" by (cases n) auto
  define pre' where "pre' = pre @ encode_label l"
  have l: "label_ok l" using Cons.prems(1) by simp
  have msg: "msg = pre' @ concat (map encode_label ls) @ 0 # post"
    using Cons.prems(3) by (simp add: pre'_def)
  have at: "msg ! length pre = word_of_nat (length l)" "length pre + 1 + length l \<le> length msg"
    "slice (length pre + 1) (length pre + 1 + length l) msg = as_bytes l"
    by (simp_all add: Cons.prems(3) encode_label_def nth_append slice_def)
  have lossy: "from_utf8_lossy (as_bytes l) = l" using l by (simp add: label_ok_def)
  have pl: "length pre' = length pre + 1 + length l" by (simp add: pre'_def encode_label_def)
  have "read_name_loop m msg (length pre') e jumped (acc @ [l]) =
      Inr (Some (join_dots ((acc @ [l]) @ ls),
        if jumped then e else length pre' + length (concat (map encode_label ls)) + 1))"
    by (rule Cons.IH) (use Cons.prems(1) m msg in auto)
  then show ?case
    using at label_len [OF l] lossy pl by (simp add: n Let_def encode_label_def add.assoc)
qed

section \<open>Responses and queries read back\<close>

lemma put_header_body:
  assumes "length (concat hs) \<le> 12" and "m = 12 + length (concat cs)"
  shows "put_all 12 cs (put_all 0 hs (replicate m x)) =
    concat hs @ replicate (12 - length (concat hs)) x @ concat cs"
proof -
  have h: "put_all 0 hs (replicate m x) = concat hs @ replicate (m - length (concat hs)) x"
    using assms by (subst put_all_eq) simp_all
  show ?thesis unfolding h using assms
    by (subst put_all_eq) (simp_all add: min_def)
qed

lemma header_query:
  "put_all 0 [to_be16 qid, to_be16 0x0100, to_be16 1] (replicate 12 0) =
     to_be16 qid @ [1, 0, 0, 1] @ replicate 6 (0 :: u8)"
  by (subst put_all_eq) (simp_all add: to_be16_def hi8_def lo8_def)

lemma named_response_bytes:
  "build_named_a_response idna qid qname ip =
     to_be16 qid @ [0x85, 0x80, 0, 1, 0, 1, 0, 0, 0, 0] @ encode_dns_name idna qname
     @ [0, 1, 0, 1] @ [0xC0, 0x0C] @ [0, 1, 0, 1, 0, 0, 1, 0x2C, 0, 4] @ octets ip"
  unfolding build_named_a_response_def Let_def
  by (subst put_header_body)
    (simp_all add: to_be16_def to_be32_def hi8_def lo8_def, simp_all add: numeral_eq_Suc)

lemma empty_response_bytes:
  "build_empty_dns idna qid qname qtype =
     to_be16 qid @ [0x81, 0x80, 0, 1, 0, 0, 0, 0, 0, 0] @ encode_dns_name idna qname
     @ to_be16 qtype @ [0, 1]"
  unfolding build_empty_dns_def Let_def
  by (subst put_header_body)
    (simp_all add: to_be16_def hi8_def lo8_def, simp_all add: numeral_eq_Suc)

definition dns_name_ok :: "idna_fn \<Rightarrow> rstr \<Rightarrow> bool" where
  "dns_name_ok idna qname \<longleftrightarrow>
     dns_labels idna qname \<noteq> [] \<and> length (dns_labels idna qname) \<le> 62
     \<and> (\<forall>l \<in> set (dns_labels idna qname). label_ok l)"

lemma join_dots_ne: "ls \<noteq> [] \<Longrightarrow> \<forall>l \<in> set ls. label_ok l \<Longrightarrow> join_dots ls \<noteq> []"
  by (cases ls) (auto simp: join_dots_def label_ok_def)

text \<open>A name encoded right after a twelve-byte header is read back, whatever follows it.\<close>

lemma read_question_name:
  assumes "dns_name_ok idna qname" and "length hdr = 12"
  shows "name_at (hdr @ encode_dns_name idna qname @ post) 12 =
    Some (join_dots (dns_labels idna qname), 12 + length (encode_dns_name idna qname))"
  using assms read_labels [of "dns_labels idna qname" 64 "hdr @ encode_dns_name idna qname @ post"
      hdr post 12 False "[]"]
  by (auto simp: dns_name_ok_def name_at_def read_dns_name_def encode_dns_name_def)

text \<open>A compression pointer to offset 12 leads to the same name.\<close>

lemma read_pointer_name:
  assumes "dns_name_ok idna qname" and "length hdr = 12"
    and "msg = hdr @ encode_dns_name idna qname @ mid @ [0xC0, 0x0C] @ post"
    and "off = 12 + length (encode_dns_name idna qname) + length mid"
  shows "name_at msg off = Some (join_dots (dns_labels idna qname), off + 2)"
proof -
  have at: "msg ! off = 0xC0" "msg ! (off + 1) = 0x0C" "off + 1 < length msg"
    using assms by (simp_all add: nth_append)
  have "read_name_loop 63 msg (length hdr) (off + 2) True [] =
      Inr (Some (join_dots ([] @ dns_labels idna qname), if True then off + 2 else
        length hdr + length (concat (map encode_label (dns_labels idna qname))) + 1))"
    by (rule read_labels) (use assms in \<open>auto simp: dns_name_ok_def encode_dns_name_def\<close>)
  moreover have "read_name_loop 64 msg off off False [] = read_name_loop 63 msg 12 (off + 2) True []"
  proof -
    have n: "(64 :: nat) = Suc 63" by simp
    show ?thesis unfolding n read_name_loop.simps Let_def using at by (simp add: byte_get_def)
  qed
  ultimately show ?thesis using assms(2) by (simp add: name_at_def read_dns_name_def)
qed

text \<open>
  C36: the name reader never leaves the message and always makes progress: whatever the message and the
  offset, every byte and every slice it takes lies inside the message, so it returns without a panic; when
  it finds a name, the offset it leaves behind is past the offset it started at and not past the end, also
  when compression pointers were followed (to anywhere, including forwards and in cycles).
\<close>

theorem read_dns_name_progress:
  "\<exists>r. read_dns_name msg off = Inr r \<and> (\<forall>name off'. r = Some (name, off') \<longrightarrow> off < off' \<and> off' \<le> length msg)"
  unfolding read_dns_name_def by (rule read_name_loop_bounds) simp_all

theorem read_dns_name_progress_witness:
  "read_dns_name [3, 97, 98, 99, 0, 0xC0, 0] 5 = Inr (Some (''abc'', 7)) \<and> (5 :: nat) < 7"
proof -
  have "read_dns_name [3, 97, 98, 99, 0, 0xC0, 0] 5 = Inr (Some (''abc'', 7))" by code_simp
  with read_dns_name_progress [of "[3, 97, 98, 99, 0, 0xC0, 0]" 5] show ?thesis by simp
qed

lemma parse_built_query:
  assumes "dns_name_ok idna qname"
  shows "parse_dns_query (build_dns_query idna qid qname) =
    Some (qid, join_dots (dns_labels idna qname), 1)"
proof -
  define hdr where "hdr = to_be16 qid @ [1, 0, 0, 1] @ replicate 6 (0 :: u8)"
  let ?name = "encode_dns_name idna qname"
  let ?msg = "hdr @ ?name @ [0, 1, 0, 1]"
  have msg: "build_dns_query idna qid qname = ?msg"
    unfolding build_dns_query_def header_query hdr_def by (simp add: to_be16_def hi8_def lo8_def)
  have hl: "length hdr = 12" by (simp add: hdr_def)
  have rd: "name_at ?msg 12 = Some (join_dots (dns_labels idna qname), 12 + length ?name)"
    using read_question_name [OF assms hl] .
  have hdr_at: "?msg ! 0 = hi8 qid" "?msg ! 1 = lo8 qid" "?msg ! 2 = 1" "?msg ! 3 = 0"
    "?msg ! 4 = 0" "?msg ! 5 = 1"
    by (simp_all add: hdr_def to_be16_def)
  have tail_at: "?msg ! (12 + length ?name) = 0" "?msg ! (12 + length ?name + 1) = 1"
    "?msg ! (12 + length ?name + 2) = 0" "?msg ! (12 + length ?name + 3) = 1"
    using hl by (simp_all add: nth_append)
  have words: "from_be16 1 0 AND 0x8000 = 0" "\<not> from_be16 0 1 < 1" "from_be16 0 1 = (1 :: u16)"
    by code_simp+
  have len: "\<not> length ?msg < 12" "\<not> length ?msg < 12 + length ?name + 4" using hl by simp_all
  have "join_dots (dns_labels idna qname) \<noteq> []"
    using assms by (simp add: dns_name_ok_def join_dots_ne)
  then show ?thesis
    unfolding msg parse_dns_query_def rd Let_def hdr_at tail_at option.case prod.case
    using words len by simp
qed

text \<open>
  A query built by \<^verbatim>\<open>build_dns_query\<close> is understood by \<^verbatim>\<open>parse_dns_query\<close>: identifier,
  normalised name and type A come back.
\<close>

theorem dns_query_roundtrip:
  assumes "dns_name_ok idna qname"
  shows "parse_dns_query (build_dns_query idna qid qname) =
    Some (qid, join_dots (dns_labels idna qname), 1)"
  using assms by (rule parse_built_query)

theorem dns_query_roundtrip_witness:
  "parse_dns_query (build_dns_query (\<lambda>h. None) 7 ''Example.COM'') = Some (7, ''example.com'', 1)"
proof -
  have "dns_name_ok (\<lambda>h. None) ''Example.COM''"
    "join_dots (dns_labels (\<lambda>h. None) ''Example.COM'') = ''example.com''" by code_simp+
  with dns_query_roundtrip [of "\<lambda>h. None" "''Example.COM''" 7] show ?thesis by simp
qed

lemma parse_built_response:
  assumes "dns_name_ok idna qname"
  shows "parse_a_answers (build_named_a_response idna qid qname ip) = Some [V4 ip]"
proof -
  define hdr :: bytes where "hdr = to_be16 qid @ [0x85, 0x80, 0, 1, 0, 1, 0, 0, 0, 0]"
  let ?name = "encode_dns_name idna qname"
  let ?post = "[0, 1, 0, 1, 0, 0, 1, 0x2C, 0, 4] @ octets ip"
  define msg where "msg = hdr @ ?name @ [0, 1, 0, 1] @ [0xC0, 0x0C] @ ?post"
  define off where "off = 12 + length ?name + 4"
  have msg: "build_named_a_response idna qid qname ip = msg"
    by (simp add: named_response_bytes msg_def hdr_def)
  have hl: "length hdr = 12" by (simp add: hdr_def)
  have q: "name_at msg 12 = Some (join_dots (dns_labels idna qname), 12 + length ?name)"
    unfolding msg_def by (rule read_question_name [OF assms hl])
  have a: "name_at msg off = Some (join_dots (dns_labels idna qname), off + 2)"
    by (rule read_pointer_name [OF assms hl, of _ "[0, 1, 0, 1]" ?post])
      (simp_all add: msg_def off_def)
  have hdr_at: "msg ! 2 = 0x85" "msg ! 3 = 0x80" "msg ! 4 = 0" "msg ! 5 = 1" "msg ! 6 = 0" "msg ! 7 = 1"
    by (simp_all add: msg_def hdr_def to_be16_def)
  have at: "msg ! (off + 2 + k) = ?post ! k" if "k < 14" for k
    using that hl by (simp add: msg_def off_def nth_append)
  have len: "length msg = off + 16" using hl by (simp add: msg_def off_def)
  have words: "from_be16 0x85 0x80 AND 0x8000 \<noteq> 0" "unat (from_be16 0 1) = 1"
    "from_be16 0 1 = (1 :: u16)" "unat (from_be16 0 4) = 4"
    by code_simp+
  have "skip_questions 1 msg 12 = Some off" using q len by (simp add: off_def)
  moreover have "read_answers 1 msg off [] = Some [V4 ip]"
    using a len words at [of 0] at [of 1] at [of 8] at [of 9] at [of 10] at [of 11] at [of 12] at [of 13]
    by (simp add: Let_def octets_def add.assoc)
  ultimately show ?thesis unfolding msg parse_a_answers_def Let_def hdr_at using words len by simp
qed

text \<open>
  the answer that the tunnel sends for an A query, \<^verbatim>\<open>build_named_a_response\<close>, is read by
  \<^verbatim>\<open>parse_a_answers\<close> as exactly the one address it carries; the answer's name is a
  compression pointer to the question.
\<close>

theorem dns_response_roundtrip:
  assumes "dns_name_ok idna qname"
  shows "parse_a_answers (build_named_a_response idna qid qname ip) = Some [V4 ip]"
  using assms by (rule parse_built_response)

theorem dns_response_roundtrip_witness:
  "parse_a_answers (build_named_a_response (\<lambda>h. None) 42 ''example.com'' (Ipv4 1 2 3 4)) =
     Some [V4 (Ipv4 1 2 3 4)]"
proof -
  have "dns_name_ok (\<lambda>h. None) ''example.com''" by code_simp
  with dns_response_roundtrip show ?thesis by blast
qed

end
