(* ===== verification/Rules.thy ===== *)
theory Rules
  imports Utils Utf8 IpAddr
begin

text \<open>
  \<^verbatim>\<open>crates/clash-core/src/rules.rs\<close>: the routing rule database (binary format, longest-suffix
  domain match with its cache, address classes) and the \<^verbatim>\<open>host:port\<close> helpers.
\<close>

section \<open>Actions\<close>

datatype rule_action = Reject | Direct | Proxy

definition action_from_u8 :: "u8 \<Rightarrow> rule_action option" where
  "action_from_u8 v =
     (if v = 1 then Some Reject else if v = 2 then Some Direct
      else if v = 3 then Some Proxy else None)"

definition FLAG_SUFFIX :: u8 where "FLAG_SUFFIX = 0x80"
definition SEP :: char where "SEP = char_of (1 :: nat)"

section \<open>Domain match\<close>

type_synonym records = "(rstr, u8) hmap"

text \<open>The labels of a domain: \<^verbatim>\<open>split('.').filter(|p| !p.is_empty())\<close>.\<close>

definition labels_of :: "rstr \<Rightarrow> rstr list" where
  "labels_of domain = filter (\<lambda>p. p \<noteq> []) (split_char CHR ''.'' domain)"

text \<open>
  The loop over the labels from the right. \<open>ls\<close> are the labels still to read (the last label
  of the domain first), \<open>sb\<close> the key built so far, \<open>acc\<close> the number of labels in it, \<open>n\<close> the
  number of labels of the domain, \<open>best\<close> the match so far.
\<close>

fun match_loop ::
  "records \<Rightarrow> nat \<Rightarrow> rstr list \<Rightarrow> rstr \<Rightarrow> nat \<Rightarrow> rule_action option \<Rightarrow> rule_action option" where
  "match_loop recs n [] sb acc best = best"
| "match_loop recs n (l # ls) sb acc best =
     (let sb' = (if sb \<noteq> [] then sb @ [SEP] else sb) @ l;
          acc' = acc + 1;
          best' = (case hm_get recs sb' of
                     None \<Rightarrow> best
                   | Some packed \<Rightarrow>
                       if packed AND FLAG_SUFFIX \<noteq> 0 \<or> acc' = n
                       then action_from_u8 (packed AND 0x7F) else best)
      in match_loop recs n ls sb' acc' best')"

definition match_domain_uncached :: "records \<Rightarrow> rstr \<Rightarrow> rule_action" where
  "match_domain_uncached recs domain =
     (let labels = labels_of domain in
      if labels = [] then Proxy
      else unwrap_or Proxy (match_loop recs (length labels) (rev labels) [] 0 None))"

section \<open>Addresses\<close>

definition action_for_ip :: "ip_addr \<Rightarrow> rule_action" where
  "action_for_ip ip =
     (case ip of
        V4 v4 \<Rightarrow>
          if v4_loopback v4 \<or> v4_private v4 \<or> (oct0 v4 = 169 \<and> oct1 v4 = 254)
             \<or> (oct0 v4 = 100 \<and> 64 \<le> oct1 v4 \<and> oct1 v4 \<le> 127) \<or> v4 = Ipv4 0 0 0 0
          then Direct else Proxy
      | V6 v6 \<Rightarrow>
          if v6_loopback v6 \<or> v6_link_local v6 \<or> v6_multicast v6
             \<or> (hd (octets6 v6) AND 0xfe) = 0xfc
          then Direct else Proxy)"

section \<open>Host and port\<close>

definition try_split_host_port :: "rstr \<Rightarrow> (rstr \<times> rstr) option" where
  "try_split_host_port authority =
     (if starts_with ''['' authority
         \<or> length (filter (\<lambda>c. c = CHR '':'') authority) = 1 then
        (if starts_with ''['' authority then
           (case find_char CHR '']'' authority of
              None \<Rightarrow> None
            | Some e \<Rightarrow>
                if e + 1 < length authority \<and> authority ! (e + 1) = CHR '':'' then
                  (let host = slice 1 e authority; port = drop (e + 2) authority in
                   if port \<noteq> [] then Some (host, port) else None)
                else None)
         else
           (case rfind_char CHR '':'' authority of
              None \<Rightarrow> None
            | Some idx \<Rightarrow>
                if 0 < idx then
                  (let host = take idx authority; port = drop (idx + 1) authority in
                   if port \<noteq> [] then Some (host, port) else None)
                else None))
      else None)"

definition join_host_port :: "rstr \<Rightarrow> rstr \<Rightarrow> rstr" where
  "join_host_port host port =
     (if CHR '':'' \<in> set host \<and> \<not> starts_with ''['' host
      then ''['' @ host @ '']:'' @ port
      else host @ '':'' @ port)"

definition with_port :: "rstr \<Rightarrow> rstr \<Rightarrow> rstr option" where
  "with_port authority default_port =
     (let authority = trim authority in
      if authority = [] then None
      else
        (case try_split_host_port authority of
           Some (h, p) \<Rightarrow> Some (join_host_port h p)
         | None \<Rightarrow>
             (let host = trim_chars brackets authority in
              if host = [] then None else Some (join_host_port host default_port))))"

section \<open>The database\<close>

record rule_db =
  records :: records
  cache :: "rule_action ttl_lru"

type_synonym cache_order = "(rstr, rule_action ttl_entry) hmap \<Rightarrow> rstr list"

definition match_domain ::
  "idna_fn \<Rightarrow> cache_order \<Rightarrow> nat \<Rightarrow> nat \<Rightarrow> rstr \<Rightarrow> rule_db \<Rightarrow> rule_action \<times> rule_db" where
  "match_domain idna order now now2 domain db =
     (let domain = domain_to_ascii idna domain in
      if domain = [] then (Proxy, db)
      else
        (case parse_ip domain of
           Some ip \<Rightarrow> (action_for_ip ip, db)
         | None \<Rightarrow>
             (case ttl_get now domain (cache db) of
                (Some a, c) \<Rightarrow> (a, db\<lparr>cache := c\<rparr>)
              | (None, c) \<Rightarrow>
                  (let a = match_domain_uncached (records db) domain in
                   (a, db\<lparr>cache := ttl_set order now now2 domain a None c\<rparr>)))))"

definition decide_route ::
  "idna_fn \<Rightarrow> cache_order \<Rightarrow> nat \<Rightarrow> nat \<Rightarrow> rstr \<Rightarrow> rule_db \<Rightarrow> rule_action \<times> rule_db" where
  "decide_route idna order now now2 host_port db =
     (let host = (case try_split_host_port host_port of Some (h, _) \<Rightarrow> h | None \<Rightarrow> host_port);
          host = trim_chars brackets (trim host)
      in (case parse_ip host of
            Some ip \<Rightarrow> (action_for_ip ip, db)
          | None \<Rightarrow> match_domain idna order now now2 host db))"

datatype rules_error = BadMagic | Truncated | TruncatedKey | SelfCheck rstr rule_action rule_action

text \<open>
  \<^verbatim>\<open>load_bytes\<close>: the magic \<^verbatim>\<open>CFWR\<close>, version 1, a little-endian count, then for each record a
  little-endian key length, the key and the packed action byte.
\<close>

fun read_records :: "bytes \<Rightarrow> nat \<Rightarrow> nat \<Rightarrow> records \<Rightarrow> rules_error + records" where
  "read_records raw 0 off recs = Inr recs"
| "read_records raw (Suc n) off recs =
     (if length raw < off + 2 then Inl Truncated
      else
        (let key_len = unat (from_le16 (raw ! off) (raw ! (off + 1))); off = off + 2 in
         if length raw < off + key_len + 1 then Inl TruncatedKey
         else
           (let key = from_utf8_lossy (slice off (off + key_len) raw); off = off + key_len in
            read_records raw n (off + 1) (hm_insert key (raw ! off) recs))))"

definition check_host :: "records \<Rightarrow> rstr \<Rightarrow> rule_action \<Rightarrow> rules_error + unit" where
  "check_host recs host want =
     (let got = match_domain_uncached recs host in
      if got \<noteq> want then Inl (SelfCheck host got want) else Inr ())"

definition self_check :: "records \<Rightarrow> rules_error + unit" where
  "self_check recs =
     bind_result (check_host recs ''www.baidu.com'' Direct) (\<lambda>_.
     bind_result (check_host recs ''www.google.com'' Proxy) (\<lambda>_.
     bind_result (check_host recs ''www.gstatic.com'' Proxy) (\<lambda>_.
     check_host recs ''fonts.gstatic.com'' Proxy)))"

definition load_bytes :: "bytes \<Rightarrow> rules_error + rule_db" where
  "load_bytes raw =
     (if length raw < 9 \<or> take 4 raw \<noteq> as_bytes ''CFWR'' \<or> raw ! 4 \<noteq> 1 then Inl BadMagic
      else
        bind_result
          (read_records raw (unat (from_le32 (raw ! 5) (raw ! 6) (raw ! 7) (raw ! 8))) 9 [])
          (\<lambda>recs. bind_result (self_check recs) (\<lambda>_.
             Inr \<lparr>records = recs, cache = ttl_new 4096\<rparr>)))"

section \<open>Longest-suffix specification\<close>

text \<open>
  The rule for the last \<open>k\<close> labels of a domain: it applies when it is a suffix rule or when the
  \<open>k\<close> labels are the whole domain. The specification takes the applicable rule with the most
  labels; an unknown action byte counts as \<^verbatim>\<open>Proxy\<close>.
\<close>

definition sep_join :: "rstr list \<Rightarrow> rstr" where
  "sep_join ls = (case ls of [] \<Rightarrow> [] | x # xs \<Rightarrow> x @ concat (map (\<lambda>y. SEP # y) xs))"

definition rule_at :: "records \<Rightarrow> rstr list \<Rightarrow> nat \<Rightarrow> rule_action option option" where
  "rule_at recs labels k =
     (case hm_get recs (sep_join (take k (rev labels))) of
        None \<Rightarrow> None
      | Some p \<Rightarrow> if p AND FLAG_SUFFIX \<noteq> 0 \<or> k = length labels
                 then Some (action_from_u8 (p AND 0x7F)) else None)"

definition longest_match :: "records \<Rightarrow> rstr \<Rightarrow> rule_action" where
  "longest_match recs domain =
     (let labels = labels_of domain in
      case find (\<lambda>k. rule_at recs labels k \<noteq> None) (rev [1..<Suc (length labels)]) of
        None \<Rightarrow> Proxy
      | Some k \<Rightarrow> unwrap_or Proxy (the (rule_at recs labels k)))"

definition pick :: "('k \<Rightarrow> 'a option) \<Rightarrow> 'k \<Rightarrow> 'a \<Rightarrow> 'a" where
  "pick c k best = unwrap_or best (c k)"

lemma fold_pick:
  "fold (pick c) ks b = (case find (\<lambda>k. c k \<noteq> None) (rev ks) of None \<Rightarrow> b | Some k \<Rightarrow> the (c k))"
  by (induction ks rule: rev_induct) (auto simp: pick_def split: option.splits)

lemma sep_join_snoc:
  assumes "\<forall>d \<in> set ds. d \<noteq> []"
  shows "sep_join (ds @ [l]) = (if sep_join ds \<noteq> [] then sep_join ds @ [SEP] else sep_join ds) @ l"
  using assms by (cases ds) (auto simp: sep_join_def)

lemma match_loop_fold:
  assumes "\<forall>d \<in> set (ds @ ls). d \<noteq> []" and "rev labels = ds @ ls"
  shows "match_loop recs (length labels) ls (sep_join ds) (length ds) best =
    fold (pick (rule_at recs labels)) [Suc (length ds)..<Suc (length labels)] best"
  using assms
proof (induction ls arbitrary: ds best)
  case Nil
  then have "length labels = length ds" by (metis append_Nil2 length_rev)
  then show ?case by simp
next
  case (Cons l ls)
  have len: "length labels = length ds + Suc (length ls)"
    using Cons.prems(2) by (metis length_append length_rev length_Cons)
  have key: "sep_join (ds @ [l]) = (if sep_join ds \<noteq> [] then sep_join ds @ [SEP] else sep_join ds) @ l"
    using Cons.prems(1) by (simp add: sep_join_snoc)
  have tk: "take (Suc (length ds)) (rev labels) = ds @ [l]" using Cons.prems(2) by simp
  have "match_loop recs (length labels) ls (sep_join (ds @ [l])) (length (ds @ [l])) b =
      fold (pick (rule_at recs labels)) [Suc (length (ds @ [l]))..<Suc (length labels)] b" for b
    by (rule Cons.IH) (use Cons.prems in auto)
  moreover have "[Suc (length ds)..<Suc (length labels)] =
      Suc (length ds) # [Suc (Suc (length ds))..<Suc (length labels)]"
    using len by (simp add: upt_conv_Cons del: upt_Suc)
  moreover have "pick (rule_at recs labels) (Suc (length ds)) best =
      (case hm_get recs (sep_join (ds @ [l])) of
         None \<Rightarrow> best
       | Some packed \<Rightarrow> if packed AND FLAG_SUFFIX \<noteq> 0 \<or> length ds + 1 = length labels
                        then action_from_u8 (packed AND 0x7F) else best)"
    by (simp add: pick_def rule_at_def tk split: option.splits)
  ultimately show ?case
    unfolding match_loop.simps Let_def key [symmetric] by (simp del: upt_Suc)
qed

lemma labels_of_ne: "l \<in> set (labels_of d) \<Longrightarrow> l \<noteq> []"
  by (simp add: labels_of_def)

lemma uncached_longest:
  "match_domain_uncached recs domain = longest_match recs domain"
proof (cases "labels_of domain = []")
  case True
  then show ?thesis by (simp add: match_domain_uncached_def longest_match_def Let_def)
next
  case False
  let ?ls = "labels_of domain"
  have "match_loop recs (length ?ls) (rev ?ls) (sep_join []) (length ([] :: rstr list)) None =
      fold (pick (rule_at recs ?ls)) [Suc (length ([] :: rstr list))..<Suc (length ?ls)] None"
    by (rule match_loop_fold) (auto dest: labels_of_ne)
  then have "match_loop recs (length ?ls) (rev ?ls) [] 0 None =
      fold (pick (rule_at recs ?ls)) [1..<Suc (length ?ls)] None"
    by (simp add: sep_join_def del: upt_Suc)
  then show ?thesis using False
    by (simp add: match_domain_uncached_def longest_match_def Let_def fold_pick del: upt_Suc
        split: option.splits)
qed

text \<open>
  C1: the label loop of \<^verbatim>\<open>match_domain_uncached\<close> implements the longest-suffix specification:
  among the rules whose key is a suffix of the domain, exact rules apply to the whole domain
  only, and the applicable rule with the most labels decides.
\<close>

theorem match_domain_uncached_longest:
  "match_domain_uncached recs domain = longest_match recs domain"
  by (rule uncached_longest)

section \<open>The cache is transparent\<close>

definition db_coherent :: "rule_db \<Rightarrow> bool" where
  "db_coherent db \<longleftrightarrow> ttl.coherent (match_domain_uncached (records db)) (cache db)"

definition route_spec :: "idna_fn \<Rightarrow> records \<Rightarrow> rstr \<Rightarrow> rule_action" where
  "route_spec idna recs domain =
     (let d = domain_to_ascii idna domain in
      if d = [] then Proxy
      else case parse_ip d of Some ip \<Rightarrow> action_for_ip ip | None \<Rightarrow> longest_match recs d)"

lemma match_domain_memo:
  "domain_to_ascii idna domain = d \<Longrightarrow> d \<noteq> [] \<Longrightarrow> parse_ip d = None \<Longrightarrow>
   match_domain idna order now now2 domain db =
     (let (a, c) = ttl.memo order (match_domain_uncached (records db)) now now2 d (cache db)
      in (a, db\<lparr>cache := c\<rparr>))"
  by (auto simp: match_domain_def ttl.memo_def ttl_set_default_def Let_def
      split: prod.splits option.splits)

lemma match_domain_value:
  assumes "db_coherent db"
  shows "fst (match_domain idna order now now2 domain db) = route_spec idna (records db) domain"
proof -
  define d where "d = domain_to_ascii idna domain"
  consider "d = []" | ip where "d \<noteq> []" "parse_ip d = Some ip" | "d \<noteq> []" "parse_ip d = None" by auto
  then show ?thesis
  proof cases
    case 3
    then show ?thesis
      using assms ttl.memo_value [of "match_domain_uncached (records db)" "cache db"]
        uncached_longest [of "records db" d]
      by (simp add: match_domain_memo d_def [symmetric] route_spec_def db_coherent_def Let_def
          case_prod_beta)
  qed (simp_all add: match_domain_def route_spec_def d_def)
qed

lemma match_domain_keeps:
  assumes "db_coherent db" and "match_domain idna order now now2 domain db = (a, db')"
  shows "db_coherent db' \<and> records db' = records db"
proof -
  define d where "d = domain_to_ascii idna domain"
  show ?thesis
  proof (cases "d \<noteq> [] \<and> parse_ip d = None")
    case True
    then show ?thesis
      using assms ttl.memo_coherent [of "match_domain_uncached (records db)" "cache db" order now now2 d]
      by (auto simp: match_domain_memo d_def [symmetric] db_coherent_def case_prod_beta Let_def)
  next
    case False
    then show ?thesis using assms
      by (auto simp: match_domain_def d_def [symmetric] Let_def split: option.splits if_splits)
  qed
qed

definition host_part :: "rstr \<Rightarrow> rstr" where
  "host_part hp =
     trim_chars brackets (trim (case try_split_host_port hp of Some (h, _) \<Rightarrow> h | None \<Rightarrow> hp))"

definition decide_spec :: "idna_fn \<Rightarrow> records \<Rightarrow> rstr \<Rightarrow> rule_action" where
  "decide_spec idna recs hp =
     (case parse_ip (host_part hp) of
        Some ip \<Rightarrow> action_for_ip ip
      | None \<Rightarrow> route_spec idna recs (host_part hp))"

lemma decide_route_unfold:
  "decide_route idna order now now2 hp db =
     (case parse_ip (host_part hp) of
        Some ip \<Rightarrow> (action_for_ip ip, db)
      | None \<Rightarrow> match_domain idna order now now2 (host_part hp) db)"
  unfolding decide_route_def host_part_def Let_def ..

lemma decide_route_correct:
  assumes "db_coherent db" and "decide_route idna order now now2 hp db = (a, db')"
  shows "a = decide_spec idna (records db) hp \<and> db_coherent db' \<and> records db' = records db"
proof (cases "parse_ip (host_part hp)")
  case None
  with assms(2) have m: "match_domain idna order now now2 (host_part hp) db = (a, db')"
    by (simp add: decide_route_unfold)
  then have "a = route_spec idna (records db) (host_part hp)"
    using match_domain_value [OF assms(1), of idna order now now2 "host_part hp"] by simp
  with None match_domain_keeps [OF assms(1) m] show ?thesis by (simp add: decide_spec_def)
next
  case (Some ip)
  with assms show ?thesis by (simp add: decide_route_unfold decide_spec_def)
qed

text \<open>A sequence of routing decisions, each at its own clock readings.\<close>

fun decide_all ::
  "idna_fn \<Rightarrow> cache_order \<Rightarrow> (nat \<times> nat \<times> rstr) list \<Rightarrow> rule_db \<Rightarrow> rule_action list \<times> rule_db" where
  "decide_all idna order [] db = ([], db)"
| "decide_all idna order ((t, t2, hp) # qs) db =
     (let (a, db) = decide_route idna order t t2 hp db;
          (as, db) = decide_all idna order qs db
      in (a # as, db))"

lemma decide_all_correct:
  "db_coherent db \<Longrightarrow>
   fst (decide_all idna order qs db) = map (\<lambda>(t, t2, hp). decide_spec idna (records db) hp) qs"
proof (induction idna order qs db rule: decide_all.induct)
  case (2 idna order t t2 hp qs db)
  obtain a db' where d: "decide_route idna order t t2 hp db = (a, db')"
    by (cases "decide_route idna order t t2 hp db")
  from decide_route_correct [OF "2.prems" d]
  have "a = decide_spec idna (records db) hp" "db_coherent db'" "records db' = records db" by auto
  with "2.IH" d show ?case by (simp add: case_prod_beta)
qed simp

lemma load_bytes_coherent: "load_bytes raw = Inr db \<Longrightarrow> db_coherent db"
  by (auto simp: load_bytes_def bind_result_Inr_iff db_coherent_def ttl.coherent_def ttl_new_def
      ttl_valid_def ttl_entries_def split: if_splits)

text \<open>
  C2: routing is independent of the cache. Whatever sequence of queries a freshly loaded
  database answers, at whatever times and with whatever evictions, the answers are those of
  the cache-free longest-suffix specification on the loaded records.
\<close>

theorem decide_route_cache_transparent:
  assumes "load_bytes raw = Inr db"
  shows "fst (decide_all idna order qs db) =
    map (\<lambda>(t, t2, hp). decide_spec idna (records db) hp) qs"
  using decide_all_correct [OF load_bytes_coherent [OF assms]] .

section \<open>Host and port round trip\<close>

lemma try_split_brackets:
  assumes "CHR '']'' \<notin> set h" and "p \<noteq> []"
  shows "try_split_host_port (''['' @ h @ '']:'' @ p) = Some (h, p)"
proof -
  have f: "find_char CHR '']'' (''['' @ h @ '']:'' @ p) = Some (Suc (length h))"
    using find_char_append [of "CHR '']''" "CHR ''['' # h" "CHR '':'' # p"] assms(1) by simp
  have "(''['' @ h @ '']:'' @ p) ! (Suc (length h) + 1) = CHR '':''" by (simp add: nth_append)
  with f assms(2) show ?thesis
    by (simp add: try_split_host_port_def starts_with_def slice_def nth_append)
qed

lemma filter_eq_none: "x \<notin> set xs \<Longrightarrow> filter (\<lambda>c. c = x) xs = []"
  by (induction xs) auto

lemma try_split_plain:
  assumes "CHR '':'' \<notin> set h" and "CHR '':'' \<notin> set p" and "h \<noteq> []" and "p \<noteq> []"
    and "hd h \<noteq> CHR ''[''"
  shows "try_split_host_port (h @ '':'' @ p) = Some (h, p)"
proof -
  have "\<not> starts_with ''['' (h @ '':'' @ p)"
    using assms(3,5) by (cases h) (auto simp: starts_with_def)
  moreover have "length (filter (\<lambda>c. c = CHR '':'') (h @ '':'' @ p)) = 1"
    using assms(1,2) by (simp add: filter_eq_none)
  ultimately show ?thesis
    using assms rfind_char_append [of "CHR '':''" p h] by (simp add: try_split_host_port_def)
qed

text \<open>
  \<^verbatim>\<open>try_split_host_port\<close> undoes \<^verbatim>\<open>join_host_port\<close>, for IPv6 literals (which are
  bracketed) as well as for names and IPv4 addresses.
\<close>

theorem split_join_host_port:
  assumes "h \<noteq> []" and "CHR ''['' \<notin> set h" and "CHR '']'' \<notin> set h"
    and "p \<noteq> []" and "CHR '':'' \<notin> set p"
  shows "try_split_host_port (join_host_port h p) = Some (h, p)"
proof -
  have "hd h \<noteq> CHR ''[''" using assms(1,2) by (cases h) auto
  moreover have "\<not> starts_with ''['' h" using assms(1,2) by (cases h) (auto simp: starts_with_def)
  ultimately show ?thesis
    using assms try_split_plain try_split_brackets by (auto simp: join_host_port_def)
qed

theorem split_join_host_port_witness:
  "join_host_port ''::1'' ''443'' = ''[::1]:443'' \<and>
   try_split_host_port (join_host_port ''::1'' ''443'') = Some (''::1'', ''443'')"
  using split_join_host_port [of "''::1''" "''443''"]
  by (simp add: join_host_port_def starts_with_def)

section \<open>Binary format\<close>

text \<open>The writer of the format, as the specification the reader is measured against.\<close>

definition to_le32 :: "nat \<Rightarrow> bytes" where
  "to_le32 n = [word_of_nat n, word_of_nat (n div 256), word_of_nat (n div 65536),
                word_of_nat (n div 16777216)]"

definition encode_record :: "rstr \<times> u8 \<Rightarrow> bytes" where
  "encode_record kv =
     [word_of_nat (length (fst kv)), word_of_nat (length (fst kv) div 256)]
     @ as_bytes (fst kv) @ [snd kv]"

definition encode_rules :: "(rstr \<times> u8) list \<Rightarrow> bytes" where
  "encode_rules rs =
     as_bytes ''CFWR'' @ [1] @ to_le32 (length rs) @ concat (map encode_record rs)"

definition record_ok :: "rstr \<times> u8 \<Rightarrow> bool" where
  "record_ok kv \<longleftrightarrow> length (fst kv) < 65536 \<and> from_utf8 (as_bytes (fst kv)) \<noteq> None"

definition insert_all :: "(rstr \<times> u8) list \<Rightarrow> records \<Rightarrow> records" where
  "insert_all rs recs = fold (\<lambda>(k, v) m. hm_insert k v m) rs recs"

lemma lossy_valid: "from_utf8 (as_bytes s) \<noteq> None \<Longrightarrow> from_utf8_lossy (as_bytes s) = s"
  using from_utf8_exact [of "as_bytes s"] by (metis map_chr_of_as_bytes not_None_eq)

lemma le16_length: "n < 65536 \<Longrightarrow> unat (from_le16 (word_of_nat n) (word_of_nat (n div 256))) = n"
  unfolding from_le16_def unat_from_be16 unat_of_nat_u8 by simp

lemma le32_length:
  assumes "n < 4294967296"
  shows "unat (from_le32 (word_of_nat n) (word_of_nat (n div 256)) (word_of_nat (n div 65536))
    (word_of_nat (n div 16777216))) = n"
proof -
  define q1 q2 q3 where "q1 = n div 256" and "q2 = q1 div 256" and "q3 = q2 div 256"
  have d: "n div 65536 = q2" "n div 16777216 = q3"
    by (simp_all add: q1_def q2_def q3_def div_mult2_eq [symmetric])
  have "q3 < 256" using assms by (simp add: q1_def q2_def q3_def div_mult2_eq [symmetric])
  then have "n mod 256 + 256 * (q1 mod 256) + 65536 * (q2 mod 256) + 16777216 * (q3 mod 256) = n"
    using div_mult_mod_eq [of n 256] div_mult_mod_eq [of q1 256] div_mult_mod_eq [of q2 256]
      mod_less [of q3 256]
    by (simp only: q1_def [symmetric] q2_def [symmetric] q3_def [symmetric])
  then have "n mod 256 + 256 * (n div 256 mod 256) + 65536 * (n div 65536 mod 256)
      + 16777216 * (n div 16777216 mod 256) = n"
    by (simp only: d q1_def)
  with assms show ?thesis unfolding from_le32_def unat_of_nat_u32 unat_of_nat_u8 by simp
qed

lemma read_records_encode:
  assumes "\<forall>kv \<in> set rs. record_ok kv"
  shows "read_records (pre @ concat (map encode_record rs) @ post) (length rs) (length pre) recs =
    Inr (insert_all rs recs)"
  using assms
proof (induction rs arbitrary: pre recs)
  case Nil
  then show ?case by (simp add: insert_all_def)
next
  case (Cons kv rs)
  obtain k v where kv: "kv = (k, v)" by (cases kv)
  define l0 l1 :: u8 where "l0 = word_of_nat (length k)" and "l1 = word_of_nat (length k div 256)"
  define rest where "rest = concat (map encode_record rs) @ post"
  let ?raw = "pre @ ([l0, l1] @ as_bytes k @ [v]) @ rest"
  have ok: "record_ok (k, v)" using Cons.prems kv by simp
  then have kl: "unat (from_le16 l0 l1) = length k"
    by (simp add: record_ok_def l0_def l1_def le16_length)
  have raw: "pre @ concat (map encode_record (kv # rs)) @ post = ?raw"
    by (simp add: kv encode_record_def rest_def l0_def l1_def)
  have ix: "?raw ! length pre = l0" "?raw ! (length pre + 1) = l1"
    "?raw ! (length pre + 2 + length k) = v"
    "slice (length pre + 2) (length pre + 2 + length k) ?raw = as_bytes k"
    by (simp_all add: nth_append slice_def)
  have "read_records ((pre @ encode_record kv) @ concat (map encode_record rs) @ post) (length rs)
      (length (pre @ encode_record kv)) (hm_insert k v recs) = Inr (insert_all rs (hm_insert k v recs))"
    by (rule Cons.IH) (use Cons.prems in simp)
  then have "read_records ?raw (length rs) (length pre + 2 + length k + 1) (hm_insert k v recs) =
      Inr (insert_all (kv # rs) recs)"
    by (simp add: kv encode_record_def rest_def l0_def l1_def insert_all_def)
  then show ?case unfolding raw using kl ix ok
    by (simp add: Let_def lossy_valid record_ok_def)
qed

lemma load_encode:
  assumes "\<forall>kv \<in> set rs. record_ok kv" and "length rs < 4294967296"
    and "self_check (insert_all rs []) = Inr ()"
  shows "load_bytes (encode_rules rs) = Inr \<lparr>records = insert_all rs [], cache = ttl_new 4096\<rparr>"
proof -
  define pre where "pre = as_bytes ''CFWR'' @ [1] @ to_le32 (length rs)"
  have pl: "length pre = 9" by (simp add: pre_def to_le32_def)
  have e: "encode_rules rs = pre @ concat (map encode_record rs) @ []"
    by (simp add: encode_rules_def pre_def)
  have "take 4 (encode_rules rs) = as_bytes ''CFWR''" "encode_rules rs ! 4 = 1"
    "encode_rules rs ! 5 = word_of_nat (length rs)"
    "encode_rules rs ! 6 = word_of_nat (length rs div 256)"
    "encode_rules rs ! 7 = word_of_nat (length rs div 65536)"
    "encode_rules rs ! 8 = word_of_nat (length rs div 16777216)"
    "9 \<le> length (encode_rules rs)"
    by (simp_all add: encode_rules_def as_bytes_def to_le32_def)
  moreover have "read_records (encode_rules rs) (length rs) 9 [] = Inr (insert_all rs [])"
    unfolding e using read_records_encode [OF assms(1), of pre "[]" "[]"] pl by simp
  ultimately show ?thesis using assms(2,3) by (simp add: load_bytes_def le32_length)
qed

text \<open>
  \<^verbatim>\<open>load_bytes\<close> reads back every database that the format can express: any list of
  well-formed records (valid UTF-8 keys shorter than 64 KiB) that passes the built-in self
  check is loaded as exactly that map, later records overriding earlier ones, with an empty
  cache.
\<close>

theorem load_bytes_roundtrip:
  assumes "\<forall>kv \<in> set rs. record_ok kv" and "length rs < 4294967296"
    and "self_check (insert_all rs []) = Inr ()"
  shows "load_bytes (encode_rules rs) = Inr \<lparr>records = insert_all rs [], cache = ttl_new 4096\<rparr>"
  using assms by (rule load_encode)

definition example_rules :: "(rstr \<times> u8) list" where
  "example_rules = [(''com'' @ [SEP] @ ''baidu'', 0x82), (''com'' @ [SEP] @ ''ads'', 0x81)]"

lemma example_rules_ok:
  "\<forall>kv \<in> set example_rules. record_ok kv" "length example_rules < 4294967296"
  "self_check (insert_all example_rules []) = Inr ()"
  by (code_simp, simp add: example_rules_def, code_simp)

theorem load_bytes_roundtrip_witness:
  "load_bytes (encode_rules example_rules) =
     Inr \<lparr>records = insert_all example_rules [], cache = ttl_new 4096\<rparr>"
  using load_bytes_roundtrip [OF example_rules_ok] .

definition example_queries :: "(nat \<times> nat \<times> rstr) list" where
  "example_queries =
     [(0, 0, ''x.ads.com:443''), (1, 1, ''x.ads.com:80''), (2, 2, ''www.baidu.com:80''),
      (3, 3, ''10.0.0.1:80''), (4, 4, ''ads.org:80'')]"

theorem decide_route_cache_transparent_witness:
  "fst (decide_all (\<lambda>h. None) (map fst) example_queries
      \<lparr>records = insert_all example_rules [], cache = ttl_new 4096\<rparr>) =
   [Reject, Reject, Direct, Direct, Proxy]"
proof -
  have "fst (decide_all (\<lambda>h. None) (map fst) example_queries
      \<lparr>records = insert_all example_rules [], cache = ttl_new 4096\<rparr>) =
    map (\<lambda>(t, t2, hp). decide_spec (\<lambda>h. None)
      (records \<lparr>records = insert_all example_rules [], cache = ttl_new 4096\<rparr>) hp) example_queries"
    by (rule decide_route_cache_transparent [OF load_encode [OF example_rules_ok]])
  also have "\<dots> = [Reject, Reject, Direct, Direct, Proxy]"
    by code_simp
  finally show ?thesis .
qed

text \<open>Truncated input is rejected, never read past its end.\<close>

lemma read_records_truncated:
  "length raw < off + 2 \<Longrightarrow> read_records raw (Suc n) off recs = Inl Truncated"
  by simp

end
