(* ===== verification/Stack.thy ===== *)
theory Stack
  imports Packet TcpNat FakeIp DnsWire Rules
begin

text \<open>
  \<^verbatim>\<open>crates/clash-tun/src/stack.rs\<close>: the user-space side of the tunnel device. Packets read from
  the device are rewritten so that captured TCP flows arrive at the program's own listener and
  its replies go back to the flow; DNS queries are answered with fake addresses; an accepted
  connection is mapped back to the name behind the fake address and routed by the rules.

  The state is explicit: \<open>packet_ctx\<close> for the packet loop (shared with the acceptor through
  locks), \<open>lifecycle\<close> for the generation counter and the cancellation tokens. Sockets are not
  modelled: a dial is returned as the target it is for, resolution of names is an argument.
\<close>

definition TUN_SERVER :: ipv4 where "TUN_SERVER = Ipv4 172 19 0 1"
definition TUN_CLIENT :: ipv4 where "TUN_CLIENT = Ipv4 172 19 0 2"

section \<open>Packets\<close>

record packet_ctx =
  ctx_nat :: tcp_nat
  ctx_fake_ip :: fake_pool
  ctx_listen_port :: u16

definition is_tun_prefix :: "ipv4 \<Rightarrow> bool" where
  "is_tun_prefix ip \<longleftrightarrow> oct0 ip = 172 \<and> oct1 ip = 19 \<and> oct2 ip = 0 \<and> oct3 ip \<le> 3"

definition is_global_unicast :: "ipv4 \<Rightarrow> bool" where
  "is_global_unicast ip =
     (if oct0 ip = 0 \<or> oct0 ip = 127 then False
      else if oct0 ip = 169 \<and> oct1 ip = 254 then False
      else if 224 \<le> oct0 ip then False
      else True)"

text \<open>The answer to one query, with the fake address it may assign: common to both transports.\<close>

definition dns_answer :: "idna_fn \<Rightarrow> u16 \<Rightarrow> rstr \<Rightarrow> u16 \<Rightarrow> packet_ctx \<Rightarrow> bytes \<times> packet_ctx" where
  "dns_answer idna qid qname qtype ctx =
     (if qtype = 1 then
        (case lookup_avoiding idna qname (\<lambda>ip. has_destination ip (ctx_nat ctx)) (ctx_fake_ip ctx) of
           (fake, pool) \<Rightarrow>
             (build_named_a_response idna qid qname fake, ctx\<lparr>ctx_fake_ip := pool\<rparr>))
      else (build_empty_dns idna qid qname qtype, ctx))"

definition dns_packet :: "ipv4 \<Rightarrow> ipv4 \<Rightarrow> u16 \<Rightarrow> bytes \<Rightarrow> bytes" where
  "dns_packet src dst src_port answer =
     (let out = replicate (20 + UDP_HDR + length answer) 0;
          out = out[0 := 0x45, 8 := 64, 9 := PROTO_UDP];
          out = set_addresses 20 dst src out;
          out = set_total_length (word_of_nat (20 + UDP_HDR + length answer)) out
      in take 20 out @ write_udp 53 src_port answer dst src (drop 20 out))"

definition handle_dns ::
  "idna_fn \<Rightarrow> ipv4 \<Rightarrow> ipv4 \<Rightarrow> u16 \<Rightarrow> bytes \<Rightarrow> packet_ctx \<Rightarrow> bytes option \<times> packet_ctx" where
  "handle_dns idna src dst src_port payload ctx =
     (case parse_dns_query payload of
        None \<Rightarrow> (None, ctx)
      | Some (qid, qname, qtype) \<Rightarrow>
          (case dns_answer idna qid qname qtype ctx of
             (answer, ctx) \<Rightarrow> (Some (dns_packet src dst src_port answer), ctx)))"

text \<open>The rewriting shared by both directions: addresses, ports, checksum; what is sent is
  \<^verbatim>\<open>&packet[..total]\<close>.\<close>

definition readdress ::
  "nat \<Rightarrow> nat \<Rightarrow> ipv4 \<Rightarrow> u16 \<Rightarrow> ipv4 \<Rightarrow> u16 \<Rightarrow> bytes \<Rightarrow> bytes" where
  "readdress ip_hdr tot src sport dst dport packet =
     (let packet = set_addresses ip_hdr src dst packet;
          packet = take ip_hdr packet @ set_tcp_ports sport dport (slice ip_hdr tot packet) @ drop tot packet;
          packet = update_tcp_checksum ip_hdr src dst packet
      in take tot packet)"

text \<open>The three parts of \<^verbatim>\<open>process_packet\<close>: UDP, the listener's replies, captured flows.\<close>

definition process_udp ::
  "idna_fn \<Rightarrow> ipv4 \<Rightarrow> ipv4 \<Rightarrow> bytes \<Rightarrow> packet_ctx \<Rightarrow> bytes option \<times> packet_ctx" where
  "process_udp idna src dst udp ctx =
     (case parse_udp udp of
        None \<Rightarrow> (None, ctx)
      | Some (src_port, dst_port, payload_len) \<Rightarrow>
          if dst_port = 53 then
            handle_dns idna src dst src_port (slice UDP_HDR (UDP_HDR + payload_len) udp) ctx
          else (None, ctx))"

definition process_reply ::
  "nat \<Rightarrow> nat \<Rightarrow> nat \<Rightarrow> u16 \<Rightarrow> bytes \<Rightarrow> packet_ctx \<Rightarrow> bytes option \<times> packet_ctx" where
  "process_reply now ip_hdr tot tcp_dst packet ctx =
     (case lookup_back now tcp_dst (ctx_nat ctx) of
        (None, n) \<Rightarrow> (None, ctx\<lparr>ctx_nat := n\<rparr>)
      | (Some (sess_src, sess_dst), n) \<Rightarrow>
          (Some (readdress ip_hdr tot (fst sess_dst) (snd sess_dst) (fst sess_src) (snd sess_src) packet),
           ctx\<lparr>ctx_nat := n\<rparr>))"

definition process_flow ::
  "nat \<Rightarrow> nat \<Rightarrow> nat \<Rightarrow> sockaddr_v4 \<Rightarrow> sockaddr_v4 \<Rightarrow> bytes \<Rightarrow> packet_ctx
   \<Rightarrow> bytes option \<times> packet_ctx" where
  "process_flow now ip_hdr tot src dest packet ctx =
     (case nat_lookup now src dest (ctx_nat ctx) of
        (None, n) \<Rightarrow> (None, ctx\<lparr>ctx_nat := n\<rparr>)
      | (Some nport, n) \<Rightarrow>
          (Some (readdress ip_hdr tot TUN_CLIENT nport TUN_SERVER (ctx_listen_port ctx) packet),
           ctx\<lparr>ctx_nat := n\<rparr>))"

definition process_packet ::
  "idna_fn \<Rightarrow> nat \<Rightarrow> bytes \<Rightarrow> packet_ctx \<Rightarrow> bytes option \<times> packet_ctx" where
  "process_packet idna now packet ctx =
     (case parse_ipv4 packet of
        None \<Rightarrow> (None, ctx)
      | Some (ip_hdr, proto, src, dst, tot) \<Rightarrow>
          if proto = PROTO_UDP then process_udp idna src dst (slice ip_hdr tot packet) ctx
          else if proto \<noteq> PROTO_TCP then (None, ctx)
          else
            (case parse_tcp (slice ip_hdr tot packet) of
               None \<Rightarrow> (None, ctx)
             | Some (tcp_src, tcp_dst, _, _) \<Rightarrow>
                 if src = TUN_SERVER \<and> tcp_src = ctx_listen_port ctx then
                   process_reply now ip_hdr tot tcp_dst packet ctx
                 else if dst = TUN_SERVER \<and> tcp_dst = ctx_listen_port ctx then (None, ctx)
                 else if \<not> is_global_unicast dst \<or> is_tun_prefix dst then (None, ctx)
                 else process_flow now ip_hdr tot (src, tcp_src) (dst, tcp_dst) packet ctx))"

section \<open>DNS over TCP\<close>

text \<open>\<open>input\<close> is all the client will send before it closes; the frames written are returned.\<close>

function handle_dns_tcp :: "idna_fn \<Rightarrow> bytes \<Rightarrow> packet_ctx \<Rightarrow> bytes \<times> packet_ctx" where
  "handle_dns_tcp idna input ctx =
     (if length input < 2 then ([], ctx)
      else
        (let msg_len = unat (from_be16 (input ! 0) (input ! 1)); rest = drop 2 input in
         if \<not> (12 \<le> msg_len \<and> msg_len \<le> 4096) then ([], ctx)
         else if length rest < msg_len then ([], ctx)
         else
           (case parse_dns_query (take msg_len rest) of
              None \<Rightarrow> ([], ctx)
            | Some (qid, qname, qtype) \<Rightarrow>
                (case dns_answer idna qid qname qtype ctx of
                   (answer, ctx) \<Rightarrow>
                     (case handle_dns_tcp idna (drop msg_len rest) ctx of
                        (out, ctx) \<Rightarrow> (to_be16 (word_of_nat (length answer)) @ answer @ out, ctx))))))"
  by pat_completeness auto

termination handle_dns_tcp
  by (relation "measure (\<lambda>(idna, input, ctx). length input)") auto

declare handle_dns_tcp.simps [simp del]

section \<open>Accepted connections\<close>

text \<open>\<^verbatim>\<open>dial_direct\<close>: the address to connect to; \<open>resolve\<close> is \<^verbatim>\<open>resolve_host_ipv4\<close>.\<close>

definition dial_direct :: "(rstr \<Rightarrow> ip_addr option) \<Rightarrow> rstr option \<Rightarrow> ipv4 \<Rightarrow> u16 \<Rightarrow> rstr option" where
  "dial_direct resolve host dst_ip dst_port =
     (case opt_filter (\<lambda>_. is_fake_ip_v4 dst_ip) host of
        Some host \<Rightarrow>
          (case resolve host of
             None \<Rightarrow> None
           | Some real \<Rightarrow> Some (show_ip real @ '':'' @ show_u16 dst_port))
      | None \<Rightarrow> Some (show_ipv4 dst_ip @ '':'' @ show_u16 dst_port))"

datatype accept_outcome =
    Dropped
  | Serve_dns
  | Dial_failed
  | Connect_direct rstr
  | Connect_proxy rstr

record accept_ctx =
  acc_rules :: rule_db
  acc_packet :: packet_ctx

text \<open>The end of \<^verbatim>\<open>handle_accepted\<close>: what the rules decide for a destination and its name.\<close>

definition dial_action ::
  "(rstr \<Rightarrow> ip_addr option) \<Rightarrow> rule_action \<Rightarrow> rstr option \<Rightarrow> ipv4 \<Rightarrow> u16 \<Rightarrow> accept_outcome" where
  "dial_action resolve action host dst_ip dst_port =
     (case action of
        Reject \<Rightarrow> Dropped
      | Direct \<Rightarrow>
          (case dial_direct resolve host dst_ip dst_port of
             None \<Rightarrow> Dial_failed
           | Some target \<Rightarrow> Connect_direct target)
      | Proxy \<Rightarrow>
          Connect_proxy
            ((case host of Some h \<Rightarrow> h | None \<Rightarrow> show_ipv4 dst_ip) @ '':'' @ show_u16 dst_port))"

definition route_accepted ::
  "idna_fn \<Rightarrow> cache_order \<Rightarrow> (rstr \<Rightarrow> ip_addr option) \<Rightarrow> nat \<Rightarrow> nat \<Rightarrow> ipv4 \<Rightarrow> u16 \<Rightarrow> accept_ctx
   \<Rightarrow> accept_outcome \<times> accept_ctx" where
  "route_accepted idna order resolve now now2 dst_ip dst_port ctx =
     (case lookback dst_ip (ctx_fake_ip (acc_packet ctx)) of
        (host, pool) \<Rightarrow>
          (let ctx = ctx\<lparr>acc_packet := (acc_packet ctx)\<lparr>ctx_fake_ip := pool\<rparr>\<rparr> in
           if host = None \<and> is_fake_ip_v4 dst_ip then (Dropped, ctx)
           else
             (case (case host of
                      Some h \<Rightarrow> match_domain idna order now now2 h (acc_rules ctx)
                    | None \<Rightarrow> (action_for_ip (V4 dst_ip), acc_rules ctx)) of
                (action, rules) \<Rightarrow>
                  (dial_action resolve action host dst_ip dst_port, ctx\<lparr>acc_rules := rules\<rparr>))))"

text \<open>\<open>stale\<close> is \<^verbatim>\<open>generation != ctx.generation.load() || relay.is_cancelled()\<close>.\<close>

definition handle_accepted ::
  "idna_fn \<Rightarrow> cache_order \<Rightarrow> (rstr \<Rightarrow> ip_addr option) \<Rightarrow> nat \<Rightarrow> nat \<Rightarrow> u16 \<Rightarrow> bool \<Rightarrow> accept_ctx
   \<Rightarrow> accept_outcome \<times> accept_ctx" where
  "handle_accepted idna order resolve now now2 peer_port stale ctx =
     (case lookup_back now peer_port (ctx_nat (acc_packet ctx)) of
        (None, n) \<Rightarrow> (Dropped, ctx)
      | (Some (_, dest), n) \<Rightarrow>
          (let ctx = ctx\<lparr>acc_packet := (acc_packet ctx)\<lparr>ctx_nat := n\<rparr>\<rparr> in
           if stale then (Dropped, ctx)
           else
             (let dst_ip = fst dest; dst_port = snd dest in
              if dst_port = 53 then (Serve_dns, ctx)
              else if (dst_port = 443 \<or> dst_port = 853) \<and> is_blocked doh_blocklist (V4 dst_ip)
              then (Dropped, ctx)
              else route_accepted idna order resolve now now2 dst_ip dst_port ctx)))"

section \<open>Generations and cancellation\<close>

text \<open>
  Cancellation tokens by number: the root token and its children. A child is cancelled when it
  was cancelled itself or the root was; \<^verbatim>\<open>child_token\<close> makes a fresh one.
\<close>

record lifecycle =
  generation :: "64 word"
  root_cancelled :: bool
  relay_token :: nat
  next_token :: nat
  cancelled_tokens :: "nat list"
  closed :: bool

definition lifecycle_new :: lifecycle where
  "lifecycle_new = \<lparr>generation = 0, root_cancelled = False, relay_token = 0, next_token = 1,
     cancelled_tokens = [], closed = False\<rparr>"

definition token_cancelled :: "lifecycle \<Rightarrow> nat \<Rightarrow> bool" where
  "token_cancelled lc t \<longleftrightarrow> root_cancelled lc \<or> t \<in> set (cancelled_tokens lc)"

definition bump_generation :: "lifecycle \<Rightarrow> lifecycle" where
  "bump_generation lc =
     (let lc = lc\<lparr>generation := generation lc + 1\<rparr>;
          child = next_token lc;
          old = relay_token lc;
          lc = lc\<lparr>relay_token := child, next_token := next_token lc + 1\<rparr>
      in lc\<lparr>cancelled_tokens := old # cancelled_tokens lc\<rparr>)"

definition request_stop :: "lifecycle \<Rightarrow> lifecycle" where
  "request_stop lc =
     lc\<lparr>closed := True, root_cancelled := True, cancelled_tokens := relay_token lc # cancelled_tokens lc\<rparr>"

text \<open>What the acceptor records for a connection, and the check at the start of its handler.\<close>

definition accept_snapshot :: "lifecycle \<Rightarrow> 64 word \<times> nat" where
  "accept_snapshot lc = (generation lc, relay_token lc)"

definition is_stale :: "lifecycle \<Rightarrow> 64 word \<times> nat \<Rightarrow> bool" where
  "is_stale lc snap \<longleftrightarrow> fst snap \<noteq> generation lc \<or> token_cancelled lc (snd snap)"

section \<open>Rewriting a packet\<close>

lemma parse_ipv4_cong:
  assumes "length p = length q" "\<And>i. i < 20 \<Longrightarrow> p ! i = q ! i"
  shows "parse_ipv4 p = parse_ipv4 q"
  unfolding parse_ipv4_def Let_def by (simp add: assms)

lemma parse_ipv4_take:
  assumes "parse_ipv4 p = Some (hl, proto, s, d, tot)"
  shows "parse_ipv4 (take tot p) = Some (hl, proto, s, d, tot)"
proof -
  have b: "20 \<le> hl" "hl \<le> tot" "tot \<le> length p" using parse_ipv4_facts [OF assms] by simp_all
  then have "length (take tot p) = tot" "20 \<le> tot" "\<And>i. i < 20 \<Longrightarrow> take tot p ! i = p ! i" by simp_all
  then show ?thesis using assms b
    by (auto simp: parse_ipv4_def Let_def IP_HDR_MIN_def split: if_splits)
qed

text \<open>The packet before its checksum is updated.\<close>

definition ported :: "nat \<Rightarrow> nat \<Rightarrow> ipv4 \<Rightarrow> u16 \<Rightarrow> ipv4 \<Rightarrow> u16 \<Rightarrow> bytes \<Rightarrow> bytes" where
  "ported hl tot src sport dst dport packet =
     (let p = set_addresses hl src dst packet
      in take hl p @ set_tcp_ports sport dport (slice hl tot p) @ drop tot p)"

lemma readdress_ported:
  "readdress hl tot src sport dst dport packet
   = take tot (update_tcp_checksum hl src dst (ported hl tot src sport dst dport packet))"
  by (simp add: readdress_def ported_def Let_def)

lemma set_tcp_ports_nth:
  assumes "4 \<le> length seg"
  shows "length (set_tcp_ports sp dp seg) = length seg"
    and "i < length seg \<Longrightarrow> set_tcp_ports sp dp seg ! i =
      (if i < 2 then to_be16 sp ! i else if i < 4 then to_be16 dp ! (i - 2) else seg ! i)"
  using assms by (auto simp: set_tcp_ports_def nth_put_at)

lemma ported_nth:
  assumes p: "parse_ipv4 packet = Some (hl, proto, s, d, tot)" and tcp: "hl + 20 \<le> tot"
  shows "length (ported hl tot src sport dst dport packet) = length packet"
    and "i < length packet \<Longrightarrow> i < hl \<or> hl + 4 \<le> i \<Longrightarrow>
      ported hl tot src sport dst dport packet ! i = set_addresses hl src dst packet ! i"
    and "i < 4 \<Longrightarrow> ported hl tot src sport dst dport packet ! (hl + i) =
      (if i < 2 then to_be16 sport ! i else to_be16 dport ! (i - 2))"
proof -
  note f = parse_ipv4_facts [OF p]
  have l: "length (set_addresses hl src dst packet) = length packet" using f by simp
  have sl: "length (slice hl tot (set_addresses hl src dst packet)) = tot - hl" using f l by simp
  have four: "4 \<le> length (slice hl tot (set_addresses hl src dst packet))" using sl tcp by simp
  note n = set_tcp_ports_nth [OF four, where sp = sport and dp = dport, unfolded sl]
  show "length (ported hl tot src sport dst dport packet) = length packet"
    using f l n(1) by (simp add: ported_def Let_def)
  show "i < length packet \<Longrightarrow> i < hl \<or> hl + 4 \<le> i \<Longrightarrow>
      ported hl tot src sport dst dport packet ! i = set_addresses hl src dst packet ! i"
    using f l n by (auto simp: ported_def Let_def nth_append slice_def)
  show "i < 4 \<Longrightarrow> ported hl tot src sport dst dport packet ! (hl + i) =
      (if i < 2 then to_be16 sport ! i else to_be16 dport ! (i - 2))"
    using f l n tcp by (auto simp: ported_def Let_def nth_append)
qed

lemma ported_parse:
  assumes p: "parse_ipv4 packet = Some (hl, proto, s, d, tot)" and tcp: "hl + 20 \<le> tot"
  shows "parse_ipv4 (ported hl tot src sport dst dport packet) = Some (hl, proto, src, dst, tot)"
  using parse_ipv4_cong [of "ported hl tot src sport dst dport packet" "set_addresses hl src dst packet"]
    ported_nth [OF p tcp] parse_ipv4_facts [OF p] set_addresses_parse [OF p]
  by simp

lemma parse_tcp_len:
  assumes "parse_tcp seg = Some (a, b, c, e)"
  shows "20 \<le> length seg" "e \<le> length seg" "20 \<le> e"
  using assms by (auto simp: parse_tcp_def TCP_HDR_MIN_def Let_def split: if_splits)

lemma readdress_bytes:
  assumes p: "parse_ipv4 packet = Some (hl, proto, s, d, tot)" and tcp: "hl + 20 \<le> tot"
    and q_def: "q = readdress hl tot src sport dst dport packet"
  shows "length q = tot"
    and "i < tot \<Longrightarrow> i < hl \<or> hl + 4 \<le> i \<Longrightarrow> i \<noteq> hl + 16 \<Longrightarrow> i \<noteq> hl + 17 \<Longrightarrow>
      q ! i = set_addresses hl src dst packet ! i"
    and "i < 4 \<Longrightarrow> q ! (hl + i) = (if i < 2 then to_be16 sport ! i else to_be16 dport ! (i - 2))"
proof -
  note f = parse_ipv4_facts [OF p] and n = ported_nth [OF p tcp, where src = src and sport = sport and dst = dst and dport = dport]
  show "length q = tot" using f tcp n(1) by (simp add: q_def readdress_ported)
  show "i < tot \<Longrightarrow> i < hl \<or> hl + 4 \<le> i \<Longrightarrow> i \<noteq> hl + 16 \<Longrightarrow> i \<noteq> hl + 17 \<Longrightarrow>
      q ! i = set_addresses hl src dst packet ! i"
    using f tcp n by (simp add: q_def readdress_ported nth_update_tcp_checksum)
  show "i < 4 \<Longrightarrow> q ! (hl + i) = (if i < 2 then to_be16 sport ! i else to_be16 dport ! (i - 2))"
    using f tcp n by (simp add: q_def readdress_ported nth_update_tcp_checksum)
qed


text \<open>What it means for a packet on the wire to carry a TCP segment of a flow.\<close>

definition carries ::
  "bytes \<Rightarrow> sockaddr_v4 \<Rightarrow> sockaddr_v4 \<Rightarrow> u8 \<Rightarrow> bytes \<Rightarrow> bool" where
  "carries packet from_addr to_addr flags payload \<longleftrightarrow>
     (case parse_ipv4 packet of
        None \<Rightarrow> False
      | Some (hl, proto, src, dst, tot) \<Rightarrow>
          proto = PROTO_TCP \<and> src = fst from_addr \<and> dst = fst to_addr
          \<and> (case parse_tcp (slice hl tot packet) of
               None \<Rightarrow> False
             | Some (sp, dp, fl, off) \<Rightarrow>
                 sp = snd from_addr \<and> dp = snd to_addr \<and> fl = flags
                 \<and> slice (hl + off) tot packet = payload))"

definition wire_ok :: "bytes \<Rightarrow> bool" where
  "wire_ok packet =
     (case parse_ipv4 packet of
        None \<Rightarrow> False
      | Some (hl, proto, src, dst, tot) \<Rightarrow>
          length packet = tot \<and> header_verifies hl packet
          \<and> segment_verifies proto src dst (slice hl tot packet))"

lemma readdress_parse:
  assumes p: "parse_ipv4 packet = Some (hl, proto, s, d, tot)" and tcp: "hl + 20 \<le> tot"
  shows "parse_ipv4 (readdress hl tot src sport dst dport packet) = Some (hl, proto, src, dst, tot)"
proof -
  note f = parse_ipv4_facts [OF p]
  let ?u = "update_tcp_checksum hl src dst (ported hl tot src sport dst dport packet)"
  have "parse_ipv4 ?u = parse_ipv4 (ported hl tot src sport dst dport packet)"
    using f tcp ported_nth(1) [OF p tcp]
    by (intro parse_ipv4_cong) (auto simp: nth_update_tcp_checksum)
  then show ?thesis unfolding readdress_ported
    using ported_parse [OF p tcp] by (intro parse_ipv4_take) simp
qed

lemma readdress_tcp:
  assumes p: "parse_ipv4 packet = Some (hl, proto, s, d, tot)"
    and t: "parse_tcp (slice hl tot packet) = Some (sp, dp, fl, off)"
  shows "parse_tcp (slice hl tot (readdress hl tot src sport dst dport packet)) = Some (sport, dport, fl, off)"
    and "slice (hl + off) tot (readdress hl tot src sport dst dport packet) = slice (hl + off) tot packet"
proof -
  note f = parse_ipv4_facts [OF p] and len = parse_tcp_len [OF t]
  have tcp: "hl + 20 \<le> tot" using len(1) f by simp
  define q where "q = readdress hl tot src sport dst dport packet"
  note b = readdress_bytes [OF p tcp q_def]
  have same: "q ! i = packet ! i" if "hl + 4 \<le> i" "i < tot" "i \<noteq> hl + 16" "i \<noteq> hl + 17" for i
    using that b(2) f by (simp add: nth_set_addresses)
  have seg: "slice hl tot q ! i = q ! (hl + i)" "slice hl tot packet ! i = packet ! (hl + i)"
    if "i < 20" for i
    using that tcp f b(1) by (simp_all add: slice_def)
  have ports: "q ! hl = hi8 sport" "q ! (hl + 1) = lo8 sport" "q ! (hl + 2) = hi8 dport" "q ! (hl + 3) = lo8 dport"
    using b(3) [of 0] b(3) [of 1] b(3) [of 2] b(3) [of 3] by (simp_all add: to_be16_def)
  have l: "length (slice hl tot q) = tot - hl" "length (slice hl tot packet) = tot - hl"
    using b(1) f by simp_all
  have "parse_tcp (slice hl tot q) = Some (sport, dport, fl, off)"
    using t tcp same [of "hl + 12"] same [of "hl + 13"] ports
    unfolding parse_tcp_def l TCP_HDR_MIN_def Let_def
    by (auto simp: seg from_be16_hi_lo split: if_splits)
  then show "parse_tcp (slice hl tot (readdress hl tot src sport dst dport packet)) = Some (sport, dport, fl, off)"
    by (simp add: q_def)
  have "slice (hl + off) tot q = slice (hl + off) tot packet"
    by (rule nth_equalityI) (use b(1) f len same in \<open>simp_all add: slice_def\<close>)
  then show "slice (hl + off) tot (readdress hl tot src sport dst dport packet) = slice (hl + off) tot packet"
    by (simp add: q_def)
qed

lemma readdress_wire_ok:
  assumes p: "parse_ipv4 packet = Some (hl, PROTO_TCP, s, d, tot)" and tcp: "hl + 20 \<le> tot"
    and len: "length packet \<le> 65535"
  shows "wire_ok (readdress hl tot src sport dst dport packet)"
proof -
  define q where "q = readdress hl tot src sport dst dport packet"
  note f = parse_ipv4_facts [OF p] and b = readdress_bytes [OF p tcp q_def]
  have "take hl q = take hl (set_addresses hl src dst packet)"
    by (rule nth_equalityI) (use b(1,2) f in simp_all)
  then have h: "header_verifies hl q"
    using set_addresses_verifies [OF p] by (simp add: header_verifies_def)
  let ?P = "ported hl tot src sport dst dport packet"
  have "segment_verifies PROTO_TCP src dst (slice hl tot (update_tcp_checksum hl src dst ?P))"
    by (rule update_tcp_checksum_verifies [OF tcp_total_parse [OF ported_parse [OF p tcp]]])
      (use f tcp len ported_nth(1) [OF p tcp] in auto)
  moreover have "slice hl tot (take tot x) = slice hl tot x" for x :: bytes
    by (simp add: slice_def drop_take)
  ultimately have "segment_verifies PROTO_TCP src dst (slice hl tot q)"
    by (simp add: q_def readdress_ported)
  then show ?thesis
    using h b(1) readdress_parse [OF p tcp, of src sport dst dport]
    unfolding wire_ok_def q_def [symmetric] by simp
qed


section \<open>Invariant of the running stack\<close>

definition ctx_ok :: "packet_ctx \<Rightarrow> bool" where
  "ctx_ok ctx \<longleftrightarrow> nat_ok (ctx_nat ctx) \<and> pool_ok (ctx_fake_ip ctx)"

definition tun_ok :: "accept_ctx \<Rightarrow> bool" where
  "tun_ok c \<longleftrightarrow> ctx_ok (acc_packet c) \<and> db_coherent (acc_rules c)"

definition tun_start :: "rule_db \<Rightarrow> u16 \<Rightarrow> accept_ctx" where
  "tun_start db listen_port =
     \<lparr>acc_rules = db,
      acc_packet = \<lparr>ctx_nat = nat_new 300, ctx_fake_ip = pool_new, ctx_listen_port = listen_port\<rparr>\<rparr>"

inductive tun_step :: "idna_fn \<Rightarrow> accept_ctx \<Rightarrow> accept_ctx \<Rightarrow> bool" for idna where
  packet_step: "tun_step idna c (c\<lparr>acc_packet := snd (process_packet idna now packet (acc_packet c))\<rparr>)"
| dns_step: "tun_step idna c (c\<lparr>acc_packet := snd (handle_dns_tcp idna input (acc_packet c))\<rparr>)"
| accept_step: "tun_step idna c (snd (handle_accepted idna order resolve now now2 port stale c))"
| sweep_step: "tun_step idna c
    (c\<lparr>acc_packet := (acc_packet c)\<lparr>ctx_nat := sweep now (ctx_nat (acc_packet c))\<rparr>\<rparr>)"

inductive_cases tun_stepE: "tun_step idna c c'"

inductive tun_reachable :: "idna_fn \<Rightarrow> accept_ctx \<Rightarrow> bool" for idna where
  loaded: "load_bytes raw = Inr db \<Longrightarrow> tun_reachable idna (tun_start db listen_port)"
| stepped: "tun_reachable idna c \<Longrightarrow> tun_step idna c c' \<Longrightarrow> tun_reachable idna c'"

lemma lookup_back_ok_eq: "nat_ok g \<Longrightarrow> lookup_back now p g = (r, g') \<Longrightarrow> nat_ok g'"
  using lookup_back_ok [of g now p] by simp

lemma nat_lookup_ok_eq: "nat_ok g \<Longrightarrow> nat_lookup now a d g = (r, g') \<Longrightarrow> nat_ok g'"
  using nat_lookup_ok [of g now a d] by simp

lemma lookback_ok_eq: "pool_ok p \<Longrightarrow> lookback ip p = (r, p') \<Longrightarrow> pool_ok p'"
  using lookback_ok [of p ip] by simp

lemma dns_answer_ok: "ctx_ok ctx \<Longrightarrow> ctx_ok (snd (dns_answer idna qid qname qtype ctx))"
  using lookup_avoiding_ok [of "ctx_fake_ip ctx"]
  by (auto simp: dns_answer_def ctx_ok_def case_prod_beta)

lemma dns_answer_nat [simp]:
  "ctx_nat (snd (dns_answer idna qid qname qtype ctx)) = ctx_nat ctx"
  "ctx_listen_port (snd (dns_answer idna qid qname qtype ctx)) = ctx_listen_port ctx"
  by (simp_all add: dns_answer_def case_prod_beta)

lemma handle_dns_ctx:
  "snd (handle_dns idna src dst sp payload ctx) =
     (case parse_dns_query payload of
        None \<Rightarrow> ctx
      | Some (qid, qname, qtype) \<Rightarrow> snd (dns_answer idna qid qname qtype ctx))"
  by (auto simp: handle_dns_def case_prod_beta split: option.splits)

lemma handle_dns_ok: "ctx_ok ctx \<Longrightarrow> ctx_ok (snd (handle_dns idna src dst sp payload ctx))"
  by (simp add: handle_dns_ctx dns_answer_ok split: option.splits)

lemma process_reply_ctx:
  "snd (process_reply now hl tot p packet ctx) = ctx\<lparr>ctx_nat := snd (lookup_back now p (ctx_nat ctx))\<rparr>"
  by (cases "lookup_back now p (ctx_nat ctx)") (auto simp: process_reply_def split: option.splits)

lemma process_flow_ctx:
  "snd (process_flow now hl tot a d packet ctx) = ctx\<lparr>ctx_nat := snd (nat_lookup now a d (ctx_nat ctx))\<rparr>"
  by (cases "nat_lookup now a d (ctx_nat ctx)") (auto simp: process_flow_def split: option.splits)

text \<open>What a packet can do to the state.\<close>

lemma process_packet_cases:
  obtains (same) "snd (process_packet idna now packet ctx) = ctx"
  | (dns) src dst sp payload where
      "snd (process_packet idna now packet ctx) = snd (handle_dns idna src dst sp payload ctx)"
  | (reply) p where
      "snd (process_packet idna now packet ctx) = ctx\<lparr>ctx_nat := snd (lookup_back now p (ctx_nat ctx))\<rparr>"
  | (flow) a d fl payload where "carries packet a d fl payload"
      "snd (process_packet idna now packet ctx) = ctx\<lparr>ctx_nat := snd (nat_lookup now a d (ctx_nat ctx))\<rparr>"
proof (cases "parse_ipv4 packet")
  case None
  then show ?thesis using same by (simp add: process_packet_def)
next
  case (Some x)
  then obtain hl proto src dst tot where p: "parse_ipv4 packet = Some (hl, proto, src, dst, tot)"
    by (cases x) auto
  consider "proto = PROTO_UDP" | "proto \<noteq> PROTO_UDP" "proto \<noteq> PROTO_TCP"
    | "proto \<noteq> PROTO_UDP" "proto = PROTO_TCP" "parse_tcp (slice hl tot packet) = None"
    | sp dp fl off where "proto \<noteq> PROTO_UDP" "proto = PROTO_TCP"
        "parse_tcp (slice hl tot packet) = Some (sp, dp, fl, off)"
    by (metis option.exhaust prod_cases4)
  then show ?thesis
  proof cases
    case 1
    then have "snd (process_packet idna now packet ctx)
      = snd (process_udp idna src dst (slice hl tot packet) ctx)" by (simp add: process_packet_def p)
    then show ?thesis using same dns
      by (auto simp: process_udp_def split: option.splits if_splits)
  next
    case (4 sp dp fl off)
    have "carries packet (src, sp) (dst, dp) fl (slice (hl + off) tot packet)"
      using 4 by (simp add: carries_def p)
    moreover have "snd (process_packet idna now packet ctx) \<in>
      {ctx, ctx\<lparr>ctx_nat := snd (lookup_back now dp (ctx_nat ctx))\<rparr>,
       ctx\<lparr>ctx_nat := snd (nat_lookup now (src, sp) (dst, dp) (ctx_nat ctx))\<rparr>}"
      using 4 by (auto simp: process_packet_def p process_flow_ctx process_reply_ctx)
    ultimately show ?thesis using same reply flow by blast
  qed (use same in \<open>auto simp: process_packet_def p\<close>)
qed

lemma process_packet_ok:
  assumes "ctx_ok ctx"
  shows "ctx_ok (snd (process_packet idna now packet ctx))"
proof (cases rule: process_packet_cases [where idna = idna and now = now and packet = packet and ctx = ctx])
  case (dns src dst sp payload)
  then show ?thesis using handle_dns_ok [OF assms] by simp
qed (use assms in \<open>simp_all add: ctx_ok_def lookup_back_ok nat_lookup_ok\<close>)

lemma handle_dns_tcp_ok: "ctx_ok ctx \<Longrightarrow> ctx_ok (snd (handle_dns_tcp idna input ctx))"
proof (induction "length input" arbitrary: input ctx rule: less_induct)
  case less
  have ans: "ctx_ok c" if "dns_answer idna qid qname qtype ctx = (a, c)" for qid qname qtype a c
    using dns_answer_ok [OF less.prems, of idna qid qname qtype] that by simp
  have rest: "ctx_ok c" if "handle_dns_tcp idna (drop n (drop 2 input)) c0 = (out, c)"
    "ctx_ok c0" "\<not> length input < 2" for n out c c0
    using less.hyps [of "drop n (drop 2 input)" c0] that by simp
  show ?case
    using less.prems ans rest
    by (subst handle_dns_tcp.simps) (auto simp: Let_def simp del: drop_drop split: option.splits prod.splits)
qed


lemma route_accepted_ok:
  assumes "tun_ok ctx"
  shows "tun_ok (snd (route_accepted idna order resolve now now2 ip port ctx))"
proof -
  obtain host pool where l: "lookback ip (ctx_fake_ip (acc_packet ctx)) = (host, pool)" by fastforce
  have p: "pool_ok pool"
    using assms lookback_ok_eq [OF _ l] by (simp add: tun_ok_def ctx_ok_def)
  have db: "db_coherent db" if "match_domain idna order now now2 h (acc_rules ctx) = (a, db)" for h a db
    using match_domain_keeps [OF _ that] assms by (simp add: tun_ok_def)
  show ?thesis using assms p db
    by (auto simp: route_accepted_def l tun_ok_def ctx_ok_def Let_def split: option.splits prod.splits)
qed

lemma handle_accepted_ok:
  assumes "tun_ok ctx"
  shows "tun_ok (snd (handle_accepted idna order resolve now now2 port stale ctx))"
proof -
  obtain r n where l: "lookup_back now port (ctx_nat (acc_packet ctx)) = (r, n)" by fastforce
  have "nat_ok n" using lookup_back_ok_eq [OF _ l] assms by (simp add: tun_ok_def ctx_ok_def)
  then have ok: "tun_ok (ctx\<lparr>acc_packet := (acc_packet ctx)\<lparr>ctx_nat := n\<rparr>\<rparr>)"
    using assms by (simp add: tun_ok_def ctx_ok_def)
  show ?thesis using assms ok route_accepted_ok [OF ok]
    by (auto simp: handle_accepted_def l Let_def split: option.splits)
qed

lemma sweep_ctx_ok: "ctx_ok c \<Longrightarrow> ctx_ok (c\<lparr>ctx_nat := sweep now (ctx_nat c)\<rparr>)"
  by (simp add: ctx_ok_def sweep_ok)

lemma tun_ok_packet: "tun_ok c \<Longrightarrow> ctx_ok p \<Longrightarrow> tun_ok (c\<lparr>acc_packet := p\<rparr>)"
  by (simp add: tun_ok_def)

lemma tun_ok_ctx: "tun_ok c \<Longrightarrow> ctx_ok (acc_packet c)"
  by (simp add: tun_ok_def)

lemma tun_step_ok: "tun_step idna c c' \<Longrightarrow> tun_ok c \<Longrightarrow> tun_ok c'"
  by (erule tun_stepE)
    (simp_all add: handle_accepted_ok tun_ok_packet tun_ok_ctx process_packet_ok handle_dns_tcp_ok sweep_ctx_ok)

lemma tun_start_ok: "load_bytes raw = Inr db \<Longrightarrow> tun_ok (tun_start db port)"
  by (simp add: tun_ok_def ctx_ok_def tun_start_def pool_new_ok load_bytes_coherent)

lemma tun_reachable_ok: "tun_reachable idna c \<Longrightarrow> tun_ok c"
  by (induction rule: tun_reachable.induct) (auto intro: tun_step_ok tun_start_ok)

section \<open>Flows through the stack\<close>

lemma carriesE:
  assumes "carries packet a d fl payload"
  obtains hl tot off where "parse_ipv4 packet = Some (hl, PROTO_TCP, fst a, fst d, tot)"
    "parse_tcp (slice hl tot packet) = Some (snd a, snd d, fl, off)"
    "slice (hl + off) tot packet = payload" "hl + 20 \<le> tot"
proof -
  obtain hl proto src dst tot where p: "parse_ipv4 packet = Some (hl, proto, src, dst, tot)"
    using assms by (cases "parse_ipv4 packet") (auto simp: carries_def)
  obtain sp dp f off where t: "parse_tcp (slice hl tot packet) = Some (sp, dp, f, off)"
    using assms by (cases "parse_tcp (slice hl tot packet)") (auto simp: carries_def p)
  have e: "proto = PROTO_TCP" "src = fst a" "dst = fst d" "sp = snd a" "dp = snd d" "f = fl"
    "slice (hl + off) tot packet = payload"
    using assms by (simp_all add: carries_def p t)
  have "hl + 20 \<le> tot" using parse_tcp_len(1) [OF t] parse_ipv4_facts [OF p] by simp
  then show ?thesis using that p t e(7) unfolding e(1-6) by blast
qed

lemma readdress_carries:
  assumes c: "carries packet a d fl payload" and len: "length packet \<le> 65535"
    and p: "parse_ipv4 packet = Some (hl, proto, s, t, tot)"
  shows "carries (readdress hl tot (fst a') (snd a') (fst d') (snd d') packet) a' d' fl payload"
    and "wire_ok (readdress hl tot (fst a') (snd a') (fst d') (snd d') packet)"
proof -
  from c obtain off where t: "parse_ipv4 packet = Some (hl, PROTO_TCP, fst a, fst d, tot)"
    "parse_tcp (slice hl tot packet) = Some (snd a, snd d, fl, off)"
    "slice (hl + off) tot packet = payload" "hl + 20 \<le> tot"
    by (rule carriesE) (use p in auto)
  show "carries (readdress hl tot (fst a') (snd a') (fst d') (snd d') packet) a' d' fl payload"
    using readdress_parse [OF t(1,4)] readdress_tcp [OF t(1,2)] t(3) by (simp add: carries_def)
  show "wire_ok (readdress hl tot (fst a') (snd a') (fst d') (snd d') packet)"
    by (rule readdress_wire_ok [OF t(1,4) len])
qed

lemma process_flow_packet:
  assumes "carries packet a d fl payload" "is_global_unicast (fst d)" "\<not> is_tun_prefix (fst d)"
    and "\<not> (fst a = TUN_SERVER \<and> snd a = ctx_listen_port ctx)"
    and "nat_lookup now a d (ctx_nat ctx) = (Some p, n)" and len: "length packet \<le> 65535"
  shows "\<exists>out. process_packet idna now packet ctx = (Some out, ctx\<lparr>ctx_nat := n\<rparr>)
    \<and> carries out (TUN_CLIENT, p) (TUN_SERVER, ctx_listen_port ctx) fl payload \<and> wire_ok out"
proof -
  from assms(1) obtain hl tot off where t: "parse_ipv4 packet = Some (hl, PROTO_TCP, fst a, fst d, tot)"
    "parse_tcp (slice hl tot packet) = Some (snd a, snd d, fl, off)"
    by (rule carriesE)
  have "is_tun_prefix TUN_SERVER" by (simp add: is_tun_prefix_def TUN_SERVER_def)
  then have "fst d \<noteq> TUN_SERVER" using assms(3) by auto
  then have "process_packet idna now packet ctx
    = (Some (readdress hl tot TUN_CLIENT p TUN_SERVER (ctx_listen_port ctx) packet), ctx\<lparr>ctx_nat := n\<rparr>)"
    using assms by (auto simp: process_packet_def t process_flow_def PROTO_TCP_def PROTO_UDP_def)
  then show ?thesis
    using readdress_carries [OF assms(1) len t(1), of "(TUN_CLIENT, p)" "(TUN_SERVER, ctx_listen_port ctx)"]
    by simp
qed

lemma process_reply_packet:
  assumes "carries packet (TUN_SERVER, ctx_listen_port ctx) (TUN_CLIENT, p) fl payload"
    and "flow_of p (ctx_nat ctx) = Some (a, d)" and len: "length packet \<le> 65535"
  shows "\<exists>out. fst (process_packet idna now packet ctx) = Some out \<and> carries out d a fl payload \<and> wire_ok out"
proof -
  from assms(1) obtain hl tot off where t: "parse_ipv4 packet = Some (hl, PROTO_TCP, TUN_SERVER, TUN_CLIENT, tot)"
    "parse_tcp (slice hl tot packet) = Some (ctx_listen_port ctx, p, fl, off)"
    by (rule carriesE) auto
  obtain n where "lookup_back now p (ctx_nat ctx) = (Some (a, d), n)"
    using fst_lookup_back [of now p "ctx_nat ctx"] assms(2) by (metis prod.collapse)
  then have "fst (process_packet idna now packet ctx)
    = Some (readdress hl tot (fst d) (snd d) (fst a) (snd a) packet)"
    by (simp add: process_packet_def t process_reply_def PROTO_TCP_def PROTO_UDP_def)
  then show ?thesis using readdress_carries [OF assms(1) len t(1), of d a] by simp
qed

text \<open>Packets of other sources leave a flow alone.\<close>

lemma process_packet_keeps:
  assumes "ctx_ok ctx" "flow_of p (ctx_nat ctx) = Some (a, d)" "\<And>e fl pl. \<not> carries packet a e fl pl"
  shows "flow_of p (ctx_nat (snd (process_packet idna now packet ctx))) = Some (a, d)"
proof (cases rule: process_packet_cases [where idna = idna and now = now and packet = packet and ctx = ctx])
  case (dns src dst sp payload)
  then show ?thesis using assms(2) by (simp add: handle_dns_ctx split: option.splits)
next
  case (flow b e fl payload)
  then have "b \<noteq> a" using assms(3) by blast
  then show ?thesis
    using flows.assign_keeps [OF _ assms(2), of b now e] assms(1) flow by (simp add: ctx_ok_def)
qed (use assms(2) in simp_all)


lemma process_packet_port: "ctx_listen_port (snd (process_packet idna now packet ctx)) = ctx_listen_port ctx"
  by (cases rule: process_packet_cases [where idna = idna and now = now and packet = packet and ctx = ctx])
    (simp_all add: handle_dns_ctx split: option.splits)

lemma process_packets_keep:
  assumes "ctx_ok ctx" "flow_of p (ctx_nat ctx) = Some (a, d)"
    and "\<forall>(t, q) \<in> set others. \<forall>e f pl. \<not> carries q a e f pl"
  shows "flow_of p (ctx_nat (fold (\<lambda>(t, q) s. snd (process_packet idna t q s)) others ctx)) = Some (a, d)"
    and "ctx_listen_port (fold (\<lambda>(t, q) s. snd (process_packet idna t q s)) others ctx) = ctx_listen_port ctx"
proof -
  have "flow_of p (ctx_nat (fold (\<lambda>(t, q) s. snd (process_packet idna t q s)) others ctx)) = Some (a, d)
    \<and> ctx_listen_port (fold (\<lambda>(t, q) s. snd (process_packet idna t q s)) others ctx) = ctx_listen_port ctx"
    using assms
  proof (induction others arbitrary: ctx)
    case (Cons x others)
    obtain t q where x: "x = (t, q)" by fastforce
    have q: "\<not> carries q a e f pl" for e f pl using Cons.prems(3) by (simp add: x del: split_paired_All)
    have rest: "\<forall>(t, q) \<in> set others. \<forall>e f pl. \<not> carries q a e f pl"
      using Cons.prems(3) by (simp del: split_paired_All)
    show ?case
      using Cons.IH [OF process_packet_ok [OF Cons.prems(1)] process_packet_keeps [OF Cons.prems(1,2) q] rest,
          of idna t] process_packet_port [of idna t q ctx]
      by (simp add: x)
  qed simp
  then show "flow_of p (ctx_nat (fold (\<lambda>(t, q) s. snd (process_packet idna t q s)) others ctx)) = Some (a, d)"
    and "ctx_listen_port (fold (\<lambda>(t, q) s. snd (process_packet idna t q s)) others ctx) = ctx_listen_port ctx"
    by simp_all
qed

section \<open>DNS answers\<close>

text \<open>A packet that carries a UDP datagram, with verifying checksums.\<close>

definition carries_udp :: "bytes \<Rightarrow> sockaddr_v4 \<Rightarrow> sockaddr_v4 \<Rightarrow> bytes \<Rightarrow> bool" where
  "carries_udp packet from_addr to_addr payload \<longleftrightarrow>
     (case parse_ipv4 packet of
        None \<Rightarrow> False
      | Some (hl, proto, src, dst, tot) \<Rightarrow>
          proto = PROTO_UDP \<and> src = fst from_addr \<and> dst = fst to_addr
          \<and> (case parse_udp (slice hl tot packet) of
               None \<Rightarrow> False
             | Some (sp, dp, n) \<Rightarrow>
                 sp = snd from_addr \<and> dp = snd to_addr
                 \<and> slice 8 (8 + n) (slice hl tot packet) = payload))"

lemma dns_header:
  fixes answer :: bytes and src dst :: ipv4
  assumes "length answer \<le> 65507"
  defines "n \<equiv> 28 + length answer"
  defines "x \<equiv> set_total_length (word_of_nat n) (set_addresses 20 dst src ((replicate n 0)[0 := 0x45, 8 := 64, 9 := PROTO_UDP]))"
  shows "length x = n" "header_verifies 20 x"
    and "parse_ipv4 x = Some (20, PROTO_UDP, dst, src, n)"
proof -
  define o1 where "o1 = (replicate n 0)[0 := 0x45, 8 := 64, 9 := PROTO_UDP :: u8]"
  define y where "y = set_addresses 20 dst src o1"
  define z where "z = put_at 2 (to_be16 (word_of_nat n)) y"
  have n: "28 \<le> n" "0 < n" by (simp_all add: n_def)
  have lens: "length o1 = n" "length y = n" "length z = n"
    using n by (simp_all add: o1_def y_def z_def)
  have low: "unat (0x45 AND 0x0F :: u8) * 4 = 20" "drop_bit 4 (0x45 :: u8) = 4" by code_simp+
  have y: "y ! 0 = 0x45" "y ! 9 = PROTO_UDP"
    unfolding y_def using lens n by (simp_all add: nth_set_addresses) (simp_all add: o1_def)
  have z: "z ! 0 = 0x45" "z ! 2 = hi8 (word_of_nat n)" "z ! 3 = lo8 (word_of_nat n)" "z ! 9 = PROTO_UDP"
    using y lens n by (simp_all add: z_def nth_put_at to_be16_def)
  have zy: "z ! i = y ! i" if "4 \<le> i" "i < n" for i
    using that lens n by (simp add: z_def nth_put_at)
  have x: "x = update_ip_checksum 20 z"
    using z(1) low by (simp add: x_def set_total_length_def Let_def z_def y_def o1_def)
  show lx: "length x = n" using lens n by (simp add: x)
  show "header_verifies 20 x"
    unfolding x using z lens n by (intro update_ip_checksum_verifies) simp_all
  have xz: "x ! i = z ! i" if "i < n" "i \<noteq> 10" "i \<noteq> 11" for i
    using that lens n by (simp add: x nth_update_ip_checksum)
  have d: "y ! (12 + i) = octets dst ! i" "y ! (16 + i) = octets src ! i" if "i < 4" for i
    using set_addresses_fields [of o1 i 20 dst src] that lens n by (simp_all add: y_def)
  have "unat (from_be16 (hi8 (word_of_nat n)) (lo8 (word_of_nat n))) = n"
    unfolding from_be16_hi_lo using assms(1) by (simp only: unat_of_nat_u16) (simp add: n_def)
  then show "parse_ipv4 x = Some (20, PROTO_UDP, dst, src, n)"
    using n lx low xz zy z d [of 0] d [of 1] d [of 2] d [of 3]
    unfolding parse_ipv4_def IP_HDR_MIN_def Let_def by (simp add: octets_def)
qed

lemma dns_packet_carries:
  assumes "length answer \<le> 65507"
  shows "carries_udp (dns_packet src dst src_port answer) (dst, 53) (src, src_port) answer"
    and "wire_ok (dns_packet src dst src_port answer)"
proof -
  define n where "n = 28 + length answer"
  define x where "x = set_total_length (word_of_nat n) (set_addresses 20 dst src ((replicate n 0)[0 := 0x45, 8 := 64, 9 := PROTO_UDP]))"
  note h = dns_header [OF assms, of dst src, folded n_def, folded x_def]
  define u where "u = write_udp 53 src_port answer dst src (drop 20 x)"
  have dp: "dns_packet src dst src_port answer = take 20 x @ u"
    by (simp add: dns_packet_def Let_def u_def x_def n_def UDP_HDR_def)
  have ld: "length (drop 20 x) = 8 + length answer" using h(1) by (simp add: n_def)
  have w: "parse_udp u = Some (53, src_port, length answer)" "drop 8 u = answer"
    "segment_verifies PROTO_UDP dst src u"
    using write_udp_spec [OF ld, of 53 src_port dst src] assms by (simp_all add: u_def Let_def)
  have lu: "length u = 8 + length answer"
    using write_udp_eq [OF ld, of 53 src_port dst src] by (auto simp: u_def)
  have seg: "slice 20 n (take 20 x @ u) = u" using lu h(1) by (simp add: slice_def n_def)
  have "parse_ipv4 (take 20 x @ u) = parse_ipv4 x"
    by (rule parse_ipv4_cong) (use lu h(1) in \<open>simp_all add: n_def nth_append\<close>)
  then have p: "parse_ipv4 (take 20 x @ u) = Some (20, PROTO_UDP, dst, src, n)" using h(3) by simp
  show "carries_udp (dns_packet src dst src_port answer) (dst, 53) (src, src_port) answer"
    unfolding dp carries_udp_def using p seg w by (simp add: slice_def)
  have "length (take 20 x @ u) = n" using lu h(1) by (simp add: n_def)
  moreover have "header_verifies 20 (take 20 x @ u)"
    using h(1,2) by (simp add: header_verifies_def n_def)
  ultimately show "wire_ok (dns_packet src dst src_port answer)"
    unfolding dp wire_ok_def p using seg w by simp
qed

lemma concat_length_le: "\<forall>x \<in> set xs. length x \<le> k \<Longrightarrow> length (concat xs) \<le> k * length xs"
  by (induction xs) auto

lemma encode_name_length:
  assumes "dns_name_ok idna qname"
  shows "length (encode_dns_name idna qname) \<le> 3969"
proof -
  let ?ls = "map encode_label (dns_labels idna qname)"
  have "length (concat ?ls) \<le> 64 * length ?ls"
    using assms by (intro concat_length_le) (auto simp: dns_name_ok_def label_ok_def encode_label_def)
  also have "\<dots> \<le> 64 * 62" using assms by (simp add: dns_name_ok_def)
  finally show ?thesis by (simp add: encode_dns_name_def)
qed


lemma dns_answer_binds:
  assumes "ctx_ok ctx"
  obtains ip pc where "dns_answer idna qid qname 1 ctx = (build_named_a_response idna qid qname ip, pc)"
    "is_fake_ip_v4 ip" "hm_get (ip_host (ctx_fake_ip pc)) ip = Some (domain_to_ascii idna qname)"
    "hm_get (host_ip (ctx_fake_ip ctx)) (domain_to_ascii idna qname) = None \<longrightarrow> \<not> has_destination ip (ctx_nat ctx)"
proof -
  obtain ip pool where l: "lookup_avoiding idna qname (\<lambda>ip. has_destination ip (ctx_nat ctx)) (ctx_fake_ip ctx) = (ip, pool)"
    by fastforce
  have ok: "nat_ok (ctx_nat ctx)" "pool_ok (ctx_fake_ip ctx)" using assms by (simp_all add: ctx_ok_def)
  let ?U = "{ip. has_destination ip (ctx_nat ctx)}"
  have "finite ?U" "card ?U \<le> 55536" using nat_destinations_card [OF ok(1)] by simp_all
  from lookup_avoiding_binds [OF ok(2) this _ l]
  have "hm_get (ip_host pool) ip = Some (domain_to_ascii idna qname)" "usable_ip ip"
    "hm_get (host_ip (ctx_fake_ip ctx)) (domain_to_ascii idna qname) = None \<longrightarrow> \<not> has_destination ip (ctx_nat ctx)"
    by auto
  then show ?thesis
    using l that [of ip "ctx\<lparr>ctx_fake_ip := pool\<rparr>"] by (simp add: dns_answer_def usable_ip_def)
qed

section \<open>Properties\<close>

text \<open>
  C4: in every reachable state of the running tunnel, a DNS query over UDP for an A record of an
  ordinary name (in normal form 1 to 62 labels of 1 to 63 ASCII characters each) is
  answered by exactly one packet: a UDP datagram from the queried server's port 53 to the
  client with verifying checksums, whose answer section holds one fake address; the address
  leads back to the normalised name, and when it was newly assigned it is not the destination
  of an open flow. The fallback address of an exhausted pool is thus never handed out.
\<close>

theorem dns_answer_resolves_back:
  assumes "tun_reachable idna c" "parse_dns_query payload = Some (qid, qname, 1)" "dns_name_ok idna qname"
  shows "\<exists>out ip pc. handle_dns idna src dst sp payload (acc_packet c) = (Some out, pc)
    \<and> wire_ok out
    \<and> carries_udp out (dst, 53) (src, sp) (build_named_a_response idna qid qname ip)
    \<and> parse_a_answers (build_named_a_response idna qid qname ip) = Some [V4 ip]
    \<and> is_fake_ip_v4 ip \<and> fst (lookback ip (ctx_fake_ip pc)) = Some (domain_to_ascii idna qname)
    \<and> (hm_get (host_ip (ctx_fake_ip (acc_packet c))) (domain_to_ascii idna qname) = None
       \<longrightarrow> \<not> has_destination ip (ctx_nat (acc_packet c)))"
proof -
  have ok: "ctx_ok (acc_packet c)" using tun_reachable_ok [OF assms(1)] by (rule tun_ok_ctx)
  obtain ip pc where
    a: "dns_answer idna qid qname 1 (acc_packet c) = (build_named_a_response idna qid qname ip, pc)"
    and i: "is_fake_ip_v4 ip" "hm_get (ip_host (ctx_fake_ip pc)) ip = Some (domain_to_ascii idna qname)"
      "hm_get (host_ip (ctx_fake_ip (acc_packet c))) (domain_to_ascii idna qname) = None
       \<longrightarrow> \<not> has_destination ip (ctx_nat (acc_packet c))"
    by (rule dns_answer_binds [OF ok])
  have "length (build_named_a_response idna qid qname ip) \<le> 65507"
    using encode_name_length [OF assms(3)] by (simp add: named_response_bytes)
  then show ?thesis
    using a i assms(2) dns_packet_carries [of "build_named_a_response idna qid qname ip"]
      parse_built_response [OF assms(3)]
    by (intro exI [of _ "dns_packet src dst sp (build_named_a_response idna qid qname ip)"]
        exI [of _ ip] exI [of _ pc]) (simp add: handle_dns_def lookback_def)
qed

text \<open>
  C3: a captured TCP packet to a routable destination is sent on to the tunnel's listener from a
  translated port, with its flags and payload unchanged and both checksums verifying, while
  fewer than 55535 flows are open; after any packets of other sources, a reply of the listener
  to that port is sent to the flow's source as coming from its original destination.
\<close>

theorem tun_flow_roundtrip:
  assumes "tun_reachable idna c" "ctx = acc_packet c"
    and "carries packet a d fl payload" "length packet \<le> 65535"
    and "is_global_unicast (fst d)" "\<not> is_tun_prefix (fst d)"
    and "\<not> (fst a = TUN_SERVER \<and> snd a = ctx_listen_port ctx)"
    and "hm_len (port_map (ctx_nat ctx)) < 55535"
    and "\<forall>(t, p) \<in> set others. \<forall>e f pl. \<not> carries p a e f pl"
    and "length reply \<le> 65535"
  shows "\<exists>port out ctx'. process_packet idna now packet ctx = (Some out, ctx')
    \<and> carries out (TUN_CLIENT, port) (TUN_SERVER, ctx_listen_port ctx) fl payload \<and> wire_ok out
    \<and> (carries reply (TUN_SERVER, ctx_listen_port ctx) (TUN_CLIENT, port) rfl answer \<longrightarrow>
        (\<exists>back. fst (process_packet idna later reply
             (fold (\<lambda>(t, p) s. snd (process_packet idna t p s)) others ctx')) = Some back
           \<and> carries back d a rfl answer \<and> wire_ok back))"
proof -
  have ok: "ctx_ok ctx" using tun_reachable_ok [OF assms(1)] assms(2) by (simp add: tun_ok_ctx)
  obtain r n where l: "nat_lookup now a d (ctx_nat ctx) = (r, n)" by fastforce
  have nok: "nat_ok (ctx_nat ctx)" using ok by (simp add: ctx_ok_def)
  have "r \<noteq> None" using nok l assms(8) by (cases rule: nat_lookup_cases) auto
  then obtain port where r: "r = Some port" by blast
  define ctx' where "ctx' = ctx\<lparr>ctx_nat := n\<rparr>"
  have ok': "ctx_ok ctx'" using ok nat_lookup_ok_eq [OF nok l] by (simp add: ctx'_def ctx_ok_def)
  have fl': "flow_of port (ctx_nat ctx') = Some (a, d)"
    using flows.assign_flow [OF nok, of now a d port n] l r by (simp add: ctx'_def)
  note run = process_packets_keep [OF ok' fl' assms(9)]
  show ?thesis
    using process_flow_packet [OF assms(3,5-7) l [unfolded r] assms(4), of idna]
      process_reply_packet [OF _ run(1) assms(10)] run(2)
    by (fastforce simp: ctx'_def)
qed


text \<open>A concrete running tunnel for the witnesses.\<close>

definition example_tun :: accept_ctx where
  "example_tun = tun_start \<lparr>records = insert_all example_rules [], cache = ttl_new 4096\<rparr> 40000"

lemma example_tun_reachable: "tun_reachable idna example_tun"
  unfolding example_tun_def by (rule tun_reachable.loaded [OF load_encode [OF example_rules_ok]])

definition example_reply :: bytes where
  "example_reply =
     [0x45, 0, 0, 40, 0, 2, 0x40, 0, 64, 6, 0, 0, 172, 19, 0, 1, 172, 19, 0, 2,
      0x9C, 0x40, 0x27, 0x10, 0, 0, 0, 9, 0, 0, 0, 2, 0x50, 0x12, 0xFF, 0xFF, 0, 0, 0, 0]"

theorem dns_answer_resolves_back_witness:
  "\<exists>out ip pc. handle_dns (\<lambda>h. None) (Ipv4 172 19 0 1) (Ipv4 198 18 0 2) 5353
       (build_dns_query (\<lambda>h. None) 7 ''example.com'') (acc_packet example_tun) = (Some out, pc)
     \<and> wire_ok out \<and> fst (lookback ip (ctx_fake_ip pc)) = Some ''example.com''"
proof -
  have q: "parse_dns_query (build_dns_query (\<lambda>h. None) 7 ''example.com'') = Some (7, ''example.com'', 1)"
    and n: "dns_name_ok (\<lambda>h. None) ''example.com''"
    and d: "domain_to_ascii (\<lambda>h. None) ''example.com'' = ''example.com''"
    by code_simp+
  show ?thesis
    using dns_answer_resolves_back [OF example_tun_reachable q n, of "Ipv4 172 19 0 1" "Ipv4 198 18 0 2" 5353] d
    by auto
qed

lemma carries_unique:
  "carries p a d fl pl \<Longrightarrow> carries p a' d' fl' pl' \<Longrightarrow> a = a' \<and> d = d' \<and> fl = fl' \<and> pl = pl'"
  by (erule carriesE, erule carriesE) (auto simp: prod_eq_iff)

theorem tun_flow_roundtrip_witness:
  "\<exists>out ctx' back. process_packet (\<lambda>h. None) 1 example_packet (acc_packet example_tun) = (Some out, ctx')
     \<and> wire_ok out
     \<and> fst (process_packet (\<lambda>h. None) 2 example_reply ctx') = Some back \<and> wire_ok back
     \<and> carries back (Ipv4 198 18 0 4, 443) (Ipv4 172 19 0 1, 49152) 18 []"
proof -
  let ?c = "acc_packet example_tun"
  have c: "carries example_packet (Ipv4 172 19 0 1, 49152) (Ipv4 198 18 0 4, 443) 2 []"
    and r: "carries example_reply (TUN_SERVER, ctx_listen_port ?c) (TUN_CLIENT, 10000) 18 []"
    and len: "length example_packet \<le> 65535" "length example_reply \<le> 65535"
    and g: "is_global_unicast (fst (Ipv4 198 18 0 4, 443 :: u16))"
      "\<not> is_tun_prefix (fst (Ipv4 198 18 0 4, 443 :: u16))"
      "\<not> (fst (Ipv4 172 19 0 1, 49152 :: u16) = TUN_SERVER \<and> snd (Ipv4 172 19 0 1, 49152 :: u16) = ctx_listen_port ?c)"
    and few: "hm_len (port_map (ctx_nat ?c)) < 55535"
    and o: "is_some_and (\<lambda>out. carries out (TUN_CLIENT, 10000) (TUN_SERVER, ctx_listen_port ?c) 2 [])
        (fst (process_packet (\<lambda>h. None) 1 example_packet ?c))"
    by code_simp+
  have nobody: "\<forall>(t, p) \<in> set []. \<forall>e f pl. \<not> carries p (Ipv4 172 19 0 1, 49152) e f pl" by simp
  from tun_flow_roundtrip [OF example_tun_reachable [of "\<lambda>h. None"] refl c len(1) g few nobody len(2), of 1 18 "[]" 2]
  obtain port out ctx' where p: "process_packet (\<lambda>h. None) 1 example_packet ?c = (Some out, ctx')"
    and co: "carries out (TUN_CLIENT, port) (TUN_SERVER, ctx_listen_port ?c) 2 []" "wire_ok out"
    and ret: "carries example_reply (TUN_SERVER, ctx_listen_port ?c) (TUN_CLIENT, port) 18 [] \<longrightarrow>
        (\<exists>back. fst (process_packet (\<lambda>h. None) 2 example_reply ctx') = Some back
           \<and> carries back (Ipv4 198 18 0 4, 443) (Ipv4 172 19 0 1, 49152) 18 [] \<and> wire_ok back)"
    by auto
  have "port = 10000" using carries_unique [OF co(1)] o p by auto
  then show ?thesis using p co(2) ret r by auto
qed


text \<open>The blocklist holds no fake address, so a name's traffic is never dropped by it.\<close>

lemma doh_hosts_octet:
  "list_all (\<lambda>h. case parse_ip h of Some (V4 v) \<Rightarrow> oct0 v \<noteq> 198 | _ \<Rightarrow> True) doh_hosts"
  by code_simp

lemma v4_bits_octet: "unat (v4_bits v) div 16777216 = unat (oct0 v)"
proof -
  define r where "r = unat (oct1 v) * 65536 + unat (oct2 v) * 256 + unat (oct3 v)"
  have r: "r < 16777216"
    using unat_u8_lt [of "oct1 v"] unat_u8_lt [of "oct2 v"] unat_u8_lt [of "oct3 v"] unfolding r_def by linarith
  then have "unat (oct0 v) * 16777216 + r < 4294967296" using unat_u8_lt [of "oct0 v"] by linarith
  then have "unat (v4_bits v) = unat (oct0 v) * 16777216 + r"
    unfolding v4_bits_def unat_of_nat_u32 r_def by (simp add: add.assoc)
  then show ?thesis using r by simp
qed

lemma fake_not_blocked: "is_fake_ip_v4 ip \<Longrightarrow> \<not> is_blocked doh_blocklist (V4 ip)"
proof
  assume f: "is_fake_ip_v4 ip" and b: "is_blocked doh_blocklist (V4 ip)"
  have o: "oct0 ip = 198" using f by (auto simp: is_fake_ip_v4_def is_fake_ip_def split: if_splits)
  from b obtain h v where "h \<in> set doh_hosts" "parse_ip h = Some (V4 v)" "v4_bits ip = v4_bits v"
    unfolding is_blocked_def doh_blocklist_def map_filter_def
    by (auto split: option.splits ip_addr.splits)
  then have "oct0 v \<noteq> 198" "unat (oct0 ip) = unat (oct0 v)"
    using doh_hosts_octet v4_bits_octet [of ip] v4_bits_octet [of v] by (auto simp: list_all_iff)
  then show False using o by (simp add: word_unat_eq_iff)
qed

text \<open>What the acceptor does for a destination with a known name, as the rules say.\<close>

definition named_outcome ::
  "(rstr \<Rightarrow> ip_addr option) \<Rightarrow> rule_action \<Rightarrow> rstr \<Rightarrow> u16 \<Rightarrow> accept_outcome" where
  "named_outcome resolve action h port =
     (case action of
        Reject \<Rightarrow> Dropped
      | Direct \<Rightarrow>
          (case resolve h of
             None \<Rightarrow> Dial_failed
           | Some real \<Rightarrow> Connect_direct (show_ip real @ '':'' @ show_u16 port))
      | Proxy \<Rightarrow> Connect_proxy (h @ '':'' @ show_u16 port))"

text \<open>
  C5: in every reachable state, a live connection whose flow goes to a fake address (to a port
  other than 53) is routed by the name bound to that address: rejected, dialled directly at the
  address the resolver gives for the name, or handed to the proxy under the name, according to
  the longest matching rule; the route cache never changes the decision.
\<close>

theorem accepted_routes_by_name:
  assumes "tun_reachable idna c"
    and "flow_of port (ctx_nat (acc_packet c)) = Some (src, (ip, dport))"
    and "hm_get (ip_host (ctx_fake_ip (acc_packet c))) ip = Some h" "dport \<noteq> 53"
  shows "fst (handle_accepted idna order resolve now now2 port False c)
    = named_outcome resolve (route_spec idna (records (acc_rules c)) h) h dport"
proof -
  have ok: "tun_ok c" by (rule tun_reachable_ok [OF assms(1)])
  then have "usable_ip ip" using assms(3) by (auto simp: tun_ok_def ctx_ok_def pool_ok_def)
  then have f: "is_fake_ip_v4 ip" by (simp add: usable_ip_def)
  obtain n where l: "lookup_back now port (ctx_nat (acc_packet c)) = (Some (src, (ip, dport)), n)"
    using fst_lookup_back [of now port "ctx_nat (acc_packet c)"] assms(2) by (metis prod.collapse)
  obtain act db where m: "match_domain idna order now now2 h (acc_rules c) = (act, db)" by fastforce
  have act: "act = route_spec idna (records (acc_rules c)) h"
    using match_domain_value [of "acc_rules c" idna order now now2 h] m ok by (simp add: tun_ok_def)
  show ?thesis
    using assms(3,4) f fake_not_blocked [OF f] m
    by (simp add: handle_accepted_def l Let_def route_accepted_def lookback_def act [symmetric]
        dial_action_def dial_direct_def named_outcome_def opt_filter_def
        split: rule_action.split option.split)
qed

text \<open>
  C6: where the acceptor connects to, in every state. A port without a flow is dropped. A destination
  that is not fake is dialled itself; a fake one is dialled only at the address that the resolver gives
  for the name bound to it, so no fake address is dialled unless the resolver itself answers one. The
  proxy is given the bound name, or a destination that is not fake.
\<close>

theorem never_dials_fake:
  "case flow_of port (ctx_nat (acc_packet c)) of
     None \<Rightarrow> fst (handle_accepted idna order resolve now now2 port stale c) = Dropped
   | Some (src, (ip, dport)) \<Rightarrow>
       (let bound = hm_get (ip_host (ctx_fake_ip (acc_packet c))) ip in
        case fst (handle_accepted idna order resolve now now2 port stale c) of
          Connect_direct t \<Rightarrow>
            \<exists>real. t = show_ip real @ '':'' @ show_u16 dport
              \<and> (if is_fake_ip_v4 ip then Option.bind bound resolve = Some real else real = V4 ip)
              \<and> ((\<forall>h v. resolve h = Some (V4 v) \<longrightarrow> \<not> is_fake_ip_v4 v) \<longrightarrow> (\<forall>v. real = V4 v \<longrightarrow> \<not> is_fake_ip_v4 v))
        | Connect_proxy t \<Rightarrow>
            (case bound of
               Some h \<Rightarrow> t = h @ '':'' @ show_u16 dport
             | None \<Rightarrow> \<not> is_fake_ip_v4 ip \<and> t = show_ipv4 ip @ '':'' @ show_u16 dport)
        | _ \<Rightarrow> True)"
proof (cases "lookup_back now port (ctx_nat (acc_packet c))")
  case (Pair r n)
  then have fl: "flow_of port (ctx_nat (acc_packet c)) = r" using fst_lookup_back by (metis fst_conv)
  show ?thesis
  proof (cases r)
    case None
    then show ?thesis using Pair fl by (simp add: handle_accepted_def)
  next
    case (Some f)
    obtain src ip dport where f: "f = (src, ip, dport)" by (cases f) auto
    show ?thesis unfolding fl Some f
      by (cases "hm_get (ip_host (ctx_fake_ip (acc_packet c))) ip")
        (auto simp: handle_accepted_def Pair Some f route_accepted_def lookback_def dial_action_def dial_direct_def
          opt_filter_def show_ip_def Let_def split: option.splits prod.splits if_splits rule_action.splits)
  qed
qed

definition example_named :: packet_ctx where
  "example_named = (acc_packet example_tun)\<lparr>ctx_fake_ip :=
     \<lparr>host_ip = [(''www.ads.com'', Ipv4 198 18 0 4)], ip_host = [(Ipv4 198 18 0 4, ''www.ads.com'')],
      lru = [''www.ads.com''], next_bits = 5\<rparr>\<rparr>"

definition example_open :: packet_ctx where
  "example_open = example_named\<lparr>ctx_nat :=
     \<lparr>addr_map = [((Ipv4 172 19 0 1, 49152), 10000)],
      port_map = [(10000, \<lparr>source = (Ipv4 172 19 0 1, 49152), destination = (Ipv4 198 18 0 4, 443), last_seen = 2\<rparr>)],
      port_index = 10001, timeout = 300\<rparr>\<rparr>"

lemma example_named_eq:
  "snd (handle_dns_tcp (\<lambda>h. None) (0 # 29 # build_dns_query (\<lambda>h. None) 7 ''www.ads.com'')
     (acc_packet example_tun)) = example_named"
  by code_simp

lemma example_open_eq: "snd (process_packet (\<lambda>h. None) 2 example_packet example_named) = example_open"
  by code_simp

text \<open>A destination that is not fake, and a name that the rules dial directly.\<close>

definition example_direct :: packet_ctx where
  "example_direct = (acc_packet example_tun)\<lparr>ctx_fake_ip :=
     \<lparr>host_ip = [(''www.baidu.com'', Ipv4 198 18 0 4)], ip_host = [(Ipv4 198 18 0 4, ''www.baidu.com'')],
      lru = [''www.baidu.com''], next_bits = 5\<rparr>,
    ctx_nat :=
     \<lparr>addr_map = [((Ipv4 172 19 0 1, 49152), 10000)],
      port_map = [(10000, \<lparr>source = (Ipv4 172 19 0 1, 49152), destination = (Ipv4 198 18 0 4, 443), last_seen = 2\<rparr>)],
      port_index = 10001, timeout = 300\<rparr>\<rparr>"

theorem never_dials_fake_witness:
  "fst (handle_accepted (\<lambda>h. None) (map fst) (\<lambda>h. Some (V4 (Ipv4 1 2 3 4))) 3 3 10000 False
     (example_tun\<lparr>acc_packet := example_direct\<rparr>)) = Connect_direct ''1.2.3.4:443''
   \<and> (\<exists>real. ''1.2.3.4:443'' = show_ip real @ '':'' @ show_u16 443 \<and> (\<forall>v. real = V4 v \<longrightarrow> \<not> is_fake_ip_v4 v))"
proof -
  let ?c = "example_tun\<lparr>acc_packet := example_direct\<rparr>" and ?r = "\<lambda>h :: rstr. Some (V4 (Ipv4 1 2 3 4))"
  have o: "fst (handle_accepted (\<lambda>h. None) (map fst) ?r 3 3 10000 False ?c) = Connect_direct ''1.2.3.4:443''"
    by code_simp
  have f: "flow_of 10000 (ctx_nat (acc_packet ?c)) = Some ((Ipv4 172 19 0 1, 49152), (Ipv4 198 18 0 4, 443))"
    by (simp add: flow_of_def example_direct_def hm_get_def)
  have n: "\<not> is_fake_ip_v4 (Ipv4 1 2 3 4)" by code_simp
  show ?thesis using never_dials_fake [where port = 10000 and c = ?c and idna = "\<lambda>h. None" and order = "map fst" and resolve = ?r and now = 3 and ?now2.0 = 3 and stale = False] o f n by (auto simp: Let_def)
qed

theorem accepted_routes_by_name_witness:
  "fst (handle_accepted (\<lambda>h. None) (map fst) (\<lambda>h. None) 3 3 10000 False
     (example_tun\<lparr>acc_packet := example_open\<rparr>)) = Dropped"
proof -
  let ?c = "example_tun\<lparr>acc_packet := example_open\<rparr>"
  have "tun_reachable (\<lambda>h. None) (example_tun\<lparr>acc_packet := example_named\<rparr>)"
    using tun_reachable.stepped [OF example_tun_reachable tun_step.dns_step] example_named_eq by metis
  then have r: "tun_reachable (\<lambda>h. None) ?c"
    using tun_reachable.stepped [OF _ tun_step.packet_step, of "\<lambda>h. None" "example_tun\<lparr>acc_packet := example_named\<rparr>" 2 example_packet]
    by (simp add: example_open_eq)
  have f: "flow_of 10000 (ctx_nat (acc_packet ?c)) = Some ((Ipv4 172 19 0 1, 49152), (Ipv4 198 18 0 4, 443))"
    and h: "hm_get (ip_host (ctx_fake_ip (acc_packet ?c))) (Ipv4 198 18 0 4) = Some ''www.ads.com''"
    by (simp_all add: flow_of_def example_open_def example_named_def hm_get_def)
  have o: "named_outcome (\<lambda>h. None) (route_spec (\<lambda>h. None) (records (acc_rules ?c)) ''www.ads.com'') ''www.ads.com'' 443 = Dropped"
    by code_simp
  have p: "(443 :: u16) \<noteq> 53" by simp
  show ?thesis unfolding accepted_routes_by_name [OF r f h p] by (rule o)
qed

inductive lifecycle_step :: "lifecycle \<Rightarrow> lifecycle \<Rightarrow> bool" where
  node_changed: "lifecycle_step lc (bump_generation lc)"
| stopped: "lifecycle_step lc (request_stop lc)"

inductive_simps lifecycle_step_simps: "lifecycle_step lc lc'"

definition tokens_ok :: "lifecycle \<Rightarrow> bool" where
  "tokens_ok lc \<longleftrightarrow> relay_token lc < next_token lc \<and> (\<forall>t \<in> set (cancelled_tokens lc). t < next_token lc)
     \<and> (root_cancelled lc \<or> relay_token lc \<notin> set (cancelled_tokens lc))"

lemma tokens_ok_step: "lifecycle_step lc lc' \<Longrightarrow> tokens_ok lc \<Longrightarrow> tokens_ok lc'"
  by (auto simp: tokens_ok_def lifecycle_step_simps bump_generation_def request_stop_def Let_def less_Suc_eq)

lemma tokens_ok_reachable: "lifecycle_step\<^sup>*\<^sup>* lifecycle_new lc \<Longrightarrow> tokens_ok lc"
proof (induction rule: rtranclp_induct)
  case base
  show ?case by (simp add: tokens_ok_def lifecycle_new_def)
qed (rule tokens_ok_step)

lemma step_cancels: "lifecycle_step lc lc' \<Longrightarrow> token_cancelled lc' (relay_token lc)"
  by (auto simp: lifecycle_step_simps token_cancelled_def bump_generation_def request_stop_def Let_def)

lemma step_keeps_cancelled: "lifecycle_step lc lc' \<Longrightarrow> token_cancelled lc t \<Longrightarrow> token_cancelled lc' t"
  by (auto simp: lifecycle_step_simps token_cancelled_def bump_generation_def request_stop_def Let_def)

lemma steps_keep_cancelled: "lifecycle_step\<^sup>*\<^sup>* lc lc' \<Longrightarrow> token_cancelled lc t \<Longrightarrow> token_cancelled lc' t"
  by (induction rule: rtranclp_induct) (auto intro: step_keeps_cancelled)

text \<open>
  C7: a connection accepted while the stack runs is live until the next node change or stop and
  stale ever after, however many node changes follow (also when the 64-bit generation counter
  returns to the recorded value, since the recorded token stays cancelled).
\<close>

theorem stale_exactly_after_change:
  assumes "lifecycle_step\<^sup>*\<^sup>* lifecycle_new lc" "\<not> root_cancelled lc"
  shows "\<not> is_stale lc (accept_snapshot lc)
    \<and> (lifecycle_step\<^sup>+\<^sup>+ lc lc' \<longrightarrow> is_stale lc' (accept_snapshot lc) \<and> token_cancelled lc' (relay_token lc))"
proof -
  have "token_cancelled lc' (relay_token lc)" if "lifecycle_step\<^sup>+\<^sup>+ lc lc'"
  proof -
    from that obtain m where "lifecycle_step lc m" "lifecycle_step\<^sup>*\<^sup>* m lc'"
      by (blast dest: tranclpD)
    then show ?thesis using step_cancels steps_keep_cancelled by blast
  qed
  then show ?thesis
    using tokens_ok_reachable [OF assms(1)] assms(2)
    by (auto simp: is_stale_def accept_snapshot_def token_cancelled_def tokens_ok_def)
qed

theorem stale_exactly_after_change_witness:
  "\<not> is_stale lifecycle_new (accept_snapshot lifecycle_new)
   \<and> is_stale (bump_generation lifecycle_new) (accept_snapshot lifecycle_new)"
proof -
  have "lifecycle_step\<^sup>+\<^sup>+ lifecycle_new (bump_generation lifecycle_new)"
    by (intro tranclp.r_into_trancl lifecycle_step.node_changed)
  then show ?thesis
    using stale_exactly_after_change [of lifecycle_new "bump_generation lifecycle_new"]
    by (simp add: lifecycle_new_def)
qed

end
