(* ===== verification/FakeCache.thy ===== *)
theory FakeCache
  imports FakeIp
begin

text \<open>
  What the fake address pool of \<^verbatim>\<open>crates/clash-core/src/dns.rs\<close> promises, without its maps and its queue: a
  bounded list of bindings, the most recently used first. The pool with its two hash maps, its queue
  and its cursor implements it: every operation on the pool is the operation on the list.
\<close>

section \<open>The abstract cache\<close>

type_synonym cache = "(rstr \<times> ipv4) list"

definition cache_use :: "rstr \<times> ipv4 \<Rightarrow> cache \<Rightarrow> cache" where
  "cache_use b c = b # filter (\<lambda>x. x \<noteq> b) c"

text \<open>A name that is bound keeps its address and becomes the most recent; another one is bound to a
  usable address that is neither bound nor in use, and at most 8191 of the older bindings stay.\<close>

definition cache_assigns :: "(ipv4 \<Rightarrow> bool) \<Rightarrow> rstr \<Rightarrow> ipv4 \<Rightarrow> cache \<Rightarrow> cache \<Rightarrow> bool" where
  "cache_assigns in_use h ip c c' \<longleftrightarrow>
     (case map_of c h of
        Some a \<Rightarrow> ip = a \<and> c' = cache_use (h, a) c
      | None \<Rightarrow>
          usable_ip ip \<and> \<not> in_use ip \<and> ip \<notin> snd ` set (take (POOL_MAX - 1) c) \<and> c' = (h, ip) # take (POOL_MAX - 1) c)"

definition cache_resolve :: "ipv4 \<Rightarrow> cache \<Rightarrow> rstr option \<times> cache" where
  "cache_resolve ip c =
     (case List.find (\<lambda>b. snd b = ip) c of
        None \<Rightarrow> (None, c)
      | Some b \<Rightarrow> (Some (fst b), cache_use b c))"

section \<open>The pool as a cache\<close>

definition bind_of :: "fake_pool \<Rightarrow> rstr \<Rightarrow> rstr \<times> ipv4" where
  "bind_of p h = (h, the (hm_get (host_ip p) h))"

definition cache_of :: "fake_pool \<Rightarrow> cache" where
  "cache_of p = map (bind_of p) (lru p)"

lemma pool_okD:
  assumes "pool_ok p"
  shows "hm_get (host_ip p) h = Some ip \<longleftrightarrow> hm_get (ip_host p) ip = Some h" "distinct (lru p)"
    "h \<in> set (lru p) \<longleftrightarrow> hm_get (host_ip p) h \<noteq> None" "length (lru p) \<le> POOL_MAX"
  using assms lru_iff [OF assms] by (simp_all add: pool_ok_def)

lemma map_of_cache: "pool_ok p \<Longrightarrow> map_of (cache_of p) h = hm_get (host_ip p) h"
proof -
  assume ok: "pool_ok p"
  have "map_of (map (bind_of p) hs) h = (if h \<in> set hs then Some (the (hm_get (host_ip p) h)) else None)" for hs
    by (induction hs) (auto simp: bind_of_def)
  then show ?thesis using pool_okD(3) [OF ok, of h] by (auto simp: cache_of_def)
qed

lemma find_cache:
  assumes ok: "pool_ok p"
  shows "List.find (\<lambda>b. snd b = ip) (cache_of p) = map_option (\<lambda>h. (h, ip)) (hm_get (ip_host p) ip)"
proof -
  have bound: "the (hm_get (host_ip p) h) = ip \<longleftrightarrow> hm_get (ip_host p) ip = Some h" if "h \<in> set (lru p)" for h
    using that pool_okD(1) [OF ok, of h] pool_okD(3) [OF ok, of h] by (metis option.collapse option.sel)
  have "List.find (\<lambda>b. snd b = ip) (map (bind_of p) hs)
      = (case hm_get (ip_host p) ip of Some h \<Rightarrow> if h \<in> set hs then Some (h, ip) else None | None \<Rightarrow> None)"
    if "set hs \<subseteq> set (lru p)" for hs
    using that by (induction hs) (auto simp: bind_of_def bound split: option.splits)
  from this [of "lru p"] show ?thesis
    using pool_okD(1,3) [OF ok] by (auto simp: cache_of_def split: option.splits)
qed

lemma cache_of_touch:
  assumes ok: "pool_ok p" and h: "hm_get (host_ip p) h = Some ip"
  shows "cache_of (touch h p) = cache_use (h, ip) (cache_of p)"
proof -
  have "h \<in> set (lru p)" using pool_okD(3) [OF ok] h by simp
  moreover have "remove1 h (lru p) = filter (\<lambda>x. x \<noteq> h) (lru p)"
    using pool_okD(2) [OF ok] by (simp add: distinct_remove1_removeAll removeAll_filter_not_eq eq_commute)
  moreover have "filter (\<lambda>x. x \<noteq> (h, ip)) (map (bind_of p) hs) = map (bind_of p) (filter (\<lambda>x. x \<noteq> h) hs)" for hs
    using h by (induction hs) (auto simp: bind_of_def)
  ultimately show ?thesis using h by (simp add: cache_of_def cache_use_def touch_def) (simp add: bind_of_def)
qed

lemma cache_of_evict:
  assumes ok: "pool_ok p" and ne: "lru p \<noteq> []"
  shows "cache_of (evict p) = butlast (cache_of p)"
proof -
  have "last (lru p) \<notin> set (butlast (lru p))"
    using pool_okD(2) [OF ok] ne by (metis append_butlast_last_id not_distinct_conv_prefix distinct_append list.set_intros(1) disjoint_iff)
  then have "bind_of (evict p) h = bind_of p h" if "h \<in> set (butlast (lru p))" for h
    using that ne by (auto simp: evict_def bind_of_def Let_def split: option.splits)
  moreover have "lru (evict p) = butlast (lru p)" using ne by (simp add: evict_def Let_def split: option.splits)
  ultimately show ?thesis by (simp add: cache_of_def flip: map_butlast)
qed

lemma cache_of_make_room:
  assumes ok: "pool_ok p"
  shows "cache_of (make_room p) = take (POOL_MAX - 1) (cache_of p)"
proof -
  have l: "length (cache_of p) = length (lru p)" "length (lru p) \<le> POOL_MAX"
    using pool_okD(4) [OF ok] by (simp_all add: cache_of_def)
  show ?thesis
  proof (cases "length (lru p) = POOL_MAX")
    case True
    then have "lru p \<noteq> []" by (auto simp: POOL_MAX_def)
    then show ?thesis using True l cache_of_evict [OF ok] len_host_ip [OF ok] by (simp add: make_room_def butlast_conv_take)
  next
    case False
    then show ?thesis using l len_host_ip [OF ok] by (simp add: make_room_def)
  qed
qed

lemma bound_addresses: "pool_ok p \<Longrightarrow> ip \<in> snd ` set (cache_of p) \<longleftrightarrow> hm_get (ip_host p) ip \<noteq> None"
proof -
  assume ok: "pool_ok p"
  have "ip \<in> snd ` set (cache_of p) \<longleftrightarrow> (\<exists>h \<in> set (lru p). the (hm_get (host_ip p) h) = ip)"
    by (simp add: cache_of_def bind_of_def image_iff eq_commute)
  then show ?thesis using pool_okD(1,3) [OF ok] by (metis option.distinct(1) option.exhaust_sel option.sel)
qed

section \<open>The refinement\<close>

text \<open>
  C9: The pool implements the cache. As long as at most 55536 addresses are in use, a lookup is an
  assignment of the cache to the normalised name, and in every case resolving an address is resolving
  it in the cache: same answer, same bindings, same order of recent use.
\<close>

theorem fake_pool_refines_cache:
  assumes "pool_reachable idna p" "finite U" "card U \<le> 55536" "\<forall>ip. in_use ip \<longrightarrow> ip \<in> U"
  shows "(case lookup_avoiding idna host in_use p of
      (ip, p') \<Rightarrow> cache_assigns in_use (domain_to_ascii idna host) ip (cache_of p) (cache_of p'))
    \<and> cache_resolve a (cache_of p) = (case lookback a p of (h, p') \<Rightarrow> (h, cache_of p'))"
proof (rule conjI)
  let ?h = "domain_to_ascii idna host"
  have ok: "pool_ok p" by (rule reachable_ok [OF assms(1)])
  obtain ip p' where l: "lookup_avoiding idna host in_use p = (ip, p')" by fastforce
  have b: "usable_ip ip" "hm_get (host_ip p) ?h = None \<longrightarrow> \<not> in_use ip" "hm_get (host_ip p') ?h = Some ip"
    using lookup_avoiding_binds [OF ok assms(2,3) _ l] assms(4) by blast+
  from ok l have "cache_assigns in_use ?h ip (cache_of p) (cache_of p')"
  proof (cases rule: lookup_avoiding_cases)
    case known
    then show ?thesis using map_of_cache [OF ok] cache_of_touch [OF ok known(1)] by (simp add: cache_assigns_def)
  next
    case (fresh nx)
    note room = make_room_ok [OF ok]
    have "hm_get (ip_host (make_room p)) ip = None"
      using alloc_loop_spec [OF _ fresh(2)] room unfolding pool_ok_def by blast
    then have free: "ip \<notin> snd ` set (take (POOL_MAX - 1) (cache_of p))"
      using bound_addresses [of "make_room p" ip] room cache_of_make_room [OF ok] by simp
    have "?h \<notin> set (lru (make_room p))"
      using make_room_absent [OF ok fresh(1)] pool_okD(3) [of "make_room p"] room by simp
    then have "bind_of p' x = bind_of (make_room p) x" if "x \<in> set (lru (make_room p))" for x
      using that fresh(3) by (auto simp: bind_of_def)
    then have "cache_of p' = (?h, ip) # cache_of (make_room p)"
      using fresh(3) by (simp add: cache_of_def) (simp add: bind_of_def)
    then show ?thesis
      using b(1,2) fresh(1) free map_of_cache [OF ok] cache_of_make_room [OF ok] by (simp add: cache_assigns_def)
  next
    case (full nx)
    then show ?thesis using make_room_absent [OF ok full(1)] b(3) by simp
  qed
  then show "case lookup_avoiding idna host in_use p of
      (ip, p') \<Rightarrow> cache_assigns in_use ?h ip (cache_of p) (cache_of p')" using l by simp
  show "cache_resolve a (cache_of p) = (case lookback a p of (h, p') \<Rightarrow> (h, cache_of p'))"
  proof (cases "hm_get (ip_host p) a")
    case None
    then show ?thesis using find_cache [OF ok] by (simp add: cache_resolve_def lookback_def)
  next
    case (Some h)
    then have "hm_get (host_ip p) h = Some a" using pool_okD(1) [OF ok] by simp
    then show ?thesis using Some find_cache [OF ok] cache_of_touch [OF ok] by (simp add: cache_resolve_def lookback_def)
  qed
qed

theorem fake_pool_refines_cache_witness:
  "case lookup_avoiding (\<lambda>h. None) ''a.com'' (\<lambda>ip. ip = Ipv4 198 18 0 4) pool_new of
     (ip, p') \<Rightarrow> cache_assigns (\<lambda>ip. ip = Ipv4 198 18 0 4) (domain_to_ascii (\<lambda>h. None) ''a.com'') ip [] (cache_of p')"
proof -
  have "cache_of pool_new = []" by (simp add: cache_of_def pool_new_def)
  then show ?thesis
    using fake_pool_refines_cache [OF pool_reachable.start, of "{Ipv4 198 18 0 4}" "\<lambda>ip. ip = Ipv4 198 18 0 4" "\<lambda>h. None" "''a.com''"]
    by simp
qed

end
