(* ===== verification/ProxyIo.thy ===== *)
theory ProxyIo
  imports IpAddr
begin

text \<open>
  What the outbound protocols of \<^verbatim>\<open>crates/clash-proxynet\<close> share: their error codes
  (\<^verbatim>\<open>error.rs\<close>), byte buffers written in place with Rust's bounds checks (a write outside the
  buffer is \<open>Panic\<close>), a connection as a pair of byte queues for the handshakes that run with
  \<^verbatim>\<open>write_all\<close> and \<^verbatim>\<open>read_exact\<close>, and an inner stream that delivers its bytes in arbitrary
  pieces for the layers written against \<^verbatim>\<open>poll_read\<close>.
\<close>

datatype proxy_error_code =
    AuthRequired
  | AuthFailed
  | ConnectionFailed
  | InvalidResponse
  | Timeout
  | StringTooLong
  | TransportUpgradeFailed

datatype fault = Fault proxy_error_code | Panic

section \<open>Buffers\<close>

text \<open>\<^verbatim>\<open>buf[off..off + src.len()].copy_from_slice(src)\<close> with its bounds check.\<close>

definition checked_put :: "nat \<Rightarrow> bytes \<Rightarrow> bytes \<Rightarrow> fault + bytes" where
  "checked_put off src buf =
     (if off + length src \<le> length buf then Inr (put_at off src buf) else Inl Panic)"

text \<open>A buffer whose first bytes have been filled.\<close>

lemma checked_put_prefix:
  assumes "off = length pre" "length pre + length src \<le> length buf" "take off buf = pre"
  shows "checked_put off src buf = Inr (put_at off src buf)
    \<and> take (off + length src) (put_at off src buf) = pre @ src
    \<and> length (put_at off src buf) = length buf"
  using assms by (simp add: checked_put_def put_at_def)

section \<open>Handshakes\<close>

text \<open>\<open>inbox\<close> is what the peer will still send before it closes, \<open>outbox\<close> what was written.\<close>

record conn =
  inbox :: bytes
  outbox :: bytes

type_synonym 'a io = "conn \<Rightarrow> (fault + 'a) \<times> conn"

definition io_ok :: "'a \<Rightarrow> 'a io" where
  "io_ok a c = (Inr a, c)"

definition io_fail :: "fault \<Rightarrow> 'a io" where
  "io_fail f c = (Inl f, c)"

definition io_bind :: "'a io \<Rightarrow> ('a \<Rightarrow> 'b io) \<Rightarrow> 'b io" where
  "io_bind m f c = (case m c of (Inl e, c) \<Rightarrow> (Inl e, c) | (Inr a, c) \<Rightarrow> f a c)"

definition io_lift :: "fault + 'a \<Rightarrow> 'a io" where
  "io_lift r c = (r, c)"

definition write_all :: "bytes \<Rightarrow> unit io" where
  "write_all bs c = (Inr (), c\<lparr>outbox := outbox c @ bs\<rparr>)"

text \<open>A peer that closes early makes \<^verbatim>\<open>read_exact\<close> fail; the error becomes \<open>ConnectionFailed\<close>.\<close>

definition read_exact :: "nat \<Rightarrow> bytes io" where
  "read_exact n c =
     (if length (inbox c) < n then (Inl (Fault ConnectionFailed), c\<lparr>inbox := []\<rparr>)
      else (Inr (take n (inbox c)), c\<lparr>inbox := drop n (inbox c)\<rparr>))"

lemma io_simps [simp]:
  "io_bind (io_ok a) f = f a"
  "io_bind (io_fail e) f = io_fail e"
  "io_bind (io_lift (Inr a)) f = f a"
  "io_bind (io_lift (Inl e)) f = io_fail e"
  "io_ok a c = (Inr a, c)"
  "io_fail e c = (Inl e, c)"
  by (simp_all add: io_bind_def io_ok_def io_fail_def io_lift_def fun_eq_iff)

lemma bind_write_all [simp]: "io_bind (write_all bs) f c = f () (c\<lparr>outbox := outbox c @ bs\<rparr>)"
  by (simp add: io_bind_def write_all_def)

lemma bind_read_exact:
  "io_bind (read_exact n) f c =
     (if length (inbox c) < n then (Inl (Fault ConnectionFailed), c\<lparr>inbox := []\<rparr>)
      else f (take n (inbox c)) (c\<lparr>inbox := drop n (inbox c)\<rparr>))"
  by (simp add: io_bind_def read_exact_def)

text \<open>An operation that only appends to what was written and only consumes what is to be read.\<close>

definition io_mono :: "'a io \<Rightarrow> bool" where
  "io_mono m \<longleftrightarrow> (\<forall>c. \<exists>sent used. outbox (snd (m c)) = outbox c @ sent \<and> inbox c = used @ inbox (snd (m c)))"

lemma io_mono_write_all: "io_mono (write_all bs)"
  by (simp add: io_mono_def write_all_def)

lemma io_mono_read_exact: "io_mono (read_exact n)"
  unfolding io_mono_def read_exact_def
  by (auto simp: intro: append_take_drop_id [symmetric])

lemma io_mono_ok: "io_mono (io_ok a)" "io_mono (io_fail e)" "io_mono (io_lift r)"
  by (simp_all add: io_mono_def io_lift_def)

lemma io_mono_bind:
  assumes "io_mono m" "\<And>a. io_mono (f a)"
  shows "io_mono (io_bind m f)"
proof (unfold io_mono_def, rule allI)
  fix c
  obtain r c1 where m: "m c = (r, c1)" by fastforce
  obtain s1 u1 where 1: "outbox c1 = outbox c @ s1" "inbox c = u1 @ inbox c1"
    using assms(1) m unfolding io_mono_def by (metis snd_conv)
  show "\<exists>sent used. outbox (snd (io_bind m f c)) = outbox c @ sent \<and> inbox c = used @ inbox (snd (io_bind m f c))"
  proof (cases r)
    case (Inl e)
    then show ?thesis using 1 m by (auto simp: io_bind_def)
  next
    case (Inr a)
    obtain s2 u2 where "outbox (snd (f a c1)) = outbox c1 @ s2" "inbox c1 = u2 @ inbox (snd (f a c1))"
      using assms(2) [of a] unfolding io_mono_def by blast
    then show ?thesis using 1 m Inr by (auto simp: io_bind_def)
  qed
qed

lemmas io_mono_intros = io_mono_write_all io_mono_read_exact io_mono_ok io_mono_bind

section \<open>Inner streams\<close>

text \<open>
  What the next polls of a stream will find: bytes that have arrived, a moment with nothing to
  read, an error; at the end of the list the peer has closed. A read takes at most the
  capacity of its buffer from the pieces that arrived.
\<close>

datatype arrival = Data bytes | Wait | Broken

type_synonym inner_stream = "arrival list"

text \<open>\<open>Panicked\<close> stands for a panic inside the poll, which unwinds the task.\<close>

datatype io_error_kind = UnexpectedEof | InvalidData | WriteZero | OtherError | Panicked

datatype 'a poll = Ready 'a | Pending | Failed io_error_kind

text \<open>A failed decryption is an error of the stream, a panic stays one.\<close>

fun io_of :: "fault \<Rightarrow> io_error_kind" where
  "io_of Panic = Panicked"
| "io_of (Fault _) = OtherError"

fun inner_read :: "nat \<Rightarrow> inner_stream \<Rightarrow> bytes poll \<times> inner_stream" where
  "inner_read cap [] = (Ready [], [])"
| "inner_read cap (Wait # es) = (Pending, es)"
| "inner_read cap (Broken # es) = (Failed OtherError, es)"
| "inner_read cap (Data bs # es) =
     (if bs = [] then inner_read cap es
      else if length bs \<le> cap then (Ready bs, es)
      else (Ready (take cap bs), Data (drop cap bs) # es))"

text \<open>All bytes still to come.\<close>

fun arriving :: "inner_stream \<Rightarrow> bytes" where
  "arriving [] = []"
| "arriving (Data bs # es) = bs @ arriving es"
| "arriving (Wait # es) = arriving es"
| "arriving (Broken # es) = arriving es"

lemma inner_read_arriving:
  "inner_read cap es = (r, es') \<Longrightarrow>
   arriving es = (case r of Ready bs \<Rightarrow> bs @ arriving es' | _ \<Rightarrow> arriving es')"
  by (induction cap es arbitrary: r es' rule: inner_read.induct) (auto split: if_splits)

lemma inner_read_cap: "inner_read cap es = (Ready bs, es') \<Longrightarrow> length bs \<le> cap"
  by (induction cap es rule: inner_read.induct) (auto split: if_splits)

lemma inner_read_eof: "0 < cap \<Longrightarrow> inner_read cap es = (Ready [], es') \<Longrightarrow> arriving es = [] \<and> es' = []"
  by (induction cap es rule: inner_read.induct) (auto split: if_splits)

fun stream_size :: "inner_stream \<Rightarrow> nat" where
  "stream_size [] = 0"
| "stream_size (Data bs # es) = Suc (length bs) + stream_size es"
| "stream_size (Wait # es) = Suc (stream_size es)"
| "stream_size (Broken # es) = Suc (stream_size es)"

lemma inner_read_shrinks:
  "0 < cap \<Longrightarrow> inner_read cap es = (r, es') \<Longrightarrow> es \<noteq> [] \<Longrightarrow> stream_size es' < stream_size es"
  by (induction cap es arbitrary: r es' rule: inner_read.induct) (fastforce split: if_splits)+


lemma inner_read_size:
  "inner_read cap es = (Ready bs, es') \<Longrightarrow> stream_size es' + length bs \<le> stream_size es"
  by (induction cap es rule: inner_read.induct) (fastforce split: if_splits)+

text \<open>A stream that never fails, and how often it has nothing to read.\<close>

definition unbroken :: "inner_stream \<Rightarrow> bool" where
  "unbroken es \<longleftrightarrow> Broken \<notin> set es"

fun waits :: "inner_stream \<Rightarrow> nat" where
  "waits [] = 0"
| "waits (Wait # es) = Suc (waits es)"
| "waits (e # es) = waits es"

lemma inner_read_unbroken:
  "unbroken es \<Longrightarrow> inner_read cap es = (r, es') \<Longrightarrow>
   unbroken es' \<and> (\<forall>e. r \<noteq> Failed e) \<and> waits es' \<le> waits es \<and> (r = Pending \<longrightarrow> waits es' < waits es)"
proof (induction cap es rule: inner_read.induct)
  case (4 cap bs es)
  show ?case
  proof (cases "bs = []")
    case True
    then show ?thesis using 4 by (simp add: unbroken_def)
  next
    case False
    then show ?thesis using 4 by (auto simp: unbroken_def split: if_splits)
  qed
qed (auto simp: unbroken_def)

lemma inner_read_got: "inner_read cap es = (Ready bs, es') \<Longrightarrow> bs \<noteq> [] \<Longrightarrow> stream_size es' < stream_size es"
  using inner_read_size [of cap es bs es'] by (cases bs) auto

text \<open>\<^verbatim>\<open>stream.read(..).await\<close> waits until something has arrived.\<close>

fun await_read :: "nat \<Rightarrow> inner_stream \<Rightarrow> (io_error_kind + bytes) \<times> inner_stream" where
  "await_read cap [] = (Inr [], [])"
| "await_read cap (Wait # es) = await_read cap es"
| "await_read cap (Broken # es) = (Inl OtherError, es)"
| "await_read cap (Data bs # es) =
     (if bs = [] then await_read cap es
      else if length bs \<le> cap then (Inr bs, es)
      else (Inr (take cap bs), Data (drop cap bs) # es))"

lemma await_read_shrinks:
  "0 < cap \<Longrightarrow> await_read cap es = (Inr bs, es') \<Longrightarrow> bs \<noteq> [] \<Longrightarrow> stream_size es' < stream_size es"
  by (induction cap es rule: await_read.induct) (fastforce split: if_splits)+

lemma await_read_spec:
  assumes "unbroken es" "0 < cap" "await_read cap es = (r, es')"
  shows "unbroken es'" "waits es' \<le> waits es"
    "\<exists>bs. r = Inr bs \<and> arriving es = bs @ arriving es' \<and> (bs = [] \<longrightarrow> arriving es = [])"
proof -
  have "unbroken es' \<and> waits es' \<le> waits es \<and>
    (\<exists>bs. r = Inr bs \<and> arriving es = bs @ arriving es' \<and> (bs = [] \<longrightarrow> arriving es = []))"
    using assms by (induction cap es rule: await_read.induct) (auto simp: unbroken_def split: if_splits)
  then show "unbroken es'" "waits es' \<le> waits es"
    "\<exists>bs. r = Inr bs \<and> arriving es = bs @ arriving es' \<and> (bs = [] \<longrightarrow> arriving es = [])" by blast+
qed

section \<open>Layered readers\<close>

text \<open>
  A layer that decodes an inner stream offers the same \<^verbatim>\<open>poll_read\<close>. Its contract: a state
  \<open>owes\<close> its reader some bytes, a read with room hands out a prefix of them, hands out nothing
  only when nothing is owed, never fails, and waits only as often as the inner stream does.
\<close>

definition step_delivers ::
  "('s \<Rightarrow> bytes \<Rightarrow> bool) \<Rightarrow> ('s \<Rightarrow> nat) \<Rightarrow> bytes \<Rightarrow> 's \<Rightarrow> bytes poll \<Rightarrow> 's \<Rightarrow> bool" where
  "step_delivers owes waiting pl s r s' \<longleftrightarrow> waiting s' \<le> waiting s \<and>
     (case r of
        Ready bs \<Rightarrow> (\<exists>pl'. pl = bs @ pl' \<and> owes s' pl') \<and> (bs = [] \<longrightarrow> pl = [])
      | Pending \<Rightarrow> owes s' pl \<and> waiting s' < waiting s
      | Failed e \<Rightarrow> False)"

fun read_many :: "(nat \<Rightarrow> 's \<Rightarrow> bytes poll \<times> 's) \<Rightarrow> nat list \<Rightarrow> 's \<Rightarrow> bytes poll list \<times> 's" where
  "read_many read [] s = ([], s)"
| "read_many read (cap # caps) s =
     (case read cap s of (r, s) \<Rightarrow> (case read_many read caps s of (rs, s) \<Rightarrow> (r # rs, s)))"

fun delivered :: "bytes poll list \<Rightarrow> bytes" where
  "delivered [] = []"
| "delivered (Ready bs # rs) = bs @ delivered rs"
| "delivered (r # rs) = delivered rs"

locale layered_reader =
  fixes read :: "nat \<Rightarrow> 's \<Rightarrow> bytes poll \<times> 's"
    and owes :: "'s \<Rightarrow> bytes \<Rightarrow> bool"
    and waiting :: "'s \<Rightarrow> nat"
  assumes step: "owes s pl \<Longrightarrow> 0 < cap \<Longrightarrow> read cap s = (r, s') \<Longrightarrow> step_delivers owes waiting pl s r s'"
begin

lemma read_many_delivers:
  assumes "owes s pl" "\<forall>c \<in> set caps. 0 < c" "read_many read caps s = (rs, s')"
  shows "(\<forall>e. Failed e \<notin> set rs) \<and> (\<exists>pl'. pl = delivered rs @ pl' \<and> owes s' pl')
    \<and> (Ready [] \<in> set rs \<longrightarrow> delivered rs = pl)
    \<and> (length pl + waiting s < length caps \<longrightarrow> Ready [] \<in> set rs)"
  using assms
proof (induction caps arbitrary: s pl rs)
  case (Cons cap caps)
  obtain r w where p: "read cap s = (r, w)" by fastforce
  obtain rs1 where q: "read_many read caps w = (rs1, s')" "rs = r # rs1"
    using Cons.prems(3) p by (auto split: prod.splits)
  have d: "step_delivers owes waiting pl s r w" using step [OF Cons.prems(1) _ p] Cons.prems(2) by simp
  show ?case
  proof (cases r)
    case (Ready bs)
    then obtain pl1 where pl1: "pl = bs @ pl1" "owes w pl1" and e: "bs = [] \<Longrightarrow> pl = []"
      and wt: "waiting w \<le> waiting s" using d by (auto simp: step_delivers_def)
    note ih = Cons.IH [OF pl1(2) _ q(1)]
    have "length pl + waiting s < length (cap # caps) \<Longrightarrow> bs \<noteq> [] \<Longrightarrow>
        length pl1 + waiting w < length caps"
      using wt pl1(1) by (cases bs) auto
    then show ?thesis using ih Cons.prems(2) q(2) Ready pl1(1) e by (cases "bs = []") auto
  next
    case Pending
    then have x: "owes w pl" "waiting w < waiting s" using d by (auto simp: step_delivers_def)
    show ?thesis using Cons.IH [OF x(1) _ q(1)] Cons.prems(2) q(2) Pending x(2) by auto
  next
    case (Failed e)
    then show ?thesis using d by (simp add: step_delivers_def)
  qed
qed auto

lemma read_to_end:
  assumes "owes s pl" "\<forall>c \<in> set caps. 0 < c" "read_many read caps s = (rs, s')"
  shows "\<forall>e. Failed e \<notin> set rs" "\<exists>pl'. pl = delivered rs @ pl'"
    "Ready [] \<in> set rs \<Longrightarrow> delivered rs = pl"
    "length pl + waiting s < length caps \<Longrightarrow> delivered rs = pl"
  using read_many_delivers [OF assms] by blast+

end

text \<open>The inner stream itself is such a reader.\<close>

definition stream_owes :: "inner_stream \<Rightarrow> bytes \<Rightarrow> bool" where
  "stream_owes es pl \<longleftrightarrow> unbroken es \<and> pl = arriving es"

interpretation inner: layered_reader inner_read stream_owes waits
proof (unfold_locales, goal_cases)
  case (1 es pl cap r es')
  then show ?case
    using inner_read_unbroken [of es cap r es'] inner_read_arriving [of cap es r es'] inner_read_eof [of cap es es']
    by (cases r) (auto simp: step_delivers_def stream_owes_def)
qed

end
