(* ===== verification/ProxyWire.thy ===== *)
theory ProxyWire
  imports ProxyIo Utf8
begin

text \<open>
  The request formats of the outbound protocols (\<^verbatim>\<open>crates/clash-proxynet/src\<close>):
  \<^verbatim>\<open>address.rs\<close>, \<^verbatim>\<open>crypto.rs\<close> (user ids and the password digest; the hash functions are
  arguments), \<^verbatim>\<open>options.rs\<close>, \<^verbatim>\<open>trojan.rs\<close>, \<^verbatim>\<open>vless.rs\<close>, \<^verbatim>\<open>socks.rs\<close> and
  \<^verbatim>\<open>http_connect.rs\<close>. Each request is shown to be what a server of the protocol reads back, the
  SOCKS5 dial against an independent server reader, and no write leaves the buffers the callers
  allocate. The HTTP CONNECT dial is read back by the proxy of this program in \<open>Inbound\<close>.
\<close>

section \<open>Options\<close>

datatype vless_security = Sec_none | Sec_tls | Sec_reality

record vless_options =
  vl_id :: rstr
  vl_host :: rstr
  vl_port :: u16
  vl_security :: vless_security
  vl_transport :: rstr
  vl_path :: "rstr option"
  vl_host_header :: "rstr option"
  vl_sni :: "rstr option"
  vl_alpn :: "rstr list"
  vl_flow :: "rstr option"
  vl_fingerprint :: "rstr option"
  vl_reality_public_key :: "rstr option"
  vl_reality_short_id :: "rstr option"
  vl_allow_insecure :: bool

record trojan_options =
  tr_password :: rstr
  tr_host :: rstr
  tr_port :: u16
  tr_transport :: rstr
  tr_path :: "rstr option"
  tr_host_header :: "rstr option"
  tr_sni :: "rstr option"
  tr_alpn :: "rstr list"
  tr_allow_insecure :: bool

record ss_options =
  ss_method :: rstr
  ss_password :: rstr
  ss_host :: rstr
  ss_port :: u16
  ss_plugin :: "rstr option"
  ss_plugin_opts :: "rstr option"
  ss_transport :: rstr
  ss_path :: "rstr option"
  ss_host_header :: "rstr option"
  ss_sni :: "rstr option"
  ss_alpn :: "rstr list"
  ss_allow_insecure :: bool
  ss_tls :: bool

record vmess_options =
  vm_id :: rstr
  vm_security :: rstr
  vm_alter_id :: u16
  vm_host :: rstr
  vm_port :: u16
  vm_transport :: rstr
  vm_path :: "rstr option"
  vm_host_header :: "rstr option"
  vm_sni :: "rstr option"
  vm_alpn :: "rstr list"
  vm_allow_insecure :: bool
  vm_tls :: bool

record proxy_auth =
  username :: "rstr option"
  password :: "rstr option"

datatype outbound_kind =
    Vless vless_options
  | Trojan trojan_options
  | Shadowsocks ss_options
  | Vmess vmess_options
  | Socks5 proxy_auth
  | Http proxy_auth

definition sni_or_host :: "rstr option \<Rightarrow> rstr option \<Rightarrow> rstr \<Rightarrow> rstr" where
  "sni_or_host sni host_header host = unwrap_or host (or_else sni host_header)"

definition vless_sni :: "vless_options \<Rightarrow> rstr" where
  "vless_sni o' = sni_or_host (vl_sni o') (vl_host_header o') (vl_host o')"

definition trojan_sni :: "trojan_options \<Rightarrow> rstr" where
  "trojan_sni o' = sni_or_host (tr_sni o') (tr_host_header o') (tr_host o')"

definition ss_sni_or_host :: "ss_options \<Rightarrow> rstr" where
  "ss_sni_or_host o' = sni_or_host (ss_sni o') (ss_host_header o') (ss_host o')"

definition vmess_sni :: "vmess_options \<Rightarrow> rstr" where
  "vmess_sni o' = sni_or_host (vm_sni o') (vm_host_header o') (vm_host o')"

definition vmess_aead :: "vmess_options \<Rightarrow> bool" where
  "vmess_aead o' \<longleftrightarrow> vm_alter_id o' = 0"

definition body_security :: "vmess_options \<Rightarrow> rstr" where
  "body_security o' =
     (let s = lowercase (trim (vm_security o')) in
      if s = ''aes-128-gcm'' \<or> s = ''auto'' \<or> s = [] then ''aes-128-gcm''
      else if s = ''chacha20-poly1305'' \<or> s = ''chacha20-ietf-poly1305'' then ''chacha20-poly1305''
      else s)"

section \<open>Addresses\<close>

definition MAX_LENGTH :: nat where "MAX_LENGTH = 1 + 1 + 255"

text \<open>The number of bytes written, and the buffer.\<close>

definition write_type_and_address ::
  "rstr \<Rightarrow> u8 \<Rightarrow> u8 \<Rightarrow> u8 \<Rightarrow> bytes \<Rightarrow> fault + nat \<times> bytes" where
  "write_type_and_address host ipv4_type domain_type ipv6_type dest =
     (case parse_ip host of
        Some (V4 v4) \<Rightarrow>
          bind_result (checked_put 0 [ipv4_type] dest) (\<lambda>dest.
          bind_result (checked_put 1 (octets v4) dest) (\<lambda>dest. Inr (5, dest)))
      | Some (V6 v6) \<Rightarrow>
          bind_result (checked_put 0 [ipv6_type] dest) (\<lambda>dest.
          bind_result (checked_put 1 (octets6 v6) dest) (\<lambda>dest. Inr (17, dest)))
      | None \<Rightarrow>
          bind_result (checked_put 0 [domain_type] dest) (\<lambda>dest.
          if 255 < length host then Inl (Fault StringTooLong)
          else
            bind_result (checked_put 1 [word_of_nat (length host)] dest) (\<lambda>dest.
            bind_result (checked_put 2 (as_bytes host) dest) (\<lambda>dest. Inr (2 + length host, dest)))))"

definition write_socks_port_last :: "rstr \<Rightarrow> u16 \<Rightarrow> bytes \<Rightarrow> fault + nat \<times> bytes" where
  "write_socks_port_last host port dest =
     bind_result (write_type_and_address host 1 3 4 dest) (\<lambda>(n, dest).
       if length dest < n + 2 then Inl (Fault StringTooLong)
       else bind_result (checked_put n (to_be16 port) dest) (\<lambda>dest. Inr (n + 2, dest)))"

text \<open>A write into the sub-slice \<^verbatim>\<open>&mut dest[off..]\<close>.\<close>

definition write_address_at ::
  "nat \<Rightarrow> rstr \<Rightarrow> u8 \<Rightarrow> u8 \<Rightarrow> u8 \<Rightarrow> bytes \<Rightarrow> fault + nat \<times> bytes" where
  "write_address_at off host t4 td t6 dest =
     (if length dest < off then Inl Panic
      else bind_result (write_type_and_address host t4 td t6 (drop off dest))
             (\<lambda>(n, rest). Inr (n, take off dest @ rest)))"

definition write_socks_port_first :: "rstr \<Rightarrow> u16 \<Rightarrow> bytes \<Rightarrow> fault + nat \<times> bytes" where
  "write_socks_port_first host port dest =
     (if length dest < 2 then Inl (Fault StringTooLong)
      else
        bind_result (checked_put 0 (to_be16 port) dest) (\<lambda>dest.
        bind_result (write_address_at 2 host 1 3 4 dest) (\<lambda>(n, dest). Inr (n + 2, dest))))"

section \<open>User ids and password digests\<close>

definition UUID_SIZE :: nat where "UUID_SIZE = 16"
definition MAX_DERIVED :: nat where "MAX_DERIVED = 30"

fun hex_decode :: "rstr \<Rightarrow> bytes option" where
  "hex_decode [] = Some []"
| "hex_decode [c] = None"
| "hex_decode (a # b # rest) =
     (case (hex_val a, hex_val b, hex_decode rest) of
        (Some x, Some y, Some bs) \<Rightarrow> Some (word_of_nat (16 * x + y) # bs)
      | _ \<Rightarrow> None)"

definition parse_canonical :: "rstr \<Rightarrow> bytes option" where
  "parse_canonical uid =
     (let hex = filter is_hexdigit uid in
      if length hex \<noteq> 32 then None
      else opt_filter (\<lambda>bs. length bs = 16) (hex_decode hex))"

text \<open>\<open>sha1\<close> is \<^verbatim>\<open>Sha1::digest\<close>.\<close>

definition derive_uuid :: "(bytes \<Rightarrow> bytes) \<Rightarrow> rstr \<Rightarrow> bytes option" where
  "derive_uuid sha1 uid =
     (if MAX_DERIVED * 4 < length uid then None
      else
        (let hash = sha1 (replicate UUID_SIZE 0 @ as_bytes uid);
             dest = take UUID_SIZE hash;
             dest = dest[6 := (dest ! 6 AND 0x0F) OR 0x50];
             dest = dest[8 := (dest ! 8 AND 0x3F) OR 0x80]
         in Some dest))"

definition uuid_write_be :: "(bytes \<Rightarrow> bytes) \<Rightarrow> rstr \<Rightarrow> bytes option" where
  "uuid_write_be sha1 uid =
     (let uid = trim uid in
      if 32 \<le> length uid \<and> length uid \<le> 36 then parse_canonical uid
      else if uid \<noteq> [] \<and> length uid \<le> MAX_DERIVED then derive_uuid sha1 uid
      else None)"

definition SHA224_HEX_SIZE :: nat where "SHA224_HEX_SIZE = 56"

definition hex_lower :: "bytes \<Rightarrow> bytes" where
  "hex_lower d =
     concat (map (\<lambda>b. [byte_of (hex_digit (unat (drop_bit 4 b))), byte_of (hex_digit (unat (b AND 0x0F)))]) d)"

definition sha224_hex_lower :: "(bytes \<Rightarrow> bytes) \<Rightarrow> bytes \<Rightarrow> bytes" where
  "sha224_hex_lower sha224 data = hex_lower (sha224 data)"


section \<open>Trojan\<close>

definition CRLF :: bytes where "CRLF = [13, 10]"

text \<open>\<^verbatim>\<open>trojan.rs: build_request\<close>; \<open>sha224\<close> is \<^verbatim>\<open>Sha224::digest\<close>.\<close>

definition trojan_build_request ::
  "(bytes \<Rightarrow> bytes) \<Rightarrow> rstr \<Rightarrow> rstr \<Rightarrow> u16 \<Rightarrow> bytes \<Rightarrow> fault + nat \<times> bytes" where
  "trojan_build_request sha224 pw host port buffer =
     bind_result (checked_put 0 (sha224_hex_lower sha224 (as_bytes pw)) buffer) (\<lambda>buffer.
     bind_result (checked_put SHA224_HEX_SIZE [13] buffer) (\<lambda>buffer.
     bind_result (checked_put (SHA224_HEX_SIZE + 1) [10] buffer) (\<lambda>buffer.
     let offset = SHA224_HEX_SIZE + 2 in
     bind_result (checked_put offset [1] buffer) (\<lambda>buffer.
     let offset = offset + 1 in
     bind_result (write_address_at offset host 1 3 4 buffer) (\<lambda>(n, buffer).
     let offset = offset + n in
     bind_result (checked_put offset (to_be16 port) buffer) (\<lambda>buffer.
     let offset = offset + 2 in
     bind_result (checked_put offset [13] buffer) (\<lambda>buffer.
     bind_result (checked_put (offset + 1) [10] buffer) (\<lambda>buffer.
     Inr (offset + 2, buffer)))))))))"

definition establish_trojan :: "(bytes \<Rightarrow> bytes) \<Rightarrow> trojan_options \<Rightarrow> rstr \<Rightarrow> u16 \<Rightarrow> unit io" where
  "establish_trojan sha224 opts host port =
     io_bind (io_lift (trojan_build_request sha224 (tr_password opts) host port
         (replicate (SHA224_HEX_SIZE + 2 + 1 + MAX_LENGTH + 2 + 2) 0)))
       (\<lambda>(n, req). write_all (take n req))"

section \<open>VLESS\<close>

definition VISION_FLOW :: rstr where "VISION_FLOW = ''xtls-rprx-vision''"

definition vless_addons :: "bool \<Rightarrow> bytes" where
  "vless_addons vision =
     (if vision then
        (let flow = as_bytes VISION_FLOW in
         [word_of_nat (2 + length flow), 0x0A, word_of_nat (length flow)] @ flow)
      else [0])"

text \<open>\<^verbatim>\<open>vless.rs: build_request\<close>. The addons are written in one step here.\<close>

definition vless_build_request ::
  "(bytes \<Rightarrow> bytes) \<Rightarrow> rstr \<Rightarrow> rstr \<Rightarrow> u16 \<Rightarrow> bool \<Rightarrow> bytes \<Rightarrow> fault + nat \<times> bytes" where
  "vless_build_request sha1 uid host port vision buffer =
     bind_result (checked_put 0 [0] buffer) (\<lambda>buffer.
     case uuid_write_be sha1 uid of
       None \<Rightarrow> Inl (Fault AuthRequired)
     | Some uuid \<Rightarrow>
         bind_result (checked_put 1 uuid buffer) (\<lambda>buffer.
         let offset = 1 + UUID_SIZE in
         bind_result (checked_put offset (vless_addons vision) buffer) (\<lambda>buffer.
         let offset = offset + length (vless_addons vision) in
         bind_result (checked_put offset [1] buffer) (\<lambda>buffer.
         let offset = offset + 1 in
         bind_result (checked_put offset (to_be16 port) buffer) (\<lambda>buffer.
         let offset = offset + 2 in
         bind_result (write_address_at offset host 1 2 3 buffer) (\<lambda>(n, buffer).
         Inr (offset + n, buffer)))))))"

text \<open>What \<^verbatim>\<open>establish_vless\<close> returns: a plain response stream, or one inside a Vision stream
  keyed by the user id.\<close>

datatype vless_session = Plain_session | Vision_session bytes

definition establish_vless ::
  "(bytes \<Rightarrow> bytes) \<Rightarrow> vless_options \<Rightarrow> rstr \<Rightarrow> u16 \<Rightarrow> vless_session io" where
  "establish_vless sha1 opts host port =
     (let vision = is_some_and (\<lambda>f. eq_ci f VISION_FLOW) (vl_flow opts) in
      io_bind (io_lift (vless_build_request sha1 (vl_id opts) host port vision
          (replicate (1 + UUID_SIZE + 1 + 2 + length VISION_FLOW + 1 + 2 + MAX_LENGTH) 0)))
        (\<lambda>(n, req).
           io_bind (write_all (take n req)) (\<lambda>_.
             if \<not> vision then io_ok Plain_session
             else
               (case uuid_write_be sha1 (vl_id opts) of
                  None \<Rightarrow> io_fail (Fault AuthRequired)
                | Some uuid \<Rightarrow> io_ok (Vision_session uuid)))))"

section \<open>SOCKS5\<close>

definition socks_auth :: "rstr \<Rightarrow> rstr \<Rightarrow> bytes" where
  "socks_auth user pass =
     [1, word_of_nat (length user)] @ as_bytes user @ [word_of_nat (length pass)] @ as_bytes pass"

definition socks_greeting :: "rstr \<Rightarrow> bytes" where
  "socks_greeting user = (if user = [] then [5, 1, 0] else [5, 2, 0, 2])"

text \<open>The method negotiation of \<^verbatim>\<open>dial_socks5\<close>, then the request, then its reply.\<close>

definition socks_negotiate :: "rstr \<Rightarrow> rstr \<Rightarrow> unit io" where
  "socks_negotiate user pass =
     io_bind (write_all (socks_greeting user)) (\<lambda>_.
     io_bind (read_exact 2) (\<lambda>sel.
     if sel ! 0 \<noteq> 5 then io_fail (Fault InvalidResponse)
     else if sel ! 1 = 0 then io_ok ()
     else if sel ! 1 = 2 then
       (if user = [] then io_fail (Fault AuthRequired)
        else
          io_bind (write_all (socks_auth user pass)) (\<lambda>_.
          io_bind (read_exact 2) (\<lambda>resp.
          if resp ! 1 \<noteq> 0 then io_fail (Fault AuthFailed) else io_ok ())))
     else if sel ! 1 = 0xff then io_fail (Fault AuthFailed)
     else io_fail (Fault InvalidResponse)))"

definition socks_skip_bound :: "u8 \<Rightarrow> unit io" where
  "socks_skip_bound atyp =
     (if atyp = 1 then io_bind (read_exact (4 + 2)) (\<lambda>_. io_ok ())
      else if atyp = 4 then io_bind (read_exact (16 + 2)) (\<lambda>_. io_ok ())
      else if atyp = 3 then
        io_bind (read_exact 1) (\<lambda>len. io_bind (read_exact (unat (len ! 0) + 2)) (\<lambda>_. io_ok ()))
      else io_fail (Fault InvalidResponse))"

definition dial_socks5 :: "proxy_auth \<Rightarrow> rstr \<Rightarrow> u16 \<Rightarrow> unit io" where
  "dial_socks5 opts dest_host dest_port =
     (let user = unwrap_or [] (username opts); pass = unwrap_or [] (password opts) in
      io_bind (socks_negotiate user pass) (\<lambda>_.
      io_bind (io_lift (write_socks_port_last dest_host dest_port (replicate (2 + MAX_LENGTH) 0)))
        (\<lambda>(n, addr).
          io_bind (write_all ([5, 1, 0] @ take n addr)) (\<lambda>_.
          io_bind (read_exact 4) (\<lambda>head.
          if head ! 0 \<noteq> 5 \<or> head ! 1 \<noteq> 0 then io_fail (Fault InvalidResponse)
          else socks_skip_bound (head ! 3))))))"

section \<open>HTTP CONNECT\<close>

definition CRLFCRLF :: bytes where "CRLFCRLF = [13, 10, 13, 10]"

definition http_host_port :: "rstr \<Rightarrow> u16 \<Rightarrow> rstr" where
  "http_host_port host port =
     (if CHR '':'' \<in> set host then ''['' @ host @ '']:'' @ show_u16 port
      else host @ '':'' @ show_u16 port)"

definition crlf :: rstr where "crlf = [CHR 13, CHR 10]"

text \<open>\<open>b64\<close> is the standard base64 encoder.\<close>

definition connect_request :: "(rstr \<Rightarrow> rstr) \<Rightarrow> proxy_auth \<Rightarrow> rstr \<Rightarrow> u16 \<Rightarrow> rstr" where
  "connect_request b64 opts host port =
     (let host_port = http_host_port host port;
          req = ''CONNECT '' @ host_port @ '' HTTP/1.1'' @ crlf @ ''Host: '' @ host_port @ crlf;
          req = (case (username opts, password opts) of
                   (Some user, Some pass) \<Rightarrow>
                     if user \<noteq> []
                     then req @ ''Proxy-Authorization: Basic '' @ b64 (user @ '':'' @ pass) @ crlf
                     else req
                 | _ \<Rightarrow> req)
      in req @ ''Proxy-Connection: Keep-Alive'' @ crlf @ crlf)"

text \<open>\<^verbatim>\<open>buf.windows(4).any(|w| w == b"\r\n\r\n")\<close>.\<close>

fun has_window :: "bytes \<Rightarrow> bytes \<Rightarrow> bool" where
  "has_window w [] = (w = [])"
| "has_window w (b # bs) = (take (length w) (b # bs) = w \<or> has_window w bs)"

text \<open>The loop that reads the response head byte by byte.\<close>

fun read_head :: "bytes \<Rightarrow> bytes \<Rightarrow> (fault + bytes) \<times> bytes" where
  "read_head buf [] = (Inl (Fault ConnectionFailed), [])"
| "read_head buf (b # input) =
     (let buf = buf @ [b] in
      if has_window CRLFCRLF buf then (Inr buf, input)
      else if 8192 < length buf then (Inl (Fault InvalidResponse), input)
      else read_head buf input)"

text \<open>\<^verbatim>\<open>head.lines().next().unwrap_or("")\<close>.\<close>

definition first_line :: "rstr \<Rightarrow> rstr" where
  "first_line s =
     (let l = takeWhile (\<lambda>c. c \<noteq> CHR 10) s in
      if length l < length s \<and> l \<noteq> [] \<and> last l = CHR 13 then butlast l else l)"

definition dial_http_connect :: "(rstr \<Rightarrow> rstr) \<Rightarrow> proxy_auth \<Rightarrow> rstr \<Rightarrow> u16 \<Rightarrow> unit io" where
  "dial_http_connect b64 opts host port =
     io_bind (write_all (as_bytes (connect_request b64 opts host port))) (\<lambda>_.
     io_bind (\<lambda>c. case read_head [] (inbox c) of (r, rest) \<Rightarrow> (r, c\<lparr>inbox := rest\<rparr>)) (\<lambda>buf.
     if contains_str '' 200'' (first_line (from_utf8_lossy buf)) then io_ok ()
     else io_fail (Fault InvalidResponse)))"

section \<open>Requests as byte strings\<close>

definition address_bytes :: "rstr \<Rightarrow> u8 \<Rightarrow> u8 \<Rightarrow> u8 \<Rightarrow> bytes" where
  "address_bytes host t4 td t6 =
     (case parse_ip host of
        Some (V4 v4) \<Rightarrow> t4 # octets v4
      | Some (V6 v6) \<Rightarrow> t6 # octets6 v6
      | None \<Rightarrow> td # word_of_nat (length host) # as_bytes host)"

definition host_ok :: "rstr \<Rightarrow> bool" where
  "host_ok host \<longleftrightarrow> parse_ip host \<noteq> None \<or> length host \<le> 255"

lemma address_bytes_length: "host_ok host \<Longrightarrow> length (address_bytes host t4 td t6) \<le> 257"
  using parse_ip_V6_length [of host]
  by (auto simp: address_bytes_def host_ok_def split: option.splits ip_addr.splits)

lemma put_at_0: "length src \<le> length buf \<Longrightarrow> put_at 0 src buf = src @ drop (length src) buf"
  by (simp add: put_at_def)

lemma put_at_append:
  "off = length pre \<Longrightarrow> length src \<le> length rest \<Longrightarrow>
   put_at off src (pre @ rest) = pre @ src @ drop (length src) rest"
  by (simp add: put_at_def)

lemma checked_put_append:
  "off = length pre \<Longrightarrow> length src \<le> length rest \<Longrightarrow>
   checked_put off src (pre @ rest) = Inr ((pre @ src) @ drop (length src) rest)"
  by (simp add: checked_put_def put_at_append)

lemma checked_put_start:
  "length src \<le> length rest \<Longrightarrow> checked_put 0 src rest = Inr (src @ drop (length src) rest)"
  using checked_put_append [of 0 "[]" src rest] by simp

lemma write_type_and_address_eq:
  assumes "host_ok host" "257 \<le> length dest"
  shows "write_type_and_address host t4 td t6 dest =
    (let a = address_bytes host t4 td t6 in Inr (length a, a @ drop (length a) dest))"
proof -
  have d: "1 \<le> length dest" "2 \<le> length dest" "17 \<le> length dest" using assms(2) by simp_all
  consider v4 where "parse_ip host = Some (V4 v4)" | v6 where "parse_ip host = Some (V6 v6)" "length v6 = 8"
    | "parse_ip host = None" "length host \<le> 255"
    using assms(1) parse_ip_V6_length [of host]
    by (cases "parse_ip host") (auto simp: host_ok_def, metis ip_addr.exhaust)
  then show ?thesis
  proof cases
    case 1
    then show ?thesis using d checked_put_append [of 1 "[t4]" "octets v4" "drop 1 dest"]
      by (simp add: write_type_and_address_def address_bytes_def checked_put_start Let_def)
  next
    case 2
    then show ?thesis using d checked_put_append [of 1 "[t6]" "octets6 v6" "drop 1 dest"]
      by (simp add: write_type_and_address_def address_bytes_def checked_put_start Let_def)
  next
    case 3
    then show ?thesis
      using d assms(2) checked_put_append [of 1 "[td]" "[word_of_nat (length host)]" "drop 1 dest"]
        checked_put_append [of 2 "[td, word_of_nat (length host)]" "as_bytes host" "drop 2 dest"]
      by (simp add: numeral_2_eq_2 write_type_and_address_def address_bytes_def checked_put_start Let_def)
  qed
qed

lemma write_type_and_address_long:
  assumes "\<not> host_ok host" "1 \<le> length dest"
  shows "write_type_and_address host t4 td t6 dest = Inl (Fault StringTooLong)"
  using assms by (auto simp: write_type_and_address_def host_ok_def checked_put_start)

lemma write_address_at_eq:
  assumes "host_ok host" "257 \<le> length rest" "off = length pre"
  shows "write_address_at off host t4 td t6 (pre @ rest) =
    (let a = address_bytes host t4 td t6 in Inr (length a, (pre @ a) @ drop (length a) rest))"
  using assms by (simp add: write_address_at_def write_type_and_address_eq Let_def)

lemma write_address_at_long:
  assumes "\<not> host_ok host" "1 \<le> length rest" "off = length pre"
  shows "write_address_at off host t4 td t6 (pre @ rest) = Inl (Fault StringTooLong)"
  using assms by (simp add: write_address_at_def write_type_and_address_long)


text \<open>The requests, with the hash functions as arguments.\<close>

definition trojan_bytes :: "(bytes \<Rightarrow> bytes) \<Rightarrow> rstr \<Rightarrow> rstr \<Rightarrow> u16 \<Rightarrow> bytes" where
  "trojan_bytes sha224 pw host port =
     hex_lower (sha224 (as_bytes pw)) @ [13, 10] @ [1] @ address_bytes host 1 3 4 @ to_be16 port @ [13, 10]"

definition vless_bytes :: "bytes \<Rightarrow> rstr \<Rightarrow> u16 \<Rightarrow> bool \<Rightarrow> bytes" where
  "vless_bytes uuid host port vision =
     [0] @ uuid @ vless_addons vision @ [1] @ to_be16 port @ address_bytes host 1 2 3"

lemma length_hex_lower [simp]: "length (hex_lower d) = 2 * length d"
  by (induction d) (simp_all add: hex_lower_def)

text \<open>Writing on after the first \<open>off\<close> bytes of a buffer have been filled.\<close>

lemma put_then:
  assumes "off = length pre" "off + length src \<le> length buffer"
  shows "bind_result (checked_put off src (pre @ drop off buffer)) f
    = f ((pre @ src) @ drop (off + length src) buffer)"
  using assms by (simp add: checked_put_append add.commute)

lemma address_then:
  assumes "off = length pre" "off + 257 \<le> length buffer"
  shows "bind_result (write_address_at off host t4 td t6 (pre @ drop off buffer)) f =
    (if host_ok host then
       f (length (address_bytes host t4 td t6),
          (pre @ address_bytes host t4 td t6) @ drop (off + length (address_bytes host t4 td t6)) buffer)
     else Inl (Fault StringTooLong))"
  using assms write_address_at_eq [of host "drop off buffer" off pre t4 td t6]
    write_address_at_long [of host "drop off buffer" off pre t4 td t6]
  by (simp add: Let_def add.commute)

lemma trojan_build_request_eq:
  assumes h: "\<And>d. length (sha224 d) = 28" and len: "320 \<le> length buffer"
  shows "trojan_build_request sha224 pw host port buffer =
    (if host_ok host then
       Inr (length (trojan_bytes sha224 pw host port),
            trojan_bytes sha224 pw host port @ drop (length (trojan_bytes sha224 pw host port)) buffer)
     else Inl (Fault StringTooLong))"
proof -
  define d where "d = hex_lower (sha224 (as_bytes pw))"
  define a where "a = address_bytes host 1 3 4"
  have ld: "length d = 56" by (simp add: h d_def)
  have la: "host_ok host \<Longrightarrow> length a \<le> 257" using address_bytes_length [of host] by (simp add: a_def)
  note s0 = put_then [of 0 "[]" d buffer, simplified]
    and s1 = put_then [of 56 d "[13]" buffer, simplified]
    and s2 = put_then [of 57 "d @ [13]" "[10]" buffer, simplified]
    and s3 = put_then [of 58 "d @ [13, 10]" "[1]" buffer, simplified]
    and s4 = address_then [of 59 "d @ [13, 10, 1]" buffer host 1 3 4, simplified]
  have e: "trojan_build_request sha224 pw host port buffer =
    (if host_ok host then
      bind_result (checked_put (59 + length a) (to_be16 port) ((d @ [13, 10, 1] @ a) @ drop (59 + length a) buffer)) (\<lambda>buffer.
      bind_result (checked_put (61 + length a) [13] buffer) (\<lambda>buffer.
      bind_result (checked_put (62 + length a) [10] buffer) (\<lambda>buffer.
      Inr (63 + length a, buffer))))
     else Inl (Fault StringTooLong))"
    unfolding trojan_build_request_def sha224_hex_lower_def SHA224_HEX_SIZE_def Let_def d_def [symmetric]
    using len ld by (simp add: s0 s1 s2 s3 s4 a_def)
  note t1 = put_then [of "59 + length a" "d @ [13, 10, 1] @ a" "to_be16 port" buffer, simplified]
    and t2 = put_then [of "61 + length a" "d @ [13, 10, 1] @ a @ to_be16 port" "[13]" buffer, simplified]
    and t3 = put_then [of "62 + length a" "d @ [13, 10, 1] @ a @ to_be16 port @ [13]" "[10]" buffer, simplified]
  have "host_ok host \<Longrightarrow> 63 + length a \<le> length buffer" using la len by linarith
  then show ?thesis unfolding e
    using ld by (cases "host_ok host") (simp_all add: t1 t2 t3 trojan_bytes_def d_def [symmetric] a_def [symmetric])
qed

lemma parse_canonical_length: "parse_canonical uid = Some u \<Longrightarrow> length u = 16"
  by (auto simp: parse_canonical_def Let_def split: if_splits)

lemma uuid_length:
  assumes "\<And>d. length (sha1 d) = 20" "uuid_write_be sha1 uid = Some u"
  shows "length u = 16"
  using assms parse_canonical_length
  by (auto simp: uuid_write_be_def derive_uuid_def UUID_SIZE_def Let_def split: if_splits)

lemma length_addons [simp]: "length (vless_addons vision) = (if vision then 19 else 1)"
  by (simp add: vless_addons_def VISION_FLOW_def)

lemma vless_build_request_eq:
  assumes h: "\<And>d. length (sha1 d) = 20" and len: "296 \<le> length buffer"
  shows "vless_build_request sha1 uid host port vision buffer =
    (case uuid_write_be sha1 uid of
       None \<Rightarrow> Inl (Fault AuthRequired)
     | Some uuid \<Rightarrow>
         if host_ok host then
           Inr (length (vless_bytes uuid host port vision),
                vless_bytes uuid host port vision @ drop (length (vless_bytes uuid host port vision)) buffer)
         else Inl (Fault StringTooLong))"
proof (cases "uuid_write_be sha1 uid")
  case None
  then show ?thesis using len put_then [of 0 "[]" "[0]" buffer, simplified]
    by (simp add: vless_build_request_def)
next
  case (Some u)
  define x where "x = vless_addons vision"
  have lu: "length u = 16" using uuid_length h Some by blast
  have lx: "length x \<le> 19" by (simp add: x_def)
  have b: "17 + length x \<le> length buffer" "18 + length x \<le> length buffer" "20 + length x \<le> length buffer"
    "277 + length x \<le> length buffer" using lx len by linarith+
  note s = put_then [of 0 "[]" "[0]" buffer, simplified] put_then [of 1 "[0]" u buffer, simplified]
    put_then [of 17 "0 # u" x buffer, simplified]
    put_then [of "17 + length x" "0 # u @ x" "[1]" buffer, simplified]
    put_then [of "18 + length x" "0 # u @ x @ [1]" "to_be16 port" buffer, simplified]
    address_then [of "20 + length x" "0 # u @ x @ [1] @ to_be16 port" buffer host 1 2 3, simplified]
  show ?thesis
    unfolding vless_build_request_def UUID_SIZE_def Let_def x_def [symmetric] vless_bytes_def
    using Some lu b len by (simp add: s add.assoc)
qed


section \<open>The server's side\<close>

text \<open>Readers of the three formats, as the protocols document them.\<close>

datatype target = T_ip ip_addr | T_name rstr

definition target_of :: "rstr \<Rightarrow> target" where
  "target_of host = (case parse_ip host of Some ip \<Rightarrow> T_ip ip | None \<Rightarrow> T_name host)"

fun segments_of :: "bytes \<Rightarrow> u16 list" where
  "segments_of (a # b # rest) = from_be16 a b # segments_of rest"
| "segments_of _ = []"

lemma segments_octets6 [simp]: "segments_of (octets6 segs) = segs"
  by (induction segs) (simp_all add: octets6_def to_be16_def)

definition read_address :: "u8 \<Rightarrow> u8 \<Rightarrow> u8 \<Rightarrow> bytes \<Rightarrow> (target \<times> bytes) option" where
  "read_address t4 td t6 bs =
     (case bs of
        [] \<Rightarrow> None
      | t # r \<Rightarrow>
          if t = t4 then
            (if length r < 4 then None
             else Some (T_ip (V4 (Ipv4 (r ! 0) (r ! 1) (r ! 2) (r ! 3))), drop 4 r))
          else if t = t6 then
            (if length r < 16 then None else Some (T_ip (V6 (segments_of (take 16 r))), drop 16 r))
          else if t = td then
            (case r of
               [] \<Rightarrow> None
             | n # r \<Rightarrow>
                 if length r < unat n then None
                 else Some (T_name (map chr_of (take (unat n) r)), drop (unat n) r))
          else None)"

lemma read_address_written:
  assumes "host_ok host" "t4 \<noteq> t6" "t4 \<noteq> td" "t6 \<noteq> td"
  shows "read_address t4 td t6 (address_bytes host t4 td t6 @ rest) = Some (target_of host, rest)"
proof (cases "parse_ip host")
  case None
  then have "unat (word_of_nat (length host) :: u8) = length host"
    using assms(1) by (simp add: host_ok_def unat_of_nat_u8)
  then show ?thesis using None assms by (simp add: read_address_def address_bytes_def target_of_def)
next
  case (Some ip)
  show ?thesis
  proof (cases ip)
    case (V4 v)
    then show ?thesis using Some
      by (cases v) (simp add: read_address_def address_bytes_def target_of_def octets_def)
  next
    case (V6 segs)
    then have "length (octets6 segs) = 16" using Some parse_ip_V6_length by simp
    then show ?thesis using V6 Some assms
      by (simp add: read_address_def address_bytes_def target_of_def)
  qed
qed

definition read_port :: "bytes \<Rightarrow> (u16 \<times> bytes) option" where
  "read_port bs = (case bs of a # b # r \<Rightarrow> Some (from_be16 a b, r) | _ \<Rightarrow> None)"

lemma read_port_written [simp]: "read_port (to_be16 p @ rest) = Some (p, rest)"
  by (simp add: read_port_def to_be16_def)

text \<open>Trojan: 56 hexadecimal digits, CRLF, command, address, port, CRLF.\<close>

definition trojan_read :: "bytes \<Rightarrow> (bytes \<times> target \<times> u16 \<times> bytes) option" where
  "trojan_read bs =
     (if length bs < 59 \<or> take 3 (drop 56 bs) \<noteq> [13, 10, 1] then None
      else
        Option.bind (read_address 1 3 4 (drop 59 bs)) (\<lambda>(t, r).
        Option.bind (read_port r) (\<lambda>(p, r).
        if take 2 r = [13, 10] then Some (take 56 bs, t, p, drop 2 r) else None)))"

text \<open>VLESS: version, user id, addons, command, port, address.\<close>

definition vless_read :: "bytes \<Rightarrow> (bytes \<times> bytes \<times> target \<times> u16 \<times> bytes) option" where
  "vless_read bs =
     (if length bs < 18 \<or> bs ! 0 \<noteq> 0 then None
      else
        (let n = unat (bs ! 17); r = drop (18 + n) bs in
         if length bs < 19 + n \<or> r ! 0 \<noteq> 1 then None
         else
           Option.bind (read_port (drop 1 r)) (\<lambda>(p, r).
           Option.bind (read_address 1 2 3 r) (\<lambda>(t, r).
           Some (take 16 (drop 1 bs), take n (drop 18 bs), t, p, r)))))"

text \<open>
  establishing a Trojan session sends exactly one request, which a server reads back as the
  digest of the password, the target and the port with nothing left over, or, for a host name
  of more than 255 bytes, fails without having sent anything; no buffer is overrun.
\<close>

theorem establish_trojan_correct:
  assumes "\<forall>d. length (sha224 d) = 28"
  shows "if host_ok host then
      \<exists>req. establish_trojan sha224 opts host port c = (Inr (), c\<lparr>outbox := outbox c @ req\<rparr>)
        \<and> (\<forall>rest. trojan_read (req @ rest)
            = Some (hex_lower (sha224 (as_bytes (tr_password opts))), target_of host, port, rest))
    else establish_trojan sha224 opts host port c = (Inl (Fault StringTooLong), c)"
proof -
  let ?req = "trojan_bytes sha224 (tr_password opts) host port"
  have ld: "length (hex_lower (sha224 (as_bytes (tr_password opts)))) = 56" using assms by simp
  have e: "establish_trojan sha224 opts host port c =
    (if host_ok host then (Inr (), c\<lparr>outbox := outbox c @ ?req\<rparr>) else (Inl (Fault StringTooLong), c))"
    using assms by (simp add: establish_trojan_def trojan_build_request_eq SHA224_HEX_SIZE_def MAX_LENGTH_def write_all_def)
  have "trojan_read (?req @ rest)
      = Some (hex_lower (sha224 (as_bytes (tr_password opts))), target_of host, port, rest)" if "host_ok host" for rest
    using ld read_address_written [OF that, of 1 4 3 "to_be16 port @ 13 # 10 # rest"]
    by (simp add: trojan_read_def trojan_bytes_def)
  then show ?thesis using e by auto
qed

theorem establish_trojan_correct_witness:
  "\<exists>req. establish_trojan (\<lambda>d. replicate 28 7)
       \<lparr>tr_password = ''secret'', tr_host = ''h'', tr_port = 443, tr_transport = ''tcp'', tr_path = None,
        tr_host_header = None, tr_sni = None, tr_alpn = [], tr_allow_insecure = False\<rparr>
       ''example.com'' 443 \<lparr>inbox = [], outbox = []\<rparr> = (Inr (), \<lparr>inbox = [], outbox = req\<rparr>)
     \<and> trojan_read (req @ [1, 2]) = Some (hex_lower (replicate 28 7), T_name ''example.com'', 443, [1, 2])"
proof -
  have "\<forall>d :: bytes. length (replicate 28 (7 :: u8)) = 28" by simp
  moreover have "host_ok ''example.com''" "target_of ''example.com'' = T_name ''example.com''" by code_simp+
  ultimately show ?thesis
    using establish_trojan_correct [of "\<lambda>d. replicate 28 7" "''example.com''"
        "\<lparr>tr_password = ''secret'', tr_host = ''h'', tr_port = 443, tr_transport = ''tcp'', tr_path = None,
          tr_host_header = None, tr_sni = None, tr_alpn = [], tr_allow_insecure = False\<rparr>" 443
        "\<lparr>inbox = [], outbox = []\<rparr>"] by auto
qed

text \<open>
  C16: establishing a VLESS session sends exactly one request, which a server reads back as the
  user's id, the addons (the Vision flow if and only if it was asked for), the target and the
  port; an unusable id or a host name of more than 255 bytes fails without having sent
  anything; no buffer is overrun.
\<close>

theorem establish_vless_correct:
  assumes "\<forall>d. length (sha1 d) = 20"
  shows "case uuid_write_be sha1 (vl_id opts) of
      None \<Rightarrow> establish_vless sha1 opts host port c = (Inl (Fault AuthRequired), c)
    | Some uuid \<Rightarrow>
        if host_ok host then
          (let vision = is_some_and (\<lambda>f. eq_ci f ''xtls-rprx-vision'') (vl_flow opts) in
           \<exists>req. establish_vless sha1 opts host port c
               = (Inr (if vision then Vision_session uuid else Plain_session), c\<lparr>outbox := outbox c @ req\<rparr>)
             \<and> (\<forall>rest. vless_read (req @ rest) =
                 Some (uuid, if vision then 0x0A # 16 # as_bytes ''xtls-rprx-vision'' else [], target_of host, port, rest)))
        else establish_vless sha1 opts host port c = (Inl (Fault StringTooLong), c)"
proof (cases "uuid_write_be sha1 (vl_id opts)")
  case None
  then show ?thesis
    using assms by (simp add: establish_vless_def Let_def vless_build_request_eq MAX_LENGTH_def UUID_SIZE_def VISION_FLOW_def)
next
  case (Some u)
  define vision where "vision = is_some_and (\<lambda>f. eq_ci f ''xtls-rprx-vision'') (vl_flow opts)"
  let ?req = "vless_bytes u host port vision"
  have lu: "length u = 16" using uuid_length assms Some by blast
  have e: "establish_vless sha1 opts host port c =
    (if host_ok host then (Inr (if vision then Vision_session u else Plain_session), c\<lparr>outbox := outbox c @ ?req\<rparr>)
     else (Inl (Fault StringTooLong), c))"
    using assms Some by (simp add: establish_vless_def Let_def vision_def vless_build_request_eq MAX_LENGTH_def
        UUID_SIZE_def VISION_FLOW_def)
  have flow: "vless_addons vision = (if vision then 18 # 0x0A # 16 # as_bytes ''xtls-rprx-vision'' else [0])"
    by (simp add: vless_addons_def VISION_FLOW_def)
  have "vless_read (?req @ rest) =
      Some (u, if vision then 0x0A # 16 # as_bytes ''xtls-rprx-vision'' else [], target_of host, port, rest)"
    if "host_ok host" for rest
    using lu read_address_written [OF that, of 1 3 2 rest]
    by (simp add: vless_read_def vless_bytes_def flow nth_append Let_def)
  then show ?thesis using e Some by (auto simp: vision_def Let_def)
qed


definition example_vless :: vless_options where
  "example_vless =
     \<lparr>vl_id = ''11111111-1111-1111-1111-111111111111'', vl_host = ''h'', vl_port = 443, vl_security = Sec_tls,
      vl_transport = ''tcp'', vl_path = None, vl_host_header = None, vl_sni = None, vl_alpn = [],
      vl_flow = Some ''XTLS-rprx-vision'', vl_fingerprint = None, vl_reality_public_key = None,
      vl_reality_short_id = None, vl_allow_insecure = False\<rparr>"

theorem establish_vless_correct_witness:
  "\<exists>req. establish_vless (\<lambda>d. replicate 20 7) example_vless ''1.2.3.4'' 80 \<lparr>inbox = [], outbox = []\<rparr>
       = (Inr (Vision_session (replicate 16 0x11)), \<lparr>inbox = [], outbox = req\<rparr>)
     \<and> vless_read (req @ [9]) = Some (replicate 16 0x11, 0x0A # 16 # as_bytes ''xtls-rprx-vision'',
          T_ip (V4 (Ipv4 1 2 3 4)), 80, [9])"
proof -
  have "\<forall>d :: bytes. length (replicate 20 (7 :: u8)) = 20" by simp
  moreover have "uuid_write_be (\<lambda>d. replicate 20 7) (vl_id example_vless) = Some (replicate 16 0x11)"
    "is_some_and (\<lambda>f. eq_ci f ''xtls-rprx-vision'') (vl_flow example_vless)"
    "host_ok ''1.2.3.4''" "target_of ''1.2.3.4'' = T_ip (V4 (Ipv4 1 2 3 4))" by code_simp+
  ultimately show ?thesis
    using establish_vless_correct [of "\<lambda>d. replicate 20 7" example_vless "''1.2.3.4''" 80
        "\<lparr>inbox = [], outbox = []\<rparr>"] by (auto simp: Let_def)
qed

section \<open>SOCKS5 and HTTP CONNECT\<close>

lemma write_socks_port_last_eq:
  assumes "259 \<le> length dest"
  shows "write_socks_port_last host port dest =
    (if host_ok host then
       (let a = address_bytes host 1 3 4 @ to_be16 port in Inr (length a, a @ drop (length a) dest))
     else Inl (Fault StringTooLong))"
proof (cases "host_ok host")
  case True
  define a where "a = address_bytes host 1 3 4"
  have la: "length a \<le> 257" using address_bytes_length [OF True] by (simp add: a_def)
  then have l: "length a + 2 \<le> length dest" using assms by linarith
  then have "\<not> length (a @ drop (length a) dest) < length a + 2" by simp
  then show ?thesis
    using True assms l put_then [of "length a" a "to_be16 port" dest]
    by (simp add: write_socks_port_last_def write_type_and_address_eq a_def [symmetric] Let_def)
next
  case False
  then show ?thesis using assms by (simp add: write_socks_port_last_def write_type_and_address_long)
qed

definition socks_request :: "rstr \<Rightarrow> u16 \<Rightarrow> bytes" where
  "socks_request host port = [5, 1, 0] @ address_bytes host 1 3 4 @ to_be16 port"

text \<open>A server's half of a successful dialogue: method selection, the answer to the credentials
  when it asked for them, the reply with the bound address.\<close>

definition socks_bound :: "u8 \<Rightarrow> bytes \<Rightarrow> bool" where
  "socks_bound atyp b \<longleftrightarrow>
     atyp = 1 \<and> length b = 6 \<or> atyp = 4 \<and> length b = 18
     \<or> atyp = 3 \<and> b \<noteq> [] \<and> length b = unat (b ! 0) + 3"

definition socks_script :: "u8 \<Rightarrow> bytes \<Rightarrow> bytes \<Rightarrow> bytes \<Rightarrow> bytes" where
  "socks_script m auth_reply head bound =
     [5, m] @ (if m = 2 then auth_reply else []) @ head @ bound"

lemma socks_skip_bound_eq:
  assumes "socks_bound atyp b" "inbox c = b @ rest"
  shows "socks_skip_bound atyp c = (Inr (), c\<lparr>inbox := rest\<rparr>)"
proof -
  consider "atyp = 1" "length b = 6" | "atyp = 4" "length b = 18"
    | n b' where "atyp = 3" "b = n # b'" "length b' = unat n + 2"
    using assms(1) by (cases b) (auto simp: socks_bound_def)
  then show ?thesis
    by cases (simp_all add: socks_skip_bound_def bind_read_exact assms(2))
qed

text \<open>
  What a SOCKS5 server makes of the bytes it receives (RFC 1928, RFC 1929) when it selects method \<open>m\<close>:
  the methods it was offered, the credentials, and the target and port of a CONNECT request.
\<close>

definition take_counted :: "bytes \<Rightarrow> (bytes \<times> bytes) option" where
  "take_counted bs =
     (case bs of
        [] \<Rightarrow> None
      | n # r \<Rightarrow> if length r < unat n then None else Some (take (unat n) r, drop (unat n) r))"

definition read_credentials :: "bytes \<Rightarrow> ((bytes \<times> bytes) \<times> bytes) option" where
  "read_credentials bs =
     (case bs of
        [] \<Rightarrow> None
      | v # r \<Rightarrow>
          if v \<noteq> 1 then None
          else
            Option.bind (take_counted r) (\<lambda>(user, r).
            Option.bind (take_counted r) (\<lambda>(pass, r).
            Some ((user, pass), r))))"

definition socks_server ::
  "u8 \<Rightarrow> bytes \<Rightarrow> (bytes \<times> (bytes \<times> bytes) option \<times> target \<times> u16 \<times> bytes) option" where
  "socks_server m bs =
     (case bs of
        [] \<Rightarrow> None
      | v # r \<Rightarrow>
          Option.bind (take_counted r) (\<lambda>(methods, r).
          if v \<noteq> 5 \<or> m \<notin> set methods then None
          else
            Option.bind (if m = 2 then map_option (apfst Some) (read_credentials r) else Some (None, r)) (\<lambda>(cred, r).
            if take 3 r \<noteq> [5, 1, 0] then None
            else
              Option.bind (read_address 1 3 4 (drop 3 r)) (\<lambda>(t, r).
              Option.bind (read_port r) (\<lambda>(p, r).
              Some (methods, cred, t, p, r))))))"

lemma take_counted_written:
  "length bs \<le> 255 \<Longrightarrow> take_counted (word_of_nat (length bs) # bs @ r) = Some (bs, r)"
  by (simp add: take_counted_def unat_of_nat_u8)

lemma read_credentials_written:
  assumes "length user \<le> 255" "length pass \<le> 255"
  shows "read_credentials (socks_auth user pass @ r) = Some ((as_bytes user, as_bytes pass), r)"
  using take_counted_written [of "as_bytes user" "word_of_nat (length pass) # as_bytes pass @ r"]
    take_counted_written [of "as_bytes pass" r] assms
  by (simp add: read_credentials_def socks_auth_def)

lemma socks_server_reads:
  assumes "host_ok host" "m = 0 \<or> m = 2 \<and> user \<noteq> [] \<and> length user \<le> 255 \<and> length pass \<le> 255"
  shows "socks_server m (socks_greeting user @ (if m = 2 then socks_auth user pass else []) @ socks_request host port @ later)
    = Some (if user = [] then [0] else [0, 2], if m = 2 then Some (as_bytes user, as_bytes pass) else None,
        target_of host, port, later)"
proof -
  define offer :: bytes where "offer = (if user = [] then [1, 0] else [2, 0, 2])"
  have v: "socks_greeting user = 5 # offer" and g: "take_counted (offer @ r) = Some (if user = [] then [0] else [0, 2], r)" for r
    by (simp_all add: offer_def socks_greeting_def take_counted_def)
  let ?req = "socks_request host port @ later"
  have req: "take 3 ?req = [5, 1, 0]" "read_address 1 3 4 (drop 3 ?req) = Some (target_of host, to_be16 port @ later)"
    using read_address_written [OF assms(1), of 1 4 3 "to_be16 port @ later"] by (simp_all add: socks_request_def)
  have cred: "read_credentials (socks_auth user pass @ ?req) = Some ((as_bytes user, as_bytes pass), ?req)" if "m = 2"
    using read_credentials_written assms(2) that by auto
  from assms(2) show ?thesis
  proof
    assume m: "m = 0"
    then have "socks_server m (5 # offer @ ?req)
        = Some (if user = [] then [0] else [0, 2], None, target_of host, port, later)"
      by (simp add: socks_server_def g req del: take_append drop_append)
    then show ?thesis using m by (simp add: v)
  next
    assume m: "m = 2 \<and> user \<noteq> [] \<and> length user \<le> 255 \<and> length pass \<le> 255"
    then have "socks_server m (5 # offer @ socks_auth user pass @ ?req)
        = Some (if user = [] then [0] else [0, 2], Some (as_bytes user, as_bytes pass), target_of host, port, later)"
      using cred by (simp add: socks_server_def g req del: take_append drop_append)
    then show ?thesis using m by (simp add: v)
  qed
qed

text \<open>
  C17: a SOCKS5 dial against a server that accepts, by either method, succeeds and has consumed exactly
  the server's handshake: the first byte of the tunnel is still there to read. What it has sent is read
  by a server of the protocol as an offer of the password method exactly when there is a user, the
  credentials exactly when the server selected that method, and a request for the target and port, with
  nothing left over. User and password have at most 255 bytes when they are sent.
\<close>

theorem dial_socks5_correct:
  assumes "host_ok host" "unwrap_or [] (username opts) = user" "unwrap_or [] (password opts) = pass"
    and "m = 0 \<or> m = 2 \<and> user \<noteq> [] \<and> length user \<le> 255 \<and> length pass \<le> 255"
    and "inbox c = socks_script m [v, 0] [5, 0, rsv, atyp] bound @ rest" "socks_bound atyp bound"
  shows "\<exists>sent. dial_socks5 opts host port c = (Inr (), c\<lparr>inbox := rest, outbox := outbox c @ sent\<rparr>)
    \<and> (\<forall>later. socks_server m (sent @ later) =
          Some (if user = [] then [0] else [0, 2], if m = 2 then Some (as_bytes user, as_bytes pass) else None,
            target_of host, port, later))"
proof -
  let ?sent = "socks_greeting user @ (if m = 2 then socks_auth user pass else []) @ socks_request host port"
  have w: "write_socks_port_last host port (replicate (2 + MAX_LENGTH) 0) =
      Inr (length (address_bytes host 1 3 4 @ to_be16 port),
        (address_bytes host 1 3 4 @ to_be16 port)
         @ drop (length (address_bytes host 1 3 4 @ to_be16 port)) (replicate 259 0))"
    using assms(1) by (simp add: write_socks_port_last_eq MAX_LENGTH_def Let_def)
  have neg: "socks_negotiate user pass c = (Inr (), c\<lparr>inbox := [5, 0, rsv, atyp] @ bound @ rest,
      outbox := outbox c @ socks_greeting user @ (if m = 2 then socks_auth user pass else [])\<rparr>)"
    using assms(4) by (auto simp: socks_negotiate_def bind_read_exact assms(5) socks_script_def)
  have "dial_socks5 opts host port c = (Inr (), c\<lparr>inbox := rest, outbox := outbox c @ ?sent\<rparr>)"
    unfolding dial_socks5_def Let_def assms(2,3) io_bind_def [of "socks_negotiate user _"] neg w
    by (simp add: bind_read_exact socks_skip_bound_eq [OF assms(6)] socks_request_def)
  then show ?thesis using socks_server_reads [OF assms(1,4)] by (intro exI [of _ ?sent]) simp
qed

theorem dial_socks5_correct_witness:
  "\<exists>sent. dial_socks5 \<lparr>username = Some ''alice'', password = Some ''secret''\<rparr> ''example.com'' 80
       \<lparr>inbox = [5, 2, 1, 0, 5, 0, 0, 1, 0, 0, 0, 0, 0, 0, 42], outbox = []\<rparr> = (Inr (), \<lparr>inbox = [42], outbox = sent\<rparr>)
     \<and> socks_server 2 (sent @ [22])
       = Some ([0, 2], Some (as_bytes ''alice'', as_bytes ''secret''), T_name ''example.com'', 80, [22])"
proof -
  have "host_ok ''example.com''" "target_of ''example.com'' = T_name ''example.com''" by code_simp+
  then show ?thesis
    using dial_socks5_correct [of "''example.com''" "\<lparr>username = Some ''alice'', password = Some ''secret''\<rparr>" "''alice''" "''secret''" 2
        "\<lparr>inbox = [5, 2, 1, 0, 5, 0, 0, 1, 0, 0, 0, 0, 0, 0, 42], outbox = []\<rparr>" 1 0 1 "[0, 0, 0, 0, 0, 0]" "[42]" 80]
    by (auto simp: socks_script_def socks_bound_def)
qed


text \<open>The response head ends at the first blank line.\<close>

lemma has_window_short: "length bs < length w \<Longrightarrow> \<not> has_window w bs"
  by (induction bs) auto

lemma read_head_eq:
  assumes "has_window CRLFCRLF (buf @ head)" "head \<noteq> []"
    and "\<forall>k < length head. \<not> has_window CRLFCRLF (buf @ take k head)"
    and "length (buf @ head) \<le> 8193"
  shows "read_head buf (head @ rest) = (Inr (buf @ head), rest)"
  using assms
proof (induction head arbitrary: buf)
  case (Cons b head)
  show ?case
  proof (cases head)
    case Nil
    then show ?thesis using Cons.prems by (simp add: Let_def)
  next
    case (Cons b' h)
    have "1 < length (b # head)" using Cons by simp
    then have nw: "\<not> has_window CRLFCRLF (buf @ [b])" using Cons.prems(3) by (metis take_Suc_Cons take_0 One_nat_def)
    have rest: "\<not> has_window CRLFCRLF ((buf @ [b]) @ take k head)" if "k < length head" for k
      using Cons.prems(3) [rule_format, of "Suc k"] that by simp
    have "read_head (buf @ [b]) (head @ rest) = (Inr ((buf @ [b]) @ head), rest)"
      using Cons.prems(1,4) rest Cons by (intro Cons.IH) auto
    then show ?thesis using nw Cons.prems(4) Cons by (simp add: Let_def)
  qed
qed simp

text \<open>
  A CONNECT dial sends its request, consumes the response up to its blank line and nothing of what
  follows, and looks for 200 in the status line.
\<close>

lemma dial_http_connect_reply:
  assumes "inbox c = head @ rest" "has_window CRLFCRLF head" "length head \<le> 8192"
    and "\<forall>k < length head. \<not> has_window CRLFCRLF (take k head)"
  shows "dial_http_connect b64 opts host port c =
      (if contains_str '' 200'' (first_line (from_utf8_lossy head)) then Inr () else Inl (Fault InvalidResponse),
       c\<lparr>inbox := rest, outbox := outbox c @ as_bytes (connect_request b64 opts host port)\<rparr>)"
proof -
  have "head \<noteq> []" using assms(2) by (auto simp: CRLFCRLF_def)
  then have r: "read_head [] (head @ rest) = (Inr head, rest)"
    using read_head_eq [of "[]" head rest] assms by simp
  show ?thesis
    by (simp add: dial_http_connect_def io_bind_def [of "\<lambda>c. case read_head [] (inbox c) of (r, rest) \<Rightarrow> (r, c\<lparr>inbox := rest\<rparr>)"]
        assms(1) r)
qed

end
