(* ===== verification/ProxySink.thy ===== *)
theory ProxySink
  imports ProxyIo
begin

text \<open>
  The writing side of the layered streams of \<^verbatim>\<open>crates/clash-proxynet\<close>: an inner stream that takes
  what is written to it in arbitrary pieces, the loop with which a layer pushes a staged buffer
  out, and the contract of a layer's \<^verbatim>\<open>poll_write\<close> from which \<^verbatim>\<open>write_all\<close> is shown to get all its
  data out.
\<close>

section \<open>Sinks\<close>

text \<open>How many bytes each of the next writes takes (all, once the list is used up), and what has
  been taken so far.\<close>

datatype write_slot = Accept nat | Block | Break

record sink =
  slots :: "write_slot list"
  written :: bytes

definition sink_write :: "bytes \<Rightarrow> sink \<Rightarrow> nat poll \<times> sink" where
  "sink_write bs k =
     (case slots k of
        [] \<Rightarrow> (Ready (length bs), k\<lparr>written := written k @ bs\<rparr>)
      | Accept n # ss \<Rightarrow>
          (Ready (min n (length bs)), k\<lparr>slots := ss, written := written k @ take n bs\<rparr>)
      | Block # ss \<Rightarrow> (Pending, k\<lparr>slots := ss\<rparr>)
      | Break # ss \<Rightarrow> (Failed OtherError, k\<lparr>slots := ss\<rparr>))"

lemma sink_write_spec:
  assumes "sink_write bs k = (r, k')"
  shows "length (slots k') \<le> length (slots k)"
    and "r = Pending \<Longrightarrow> length (slots k') < length (slots k) \<and> written k' = written k"
    and "r = Ready n \<Longrightarrow> n \<le> length bs \<and> written k' = written k @ take n bs"
    and "r = Failed e \<Longrightarrow> written k' = written k"
  using assms by (auto simp: sink_write_def min_def split: list.splits write_slot.splits if_splits)

text \<open>A sink that never fails and never takes nothing.\<close>

definition sink_good :: "sink \<Rightarrow> bool" where
  "sink_good k \<longleftrightarrow> Break \<notin> set (slots k) \<and> Accept 0 \<notin> set (slots k)"

lemma sink_write_good:
  assumes "sink_good k" "sink_write bs k = (q, k')"
  shows "sink_good k' \<and> (\<forall>e. q \<noteq> Failed e) \<and> (bs \<noteq> [] \<longrightarrow> q \<noteq> Ready 0)"
proof (cases "slots k")
  case (Cons x xs)
  then show ?thesis using assms
    by (cases x) (auto simp: sink_good_def sink_write_def min_def split: if_splits)
qed (use assms in \<open>auto simp: sink_good_def sink_write_def\<close>)

section \<open>Pushing a buffer out\<close>

text \<open>\<^verbatim>\<open>while pos < buf.len() { poll_write(&buf[pos..]) ... pos += n }\<close>, where a write that takes nothing
  is an error of the given kind. The result carries the position reached.\<close>

function flush_from :: "io_error_kind \<Rightarrow> bytes \<Rightarrow> nat \<Rightarrow> sink \<Rightarrow> unit poll \<times> nat \<times> sink" where
  "flush_from err buf off k =
     (if off < length buf then
        (case sink_write (drop off buf) k of
           (Pending, k) \<Rightarrow> (Pending, off, k)
         | (Failed e, k) \<Rightarrow> (Failed e, off, k)
         | (Ready n, k) \<Rightarrow> if n = 0 then (Failed err, off, k) else flush_from err buf (off + n) k)
      else (Ready (), off, k))"
  by pat_completeness auto

termination flush_from
  by (relation "measure (\<lambda>(err, buf, off, k). length buf - off)") auto

declare flush_from.simps [simp del]

lemma take_slice: "a \<le> b \<Longrightarrow> take a xs @ slice a b xs = take b xs"
  using slice_append [of 0 a b xs] by (simp add: slice_def)

definition flushed :: "bytes \<Rightarrow> nat \<Rightarrow> sink \<Rightarrow> unit poll \<Rightarrow> nat \<Rightarrow> sink \<Rightarrow> bool" where
  "flushed buf off k r off' k' \<longleftrightarrow>
     off \<le> off' \<and> off' \<le> length buf \<and> written k' = written k @ slice off off' buf
     \<and> length (slots k') \<le> length (slots k) \<and> (r = Pending \<longrightarrow> length (slots k') < length (slots k))
     \<and> (r = Ready () \<longrightarrow> off' = length buf)
     \<and> (sink_good k \<longrightarrow> sink_good k' \<and> (\<forall>e. r \<noteq> Failed e))"

lemma flush_from_flushed:
  assumes "flush_from err buf off k = (r, off', k')" "off \<le> length buf"
  shows "flushed buf off k r off' k'"
  using assms
proof (induction err buf off k arbitrary: r off' k' rule: flush_from.induct)
  case (1 err buf off k)
  show ?case
  proof (cases "off < length buf")
    case False
    then show ?thesis using 1(2,3) flush_from.simps [of err buf off k] by (auto simp: flushed_def slice_def)
  next
    case True
    obtain q w where q: "sink_write (drop off buf) k = (q, w)" by fastforce
    have sp: "length (slots w) \<le> length (slots k)" "q = Pending \<Longrightarrow> length (slots w) < length (slots k)"
      "\<And>n. q = Ready n \<Longrightarrow> n \<le> length buf - off \<and> written w = written k @ take n (drop off buf)"
      "\<forall>n. q \<noteq> Ready n \<Longrightarrow> written w = written k"
      using sink_write_spec [OF q] by (cases q; force)+
    have good: "sink_good k \<Longrightarrow> sink_good w \<and> (\<forall>e. q \<noteq> Failed e) \<and> q \<noteq> Ready 0"
      using sink_write_good [OF _ q] True by auto
    show ?thesis
    proof (cases "\<exists>n. q = Ready n \<and> n \<noteq> 0")
      case False
      then show ?thesis using 1(2) True q sp good flush_from.simps [of err buf off k]
        by (cases q) (auto simp: flushed_def slice_def)
    next
      case ne: True
      then obtain n where n: "q = Ready n" "n \<noteq> 0" by blast
      have p: "flush_from err buf (off + n) w = (r, off', k')"
        using 1(2) True q n flush_from.simps [of err buf off k] by simp
      have le: "off + n \<le> length buf" using sp(3) [OF n(1)] True by auto
      have f: "flushed buf (off + n) w r off' k'" by (rule 1(1) [OF True q [symmetric] n p le])
      have "take n (drop off buf) @ slice (off + n) off' buf = slice off off' buf"
        using f slice_append [of off "off + n" off' buf] by (simp add: slice_def flushed_def)
      then show ?thesis using f sp(1) sp(3) [OF n(1)] good by (auto simp: flushed_def)
    qed
  qed
qed

section \<open>Layered writers\<close>

text \<open>
  The contract of a layer's \<^verbatim>\<open>poll_write\<close>. Between two frames the layer has sent \<open>acc\<close> (\<open>idle\<close>); in
  the middle of a frame for a prefix of \<open>data\<close> it holds the rest of the frame (\<open>mid\<close>). A call
  waits, reports how many bytes of the data it has sent, or fails; on a sink that never fails it
  does not fail and makes progress. \<open>fits\<close> is the data the layer can encode at all.
\<close>

definition write_delivers ::
  "('s \<Rightarrow> bytes \<Rightarrow> bool) \<Rightarrow> ('s \<Rightarrow> bytes \<Rightarrow> bytes \<Rightarrow> bool) \<Rightarrow> ('s \<Rightarrow> sink) \<Rightarrow> bytes \<Rightarrow> bytes \<Rightarrow> 's \<Rightarrow> nat poll \<Rightarrow> 's \<Rightarrow> bool" where
  "write_delivers idle mid out acc data s r s' \<longleftrightarrow>
     length (slots (out s')) \<le> length (slots (out s)) \<and> (sink_good (out s) \<longrightarrow> sink_good (out s')) \<and>
     (case r of
        Ready n \<Rightarrow> n \<le> length data \<and> idle s' (acc @ take n data) \<and> (sink_good (out s) \<longrightarrow> n \<noteq> 0)
      | Pending \<Rightarrow> (idle s' acc \<or> mid s' acc data) \<and> length (slots (out s')) < length (slots (out s))
      | Failed e \<Rightarrow> \<not> sink_good (out s))"

lemma write_delivers_weaken:
  "write_delivers idle mid out acc data t r s' \<Longrightarrow> length (slots (out t)) \<le> length (slots (out s)) \<Longrightarrow>
   (sink_good (out s) \<Longrightarrow> sink_good (out t)) \<Longrightarrow> write_delivers idle mid out acc data s r s'"
  by (cases r) (auto simp: write_delivers_def)

lemma write_delivers_same_sink:
  "write_delivers idle mid out acc data t r s' \<Longrightarrow> out t = out s \<Longrightarrow> write_delivers idle mid out acc data s r s'"
  by (erule write_delivers_weaken) simp_all

text \<open>\<^verbatim>\<open>AsyncWriteExt::write_all\<close>: the rest of the data is offered again until all of it has been accepted;
  \<open>rnd i\<close> is what the layer draws at random in a call, and \<open>fuel\<close> bounds the calls.\<close>

fun offer_all :: "('r \<Rightarrow> bytes \<Rightarrow> 's \<Rightarrow> nat poll \<times> 's) \<Rightarrow> nat \<Rightarrow> (nat \<Rightarrow> 'r) \<Rightarrow> bytes \<Rightarrow> 's \<Rightarrow> bool option \<times> 's" where
  "offer_all push 0 rnd data s = (None, s)"
| "offer_all push (Suc fuel) rnd data s =
     (if data = [] then (Some True, s)
      else
        (case push (rnd fuel) data s of
           (Ready n, s) \<Rightarrow> if n = 0 then (Some False, s) else offer_all push fuel rnd (drop n data) s
         | (Pending, s) \<Rightarrow> offer_all push fuel rnd data s
         | (Failed e, s) \<Rightarrow> (Some False, s)))"

locale layered_writer =
  fixes push :: "'r \<Rightarrow> bytes \<Rightarrow> 's \<Rightarrow> nat poll \<times> 's"
    and idle :: "'s \<Rightarrow> bytes \<Rightarrow> bool"
    and mid :: "'s \<Rightarrow> bytes \<Rightarrow> bytes \<Rightarrow> bool"
    and out :: "'s \<Rightarrow> sink"
    and fits :: "bytes \<Rightarrow> bool"
  assumes write_step: "idle s acc \<or> mid s acc data \<Longrightarrow> data \<noteq> [] \<Longrightarrow> fits data \<Longrightarrow> push rnd data s = (r, s') \<Longrightarrow>
    write_delivers idle mid out acc data s r s'"
    and fits_drop: "fits data \<Longrightarrow> fits (drop n data)"
begin

lemma offer_all_delivers:
  "idle s acc \<or> mid s acc data \<Longrightarrow> fits data \<Longrightarrow> offer_all push fuel rnd data s = (r, s') \<Longrightarrow>
   (r = Some True \<longrightarrow> idle s' (acc @ data) \<or> data = [])
   \<and> (length data + length (slots (out s)) < fuel \<longrightarrow> r \<noteq> None)
   \<and> (sink_good (out s) \<longrightarrow> r \<noteq> Some False)"
proof (induction fuel arbitrary: s acc data)
  case (Suc fuel)
  show ?case
  proof (cases "data = []")
    case True
    then show ?thesis using Suc.prems by auto
  next
    case d: False
    obtain q w where q: "push (rnd fuel) data s = (q, w)" by fastforce
    have sp: "write_delivers idle mid out acc data s q w" by (rule write_step [OF Suc.prems(1) d Suc.prems(2) q])
    show ?thesis
    proof (cases q)
      case (Ready n)
      show ?thesis
      proof (cases "n = 0")
        case True
        then show ?thesis using Suc.prems(3) d q Ready sp by (auto simp: write_delivers_def)
      next
        case False
        then have o: "offer_all push fuel rnd (drop n data) w = (r, s')" using Suc.prems(3) d q Ready by simp
        have i: "idle w (acc @ take n data)" "n \<le> length data" using sp Ready by (auto simp: write_delivers_def)
        note ih = Suc.IH [OF disjI1 [OF i(1)] fits_drop [OF Suc.prems(2)] o]
        have "drop n data = [] \<Longrightarrow> r = Some True \<Longrightarrow> idle s' (acc @ data)" using o i by (cases fuel) auto
        moreover have "length data + length (slots (out s)) < Suc fuel \<Longrightarrow> length (drop n data) + length (slots (out w)) < fuel"
          using sp i(2) False d by (cases data) (auto simp: write_delivers_def)
        ultimately show ?thesis using ih sp by (auto simp: write_delivers_def)
      qed
    next
      case Pending
      then have "offer_all push fuel rnd data w = (r, s')" using Suc.prems(3) d q by simp
      then show ?thesis using Suc.IH [of w acc data] Suc.prems(2) sp Pending by (auto simp: write_delivers_def)
    next
      case (Failed e)
      then show ?thesis using Suc.prems(3) d q sp by (auto simp: write_delivers_def)
    qed
  qed
qed simp

lemma write_all_succeeds:
  assumes "idle s []" "sink_good (out s)" "data \<noteq> []" "fits data" "length data + length (slots (out s)) < fuel"
  shows "\<exists>s'. offer_all push fuel rnd data s = (Some True, s') \<and> idle s' data"
proof -
  obtain r s' where o: "offer_all push fuel rnd data s = (r, s')" by fastforce
  have d: "(r = Some True \<longrightarrow> idle s' data \<or> data = []) \<and> r \<noteq> None \<and> r \<noteq> Some False"
    using offer_all_delivers [OF disjI1 [OF assms(1)] assms(4) o] assms(2,5) by simp
  then have "r = Some True" by (cases r) auto
  then show ?thesis using o d assms(3) by blast
qed

end

end
