(* ===== verification/VisionStream.thy ===== *)
theory VisionStream
  imports ProxyWire ProxySink
begin

text \<open>
  \<^verbatim>\<open>crates/clash-proxynet/src/vision.rs\<close>: the framing layer of the Vision flow. The reader is a
  state machine over a fixed buffer (\<^verbatim>\<open>compact\<close>, \<^verbatim>\<open>try_decide\<close>, \<^verbatim>\<open>read_frame_header\<close>,
  \<^verbatim>\<open>finish_framing\<close>, \<^verbatim>\<open>fill_from_session\<close>), the writer pads each chunk into a frame and
  survives partial writes. Random padding lengths are an argument, and so is the session's
  \<^verbatim>\<open>vision_detach\<close>. The results: whatever the pieces in which bytes arrive, the reader
  delivers exactly the contents of the frames and then the raw remainder; and what the writer
  puts on the wire is exactly such a sequence of frames for the data it accepted.
\<close>

definition HEADER_SIZE :: nat where "HEADER_SIZE = 5"
definition CMD_CONTINUE :: u8 where "CMD_CONTINUE = 0"
definition CMD_END :: u8 where "CMD_END = 1"
definition CMD_DIRECT :: u8 where "CMD_DIRECT = 2"
definition MAX_FRAME :: nat where "MAX_FRAME = 8192"
definition MAX_PADDING_ONLY :: nat where "MAX_PADDING_ONLY = 64"
definition TLS_APP :: u8 where "TLS_APP = 0x17"

datatype vmode = Undecided | Framed | Raw

record vision =
  session :: inner_stream
  read_source :: "inner_stream option"
  uuid :: bytes
  vbuffer :: bytes
  vstart :: nat
  vend :: nat
  vmode :: vmode
  command :: u8
  remaining_content :: nat
  remaining_padding :: nat
  padding_only :: nat

definition vision_new :: "inner_stream \<Rightarrow> bytes \<Rightarrow> vision" where
  "vision_new s u = \<lparr>session = s, read_source = None, uuid = u, vbuffer = replicate MAX_FRAME 0,
     vstart = 0, vend = 0, vmode = Undecided, command = CMD_CONTINUE, remaining_content = 0,
     remaining_padding = 0, padding_only = 0\<rparr>"

definition buffered :: "vision \<Rightarrow> nat" where
  "buffered v = vend v - vstart v"

definition compact :: "nat \<Rightarrow> vision \<Rightarrow> vision" where
  "compact need v =
     (if vstart v = vend v then v\<lparr>vstart := 0, vend := 0\<rparr>
      else if vend v + need \<le> length (vbuffer v) then v
      else v\<lparr>vbuffer := put_at 0 (slice (vstart v) (vend v) (vbuffer v)) (vbuffer v),
             vend := vend v - vstart v, vstart := 0\<rparr>)"

definition try_decide :: "vision \<Rightarrow> bool \<times> vision" where
  "try_decide v =
     (let compared = min (buffered v) UUID_SIZE in
      if 0 < compared \<and> slice (vstart v) (vstart v + compared) (vbuffer v) \<noteq> take compared (uuid v)
      then (True, v\<lparr>vmode := Raw\<rparr>)
      else if buffered v < UUID_SIZE + HEADER_SIZE then (False, v)
      else (True, v\<lparr>vstart := vstart v + UUID_SIZE, vmode := Framed\<rparr>))"

definition read_frame_header :: "vision \<Rightarrow> bool \<times> vision" where
  "read_frame_header v =
     (let h = slice (vstart v) (vstart v + HEADER_SIZE) (vbuffer v);
          v = v\<lparr>command := h ! 0,
                remaining_content := unat (from_be16 (h ! 1) (h ! 2)),
                remaining_padding := unat (from_be16 (h ! 3) (h ! 4))\<rparr>
      in if MAX_FRAME < remaining_content v + remaining_padding v + HEADER_SIZE then (False, v)
         else
           (let v = v\<lparr>vstart := vstart v + HEADER_SIZE\<rparr> in
            if 0 < remaining_content v then (True, v\<lparr>padding_only := 0\<rparr>)
            else
              (let v = v\<lparr>padding_only := padding_only v + 1\<rparr>
               in (\<not> MAX_PADDING_ONLY < padding_only v, v))))"

text \<open>\<open>detach\<close> is \<^verbatim>\<open>vision_detach\<close> of the session: the raw stream below it, with the given
  leftover first.\<close>

definition finish_framing :: "(inner_stream \<Rightarrow> bytes \<Rightarrow> inner_stream option) \<Rightarrow> vision \<Rightarrow> vision" where
  "finish_framing detach v =
     (let v = (if command v = CMD_DIRECT then
                 (let extra = (if 0 < buffered v then slice (vstart v) (vend v) (vbuffer v) else []);
                      v = (if 0 < buffered v then v\<lparr>vstart := vend v\<rparr> else v)
                  in case detach (session v) extra of
                       Some raw \<Rightarrow> v\<lparr>read_source := Some raw\<rparr>
                     | None \<Rightarrow> v)
               else v)
      in v\<lparr>vmode := Raw\<rparr>)"

definition fill_from_session :: "vision \<Rightarrow> nat poll \<times> vision" where
  "fill_from_session v =
     (let v = compact 1 v; spare = length (vbuffer v) - vend v in
      if spare = 0 then (Ready 0, v)
      else
        (case inner_read (min 2048 spare) (session v) of
           (Ready bs, s) \<Rightarrow>
             (Ready (length bs),
              v\<lparr>session := s, vbuffer := put_at (vend v) bs (vbuffer v), vend := vend v + length bs\<rparr>)
         | (Failed e, s) \<Rightarrow> (Failed e, v\<lparr>session := s\<rparr>)
         | (Pending, s) \<Rightarrow> (Pending, v\<lparr>session := s\<rparr>)))"

text \<open>The rank that orders the modes for termination.\<close>

fun mode_rank :: "vmode \<Rightarrow> nat" where
  "mode_rank Undecided = 2"
| "mode_rank Framed = 1"
| "mode_rank Raw = 0"

definition read_work :: "vision \<Rightarrow> nat" where
  "read_work v = 2 * stream_size (session v) + buffered v"

text \<open>One round of the loop in \<^verbatim>\<open>poll_read\<close>: a result, or another round in a new state.\<close>

definition read_raw :: "nat \<Rightarrow> vision \<Rightarrow> bytes poll \<times> vision" where
  "read_raw cap v =
     (if 0 < buffered v then
        (let n = min (buffered v) cap
         in (Ready (slice (vstart v) (vstart v + n) (vbuffer v)), v\<lparr>vstart := vstart v + n\<rparr>))
      else
        (case read_source v of
           Some src \<Rightarrow> (case inner_read cap src of (r, src) \<Rightarrow> (r, v\<lparr>read_source := Some src\<rparr>))
         | None \<Rightarrow> (case inner_read cap (session v) of (r, s) \<Rightarrow> (r, v\<lparr>session := s\<rparr>))))"

datatype 'a round = Return "bytes poll" 'a | Again 'a

definition round_undecided :: "vision \<Rightarrow> vision round" where
  "round_undecided v =
     (case try_decide v of
        (True, v) \<Rightarrow> Again v
      | (False, v) \<Rightarrow>
          (case fill_from_session v of
             (Ready n, v) \<Rightarrow> if n = 0 then Again (v\<lparr>vmode := Raw\<rparr>) else Again v
           | (Failed e, v) \<Rightarrow> Return (Failed e) v
           | (Pending, v) \<Rightarrow> Return Pending v))"

definition round_header :: "(inner_stream \<Rightarrow> bytes \<Rightarrow> inner_stream option) \<Rightarrow> vision \<Rightarrow> vision round" where
  "round_header detach v =
     (if command v = CMD_END \<or> command v = CMD_DIRECT then Again (finish_framing detach v)
      else if buffered v < HEADER_SIZE then
        (case fill_from_session v of
           (Ready n, v) \<Rightarrow>
             if n = 0 then (if buffered v = 0 then Return (Ready []) v else Return (Failed UnexpectedEof) v)
             else Again v
         | (Failed e, v) \<Rightarrow> Return (Failed e) v
         | (Pending, v) \<Rightarrow> Return Pending v)
      else
        (case read_frame_header v of
           (False, v) \<Rightarrow> Return (Failed OtherError) v
         | (True, v) \<Rightarrow> Again v))"

definition round_body :: "nat \<Rightarrow> vision \<Rightarrow> vision round" where
  "round_body cap v =
     (if buffered v = 0 then
        (case fill_from_session v of
           (Ready n, v) \<Rightarrow> if n = 0 then Return (Failed UnexpectedEof) v else Again v
         | (Failed e, v) \<Rightarrow> Return (Failed e) v
         | (Pending, v) \<Rightarrow> Return Pending v)
      else if 0 < remaining_content v then
        (let n = min (min (remaining_content v) (buffered v)) cap
         in Return (Ready (slice (vstart v) (vstart v + n) (vbuffer v)))
              (v\<lparr>vstart := vstart v + n, remaining_content := remaining_content v - n\<rparr>))
      else
        (let skip = min (remaining_padding v) (buffered v)
         in Again (v\<lparr>vstart := vstart v + skip, remaining_padding := remaining_padding v - skip\<rparr>)))"

definition vision_round ::
  "(inner_stream \<Rightarrow> bytes \<Rightarrow> inner_stream option) \<Rightarrow> nat \<Rightarrow> vision \<Rightarrow> vision round" where
  "vision_round detach cap v =
     (case vmode v of
        Raw \<Rightarrow> (case read_raw cap v of (r, v) \<Rightarrow> Return r v)
      | Undecided \<Rightarrow> round_undecided v
      | Framed \<Rightarrow>
          if remaining_content v = 0 \<and> remaining_padding v = 0 then round_header detach v
          else round_body cap v)"

section \<open>Termination of a read\<close>

lemma inner_read_work:
  "0 < cap \<Longrightarrow> inner_read cap es = (Ready bs, es') \<Longrightarrow> bs \<noteq> [] \<Longrightarrow>
   2 * stream_size es' + length bs < 2 * stream_size es"
proof (induction cap es rule: inner_read.induct)
  case (4 cap bs es)
  then show ?case by (cases "bs = []") (auto split: if_splits)
qed auto

lemma buffered_compact [simp]: "buffered (compact n v) = buffered v"
  by (simp add: buffered_def compact_def)

lemma compact_fields [simp]:
  "session (compact n v) = session v" "read_source (compact n v) = read_source v"
  "uuid (compact n v) = uuid v" "vmode (compact n v) = vmode v" "command (compact n v) = command v"
  "remaining_content (compact n v) = remaining_content v"
  "remaining_padding (compact n v) = remaining_padding v" "padding_only (compact n v) = padding_only v"
  by (simp_all add: compact_def)

lemma fill_cases:
  assumes "fill_from_session v = (r, v')"
  defines "w \<equiv> compact 1 v"
  obtains (full) "length (vbuffer w) \<le> vend w" "r = Ready 0" "v' = w"
  | (got) bs s where "inner_read (min 2048 (length (vbuffer w) - vend w)) (session v) = (Ready bs, s)"
      "vend w < length (vbuffer w)" "r = Ready (length bs)"
      "v' = w\<lparr>session := s, vbuffer := put_at (vend w) bs (vbuffer w), vend := vend w + length bs\<rparr>"
  | (none) q s where "inner_read (min 2048 (length (vbuffer w) - vend w)) (session v) = (q, s)"
      "vend w < length (vbuffer w)" "v' = w\<lparr>session := s\<rparr>"
      "q = Pending \<and> r = Pending \<or> (\<exists>e. q = Failed e \<and> r = Failed e)"
proof (cases "length (vbuffer w) - vend w = 0")
  case True
  then show ?thesis using full assms(1) by (simp add: fill_from_session_def Let_def w_def)
next
  case False
  obtain q s where q: "inner_read (min 2048 (length (vbuffer w) - vend w)) (session v) = (q, s)" by fastforce
  show ?thesis
    using assms(1) False got [of _ s] none [of q s] q
    by (cases q) (simp_all add: fill_from_session_def Let_def w_def)
qed

lemma fill_work:
  assumes "fill_from_session v = (Ready n, v')"
  shows "vmode v' = vmode v" "if n = 0 then read_work v' \<le> read_work v else read_work v' < read_work v"
proof -
  have "vmode v' = vmode v \<and> (if n = 0 then read_work v' \<le> read_work v else read_work v' < read_work v)"
    using assms
  proof (cases rule: fill_cases)
    case (got bs s)
    have b: "buffered v' \<le> buffered v + length bs"
      using buffered_compact [of 1 v] by (auto simp: got(4) buffered_def)
    show ?thesis
    proof (cases "bs = []")
      case True
      then have "s = []" using inner_read_eof [OF _ got(1) [unfolded True]] got(2) by simp
      then show ?thesis using True b got by (simp add: read_work_def)
    next
      case False
      then show ?thesis using inner_read_work [OF _ got(1) False] b got by (simp add: read_work_def)
    qed
  qed (simp_all add: read_work_def)
  then show "vmode v' = vmode v" "if n = 0 then read_work v' \<le> read_work v else read_work v' < read_work v"
    by simp_all
qed

lemma round_progress:
  assumes "vision_round detach cap v = Again v'"
  shows "read_work v' < read_work v \<or> read_work v' \<le> read_work v \<and> mode_rank (vmode v') < mode_rank (vmode v)"
proof (cases "vmode v")
  case Raw
  then show ?thesis using assms by (simp add: vision_round_def split: prod.splits)
next
  case Undecided
  then have r: "round_undecided v = Again v'" using assms by (simp add: vision_round_def)
  show ?thesis
  proof (cases "fst (try_decide v)")
    case True
    then show ?thesis using r Undecided
      by (auto simp: round_undecided_def try_decide_def read_work_def buffered_def Let_def UUID_SIZE_def HEADER_SIZE_def
          split: if_splits)
  next
    case False
    then have d: "try_decide v = (False, v)" by (auto simp: try_decide_def Let_def split: if_splits)
    then obtain n w where f: "fill_from_session v = (Ready n, w)" "v' = (if n = 0 then w\<lparr>vmode := Raw\<rparr> else w)"
      using r by (auto simp: round_undecided_def split: poll.splits prod.splits if_splits)
    show ?thesis using fill_work [OF f(1)] f(2) Undecided
      by (auto simp: read_work_def buffered_def split: if_splits)
  qed
next
  case Framed
  show ?thesis
  proof (cases "remaining_content v = 0 \<and> remaining_padding v = 0")
    case True
    then have r: "round_header detach v = Again v'" using assms Framed by (simp add: vision_round_def)
    consider "command v = CMD_END \<or> command v = CMD_DIRECT" | "buffered v < HEADER_SIZE" "\<not> (command v = CMD_END \<or> command v = CMD_DIRECT)"
      | "\<not> buffered v < HEADER_SIZE" "\<not> (command v = CMD_END \<or> command v = CMD_DIRECT)" by blast
    then show ?thesis
    proof cases
      case 1
      then show ?thesis using r Framed
        by (auto simp: round_header_def finish_framing_def read_work_def buffered_def Let_def split: option.splits)
    next
      case 2
      then obtain n w where f: "fill_from_session v = (Ready n, w)" "v' = w" "n \<noteq> 0"
        using r by (auto simp: round_header_def split: poll.splits prod.splits if_splits)
      then show ?thesis using fill_work [OF f(1)] by simp
    next
      case 3
      then show ?thesis using r
        by (auto simp: round_header_def read_frame_header_def read_work_def buffered_def Let_def HEADER_SIZE_def
            split: if_splits bool.splits)
    qed
  next
    case False
    then have r: "round_body cap v = Again v'" using assms Framed
      by (simp add: vision_round_def split: if_splits)
    show ?thesis
    proof (cases "buffered v = 0")
      case True
      then obtain n w where f: "fill_from_session v = (Ready n, w)" "v' = w" "n \<noteq> 0"
        using r by (auto simp: round_body_def split: poll.splits prod.splits if_splits)
      then show ?thesis using fill_work [OF f(1)] by simp
    next
      case b: False
      then show ?thesis using r False
        by (auto simp: round_body_def read_work_def buffered_def Let_def split: if_splits)
    qed
  qed
qed

function vision_poll_read ::
  "(inner_stream \<Rightarrow> bytes \<Rightarrow> inner_stream option) \<Rightarrow> nat \<Rightarrow> vision \<Rightarrow> bytes poll \<times> vision" where
  "vision_poll_read detach cap v =
     (case vision_round detach cap v of
        Return r v \<Rightarrow> (r, v)
      | Again v \<Rightarrow> vision_poll_read detach cap v)"
  by pat_completeness auto

termination vision_poll_read
  by (relation "measures [\<lambda>(d, c, v). read_work v, \<lambda>(d, c, v). mode_rank (vmode v)]")
    (auto dest: round_progress)

declare vision_poll_read.simps [simp del]


section \<open>The buffer\<close>

definition content :: "vision \<Rightarrow> bytes" where
  "content v = slice (vstart v) (vend v) (vbuffer v)"

definition vis_ok :: "vision \<Rightarrow> bool" where
  "vis_ok v \<longleftrightarrow> vstart v \<le> vend v \<and> vend v \<le> length (vbuffer v) \<and> length (vbuffer v) = MAX_FRAME
     \<and> length (uuid v) = UUID_SIZE \<and> unbroken (session v)"

lemma length_content: "vis_ok v \<Longrightarrow> length (content v) = buffered v"
  by (auto simp: content_def buffered_def vis_ok_def)

lemma compact_content:
  assumes "vis_ok v"
  shows "vis_ok (compact n v)" "content (compact n v) = content v"
proof -
  have "vstart v \<le> vend v" "vend v \<le> length (vbuffer v)" "length (vbuffer v) = MAX_FRAME"
    using assms by (auto simp: vis_ok_def)
  then show "vis_ok (compact n v)" "content (compact n v) = content v"
    using assms by (auto simp: vis_ok_def content_def compact_def slice_def put_at_def)
qed

lemma compact_room: "vis_ok v \<Longrightarrow> buffered v < MAX_FRAME \<Longrightarrow> vend (compact 1 v) < length (vbuffer (compact 1 v))"
  by (auto simp: vis_ok_def compact_def buffered_def MAX_FRAME_def)

lemma append_buffer:
  assumes "vis_ok v" "vend v + length bs \<le> length (vbuffer v)" "unbroken s"
  shows "vis_ok (v\<lparr>session := s, vbuffer := put_at (vend v) bs (vbuffer v), vend := vend v + length bs\<rparr>)"
    and "content (v\<lparr>session := s, vbuffer := put_at (vend v) bs (vbuffer v), vend := vend v + length bs\<rparr>)
      = content v @ bs"
proof -
  have b: "vstart v \<le> vend v" "vend v \<le> length (vbuffer v)" using assms by (auto simp: vis_ok_def)
  show "vis_ok (v\<lparr>session := s, vbuffer := put_at (vend v) bs (vbuffer v), vend := vend v + length bs\<rparr>)"
    using assms b by (auto simp: vis_ok_def)
  have "slice (vstart v) (vend v + length bs) (put_at (vend v) bs (vbuffer v)) = slice (vstart v) (vend v) (vbuffer v) @ bs"
    using b assms(2) by (simp add: slice_def put_at_def drop_take)
  then show "content (v\<lparr>session := s, vbuffer := put_at (vend v) bs (vbuffer v), vend := vend v + length bs\<rparr>)
      = content v @ bs"
    by (simp add: content_def)
qed

text \<open>The fields a fill leaves alone.\<close>

definition same_state :: "vision \<Rightarrow> vision \<Rightarrow> bool" where
  "same_state v w \<longleftrightarrow> uuid w = uuid v \<and> vmode w = vmode v \<and> command w = command v
     \<and> remaining_content w = remaining_content v \<and> remaining_padding w = remaining_padding v
     \<and> padding_only w = padding_only v \<and> read_source w = read_source v"

definition rest :: "vision \<Rightarrow> bytes" where
  "rest v = content v @ arriving (session v)"

lemma fill_session_spec:
  assumes ok: "vis_ok v" and room: "buffered v < MAX_FRAME" and f: "fill_from_session v = (r, v')"
  shows "vis_ok v' \<and> same_state v v' \<and> rest v' = rest v \<and> waits (session v') \<le> waits (session v)"
    and "case r of
        Ready n \<Rightarrow> length (content v') = length (content v) + n \<and> (n = 0 \<longrightarrow> rest v = content v \<and> content v' = content v)
      | Pending \<Rightarrow> waits (session v') < waits (session v)
      | Failed e \<Rightarrow> False"
proof -
  note c = compact_content [OF ok, of 1] and spare = compact_room [OF ok room]
  have un: "unbroken (session v)" using ok by (simp add: vis_ok_def)
  have "(vis_ok v' \<and> same_state v v' \<and> rest v' = rest v \<and> waits (session v') \<le> waits (session v))
    \<and> (case r of
        Ready n \<Rightarrow> length (content v') = length (content v) + n \<and> (n = 0 \<longrightarrow> rest v = content v \<and> content v' = content v)
      | Pending \<Rightarrow> waits (session v') < waits (session v)
      | Failed e \<Rightarrow> False)"
    using f
  proof (cases rule: fill_cases)
    case full
    then show ?thesis using spare by simp
  next
    case (got bs s)
    note u = inner_read_unbroken [OF un got(1)] and arr = inner_read_arriving [OF got(1)]
    have "length bs \<le> length (vbuffer (compact 1 v)) - vend (compact 1 v)"
      using inner_read_cap [OF got(1)] by simp
    then have len: "vend (compact 1 v) + length bs \<le> length (vbuffer (compact 1 v))" using spare by simp
    have v': "vis_ok v'" "content v' = content v @ bs"
      unfolding got(4) using append_buffer [OF c(1) len, of s] u c(2) by simp_all
    have "bs = [] \<Longrightarrow> arriving (session v) = []"
      using inner_read_eof [of "min 2048 (length (vbuffer (compact 1 v)) - vend (compact 1 v))" "session v" s] got(1) spare by simp
    then show ?thesis using v' u arr got(3,4) by (auto simp: rest_def same_state_def)
  next
    case (none q s)
    note u = inner_read_unbroken [OF un none(1)] and arr = inner_read_arriving [OF none(1)]
    have q: "q = Pending" "r = Pending" using none(4) u by auto
    have "vis_ok v'" "content v' = content v"
      using c u none(3) by (auto simp: vis_ok_def content_def)
    then show ?thesis using u arr none(3) q c by (auto simp: rest_def same_state_def)
  qed
  then show "vis_ok v' \<and> same_state v v' \<and> rest v' = rest v \<and> waits (session v') \<le> waits (session v)"
    and "case r of
        Ready n \<Rightarrow> length (content v') = length (content v) + n \<and> (n = 0 \<longrightarrow> rest v = content v \<and> content v' = content v)
      | Pending \<Rightarrow> waits (session v') < waits (session v)
      | Failed e \<Rightarrow> False"
    by simp_all
qed


section \<open>Well-formed frame sequences\<close>

text \<open>
  \<open>framed T cmd rc rp po bs payload\<close>: after a header with command \<open>cmd\<close> of which \<open>rc\<close> content and
  \<open>rp\<close> padding bytes are left, \<open>bs\<close> is a well-formed remainder of the stream that carries
  \<open>payload\<close>; \<open>po\<close> counts the frames without content seen in a row. \<open>T\<close> is what the raw transport
  below the session delivers once the framing has ended with \<open>CMD_DIRECT\<close>; without one (\<open>None\<close>) no
  such frame may come.
\<close>

inductive framed :: "inner_stream option \<Rightarrow> u8 \<Rightarrow> nat \<Rightarrow> nat \<Rightarrow> nat \<Rightarrow> bytes \<Rightarrow> bytes \<Rightarrow> bool" for T where
  framed_end: "framed T CMD_END 0 0 po bs bs"
| framed_direct: "T = Some t \<Longrightarrow> framed T CMD_DIRECT 0 0 po bs (bs @ arriving t)"
| framed_eof: "cmd \<noteq> CMD_END \<Longrightarrow> cmd \<noteq> CMD_DIRECT \<Longrightarrow> framed T cmd 0 0 po [] []"
| framed_header: "cmd \<noteq> CMD_END \<Longrightarrow> cmd \<noteq> CMD_DIRECT \<Longrightarrow>
    unat (from_be16 c1 c2) + unat (from_be16 p1 p2) + HEADER_SIZE \<le> MAX_FRAME \<Longrightarrow>
    po' = (if 0 < unat (from_be16 c1 c2) then 0 else po + 1) \<Longrightarrow> po' \<le> MAX_PADDING_ONLY \<Longrightarrow>
    framed T cmd' (unat (from_be16 c1 c2)) (unat (from_be16 p1 p2)) po' bs pl \<Longrightarrow>
    framed T cmd 0 0 po (cmd' # c1 # c2 # p1 # p2 # bs) pl"
| framed_content: "framed T cmd rc rp po bs pl \<Longrightarrow> framed T cmd (Suc rc) rp po (b # bs) (b # pl)"
| framed_padding: "framed T cmd 0 rp po bs pl \<Longrightarrow> framed T cmd 0 (Suc rp) po (b # bs) pl"

inductive_cases framed_0_E: "framed T cmd 0 0 po bs pl"
inductive_cases framed_content_E: "framed T cmd (Suc rc) rp po bs pl"
inductive_cases framed_padding_E: "framed T cmd 0 (Suc rp) po bs pl"

lemma framed_more: "framed T cmd rc rp po bs pl \<Longrightarrow> rc \<noteq> 0 \<or> rp \<noteq> 0 \<Longrightarrow> bs \<noteq> []"
  by (induction rule: framed.induct) auto

lemma framed_take:
  "framed T cmd rc rp po (xs @ ys) pl \<Longrightarrow> length xs \<le> rc \<Longrightarrow>
   \<exists>pl'. pl = xs @ pl' \<and> framed T cmd (rc - length xs) rp po ys pl'"
proof (induction xs arbitrary: rc pl)
  case (Cons x xs)
  then obtain k where k: "rc = Suc k" by (cases rc) auto
  from Cons.prems(1) obtain pl1 where "pl = x # pl1" "framed T cmd k rp po (xs @ ys) pl1"
    unfolding k by (auto elim: framed_content_E)
  then show ?case using Cons.IH [of k pl1] Cons.prems(2) k by auto
qed simp

lemma framed_skip:
  "framed T cmd 0 rp po (xs @ ys) pl \<Longrightarrow> length xs \<le> rp \<Longrightarrow> framed T cmd 0 (rp - length xs) po ys pl"
proof (induction xs arbitrary: rp)
  case (Cons x xs)
  then obtain k where k: "rp = Suc k" by (cases rp) auto
  from Cons.prems(1) have "framed T cmd 0 k po (xs @ ys) pl"
    unfolding k by (auto elim: framed_padding_E)
  then show ?case using Cons.IH [of k] Cons.prems(2) k by auto
qed simp

lemma framed_next:
  assumes "framed T cmd 0 0 po bs pl" "cmd \<noteq> CMD_END" "cmd \<noteq> CMD_DIRECT" "bs \<noteq> []"
  obtains cmd' c1 c2 p1 p2 bs' po' where "bs = cmd' # c1 # c2 # p1 # p2 # bs'"
    "unat (from_be16 c1 c2) + unat (from_be16 p1 p2) + HEADER_SIZE \<le> MAX_FRAME"
    "po' = (if 0 < unat (from_be16 c1 c2) then 0 else po + 1)" "po' \<le> MAX_PADDING_ONLY"
    "framed T cmd' (unat (from_be16 c1 c2)) (unat (from_be16 p1 p2)) po' bs' pl"
  using assms(1) by (rule framed_0_E) (use assms that in blast)+

lemma framed_short:
  assumes "framed T cmd 0 0 po bs pl" "cmd \<noteq> CMD_END" "cmd \<noteq> CMD_DIRECT" "length bs < 5"
  shows "bs = [] \<and> pl = []"
  using assms(1) by (rule framed_0_E) (use assms in auto)

lemma framed_directE:
  assumes "framed T CMD_DIRECT 0 0 po bs pl"
  obtains raw where "T = Some raw" "pl = bs @ arriving raw"
  using assms by (rule framed_0_E) (use that in \<open>auto simp: CMD_END_def CMD_DIRECT_def\<close>)

text \<open>
  What the session promises for \<^verbatim>\<open>vision_detach\<close>: the stream it hands out delivers the leftover it was
  given, then what the session itself still holds, then the raw transport \<open>raw\<close>.
\<close>

definition detaches :: "(inner_stream \<Rightarrow> bytes \<Rightarrow> inner_stream option) \<Rightarrow> inner_stream \<Rightarrow> bool" where
  "detaches detach raw \<longleftrightarrow>
     (\<forall>es extra. unbroken es \<longrightarrow>
        (\<exists>s. detach es extra = Some s \<and> unbroken s \<and> arriving s = extra @ arriving es @ arriving raw
           \<and> waits s \<le> waits es + waits raw))"

definition can_detach :: "(inner_stream \<Rightarrow> bytes \<Rightarrow> inner_stream option) \<Rightarrow> inner_stream option \<Rightarrow> bool" where
  "can_detach detach T = (case T of None \<Rightarrow> True | Some raw \<Rightarrow> detaches detach raw)"

definition raw_waits :: "inner_stream option \<Rightarrow> nat" where
  "raw_waits T = (case T of None \<Rightarrow> 0 | Some raw \<Rightarrow> waits raw)"

definition vision_waits :: "inner_stream option \<Rightarrow> vision \<Rightarrow> nat" where
  "vision_waits T v = (case read_source v of Some s \<Rightarrow> waits s | None \<Rightarrow> waits (session v) + raw_waits T)"

text \<open>What a state still owes its reader.\<close>

definition expects :: "inner_stream option \<Rightarrow> vision \<Rightarrow> bytes \<Rightarrow> bool" where
  "expects T v pl \<longleftrightarrow> vis_ok v \<and>
     (case vmode v of
        Raw \<Rightarrow> (case read_source v of None \<Rightarrow> pl = rest v | Some s \<Rightarrow> unbroken s \<and> pl = content v @ arriving s)
      | Framed \<Rightarrow> read_source v = None
          \<and> framed T (command v) (remaining_content v) (remaining_padding v) (padding_only v) (rest v) pl
      | Undecided \<Rightarrow> read_source v = None
          \<and> command v = CMD_CONTINUE \<and> remaining_content v = 0 \<and> remaining_padding v = 0
          \<and> (if take 16 (rest v) = uuid v \<and> 21 \<le> length (rest v)
             then framed T CMD_CONTINUE 0 0 (padding_only v) (drop 16 (rest v)) pl
             else pl = rest v))"

text \<open>Taking bytes off the front of the buffer.\<close>

lemma advance_start:
  assumes "vis_ok v" "n \<le> buffered v"
  shows "vis_ok (v\<lparr>vstart := vstart v + n\<rparr>)"
    and "slice (vstart v) (vstart v + n) (vbuffer v) = take n (content v)"
    and "content (v\<lparr>vstart := vstart v + n\<rparr>) = drop n (content v)"
    and "rest (v\<lparr>vstart := vstart v + n\<rparr>) = drop n (rest v)"
proof -
  have b: "vstart v \<le> vend v" "vend v \<le> length (vbuffer v)" "n \<le> vend v - vstart v"
    using assms by (auto simp: vis_ok_def buffered_def)
  show "vis_ok (v\<lparr>vstart := vstart v + n\<rparr>)" using assms b by (auto simp: vis_ok_def)
  show "slice (vstart v) (vstart v + n) (vbuffer v) = take n (content v)"
    using b by (simp add: content_def slice_def min_def)
  show c: "content (v\<lparr>vstart := vstart v + n\<rparr>) = drop n (content v)"
    using b by (simp add: content_def slice_def drop_take add.commute)
  then show "rest (v\<lparr>vstart := vstart v + n\<rparr>) = drop n (rest v)"
    using length_content [OF assms(1)] assms(2) by (simp add: rest_def)
qed


abbreviation delivers :: "inner_stream option \<Rightarrow> bytes \<Rightarrow> vision \<Rightarrow> bytes poll \<Rightarrow> vision \<Rightarrow> bool" where
  "delivers T \<equiv> step_delivers (expects T) (vision_waits T)"

lemmas delivers_def = step_delivers_def [of "expects T" "vision_waits T" for T]

definition round_good :: "inner_stream option \<Rightarrow> bytes \<Rightarrow> vision \<Rightarrow> vision round \<Rightarrow> bool" where
  "round_good T pl v x \<longleftrightarrow>
     (case x of
        Return r v' \<Rightarrow> delivers T pl v r v'
      | Again v' \<Rightarrow> expects T v' pl \<and> vision_waits T v' \<le> vision_waits T v)"

text \<open>Without a raw source only the session counts.\<close>

lemma vision_waits_session: "read_source v = None \<Longrightarrow> vision_waits T v = waits (session v) + raw_waits T"
  by (simp add: vision_waits_def)

lemma same_state_waits:
  "same_state v w \<Longrightarrow> read_source v = None \<Longrightarrow> vision_waits T w = waits (session w) + raw_waits T"
  by (simp add: vision_waits_def same_state_def)

lemma expects_same:
  assumes "expects T v pl" "vis_ok v'" "same_state v v'" "rest v' = rest v" "read_source v = None"
  shows "expects T v' pl"
  using assms by (auto simp: expects_def same_state_def split: vmode.splits)

lemma raw_good:
  assumes e: "expects T v pl" and m: "vmode v = Raw" and cap: "0 < cap"
  shows "round_good T pl v (vision_round detach cap v)"
proof -
  have ok: "vis_ok v" and pl: "case read_source v of None \<Rightarrow> pl = rest v | Some s \<Rightarrow> unbroken s \<and> pl = content v @ arriving s"
    using e m by (simp_all add: expects_def)
  have un: "unbroken (session v)" using ok by (simp add: vis_ok_def)
  show ?thesis
  proof (cases "0 < buffered v")
    case True
    define n where "n = min (buffered v) cap"
    note a = advance_start [OF ok, of n]
    have n: "n \<le> buffered v" "0 < n" using True cap by (auto simp: n_def)
    have "take n (content v) \<noteq> []" using n length_content [OF ok] by auto
    moreover have "pl = take n (content v) @ drop n pl \<and> expects T (v\<lparr>vstart := vstart v + n\<rparr>) (drop n pl)"
      using a n m pl length_content [OF ok] by (auto simp: expects_def rest_def split: option.splits)
    ultimately show ?thesis
      using True a n
      by (auto simp: round_good_def vision_round_def m read_raw_def Let_def n_def [symmetric] delivers_def vision_waits_def split: option.splits)
  next
    case False
    then have c: "content v = []" using length_content [OF ok] by auto
    show ?thesis
    proof (cases "read_source v")
      case None
      obtain r s where r: "inner_read cap (session v) = (r, s)" by fastforce
      note u = inner_read_unbroken [OF un r] and arr = inner_read_arriving [OF r]
      have x: "expects T (v\<lparr>session := s\<rparr>) (arriving s)"
        using ok u c m None by (auto simp: expects_def vis_ok_def rest_def content_def)
      have "r = Ready [] \<Longrightarrow> arriving (session v) = []" using inner_read_eof [OF cap] r by blast
      then show ?thesis
        using False None r u arr c x pl
        by (cases r) (auto simp: round_good_def vision_round_def m read_raw_def delivers_def rest_def vision_waits_def)
    next
      case (Some src)
      then have us: "unbroken src" "pl = arriving src" using pl c by simp_all
      obtain r s where r: "inner_read cap src = (r, s)" by fastforce
      note u = inner_read_unbroken [OF us(1) r] and arr = inner_read_arriving [OF r]
      have x: "expects T (v\<lparr>read_source := Some s\<rparr>) (arriving s)"
        using ok u c m by (auto simp: expects_def vis_ok_def content_def)
      have "r = Ready [] \<Longrightarrow> arriving src = []" using inner_read_eof [OF cap] r by blast
      then show ?thesis
        using False Some r u arr c x us
        by (cases r) (auto simp: round_good_def vision_round_def m read_raw_def delivers_def vision_waits_def)
    qed
  qed
qed

lemma prefix_mismatch: "take k (xs @ ys) = take k u \<Longrightarrow> k \<le> length xs \<Longrightarrow> take k xs = take k u"
  by simp

lemma undecided_good:
  assumes e: "expects T v pl" and m: "vmode v = Undecided"
  shows "round_good T pl v (vision_round detach cap v)"
proof -
  have ok: "vis_ok v" using e by (simp add: expects_def)
  have lu: "length (uuid v) = 16" using ok by (simp add: vis_ok_def UUID_SIZE_def)
  have st: "command v = CMD_CONTINUE" "remaining_content v = 0" "remaining_padding v = 0" "read_source v = None"
    and x: "if take 16 (rest v) = uuid v \<and> 21 \<le> length (rest v)
            then framed T CMD_CONTINUE 0 0 (padding_only v) (drop 16 (rest v)) pl else pl = rest v"
    using e m by (auto simp: expects_def)
  define k where "k = min (buffered v) 16"
  have cmp: "slice (vstart v) (vstart v + k) (vbuffer v) = take k (content v)"
    using advance_start(2) [OF ok, of k] by (simp add: k_def)
  have lc: "length (content v) = buffered v" by (rule length_content [OF ok])
  have tk: "take k (rest v) = take k (content v)" using lc by (simp add: rest_def k_def)
  consider (raw) "take k (content v) \<noteq> take k (uuid v)"
    | (wait) "take k (content v) = take k (uuid v)" "buffered v < 21"
    | (frame) "take k (content v) = take k (uuid v)" "21 \<le> buffered v" by linarith
  then show ?thesis
  proof cases
    case raw
    then have "k \<noteq> 0" by (metis take_0)
    moreover have "take 16 (rest v) \<noteq> uuid v"
    proof
      assume "take 16 (rest v) = uuid v"
      then have "take k (take 16 (rest v)) = take k (uuid v)" by simp
      then show False using raw tk by (simp add: k_def min_def split: if_splits)
    qed
    then have "pl = rest v" using x by simp
    ultimately show ?thesis using raw cmp ok
      by (simp add: round_good_def vision_round_def m round_undecided_def try_decide_def Let_def UUID_SIZE_def
          k_def [symmetric] expects_def vis_ok_def rest_def content_def vision_waits_def st)
  next
    case wait
    have d: "try_decide v = (False, v)" using wait cmp
      by (simp add: try_decide_def Let_def UUID_SIZE_def HEADER_SIZE_def k_def [symmetric])
    obtain r w where f: "fill_from_session v = (r, w)" by fastforce
    have room: "buffered v < MAX_FRAME" using wait(2) by (simp add: MAX_FRAME_def)
    note sp = fill_session_spec [OF ok room f]
    have ew: "expects T w pl" using expects_same [OF e] sp(1) st(4) by blast
    have eof: "r = Ready 0 \<Longrightarrow> expects T (w\<lparr>vmode := Raw\<rparr>) pl"
    proof -
      assume "r = Ready 0"
      then have "rest v = content v" using sp(2) by simp
      then have "pl = rest v" using x wait(2) lc by (simp split: if_splits)
      then show ?thesis using sp(1) st(4) by (auto simp: expects_def vis_ok_def rest_def content_def same_state_def)
    qed
    have "vision_waits T v = waits (session v) + raw_waits T" "vision_waits T w = waits (session w) + raw_waits T"
      "vision_waits T (w\<lparr>vmode := Raw\<rparr>) = waits (session w) + raw_waits T"
      using st(4) sp(1) by (simp_all add: vision_waits_def same_state_def)
    then show ?thesis using sp d f ew eof
      by (cases r) (auto simp: round_good_def vision_round_def m round_undecided_def delivers_def)
  next
    case frame
    then have k: "k = 16" by (simp add: k_def)
    then have "take 16 (rest v) = uuid v" "21 \<le> length (rest v)" using frame tk lc lu by (simp_all add: rest_def)
    then have fr: "framed T CMD_CONTINUE 0 0 (padding_only v) (drop 16 (rest v)) pl" using x by simp
    note a = advance_start [OF ok, of 16]
    have "try_decide v = (True, v\<lparr>vstart := vstart v + 16, vmode := Framed\<rparr>)"
      using frame cmp by (simp add: try_decide_def Let_def UUID_SIZE_def HEADER_SIZE_def k_def [symmetric])
    moreover have "expects T (v\<lparr>vstart := vstart v + 16, vmode := Framed\<rparr>) pl"
      using a frame(2) fr st by (simp add: expects_def vis_ok_def rest_def content_def)
    ultimately show ?thesis using st(4) by (simp add: round_good_def vision_round_def m round_undecided_def vision_waits_def)
  qed
qed


lemma header_good:
  assumes e: "expects T v pl" and m: "vmode v = Framed"
    and z: "remaining_content v = 0" "remaining_padding v = 0" and d: "can_detach detach T"
  shows "round_good T pl v (vision_round detach cap v)"
proof -
  have ok: "vis_ok v" and fr: "framed T (command v) 0 0 (padding_only v) (rest v) pl" and src: "read_source v = None"
    using e m z by (simp_all add: expects_def)
  note ws = vision_waits_session [OF src, of T]
  have lc: "length (content v) = buffered v" by (rule length_content [OF ok])
  have vr: "vision_round detach cap v = round_header detach v" using m z by (simp add: vision_round_def)
  consider (fin) "command v = CMD_END" | (direct) "command v = CMD_DIRECT" | (more) "command v \<noteq> CMD_END" "command v \<noteq> CMD_DIRECT"
    by blast
  then show ?thesis
  proof cases
    case fin
    then have "pl = rest v" using fr by (auto simp: CMD_END_def CMD_DIRECT_def elim: framed_0_E)
    then show ?thesis using fin ok src
      by (simp add: vr round_good_def round_header_def finish_framing_def expects_def vis_ok_def rest_def
          content_def CMD_END_def CMD_DIRECT_def vision_waits_def)
  next
    case direct
    obtain raw where raw: "T = Some raw" "pl = rest v @ arriving raw"
      using fr unfolding direct by (rule framed_directE)
    have "unbroken (session v)" using ok by (simp add: vis_ok_def)
    then obtain s where s: "detach (session v) (content v) = Some s" "unbroken s"
      "arriving s = content v @ arriving (session v) @ arriving raw" "waits s \<le> waits (session v) + waits raw"
      using d raw(1) by (auto simp: can_detach_def detaches_def)
    have x: "finish_framing detach v
        = v\<lparr>vstart := (if 0 < buffered v then vend v else vstart v), read_source := Some s, vmode := Raw\<rparr>"
      using s(1) direct lc by (cases "buffered v = 0") (simp_all add: finish_framing_def Let_def flip: content_def)
    have "content (finish_framing detach v) = []"
      using lc unfolding x by (auto simp: content_def slice_def buffered_def)
    then have "expects T (finish_framing detach v) pl"
      using x s(2,3) raw(2) ok by (auto simp: expects_def vis_ok_def rest_def)
    moreover have "vision_waits T (finish_framing detach v) \<le> vision_waits T v"
      using s(4) raw(1) src unfolding x by (simp add: vision_waits_def raw_waits_def)
    ultimately show ?thesis using direct by (simp add: vr round_good_def round_header_def)
  next
    case more
    note ne = more(1) and nd = more(2)
    show ?thesis
    proof (cases "buffered v < HEADER_SIZE")
      case True
      obtain r w where f: "fill_from_session v = (r, w)" by fastforce
      have room: "buffered v < MAX_FRAME" using True by (simp add: MAX_FRAME_def HEADER_SIZE_def)
      note sp = fill_session_spec [OF ok room f]
      have ew: "expects T w pl" using expects_same [OF e] sp(1) src by blast
      have bw: "buffered w = length (content w)" using length_content sp(1) by simp
      have eof: "r = Ready 0 \<Longrightarrow> buffered w = 0 \<and> pl = []"
      proof -
        assume "r = Ready 0"
        then have c: "rest v = content v" "content w = content v" using sp(2) by simp_all
        then have "length (rest v) < 5" using lc True by (simp add: HEADER_SIZE_def)
        then show ?thesis using framed_short [OF fr ne nd] c bw by simp
      qed
      have "vision_waits T w = waits (session w) + raw_waits T" using same_state_waits sp(1) src by blast
      then show ?thesis
        using sp f ew eof True ne nd ws
        by (cases r) (auto simp: vr round_good_def round_header_def delivers_def)
    next
      case False
      then have b5: "5 \<le> buffered v" by (simp add: HEADER_SIZE_def)
      then have "rest v \<noteq> []" using lc by (auto simp: rest_def)
      from framed_next [OF fr ne nd this] obtain cmd' c1 c2 p1 p2 bs po' where h: "rest v = cmd' # c1 # c2 # p1 # p2 # bs"
        "unat (from_be16 c1 c2) + unat (from_be16 p1 p2) + HEADER_SIZE \<le> MAX_FRAME"
        "po' = (if 0 < unat (from_be16 c1 c2) then 0 else padding_only v + 1)" "po' \<le> MAX_PADDING_ONLY"
        "framed T cmd' (unat (from_be16 c1 c2)) (unat (from_be16 p1 p2)) po' bs pl" .
      note a = advance_start [OF ok b5]
      have hd5: "slice (vstart v) (vstart v + HEADER_SIZE) (vbuffer v) = [cmd', c1, c2, p1, p2]"
      proof -
        have "take 5 (rest v) = take 5 (content v)" using b5 lc by (simp add: rest_def)
        then show ?thesis using a(2) h(1) by (simp add: HEADER_SIZE_def)
      qed
      define w where "w = v\<lparr>command := cmd', remaining_content := unat (from_be16 c1 c2),
        remaining_padding := unat (from_be16 p1 p2), vstart := vstart v + 5, padding_only := po'\<rparr>"
      have "read_frame_header v = (True, w)"
        unfolding read_frame_header_def hd5 Let_def using h(2-4) by (auto simp: w_def HEADER_SIZE_def)
      moreover have "rest w = rest (v\<lparr>vstart := vstart v + 5\<rparr>)" "vis_ok w = vis_ok (v\<lparr>vstart := vstart v + 5\<rparr>)"
        by (simp_all add: w_def rest_def content_def vis_ok_def)
      then have "rest w = bs" "vis_ok w" using a h(1) by simp_all
      then have "expects T w pl" using h(5) m src by (simp add: expects_def w_def)
      moreover have "vision_waits T w = vision_waits T v" using src by (simp add: w_def vision_waits_def)
      ultimately show ?thesis using False ne nd
        by (simp add: vr round_good_def round_header_def)
    qed
  qed
qed

lemma body_good:
  assumes e: "expects T v pl" and m: "vmode v = Framed" and cap: "0 < cap"
    and nz: "\<not> (remaining_content v = 0 \<and> remaining_padding v = 0)"
  shows "round_good T pl v (vision_round detach cap v)"
proof -
  have ok: "vis_ok v" and fr: "framed T (command v) (remaining_content v) (remaining_padding v) (padding_only v) (rest v) pl"
    and src: "read_source v = None"
    using e m by (simp_all add: expects_def)
  note ws = vision_waits_session [OF src, of T]
  have lc: "length (content v) = buffered v" by (rule length_content [OF ok])
  have vr: "vision_round detach cap v = round_body cap v"
    using m nz by (auto simp: vision_round_def)
  show ?thesis
  proof (cases "buffered v = 0")
    case True
    obtain r w where f: "fill_from_session v = (r, w)" by fastforce
    have room: "buffered v < MAX_FRAME" using True by (simp add: MAX_FRAME_def)
    note sp = fill_session_spec [OF ok room f]
    have ew: "expects T w pl" using expects_same [OF e] sp(1) src by blast
    have "rest v \<noteq> []" using framed_more [OF fr] nz by auto
    then have "r \<noteq> Ready 0" using sp(2) True lc by auto
    moreover have "vision_waits T w = waits (session w) + raw_waits T" using same_state_waits sp(1) src by blast
    ultimately show ?thesis using sp f ew True ws by (cases r) (auto simp: vr round_good_def round_body_def delivers_def)
  next
    case b: False
    show ?thesis
    proof (cases "0 < remaining_content v")
      case True
      define n where "n = min (min (remaining_content v) (buffered v)) cap"
      have n: "n \<le> buffered v" "n \<le> remaining_content v" "0 < n" using b True cap by (auto simp: n_def)
      note a = advance_start [OF ok n(1)]
      have split: "rest v = take n (content v) @ drop n (rest v)" using n lc by (simp add: rest_def)
      have lt: "length (take n (content v)) = n" using n lc by simp
      have fr': "framed T (command v) (remaining_content v) (remaining_padding v) (padding_only v)
          (take n (content v) @ drop n (rest v)) pl"
        using fr by (subst (asm) split)
      obtain pl' where pl: "pl = take n (content v) @ pl'"
        "framed T (command v) (remaining_content v - n) (remaining_padding v) (padding_only v) (drop n (rest v)) pl'"
        using framed_take [OF fr'] n lt by auto
      have "expects T (v\<lparr>vstart := vstart v + n, remaining_content := remaining_content v - n\<rparr>) pl'"
        using a pl(2) m src by (simp add: expects_def vis_ok_def rest_def content_def)
      moreover have "take n (content v) \<noteq> []" using lt n by auto
      ultimately show ?thesis using pl(1) a True b
        by (auto simp: vr round_good_def round_body_def Let_def n_def [symmetric] delivers_def vision_waits_def split: option.splits)
    next
      case False
      define n where "n = min (remaining_padding v) (buffered v)"
      have n: "n \<le> buffered v" "n \<le> remaining_padding v" by (auto simp: n_def)
      note a = advance_start [OF ok n(1)]
      have split: "rest v = take n (content v) @ drop n (rest v)" using n lc by (simp add: rest_def)
      have lt: "length (take n (content v)) = n" using n lc by simp
      have "framed T (command v) 0 (remaining_padding v) (padding_only v) (rest v) pl" using fr False by simp
      then have "framed T (command v) 0 (remaining_padding v) (padding_only v)
          (take n (content v) @ drop n (rest v)) pl"
        by (subst (asm) split)
      then have "framed T (command v) 0 (remaining_padding v - n) (padding_only v) (drop n (rest v)) pl"
        using framed_skip n lt by metis
      then have "expects T (v\<lparr>vstart := vstart v + n, remaining_padding := remaining_padding v - n\<rparr>) pl"
        using a m False src by (simp add: expects_def vis_ok_def rest_def content_def)
      then show ?thesis using False b by (simp add: vr round_good_def round_body_def Let_def n_def [symmetric] vision_waits_def split: option.splits)
    qed
  qed
qed


lemma round_is_good:
  assumes "expects T v pl" "0 < cap" "can_detach detach T"
  shows "round_good T pl v (vision_round detach cap v)"
  using assms raw_good [of T v pl cap] undecided_good [of T v pl] header_good [of T v pl] body_good [of T v pl cap]
  by (cases "vmode v") blast+

lemma poll_delivers:
  "expects T v pl \<Longrightarrow> 0 < cap \<Longrightarrow> can_detach detach T \<Longrightarrow> vision_poll_read detach cap v = (r, v') \<Longrightarrow> delivers T pl v r v'"
proof (induction detach cap v rule: vision_poll_read.induct)
  case (1 detach cap v)
  note g = round_is_good [OF "1.prems"(1,2,3)]
  show ?case
  proof (cases "vision_round detach cap v")
    case (Return r1 v1)
    then have "r = r1" "v' = v1" using "1.prems"(4) vision_poll_read.simps [of detach cap v] by simp_all
    then show ?thesis using g Return by (simp add: round_good_def)
  next
    case (Again w)
    then have p: "vision_poll_read detach cap w = (r, v')"
      using "1.prems"(4) vision_poll_read.simps [of detach cap v] by simp
    have w: "expects T w pl" "vision_waits T w \<le> vision_waits T v" using g Again by (simp_all add: round_good_def)
    have "delivers T pl w r v'" using "1.IH" [OF Again w(1) "1.prems"(2,3) p] .
    then show ?thesis using w(2) by (auto simp: delivers_def split: poll.splits)
  qed
qed

section \<open>Reading to the end\<close>

text \<open>What the session promises is part of what a state owes.\<close>

definition owes_with :: "(inner_stream \<Rightarrow> bytes \<Rightarrow> inner_stream option) \<Rightarrow> inner_stream option \<Rightarrow> vision \<Rightarrow> bytes \<Rightarrow> bool" where
  "owes_with detach T v pl \<longleftrightarrow> can_detach detach T \<and> expects T v pl"

interpretation vision_reader: layered_reader "vision_poll_read detach" "owes_with detach T" "vision_waits T" for detach T
proof (unfold_locales, goal_cases)
  case (1 s pl cap r s')
  then have "delivers T pl s r s'" using poll_delivers by (auto simp: owes_with_def)
  then show ?case using 1(1) by (auto simp: step_delivers_def owes_with_def split: poll.splits)
qed

section \<open>The writer\<close>

record uplink =
  up_uuid :: bytes
  uuid_sent :: bool
  uplink_raw :: bool
  write_buf :: bytes
  write_off :: nat
  write_plain :: nat
  pending_end :: bool
  up_sink :: sink

definition uplink_new :: "bytes \<Rightarrow> sink \<Rightarrow> uplink" where
  "uplink_new u k = \<lparr>up_uuid = u, uuid_sent = False, uplink_raw = False, write_buf = [], write_off = 0,
     write_plain = 0, pending_end = False, up_sink = k\<rparr>"

text \<open>\<open>rnd\<close> is the random number drawn for the frame.\<close>

definition padding_len :: "nat \<Rightarrow> nat \<Rightarrow> nat \<Rightarrow> nat" where
  "padding_len rnd n uuid_over =
     (let padding = (if n < 900 then rnd mod 500 + 900 - n else rnd mod 256)
      in min padding (MAX_FRAME - uuid_over - HEADER_SIZE - n))"

definition uuid_over :: "uplink \<Rightarrow> nat" where
  "uuid_over u = (if uuid_sent u then 0 else UUID_SIZE)"

definition pad_frame :: "nat \<Rightarrow> bytes \<Rightarrow> u8 \<Rightarrow> uplink \<Rightarrow> bytes option" where
  "pad_frame rnd chunk cmd u =
     (if MAX_FRAME - (HEADER_SIZE + uuid_over u) < length chunk then None
      else
        (let padding = padding_len rnd (length chunk) (uuid_over u)
         in Some ((if 0 < uuid_over u then up_uuid u else [])
              @ [cmd] @ to_be16 (word_of_nat (length chunk)) @ to_be16 (word_of_nat padding)
              @ chunk @ replicate padding 0)))"

definition stage_uplink :: "nat \<Rightarrow> bytes \<Rightarrow> uplink \<Rightarrow> uplink" where
  "stage_uplink rnd buf u =
     (let max_content = MAX_FRAME - (HEADER_SIZE + uuid_over u + 900);
          max_content = (if max_content < 1 then MAX_FRAME - HEADER_SIZE - uuid_over u - 1 else max_content);
          chunk = take max_content buf;
          cmd = (if chunk \<noteq> [] \<and> chunk ! 0 = TLS_APP then CMD_END else CMD_CONTINUE)
      in case pad_frame rnd chunk cmd u of
           Some frame \<Rightarrow>
             u\<lparr>write_buf := frame, write_off := 0, write_plain := length chunk, pending_end := (cmd = CMD_END)\<rparr>
         | None \<Rightarrow> u\<lparr>uplink_raw := True\<rparr>)"

definition finish_uplink_frame :: "uplink \<Rightarrow> nat \<times> uplink" where
  "finish_uplink_frame u =
     (let plain = write_plain u;
          u = u\<lparr>write_buf := [], write_off := 0, write_plain := 0, uuid_sent := True\<rparr>;
          u = (if pending_end u then u\<lparr>uplink_raw := True\<rparr> else u)
      in (plain, u\<lparr>pending_end := False\<rparr>))"

definition poll_write_pending :: "uplink \<Rightarrow> unit poll \<times> uplink" where
  "poll_write_pending u =
     (case flush_from WriteZero (write_buf u) (write_off u) (up_sink u) of
        (r, off, k) \<Rightarrow> (r, u\<lparr>up_sink := k, write_off := off\<rparr>))"

definition complete_frame :: "uplink \<Rightarrow> nat poll \<times> uplink" where
  "complete_frame u =
     (case poll_write_pending u of
        (Pending, u) \<Rightarrow> (Pending, u)
      | (Failed e, u) \<Rightarrow> (Failed e, u)
      | (Ready _, u) \<Rightarrow> (case finish_uplink_frame u of (n, u) \<Rightarrow> (Ready n, u)))"

definition write_session :: "bytes \<Rightarrow> uplink \<Rightarrow> nat poll \<times> uplink" where
  "write_session buf u = (case sink_write buf (up_sink u) of (r, k) \<Rightarrow> (r, u\<lparr>up_sink := k\<rparr>))"

definition vision_poll_write :: "nat \<Rightarrow> bytes \<Rightarrow> uplink \<Rightarrow> nat poll \<times> uplink" where
  "vision_poll_write rnd buf u =
     (if write_buf u \<noteq> [] then complete_frame u
      else if uplink_raw u then (if buf = [] then (Ready 0, u) else write_session buf u)
      else if buf = [] then (Ready 0, u)
      else
        (let u = stage_uplink rnd buf u in
         if uplink_raw u then write_session buf u else complete_frame u))"

definition vision_poll_flush :: "uplink \<Rightarrow> unit poll \<times> uplink" where
  "vision_poll_flush u = poll_write_pending u"


section \<open>What the writer puts on the wire\<close>

lemma poll_write_pending_flushed:
  assumes "poll_write_pending u = (r, u')" "write_off u \<le> length (write_buf u)"
  shows "\<exists>off k. u' = u\<lparr>up_sink := k, write_off := off\<rparr> \<and> flushed (write_buf u) (write_off u) (up_sink u) r off k"
proof -
  obtain q off k where q: "flush_from WriteZero (write_buf u) (write_off u) (up_sink u) = (q, off, k)" by (metis surj_pair)
  then show ?thesis using assms flush_from_flushed [OF q assms(2)] by (auto simp: poll_write_pending_def)
qed

lemma framed_contents: "framed T cmd 0 rp po bs pl \<Longrightarrow> framed T cmd (length xs) rp po (xs @ bs) (xs @ pl)"
  by (induction xs) (auto intro: framed_content)

lemma framed_paddings: "framed T cmd 0 0 po bs pl \<Longrightarrow> framed T cmd 0 (length zs) po (zs @ bs) pl"
  by (induction zs) (auto intro: framed_padding)

text \<open>A body that wraps a chunk into one frame.\<close>

definition wraps :: "u8 \<Rightarrow> bytes \<Rightarrow> bytes \<Rightarrow> bool" where
  "wraps cmd chunk body \<longleftrightarrow> 5 \<le> length body \<and>
     (\<forall>more pl. framed None cmd 0 0 0 more pl \<longrightarrow> framed None CMD_CONTINUE 0 0 0 (body @ more) (chunk @ pl))"

lemma pad_frame_wraps:
  assumes "chunk \<noteq> []" "length chunk \<le> MAX_FRAME - (HEADER_SIZE + uuid_over u + 900)"
  shows "\<exists>body. pad_frame rnd chunk cmd u = Some ((if uuid_sent u then [] else up_uuid u) @ body) \<and> wraps cmd chunk body"
proof -
  define pad where "pad = padding_len rnd (length chunk) (uuid_over u)"
  define body where "body = [cmd] @ to_be16 (word_of_nat (length chunk)) @ to_be16 (word_of_nat pad) @ chunk @ replicate pad 0"
  have uo: "uuid_over u \<le> 16" by (simp add: uuid_over_def UUID_SIZE_def)
  have lc: "length chunk \<le> 8192" using assms(2) by (simp add: MAX_FRAME_def HEADER_SIZE_def)
  have "pad \<le> MAX_FRAME - uuid_over u - HEADER_SIZE - length chunk" by (simp add: pad_def padding_len_def Let_def)
  then have sum_le: "length chunk + pad + 5 \<le> 8192"
    using assms(2) uo by (simp add: MAX_FRAME_def HEADER_SIZE_def)
  have u: "unat (word_of_nat (length chunk) :: u16) = length chunk" "unat (word_of_nat pad :: u16) = pad"
    using sum_le by (simp_all add: unat_of_nat_u16)
  have "framed None CMD_CONTINUE 0 0 0 (body @ more) (chunk @ pl)" if "framed None cmd 0 0 0 more pl" for more pl
  proof -
    have f: "framed None cmd (length chunk) pad 0 (chunk @ replicate pad 0 @ more) (chunk @ pl)"
      using framed_contents [OF framed_paddings [OF that, of "replicate pad 0"]] by simp
    show ?thesis
      unfolding body_def to_be16_def
      using framed_header [of CMD_CONTINUE "hi8 (word_of_nat (length chunk))" "lo8 (word_of_nat (length chunk))"
          "hi8 (word_of_nat pad)" "lo8 (word_of_nat pad)" 0 0 None cmd] f sum_le assms(1) u
      by (simp add: CMD_CONTINUE_def CMD_END_def CMD_DIRECT_def MAX_FRAME_def HEADER_SIZE_def)
  qed
  then have "wraps cmd chunk body" by (simp add: wraps_def body_def)
  moreover have "pad_frame rnd chunk cmd u = Some ((if uuid_sent u then [] else up_uuid u) @ body)"
    using assms(2) unfolding pad_frame_def Let_def pad_def [symmetric] body_def
    by (auto simp: uuid_over_def UUID_SIZE_def MAX_FRAME_def HEADER_SIZE_def split: if_splits)
  ultimately show ?thesis by blast
qed


text \<open>
  The state between two frames: \<open>acc\<close> is the data accepted so far; what was written is the user
  id and a sequence of frames that carries \<open>acc\<close> and can go on, or, after an end frame, the
  frames and raw bytes.
\<close>

definition sent :: "uplink \<Rightarrow> bytes \<Rightarrow> bytes \<Rightarrow> bool" where
  "sent u acc w \<longleftrightarrow> length (up_uuid u) = 16 \<and>
     (if uuid_sent u then
        (\<exists>fs. w = up_uuid u @ fs \<and> 5 \<le> length fs
           \<and> (if uplink_raw u then (\<forall>more. framed None CMD_CONTINUE 0 0 0 (fs @ more) (acc @ more))
              else (\<forall>more pl. framed None CMD_CONTINUE 0 0 0 more pl \<longrightarrow> framed None CMD_CONTINUE 0 0 0 (fs @ more) (acc @ pl))))
      else acc = [] \<and> w = [] \<and> \<not> uplink_raw u)"

definition up_idle :: "uplink \<Rightarrow> bytes \<Rightarrow> bool" where
  "up_idle u acc \<longleftrightarrow> write_buf u = [] \<and> sent u acc (written (up_sink u))"

text \<open>In the middle of a frame for a prefix of \<open>data\<close>.\<close>

definition up_mid :: "uplink \<Rightarrow> bytes \<Rightarrow> bytes \<Rightarrow> bool" where
  "up_mid u acc data \<longleftrightarrow> \<not> uplink_raw u \<and>
     (\<exists>cmd body base. write_buf u = (if uuid_sent u then [] else up_uuid u) @ body
        \<and> wraps cmd (take (write_plain u) data) body \<and> 0 < write_plain u \<and> write_plain u \<le> length data
        \<and> (cmd = CMD_END \<and> pending_end u \<or> cmd = CMD_CONTINUE \<and> \<not> pending_end u)
        \<and> write_off u \<le> length (write_buf u)
        \<and> sent u acc base \<and> written (up_sink u) = base @ take (write_off u) (write_buf u))"

lemma complete_frame_spec:
  assumes m: "up_mid u acc data" and c: "complete_frame u = (r, u')"
  shows "write_delivers up_idle up_mid up_sink acc data u r u'"
proof -
  from m obtain cmd body base where
    raw: "\<not> uplink_raw u" and wb: "write_buf u = (if uuid_sent u then [] else up_uuid u) @ body"
    and wr: "wraps cmd (take (write_plain u) data) body" "0 < write_plain u" "write_plain u \<le> length data"
    and cmd: "cmd = CMD_END \<and> pending_end u \<or> cmd = CMD_CONTINUE \<and> \<not> pending_end u"
    and off: "write_off u \<le> length (write_buf u)" and base: "sent u acc base"
    and out: "written (up_sink u) = base @ take (write_off u) (write_buf u)"
    unfolding up_mid_def by blast
  obtain q w where q: "poll_write_pending u = (q, w)" by fastforce
  from poll_write_pending_flushed [OF q off] obtain wo k where wk: "w = u\<lparr>up_sink := k, write_off := wo\<rparr>"
    and fl: "flushed (write_buf u) (write_off u) (up_sink u) q wo k" by blast
  have k: "w = u\<lparr>up_sink := k, write_off := write_off w\<rparr>" "write_off u \<le> write_off w" "write_off w \<le> length (write_buf u)"
    "written k = written (up_sink u) @ slice (write_off u) (write_off w) (write_buf u)"
    "length (slots k) \<le> length (slots (up_sink u))" "q = Pending \<longrightarrow> length (slots k) < length (slots (up_sink u))"
    "q = Ready () \<longrightarrow> write_off w = length (write_buf u)"
    "sink_good (up_sink u) \<longrightarrow> sink_good k \<and> (\<forall>e. q \<noteq> Failed e)"
    using wk fl by (simp_all add: flushed_def)
  have wk: "written k = base @ take (write_off w) (write_buf u)"
    using k(2,4) out take_slice [OF k(2), of "write_buf u"] by simp
  have same: "uplink_raw w = uplink_raw u" "write_buf w = write_buf u" "uuid_sent w = uuid_sent u" "up_uuid w = up_uuid u"
    "write_plain w = write_plain u" "pending_end w = pending_end u" "up_sink w = k"
    by (subst k(1), simp)+
  have mid: "up_mid w acc data"
    unfolding up_mid_def same using raw wb wr cmd k(3) base wk by (auto simp: sent_def same)
  have 1: "length (slots (up_sink u')) \<le> length (slots (up_sink u))" "sink_good (up_sink u) \<longrightarrow> sink_good (up_sink u')"
    using c q k(5,8) same by (auto simp: complete_frame_def finish_uplink_frame_def Let_def split: poll.splits)
  have 2: "r = Pending \<Longrightarrow> up_mid u' acc data \<and> length (slots (up_sink u')) < length (slots (up_sink u))"
    using c q k(6) same mid by (auto simp: complete_frame_def split: poll.splits prod.splits)
  have 3: "r = Failed e \<Longrightarrow> \<not> sink_good (up_sink u)" for e
    using c q k(8) by (auto simp: complete_frame_def split: poll.splits prod.splits)
  have 4: "0 < n \<and> n \<le> length data \<and> up_idle u' (acc @ take n data)" if "r = Ready n" for n
  proof -
    have "q = Ready ()" and u': "finish_uplink_frame w = (n, u')"
      using c q that by (auto simp: complete_frame_def split: poll.splits prod.splits)
    then have full: "written k = base @ write_buf u" using wk k(7) by simp
    have n: "n = write_plain u" using u' same by (simp add: finish_uplink_frame_def Let_def split: if_splits)
    have f: "write_buf u' = []" "uuid_sent u'" "up_uuid u' = up_uuid u" "up_sink u' = k"
      "uplink_raw u' = pending_end u"
      using u' same raw by (auto simp: finish_uplink_frame_def Let_def split: if_splits)
    have wraps: "\<And>more pl. framed None cmd 0 0 0 more pl \<Longrightarrow> framed None CMD_CONTINUE 0 0 0 (body @ more) (take n data @ pl)"
      and l5: "5 \<le> length body" using wr n by (auto simp: wraps_def)
    have step: "if pending_end u then (\<forall>more. framed None CMD_CONTINUE 0 0 0 (body @ more) (take n data @ more))
      else (\<forall>more pl. framed None CMD_CONTINUE 0 0 0 more pl \<longrightarrow> framed None CMD_CONTINUE 0 0 0 (body @ more) (take n data @ pl))"
      using wraps cmd framed_end by auto
    have "sent u' (acc @ take n data) (written k)"
    proof (cases "uuid_sent u")
      case True
      with base raw obtain fs where fs: "base = up_uuid u @ fs" "5 \<le> length fs"
        "\<And>more pl. framed None CMD_CONTINUE 0 0 0 more pl \<Longrightarrow> framed None CMD_CONTINUE 0 0 0 (fs @ more) (acc @ pl)"
        by (auto simp: sent_def)
      have "written k = up_uuid u @ (fs @ body)" using full wb True fs(1) by simp
      moreover have "if pending_end u then (\<forall>more. framed None CMD_CONTINUE 0 0 0 ((fs @ body) @ more) ((acc @ take n data) @ more))
        else (\<forall>more pl. framed None CMD_CONTINUE 0 0 0 more pl \<longrightarrow> framed None CMD_CONTINUE 0 0 0 ((fs @ body) @ more) ((acc @ take n data) @ pl))"
        using step fs(3) by (simp split: if_splits)
      ultimately show ?thesis
        using f base fs(2) unfolding sent_def by (auto intro!: exI [of _ "fs @ body"])
    next
      case False
      then have "acc = []" "base = []" using base by (auto simp: sent_def)
      moreover have "written k = up_uuid u @ body" using full wb False \<open>base = []\<close> by simp
      ultimately show ?thesis
        using f base step l5 unfolding sent_def by (auto split: if_splits)
    qed
    then show ?thesis using n wr f by (simp add: up_idle_def)
  qed
  show ?thesis using 1 2 3 4 by (cases r) (simp_all add: write_delivers_def)
qed


lemma stage_uplink_mid:
  assumes i: "up_idle u acc" and r: "\<not> uplink_raw u" and d: "data \<noteq> []"
  shows "up_mid (stage_uplink rnd data u) acc data" "up_sink (stage_uplink rnd data u) = up_sink u"
proof -
  define m where "m = MAX_FRAME - (HEADER_SIZE + uuid_over u + 900)"
  define chunk where "chunk = take m data"
  define cmd where "cmd = (if chunk \<noteq> [] \<and> chunk ! 0 = TLS_APP then CMD_END else CMD_CONTINUE)"
  have m: "\<not> m < 1" by (simp add: m_def uuid_over_def MAX_FRAME_def HEADER_SIZE_def UUID_SIZE_def)
  then have ch: "chunk \<noteq> []" "length chunk \<le> m" using d by (auto simp: chunk_def)
  obtain body where b: "pad_frame rnd chunk cmd u = Some ((if uuid_sent u then [] else up_uuid u) @ body)"
    "wraps cmd chunk body"
    using pad_frame_wraps [OF ch(1), of u rnd cmd] ch(2) by (auto simp: m_def)
  have st: "stage_uplink rnd data u = u\<lparr>write_buf := (if uuid_sent u then [] else up_uuid u) @ body,
      write_off := 0, write_plain := length chunk, pending_end := (cmd = CMD_END)\<rparr>"
    unfolding stage_uplink_def m_def [symmetric] Let_def using m b(1)
    by (simp add: chunk_def [symmetric] cmd_def [symmetric])
  show "up_sink (stage_uplink rnd data u) = up_sink u" by (simp add: st)
  have "take (length chunk) data = chunk" "length chunk \<le> length data" by (auto simp: chunk_def min_def)
  then show "up_mid (stage_uplink rnd data u) acc data"
    using b(2) ch r i unfolding up_mid_def st up_idle_def
    by (auto simp: sent_def cmd_def CMD_END_def CMD_CONTINUE_def)
qed

lemma write_session_idle:
  assumes i: "up_idle u acc" and r: "uplink_raw u" and d: "data \<noteq> []" and w: "write_session data u = (q, u')"
  shows "write_delivers up_idle up_mid up_sink acc data u q u'"
proof -
  obtain k where k: "sink_write data (up_sink u) = (q, k)" "u' = u\<lparr>up_sink := k\<rparr>"
    using w by (auto simp: write_session_def split: prod.splits)
  note sp = sink_write_spec [OF k(1)] and good = sink_write_good [OF _ k(1)]
  obtain fs where fs: "written (up_sink u) = up_uuid u @ fs" "5 \<le> length fs" "uuid_sent u"
    "\<And>more. framed None CMD_CONTINUE 0 0 0 (fs @ more) (acc @ more)"
    using i r by (auto simp: up_idle_def sent_def split: if_splits)
  have 1: "up_idle u' acc" if "q = Pending" using sp(2) [OF that] k i by (simp add: up_idle_def sent_def)
  have 2: "up_idle u' (acc @ take n data)" if "q = Ready n" for n
    using sp(3) [OF that] k i r fs fs(4) [of "take n data @ more" for more]
    by (auto simp: up_idle_def sent_def intro!: exI [of _ "fs @ take n data"])
  show ?thesis using 1 2 sp good k d by (cases q) (auto simp: write_delivers_def)
qed

lemma up_mid_nonempty: "up_mid u acc data \<Longrightarrow> write_buf u \<noteq> []"
  unfolding up_mid_def wraps_def by fastforce

lemma poll_write_delivers:
  assumes s: "up_idle u acc \<or> up_mid u acc data" and d: "data \<noteq> []"
    and p: "vision_poll_write rnd data u = (q, u')"
  shows "write_delivers up_idle up_mid up_sink acc data u q u'"
proof -
  consider (mid) "up_mid u acc data" "write_buf u \<noteq> []" | (raw) "up_idle u acc" "uplink_raw u"
    | (stage) "up_idle u acc" "\<not> uplink_raw u"
    using s up_mid_nonempty by blast
  then show ?thesis
  proof cases
    case mid
    then have "complete_frame u = (q, u')" using p by (simp add: vision_poll_write_def)
    then show ?thesis by (rule complete_frame_spec [OF mid(1)])
  next
    case raw
    then have "write_session data u = (q, u')" using p d by (simp add: vision_poll_write_def up_idle_def)
    then show ?thesis by (rule write_session_idle [OF raw d])
  next
    case stage
    note m = stage_uplink_mid [OF stage d, of rnd]
    have "complete_frame (stage_uplink rnd data u) = (q, u')"
      using p d stage m(1) by (simp add: vision_poll_write_def up_idle_def Let_def up_mid_def)
    from complete_frame_spec [OF m(1) this] show ?thesis by (rule write_delivers_same_sink) (rule m(2))
  qed
qed

lemma complete_frame_uuid: "complete_frame u = (q, u') \<Longrightarrow> up_uuid u' = up_uuid u"
  by (auto simp: complete_frame_def poll_write_pending_def finish_uplink_frame_def Let_def split: prod.splits poll.splits if_splits)

lemma stage_uplink_uuid: "up_uuid (stage_uplink rnd d u) = up_uuid u"
  by (simp add: stage_uplink_def Let_def split: option.splits)

lemma poll_write_uuid: "vision_poll_write rnd d u = (q, u') \<Longrightarrow> up_uuid u' = up_uuid u"
  using complete_frame_uuid [of u q u'] complete_frame_uuid [of "stage_uplink rnd d u" q u'] stage_uplink_uuid [of rnd d u]
  by (auto simp: vision_poll_write_def write_session_def Let_def split: if_splits prod.splits)

interpretation vision_writer:
  layered_writer vision_poll_write "\<lambda>u acc. up_uuid u = uid \<and> up_idle u acc" "\<lambda>u acc d. up_uuid u = uid \<and> up_mid u acc d" up_sink "\<lambda>_. True"
  for uid
proof (unfold_locales, goal_cases)
  case (1 u acc data rnd r u')
  then show ?case
    using poll_write_delivers [OF _ 1(2,4), of acc] poll_write_uuid [OF 1(4)]
    by (auto simp: write_delivers_def split: poll.splits)
qed simp

section \<open>Properties\<close>

lemma uplink_new_idle: "length u = 16 \<Longrightarrow> written k = [] \<Longrightarrow> up_idle (uplink_new u k) []"
  by (simp add: up_idle_def sent_def uplink_new_def)

lemma idle_framed:
  assumes "up_idle u acc" "acc \<noteq> []"
  shows "\<exists>fs. written (up_sink u) = up_uuid u @ fs \<and> 5 \<le> length fs \<and> framed None CMD_CONTINUE 0 0 0 fs acc"
proof -
  have s: "sent u acc (written (up_sink u))" using assms by (simp add: up_idle_def)
  then obtain fs where fs: "written (up_sink u) = up_uuid u @ fs" "5 \<le> length fs"
    "if uplink_raw u then (\<forall>more. framed None CMD_CONTINUE 0 0 0 (fs @ more) (acc @ more))
     else (\<forall>more pl. framed None CMD_CONTINUE 0 0 0 more pl \<longrightarrow> framed None CMD_CONTINUE 0 0 0 (fs @ more) (acc @ pl))"
    using assms(2) by (auto simp: sent_def split: if_splits)
  have "framed None CMD_CONTINUE 0 0 0 [] []"
    by (rule framed_eof) (simp_all add: CMD_CONTINUE_def CMD_END_def CMD_DIRECT_def)
  then have "framed None CMD_CONTINUE 0 0 0 (fs @ []) (acc @ [])" using fs(3) by (metis (full_types))
  then show ?thesis using fs by auto
qed

lemma vision_new_expects:
  assumes "length u = 16" "unbroken s" "arriving s = u @ fs" "5 \<le> length fs" "framed T CMD_CONTINUE 0 0 0 fs pl"
    and "can_detach detach T"
  shows "owes_with detach T (vision_new s u) pl"
  using assms
  by (simp add: owes_with_def expects_def vis_ok_def vision_new_def rest_def content_def slice_def UUID_SIZE_def MAX_FRAME_def)

text \<open>
  C13: whatever the pieces in which a well-formed Vision stream arrives and whatever the sizes of the
  reads, no read fails, the bytes delivered are a prefix of the payload, a read that reports the end
  comes only after all of it, and the end is reached within as many reads as the payload has bytes plus
  the number of times nothing was ready. A well-formed stream is the user id and frames that carry a
  payload, until the stream ends, or a frame with \<open>CMD_END\<close> after which raw bytes follow, or one with
  \<open>CMD_DIRECT\<close> after which the raw transport \<open>raw\<close> below the session goes on; the last form needs a
  session that can be detached (\<open>can_detach\<close>: the detached stream has the leftover first).
\<close>

theorem vision_reader_exact:
  assumes "length u = 16" "unbroken s" "arriving s = u @ fs" "5 \<le> length fs" "framed raw CMD_CONTINUE 0 0 0 fs pl"
    and "can_detach detach raw"
    and "\<forall>c \<in> set caps. 0 < c" "read_many (vision_poll_read detach) caps (vision_new s u) = (rs, v)"
  shows "(\<forall>e. Failed e \<notin> set rs) \<and> (\<exists>pl'. pl = delivered rs @ pl')
    \<and> (Ready [] \<in> set rs \<longrightarrow> delivered rs = pl)
    \<and> (length pl + waits s + raw_waits raw < length caps \<longrightarrow> delivered rs = pl)"
  using vision_reader.read_to_end [OF vision_new_expects [OF assms(1-6)] assms(7,8)]
  by (auto simp: vision_new_def vision_waits_def)

text \<open>
  A frame of two bytes with one byte of padding that ends the framing, then a byte: raw after
  \<open>CMD_END\<close>, left over after \<open>CMD_DIRECT\<close>.
\<close>

lemma framed_sample:
  assumes "c = CMD_END \<and> pl = [9] \<or> c = CMD_DIRECT \<and> T = Some t \<and> pl = [9] @ arriving t"
  shows "framed T CMD_CONTINUE 0 0 0 [c, 0, 2, 0, 1, 5, 6, 0, 9] (5 # 6 # pl)"
proof -
  have 0: "framed T c 0 0 0 [9] pl" using assms framed_end [of T 0 "[9]"] framed_direct [of T t 0 "[9]"] by auto
  have 1: "framed T c 0 (Suc 0) 0 [0, 9] pl" using framed_padding [OF 0] by simp
  have 2: "framed T c 2 1 0 [5, 6, 0, 9] (5 # 6 # pl)"
    using framed_content [OF framed_content [OF 1]] by (simp add: numeral_2_eq_2)
  have h: "unat (from_be16 0 2) = 2" "unat (from_be16 0 1) = 1" by (simp_all add: unat_from_be16)
  show ?thesis
    by (rule framed_header [where po' = 0])
      (simp_all only: h 2, simp_all add: CMD_CONTINUE_def CMD_END_def CMD_DIRECT_def HEADER_SIZE_def
        MAX_FRAME_def MAX_PADDING_ONLY_def)
qed

text \<open>Both ends of the framing: with a session that cannot be detached, and with one that can.\<close>

theorem vision_reader_exact_witness:
  "delivered (fst (read_many (vision_poll_read (\<lambda>_ _. None)) (replicate 6 2)
     (vision_new [Data (replicate 10 7), Wait, Data (replicate 6 7 @ [1, 0, 2, 0]), Data [1, 5, 6, 0, 9]] (replicate 16 7))))
   = [5, 6, 9]
   \<and> delivered (fst (read_many (vision_poll_read (\<lambda>es extra. Some (Data extra # es @ [Wait, Data [4, 3]]))) (replicate 9 2)
     (vision_new [Data (replicate 10 7), Wait, Data (replicate 6 7 @ [2, 0, 2, 0]), Data [1, 5, 6, 0, 9]] (replicate 16 7))))
   = [5, 6, 9, 4, 3]"
proof -
  let ?s = "\<lambda>c. [Data (replicate 10 7), Wait, Data (replicate 6 7 @ [c, 0, 2, 0]), Data [1, 5, 6, 0, 9]]"
    and ?d = "\<lambda>es extra. Some (Data extra # es @ [Wait, Data [4, 3]])"
  obtain rs v where r: "read_many (vision_poll_read (\<lambda>_ _. None)) (replicate 6 2) (vision_new (?s 1) (replicate 16 7)) = (rs, v)"
    by (metis surj_pair)
  obtain rs' v' where r': "read_many (vision_poll_read ?d) (replicate 9 2) (vision_new (?s 2) (replicate 16 7)) = (rs', v')"
    by (metis surj_pair)
  have a: "arriving (?s c) = replicate 16 7 @ [c, 0, 2, 0, 1, 5, 6, 0, 9]" for c by (simp add: numeral_eq_Suc)
  have w: "arriving (es @ [Wait, Data [4, 3]]) = arriving es @ [4, 3]" "waits (es @ [Wait, Data [4, 3]]) = Suc (waits es)"
    if "Broken \<notin> set es" for es
    using that by (induction es rule: arriving.induct) simp_all
  have d: "can_detach (\<lambda>_ _. None) None" "can_detach ?d (Some [Wait, Data [4, 3]])"
    using w by (simp_all add: can_detach_def detaches_def unbroken_def)
  have f: "framed None CMD_CONTINUE 0 0 0 [1, 0, 2, 0, 1, 5, 6, 0, 9] [5, 6, 9]"
    "framed (Some [Wait, Data [4, 3]]) CMD_CONTINUE 0 0 0 [2, 0, 2, 0, 1, 5, 6, 0, 9] [5, 6, 9, 4, 3]"
    using framed_sample [of 1 "[9]"] framed_sample [of 2 "[9, 4, 3]" "Some [Wait, Data [4, 3]]" "[Wait, Data [4, 3]]"]
    by (simp_all add: CMD_END_def CMD_DIRECT_def)
  have "delivered rs = [5, 6, 9]"
    using vision_reader_exact [OF _ _ a _ f(1) d(1) _ r] by (simp add: unbroken_def raw_waits_def)
  moreover have "delivered rs' = [5, 6, 9, 4, 3]"
    using vision_reader_exact [OF _ _ a _ f(2) d(2) _ r'] by (simp add: unbroken_def raw_waits_def)
  ultimately show ?thesis using r r' by simp
qed

text \<open>
  C12: writing data through the Vision layer and reading the wire back with the same user id gives
  exactly the data: for any nonempty data, any random paddings, any pattern of partial and blocked
  writes that never fails, any pieces in which the bytes arrive and any read sizes, the writer
  accepts all the data and the reader delivers exactly it.
\<close>

theorem vision_roundtrip:
  assumes "length u = 16" "written k = []" "sink_good k" "data \<noteq> []"
    and "length data + length (slots k) < fuel"
  shows "\<exists>w. offer_all vision_poll_write fuel rnd data (uplink_new u k) = (Some True, w)
    \<and> (\<forall>s caps. unbroken s \<and> arriving s = written (up_sink w) \<and> (\<forall>c \<in> set caps. 0 < c)
        \<and> length data + waits s < length caps \<longrightarrow>
        delivered (fst (read_many (vision_poll_read detach) caps (vision_new s u))) = data)"
proof -
  have i: "up_uuid (uplink_new u k) = u \<and> up_idle (uplink_new u k) []"
    using uplink_new_idle [OF assms(1,2)] by (simp add: uplink_new_def)
  obtain w where w: "offer_all vision_poll_write fuel rnd data (uplink_new u k) = (Some True, w)"
    "up_uuid w = u" "up_idle w data"
    using vision_writer.write_all_succeeds [OF i _ assms(4), of fuel rnd] assms(3,5) by (auto simp: uplink_new_def)
  obtain fs where fs: "written (up_sink w) = u @ fs" "5 \<le> length fs" "framed None CMD_CONTINUE 0 0 0 fs data"
    using idle_framed [OF w(3) assms(4)] w(2) by blast
  have "delivered (fst (read_many (vision_poll_read detach) caps (vision_new s u))) = data"
    if a: "unbroken s" "arriving s = written (up_sink w)" "\<forall>c \<in> set caps. 0 < c" "length data + waits s < length caps" for s caps
  proof -
    obtain rs v where rs: "read_many (vision_poll_read detach) caps (vision_new s u) = (rs, v)" by fastforce
    have "owes_with detach None (vision_new s u) data"
      by (rule vision_new_expects [OF assms(1) a(1) _ fs(2,3)]) (use a(2) fs(1) in \<open>simp_all add: can_detach_def\<close>)
    from vision_reader.read_to_end [OF this a(3) rs] show ?thesis
      using a(4) rs by (simp add: vision_new_def vision_waits_def raw_waits_def)
  qed
  then show ?thesis using w(1) by blast
qed

theorem vision_roundtrip_witness:
  "\<exists>w. offer_all vision_poll_write 9 (\<lambda>i. i * 77) [0x17, 2, 3] (uplink_new (replicate 16 7) \<lparr>slots = [Accept 3, Block, Accept 40], written = []\<rparr>)
        = (Some True, w)
    \<and> delivered (fst (read_many (vision_poll_read (\<lambda>_ _. None)) [1, 1, 5, 5, 5]
        (vision_new [Data (take 17 (written (up_sink w))), Wait, Data (drop 17 (written (up_sink w)))] (replicate 16 7))))
      = [0x17, 2, 3]"
proof -
  let ?k = "\<lparr>slots = [Accept 3, Block, Accept 40], written = []\<rparr>"
  have "sink_good ?k" by (simp add: sink_good_def)
  then obtain w where w: "offer_all vision_poll_write 9 (\<lambda>i. i * 77) [0x17, 2, 3] (uplink_new (replicate 16 7) ?k) = (Some True, w)"
    "\<forall>s caps. unbroken s \<and> arriving s = written (up_sink w) \<and> (\<forall>c \<in> set caps. 0 < c)
        \<and> length [0x17 :: u8, 2, 3] + waits s < length caps \<longrightarrow>
        delivered (fst (read_many (vision_poll_read (\<lambda>_ _. None)) caps (vision_new s (replicate 16 7)))) = [0x17, 2, 3]"
    using vision_roundtrip [of "replicate 16 7" ?k "[0x17, 2, 3]" 9 "\<lambda>i. i * 77" "\<lambda>_ _. None"] by auto
  show ?thesis
    by (rule exI [of _ w], rule conjI [OF w(1)], rule w(2) [rule_format]) (simp add: unbroken_def)
qed

end
