(* ===== verification/VlessStream.thy ===== *)
theory VlessStream
  imports ProxyWire
begin

text \<open>
  \<^verbatim>\<open>crates/clash-proxynet/src/vless.rs\<close>, the reading half of \<^verbatim>\<open>VlessResponseStream\<close>: the
  response header (version, length of the addons, addons) is collected in \<^verbatim>\<open>pending\<close> as its
  bytes arrive, what follows it is handed to the reader. The writing half forwards every call
  to the inner stream. The results: any chunking of a good response delivers exactly the data
  after the header, and a response with a wrong version or a truncated header is reported
  as an error and never delivers a byte.
\<close>

definition VERSION :: u8 where "VERSION = 0"

record vless_response =
  vr_inner :: inner_stream
  header_read :: bool
  vr_pending :: bytes
  addons_left :: "nat option"

definition vless_response_new :: "inner_stream \<Rightarrow> vless_response" where
  "vless_response_new s = \<lparr>vr_inner = s, header_read = False, vr_pending = [], addons_left = None\<rparr>"

definition take_pending :: "vless_response \<Rightarrow> bytes \<times> vless_response" where
  "take_pending v = (vr_pending v, v\<lparr>vr_pending := []\<rparr>)"

datatype vless_next = Done "bytes poll" vless_response | Loop vless_response

text \<open>The body of the loop after the header: buffered bytes first, then the inner stream.\<close>

definition vless_pass :: "nat \<Rightarrow> vless_response \<Rightarrow> vless_next" where
  "vless_pass cap v =
     (if vr_pending v \<noteq> [] then
        (let n = min (length (vr_pending v)) cap
         in Done (Ready (take n (vr_pending v))) (v\<lparr>vr_pending := drop n (vr_pending v)\<rparr>))
      else (case inner_read cap (vr_inner v) of (r, s) \<Rightarrow> Done r (v\<lparr>vr_inner := s\<rparr>)))"

text \<open>One read of at most 256 bytes into \<^verbatim>\<open>pending\<close>; the end of the stream here is \<^verbatim>\<open>handshake_eof\<close>.\<close>

definition vless_fill :: "vless_response \<Rightarrow> vless_next" where
  "vless_fill v =
     (case inner_read 256 (vr_inner v) of
        (Ready bs, s) \<Rightarrow>
          if bs = [] then Done (Failed UnexpectedEof) (v\<lparr>vr_inner := s\<rparr>)
          else Loop (v\<lparr>vr_inner := s, vr_pending := vr_pending v @ bs\<rparr>)
      | (Failed e, s) \<Rightarrow> Done (Failed e) (v\<lparr>vr_inner := s\<rparr>)
      | (Pending, s) \<Rightarrow> Done Pending (v\<lparr>vr_inner := s\<rparr>))"

definition vless_round :: "nat \<Rightarrow> vless_response \<Rightarrow> vless_next" where
  "vless_round cap v =
     (if header_read v then vless_pass cap v
      else
        (case addons_left v of
           Some left \<Rightarrow>
             if left \<le> length (vr_pending v)
             then Loop (v\<lparr>vr_pending := drop left (vr_pending v), header_read := True\<rparr>)
             else vless_fill v
         | None \<Rightarrow>
             if 2 \<le> length (vr_pending v) then
               (if vr_pending v ! 0 \<noteq> VERSION then Done (Failed InvalidData) v
                else Loop (v\<lparr>addons_left := Some (unat (vr_pending v ! 1)), vr_pending := drop 2 (vr_pending v)\<rparr>))
             else vless_fill v))"

lemma vless_fill_progress:
  assumes "vless_fill v = Loop w"
  shows "2 * stream_size (vr_inner w) + length (vr_pending w) < 2 * stream_size (vr_inner v) + length (vr_pending v)"
    and "header_read w = header_read v \<and> addons_left w = addons_left v"
proof -
  obtain bs s where r: "inner_read 256 (vr_inner v) = (Ready bs, s)" "bs \<noteq> []"
    "w = v\<lparr>vr_inner := s, vr_pending := vr_pending v @ bs\<rparr>"
    using assms by (auto simp: vless_fill_def split: prod.splits poll.splits if_splits)
  then show "2 * stream_size (vr_inner w) + length (vr_pending w) < 2 * stream_size (vr_inner v) + length (vr_pending v)"
    using inner_read_size [OF r(1)] by (cases bs) auto
  show "header_read w = header_read v \<and> addons_left w = addons_left v" using r by simp
qed

lemma vless_round_progress:
  assumes "vless_round cap v = Loop w"
  shows "2 * stream_size (vr_inner w) + length (vr_pending w) < 2 * stream_size (vr_inner v) + length (vr_pending v)
    \<or> 2 * stream_size (vr_inner w) + length (vr_pending w) \<le> 2 * stream_size (vr_inner v) + length (vr_pending v)
      \<and> header_read w \<and> \<not> header_read v"
  using assms vless_fill_progress(1) [of v w]
  by (auto simp: vless_round_def vless_pass_def Let_def split: if_splits option.splits prod.splits)

function vless_poll_read :: "nat \<Rightarrow> vless_response \<Rightarrow> bytes poll \<times> vless_response" where
  "vless_poll_read cap v =
     (case vless_round cap v of Done r v \<Rightarrow> (r, v) | Loop v \<Rightarrow> vless_poll_read cap v)"
  by pat_completeness auto

termination vless_poll_read
  by (relation "measures [\<lambda>(c, v). 2 * stream_size (vr_inner v) + length (vr_pending v),
        \<lambda>(c, v). if header_read v then 0 else 1]")
    (auto dest: vless_round_progress)

declare vless_poll_read.simps [simp del]

section \<open>Good responses\<close>

text \<open>The bytes of the response that were not handed out yet.\<close>

definition response_rest :: "vless_response \<Rightarrow> bytes" where
  "response_rest v = vr_pending v @ arriving (vr_inner v)"

definition vless_owes :: "vless_response \<Rightarrow> bytes \<Rightarrow> bool" where
  "vless_owes v pl \<longleftrightarrow> unbroken (vr_inner v) \<and>
     (if header_read v then response_rest v = pl
      else
        (case addons_left v of
           Some n \<Rightarrow> \<exists>addons. length addons = n \<and> response_rest v = addons @ pl
         | None \<Rightarrow> \<exists>n addons. length addons = unat n \<and> response_rest v = VERSION # n # addons @ pl))"

abbreviation vr_waits :: "vless_response \<Rightarrow> nat" where
  "vr_waits v \<equiv> waits (vr_inner v)"

definition vless_good :: "bytes \<Rightarrow> vless_response \<Rightarrow> vless_next \<Rightarrow> bool" where
  "vless_good pl v x \<longleftrightarrow>
     (case x of
        Done r v' \<Rightarrow> step_delivers vless_owes vr_waits pl v r v'
      | Loop v' \<Rightarrow> vless_owes v' pl \<and> vr_waits v' \<le> vr_waits v)"

text \<open>A read of the inner stream that appends what it finds.\<close>

lemma vless_fill_cases:
  assumes "unbroken (vr_inner v)"
  obtains (data) w where "vless_fill v = Loop w" "response_rest w = response_rest v"
      "header_read w = header_read v" "addons_left w = addons_left v" "unbroken (vr_inner w)" "vr_waits w \<le> vr_waits v"
  | (wait) w where "vless_fill v = Done Pending w" "response_rest w = response_rest v" "vr_pending w = vr_pending v"
      "header_read w = header_read v" "addons_left w = addons_left v" "unbroken (vr_inner w)" "vr_waits w < vr_waits v"
  | (eof) w where "vless_fill v = Done (Failed UnexpectedEof) w" "response_rest v = vr_pending v" "response_rest w = response_rest v"
      "vr_pending w = vr_pending v" "header_read w = header_read v" "addons_left w = addons_left v"
      "unbroken (vr_inner w)" "vr_waits w \<le> vr_waits v"
proof -
  obtain r s where r: "inner_read 256 (vr_inner v) = (r, s)" by fastforce
  note u = inner_read_unbroken [OF assms r] and a = inner_read_arriving [OF r]
  show ?thesis
  proof (cases r)
    case (Ready bs)
    show ?thesis
    proof (cases "bs = []")
      case True
      then have "arriving (vr_inner v) = []" "s = []" using inner_read_eof [of 256] r Ready by auto
      then show ?thesis using eof u r Ready True by (simp add: vless_fill_def response_rest_def)
    next
      case False
      then show ?thesis using data u a r Ready by (simp add: vless_fill_def response_rest_def)
    qed
  next
    case Pending
    then show ?thesis using wait u a r by (simp add: vless_fill_def response_rest_def)
  next
    case (Failed e)
    then show ?thesis using u by simp
  qed
qed

lemma vless_pass_good:
  assumes "vless_owes v pl" "header_read v" "0 < cap"
  shows "vless_good pl v (vless_pass cap v)"
proof (cases "vr_pending v = []")
  case True
  obtain r s where r: "inner_read cap (vr_inner v) = (r, s)" by fastforce
  have o: "stream_owes (vr_inner v) pl" using assms True by (simp add: vless_owes_def stream_owes_def response_rest_def)
  show ?thesis
    using inner.step [OF o assms(3) r] r True assms(2)
    by (auto simp: vless_good_def vless_pass_def step_delivers_def stream_owes_def vless_owes_def
        response_rest_def split: poll.splits)
next
  case False
  then show ?thesis using assms
    by (auto simp: vless_good_def vless_pass_def step_delivers_def vless_owes_def response_rest_def Let_def min_def)
qed

text \<open>While the header is incomplete, a round fills or waits; the stream cannot end there.\<close>

lemma vless_fill_good:
  assumes "vless_owes v pl" "\<not> header_read v" "response_rest v \<noteq> vr_pending v"
  shows "vless_good pl v (vless_fill v)"
proof -
  have "unbroken (vr_inner v)" using assms by (simp add: vless_owes_def)
  then show ?thesis
    by (cases rule: vless_fill_cases) (use assms in \<open>simp_all add: vless_owes_def vless_good_def step_delivers_def split: option.splits\<close>)
qed

lemma vless_round_good:
  assumes "vless_owes v pl" "0 < cap"
  shows "vless_good pl v (vless_round cap v)"
proof (cases "header_read v")
  case True
  then show ?thesis using vless_pass_good assms by (simp add: vless_round_def)
next
  case nh: False
  show ?thesis
  proof (cases "addons_left v")
    case (Some n)
    obtain ad where ad: "length ad = n" "response_rest v = ad @ pl" using assms nh Some by (auto simp: vless_owes_def)
    show ?thesis
    proof (cases "n \<le> length (vr_pending v)")
      case True
      then have "drop n (vr_pending v) @ arriving (vr_inner v) = pl"
        using ad by (metis append_eq_conv_conj drop_append diff_is_0_eq drop0 response_rest_def)
      then show ?thesis using True nh Some assms(1)
        by (simp add: vless_round_def vless_good_def vless_owes_def response_rest_def)
    next
      case False
      then have "response_rest v \<noteq> vr_pending v" using ad by (metis le_add1 length_append)
      then show ?thesis using vless_fill_good [OF assms(1) nh] nh Some False by (simp add: vless_round_def)
    qed
  next
    case None
    obtain n ad where ad: "length ad = unat n" "response_rest v = VERSION # n # ad @ pl"
      using assms nh None by (auto simp: vless_owes_def)
    show ?thesis
    proof (cases "2 \<le> length (vr_pending v)")
      case True
      then obtain q where q: "vr_pending v = VERSION # n # q" "q @ arriving (vr_inner v) = ad @ pl"
        using ad(2) by (cases "vr_pending v"; cases "tl (vr_pending v)") (auto simp: response_rest_def)
      then show ?thesis using ad(1) nh None assms(1)
        by (auto simp: vless_round_def vless_good_def vless_owes_def response_rest_def)
    next
      case False
      then have "length (vr_pending v) < length (response_rest v)" using ad(2) by simp
      then have "response_rest v \<noteq> vr_pending v" by auto
      then show ?thesis using vless_fill_good [OF assms(1) nh] nh None False by (simp add: vless_round_def)
    qed
  qed
qed

lemma vless_poll_delivers:
  "vless_owes v pl \<Longrightarrow> 0 < cap \<Longrightarrow> vless_poll_read cap v = (r, v') \<Longrightarrow> step_delivers vless_owes vr_waits pl v r v'"
proof (induction cap v rule: vless_poll_read.induct)
  case (1 cap v)
  note g = vless_round_good [OF "1.prems"(1,2)]
  show ?case
  proof (cases "vless_round cap v")
    case (Done r1 v1)
    then show ?thesis using g "1.prems"(3) vless_poll_read.simps [of cap v] by (simp add: vless_good_def)
  next
    case (Loop w)
    then have p: "vless_poll_read cap w = (r, v')" using "1.prems"(3) vless_poll_read.simps [of cap v] by simp
    have w: "vless_owes w pl" "vr_waits w \<le> vr_waits v" using g Loop by (simp_all add: vless_good_def)
    have "step_delivers vless_owes vr_waits pl w r v'" using "1.IH" [OF Loop w(1) "1.prems"(2) p] .
    then show ?thesis using w(2) by (auto simp: step_delivers_def split: poll.splits)
  qed
qed

interpretation vless_reader: layered_reader vless_poll_read vless_owes vr_waits
  by unfold_locales (rule vless_poll_delivers)

lemma vless_new_owes:
  assumes "unbroken s" "arriving s = VERSION # n # addons @ pl" "length addons = unat n"
  shows "vless_owes (vless_response_new s) pl"
  using assms by (auto simp: vless_owes_def vless_response_new_def response_rest_def)

section \<open>Bad responses\<close>

text \<open>Which error a response deserves, if any.\<close>

definition response_fault :: "bytes \<Rightarrow> io_error_kind option" where
  "response_fault bs =
     (if length bs < 2 then Some UnexpectedEof
      else if bs ! 0 \<noteq> VERSION then Some InvalidData
      else if length bs < 2 + unat (bs ! 1) then Some UnexpectedEof
      else None)"

definition hopeless :: "io_error_kind \<Rightarrow> vless_response \<Rightarrow> bool" where
  "hopeless e v \<longleftrightarrow> unbroken (vr_inner v) \<and> \<not> header_read v \<and>
     (case addons_left v of
        Some n \<Rightarrow> e = UnexpectedEof \<and> length (response_rest v) < n
      | None \<Rightarrow> response_fault (response_rest v) = Some e)"

definition fails_with :: "io_error_kind \<Rightarrow> vless_response \<Rightarrow> bytes poll \<Rightarrow> vless_response \<Rightarrow> bool" where
  "fails_with e v r v' \<longleftrightarrow> hopeless e v' \<and> (r = Pending \<and> vr_waits v' < vr_waits v \<or> r = Failed e \<and> vr_waits v' \<le> vr_waits v)"

definition bad_round :: "io_error_kind \<Rightarrow> vless_response \<Rightarrow> vless_next \<Rightarrow> bool" where
  "bad_round e v x \<longleftrightarrow>
     (case x of Done r v' \<Rightarrow> fails_with e v r v' | Loop v' \<Rightarrow> hopeless e v' \<and> vr_waits v' \<le> vr_waits v)"

lemma vless_fill_bad:
  assumes "hopeless e v" "response_rest v = vr_pending v \<Longrightarrow> e = UnexpectedEof"
  shows "bad_round e v (vless_fill v)"
proof -
  have "unbroken (vr_inner v)" using assms by (simp add: hopeless_def)
  then show ?thesis
  proof (cases rule: vless_fill_cases)
    case (eof w)
    then have "e = UnexpectedEof" "hopeless e w" using assms by (simp_all add: hopeless_def split: option.splits)
    then show ?thesis using eof(1,8) by (simp add: bad_round_def fails_with_def)
  qed (use assms(1) in \<open>simp_all add: bad_round_def fails_with_def hopeless_def split: option.splits\<close>)
qed

lemma vless_round_bad:
  assumes "hopeless e v"
  shows "bad_round e v (vless_round cap v)"
proof (cases "addons_left v")
  case (Some n)
  then have "\<not> n \<le> length (vr_pending v)" "e = UnexpectedEof" using assms by (auto simp: hopeless_def response_rest_def)
  then show ?thesis using vless_fill_bad [OF assms] assms Some by (simp add: vless_round_def hopeless_def)
next
  case None
  show ?thesis
  proof (cases "2 \<le> length (vr_pending v)")
    case True
    then obtain a b q where q: "vr_pending v = a # b # q"
      by (cases "vr_pending v"; cases "tl (vr_pending v)") auto
    then show ?thesis using assms None
      by (auto simp: vless_round_def bad_round_def fails_with_def hopeless_def response_fault_def response_rest_def
          split: if_splits)
  next
    case False
    then have "response_rest v = vr_pending v \<Longrightarrow> e = UnexpectedEof"
      using assms None by (auto simp: hopeless_def response_fault_def split: if_splits)
    then show ?thesis using vless_fill_bad [OF assms] assms None False by (simp add: vless_round_def hopeless_def)
  qed
qed

lemma vless_poll_bad: "hopeless e v \<Longrightarrow> vless_poll_read cap v = (r, v') \<Longrightarrow> fails_with e v r v'"
proof (induction cap v rule: vless_poll_read.induct)
  case (1 cap v)
  note g = vless_round_bad [OF "1.prems"(1), of cap]
  show ?case
  proof (cases "vless_round cap v")
    case (Done r1 v1)
    then show ?thesis using g "1.prems"(2) vless_poll_read.simps [of cap v] by (simp add: bad_round_def)
  next
    case (Loop w)
    then have p: "vless_poll_read cap w = (r, v')" using "1.prems"(2) vless_poll_read.simps [of cap v] by simp
    show ?thesis using "1.IH" [OF Loop _ p] g Loop by (auto simp: bad_round_def fails_with_def)
  qed
qed

lemma read_many_bad:
  assumes "hopeless e v" "read_many vless_poll_read caps v = (rs, v')"
  shows "set rs \<subseteq> {Pending, Failed e} \<and> (vr_waits v < length caps \<longrightarrow> Failed e \<in> set rs)"
  using assms
proof (induction caps arbitrary: v rs)
  case (Cons cap caps)
  obtain r w where p: "vless_poll_read cap v = (r, w)" by fastforce
  obtain rs1 where q: "read_many vless_poll_read caps w = (rs1, v')" "rs = r # rs1"
    using Cons.prems(2) p by (auto split: prod.splits)
  have f: "fails_with e v r w" by (rule vless_poll_bad [OF Cons.prems(1) p])
  then show ?case using Cons.IH [OF _ q(1)] q(2) by (auto simp: fails_with_def)
qed simp

section \<open>Results\<close>

text \<open>
  C14: however a VLESS response is cut into pieces (version 0, the length of the addons, the addons,
  then data) and whatever the sizes of the reads, no read fails, what the reads return is a
  prefix of the data, the end is reported only after all of it, and all of it is returned once
  there are more reads than data bytes and moments of waiting.
\<close>

theorem vless_response_exact:
  assumes "unbroken s" "arriving s = VERSION # n # addons @ pl" "length addons = unat n"
    and "\<forall>c \<in> set caps. 0 < c" "read_many vless_poll_read caps (vless_response_new s) = (rs, v)"
  shows "(\<forall>e. Failed e \<notin> set rs) \<and> (\<exists>pl'. pl = delivered rs @ pl')
    \<and> (Ready [] \<in> set rs \<longrightarrow> delivered rs = pl)
    \<and> (length pl + waits s < length caps \<longrightarrow> delivered rs = pl)"
  using vless_reader.read_to_end [OF vless_new_owes [OF assms(1-3)] assms(4,5)]
  by (auto simp: vless_response_new_def)

theorem vless_response_exact_witness:
  "delivered (fst (read_many vless_poll_read [1, 1, 5, 5]
     (vless_response_new [Data [0], Wait, Data [2, 9], Data [9, 5, 6]]))) = [5, 6]"
proof -
  let ?s = "[Data [0], Wait, Data [2, 9], Data [9, 5, 6 :: u8]]"
  obtain rs v where r: "read_many vless_poll_read [1, 1, 5, 5] (vless_response_new ?s) = (rs, v)"
    by (metis surj_pair)
  show ?thesis
    using vless_response_exact [of ?s 2 "[9, 9]" "[5, 6]", OF _ _ _ _ r] r
    by (simp add: unbroken_def VERSION_def)
qed

text \<open>
  C15: a VLESS response that starts with a wrong version, or that ends inside its header, is
  reported as exactly that error: every read waits or fails with it, no read returns data or
  an end of stream, and the failure comes as soon as the stream has nothing more to wait for.
\<close>

theorem vless_response_rejected:
  assumes "unbroken s" "response_fault (arriving s) = Some e"
    and "read_many vless_poll_read caps (vless_response_new s) = (rs, v)"
  shows "set rs \<subseteq> {Pending, Failed e} \<and> (waits s < length caps \<longrightarrow> Failed e \<in> set rs)"
proof -
  have "hopeless e (vless_response_new s)"
    using assms(1,2) by (simp add: hopeless_def vless_response_new_def response_rest_def)
  from read_many_bad [OF this assms(3)] show ?thesis by (simp add: vless_response_new_def)
qed

theorem vless_response_rejected_witness:
  "Failed InvalidData \<in> set (fst (read_many vless_poll_read [7, 7] (vless_response_new [Data [1], Wait, Data [0, 3]])))
   \<and> Failed UnexpectedEof \<in> set (fst (read_many vless_poll_read [7] (vless_response_new [Data [0, 3, 1]])))"
proof -
  have f: "response_fault [1, 0, 3] = Some InvalidData" "response_fault [0, 3, 1] = Some UnexpectedEof"
    by (simp_all add: response_fault_def VERSION_def)
  show ?thesis
    using vless_response_rejected [of "[Data [1], Wait, Data [0, 3]]" InvalidData "[7, 7]", OF _ _ prod.collapse [symmetric]]
      vless_response_rejected [of "[Data [0, 3, 1]]" UnexpectedEof "[7]", OF _ _ prod.collapse [symmetric]] f
    by (simp add: unbroken_def)
qed

end
