(* ===== verification/WebSocket.thy ===== *)
theory WebSocket
  imports ProxyWire ProxySink
begin

text \<open>
  \<^verbatim>\<open>crates/clash-proxynet/src/transport.rs\<close>: the HTTP upgrade handshake (\<^verbatim>\<open>http_upgrade\<close>), the stream
  that hands out the bytes read past the response first (\<^verbatim>\<open>PrefixedStream\<close>) and WebSocket framing
  (\<^verbatim>\<open>parse_ws_frame\<close>, \<^verbatim>\<open>encode_client_binary_frame\<close>, \<^verbatim>\<open>WebSocketStream\<close>). The base64 encoder and SHA-1
  are parameters; the random key and masks are arguments. The results: after an accepted upgrade
  the reader delivers exactly the payload of the frames however the bytes arrive, the writer's
  frames are read back exactly, and a length field near the top of 64 bits makes the reader panic.
\<close>

section \<open>Big-endian numbers of any width\<close>

fun be_bytes :: "nat \<Rightarrow> nat \<Rightarrow> bytes" where
  "be_bytes 0 n = []"
| "be_bytes (Suc k) n = be_bytes k (n div 256) @ [word_of_nat n]"

definition be_val :: "bytes \<Rightarrow> nat" where
  "be_val bs = foldl (\<lambda>a b. a * 256 + unat b) 0 bs"

lemma length_be_bytes [simp]: "length (be_bytes k n) = k"
  by (induction k arbitrary: n) auto

lemma be_val_snoc [simp]: "be_val (bs @ [b]) = be_val bs * 256 + unat b"
  by (simp add: be_val_def)

lemma be_val_be_bytes: "n < 256 ^ k \<Longrightarrow> be_val (be_bytes k n) = n"
proof (induction k arbitrary: n)
  case (Suc k)
  then have "n div 256 < 256 ^ k" by (simp add: less_mult_imp_div_less mult.commute)
  then show ?case using Suc.IH by (simp add: unat_of_nat_u8)
qed (simp add: be_val_def)

lemma be_val_lt: "be_val bs < 256 ^ length bs"
proof (induction bs rule: rev_induct)
  case (snoc b bs)
  then have "be_val bs + 1 \<le> 256 ^ length bs" by simp
  have "be_val (bs @ [b]) < (be_val bs + 1) * 256" using unat_u8_lt [of b] by simp
  also have "\<dots> \<le> 256 ^ length bs * 256" by (rule mult_le_mono1) fact
  also have "\<dots> = 256 ^ length (bs @ [b])" by simp
  finally show ?case .
qed (simp add: be_val_def)

section \<open>The upgrade\<close>

definition WS_GUID :: bytes where
  "WS_GUID = as_bytes ''258EAFA5-E914-47DA-95CA-C5AB0DC85B11''"

type_synonym b64_enc = "bytes \<Rightarrow> rstr"
type_synonym sha1_fn = "bytes \<Rightarrow> bytes"

definition crlf :: rstr where "crlf = [CHR 13, CHR 10]"

definition expected_accept :: "b64_enc \<Rightarrow> sha1_fn \<Rightarrow> bytes \<Rightarrow> rstr" where
  "expected_accept b64 sha1 key = b64 (sha1 (as_bytes (b64 key) @ WS_GUID))"

text \<open>\<open>key\<close> is the random key when a WebSocket is asked for.\<close>

definition upgrade_request :: "b64_enc \<Rightarrow> rstr \<Rightarrow> rstr \<Rightarrow> bytes option \<Rightarrow> rstr" where
  "upgrade_request b64 path host key =
     ''GET '' @ path @ '' HTTP/1.1'' @ crlf @ ''Host: '' @ host @ crlf
     @ ''Upgrade: websocket'' @ crlf @ ''Connection: Upgrade'' @ crlf
     @ (case key of
          None \<Rightarrow> []
        | Some k \<Rightarrow> ''Sec-WebSocket-Key: '' @ b64 k @ crlf @ ''Sec-WebSocket-Version: 13'' @ crlf)
     @ crlf"

definition find_header_end :: "bytes \<Rightarrow> nat option" where
  "find_header_end buf = map_option (\<lambda>i. i + 4) (find_sub CRLFCRLF buf)"

text \<open>A header is read as text, one character per byte.\<close>

definition strip_suffix_cr :: "rstr \<Rightarrow> rstr" where
  "strip_suffix_cr line = (if line \<noteq> [] \<and> last line = CHR 13 then butlast line else line)"

text \<open>\<^verbatim>\<open>parse::<i32>\<close>.\<close>

definition parse_i32 :: "rstr \<Rightarrow> int option" where
  "parse_i32 s =
     (case s of
        c # cs \<Rightarrow>
          (if c = CHR ''-'' \<and> cs \<noteq> []
           then map_option (\<lambda>n. - int n) (opt_filter (\<lambda>n. n \<le> 2147483648) (digits_val 0 cs))
           else map_option int (parse_uint 2147483647 s))
      | [] \<Rightarrow> None)"

text \<open>A code that is not UTF-8 is not a number either.\<close>

definition parse_status :: "rstr \<Rightarrow> int option" where
  "parse_status header =
     (let line = strip_suffix_cr (hd (split_char (CHR 10) header)) in
      case split_char (CHR '' '') line of
        _ # code # _ \<Rightarrow> parse_i32 code
      | _ \<Rightarrow> None)"

definition eq_ignore_ascii :: "rstr \<Rightarrow> rstr \<Rightarrow> bool" where
  "eq_ignore_ascii a lower \<longleftrightarrow> lowercase a = lower"

fun header_lines :: "rstr \<Rightarrow> rstr list \<Rightarrow> rstr option" where
  "header_lines name [] = None"
| "header_lines name (line # lines) =
     (let line = strip_suffix_cr line in
      if line = [] then None
      else
        (case find_char (CHR '':'') line of
           None \<Rightarrow> None
         | Some colon \<Rightarrow>
             if colon \<noteq> length name then header_lines name lines
             else if \<not> eq_ignore_ascii (take colon line) name then header_lines name lines
             else Some (trim_chars (\<lambda>c. c = CHR '' '' \<or> c = CHR 9) (drop (colon + 1) line))))"

definition header_value :: "rstr \<Rightarrow> rstr \<Rightarrow> rstr option" where
  "header_value headers name = header_lines name (drop 1 (split_char (CHR 10) headers))"

text \<open>What is decided once the end of the header was found: the status and the challenge.\<close>

definition check_upgrade :: "rstr option \<Rightarrow> rstr \<Rightarrow> proxy_error_code option" where
  "check_upgrade expected header =
     (if unwrap_or (- 1) (parse_status header) \<noteq> 101 then Some TransportUpgradeFailed
      else
        (case expected of
           None \<Rightarrow> None
         | Some e \<Rightarrow>
             (case header_value header ''sec-websocket-accept'' of
                None \<Rightarrow> Some TransportUpgradeFailed
              | Some actual \<Rightarrow> if actual \<noteq> e then Some TransportUpgradeFailed else None)))"

function upgrade_loop :: "rstr option \<Rightarrow> bytes \<Rightarrow> inner_stream \<Rightarrow> (proxy_error_code + bytes) \<times> inner_stream" where
  "upgrade_loop expected buf es =
     (case await_read 1024 es of
        (Inl e, es') \<Rightarrow> (Inl ConnectionFailed, es')
      | (Inr bs, es') \<Rightarrow>
          if bs = [] then (Inl TransportUpgradeFailed, es')
          else
            (let buf = buf @ bs in
             case find_header_end buf of
               Some pos \<Rightarrow>
                 (case check_upgrade expected (map chr_of (take pos buf)) of
                    Some e \<Rightarrow> (Inl e, es')
                  | None \<Rightarrow> (Inr (drop pos buf), es'))
             | None \<Rightarrow>
                 if 64 * 1024 < length buf then (Inl TransportUpgradeFailed, es')
                 else upgrade_loop expected buf es'))"
  by pat_completeness auto

termination upgrade_loop
  by (relation "measure (\<lambda>(e, buf, es). stream_size es)") (auto, metis await_read_shrinks zero_less_numeral)

declare upgrade_loop.simps [simp del]

text \<open>The request is written first; then the response is read.\<close>

definition http_upgrade ::
  "b64_enc \<Rightarrow> sha1_fn \<Rightarrow> rstr \<Rightarrow> rstr \<Rightarrow> bytes option \<Rightarrow> inner_stream \<Rightarrow> bytes \<times> (proxy_error_code + bytes) \<times> inner_stream" where
  "http_upgrade b64 sha1 path host key es =
     (as_bytes (upgrade_request b64 path host key), upgrade_loop (map_option (expected_accept b64 sha1) key) [] es)"

section \<open>Prefixed streams\<close>

record prefixed =
  px_prefix :: bytes
  px_pos :: nat
  px_inner :: inner_stream

definition prefixed_new :: "bytes \<Rightarrow> inner_stream \<Rightarrow> prefixed" where
  "prefixed_new leftover es = \<lparr>px_prefix = leftover, px_pos = 0, px_inner = es\<rparr>"

definition prefixed_read :: "nat \<Rightarrow> prefixed \<Rightarrow> bytes poll \<times> prefixed" where
  "prefixed_read cap p =
     (if px_pos p < length (px_prefix p) then
        (let rem = drop (px_pos p) (px_prefix p); n = min (length rem) cap
         in (Ready (take n rem), p\<lparr>px_pos := px_pos p + n\<rparr>))
      else (case inner_read cap (px_inner p) of (r, es) \<Rightarrow> (r, p\<lparr>px_inner := es\<rparr>)))"

definition px_rest :: "prefixed \<Rightarrow> bytes" where
  "px_rest p = drop (px_pos p) (px_prefix p) @ arriving (px_inner p)"

abbreviation px_waits :: "prefixed \<Rightarrow> nat" where
  "px_waits p \<equiv> waits (px_inner p)"

definition px_owes :: "prefixed \<Rightarrow> bytes \<Rightarrow> bool" where
  "px_owes p pl \<longleftrightarrow> unbroken (px_inner p) \<and> pl = px_rest p"

interpretation prefixed_reader: layered_reader prefixed_read px_owes px_waits
proof (unfold_locales, goal_cases)
  case (1 p pl cap r p')
  show ?case
  proof (cases "px_pos p < length (px_prefix p)")
    case True
    let ?n = "min (length (px_prefix p) - px_pos p) cap"
    have "drop (px_pos p) (px_prefix p) = take ?n (drop (px_pos p) (px_prefix p)) @ drop (px_pos p + ?n) (px_prefix p)"
      by (metis append_take_drop_id drop_drop add.commute)
    then show ?thesis using 1 True
      by (auto simp: prefixed_read_def step_delivers_def px_owes_def px_rest_def Let_def)
  next
    case False
    obtain q es where q: "inner_read cap (px_inner p) = (q, es)" by fastforce
    have o: "stream_owes (px_inner p) pl" using 1 False by (simp add: px_owes_def px_rest_def stream_owes_def)
    show ?thesis using inner.step [OF o 1(2) q] q 1(3) False
      by (auto simp: prefixed_read_def step_delivers_def px_owes_def px_rest_def stream_owes_def split: poll.splits)
  qed
qed

definition px_size :: "prefixed \<Rightarrow> nat" where
  "px_size p = (length (px_prefix p) - px_pos p) + stream_size (px_inner p)"

lemma prefixed_read_shrinks:
  assumes "0 < cap" "prefixed_read cap p = (Ready bs, p')" "bs \<noteq> []"
  shows "px_size p' < px_size p"
proof (cases "px_pos p < length (px_prefix p)")
  case True
  then show ?thesis using assms by (auto simp: prefixed_read_def px_size_def Let_def)
next
  case False
  obtain q es where q: "inner_read cap (px_inner p) = (q, es)" by fastforce
  then have r: "inner_read cap (px_inner p) = (Ready bs, es)" "p' = p\<lparr>px_inner := es\<rparr>" using assms(2) False by (auto simp: prefixed_read_def)
  then have "px_inner p \<noteq> []" using assms(3) by auto
  then show ?thesis using inner_read_shrinks [OF assms(1) r(1)] r(2) by (simp add: px_size_def)
qed

section \<open>Frames\<close>

datatype ws_event = Ws_payload bytes | Ws_skip | Ws_close

datatype ws_parsed = Ws_panic | Ws_more | Ws_frame nat ws_event

text \<open>The payload length and where the rest of the header starts.\<close>

definition ws_length :: "bytes \<Rightarrow> (nat \<times> nat) option" where
  "ws_length buf =
     (let len = unat (buf ! 1 AND 0x7F) in
      if len = 126 then (if length buf < 4 then None else Some (unat (from_be16 (buf ! 2) (buf ! 3)), 4))
      else if len = 127 then (if length buf < 10 then None else Some (be_val (slice 2 10 buf), 10))
      else Some (len, 2))"

definition xor_mask :: "bytes \<Rightarrow> bytes \<Rightarrow> bytes" where
  "xor_mask mkey p = map (\<lambda>i. p ! i XOR mkey ! (i mod 4)) [0..<length p]"

definition ws_event_of :: "u8 \<Rightarrow> bytes \<Rightarrow> ws_event" where
  "ws_event_of b0 payload =
     (let opcode = b0 AND 0x0F in
      if opcode = 8 then Ws_close else if opcode = 9 \<or> opcode = 10 then Ws_skip else Ws_payload payload)"

text \<open>\<^verbatim>\<open>off + len\<close> is computed in 64 bits: where it does not fit, the addition panics in a debug build, and
  in a release build it wraps to a value below \<^verbatim>\<open>off\<close>, so that the slice panics.\<close>

definition parse_ws_frame :: "bytes \<Rightarrow> ws_parsed" where
  "parse_ws_frame buf =
     (if length buf < 2 then Ws_more
      else
        (let masked = (buf ! 1 AND 0x80 \<noteq> 0) in
         case ws_length buf of
           None \<Rightarrow> Ws_more
         | Some (len, off) \<Rightarrow>
             if masked \<and> length buf < off + 4 then Ws_more
             else
               (let mkey = (if masked then slice off (off + 4) buf else replicate 4 0);
                    off = (if masked then off + 4 else off)
                in if 2 ^ 64 \<le> off + len then Ws_panic
                   else if length buf < off + len then Ws_more
                   else
                     (let payload = slice off (off + len) buf;
                          payload = (if masked then xor_mask mkey payload else payload)
                      in Ws_frame (off + len) (ws_event_of (buf ! 0) payload)))))"

text \<open>\<open>mkey\<close> is the random key of the frame.\<close>

definition encode_client_binary_frame :: "bytes \<Rightarrow> bytes \<Rightarrow> bytes" where
  "encode_client_binary_frame mkey payload =
     (let n = length payload in
      [0x82]
      @ (if n < 126 then [0x80 OR word_of_nat n]
         else if n \<le> 65535 then [0x80 OR 126] @ to_be16 (word_of_nat n)
         else [0x80 OR 127] @ be_bytes 8 n)
      @ mkey @ xor_mask mkey payload)"

text \<open>The wire form of a frame, masked or not, for the specification.\<close>

definition ws_header :: "u8 \<Rightarrow> u8 \<Rightarrow> nat \<Rightarrow> bytes" where
  "ws_header b0 flag n =
     [b0]
     @ (if n < 126 then [flag OR word_of_nat n]
        else if n \<le> 65535 then [flag OR 126] @ to_be16 (word_of_nat n)
        else [flag OR 127] @ be_bytes 8 n)"

definition ws_wire :: "u8 \<Rightarrow> bytes option \<Rightarrow> bytes \<Rightarrow> bytes" where
  "ws_wire b0 mkey payload =
     (case mkey of
        None \<Rightarrow> ws_header b0 0 (length payload) @ payload
      | Some m \<Rightarrow> ws_header b0 0x80 (length payload) @ m @ xor_mask m payload)"

lemma encode_is_wire: "encode_client_binary_frame mkey p = ws_wire 0x82 (Some mkey) p"
  by (simp add: encode_client_binary_frame_def ws_wire_def ws_header_def Let_def)

lemma length_xor_mask [simp]: "length (xor_mask m p) = length p"
  by (simp add: xor_mask_def)

lemma xor_mask_twice [simp]: "xor_mask m (xor_mask m p) = p"
  by (rule nth_equalityI) (simp_all add: xor_mask_def xor.assoc)

lemma flag_bits:
  "n < 128 \<Longrightarrow> unat ((0x80 OR word_of_nat n :: u8) AND 0x7F) = n \<and> (0x80 OR word_of_nat n :: u8) AND 0x80 \<noteq> 0
     \<and> unat ((0 OR word_of_nat n :: u8) AND 0x7F) = n \<and> (0 OR word_of_nat n :: u8) AND 0x80 = 0"
proof -
  have "list_all (\<lambda>n. unat ((0x80 OR word_of_nat n :: u8) AND 0x7F) = n \<and> (0x80 OR word_of_nat n :: u8) AND 0x80 \<noteq> 0
     \<and> unat ((0 OR word_of_nat n :: u8) AND 0x7F) = n \<and> (0 OR word_of_nat n :: u8) AND 0x80 = 0) [0..<128]"
    by code_simp
  then show "n < 128 \<Longrightarrow> ?thesis" by (simp add: list_all_iff)
qed

lemma ws_header_cases:
  assumes "n < 2 ^ 64"
  obtains (short) "n < 126" "ws_header hb flag n = [hb, flag OR word_of_nat n]"
  | (medium) "n < 65536" "ws_header hb flag n = [hb, flag OR word_of_nat 126, hi8 (word_of_nat n), lo8 (word_of_nat n)]"
  | (long) ns where "length ns = 8" "be_val ns = n" "ws_header hb flag n = hb # (flag OR word_of_nat 127) # ns"
proof -
  have "n < 256 ^ 8" using assms by simp
  then have v: "be_val (be_bytes 8 n) = n" by (rule be_val_be_bytes)
  consider "n < 126" | "\<not> n < 126" "n < 65536" | "65536 \<le> n" by linarith
  then show ?thesis
    by cases (rule that; use v in \<open>simp add: ws_header_def to_be16_def\<close>)+
qed

lemma ws_header_flags:
  assumes "n < 2 ^ 64" "flag = 0 \<or> flag = 0x80"
  shows "ws_header hb flag n ! 0 = hb" "2 \<le> length (ws_header hb flag n)" "length (ws_header hb flag n) \<le> 10"
    "(ws_header hb flag n ! 1 AND 0x80 \<noteq> 0) = (flag = 0x80)"
proof -
  have f: "k < 128 \<Longrightarrow> ((flag OR word_of_nat k) AND 0x80 \<noteq> 0) = (flag = 0x80)" for k
    using flag_bits [of k] assms(2) by auto
  have "ws_header hb flag n ! 0 = hb \<and> 2 \<le> length (ws_header hb flag n) \<and> length (ws_header hb flag n) \<le> 10
    \<and> (ws_header hb flag n ! 1 AND 0x80 \<noteq> 0) = (flag = 0x80)"
    using assms(1) f [of n] f [of 126] f [of 127]
    by (cases rule: ws_header_cases [where hb = hb and flag = flag]) auto
  then show "ws_header hb flag n ! 0 = hb" "2 \<le> length (ws_header hb flag n)" "length (ws_header hb flag n) \<le> 10"
    "(ws_header hb flag n ! 1 AND 0x80 \<noteq> 0) = (flag = 0x80)" by blast+
qed

lemma ws_length_header:
  assumes "n < 2 ^ 64" "flag = 0 \<or> flag = 0x80"
  shows "ws_length (ws_header hb flag n @ x) = Some (n, length (ws_header hb flag n))"
proof -
  have f: "k < 128 \<Longrightarrow> unat ((flag OR word_of_nat k) AND 0x7F) = k" for k
    using flag_bits [of k] assms(2) by auto
  show ?thesis using assms(1)
  proof (cases rule: ws_header_cases [where hb = hb and flag = flag])
    case short
    then show ?thesis using f [of n] by (simp add: ws_length_def)
  next
    case medium
    then show ?thesis using f [of 126] by (simp add: ws_length_def numeral_3_eq_3 numeral_2_eq_2 unat_of_nat_u16)
  next
    case (long ns)
    then show ?thesis using f [of 127] by (simp add: ws_length_def slice_def)
  qed
qed

lemma ws_length_partial:
  assumes "n < 2 ^ 64" "flag = 0 \<or> flag = 0x80" "2 \<le> k" "k < length (ws_header hb flag n)"
  shows "ws_length (take k (ws_header hb flag n)) = None"
proof -
  have f: "k < 128 \<Longrightarrow> unat ((flag OR word_of_nat k) AND 0x7F) = k" for k
    using flag_bits [of k] assms(2) by auto
  show ?thesis using assms(1)
  proof (cases rule: ws_header_cases [where hb = hb and flag = flag])
    case short
    then show ?thesis using assms(3,4) by simp
  next
    case medium
    then show ?thesis using f [of 126] assms(3,4) by (simp add: ws_length_def)
  next
    case (long ns)
    then show ?thesis using f [of 127] assms(3,4) by (simp add: ws_length_def)
  qed
qed

definition mask_ok :: "bytes option \<Rightarrow> bool" where
  "mask_ok m \<longleftrightarrow> (case m of None \<Rightarrow> True | Some k \<Rightarrow> length k = 4)"

text \<open>Both forms at once: a flag, the key if the flag is set, and the body.\<close>

lemma ws_wire_parts:
  assumes "mask_ok m"
  obtains flag keys body where "flag = 0 \<or> flag = 0x80" "length keys = (if flag = 0x80 then 4 else 0)" "length body = length p"
    "ws_wire hb m p = ws_header hb flag (length p) @ keys @ body"
    "p = (if flag = 0x80 then xor_mask keys body else body)"
proof (cases m)
  case None
  then show ?thesis using that [of 0 "[]" p] by (simp add: ws_wire_def)
next
  case (Some k)
  then show ?thesis using that [of "0x80" k "xor_mask k p"] assms by (simp add: ws_wire_def mask_ok_def)
qed

lemma parse_after_header:
  assumes "n < 2 ^ 63" "flag = 0 \<or> flag = 0x80" "h = ws_header hb flag n"
  shows "parse_ws_frame (h @ y) =
    (if flag = 0x80
     then (if length y < 4 + n then Ws_more
           else Ws_frame (length h + 4 + n) (ws_event_of hb (xor_mask (take 4 y) (take n (drop 4 y)))))
     else (if length y < n then Ws_more else Ws_frame (length h + n) (ws_event_of hb (take n y))))"
proof -
  have n: "n < 2 ^ 64" using assms(1) by simp
  note f = ws_header_flags [OF n assms(2), of hb, folded assms(3)]
  have nth: "(h @ y) ! 0 = hb" "(h @ y) ! 1 = h ! 1" using f(1,2) by (cases h; auto simp: nth_append)+
  have len: "\<not> length (h @ y) < 2" using f(2) by simp
  have small: "\<not> 2 ^ 64 \<le> length h + 4 + n" "\<not> 2 ^ 64 \<le> length h + n" using f(3) assms(1) by simp_all
  have wl: "ws_length (h @ y) = Some (n, length h)" unfolding assms(3) by (rule ws_length_header [OF n assms(2)])
  have m: "(h ! 1 AND 0x80 \<noteq> 0) = (flag = 0x80)" by (rule f(4))
  show ?thesis
  proof (cases "flag = 0x80")
    case True
    then show ?thesis
      unfolding parse_ws_frame_def Let_def wl option.case prod.case nth m using len small
      by (simp add: slice_def)
  next
    case False
    then show ?thesis
      unfolding parse_ws_frame_def Let_def wl option.case prod.case nth m using len small
      by (simp add: slice_def)
  qed
qed

lemma parse_wire:
  assumes "mask_ok m" "length p < 2 ^ 63"
  shows "parse_ws_frame (ws_wire hb m p @ x) = Ws_frame (length (ws_wire hb m p)) (ws_event_of hb p)"
proof -
  obtain flag keys body where w: "flag = 0 \<or> flag = 0x80" "length keys = (if flag = 0x80 then 4 else 0)" "length body = length p"
    "ws_wire hb m p = ws_header hb flag (length p) @ keys @ body" "p = (if flag = 0x80 then xor_mask keys body else body)"
    by (rule ws_wire_parts [OF assms(1)])
  show ?thesis
    using parse_after_header [OF assms(2) w(1) refl, of hb "keys @ body @ x"] w(2,3) w(5) [symmetric]
    unfolding w(4) by (cases "flag = 0x80") simp_all
qed

lemma parse_partial:
  assumes "mask_ok m" "length p < 2 ^ 63" "k < length (ws_wire hb m p)"
  shows "parse_ws_frame (take k (ws_wire hb m p)) = Ws_more"
proof (cases "k < 2")
  case True
  then have "length (take k (ws_wire hb m p)) < 2" by (simp add: min_def)
  then show ?thesis unfolding parse_ws_frame_def by (simp only: if_True)
next
  case k2: False
  obtain flag keys body where w: "flag = 0 \<or> flag = 0x80" "length keys = (if flag = 0x80 then 4 else 0)" "length body = length p"
    "ws_wire hb m p = ws_header hb flag (length p) @ keys @ body"
    by (rule ws_wire_parts [OF assms(1)])
  have n: "length p < 2 ^ 64" using assms(2) by simp
  let ?h = "ws_header hb flag (length p)"
  show ?thesis
  proof (cases "k < length ?h")
    case True
    then have "take k (ws_wire hb m p) = take k ?h" using w(4) by simp
    moreover have "ws_length (take k ?h) = None" using ws_length_partial [OF n w(1) _ True] k2 by simp
    ultimately show ?thesis by (simp add: parse_ws_frame_def)
  next
    case False
    then have t: "take k (ws_wire hb m p) = ?h @ take (k - length ?h) (keys @ body)" using w(4) by simp
    show ?thesis
      unfolding t using parse_after_header [OF assms(2) w(1) refl, of hb "take (k - length ?h) (keys @ body)"]
        assms(3) w(2-4) False by (cases "flag = 0x80") simp_all
  qed
qed

text \<open>A length field near the top of its range is a panic, whatever follows.\<close>

lemma parse_ws_panics: "parse_ws_frame (0x82 # 127 # replicate 8 255 @ x) = Ws_panic"
proof -
  have "be_val (replicate 8 255) = 2 ^ 64 - 1" by code_simp
  then show ?thesis by (simp add: parse_ws_frame_def ws_length_def slice_def)
qed

section \<open>The reading half\<close>

record ws_stream =
  ws_inner :: prefixed
  rx :: bytes
  decoded :: bytes
  decoded_pos :: nat
  empty_frames :: nat

definition ws_new :: "inner_stream \<Rightarrow> bytes \<Rightarrow> ws_stream" where
  "ws_new es leftover =
     \<lparr>ws_inner = prefixed_new leftover es, rx = [], decoded = [], decoded_pos = 0, empty_frames = 0\<rparr>"

definition MAX_EMPTY_FRAMES :: nat where "MAX_EMPTY_FRAMES = 64"

text \<open>The inner \<^verbatim>\<open>while let\<close> loop over the frames that are complete: it is left for the outer loop, or
  ends the call.\<close>

datatype ws_drained = Drained ws_stream | Ended "bytes poll" ws_stream

lemma ws_length_off: "ws_length buf = Some (len, off) \<Longrightarrow> 2 \<le> off"
  by (auto simp: ws_length_def Let_def split: if_splits)

lemma parse_consumes: "parse_ws_frame buf = Ws_frame n ev \<Longrightarrow> 2 \<le> n \<and> n \<le> length buf"
  by (auto simp: parse_ws_frame_def Let_def dest!: ws_length_off split: if_splits option.splits)

function ws_drain :: "ws_stream \<Rightarrow> ws_drained" where
  "ws_drain s =
     (case parse_ws_frame (rx s) of
        Ws_panic \<Rightarrow> Ended (Failed Panicked) s
      | Ws_more \<Rightarrow> Drained s
      | Ws_frame n ev \<Rightarrow>
          (let s = s\<lparr>rx := drop n (rx s)\<rparr> in
           case ev of
             Ws_close \<Rightarrow> Ended (Ready []) s
           | Ws_skip \<Rightarrow> ws_drain s
           | Ws_payload p \<Rightarrow>
               if p = [] then
                 (let s = s\<lparr>empty_frames := empty_frames s + 1\<rparr> in
                  if MAX_EMPTY_FRAMES < empty_frames s then Ended (Failed OtherError) s else ws_drain s)
               else Drained (s\<lparr>empty_frames := 0, decoded := p, decoded_pos := 0\<rparr>)))"
  by pat_completeness auto

termination ws_drain
  by (relation "measure (\<lambda>s. length (rx s))") (auto dest: parse_consumes)

declare ws_drain.simps [simp del]

datatype ws_next = WsDone "bytes poll" ws_stream | WsLoop ws_stream

definition ws_hand_out :: "nat \<Rightarrow> ws_stream \<Rightarrow> ws_next" where
  "ws_hand_out cap s =
     (let n = min (length (decoded s) - decoded_pos s) cap;
          out = slice (decoded_pos s) (decoded_pos s + n) (decoded s);
          s = s\<lparr>decoded_pos := decoded_pos s + n\<rparr>;
          s = (if decoded_pos s = length (decoded s) then s\<lparr>decoded := [], decoded_pos := 0\<rparr> else s)
      in WsDone (Ready out) s)"

definition ws_fill :: "ws_stream \<Rightarrow> ws_next" where
  "ws_fill s =
     (case prefixed_read 4096 (ws_inner s) of
        (Ready bs, i) \<Rightarrow>
          if bs = [] then WsDone (Ready []) (s\<lparr>ws_inner := i\<rparr>) else WsLoop (s\<lparr>ws_inner := i, rx := rx s @ bs\<rparr>)
      | (Failed e, i) \<Rightarrow> WsDone (Failed e) (s\<lparr>ws_inner := i\<rparr>)
      | (Pending, i) \<Rightarrow> WsDone Pending (s\<lparr>ws_inner := i\<rparr>))"

definition ws_round :: "nat \<Rightarrow> ws_stream \<Rightarrow> ws_next" where
  "ws_round cap s =
     (if decoded_pos s < length (decoded s) then ws_hand_out cap s
      else
        (case ws_drain s of
           Ended r s \<Rightarrow> WsDone r s
         | Drained s \<Rightarrow> if decoded_pos s < length (decoded s) then WsLoop s else ws_fill s))"

definition ws_measure :: "ws_stream \<Rightarrow> nat" where
  "ws_measure s = 2 * px_size (ws_inner s) + (if decoded_pos s < length (decoded s) then 0 else 1)"

lemma ws_drain_inner: "ws_drain s = Drained s' \<Longrightarrow> ws_inner s' = ws_inner s"
proof (induction s rule: ws_drain.induct)
  case (1 s)
  show ?case
  proof (cases "parse_ws_frame (rx s)")
    case (Ws_frame n ev)
    then show ?thesis using 1 ws_drain.simps [of s] by (auto simp: Let_def split: ws_event.splits if_splits)
  qed (use "1.prems" ws_drain.simps [of s] in simp_all)
qed

lemma ws_round_measure: "ws_round cap s = WsLoop s' \<Longrightarrow> ws_measure s' < ws_measure s"
proof -
  assume l: "ws_round cap s = WsLoop s'"
  then have nd: "\<not> decoded_pos s < length (decoded s)" by (auto simp: ws_round_def ws_hand_out_def Let_def)
  then obtain w where w: "ws_drain s = Drained w" using l by (auto simp: ws_round_def split: ws_drained.splits)
  note i = ws_drain_inner [OF w]
  show ?thesis
  proof (cases "decoded_pos w < length (decoded w)")
    case True
    then show ?thesis using l w nd i by (simp add: ws_round_def ws_measure_def)
  next
    case False
    obtain r p where r: "prefixed_read 4096 (ws_inner w) = (r, p)" by fastforce
    then obtain bs where bs: "r = Ready bs" "bs \<noteq> []" "s' = w\<lparr>ws_inner := p, rx := rx w @ bs\<rparr>"
      using l w nd False by (auto simp: ws_round_def ws_fill_def split: poll.splits if_splits)
    have "px_size p < px_size (ws_inner w)" using prefixed_read_shrinks [of 4096] r bs by simp
    then show ?thesis using bs(3) i nd by (simp add: ws_measure_def)
  qed
qed

function ws_poll_read :: "nat \<Rightarrow> ws_stream \<Rightarrow> bytes poll \<times> ws_stream" where
  "ws_poll_read cap s = (case ws_round cap s of WsDone r s \<Rightarrow> (r, s) | WsLoop s \<Rightarrow> ws_poll_read cap s)"
  by pat_completeness auto

termination ws_poll_read
  by (relation "measure (\<lambda>(cap, s). ws_measure s)") (auto dest: ws_round_measure)

declare ws_poll_read.simps [simp del]

section \<open>What a peer may send\<close>

text \<open>A frame is its first byte, its key if it is masked, and its payload. A close frame comes last, and no
  more than 64 empty data frames come in a row.\<close>

type_synonym ws_frame = "u8 \<times> bytes option \<times> bytes"

fun frame_wire :: "ws_frame \<Rightarrow> bytes" where
  "frame_wire (hb, m, p) = ws_wire hb m p"

fun frame_payload :: "ws_frame \<Rightarrow> bytes" where
  "frame_payload (hb, m, p) = (case ws_event_of hb p of Ws_payload q \<Rightarrow> q | _ \<Rightarrow> [])"

definition frames_wire :: "ws_frame list \<Rightarrow> bytes" where
  "frames_wire fs = concat (map frame_wire fs)"

definition frames_payload :: "ws_frame list \<Rightarrow> bytes" where
  "frames_payload fs = concat (map frame_payload fs)"

fun polite :: "nat \<Rightarrow> ws_frame list \<Rightarrow> bool" where
  "polite k [] = True"
| "polite k ((hb, m, p) # fs) =
     (mask_ok m \<and> length p < 2 ^ 63 \<and>
      (case ws_event_of hb p of
         Ws_close \<Rightarrow> fs = []
       | Ws_skip \<Rightarrow> polite k fs
       | Ws_payload q \<Rightarrow> if q = [] then k < MAX_EMPTY_FRAMES \<and> polite (k + 1) fs else polite 0 fs))"

lemma frames_simps [simp]:
  "frames_wire [] = []" "frames_wire (f # fs) = frame_wire f @ frames_wire fs"
  "frames_payload [] = []" "frames_payload (f # fs) = frame_payload f @ frames_payload fs"
  by (simp_all add: frames_wire_def frames_payload_def)

text \<open>What has arrived of a sequence of frames: the first one entirely, or a part of it.\<close>

lemma first_frame:
  assumes "mask_ok m" "length p < 2 ^ 63" "r @ later = ws_wire hb m p @ z"
  shows "(\<exists>r'. r = ws_wire hb m p @ r' \<and> r' @ later = z \<and> parse_ws_frame r = Ws_frame (length (ws_wire hb m p)) (ws_event_of hb p))
    \<or> length r < length (ws_wire hb m p) \<and> parse_ws_frame r = Ws_more"
proof (cases "length (ws_wire hb m p) \<le> length r")
  case True
  then obtain r' where "r = ws_wire hb m p @ r'" "r' @ later = z"
    using assms(3) by (metis append_eq_append_conv_if append_take_drop_id)
  then show ?thesis using parse_wire [OF assms(1,2)] by auto
next
  case False
  then have "r = take (length r) (ws_wire hb m p)"
    using assms(3) by (metis append_eq_append_conv_if append_eq_conv_conj linear)
  then show ?thesis using parse_partial [OF assms(1,2), of "length r" hb] False by auto
qed

definition ws_holds :: "ws_stream \<Rightarrow> bytes \<Rightarrow> bool" where
  "ws_holds s pl \<longleftrightarrow>
     (\<exists>fs. polite (empty_frames s) fs \<and> rx s @ px_rest (ws_inner s) = frames_wire fs
        \<and> pl = drop (decoded_pos s) (decoded s) @ frames_payload fs)"

definition drain_good :: "bytes \<Rightarrow> prefixed \<Rightarrow> ws_drained \<Rightarrow> bool" where
  "drain_good pl i x \<longleftrightarrow>
     (case x of
        Drained s' \<Rightarrow> ws_holds s' pl \<and> ws_inner s' = i
          \<and> (decoded_pos s' < length (decoded s') \<or> parse_ws_frame (rx s') = Ws_more)
      | Ended r s' \<Rightarrow> r = Ready [] \<and> pl = [] \<and> ws_holds s' [] \<and> ws_inner s' = i)"

lemma ws_drain_good:
  "ws_holds s pl \<Longrightarrow> \<not> decoded_pos s < length (decoded s) \<Longrightarrow> drain_good pl (ws_inner s) (ws_drain s)"
proof (induction s rule: ws_drain.induct)
  case (1 s)
  obtain fs where fs: "polite (empty_frames s) fs" "rx s @ px_rest (ws_inner s) = frames_wire fs" "pl = frames_payload fs"
    using "1.prems" by (auto simp: ws_holds_def)
  show ?case
  proof (cases fs)
    case Nil
    then have "parse_ws_frame (rx s) = Ws_more" using fs(2) by (simp add: parse_ws_frame_def)
    then show ?thesis using "1.prems" ws_drain.simps [of s] by (simp add: drain_good_def)
  next
    case (Cons f gs)
    obtain hb m p where f: "f = (hb, m, p)" by (metis surj_pair)
    have ok: "mask_ok m" "length p < 2 ^ 63" using fs(1) Cons f by simp_all
    have w: "rx s @ px_rest (ws_inner s) = ws_wire hb m p @ frames_wire gs" using fs(2) Cons f by simp
    from first_frame [OF ok w] consider
      (whole) r' where "rx s = ws_wire hb m p @ r'" "r' @ px_rest (ws_inner s) = frames_wire gs"
        "parse_ws_frame (rx s) = Ws_frame (length (ws_wire hb m p)) (ws_event_of hb p)"
      | (part) "parse_ws_frame (rx s) = Ws_more" by blast
    then show ?thesis
    proof cases
      case part
      then show ?thesis using "1.prems" ws_drain.simps [of s] by (simp add: drain_good_def)
    next
      case whole
      let ?t = "s\<lparr>rx := r'\<rparr>"
      have t: "s\<lparr>rx := drop (length (ws_wire hb m p)) (rx s)\<rparr> = ?t" using whole(1) by simp
      show ?thesis
      proof (cases "ws_event_of hb p")
        case (Ws_payload q)
        show ?thesis
        proof (cases "q = []")
          case True
          let ?u = "?t\<lparr>empty_frames := empty_frames s + 1\<rparr>"
          have h: "ws_holds ?u pl" "empty_frames s < MAX_EMPTY_FRAMES"
            using fs Cons f whole Ws_payload True "1.prems" by (auto simp: ws_holds_def)
          have "drain_good pl (ws_inner ?u) (ws_drain ?u)"
            using "1.IH"(1) [OF whole(3) refl Ws_payload True refl] h "1.prems"(2) unfolding t by simp
          then show ?thesis using ws_drain.simps [of s] whole(3) Ws_payload True h(2) t
            by (simp add: drain_good_def Let_def)
        next
          case False
          then show ?thesis using ws_drain.simps [of s] whole Ws_payload fs Cons f "1.prems"
            by (auto simp: drain_good_def ws_holds_def Let_def)
        qed
      next
        case Ws_skip
        have h: "ws_holds ?t pl" using fs Cons f whole Ws_skip "1.prems" by (auto simp: ws_holds_def)
        have "drain_good pl (ws_inner ?t) (ws_drain ?t)"
          using "1.IH"(2) [OF whole(3) refl Ws_skip] h "1.prems"(2) unfolding t by simp
        then show ?thesis using ws_drain.simps [of s] whole(3) Ws_skip t by (simp add: drain_good_def Let_def)
      next
        case Ws_close
        then have "gs = []" using fs(1) Cons f by simp
        then show ?thesis using ws_drain.simps [of s] whole(2,3) Ws_close t fs(3) Cons f "1.prems"(2)
          by (simp add: drain_good_def ws_holds_def Let_def) (metis polite.simps(1) frames_simps(1,3))
      qed
    qed
  qed
qed

section \<open>The reader's contract\<close>

definition ws_owes :: "ws_stream \<Rightarrow> bytes \<Rightarrow> bool" where
  "ws_owes s pl \<longleftrightarrow> unbroken (px_inner (ws_inner s)) \<and> ws_holds s pl"

abbreviation ws_waits :: "ws_stream \<Rightarrow> nat" where
  "ws_waits s \<equiv> px_waits (ws_inner s)"

definition ws_good :: "bytes \<Rightarrow> ws_stream \<Rightarrow> ws_next \<Rightarrow> bool" where
  "ws_good pl s x \<longleftrightarrow>
     (case x of
        WsDone r s' \<Rightarrow> step_delivers ws_owes ws_waits pl s r s'
      | WsLoop s' \<Rightarrow> ws_owes s' pl \<and> ws_waits s' \<le> ws_waits s)"

lemma ws_hand_out_good:
  assumes "ws_owes s pl" "decoded_pos s < length (decoded s)" "0 < cap"
  shows "ws_good pl s (ws_hand_out cap s)"
proof -
  obtain fs where fs: "polite (empty_frames s) fs" "rx s @ px_rest (ws_inner s) = frames_wire fs"
    "pl = drop (decoded_pos s) (decoded s) @ frames_payload fs"
    using assms(1) by (auto simp: ws_owes_def ws_holds_def)
  let ?n = "min (length (decoded s) - decoded_pos s) cap"
  have "drop (decoded_pos s) (decoded s) =
      slice (decoded_pos s) (decoded_pos s + ?n) (decoded s) @ drop (decoded_pos s + ?n) (decoded s)"
    by (metis add_diff_cancel_left' append_take_drop_id drop_drop add.commute slice_def)
  then have pl: "pl = slice (decoded_pos s) (decoded_pos s + ?n) (decoded s)
      @ (drop (decoded_pos s + ?n) (decoded s) @ frames_payload fs)" using fs(3) by simp
  have ne: "slice (decoded_pos s) (decoded_pos s + ?n) (decoded s) \<noteq> []" using assms(2,3) by (simp add: slice_def)
  define s' where "s' = (let s' = s\<lparr>decoded_pos := decoded_pos s + ?n\<rparr> in
    if decoded_pos s' = length (decoded s') then s'\<lparr>decoded := [], decoded_pos := 0\<rparr> else s')"
  have out: "ws_hand_out cap s = WsDone (Ready (slice (decoded_pos s) (decoded_pos s + ?n) (decoded s))) s'"
    by (simp add: ws_hand_out_def s'_def Let_def)
  have "ws_owes s' (drop (decoded_pos s + ?n) (decoded s) @ frames_payload fs)"
    using assms(1) fs(1,2) by (auto simp: s'_def ws_owes_def ws_holds_def Let_def)
  moreover have "ws_waits s' = ws_waits s" by (simp add: s'_def Let_def)
  ultimately show ?thesis unfolding out using pl ne by (auto simp: ws_good_def step_delivers_def)
qed

text \<open>The bytes that arrive go behind those already held; with nothing left to arrive, incomplete
  frames are not held.\<close>

lemma ws_fill_good:
  assumes "ws_owes s pl" "\<not> decoded_pos s < length (decoded s)" "parse_ws_frame (rx s) = Ws_more"
  shows "ws_good pl s (ws_fill s)"
proof -
  obtain fs where fs: "polite (empty_frames s) fs" "rx s @ px_rest (ws_inner s) = frames_wire fs" "pl = frames_payload fs"
    and u: "unbroken (px_inner (ws_inner s))"
    using assms(1,2) by (auto simp: ws_owes_def ws_holds_def)
  obtain r i where r: "prefixed_read 4096 (ws_inner s) = (r, i)" by fastforce
  have d: "step_delivers px_owes px_waits (px_rest (ws_inner s)) (ws_inner s) r i"
    by (rule prefixed_reader.step [OF _ _ r]) (simp_all add: px_owes_def u)
  have more: "fs = []" if "px_rest (ws_inner s) = []"
  proof (cases fs)
    case (Cons f gs)
    obtain hb m p where f: "f = (hb, m, p)" by (metis surj_pair)
    have "rx s @ [] = ws_wire hb m p @ frames_wire gs" using fs(2) that Cons f by simp
    then show ?thesis
      using first_frame [of m p "rx s" "[]" hb "frames_wire gs"] fs(1) Cons f assms(3) by (auto simp: linorder_not_less)
  qed
  show ?thesis
  proof (cases r)
    case (Ready bs)
    then obtain rest where rest: "px_rest (ws_inner s) = bs @ rest" "px_owes i rest" "bs = [] \<Longrightarrow> px_rest (ws_inner s) = []"
      and w: "px_waits i \<le> px_waits (ws_inner s)" using d by (auto simp: step_delivers_def)
    have o: "ws_owes (s\<lparr>ws_inner := i, rx := rx s @ bs\<rparr>) pl"
      using fs rest assms(2) by (auto simp: ws_owes_def ws_holds_def px_owes_def)
    show ?thesis
    proof (cases "bs = []")
      case True
      then have "pl = []" using more rest(3) fs(3) by simp
      then show ?thesis using o r Ready True w by (simp add: ws_fill_def ws_good_def step_delivers_def)
    next
      case False
      then show ?thesis using o r Ready w by (simp add: ws_fill_def ws_good_def)
    qed
  next
    case Pending
    then have "px_owes i (px_rest (ws_inner s))" "px_waits i < px_waits (ws_inner s)" using d by (auto simp: step_delivers_def)
    then show ?thesis using r Pending fs assms(2)
      by (auto simp: ws_fill_def ws_good_def step_delivers_def ws_owes_def ws_holds_def px_owes_def)
  next
    case (Failed e)
    then show ?thesis using d by (simp add: step_delivers_def)
  qed
qed

lemma ws_round_good:
  assumes "ws_owes s pl" "0 < cap"
  shows "ws_good pl s (ws_round cap s)"
proof (cases "decoded_pos s < length (decoded s)")
  case True
  then show ?thesis using ws_hand_out_good [OF assms(1) _ assms(2)] by (simp add: ws_round_def)
next
  case False
  have u: "unbroken (px_inner (ws_inner s))" and h: "ws_holds s pl" using assms(1) by (simp_all add: ws_owes_def)
  have d: "drain_good pl (ws_inner s) (ws_drain s)" by (rule ws_drain_good [OF h False])
  show ?thesis
  proof (cases "ws_drain s")
    case (Drained w)
    then have w: "ws_owes w pl" "ws_inner w = ws_inner s" "decoded_pos w < length (decoded w) \<or> parse_ws_frame (rx w) = Ws_more"
      using d u by (auto simp: drain_good_def ws_owes_def)
    show ?thesis
    proof (cases "decoded_pos w < length (decoded w)")
      case True
      then show ?thesis using w False Drained by (simp add: ws_round_def ws_good_def)
    next
      case nd: False
      then have "ws_good pl w (ws_fill w)" using ws_fill_good w by blast
      then show ?thesis using w(2) False Drained nd
        by (auto simp: ws_round_def ws_good_def step_delivers_def split: ws_next.splits poll.splits)
    qed
  next
    case (Ended r w)
    then show ?thesis using d u False
      by (auto simp: ws_round_def ws_good_def drain_good_def step_delivers_def ws_owes_def)
  qed
qed

lemma ws_poll_delivers:
  "ws_owes s pl \<Longrightarrow> 0 < cap \<Longrightarrow> ws_poll_read cap s = (r, s') \<Longrightarrow> step_delivers ws_owes ws_waits pl s r s'"
proof (induction cap s rule: ws_poll_read.induct)
  case (1 cap s)
  note g = ws_round_good [OF "1.prems"(1,2)]
  show ?case
  proof (cases "ws_round cap s")
    case (WsDone r1 s1)
    then show ?thesis using g "1.prems"(3) ws_poll_read.simps [of cap s] by (simp add: ws_good_def)
  next
    case (WsLoop w)
    then have p: "ws_poll_read cap w = (r, s')" using "1.prems"(3) ws_poll_read.simps [of cap s] by simp
    have w: "ws_owes w pl" "ws_waits w \<le> ws_waits s" using g WsLoop by (simp_all add: ws_good_def)
    have "step_delivers ws_owes ws_waits pl w r s'" using "1.IH" [OF WsLoop w(1) "1.prems"(2) p] .
    then show ?thesis using w(2) by (auto simp: step_delivers_def split: poll.splits)
  qed
qed

interpretation ws_reader: layered_reader ws_poll_read ws_owes ws_waits
  by unfold_locales (rule ws_poll_delivers)

section \<open>The writing half\<close>

type_synonym mask_key = "u8 \<times> u8 \<times> u8 \<times> u8"

definition key_bytes :: "mask_key \<Rightarrow> bytes" where
  "key_bytes k = (case k of (a, b, c, d) \<Rightarrow> [a, b, c, d])"

record ws_uplink =
  wu_buf :: bytes
  wu_pos :: nat
  wu_payload :: nat
  wu_sink :: sink

definition ws_uplink_new :: "sink \<Rightarrow> ws_uplink" where
  "ws_uplink_new k = \<lparr>wu_buf = [], wu_pos = 0, wu_payload = 0, wu_sink = k\<rparr>"

text \<open>\<open>key\<close> is the mask drawn when a new frame is staged.\<close>

definition ws_poll_write :: "mask_key \<Rightarrow> bytes \<Rightarrow> ws_uplink \<Rightarrow> nat poll \<times> ws_uplink" where
  "ws_poll_write key buf u =
     (if buf = [] \<and> wu_buf u = [] then (Ready 0, u)
      else
        (let u = (if wu_buf u = []
                  then u\<lparr>wu_payload := length buf, wu_buf := encode_client_binary_frame (key_bytes key) buf, wu_pos := 0\<rparr>
                  else u)
         in case flush_from WriteZero (wu_buf u) (wu_pos u) (wu_sink u) of
              (Ready _, off, k) \<Rightarrow> (Ready (wu_payload u), u\<lparr>wu_sink := k, wu_buf := [], wu_pos := 0, wu_payload := 0\<rparr>)
            | (Pending, off, k) \<Rightarrow> (Pending, u\<lparr>wu_sink := k, wu_pos := off\<rparr>)
            | (Failed e, off, k) \<Rightarrow> (Failed e, u\<lparr>wu_sink := k, wu_pos := off\<rparr>)))"

text \<open>What has been written carries \<open>acc\<close> in masked binary frames.\<close>

definition client_frame :: "ws_frame \<Rightarrow> bool" where
  "client_frame f \<longleftrightarrow> (\<exists>mk p. f = (0x82, Some mk, p) \<and> length mk = 4 \<and> p \<noteq> [] \<and> length p < 2 ^ 63)"

definition carries :: "bytes \<Rightarrow> bytes \<Rightarrow> bool" where
  "carries w acc \<longleftrightarrow> (\<exists>fs. list_all client_frame fs \<and> w = frames_wire fs \<and> acc = frames_payload fs)"

definition wu_idle :: "ws_uplink \<Rightarrow> bytes \<Rightarrow> bool" where
  "wu_idle u acc \<longleftrightarrow> wu_buf u = [] \<and> carries (written (wu_sink u)) acc"

definition wu_mid :: "ws_uplink \<Rightarrow> bytes \<Rightarrow> bytes \<Rightarrow> bool" where
  "wu_mid u acc data \<longleftrightarrow>
     (\<exists>mk base. length mk = 4 \<and> wu_buf u = encode_client_binary_frame mk data \<and> wu_payload u = length data
        \<and> wu_pos u \<le> length (wu_buf u) \<and> carries base acc \<and> written (wu_sink u) = base @ take (wu_pos u) (wu_buf u))"

lemma encode_ne [simp]: "encode_client_binary_frame k d \<noteq> []"
  by (simp add: encode_client_binary_frame_def Let_def)

lemma length_key_bytes [simp]: "length (key_bytes k) = 4"
  by (cases k) (simp add: key_bytes_def)

lemma event_binary: "ws_event_of 0x82 p = Ws_payload p"
proof -
  have "(0x82 :: u8) AND 0x0F = 2" by code_simp
  then show ?thesis by (simp add: ws_event_of_def)
qed

lemma carries_snoc:
  assumes "carries base acc" "d \<noteq> []" "length d < 2 ^ 63" "length mk = 4"
  shows "carries (base @ encode_client_binary_frame mk d) (acc @ d)"
proof -
  obtain fs where fs: "list_all client_frame fs" "base = frames_wire fs" "acc = frames_payload fs"
    using assms(1) by (auto simp: carries_def)
  let ?f = "(0x82, Some mk, d)"
  have "client_frame ?f" using assms(2-4) by (simp add: client_frame_def)
  then have "list_all client_frame (fs @ [?f]) \<and> base @ encode_client_binary_frame mk d = frames_wire (fs @ [?f])
    \<and> acc @ d = frames_payload (fs @ [?f])"
    using fs by (simp add: frames_wire_def frames_payload_def encode_is_wire event_binary)
  then show ?thesis unfolding carries_def by blast
qed

lemma ws_write_mid:
  assumes m: "wu_mid u acc data" and d: "data \<noteq> []" "length data < 2 ^ 63" and w: "ws_poll_write key data u = (r, u')"
  shows "write_delivers wu_idle wu_mid wu_sink acc data u r u'"
proof -
  obtain mk base where mk: "length mk = 4" and st: "wu_buf u = encode_client_binary_frame mk data" "wu_payload u = length data"
    "wu_pos u \<le> length (wu_buf u)" "carries base acc" "written (wu_sink u) = base @ take (wu_pos u) (wu_buf u)"
    using m unfolding wu_mid_def by blast
  obtain q off snk where q: "flush_from WriteZero (wu_buf u) (wu_pos u) (wu_sink u) = (q, off, snk)" by (metis surj_pair)
  have fl: "flushed (wu_buf u) (wu_pos u) (wu_sink u) q off snk" by (rule flush_from_flushed [OF q st(3)])
  have wr: "written snk = base @ take off (wu_buf u)"
    using fl st(5) take_slice [of "wu_pos u" off "wu_buf u"] by (simp add: flushed_def)
  have ne: "wu_buf u \<noteq> []" using st(1) by simp
  show ?thesis
  proof (cases q)
    case (Ready x)
    then have "off = length (wu_buf u)" using fl by (simp add: flushed_def)
    then have "written snk = base @ encode_client_binary_frame mk data" using wr st(1) by simp
    then have "carries (written snk) (acc @ data)" using carries_snoc [OF st(4) d mk] by simp
    then show ?thesis using w q Ready ne d fl st(2)
      by (auto simp: ws_poll_write_def Let_def write_delivers_def flushed_def wu_idle_def)
  next
    case Pending
    have "wu_mid (u\<lparr>wu_sink := snk, wu_pos := off\<rparr>) acc data"
      using st wr fl mk unfolding wu_mid_def by (intro exI [of _ mk] exI [of _ base]) (simp add: flushed_def)
    then show ?thesis using w q Pending ne d fl
      by (auto simp: ws_poll_write_def Let_def write_delivers_def flushed_def)
  next
    case (Failed e)
    then show ?thesis using w q ne d fl by (auto simp: ws_poll_write_def Let_def write_delivers_def flushed_def)
  qed
qed

lemma ws_write_step:
  assumes s: "wu_idle u acc \<or> wu_mid u acc data" and d: "data \<noteq> []" "length data < 2 ^ 63"
    and w: "ws_poll_write key data u = (r, u')"
  shows "write_delivers wu_idle wu_mid wu_sink acc data u r u'"
proof (cases "wu_mid u acc data")
  case True
  then show ?thesis by (rule ws_write_mid [OF _ d w])
next
  case False
  then have i: "wu_buf u = []" "carries (written (wu_sink u)) acc" using s by (auto simp: wu_idle_def)
  let ?u = "u\<lparr>wu_payload := length data, wu_buf := encode_client_binary_frame (key_bytes key) data, wu_pos := 0\<rparr>"
  have "wu_mid ?u acc data"
    using i unfolding wu_mid_def by (intro exI [of _ "key_bytes key"] exI [of _ "written (wu_sink u)"]) simp
  moreover have "ws_poll_write key data ?u = (r, u')" using w i(1) d by (simp add: ws_poll_write_def Let_def)
  ultimately have "write_delivers wu_idle wu_mid wu_sink acc data ?u r u'" by (rule ws_write_mid [OF _ d])
  then show ?thesis by (rule write_delivers_same_sink) simp
qed

interpretation ws_writer: layered_writer ws_poll_write wu_idle wu_mid wu_sink "\<lambda>d. length d < 2 ^ 63"
  by unfold_locales (simp_all add: ws_write_step)

lemma carries_polite: "list_all client_frame fs \<Longrightarrow> polite k fs"
proof (induction fs arbitrary: k)
  case (Cons f fs)
  obtain mk p where f: "f = (0x82, Some mk, p)" "length mk = 4" "p \<noteq> []" "length p < 2 ^ 63"
    using Cons.prems by (auto simp: client_frame_def)
  then show ?case using Cons by (simp add: mask_ok_def event_binary)
qed simp

section \<open>The upgrade is accepted\<close>

lemma find_sub_mono: "find_sub p a = Some i \<Longrightarrow> find_sub p (a @ b) = Some i"
proof (induction a arbitrary: i)
  case Nil
  then show ?case by (cases b) (auto split: if_splits)
next
  case (Cons c a)
  show ?case
  proof (cases "take_prefix p (c # a)")
    case None
    obtain j where j: "find_sub p a = Some j" "i = Suc j" using Cons.prems None by auto
    have "take_prefix p (c # a @ b) = None"
    proof (rule ccontr)
      assume "take_prefix p (c # a @ b) \<noteq> None"
      then obtain r where r: "(c # a) @ b = p @ r" by (auto simp: take_prefix_Some_iff)
      have "j + length p \<le> length a" using find_sub_Some [OF j(1)] by blast
      then have "length p \<le> length (c # a)" by simp
      then obtain t where "c # a = p @ t" using r by (metis append_eq_append_conv_if append_take_drop_id)
      then have "take_prefix p (c # a) = Some t" by (simp only: take_prefix_Some_iff)
      then show False using None by simp
    qed
    then show ?thesis using Cons.IH [OF j(1)] j(2) by simp
  next
    case (Some r)
    then have "i = 0" using Cons.prems by simp
    moreover have "\<exists>r. c # a = p @ r" using Some take_prefix_Some_iff by blast
    moreover from this have "take_prefix p (c # a @ b) \<noteq> None"
      by (metis append.assoc append_Cons option.distinct(1) take_prefix_Some_iff)
    ultimately show ?thesis by simp
  qed
qed

text \<open>Whatever part of the head has arrived, its end is found exactly when all of it is there.\<close>

lemma header_end_found:
  assumes "find_header_end head = Some (length head)" "buf @ later = head @ rest"
  shows "find_header_end buf = (if length head \<le> length buf then Some (length head) else None)"
proof (cases "length head \<le> length buf")
  case True
  then obtain b where "buf = head @ b" using assms(2) by (metis append_eq_append_conv_if append_take_drop_id)
  then show ?thesis using assms(1) find_sub_mono [of CRLFCRLF head] by (auto simp: find_header_end_def)
next
  case False
  then have t: "head = buf @ drop (length buf) head"
    using assms(2) by (metis append_eq_append_conv_if append_take_drop_id linear)
  have "find_sub CRLFCRLF buf = None"
  proof (rule ccontr)
    assume "find_sub CRLFCRLF buf \<noteq> None"
    then obtain i where i: "find_sub CRLFCRLF buf = Some i" by blast
    have "find_sub CRLFCRLF head = Some i" using find_sub_mono [OF i, of "drop (length buf) head"] t by simp
    moreover have "i + length CRLFCRLF \<le> length buf" using find_sub_Some [OF i] by blast
    ultimately show False using assms(1) False by (simp add: find_header_end_def CRLFCRLF_def)
  qed
  then show ?thesis using False by (simp add: find_header_end_def)
qed

lemma upgrade_loop_accepts:
  assumes "unbroken es" "find_header_end head = Some (length head)" "length head \<le> 64 * 1024"
    and "check_upgrade e (map chr_of head) = None" "buf @ arriving es = head @ rest" "length buf < length head"
  shows "\<exists>left es'. upgrade_loop e buf es = (Inr left, es') \<and> left @ arriving es' = rest \<and> unbroken es' \<and> waits es' \<le> waits es"
  using assms
proof (induction e buf es rule: upgrade_loop.induct)
  case (1 e buf es)
  obtain r es1 where r: "await_read 1024 es = (r, es1)" by fastforce
  note sp = await_read_spec [OF "1.prems"(1) _ r]
  obtain bs where bs: "r = Inr bs" "arriving es = bs @ arriving es1" "bs = [] \<Longrightarrow> arriving es = []"
    using sp(3) [OF zero_less_numeral] by blast
  have "length buf < length (buf @ arriving es)" unfolding "1.prems"(5) using "1.prems"(6) by simp
  then have "arriving es \<noteq> []" by auto
  then have ne: "bs \<noteq> []" using bs(3) by blast
  have eq: "(buf @ bs) @ arriving es1 = head @ rest" using "1.prems"(5) bs(2) by simp
  note fh = header_end_found [OF "1.prems"(2) eq]
  show ?case
  proof (cases "length head \<le> length (buf @ bs)")
    case True
    then obtain left where left: "buf @ bs = head @ left" "left @ arriving es1 = rest"
      using eq by (metis append_eq_append_conv_if append_take_drop_id)
    show ?thesis
      using upgrade_loop.simps [of e buf es] r bs(1) ne True fh left "1.prems"(4) sp(1,2) [OF zero_less_numeral] by simp
  next
    case False
    have u: "upgrade_loop e buf es = upgrade_loop e (buf @ bs) es1"
      using upgrade_loop.simps [of e buf es] r bs(1) ne False fh "1.prems"(3) by simp
    have n: "find_header_end (buf @ bs) = None" and l: "\<not> 64 * 1024 < length (buf @ bs)"
      using fh False "1.prems"(3) by simp_all
    have "\<exists>left es'. upgrade_loop e (buf @ bs) es1 = (Inr left, es') \<and> left @ arriving es' = rest \<and> unbroken es' \<and> waits es' \<le> waits es1"
      using "1.IH" [OF r [symmetric] bs(1) ne refl n l] sp(1) [OF zero_less_numeral] "1.prems"(2-4) eq False by simp
    then show ?thesis using u sp(2) [OF zero_less_numeral] by (auto intro: le_trans)
  qed
qed

section \<open>Properties\<close>

lemma ws_new_owes:
  assumes "unbroken es" "left @ arriving es = frames_wire fs" "polite 0 fs"
  shows "ws_owes (ws_new es left) (frames_payload fs)"
  using assms by (auto simp: ws_owes_def ws_holds_def ws_new_def prefixed_new_def px_rest_def)

text \<open>
  C19: when a server answers the upgrade with status 101 and the accept value of the key in a head of
  at most 64 KiB and then sends frames (data frames of any lengths, masked or not, control frames in
  between, at most 64 empty ones in a row, a close frame at most at the end), then the upgrade
  succeeds however the bytes arrive, and reading the WebSocket never fails, returns a prefix of the
  payloads, reports the end only after all of them, and returns all of them once there are more reads
  than payload bytes and moments of waiting: also when the head and the first frames arrive together.
\<close>

theorem websocket_exact:
  assumes "unbroken s" "arriving s = head @ frames_wire fs" "polite 0 fs"
    and "find_header_end head = Some (length head)" "length head \<le> 64 * 1024"
    and "check_upgrade (map_option (expected_accept b64 sha1) key) (map chr_of head) = None"
    and "\<forall>c \<in> set caps. 0 < c"
  shows "\<exists>left s'. snd (http_upgrade b64 sha1 path host key s) = (Inr left, s')
    \<and> (let rs = fst (read_many ws_poll_read caps (ws_new s' left)) in
        (\<forall>e. Failed e \<notin> set rs) \<and> (\<exists>pl'. frames_payload fs = delivered rs @ pl')
        \<and> (Ready [] \<in> set rs \<longrightarrow> delivered rs = frames_payload fs)
        \<and> (length (frames_payload fs) + waits s < length caps \<longrightarrow> delivered rs = frames_payload fs))"
proof -
  have "0 < length head" using assms(4) by (auto simp: find_header_end_def)
  then obtain left s' where l: "upgrade_loop (map_option (expected_accept b64 sha1) key) [] s = (Inr left, s')"
    "left @ arriving s' = frames_wire fs" "unbroken s'" "waits s' \<le> waits s"
    using upgrade_loop_accepts [OF assms(1,4,5,6), of "[]" "frames_wire fs"] assms(2) by auto
  obtain rs v where rs: "read_many ws_poll_read caps (ws_new s' left) = (rs, v)" by fastforce
  note d = ws_reader.read_to_end [OF ws_new_owes [OF l(3,2) assms(3)] assms(7) rs]
  have "ws_waits (ws_new s' left) = waits s'" by (simp add: ws_new_def prefixed_new_def)
  then show ?thesis using d l(1,4) rs by (auto simp: http_upgrade_def Let_def)
qed

definition example_head :: bytes where
  "example_head = as_bytes (''HTTP/1.1 101 Switching'' @ crlf @ ''Sec-WebSocket-Accept: x'' @ crlf @ crlf)"

theorem websocket_exact_witness:
  "\<exists>left s'. snd (http_upgrade (\<lambda>_. ''x'') id ''/'' ''h'' (Some [1]) [Data (example_head @ [0x82, 2, 7]), Wait, Data [8, 0x89, 0, 0x88, 0]])
     = (Inr left, s')
   \<and> delivered (fst (read_many ws_poll_read [1, 1, 1, 9] (ws_new s' left))) = [7, 8]"
proof -
  let ?s = "[Data (example_head @ [0x82, 2, 7]), Wait, Data [8, 0x89, 0, 0x88, 0]]"
  let ?fs = "[(0x82, None, [7, 8]), (0x89, None, []), (0x88, None, [])] :: ws_frame list"
  have h: "find_header_end example_head = Some (length example_head)" "length example_head \<le> 64 * 1024"
    "check_upgrade (map_option (expected_accept (\<lambda>_. ''x'') id) (Some [1])) (map chr_of example_head) = None"
    by code_simp+
  have w: "frames_wire ?fs = [0x82, 2, 7, 8, 0x89, 0, 0x88, 0]" "frames_payload ?fs = [7, 8]" "polite 0 ?fs" by code_simp+
  have "arriving ?s = example_head @ frames_wire ?fs" unfolding w by simp
  from websocket_exact [OF _ this w(3) h(1,2,3), of "[1, 1, 1, 9]" "''/''" "''h''"]
  show ?thesis unfolding w by (auto simp: unbroken_def Let_def)
qed

text \<open>
  C20: what the WebSocket writer accepts is exactly what a WebSocket reader delivers: for any nonempty
  data a slice can hold, any masks, any pattern of partial and blocked writes that never fails, any
  pieces in which the bytes arrive and any read sizes, the writer accepts all the data and the
  reader delivers exactly it.
\<close>

theorem websocket_roundtrip:
  assumes "written k = []" "sink_good k" "data \<noteq> []" "length data < 2 ^ 63" "length data + length (slots k) < fuel"
  shows "\<exists>w. offer_all ws_poll_write fuel keys data (ws_uplink_new k) = (Some True, w)
    \<and> (\<forall>s caps. unbroken s \<and> arriving s = written (wu_sink w) \<and> (\<forall>c \<in> set caps. 0 < c)
        \<and> length data + waits s < length caps \<longrightarrow>
        delivered (fst (read_many ws_poll_read caps (ws_new s []))) = data)"
proof -
  have "carries [] []" unfolding carries_def by (intro exI [of _ "[]"]) simp
  then have i: "wu_idle (ws_uplink_new k) []" using assms(1) by (simp add: wu_idle_def ws_uplink_new_def)
  obtain w where w: "offer_all ws_poll_write fuel keys data (ws_uplink_new k) = (Some True, w)" "wu_idle w data"
    using ws_writer.write_all_succeeds [OF i _ assms(3,4), of fuel keys] assms(2,5) by (auto simp: ws_uplink_new_def)
  obtain fs where fs: "list_all client_frame fs" "written (wu_sink w) = frames_wire fs" "data = frames_payload fs"
    using w(2) by (auto simp: wu_idle_def carries_def)
  have "delivered (fst (read_many ws_poll_read caps (ws_new s []))) = data"
    if a: "unbroken s" "arriving s = written (wu_sink w)" "\<forall>c \<in> set caps. 0 < c" "length data + waits s < length caps" for s caps
  proof -
    obtain rs v where rs: "read_many ws_poll_read caps (ws_new s []) = (rs, v)" by fastforce
    have "ws_owes (ws_new s []) (frames_payload fs)"
      using ws_new_owes [OF a(1), of "[]" fs] a(2) fs(2) carries_polite [OF fs(1)] by simp
    from ws_reader.read_to_end [OF this a(3) rs] show ?thesis
      using a(4) rs fs(3) by (simp add: ws_new_def prefixed_new_def)
  qed
  then show ?thesis using w(1) by blast
qed

theorem websocket_roundtrip_witness:
  "\<exists>w. offer_all ws_poll_write 9 (\<lambda>i. (1, 2, 3, word_of_nat i)) [7, 8, 9] (ws_uplink_new \<lparr>slots = [Accept 3, Block, Accept 2], written = []\<rparr>)
        = (Some True, w)
    \<and> delivered (fst (read_many ws_poll_read [1, 1, 5, 5, 5]
        (ws_new [Data (take 4 (written (wu_sink w))), Wait, Data (drop 4 (written (wu_sink w)))] []))) = [7, 8, 9]"
proof -
  let ?k = "\<lparr>slots = [Accept 3, Block, Accept 2], written = []\<rparr>"
  let ?keys = "\<lambda>i. (1, 2, 3, word_of_nat i)"
  have "sink_good ?k" by (simp add: sink_good_def)
  then obtain w where w: "offer_all ws_poll_write 9 ?keys [7, 8, 9] (ws_uplink_new ?k) = (Some True, w)"
    "\<forall>s caps. unbroken s \<and> arriving s = written (wu_sink w) \<and> (\<forall>c \<in> set caps. 0 < c)
        \<and> length [7 :: u8, 8, 9] + waits s < length caps \<longrightarrow>
        delivered (fst (read_many ws_poll_read caps (ws_new s []))) = [7, 8, 9]"
    using websocket_roundtrip [of ?k "[7, 8, 9]" 9 ?keys] by auto
  show ?thesis
    by (rule exI [of _ w], rule conjI [OF w(1)], rule w(2) [rule_format]) (simp add: unbroken_def)
qed

text \<open>A peer can end the reading task with ten bytes.\<close>

lemma websocket_length_panics:
  "fst (ws_poll_read cap (ws_new [Data (0x82 # 127 # replicate 8 255)] [])) = Failed Panicked"
proof -
  have 1: "parse_ws_frame [] = Ws_more" by (simp add: parse_ws_frame_def)
  have 2: "parse_ws_frame (0x82 # 127 # replicate 8 255) = Ws_panic" using parse_ws_panics [of "[]"] by simp
  show ?thesis
    by (subst ws_poll_read.simps, simp add: ws_new_def prefixed_new_def ws_round_def ws_drain.simps 1 ws_fill_def prefixed_read_def)
      (subst ws_poll_read.simps, simp add: ws_round_def ws_drain.simps 2 [simplified])
qed

end
