(* ===== verification/Nodes.thy ===== *)
theory Nodes
  imports ProxyWire Rules
begin

text \<open>
  Proxy nodes: the record, the filter and the normalisation of \<^verbatim>\<open>clash-core/src/config.rs\<close>
  (\<^verbatim>\<open>ProxyNode\<close>, \<^verbatim>\<open>NodeFilter\<close>, \<^verbatim>\<open>filter_all\<close>), the conversion of a node to the options of
  its protocol and the choice of the address to dial (\<^verbatim>\<open>outbound.rs\<close>), and the order in which
  \<^verbatim>\<open>clash-proxynet/src/lib.rs\<close> stacks TLS, REALITY and the transport under the protocol. The
  layers themselves are named here, not executed; the choice of the Shadowsocks plugin (\<^verbatim>\<open>obfs.rs\<close>) and
  the checks of its plugin and method (\<^verbatim>\<open>ss.rs\<close>) are part of the dial. The results: for every node that
  passes the filter the outcome of these checks is \<open>dial_refusal\<close>, and one that asks for TLS and is let
  through is not dialled in the clear, SOCKS and HTTP proxies aside.
\<close>

section \<open>The node\<close>

record proxy_node =
  pn_name :: rstr
  pn_type :: rstr
  pn_server :: rstr
  pn_port :: u16
  pn_uuid :: "rstr option"
  pn_password :: "rstr option"
  pn_tls :: bool
  pn_server_name :: "rstr option"
  pn_flow :: "rstr option"
  pn_network :: rstr
  pn_client_fingerprint :: "rstr option"
  pn_reality_public_key :: "rstr option"
  pn_reality_short_id :: "rstr option"
  pn_skip_cert_verify :: bool
  pn_ws_path :: "rstr option"
  pn_ws_host :: "rstr option"
  pn_security :: "rstr option"
  pn_cipher :: "rstr option"
  pn_username :: "rstr option"
  pn_plugin :: "rstr option"
  pn_plugin_opts :: "rstr option"
  pn_alter_id :: u16

definition default_node :: proxy_node where
  "default_node =
     \<lparr>pn_name = [], pn_type = [], pn_server = [], pn_port = 0, pn_uuid = None, pn_password = None,
      pn_tls = False, pn_server_name = None, pn_flow = None, pn_network = ''tcp'',
      pn_client_fingerprint = None, pn_reality_public_key = None, pn_reality_short_id = None,
      pn_skip_cert_verify = False, pn_ws_path = None, pn_ws_host = None, pn_security = None,
      pn_cipher = None, pn_username = None, pn_plugin = None, pn_plugin_opts = None, pn_alter_id = 0\<rparr>"

text \<open>The four phrases are Chinese for remaining traffic, days to the next reset, plan expiry and
  official website: entries that providers put into the list to be read, not to be dialled.\<close>

definition info_phrases :: "rstr list" where
  "info_phrases =
     [str_of [0xe5, 0x89, 0xa9, 0xe4, 0xbd, 0x99, 0xe6, 0xb5, 0x81, 0xe9, 0x87, 0x8f],
      str_of [0xe8, 0xb7, 0x9d, 0xe7, 0xa6, 0xbb, 0xe4, 0xb8, 0x8b, 0xe6, 0xac, 0xa1, 0xe9, 0x87, 0x8d, 0xe7, 0xbd, 0xae],
      str_of [0xe5, 0xa5, 0x97, 0xe9, 0xa4, 0x90, 0xe5, 0x88, 0xb0, 0xe6, 0x9c, 0x9f],
      str_of [0xe5, 0xae, 0x98, 0xe7, 0xbd, 0x91]]"

definition is_subscription_info :: "proxy_node \<Rightarrow> bool" where
  "is_subscription_info n \<longleftrightarrow> list_ex (\<lambda>p. contains_str p (pn_name n)) info_phrases"

definition normalize_type :: "rstr \<Rightarrow> rstr" where
  "normalize_type ty =
     (let t = lowercase (trim ty) in
      if t = ''shadowsocks'' \<or> t = ''ss'' then ''ss''
      else if t = ''socks'' \<or> t = ''socks5'' then ''socks5''
      else if t = ''https'' then ''http''
      else t)"

definition supported_types :: "rstr list" where
  "supported_types = [''vless'', ''trojan'', ''ss'', ''vmess'', ''socks5'', ''http'']"

section \<open>Shadowsocks methods\<close>

datatype ss_cipher = Aes128Gcm | Aes256Gcm | ChaCha20Poly1305

definition ss_cipher_parse :: "rstr \<Rightarrow> ss_cipher option" where
  "ss_cipher_parse name =
     (let n = lowercase (trim name) in
      if n = ''aes-128-gcm'' \<or> n = ''aead_aes_128_gcm'' then Some Aes128Gcm
      else if n = ''aes-256-gcm'' \<or> n = ''aead_aes_256_gcm'' then Some Aes256Gcm
      else if n = ''chacha20-ietf-poly1305'' \<or> n = ''chacha20-poly1305'' \<or> n = ''aead_chacha20_ietf_poly1305''
      then Some ChaCha20Poly1305
      else None)"

definition ss_supported_cipher :: "rstr \<Rightarrow> bool" where
  "ss_supported_cipher name \<longleftrightarrow> ss_cipher_parse name \<noteq> None"

definition ss_key_len :: "ss_cipher \<Rightarrow> nat" where
  "ss_key_len c = (case c of Aes128Gcm \<Rightarrow> 16 | Aes256Gcm \<Rightarrow> 32 | ChaCha20Poly1305 \<Rightarrow> 32)"

section \<open>The filter\<close>

definition nonblank :: "rstr option \<Rightarrow> bool" where
  "nonblank s \<longleftrightarrow> trim (unwrap_or [] s) \<noteq> []"

definition ss_plugin_ok :: "proxy_node \<Rightarrow> bool" where
  "ss_plugin_ok n \<longleftrightarrow>
     lowercase (trim (unwrap_or [] (pn_plugin n)))
       \<in> {[], ''none'', ''obfs'', ''obfs-local'', ''simple-obfs'', ''v2ray-plugin''}"

definition resolve_security :: "proxy_node \<Rightarrow> rstr" where
  "resolve_security n =
     (if is_some_and (\<lambda>s. s \<noteq> []) (pn_security n) then lowercase (trim (unwrap_or [] (pn_security n)))
      else if is_some_and (\<lambda>s. s \<noteq> []) (pn_reality_public_key n) then ''reality''
      else if pn_tls n then ''tls''
      else ''none'')"

definition lower_network :: "rstr \<Rightarrow> rstr" where
  "lower_network s = (let n = lowercase (trim s) in if n = ''websocket'' then ''ws'' else n)"

definition accept_vless :: "proxy_node \<Rightarrow> bool" where
  "accept_vless n \<longleftrightarrow>
     resolve_security n \<in> {''none'', ''tls'', ''reality''}
     \<and> (let flow = trim (unwrap_or [] (pn_flow n)) in flow = [] \<or> eq_ci flow ''xtls-rprx-vision'')
     \<and> nonblank (pn_uuid n)"

definition accept_ss :: "proxy_node \<Rightarrow> bool" where
  "accept_ss n \<longleftrightarrow>
     nonblank (pn_password n)
     \<and> ss_supported_cipher (trim (unwrap_or ''aes-256-gcm'' (pn_cipher n))) \<and> ss_plugin_ok n"

definition accept :: "proxy_node \<Rightarrow> bool" where
  "accept n =
     (let ty = normalize_type (pn_type n); network = lower_network (pn_network n) in
      if network \<in> {''grpc'', ''xhttp'', ''h2'', ''quic''} then False
      else if network \<notin> {''tcp'', ''ws'', ''httpupgrade'', ''raw'', []} then False
      else if ty = ''vless'' then accept_vless n
      else if ty = ''trojan'' then nonblank (pn_password n)
      else if ty = ''ss'' then accept_ss n
      else if ty = ''vmess'' then nonblank (pn_uuid n)
      else ty = ''socks5'' \<or> ty = ''http'')"

text \<open>\<^verbatim>\<open>opt_from_plugin\<close>: the first pair with the key, of a list separated by semicolons or ampersands.\<close>

fun first_pair :: "rstr \<Rightarrow> rstr list \<Rightarrow> rstr option" where
  "first_pair key [] = None"
| "first_pair key (part # parts) =
     (case split_once (CHR ''='') part of
        Some (k, v) \<Rightarrow> if eq_ci k key then Some v else first_pair key parts
      | None \<Rightarrow> first_pair key parts)"

definition opt_from_plugin :: "rstr option \<Rightarrow> rstr \<Rightarrow> rstr option" where
  "opt_from_plugin opts key =
     Option.bind opts (\<lambda>o'. first_pair key (split_at (\<lambda>c. c = CHR '';'' \<or> c = CHR ''&'') o'))"

definition normalize_network :: "proxy_node \<Rightarrow> proxy_node" where
  "normalize_network n =
     (let net = lower_network (pn_network n) in
      if net = ''httpupgrade'' then n\<lparr>pn_network := ''httpupgrade''\<rparr>
      else if net \<noteq> ''ws'' then n\<lparr>pn_network := ''tcp''\<rparr>
      else n\<lparr>pn_network := ''ws''\<rparr>)"

definition normalize_ss_plugin :: "proxy_node \<Rightarrow> proxy_node" where
  "normalize_ss_plugin n =
     (if lowercase (unwrap_or [] (pn_plugin n)) \<noteq> ''v2ray-plugin'' then n
      else
        (let o' = pn_plugin_opts n in
         n\<lparr>pn_network := ''ws'',
           pn_tls := (is_some_and (\<lambda>v. v = ''true'' \<or> v = ''1'') (opt_from_plugin o' ''tls'') \<or> pn_tls n),
           pn_ws_path := (if pn_ws_path n = None then opt_from_plugin o' ''path'' else pn_ws_path n),
           pn_ws_host := (if pn_ws_host n = None
             then or_else (opt_from_plugin o' ''host'') (opt_from_plugin o' ''obfs-host'') else pn_ws_host n),
           pn_plugin := None, pn_plugin_opts := None\<rparr>))"

definition filter_all :: "proxy_node list \<Rightarrow> proxy_node list" where
  "filter_all nodes = map normalize_ss_plugin (map normalize_network (filter accept nodes))"

section \<open>From a node to the options of its protocol\<close>

definition node_net :: "proxy_node \<Rightarrow> rstr" where
  "node_net n = (if pn_network n = [] then ''tcp'' else pn_network n)"

definition to_vless :: "proxy_node \<Rightarrow> rstr \<Rightarrow> vless_options" where
  "to_vless n dial_host =
     \<lparr>vl_id = unwrap_or [] (pn_uuid n), vl_host = dial_host, vl_port = pn_port n,
      vl_security = (if is_some_and (\<lambda>s. s \<noteq> []) (pn_reality_public_key n) then Sec_reality
        else if pn_tls n then Sec_tls else Sec_none),
      vl_transport = (if pn_network n = [] then ''tcp'' else pn_network n),
      vl_path = pn_ws_path n, vl_host_header = pn_ws_host n, vl_sni = pn_server_name n, vl_alpn = [],
      vl_flow = pn_flow n, vl_fingerprint = pn_client_fingerprint n,
      vl_reality_public_key = pn_reality_public_key n, vl_reality_short_id = pn_reality_short_id n,
      vl_allow_insecure = pn_skip_cert_verify n\<rparr>"

definition to_trojan :: "proxy_node \<Rightarrow> rstr \<Rightarrow> trojan_options" where
  "to_trojan n dial_host =
     \<lparr>tr_password = unwrap_or [] (pn_password n), tr_host = dial_host, tr_port = pn_port n,
      tr_transport = (if pn_network n = [] then ''tcp'' else pn_network n),
      tr_path = pn_ws_path n, tr_host_header = pn_ws_host n, tr_sni = pn_server_name n, tr_alpn = [],
      tr_allow_insecure = pn_skip_cert_verify n\<rparr>"

definition to_ss :: "proxy_node \<Rightarrow> rstr \<Rightarrow> ss_options" where
  "to_ss n dial_host =
     \<lparr>ss_method = unwrap_or ''aes-256-gcm'' (opt_filter (\<lambda>s. s \<noteq> []) (pn_cipher n)),
      ss_password = unwrap_or [] (pn_password n), ss_host = dial_host, ss_port = pn_port n,
      ss_plugin = pn_plugin n, ss_plugin_opts = pn_plugin_opts n, ss_transport = node_net n,
      ss_path = pn_ws_path n, ss_host_header = pn_ws_host n, ss_sni = pn_server_name n, ss_alpn = [],
      ss_allow_insecure = pn_skip_cert_verify n, ss_tls = pn_tls n\<rparr>"

definition to_vmess :: "proxy_node \<Rightarrow> rstr \<Rightarrow> vmess_options" where
  "to_vmess n dial_host =
     \<lparr>vm_id = unwrap_or [] (pn_uuid n),
      vm_security = unwrap_or ''auto'' (opt_filter (\<lambda>s. s \<noteq> []) (pn_cipher n)),
      vm_alter_id = pn_alter_id n, vm_host = dial_host, vm_port = pn_port n, vm_transport = node_net n,
      vm_path = pn_ws_path n, vm_host_header = pn_ws_host n, vm_sni = pn_server_name n, vm_alpn = [],
      vm_allow_insecure = pn_skip_cert_verify n, vm_tls = pn_tls n\<rparr>"

definition to_socks :: "proxy_node \<Rightarrow> proxy_auth" where
  "to_socks n = \<lparr>username = pn_username n, password = pn_password n\<rparr>"

definition to_http :: "proxy_node \<Rightarrow> proxy_auth" where
  "to_http n = \<lparr>username = pn_username n, password = pn_password n\<rparr>"

text \<open>\<open>Inl\<close> carries the type that is not supported.\<close>

definition to_kind :: "proxy_node \<Rightarrow> rstr \<Rightarrow> rstr \<Rightarrow> rstr + outbound_kind" where
  "to_kind n dial_host ty =
     (if ty = ''vless'' then Inr (Vless (to_vless n dial_host))
      else if ty = ''trojan'' then Inr (Trojan (to_trojan n dial_host))
      else if ty = ''ss'' \<or> ty = ''shadowsocks'' then Inr (Shadowsocks (to_ss n dial_host))
      else if ty = ''vmess'' then Inr (Vmess (to_vmess n dial_host))
      else if ty = ''socks'' \<or> ty = ''socks5'' then Inr (Socks5 (to_socks n))
      else if ty = ''http'' \<or> ty = ''https'' then Inr (Http (to_http n))
      else Inl ty)"

section \<open>Choosing the plugin\<close>

definition parse_opt :: "rstr \<Rightarrow> (rstr, rstr) hmap \<Rightarrow> (rstr, rstr) hmap" where
  "parse_opt part opts =
     (case split_once (CHR ''='') part of
        Some (k, v) \<Rightarrow> hm_insert (lowercase (trim k)) (trim v) opts
      | None \<Rightarrow>
          (case split_once (CHR '':'') part of
             Some (k, v) \<Rightarrow> hm_insert (lowercase (trim k)) (trim v) opts
           | None \<Rightarrow> opts))"

definition parse_opts :: "rstr \<Rightarrow> (rstr, rstr) hmap" where
  "parse_opts s =
     List.fold parse_opt (List.filter (\<lambda>p. p \<noteq> []) (split_at (\<lambda>c. c = CHR '';'' \<or> c = CHR ''&'') s)) []"

datatype plugin_layer = Plain | Http_obfs rstr rstr | Tls_obfs rstr

text \<open>\<open>options_host\<close> is the host of the node. The HTTP layer carries its path and host, the TLS layer its host.\<close>

definition apply_plugin :: "rstr \<Rightarrow> rstr option \<Rightarrow> rstr \<Rightarrow> proxy_error_code + plugin_layer" where
  "apply_plugin plugin plugin_opts options_host =
     (let plugin = lowercase (trim plugin) in
      if plugin = [] \<or> plugin = ''none'' then Inr Plain
      else
        (let opts = parse_opts (unwrap_or [] plugin_opts) in
         if plugin \<in> {''obfs'', ''obfs-local'', ''simple-obfs''} then
           (let mode = unwrap_or ''http'' (map_option lowercase (or_else (hm_get opts ''obfs'') (hm_get opts ''mode'')));
                host = unwrap_or options_host (or_else (hm_get opts ''obfs-host'') (hm_get opts ''host''));
                path = unwrap_or ''/'' (or_else (hm_get opts ''obfs-uri'') (hm_get opts ''path''))
            in if mode = ''http'' then Inr (Http_obfs path host)
               else if mode = ''tls'' then Inr (Tls_obfs host)
               else Inl TransportUpgradeFailed)
         else Inl TransportUpgradeFailed))"

text \<open>The first step of \<^verbatim>\<open>dial_ss\<close>.\<close>

definition ss_plugin_layer :: "ss_options \<Rightarrow> proxy_error_code + plugin_layer" where
  "ss_plugin_layer options =
     (case ss_plugin options of
        None \<Rightarrow> Inr Plain
      | Some plugin \<Rightarrow> apply_plugin plugin (ss_plugin_opts options) (ss_host options))"

section \<open>Transports and layers\<close>

datatype transport_kind = RawTcp | WebSocket | HttpUpgrade | Unsupported

definition resolve_transport :: "rstr \<Rightarrow> transport_kind" where
  "resolve_transport transport =
     (if transport = [] then RawTcp
      else
        (let t = lowercase transport in
         if t = ''tcp'' \<or> t = ''raw'' then RawTcp
         else if t = ''ws'' \<or> t = ''websocket'' then WebSocket
         else if t = ''httpupgrade'' then HttpUpgrade
         else Unsupported))"

definition normalize_path :: "rstr option \<Rightarrow> rstr" where
  "normalize_path path =
     (case path of
        None \<Rightarrow> ''/''
      | Some p \<Rightarrow> if p = [] then ''/'' else if starts_with ''/'' p then p else CHR ''/'' # p)"

definition resolve_host_header :: "rstr option \<Rightarrow> rstr option \<Rightarrow> rstr \<Rightarrow> rstr" where
  "resolve_host_header host_header sni server_host =
     (case opt_filter (\<lambda>s. s \<noteq> []) host_header of
        Some h \<Rightarrow> h
      | None \<Rightarrow> (case opt_filter (\<lambda>s. s \<noteq> []) sni of Some s \<Rightarrow> s | None \<Rightarrow> server_host))"

text \<open>What is put around the TCP connection before the protocol speaks, from the inside out.\<close>

datatype layer =
    Tls_layer rstr bool "rstr list"
  | Reality_layer rstr rstr "rstr option" "rstr list"
  | Ws_layer rstr rstr
  | Upgrade_layer rstr rstr
  | Plugin_layer plugin_layer

text \<open>\<^verbatim>\<open>apply_transport\<close>: the layer it adds, if any.\<close>

definition transport_layers :: "transport_kind \<Rightarrow> rstr option \<Rightarrow> rstr \<Rightarrow> proxy_error_code + layer list" where
  "transport_layers kind path host_header =
     (case kind of
        RawTcp \<Rightarrow> Inr []
      | WebSocket \<Rightarrow> Inr [Ws_layer (normalize_path path) host_header]
      | HttpUpgrade \<Rightarrow> Inr [Upgrade_layer (normalize_path path) host_header]
      | Unsupported \<Rightarrow> Inl TransportUpgradeFailed)"

text \<open>The layers that are set up, and the error that stops the dial before the protocol, if any.\<close>

type_synonym dial_plan = "layer list \<times> proxy_error_code option"

definition plan_transport :: "layer list \<Rightarrow> rstr \<Rightarrow> rstr option \<Rightarrow> rstr option \<Rightarrow> rstr option \<Rightarrow> rstr \<Rightarrow> dial_plan" where
  "plan_transport below transport path host_header sni host =
     (case transport_layers (resolve_transport transport) path (resolve_host_header host_header sni host) of
        Inl e \<Rightarrow> (below, Some e)
      | Inr ls \<Rightarrow> (below @ ls, None))"

definition vless_tls_layers :: "vless_options \<Rightarrow> layer list" where
  "vless_tls_layers o' =
     (case vl_security o' of
        Sec_none \<Rightarrow> []
      | Sec_tls \<Rightarrow> [Tls_layer (vless_sni o') (vl_allow_insecure o') (vl_alpn o')]
      | Sec_reality \<Rightarrow>
          [Reality_layer (vless_sni o') (unwrap_or [] (vl_reality_public_key o')) (vl_reality_short_id o')
             (if vl_alpn o' = [] then [''h2'', ''http/1.1''] else vl_alpn o')])"

definition dial_vless :: "vless_options \<Rightarrow> dial_plan" where
  "dial_vless o' =
     (if resolve_transport (vl_transport o') = Unsupported then ([], Some TransportUpgradeFailed)
      else if vl_security o' = Sec_reality \<and> vl_reality_public_key o' = None then ([], Some AuthRequired)
      else if is_some_and (\<lambda>f. f \<noteq> [] \<and> \<not> eq_ci f VISION_FLOW) (vl_flow o') then ([], Some InvalidResponse)
      else plan_transport (vless_tls_layers o') (vl_transport o') (vl_path o') (vl_host_header o') (vl_sni o') (vl_host o'))"

definition dial_trojan :: "trojan_options \<Rightarrow> dial_plan" where
  "dial_trojan o' =
     (if resolve_transport (tr_transport o') = Unsupported then ([], Some TransportUpgradeFailed)
      else plan_transport [Tls_layer (trojan_sni o') (tr_allow_insecure o') (tr_alpn o')]
        (tr_transport o') (tr_path o') (tr_host_header o') (tr_sni o') (tr_host o'))"

definition layer_transport ::
  "bool \<Rightarrow> rstr \<Rightarrow> bool \<Rightarrow> rstr list \<Rightarrow> rstr \<Rightarrow> rstr option \<Rightarrow> rstr option \<Rightarrow> rstr \<Rightarrow> rstr option \<Rightarrow> dial_plan" where
  "layer_transport tls sni insecure alpn transport path host_header host sni_opt =
     plan_transport (if tls then [Tls_layer sni insecure alpn] else []) transport path host_header sni_opt host"

text \<open>What \<^verbatim>\<open>dial_ss\<close> does before it sends anything: the plugin's layer, then the method.\<close>

definition ss_layers :: "ss_options \<Rightarrow> dial_plan \<Rightarrow> dial_plan" where
  "ss_layers o' plan =
     (case plan of
        (below, Some e) \<Rightarrow> (below, Some e)
      | (below, None) \<Rightarrow>
          (case ss_plugin_layer o' of
             Inl e \<Rightarrow> (below, Some e)
           | Inr p \<Rightarrow>
               (below @ (if p = Plain then [] else [Plugin_layer p]),
                if ss_cipher_parse (ss_method o') = None then Some AuthRequired else None)))"

definition dial :: "outbound_kind \<Rightarrow> dial_plan" where
  "dial kind =
     (case kind of
        Vless o' \<Rightarrow> dial_vless o'
      | Trojan o' \<Rightarrow> dial_trojan o'
      | Shadowsocks o' \<Rightarrow>
          ss_layers o' (layer_transport (ss_tls o') (ss_sni_or_host o') (ss_allow_insecure o') (ss_alpn o')
            (ss_transport o') (ss_path o') (ss_host_header o') (ss_host o') (ss_sni o'))
      | Vmess o' \<Rightarrow>
          layer_transport (vm_tls o') (vmess_sni o') (vm_allow_insecure o') (vm_alpn o')
            (vm_transport o') (vm_path o') (vm_host_header o') (vm_host o') (vm_sni o')
      | Socks5 o' \<Rightarrow> ([], None)
      | Http o' \<Rightarrow> ([], None))"

section \<open>The dialer\<close>

text \<open>\<^verbatim>\<open>resolve_host\<close>: literal addresses are taken as they are, otherwise the resolver is asked and
  IPv4 addresses come first, in its order.\<close>

definition resolve_host :: "(rstr \<Rightarrow> 'e + ip_addr list) \<Rightarrow> rstr \<Rightarrow> 'e + ip_addr list" where
  "resolve_host doh host =
     (let host = trim_end_chars (\<lambda>c. c = CHR ''.'') (trim host) in
      case parse_ip host of
        Some ip \<Rightarrow> Inr [ip]
      | None \<Rightarrow> bind_result (doh host) (\<lambda>ips. Inr (filter is_ipv4 ips @ filter (\<lambda>i. \<not> is_ipv4 i) ips)))"

definition resolve_host_ipv4 :: "(rstr \<Rightarrow> 'e + ip_addr list) \<Rightarrow> rstr \<Rightarrow> ip_addr option" where
  "resolve_host_ipv4 doh host =
     (case resolve_host doh host of Inl _ \<Rightarrow> None | Inr ips \<Rightarrow> List.find is_ipv4 ips)"

definition resolve_node_ipv4 :: "(rstr \<Rightarrow> 'e + ip_addr list) \<Rightarrow> proxy_node option \<Rightarrow> ip_addr option" where
  "resolve_node_ipv4 doh node =
     Option.bind node (\<lambda>n. if is_subscription_info n then None else resolve_host_ipv4 doh (pn_server n))"

text \<open>\<^verbatim>\<open>dial_via_ips\<close> after the connection is open: the host shown to the layers is the first IPv4
  address, or the first address. No address at all is an error.\<close>

datatype dial_error = No_address | Unsupported_type rstr | Bad_port | No_node | Dial_panic

definition dial_host :: "ip_addr list \<Rightarrow> rstr option" where
  "dial_host ips = map_option show_ip (or_else (List.find is_ipv4 ips) (case ips of [] \<Rightarrow> None | ip # _ \<Rightarrow> Some ip))"

definition dial_via_ips :: "proxy_node \<Rightarrow> ip_addr list \<Rightarrow> dial_error + outbound_kind" where
  "dial_via_ips n ips =
     (case dial_host ips of
        None \<Rightarrow> Inl No_address
      | Some h \<Rightarrow>
          (case to_kind n h (lowercase (pn_type n)) of
             Inl ty \<Rightarrow> Inl (Unsupported_type ty)
           | Inr k \<Rightarrow> Inr k))"

text \<open>The target of \<^verbatim>\<open>dial_async\<close>. Without a separable port the code slices behind the last colon,
  or behind the first byte when there is none.\<close>

definition dial_target :: "rstr \<Rightarrow> dial_error + rstr \<times> u16" where
  "dial_target host_port =
     bind_result
       (case try_split_host_port host_port of
          Some hp \<Rightarrow> Inr hp
        | None \<Rightarrow>
            (let idx = unwrap_or 0 (rfind_char (CHR '':'') host_port) in
             if char_boundary host_port (idx + 1)
             then Inr (trim_chars brackets (take idx host_port), drop (idx + 1) host_port)
             else Inl Dial_panic))
       (\<lambda>(h, p). case parse_u16 p of None \<Rightarrow> Inl Bad_port | Some port \<Rightarrow> Inr (trim_chars brackets h, port))"

definition dial_async :: "proxy_node option \<Rightarrow> rstr \<Rightarrow> dial_error + proxy_node \<times> rstr \<times> u16" where
  "dial_async current host_port =
     (case current of
        None \<Rightarrow> Inl No_node
      | Some n \<Rightarrow> bind_result (dial_target host_port) (\<lambda>(h, p). Inr (n, h, p)))"

section \<open>Accepted nodes can be dialled\<close>

text \<open>A node as the filter leaves it: accepted, of a supported type, and normalised.\<close>

definition catalogued :: "proxy_node \<Rightarrow> bool" where
  "catalogued n \<longleftrightarrow>
     (\<exists>m. accept m \<and> pn_type m \<in> set supported_types \<and> n = normalize_ss_plugin (normalize_network m))"

lemma filter_all_catalogued:
  "n \<in> set (filter_all ms) \<Longrightarrow> \<forall>m \<in> set ms. pn_type m \<in> set supported_types \<Longrightarrow> catalogued n"
  by (auto simp: filter_all_def catalogued_def)

lemma normalize_network_cases:
  "\<exists>net \<in> {''tcp'', ''ws'', ''httpupgrade''}. normalize_network n = n\<lparr>pn_network := net\<rparr>"
  by (simp add: normalize_network_def Let_def)

text \<open>What normalisation leaves alone, and the three networks that remain.\<close>

lemma normalize_plugin_fields:
  "pn_type (normalize_ss_plugin n) = pn_type n" "pn_uuid (normalize_ss_plugin n) = pn_uuid n"
  "pn_password (normalize_ss_plugin n) = pn_password n" "pn_flow (normalize_ss_plugin n) = pn_flow n"
  "pn_cipher (normalize_ss_plugin n) = pn_cipher n" "pn_reality_public_key (normalize_ss_plugin n) = pn_reality_public_key n"
  "pn_network (normalize_ss_plugin n) \<in> {pn_network n, ''ws''}"
  by (simp_all add: normalize_ss_plugin_def Let_def)

lemma catalogued_facts:
  assumes "catalogued n"
  shows "pn_network n \<in> {''tcp'', ''ws'', ''httpupgrade''}" "pn_type n \<in> set supported_types"
    "pn_type n = ''vless'' \<Longrightarrow> nonblank (pn_uuid n) \<and> (let f = trim (unwrap_or [] (pn_flow n)) in f = [] \<or> eq_ci f ''xtls-rprx-vision'')"
    "pn_type n = ''trojan'' \<Longrightarrow> nonblank (pn_password n)"
    "pn_type n = ''vmess'' \<Longrightarrow> nonblank (pn_uuid n)"
    "pn_type n = ''ss'' \<Longrightarrow> nonblank (pn_password n) \<and> ss_supported_cipher (trim (unwrap_or ''aes-256-gcm'' (pn_cipher n))) \<and> ss_plugin_ok n"
proof -
  obtain m where m: "accept m" "pn_type m \<in> set supported_types" "n = normalize_ss_plugin (normalize_network m)"
    using assms by (auto simp: catalogued_def)
  obtain net where net: "net \<in> {''tcp'', ''ws'', ''httpupgrade''}" "normalize_network m = m\<lparr>pn_network := net\<rparr>"
    using normalize_network_cases by blast
  note f = normalize_plugin_fields [of "m\<lparr>pn_network := net\<rparr>", folded net(2), folded m(3)]
  have nt: "normalize_type t = t" if "t \<in> set supported_types" for t
  proof -
    have "list_all (\<lambda>t. normalize_type t = t) supported_types" by code_simp
    then show ?thesis using that by (simp add: list_all_iff)
  qed
  show "pn_network n \<in> {''tcp'', ''ws'', ''httpupgrade''}" using f(7) net by auto
  show ty: "pn_type n \<in> set supported_types" using f(1) m(2) net(2) by simp
  have a: "accept m" "normalize_type (pn_type m) = pn_type n" using m nt f(1) net(2) by simp_all
  show "pn_type n = ''vless'' \<Longrightarrow> nonblank (pn_uuid n) \<and> (let f = trim (unwrap_or [] (pn_flow n)) in f = [] \<or> eq_ci f ''xtls-rprx-vision'')"
    using a f net(2) by (simp add: accept_def accept_vless_def Let_def split: if_splits)
  show "pn_type n = ''trojan'' \<Longrightarrow> nonblank (pn_password n)"
    using a f net(2) by (simp add: accept_def Let_def split: if_splits)
  show "pn_type n = ''vmess'' \<Longrightarrow> nonblank (pn_uuid n)"
    using a f net(2) by (simp add: accept_def Let_def split: if_splits)
  have "ss_plugin_ok m \<Longrightarrow> ss_plugin_ok n"
    unfolding m(3) net(2) by (simp add: ss_plugin_ok_def normalize_ss_plugin_def Let_def lowercase_def)
  then show "pn_type n = ''ss'' \<Longrightarrow> nonblank (pn_password n) \<and> ss_supported_cipher (trim (unwrap_or ''aes-256-gcm'' (pn_cipher n))) \<and> ss_plugin_ok n"
    using a f net(2) by (simp add: accept_def accept_ss_def Let_def split: if_splits)
qed

lemma resolve_networks:
  assumes "net \<in> {''tcp'', ''ws'', ''httpupgrade''}"
  shows "resolve_transport net \<noteq> Unsupported" "net \<noteq> []"
proof -
  have "list_all (\<lambda>t. resolve_transport t \<noteq> Unsupported) [''tcp'', ''ws'', ''httpupgrade'']" by code_simp
  then show "resolve_transport net \<noteq> Unsupported" using assms by auto
  show "net \<noteq> []" using assms by auto
qed

lemma plan_transport_ok:
  assumes "resolve_transport t \<noteq> Unsupported"
  obtains ls where "plan_transport below t path hh sni host = (below @ ls, None)"
  using assms by (cases "resolve_transport t") (simp_all add: plan_transport_def transport_layers_def)

definition secure :: "layer list \<Rightarrow> bool" where
  "secure ls = (case ls of Tls_layer _ _ _ # _ \<Rightarrow> True | Reality_layer _ _ _ _ # _ \<Rightarrow> True | _ \<Rightarrow> False)"

lemma secure_append [simp]: "secure (a # ls) = secure [a]"
  by (cases a) (simp_all add: secure_def)

text \<open>
  The two ways a node that was offered is refused when it is dialled: a VLESS flow with blanks around
  it, which the filter trims and the dial does not; a Shadowsocks plugin that is a
  \<^verbatim>\<open>v2ray-plugin\<close> with blanks around its name, or a simple-obfs with a mode of its own.
\<close>

definition plugin_refused :: "rstr \<Rightarrow> rstr \<Rightarrow> bool" where
  "plugin_refused plugin plugin_opts \<longleftrightarrow>
     (let name = lowercase (trim plugin); opts = parse_opts plugin_opts;
          mode = map_option lowercase (or_else (hm_get opts ''obfs'') (hm_get opts ''mode''))
      in name = ''v2ray-plugin''
         \<or> name \<in> {''obfs'', ''obfs-local'', ''simple-obfs''} \<and> mode \<notin> {None, Some ''http'', Some ''tls''})"

definition dial_refusal :: "proxy_node \<Rightarrow> proxy_error_code option" where
  "dial_refusal n =
     (let flow = unwrap_or [] (pn_flow n) in
      if pn_type n = ''vless'' \<and> trim flow \<noteq> flow then Some InvalidResponse
      else if pn_type n = ''ss'' \<and> plugin_refused (unwrap_or [] (pn_plugin n)) (unwrap_or [] (pn_plugin_opts n))
      then Some TransportUpgradeFailed
      else None)"

lemma vision_flow_trimmed: "eq_ci f VISION_FLOW \<Longrightarrow> trim f = f"
proof -
  assume "eq_ci f VISION_FLOW"
  then have l: "map lower_char f = map lower_char ''xtls-rprx-vision''" by (simp add: eq_ci_def VISION_FLOW_def lowercase_def)
  then have ne: "f \<noteq> []" by auto
  have "graphic (lower_char c) = graphic c" for c by (simp add: graphic_def code_of_lower is_upper_def)
  moreover have "graphic (lower_char CHR ''x'')" "graphic (lower_char CHR ''n'')" by code_simp+
  moreover have "lower_char (hd f) = lower_char CHR ''x''" "lower_char (last f) = lower_char CHR ''n''"
    using arg_cong [OF l, of hd] arg_cong [OF l, of last] ne by (simp_all add: hd_map last_map)
  ultimately show ?thesis using ne by (metis trim_graphic)
qed

lemma dial_vless_node:
  assumes "catalogued n" "pn_type n = ''vless''"
  shows "\<exists>ls. dial_vless (to_vless n h) = (ls, dial_refusal n) \<and> (dial_refusal n = None \<and> pn_tls n \<longrightarrow> secure ls)"
proof -
  note f = catalogued_facts [OF assms(1)]
  let ?o = "to_vless n h" and ?f = "unwrap_or [] (pn_flow n)"
  have t: "vl_transport ?o = pn_network n" using resolve_networks(2) [OF f(1)] by (simp add: to_vless_def)
  have ac: "trim ?f = [] \<or> eq_ci (trim ?f) VISION_FLOW" using f(3) [OF assms(2)] by (simp add: VISION_FLOW_def Let_def)
  have fl: "is_some_and (\<lambda>f. f \<noteq> [] \<and> \<not> eq_ci f VISION_FLOW) (vl_flow ?o) \<longleftrightarrow> trim ?f \<noteq> ?f"
    using ac vision_flow_trimmed [of ?f] by (cases "pn_flow n") (auto simp: to_vless_def)
  have r: "\<not> (vl_security ?o = Sec_reality \<and> vl_reality_public_key ?o = None)"
    by (cases "pn_reality_public_key n") (simp_all add: to_vless_def)
  obtain ls where ls: "plan_transport (vless_tls_layers ?o) (vl_transport ?o) (vl_path ?o) (vl_host_header ?o) (vl_sni ?o) (vl_host ?o)
      = (vless_tls_layers ?o @ ls, None)"
    using plan_transport_ok resolve_networks(1) [OF f(1)] unfolding t by metis
  have d: "dial_vless ?o = (if trim ?f \<noteq> ?f then ([], Some InvalidResponse) else (vless_tls_layers ?o @ ls, None))"
    using r fl ls resolve_networks(1) [OF f(1)] t by (simp add: dial_vless_def)
  have "pn_tls n \<Longrightarrow> secure (vless_tls_layers ?o @ ls)"
    by (simp add: vless_tls_layers_def to_vless_def secure_def)
  then show ?thesis using d assms(2) by (simp add: dial_refusal_def)
qed

lemma dial_trojan_node:
  assumes "catalogued n"
  shows "\<exists>ls. dial_trojan (to_trojan n h) = (ls, None) \<and> secure ls"
proof -
  let ?o = "to_trojan n h"
  note f = catalogued_facts(1) [OF assms]
  have t: "tr_transport ?o = pn_network n" using resolve_networks(2) [OF f] by (simp add: to_trojan_def)
  obtain ls where "plan_transport [Tls_layer (trojan_sni ?o) (tr_allow_insecure ?o) (tr_alpn ?o)]
      (tr_transport ?o) (tr_path ?o) (tr_host_header ?o) (tr_sni ?o) (tr_host ?o)
      = ([Tls_layer (trojan_sni ?o) (tr_allow_insecure ?o) (tr_alpn ?o)] @ ls, None)"
    using plan_transport_ok resolve_networks(1) [OF f] unfolding t by metis
  then show ?thesis using resolve_networks(1) [OF f] t by (simp add: dial_trojan_def secure_def)
qed

lemma layer_transport_node:
  assumes "net \<in> {''tcp'', ''ws'', ''httpupgrade''}"
  shows "\<exists>ls. layer_transport tls sni ins alpn net path hh host so = (ls, None) \<and> (tls \<longrightarrow> secure ls)"
proof -
  obtain ls where "plan_transport (if tls then [Tls_layer sni ins alpn] else []) net path hh so host
      = ((if tls then [Tls_layer sni ins alpn] else []) @ ls, None)"
    using plan_transport_ok resolve_networks(1) [OF assms] by metis
  then show ?thesis by (auto simp: layer_transport_def secure_def)
qed

lemma first_prefix_absent: "first_prefix es s = None \<longleftrightarrow> (\<forall>e \<in> set es. e = [] \<or> (\<forall>r. s \<noteq> e @ r))"
proof (induction es)
  case (Cons e es)
  have "take_prefix e s = None \<longleftrightarrow> (\<forall>r. s \<noteq> e @ r)"
    by (metis not_Some_eq take_prefix_Some_iff)
  then show ?case using Cons by (auto simp: take_prefix_Some_iff split: option.splits)
qed simp

lemma trim_idem: "trim (trim s) = trim s"
proof -
  let ?t = "trim s"
  obtain p where "rev (trim_start s) = p @ strip_start (map rev ws_encodings) (rev (trim_start s))" using strip_start_suffix by blast
  then have "trim_start s = ?t @ rev p" by (metis trim_def trim_end_def rev_append rev_rev_ident)
  then have "first_prefix ws_encodings ?t = None"
    using strip_start_fixed [of ws_encodings s] by (auto simp: trim_start_def first_prefix_absent)
  then have "trim_start ?t = ?t" unfolding trim_start_def by (subst strip_start.simps) simp
  then show ?thesis by (metis trim_def trim_end_idem)
qed

lemma ss_cipher_parse_trim: "ss_cipher_parse (trim c) = ss_cipher_parse c"
  by (simp add: ss_cipher_parse_def trim_idem)

lemma ss_layers_node:
  assumes "catalogued n" "pn_type n = ''ss''"
  shows "\<exists>ls'. ss_layers (to_ss n h) (ls, None) = (ls @ ls', dial_refusal n)"
proof -
  let ?o = "to_ss n h" and ?p = "unwrap_or [] (pn_plugin n)" and ?q = "unwrap_or [] (pn_plugin_opts n)"
  have sup: "ss_supported_cipher (unwrap_or ''aes-256-gcm'' (pn_cipher n))" and ok: "ss_plugin_ok n"
    using catalogued_facts(6) [OF assms] by (auto simp: ss_supported_cipher_def ss_cipher_parse_trim)
  have "ss_cipher_parse [] = None" by code_simp
  then have c: "ss_cipher_parse (ss_method ?o) \<noteq> None"
    using sup by (cases "pn_cipher n") (auto simp: to_ss_def ss_supported_cipher_def opt_filter_def)
  have "(\<exists>l. ss_plugin_layer ?o = Inr l) \<and> \<not> plugin_refused ?p ?q
    \<or> ss_plugin_layer ?o = Inl TransportUpgradeFailed \<and> plugin_refused ?p ?q"
  proof (cases "pn_plugin n")
    case None
    then show ?thesis by (simp add: ss_plugin_layer_def to_ss_def plugin_refused_def lowercase_def)
  next
    case (Some p)
    then show ?thesis using ok
      by (auto simp: ss_plugin_layer_def to_ss_def plugin_refused_def apply_plugin_def ss_plugin_ok_def Let_def unwrap_or_def
          split: option.splits)
  qed
  then show ?thesis using c assms(2) by (auto simp: ss_layers_def dial_refusal_def)
qed

lemma to_kind_dials:
  assumes "catalogued n"
  shows "\<exists>k ls. to_kind n h (lowercase (pn_type n)) = Inr k \<and> dial k = (ls, dial_refusal n)
    \<and> (dial_refusal n = None \<and> pn_tls n \<and> pn_type n \<notin> {''http'', ''socks5''} \<longrightarrow> secure ls)"
proof -
  note f = catalogued_facts [OF assms(1)]
  have n: "node_net n \<in> {''tcp'', ''ws'', ''httpupgrade''}" using f(1) by (auto simp: node_net_def)
  have "list_all (\<lambda>t. lowercase t = t) supported_types" by code_simp
  then have l: "lowercase (pn_type n) = pn_type n" using f(2) by (simp add: list_all_iff)
  have free: "dial_refusal n = None" if "pn_type n \<notin> {''vless'', ''ss''}" using that by (simp add: dial_refusal_def Let_def)
  consider "pn_type n = ''vless''" | "pn_type n = ''trojan''" | "pn_type n = ''ss''" | "pn_type n = ''vmess''"
    | "pn_type n = ''socks5'' \<or> pn_type n = ''http''" using f(2) by (auto simp: supported_types_def)
  then show ?thesis
  proof cases
    case 1
    then show ?thesis using dial_vless_node [OF assms(1) 1, of h] l by (auto simp: to_kind_def dial_def)
  next
    case 2
    then show ?thesis using dial_trojan_node [OF assms(1), of h] l free by (auto simp: to_kind_def dial_def)
  next
    case 3
    have o': "ss_transport (to_ss n h) = node_net n" "ss_tls (to_ss n h) = pn_tls n" by (simp_all add: to_ss_def)
    obtain ls where ls: "layer_transport (pn_tls n) (ss_sni_or_host (to_ss n h)) (ss_allow_insecure (to_ss n h)) (ss_alpn (to_ss n h))
        (node_net n) (ss_path (to_ss n h)) (ss_host_header (to_ss n h)) (ss_host (to_ss n h)) (ss_sni (to_ss n h)) = (ls, None)"
      "pn_tls n \<longrightarrow> secure ls" using layer_transport_node [OF n] by blast
    obtain ls' where "ss_layers (to_ss n h) (ls, None) = (ls @ ls', dial_refusal n)" using ss_layers_node [OF assms 3] by blast
    then have "dial (Shadowsocks (to_ss n h)) = (ls @ ls', dial_refusal n)" using ls(1) o' by (simp add: dial_def)
    moreover have "pn_tls n \<longrightarrow> secure (ls @ ls')" using ls(2) by (auto simp: secure_def split: list.splits)
    ultimately show ?thesis using 3 l by (auto simp: to_kind_def)
  next
    case 4
    have "vm_transport (to_vmess n h) = node_net n" "vm_tls (to_vmess n h) = pn_tls n" by (simp_all add: to_vmess_def)
    then show ?thesis using layer_transport_node [OF n] 4 l free by (simp add: to_kind_def dial_def)
  next
    case 5
    then show ?thesis using l free by (auto simp: to_kind_def dial_def)
  qed
qed

lemma catalogued_dials:
  assumes "catalogued n" "ips \<noteq> []"
  shows "\<exists>k ls. dial_via_ips n ips = Inr k \<and> dial k = (ls, dial_refusal n)
    \<and> (dial_refusal n = None \<and> pn_tls n \<and> pn_type n \<notin> {''http'', ''socks5''} \<longrightarrow> secure ls)"
proof -
  obtain h where "dial_host ips = Some h"
    using assms(2) by (cases ips; cases "List.find is_ipv4 ips") (auto simp: dial_host_def)
  then show ?thesis using to_kind_dials [OF assms(1), of h] by (auto simp: dial_via_ips_def)
qed

end
