(* ===== verification/ExactRead.thy ===== *)
theory ExactRead
  imports ProxyIo
begin

text \<open>
  \<^verbatim>\<open>poll_read_exact\<close> of the framed streams of \<^verbatim>\<open>crates/clash-proxynet\<close>: the read buffer is filled to a
  given length over as many polls as it takes, the position reached is kept in between. Whatever the
  chunking, the buffer ends up with exactly the next bytes; if they are there without a wait, one poll
  is enough.
\<close>

section \<open>The loop\<close>

record exact_buf =
  eb_inner :: inner_stream
  eb_buf :: bytes
  eb_pos :: nat

text \<open>\<^verbatim>\<open>read_buf.resize(size, 0)\<close>.\<close>

definition resize :: "nat \<Rightarrow> bytes \<Rightarrow> bytes" where
  "resize n buf = take n buf @ replicate (n - length buf) 0"

function fill_exact :: "nat \<Rightarrow> exact_buf \<Rightarrow> unit poll \<times> exact_buf" where
  "fill_exact n s =
     (if eb_pos s < n then
        (case inner_read (n - eb_pos s) (eb_inner s) of
           (Pending, es) \<Rightarrow> (Pending, s\<lparr>eb_inner := es\<rparr>)
         | (Failed e, es) \<Rightarrow> (Failed e, s\<lparr>eb_inner := es\<rparr>)
         | (Ready bs, es) \<Rightarrow>
             if bs = [] then (Failed UnexpectedEof, s\<lparr>eb_inner := es\<rparr>)
             else fill_exact n (s\<lparr>eb_inner := es, eb_buf := put_at (eb_pos s) bs (eb_buf s),
                                 eb_pos := eb_pos s + length bs\<rparr>))
      else (Ready (), s\<lparr>eb_pos := 0\<rparr>))"
  by pat_completeness auto

termination fill_exact
  by (relation "measure (\<lambda>(n, s). n - eb_pos s)") (auto simp: neq_Nil_conv)

declare fill_exact.simps [simp del]

definition read_exactly :: "nat \<Rightarrow> exact_buf \<Rightarrow> unit poll \<times> exact_buf" where
  "read_exactly n s = fill_exact n (s\<lparr>eb_buf := resize n (eb_buf s)\<rparr>)"

section \<open>What it reads\<close>

text \<open>The bytes read so far for the current step, and those still to arrive.\<close>

definition at_hand :: "exact_buf \<Rightarrow> bytes" where
  "at_hand s = take (eb_pos s) (eb_buf s) @ arriving (eb_inner s)"

definition eb_ok :: "nat \<Rightarrow> exact_buf \<Rightarrow> bool" where
  "eb_ok n s \<longleftrightarrow> unbroken (eb_inner s) \<and> eb_pos s \<le> length (eb_buf s) \<and> eb_pos s \<le> n"

abbreviation eb_waits :: "exact_buf \<Rightarrow> nat" where
  "eb_waits s \<equiv> waits (eb_inner s)"

definition reads_exactly :: "nat \<Rightarrow> exact_buf \<Rightarrow> unit poll \<Rightarrow> exact_buf \<Rightarrow> bool" where
  "reads_exactly n s r s' \<longleftrightarrow>
     eb_ok n s' \<and> eb_waits s' \<le> eb_waits s
     \<and> (case r of
          Ready _ \<Rightarrow> eb_pos s' = 0 \<and> at_hand s = eb_buf s' @ arriving (eb_inner s') \<and> length (eb_buf s') = n
        | Pending \<Rightarrow> at_hand s' = at_hand s \<and> eb_waits s' < eb_waits s
        | Failed e \<Rightarrow> e = UnexpectedEof \<and> at_hand s' = at_hand s \<and> length (at_hand s) < n)"

lemma reads_exactly_from:
  assumes "reads_exactly n t r s'" "at_hand t = at_hand s" "eb_waits t \<le> eb_waits s"
  shows "reads_exactly n s r s'"
  using assms unfolding reads_exactly_def by (auto split: poll.splits)

lemma fill_exact_reads:
  "eb_ok n s \<Longrightarrow> length (eb_buf s) = n \<Longrightarrow> fill_exact n s = (r, s') \<Longrightarrow> reads_exactly n s r s'"
proof (induction n s arbitrary: r s' rule: fill_exact.induct)
  case (1 n s)
  have ok: "unbroken (eb_inner s)" "eb_pos s \<le> n" using "1.prems"(1) by (simp_all add: eb_ok_def)
  show ?case
  proof (cases "eb_pos s < n")
    case False
    then show ?thesis using "1.prems" ok fill_exact.simps [of n s] by (auto simp: reads_exactly_def at_hand_def eb_ok_def)
  next
    case lt: True
    obtain q es where q: "inner_read (n - eb_pos s) (eb_inner s) = (q, es)" by fastforce
    note u = inner_read_unbroken [OF ok(1) q] and a = inner_read_arriving [OF q]
    show ?thesis
    proof (cases q)
      case (Ready bs)
      show ?thesis
      proof (cases "bs = []")
        case True
        have "arriving (eb_inner s) = []" using inner_read_eof [of "n - eb_pos s" "eb_inner s" es] lt q Ready True by simp
        then show ?thesis using "1.prems" fill_exact.simps [of n s] lt q Ready True u a
          by (auto simp: reads_exactly_def at_hand_def eb_ok_def)
      next
        case False
        let ?t = "s\<lparr>eb_inner := es, eb_buf := put_at (eb_pos s) bs (eb_buf s), eb_pos := eb_pos s + length bs\<rparr>"
        have l: "length bs \<le> n - eb_pos s" using inner_read_cap q Ready by blast
        have e: "fill_exact n ?t = (r, s')" using "1.prems"(3) fill_exact.simps [of n s] lt q Ready False by simp
        have "at_hand ?t = at_hand s" using a Ready lt l "1.prems"(2) by (simp add: at_hand_def put_at_def)
        moreover have "reads_exactly n ?t r s'"
          using "1.IH" [OF lt q [symmetric] Ready False _ _ e] u "1.prems"(2) ok l lt by (simp add: eb_ok_def)
        ultimately show ?thesis using u by - (rule reads_exactly_from [of n ?t], simp_all)
      qed
    next
      case Pending
      then show ?thesis using "1.prems" fill_exact.simps [of n s] lt q u a by (auto simp: reads_exactly_def at_hand_def eb_ok_def)
    next
      case (Failed e)
      then show ?thesis using u by simp
    qed
  qed
qed

lemma read_exactly_reads:
  assumes "eb_ok n s" "read_exactly n s = (r, s')"
  shows "reads_exactly n s r s'"
proof -
  let ?t = "s\<lparr>eb_buf := resize n (eb_buf s)\<rparr>"
  have l: "length (resize n (eb_buf s)) = n" by (simp add: resize_def)
  have "eb_ok n ?t" using assms(1) l by (simp add: eb_ok_def)
  then have "reads_exactly n ?t r s'"
    using fill_exact_reads [of n ?t r s'] l assms(2) by (simp add: read_exactly_def)
  moreover have "at_hand ?t = at_hand s" using assms(1) by (simp add: at_hand_def resize_def eb_ok_def min_def)
  ultimately show ?thesis by - (rule reads_exactly_from [of n ?t], simp_all)
qed

lemma reads_exactly_cases:
  shows "reads_exactly n s (Ready u) s' \<Longrightarrow>
      eb_pos s' = 0 \<and> at_hand s = eb_buf s' @ arriving (eb_inner s') \<and> length (eb_buf s') = n"
    and "reads_exactly n s Pending s' \<Longrightarrow> at_hand s' = at_hand s \<and> eb_waits s' < eb_waits s"
    and "reads_exactly n s (Failed e) s' \<Longrightarrow> e = UnexpectedEof \<and> at_hand s' = at_hand s \<and> length (at_hand s) < n"
  by (simp_all add: reads_exactly_def)

lemma reads_exactly_ok:
  assumes "reads_exactly n s r s'"
  shows "eb_ok n s'" "eb_waits s' \<le> eb_waits s"
  using assms by (simp_all add: reads_exactly_def)

lemma reads_exactly_full:
  assumes "reads_exactly n s (Ready u) s'" "at_hand s = x @ y" "length x = n"
  shows "eb_buf s' = x" "arriving (eb_inner s') = y" "eb_pos s' = 0" "at_hand s' = y"
  using reads_exactly_cases(1) [OF assms(1)] assms(2,3) by (auto simp: at_hand_def)

section \<open>What is there without a wait\<close>

fun upfront :: "inner_stream \<Rightarrow> bytes" where
  "upfront (Data bs # es) = bs @ upfront es"
| "upfront _ = []"

text \<open>After some waits, \<open>n\<close> bytes are there at once.\<close>

fun prompt :: "nat \<Rightarrow> inner_stream \<Rightarrow> bool" where
  "prompt n (Wait # es) = prompt n es"
| "prompt n es \<longleftrightarrow> n \<le> length (upfront es)"

lemma inner_read_upfront:
  "upfront es \<noteq> [] \<Longrightarrow> 0 < cap \<Longrightarrow> \<exists>bs es'. inner_read cap es = (Ready bs, es') \<and> bs \<noteq> [] \<and> upfront es = bs @ upfront es'"
  by (induction cap es rule: inner_read.induct) (auto simp flip: append_assoc)

lemma fill_exact_upfront:
  "eb_pos s \<le> n \<Longrightarrow> n - eb_pos s \<le> length (upfront (eb_inner s)) \<Longrightarrow>
   \<exists>s'. fill_exact n s = (Ready (), s') \<and> upfront (eb_inner s') = drop (n - eb_pos s) (upfront (eb_inner s))"
proof (induction n s rule: fill_exact.induct)
  case (1 n s)
  show ?case
  proof (cases "eb_pos s < n")
    case False
    then show ?thesis using "1.prems" by (subst fill_exact.simps) simp
  next
    case lt: True
    then have "upfront (eb_inner s) \<noteq> []" using "1.prems"(2) by auto
    then obtain bs es where r: "inner_read (n - eb_pos s) (eb_inner s) = (Ready bs, es)" "bs \<noteq> []" "upfront (eb_inner s) = bs @ upfront es"
      using inner_read_upfront [of "eb_inner s" "n - eb_pos s"] lt by auto
    let ?t = "s\<lparr>eb_inner := es, eb_buf := put_at (eb_pos s) bs (eb_buf s), eb_pos := eb_pos s + length bs\<rparr>"
    have l: "length bs \<le> n - eb_pos s" using inner_read_cap r(1) by blast
    have e: "fill_exact n s = fill_exact n ?t" using lt r by (subst fill_exact.simps) simp
    have "\<exists>s'. fill_exact n ?t = (Ready (), s') \<and> upfront (eb_inner s') = drop (n - eb_pos ?t) (upfront (eb_inner ?t))"
      using "1.IH" [OF lt r(1) [symmetric] refl r(2)] l "1.prems" r(3) lt by simp
    then show ?thesis unfolding e using r(3) l by simp
  qed
qed

lemma read_exactly_upfront:
  assumes "eb_pos s = 0" "n \<le> length (upfront (eb_inner s))"
  shows "\<exists>s'. read_exactly n s = (Ready (), s') \<and> upfront (eb_inner s') = drop n (upfront (eb_inner s))"
  using fill_exact_upfront [of "s\<lparr>eb_buf := resize n (eb_buf s)\<rparr>" n] assms by (simp add: read_exactly_def)

lemma prompt_cases:
  "prompt n es \<Longrightarrow> n \<le> length (upfront es) \<or> (\<exists>es'. es = Wait # es' \<and> prompt n es')"
  by (cases es rule: upfront.cases) auto

lemma read_exactly_prompt:
  assumes "eb_pos s = 0" "prompt m (eb_inner s)" "n \<le> m" "0 < n"
  shows "(\<exists>s'. read_exactly n s = (Ready (), s') \<and> m - n \<le> length (upfront (eb_inner s')))
    \<or> (\<exists>s'. read_exactly n s = (Pending, s') \<and> eb_pos s' = 0 \<and> prompt m (eb_inner s'))"
proof (cases "m \<le> length (upfront (eb_inner s))")
  case True
  then show ?thesis using read_exactly_upfront [OF assms(1), of n] assms(3) by fastforce
next
  case False
  then obtain es' where "eb_inner s = Wait # es'" "prompt m es'" using prompt_cases [OF assms(2)] by blast
  then show ?thesis using assms(1,4) by (simp add: read_exactly_def fill_exact.simps)
qed

end
