(* ===== verification/SsStream.thy ===== *)
theory SsStream
  imports Nodes ProxySink ExactRead
begin

text \<open>
  \<^verbatim>\<open>crates/clash-proxynet/src/ss.rs\<close>: the Shadowsocks AEAD stream. MD5, HKDF and the AEAD ciphers are
  parameters (\<open>ss_lib\<close>) with their documented laws (\<open>ss_lib_ok\<close>); the salt is an argument. The
  results: key derivation ends and has the key's length, nonces count up and do not repeat, and
  what the writer accepts is exactly what a reader with the same password delivers.
\<close>

definition MAX_PAYLOAD :: nat where "MAX_PAYLOAD = 0x3FFF"
definition TAG_LEN :: nat where "TAG_LEN = 16"
definition NONCE_LEN :: nat where "NONCE_LEN = 12"

text \<open>Sealing gives the ciphertext and its tag. A key derivation or a cipher can refuse.\<close>

record ss_lib =
  lib_md5 :: "bytes \<Rightarrow> bytes"
  lib_hkdf :: "bytes \<Rightarrow> bytes \<Rightarrow> nat \<Rightarrow> bytes option"
  lib_seal :: "ss_cipher \<Rightarrow> bytes \<Rightarrow> bytes \<Rightarrow> bytes \<Rightarrow> (bytes \<times> bytes) option"
  lib_open :: "ss_cipher \<Rightarrow> bytes \<Rightarrow> bytes \<Rightarrow> bytes \<Rightarrow> bytes \<Rightarrow> bytes option"

definition ss_lib_ok :: "ss_lib \<Rightarrow> bool" where
  "ss_lib_ok lib \<longleftrightarrow>
     (\<forall>bs. length (lib_md5 lib bs) = 16)
     \<and> (\<forall>psk salt c. \<exists>k. lib_hkdf lib psk salt (ss_key_len c) = Some k \<and> length k = ss_key_len c)
     \<and> (\<forall>c k n p. length k = ss_key_len c \<longrightarrow> length n = NONCE_LEN \<longrightarrow> length p < 65536 \<longrightarrow>
          (\<exists>ct tag. lib_seal lib c k n p = Some (ct, tag) \<and> length ct = length p \<and> length tag = TAG_LEN
             \<and> lib_open lib c k n ct tag = Some p))"

section \<open>Keys and nonces\<close>

text \<open>The loop appends one digest per round; \<open>fuel\<close> bounds the rounds, \<open>None\<close> is a loop that goes on.\<close>

fun evp_loop :: "(bytes \<Rightarrow> bytes) \<Rightarrow> bytes \<Rightarrow> nat \<Rightarrow> nat \<Rightarrow> bytes \<Rightarrow> bytes \<Rightarrow> bytes option" where
  "evp_loop md5 pass len 0 key prev = None"
| "evp_loop md5 pass len (Suc fuel) key prev =
     (if length key < len
      then (let prev = md5 (prev @ pass) in evp_loop md5 pass len fuel (key @ prev) prev)
      else Some (take len key))"

definition evp_bytes_to_key :: "(bytes \<Rightarrow> bytes) \<Rightarrow> bytes \<Rightarrow> nat \<Rightarrow> bytes option" where
  "evp_bytes_to_key md5 pass len = evp_loop md5 pass len (len + 1) [] []"

lemma evp_loop_ends:
  "\<forall>bs. length (md5 bs) = 16 \<Longrightarrow> 0 < fuel \<Longrightarrow> len < length key + fuel \<Longrightarrow>
   \<exists>k. evp_loop md5 pass len fuel key prev' = Some k \<and> length k = len"
proof (induction fuel arbitrary: key prev')
  case (Suc fuel)
  then show ?case by (cases "length key < len") (simp_all add: Let_def min_def)
qed simp

lemma evp_bytes_to_key_ends:
  "\<forall>bs. length (md5 bs) = 16 \<Longrightarrow> \<exists>k. evp_bytes_to_key md5 pass len = Some k \<and> length k = len"
  unfolding evp_bytes_to_key_def by (rule evp_loop_ends) simp_all

text \<open>\<^verbatim>\<open>NonceSeq::next\<close>: the current value is handed out, then the least significant byte first is
  increased, carrying on while a byte wraps to zero.\<close>

fun nonce_bump :: "bytes \<Rightarrow> bytes" where
  "nonce_bump [] = []"
| "nonce_bump (b # bs) = (let b = b + 1 in if b \<noteq> 0 then b # bs else b # nonce_bump bs)"

definition nonce_next :: "bytes \<Rightarrow> bytes \<times> bytes" where
  "nonce_next n = (n, nonce_bump n)"

definition nonce_at :: "nat \<Rightarrow> bytes" where
  "nonce_at i = (nonce_bump ^^ i) (replicate NONCE_LEN 0)"

fun le_val :: "bytes \<Rightarrow> nat" where
  "le_val [] = 0"
| "le_val (b # bs) = unat b + 256 * le_val bs"

lemma length_nonce_bump [simp]: "length (nonce_bump n) = length n"
  by (induction n) (auto simp: Let_def)

lemma le_val_lt: "le_val n < 256 ^ length n"
proof (induction n)
  case (Cons b n)
  then have "le_val n + 1 \<le> 256 ^ length n" by simp
  then have "256 * (le_val n + 1) \<le> 256 * 256 ^ length n" by (rule mult_le_mono2)
  moreover have "unat b + 256 * le_val n < 256 * (le_val n + 1)" by simp
  ultimately have "unat b + 256 * le_val n < 256 * 256 ^ length n" by (rule less_le_trans [rotated])
  then show ?case by simp
qed simp

lemma unat_u8_inc: "unat ((b :: u8) + 1) = (unat b + 1) mod 256"
  by (simp add: unat_word_ariths)

lemma unat_u8_Suc: "(b :: u8) + 1 \<noteq> 0 \<Longrightarrow> unat (b + 1) = unat b + 1"
  using unat_u8_inc [of b] unat_u8_lt [of b] by (cases "unat b = 255") (auto simp: unat_eq_zero)

lemma u8_wraps: "(b :: u8) + 1 = 0 \<Longrightarrow> unat b = 255"
  using unat_u8_inc [of b] unat_u8_lt [of b] by (cases "unat b + 1 < 256") (simp, linarith)

lemma le_val_bump: "le_val (nonce_bump n) = (le_val n + 1) mod 256 ^ length n"
proof (induction n)
  case (Cons b n)
  show ?case
  proof (cases "b + 1 = 0")
    case True
    have "le_val (nonce_bump (b # n)) = 256 * ((le_val n + 1) mod 256 ^ length n)" using True Cons.IH by simp
    also have "\<dots> = (256 * (le_val n + 1)) mod (256 * 256 ^ length n)" by (rule mult_mod_right)
    also have "256 * (le_val n + 1) = le_val (b # n) + 1" using u8_wraps [OF True] by simp
    finally show ?thesis by simp
  next
    case False
    have "le_val (nonce_bump (b # n)) = le_val (b # n) + 1" using False unat_u8_Suc [OF False] by simp
    moreover have "le_val (nonce_bump (b # n)) < 256 ^ length (b # n)"
      using le_val_lt [of "nonce_bump (b # n)"] unfolding length_nonce_bump .
    ultimately show ?thesis by (simp del: nonce_bump.simps le_val.simps)
  qed
qed simp

lemma length_nonce_at [simp]: "length (nonce_at i) = NONCE_LEN"
  by (induction i) (simp_all add: nonce_at_def)

lemma nonce_at_Suc: "nonce_at (Suc i) = nonce_bump (nonce_at i)"
  by (simp add: nonce_at_def)

lemma le_val_nonce_at: "le_val (nonce_at i) = i mod 256 ^ NONCE_LEN"
proof (induction i)
  case 0
  have "le_val (replicate n 0) = 0" for n by (induction n) simp_all
  then show ?case by (simp add: nonce_at_def)
next
  case (Suc i)
  then show ?case using le_val_bump [of "nonce_at i"] by (simp add: nonce_at_Suc mod_Suc_eq)
qed

lemma nonce_at_distinct: "i < 2 ^ 96 \<Longrightarrow> j < 2 ^ 96 \<Longrightarrow> nonce_at i = nonce_at j \<Longrightarrow> i = j"
proof -
  assume b: "i < 2 ^ 96" "j < 2 ^ 96" "nonce_at i = nonce_at j"
  have e: "256 ^ NONCE_LEN = (2 ^ 96 :: nat)" by (simp add: NONCE_LEN_def)
  have "i mod 2 ^ 96 = j mod 2 ^ 96" using b(3) le_val_nonce_at [of i] le_val_nonce_at [of j] unfolding e by simp
  then show "i = j" using b(1,2) by simp
qed

section \<open>The reading half\<close>

datatype ss_read_state = R_salt | R_length | R_data nat | R_pending nat

record shadowed =
  sh_inner :: inner_stream
  sh_kind :: ss_cipher
  sh_psk :: bytes
  sh_dec :: "bytes option"
  sh_dec_nonce :: bytes
  sh_read_buf :: bytes
  sh_read_state :: ss_read_state
  sh_read_pos :: nat

text \<open>\<^verbatim>\<open>ShadowedStream::new\<close>, the reading half: \<open>None\<close> for a cipher that is not supported.\<close>

definition shadowed_new :: "ss_lib \<Rightarrow> inner_stream \<Rightarrow> rstr \<Rightarrow> rstr \<Rightarrow> shadowed option" where
  "shadowed_new lib es meth passwd =
     Option.bind (ss_cipher_parse meth) (\<lambda>kind.
       map_option (\<lambda>psk. \<lparr>sh_inner = es, sh_kind = kind, sh_psk = psk, sh_dec = None,
           sh_dec_nonce = replicate NONCE_LEN 0, sh_read_buf = [], sh_read_state = R_salt, sh_read_pos = 0\<rparr>)
         (evp_bytes_to_key (lib_md5 lib) (as_bytes passwd) (ss_key_len kind)))"

function exact_loop :: "nat \<Rightarrow> shadowed \<Rightarrow> unit poll \<times> shadowed" where
  "exact_loop n s =
     (if sh_read_pos s < n then
        (case inner_read (n - sh_read_pos s) (sh_inner s) of
           (Pending, es) \<Rightarrow> (Pending, s\<lparr>sh_inner := es\<rparr>)
         | (Failed e, es) \<Rightarrow> (Failed e, s\<lparr>sh_inner := es\<rparr>)
         | (Ready bs, es) \<Rightarrow>
             if bs = [] then (Failed UnexpectedEof, s\<lparr>sh_inner := es\<rparr>)
             else exact_loop n (s\<lparr>sh_inner := es, sh_read_buf := put_at (sh_read_pos s) bs (sh_read_buf s),
                                 sh_read_pos := sh_read_pos s + length bs\<rparr>))
      else (Ready (), s\<lparr>sh_read_pos := 0\<rparr>))"
  by pat_completeness auto

termination exact_loop
  by (relation "measure (\<lambda>(n, s). n - sh_read_pos s)") (auto simp: neq_Nil_conv)

declare exact_loop.simps [simp del]

definition poll_read_exact :: "nat \<Rightarrow> shadowed \<Rightarrow> unit poll \<times> shadowed" where
  "poll_read_exact n s = exact_loop n (s\<lparr>sh_read_buf := resize n (sh_read_buf s)\<rparr>)"

text \<open>\<^verbatim>\<open>Aead::open\<close> with the next nonce on the read buffer: the tag is split off its end.\<close>

definition open_buf :: "ss_lib \<Rightarrow> shadowed \<Rightarrow> io_error_kind option \<times> shadowed" where
  "open_buf lib s =
     (case sh_dec s of
        None \<Rightarrow> (Some Panicked, s)
      | Some key \<Rightarrow>
          (case nonce_next (sh_dec_nonce s) of
             (nonce, nonce') \<Rightarrow>
               (let buf = sh_read_buf s; s = s\<lparr>sh_dec_nonce := nonce'\<rparr> in
                if length buf < TAG_LEN then (Some OtherError, s)
                else
                  (let ct = take (length buf - TAG_LEN) buf; tag = drop (length buf - TAG_LEN) buf in
                   case lib_open lib (sh_kind s) key nonce ct tag of
                     None \<Rightarrow> (Some OtherError, s\<lparr>sh_read_buf := ct\<rparr>)
                   | Some p \<Rightarrow> (None, s\<lparr>sh_read_buf := p\<rparr>)))))"

datatype ss_next = SsDone "bytes poll" shadowed | SsLoop shadowed

definition read_salt :: "ss_lib \<Rightarrow> shadowed \<Rightarrow> ss_next" where
  "read_salt lib s =
     (let salt_len = ss_key_len (sh_kind s) in
      case poll_read_exact salt_len s of
        (Pending, s) \<Rightarrow> SsDone Pending s
      | (Failed e, s) \<Rightarrow> SsDone (Failed e) s
      | (Ready _, s) \<Rightarrow>
          (let salt = sh_read_buf s; s = s\<lparr>sh_read_buf := []\<rparr> in
           case lib_hkdf lib (sh_psk s) salt salt_len of
             None \<Rightarrow> SsDone (Failed OtherError) s
           | Some key \<Rightarrow>
               if length key \<noteq> salt_len then SsDone (Failed Panicked) s
               else SsLoop (s\<lparr>sh_dec := Some key, sh_read_state := R_length\<rparr>)))"

definition read_length :: "ss_lib \<Rightarrow> shadowed \<Rightarrow> ss_next" where
  "read_length lib s =
     (case poll_read_exact (2 + TAG_LEN) s of
        (Pending, s) \<Rightarrow> SsDone Pending s
      | (Failed e, s) \<Rightarrow> SsDone (if e = UnexpectedEof then Ready [] else Failed e) s
      | (Ready _, s) \<Rightarrow>
          (case open_buf lib s of
             (Some e, s) \<Rightarrow> SsDone (Failed e) s
           | (None, s) \<Rightarrow>
               if length (sh_read_buf s) < 2 then SsDone (Failed Panicked) s
               else SsLoop (s\<lparr>sh_read_state := R_data (unat (from_be16 (sh_read_buf s ! 0) (sh_read_buf s ! 1)))\<rparr>)))"

definition read_data :: "ss_lib \<Rightarrow> nat \<Rightarrow> shadowed \<Rightarrow> ss_next" where
  "read_data lib n s =
     (case poll_read_exact (n + TAG_LEN) s of
        (Pending, s) \<Rightarrow> SsDone Pending s
      | (Failed e, s) \<Rightarrow> SsDone (Failed e) s
      | (Ready _, s) \<Rightarrow>
          (case open_buf lib s of
             (Some e, s) \<Rightarrow> SsDone (Failed e) s
           | (None, s) \<Rightarrow> SsLoop (s\<lparr>sh_read_state := R_pending n\<rparr>)))"

definition read_pending :: "nat \<Rightarrow> nat \<Rightarrow> shadowed \<Rightarrow> ss_next" where
  "read_pending cap n s =
     (let k = min cap n in
      if length (sh_read_buf s) < k then SsDone (Failed Panicked) s
      else SsDone (Ready (take k (sh_read_buf s)))
        (s\<lparr>sh_read_buf := drop k (sh_read_buf s),
           sh_read_state := (if k < n then R_pending (n - k) else R_length)\<rparr>))"

definition ss_round :: "ss_lib \<Rightarrow> nat \<Rightarrow> shadowed \<Rightarrow> ss_next" where
  "ss_round lib cap s =
     (case sh_read_state s of
        R_salt \<Rightarrow> read_salt lib s
      | R_length \<Rightarrow> read_length lib s
      | R_data n \<Rightarrow> read_data lib n s
      | R_pending n \<Rightarrow> read_pending cap n s)"

definition read_rank :: "ss_read_state \<Rightarrow> nat" where
  "read_rank st = (case st of R_salt \<Rightarrow> 3 | R_length \<Rightarrow> 2 | R_data _ \<Rightarrow> 1 | R_pending _ \<Rightarrow> 0)"

lemma ss_round_rank: "ss_round lib cap s = SsLoop s' \<Longrightarrow> read_rank (sh_read_state s') < read_rank (sh_read_state s)"
  by (auto simp: ss_round_def read_salt_def read_length_def read_data_def read_pending_def read_rank_def Let_def
      split: ss_read_state.splits prod.splits poll.splits option.splits if_splits)

function ss_poll_read :: "ss_lib \<Rightarrow> nat \<Rightarrow> shadowed \<Rightarrow> bytes poll \<times> shadowed" where
  "ss_poll_read lib cap s = (case ss_round lib cap s of SsDone r s \<Rightarrow> (r, s) | SsLoop s \<Rightarrow> ss_poll_read lib cap s)"
  by pat_completeness auto

termination ss_poll_read
  by (relation "measure (\<lambda>(lib, cap, s). read_rank (sh_read_state s))") (auto dest: ss_round_rank)

declare ss_poll_read.simps [simp del]

section \<open>What a peer sends\<close>

definition sealed :: "ss_lib \<Rightarrow> ss_cipher \<Rightarrow> bytes \<Rightarrow> nat \<Rightarrow> bytes \<Rightarrow> bytes" where
  "sealed lib c k i p = (case lib_seal lib c k (nonce_at i) p of None \<Rightarrow> [] | Some (ct, tag) \<Rightarrow> ct @ tag)"

fun ss_chunks :: "ss_lib \<Rightarrow> ss_cipher \<Rightarrow> bytes \<Rightarrow> nat \<Rightarrow> bytes list \<Rightarrow> bytes" where
  "ss_chunks lib c k i [] = []"
| "ss_chunks lib c k i (p # ps) =
     sealed lib c k i (to_be16 (word_of_nat (length p))) @ sealed lib c k (i + 1) p @ ss_chunks lib c k (i + 2) ps"

definition chunk_ok :: "bytes \<Rightarrow> bool" where
  "chunk_ok p \<longleftrightarrow> p \<noteq> [] \<and> length p < 65536"

lemma sealed_opens:
  assumes "ss_lib_ok lib" "length k = ss_key_len c" "length p < 65536"
  obtains ct tag where "lib_seal lib c k (nonce_at i) p = Some (ct, tag)" "sealed lib c k i p = ct @ tag"
    "length ct = length p" "length tag = TAG_LEN" "lib_open lib c k (nonce_at i) ct tag = Some p"
proof -
  have "\<exists>ct tag. lib_seal lib c k (nonce_at i) p = Some (ct, tag) \<and> length ct = length p \<and> length tag = TAG_LEN
      \<and> lib_open lib c k (nonce_at i) ct tag = Some p"
    by (rule assms(1) [unfolded ss_lib_ok_def, THEN conjunct2, THEN conjunct2, rule_format, OF assms(2) length_nonce_at assms(3)])
  then obtain ct tag where x: "lib_seal lib c k (nonce_at i) p = Some (ct, tag)" "length ct = length p" "length tag = TAG_LEN"
    "lib_open lib c k (nonce_at i) ct tag = Some p" by blast
  show ?thesis by (rule that [OF x(1) _ x(2,3,4)]) (simp add: sealed_def x(1))
qed

lemma length_sealed:
  "ss_lib_ok lib \<Longrightarrow> length k = ss_key_len c \<Longrightarrow> length p < 65536 \<Longrightarrow> length (sealed lib c k i p) = length p + TAG_LEN"
  by (erule (2) sealed_opens [where i = i]) simp

lemma open_sealed:
  assumes "ss_lib_ok lib" "length k = ss_key_len (sh_kind s)" "length p < 65536"
    and "sh_dec s = Some k" "sh_dec_nonce s = nonce_at i" "sh_read_buf s = sealed lib (sh_kind s) k i p"
  shows "open_buf lib s = (None, s\<lparr>sh_dec_nonce := nonce_at (i + 1), sh_read_buf := p\<rparr>)"
proof -
  obtain ct tag where "sealed lib (sh_kind s) k i p = ct @ tag" "length ct = length p" "length tag = TAG_LEN"
    "lib_open lib (sh_kind s) k (nonce_at i) ct tag = Some p"
    by (rule sealed_opens [OF assms(1-3)])
  then show ?thesis using assms(4-6) by (simp add: open_buf_def nonce_next_def nonce_at_Suc Let_def)
qed

section \<open>Reading exactly\<close>

text \<open>The bytes read so far for the current step, and those still to arrive.\<close>

definition avail :: "shadowed \<Rightarrow> bytes" where
  "avail s = take (sh_read_pos s) (sh_read_buf s) @ arriving (sh_inner s)"

abbreviation sh_waits :: "shadowed \<Rightarrow> nat" where
  "sh_waits s \<equiv> waits (sh_inner s)"

definition exact_good :: "nat \<Rightarrow> shadowed \<Rightarrow> unit poll \<Rightarrow> shadowed \<Rightarrow> bool" where
  "exact_good n s r s' \<longleftrightarrow>
     unbroken (sh_inner s') \<and> sh_waits s' \<le> sh_waits s
     \<and> sh_kind s' = sh_kind s \<and> sh_psk s' = sh_psk s \<and> sh_dec s' = sh_dec s \<and> sh_dec_nonce s' = sh_dec_nonce s
     \<and> sh_read_state s' = sh_read_state s
     \<and> length (sh_read_buf s') = n \<and> sh_read_pos s' \<le> n
     \<and> (case r of
          Ready _ \<Rightarrow> sh_read_pos s' = 0 \<and> avail s = sh_read_buf s' @ arriving (sh_inner s')
        | Pending \<Rightarrow> avail s' = avail s \<and> sh_waits s' < sh_waits s
        | Failed e \<Rightarrow> e = UnexpectedEof \<and> avail s' = avail s \<and> length (avail s) < n)"

lemma exact_loop_good:
  "unbroken (sh_inner s) \<Longrightarrow> length (sh_read_buf s) = n \<Longrightarrow> sh_read_pos s \<le> n \<Longrightarrow> exact_loop n s = (r, s') \<Longrightarrow>
   exact_good n s r s'"
proof (induction n s arbitrary: r s' rule: exact_loop.induct)
  case (1 n s)
  show ?case
  proof (cases "sh_read_pos s < n")
    case False
    then show ?thesis using "1.prems" exact_loop.simps [of n s] by (auto simp: exact_good_def avail_def)
  next
    case lt: True
    obtain q es where q: "inner_read (n - sh_read_pos s) (sh_inner s) = (q, es)" by fastforce
    note u = inner_read_unbroken [OF "1.prems"(1) q] and a = inner_read_arriving [OF q] and c = inner_read_cap [of "n - sh_read_pos s" "sh_inner s"]
    show ?thesis
    proof (cases q)
      case (Ready bs)
      show ?thesis
      proof (cases "bs = []")
        case True
        have "arriving (sh_inner s) = []" using inner_read_eof [of "n - sh_read_pos s" "sh_inner s" es] lt q Ready True by simp
        then show ?thesis using "1.prems" exact_loop.simps [of n s] lt q Ready True u a
          by (auto simp: exact_good_def avail_def)
      next
        case False
        let ?t = "s\<lparr>sh_inner := es, sh_read_buf := put_at (sh_read_pos s) bs (sh_read_buf s), sh_read_pos := sh_read_pos s + length bs\<rparr>"
        have l: "length bs \<le> n - sh_read_pos s" using c q Ready by simp
        have e: "exact_loop n ?t = (r, s')" using "1.prems"(4) exact_loop.simps [of n s] lt q Ready False by simp
        have av: "avail ?t = avail s"
          using a Ready lt l "1.prems"(2) by (simp add: avail_def put_at_def)
        have "exact_good n ?t r s'"
          using "1.IH" [OF lt q [symmetric] Ready False _ _ _ e] u "1.prems"(2,3) l lt by simp
        then show ?thesis using av u unfolding exact_good_def
          by (auto split: poll.splits)
      qed
    next
      case Pending
      then show ?thesis using "1.prems" exact_loop.simps [of n s] lt q u a by (auto simp: exact_good_def avail_def)
    next
      case (Failed e)
      then show ?thesis using u by simp
    qed
  qed
qed

lemma poll_read_exact_good:
  assumes "unbroken (sh_inner s)" "sh_read_pos s \<le> length (sh_read_buf s)" "sh_read_pos s \<le> n" "poll_read_exact n s = (r, s')"
  shows "exact_good n s r s'"
proof -
  let ?t = "s\<lparr>sh_read_buf := resize n (sh_read_buf s)\<rparr>"
  have "exact_good n ?t r s'"
    using assms exact_loop_good [of ?t n r s'] by (simp add: poll_read_exact_def resize_def)
  moreover have "avail ?t = avail s" using assms(2,3) by (simp add: avail_def resize_def min_def)
  ultimately show ?thesis unfolding exact_good_def by (auto split: poll.splits)
qed

section \<open>The reader's contract\<close>

definition ss_keyed :: "shadowed \<Rightarrow> bytes \<Rightarrow> nat \<Rightarrow> bool" where
  "ss_keyed s k i \<longleftrightarrow> sh_dec s = Some k \<and> length k = ss_key_len (sh_kind s) \<and> sh_dec_nonce s = nonce_at i"

definition ss_holds :: "ss_lib \<Rightarrow> shadowed \<Rightarrow> bytes \<Rightarrow> bool" where
  "ss_holds lib s pl \<longleftrightarrow>
     (case sh_read_state s of
        R_salt \<Rightarrow>
          (\<exists>salt k ps. sh_dec_nonce s = nonce_at 0 \<and> length salt = ss_key_len (sh_kind s)
             \<and> lib_hkdf lib (sh_psk s) salt (ss_key_len (sh_kind s)) = Some k \<and> length k = ss_key_len (sh_kind s)
             \<and> list_all chunk_ok ps \<and> avail s = salt @ ss_chunks lib (sh_kind s) k 0 ps \<and> pl = concat ps)
      | R_length \<Rightarrow>
          (\<exists>k i ps. ss_keyed s k i \<and> list_all chunk_ok ps \<and> avail s = ss_chunks lib (sh_kind s) k i ps \<and> pl = concat ps)
      | R_data n \<Rightarrow>
          (\<exists>k i p ps. ss_keyed s k i \<and> list_all chunk_ok (p # ps) \<and> n = length p
             \<and> avail s = sealed lib (sh_kind s) k i p @ ss_chunks lib (sh_kind s) k (i + 1) ps \<and> pl = p @ concat ps)
      | R_pending n \<Rightarrow>
          (\<exists>k i ps. ss_keyed s k i \<and> list_all chunk_ok ps \<and> n = length (sh_read_buf s) \<and> n \<noteq> 0
             \<and> arriving (sh_inner s) = ss_chunks lib (sh_kind s) k i ps \<and> pl = sh_read_buf s @ concat ps))"

lemma holds_length:
  "sh_read_state s = R_length \<Longrightarrow> ss_keyed s k i \<Longrightarrow> list_all chunk_ok ps \<Longrightarrow>
   avail s = ss_chunks lib (sh_kind s) k i ps \<Longrightarrow> ss_holds lib s (concat ps)"
  unfolding ss_holds_def by (simp only: ss_read_state.case) blast

lemma holds_data:
  "sh_read_state s = R_data (length p) \<Longrightarrow> ss_keyed s k i \<Longrightarrow> list_all chunk_ok (p # ps) \<Longrightarrow>
   avail s = sealed lib (sh_kind s) k i p @ ss_chunks lib (sh_kind s) k (i + 1) ps \<Longrightarrow> ss_holds lib s (p @ concat ps)"
  unfolding ss_holds_def by (simp only: ss_read_state.case) blast

lemma holds_pending:
  "sh_read_state s = R_pending n \<Longrightarrow> n = length (sh_read_buf s) \<Longrightarrow> n \<noteq> 0 \<Longrightarrow> ss_keyed s k i \<Longrightarrow> list_all chunk_ok ps \<Longrightarrow>
   arriving (sh_inner s) = ss_chunks lib (sh_kind s) k i ps \<Longrightarrow> ss_holds lib s (sh_read_buf s @ concat ps)"
  unfolding ss_holds_def by (simp only: ss_read_state.case) blast

text \<open>How much the current step reads.\<close>

definition ss_need :: "shadowed \<Rightarrow> nat" where
  "ss_need s =
     (case sh_read_state s of R_salt \<Rightarrow> ss_key_len (sh_kind s) | R_length \<Rightarrow> 2 + TAG_LEN | R_data n \<Rightarrow> n + TAG_LEN | R_pending n \<Rightarrow> 0)"

definition ss_owes :: "ss_lib \<Rightarrow> shadowed \<Rightarrow> bytes \<Rightarrow> bool" where
  "ss_owes lib s pl \<longleftrightarrow> ss_lib_ok lib \<and> unbroken (sh_inner s) \<and> sh_read_pos s \<le> length (sh_read_buf s)
     \<and> sh_read_pos s \<le> ss_need s \<and> ss_holds lib s pl"

definition ss_good :: "ss_lib \<Rightarrow> bytes \<Rightarrow> shadowed \<Rightarrow> ss_next \<Rightarrow> bool" where
  "ss_good lib pl s x \<longleftrightarrow>
     (case x of
        SsDone r s' \<Rightarrow> step_delivers (ss_owes lib) sh_waits pl s r s'
      | SsLoop s' \<Rightarrow> ss_owes lib s' pl \<and> sh_waits s' \<le> sh_waits s)"

text \<open>Only the three fields of the buffer and the stream change while a step reads.\<close>

lemma exact_keeps:
  assumes "exact_good n s r s'"
  shows "sh_kind s' = sh_kind s" "sh_psk s' = sh_psk s" "sh_dec s' = sh_dec s" "sh_dec_nonce s' = sh_dec_nonce s"
    "sh_read_state s' = sh_read_state s" "unbroken (sh_inner s')" "sh_waits s' \<le> sh_waits s"
    "sh_read_pos s' \<le> length (sh_read_buf s')" "sh_read_pos s' \<le> n"
  using assms by (simp_all add: exact_good_def)

lemma exact_good_cases:
  shows "exact_good n s (Ready u) s' \<Longrightarrow>
      sh_read_pos s' = 0 \<and> avail s = sh_read_buf s' @ arriving (sh_inner s') \<and> length (sh_read_buf s') = n"
    and "exact_good n s Pending s' \<Longrightarrow> avail s' = avail s \<and> sh_waits s' < sh_waits s"
    and "exact_good n s (Failed e) s' \<Longrightarrow> e = UnexpectedEof \<and> avail s' = avail s \<and> length (avail s) < n"
  by (simp_all add: exact_good_def)

lemma exact_full:
  assumes "exact_good n s (Ready u) s'" "avail s = x @ y" "length x = n"
  shows "sh_read_buf s' = x" "arriving (sh_inner s') = y" "sh_read_pos s' = 0"
  using exact_good_cases(1) [OF assms(1)] assms(2,3) by auto

lemma chunks_empty:
  assumes "ss_lib_ok lib" "length k = ss_key_len c" "length (ss_chunks lib c k i ps) < 2 + TAG_LEN"
  shows "ps = []"
proof (cases ps)
  case (Cons p qs)
  have "length (sealed lib c k i (to_be16 (word_of_nat (length p)))) = 2 + TAG_LEN"
    using length_sealed [OF assms(1,2), of "to_be16 (word_of_nat (length p))" i] by simp
  then show ?thesis using assms(3) Cons by simp
qed simp

text \<open>A step that has not read all it needs leaves what is owed as it was.\<close>

lemma ss_owes_same:
  assumes "ss_owes lib s pl" "exact_good (ss_need s) s r w" "avail w = avail s" "\<forall>n. sh_read_state s \<noteq> R_pending n"
  shows "ss_owes lib w pl"
proof -
  note keep = exact_keeps [OF assms(2)]
  have "ss_need w = ss_need s" unfolding ss_need_def keep ..
  moreover have "ss_holds lib w pl = ss_holds lib s pl"
    using assms(4) by (cases "sh_read_state s") (simp_all add: ss_holds_def ss_keyed_def keep assms(3))
  ultimately show ?thesis using assms(1) keep by (simp add: ss_owes_def)
qed

lemma step_exact:
  assumes "ss_owes lib s pl" "poll_read_exact (ss_need s) s = (r, w)"
  shows "exact_good (ss_need s) s r w"
  by (rule poll_read_exact_good) (use assms in \<open>simp_all add: ss_owes_def\<close>)

lemma read_salt_good:
  assumes o: "ss_owes lib s pl" and st: "sh_read_state s = R_salt"
  shows "ss_good lib pl s (read_salt lib s)"
proof -
  let ?n = "ss_key_len (sh_kind s)"
  obtain salt k ps where h: "sh_dec_nonce s = nonce_at 0" "length salt = ?n" "lib_hkdf lib (sh_psk s) salt ?n = Some k"
    "length k = ?n" "list_all chunk_ok ps" "avail s = salt @ ss_chunks lib (sh_kind s) k 0 ps" "pl = concat ps"
    and b: "ss_lib_ok lib"
    using o st by (auto simp: ss_owes_def ss_holds_def)
  obtain r w where r: "poll_read_exact ?n s = (r, w)" by fastforce
  have need: "ss_need s = ?n" using st by (simp add: ss_need_def)
  have g: "exact_good ?n s r w" using step_exact [OF o, unfolded need, OF r] .
  note keep = exact_keeps [OF g] and same = ss_owes_same [OF o, unfolded need, OF g]
  show ?thesis
  proof (cases r)
    case (Ready u)
    note full = exact_full [OF g [unfolded Ready] h(6,2)]
    let ?t = "w\<lparr>sh_read_buf := [], sh_dec := Some k, sh_read_state := R_length\<rparr>"
    have "ss_holds lib ?t (concat ps)"
      by (rule holds_length [of _ k 0]) (use h keep full in \<open>simp_all add: ss_keyed_def avail_def\<close>)
    then have "ss_owes lib ?t pl" using b keep full h(7) by (simp add: ss_owes_def ss_need_def)
    then show ?thesis using r Ready full h keep by (simp add: read_salt_def Let_def ss_good_def)
  next
    case Pending
    then show ?thesis using r same st exact_good_cases(2) [of ?n s w] g by (simp add: read_salt_def Let_def ss_good_def step_delivers_def)
  next
    case (Failed e)
    then show ?thesis using exact_good_cases(3) [of ?n s e w] g h by simp
  qed
qed

lemma read_length_good:
  assumes o: "ss_owes lib s pl" and st: "sh_read_state s = R_length"
  shows "ss_good lib pl s (read_length lib s)"
proof -
  obtain k i ps where h: "ss_keyed s k i" "list_all chunk_ok ps" "avail s = ss_chunks lib (sh_kind s) k i ps" "pl = concat ps"
    and b: "ss_lib_ok lib"
    using o st by (auto simp: ss_owes_def ss_holds_def)
  have kl: "length k = ss_key_len (sh_kind s)" using h(1) by (simp add: ss_keyed_def)
  obtain r w where r: "poll_read_exact (2 + TAG_LEN) s = (r, w)" by fastforce
  have need: "ss_need s = 2 + TAG_LEN" using st by (simp add: ss_need_def)
  have g: "exact_good (2 + TAG_LEN) s r w" using step_exact [OF o, unfolded need, OF r] .
  note keep = exact_keeps [OF g] and same = ss_owes_same [OF o, unfolded need, OF g]
  show ?thesis
  proof (cases r)
    case (Ready u)
    then have "avail s = sh_read_buf w @ arriving (sh_inner w)" "length (sh_read_buf w) = 2 + TAG_LEN"
      using g exact_good_cases(1) [of _ s u w] by blast+
    then have "avail s \<noteq> []" by (auto simp: TAG_LEN_def)
    then obtain p qs where ps: "ps = p # qs" using h(3) by (cases ps) auto
    have p: "chunk_ok p" "list_all chunk_ok qs" using h(2) ps by simp_all
    let ?l = "to_be16 (word_of_nat (length p))"
    have av: "avail s = sealed lib (sh_kind s) k i ?l @ (sealed lib (sh_kind s) k (i + 1) p @ ss_chunks lib (sh_kind s) k (i + 2) qs)"
      using h(3) ps by simp
    have sl: "length (sealed lib (sh_kind s) k i ?l) = 2 + TAG_LEN" using length_sealed [OF b kl, of ?l i] by simp
    note full = exact_full [OF g [unfolded Ready] av sl]
    have op: "open_buf lib w = (None, w\<lparr>sh_dec_nonce := nonce_at (i + 1), sh_read_buf := ?l\<rparr>)"
      by (rule open_sealed [OF b]) (use kl keep full h(1) in \<open>simp_all add: ss_keyed_def\<close>)
    have n: "unat (from_be16 (?l ! 0) (?l ! 1)) = length p"
      using p(1) by (simp add: to_be16_def chunk_ok_def unat_of_nat_u16)
    let ?t = "w\<lparr>sh_dec_nonce := nonce_at (i + 1), sh_read_buf := ?l, sh_read_state := R_data (length p)\<rparr>"
    have "ss_holds lib ?t (p @ concat qs)"
      by (rule holds_data [of _ _ k "i + 1"]) (use p full keep h(1) in \<open>simp_all add: ss_keyed_def avail_def\<close>)
    then have "ss_owes lib ?t pl" using b keep full h(4) ps by (simp add: ss_owes_def ss_need_def)
    then show ?thesis using r Ready op n keep(7) by (simp add: read_length_def ss_good_def)
  next
    case Pending
    then show ?thesis using r g same st keep(7) exact_good_cases(2) [of _ s w] by (auto simp: read_length_def ss_good_def step_delivers_def)
  next
    case (Failed e)
    then have f: "e = UnexpectedEof" "avail w = avail s" "length (avail s) < 2 + TAG_LEN" using g exact_good_cases(3) [of _ s e w] by blast+
    then have "ps = []" using chunks_empty [OF b kl, of i ps] h(3) by simp
    then show ?thesis using r Failed f same st keep(7) h(4) by (simp add: read_length_def ss_good_def step_delivers_def)
  qed
qed

lemma read_data_good:
  assumes o: "ss_owes lib s pl" and st: "sh_read_state s = R_data n"
  shows "ss_good lib pl s (read_data lib n s)"
proof -
  obtain k i p ps where h: "ss_keyed s k i" "list_all chunk_ok (p # ps)" "n = length p"
    "avail s = sealed lib (sh_kind s) k i p @ ss_chunks lib (sh_kind s) k (i + 1) ps" "pl = p @ concat ps"
    and b: "ss_lib_ok lib"
    using o st by (auto simp: ss_owes_def ss_holds_def)
  have kl: "length k = ss_key_len (sh_kind s)" using h(1) by (simp add: ss_keyed_def)
  have p: "length p < 65536" "p \<noteq> []" "list_all chunk_ok ps" using h(2) by (simp_all add: chunk_ok_def)
  obtain r w where r: "poll_read_exact (n + TAG_LEN) s = (r, w)" by fastforce
  have need: "ss_need s = n + TAG_LEN" using st by (simp add: ss_need_def)
  have g: "exact_good (n + TAG_LEN) s r w" using step_exact [OF o, unfolded need, OF r] .
  note keep = exact_keeps [OF g] and same = ss_owes_same [OF o, unfolded need, OF g]
  have sl: "length (sealed lib (sh_kind s) k i p) = n + TAG_LEN" using length_sealed [OF b kl p(1), of i] h(3) by simp
  show ?thesis
  proof (cases r)
    case (Ready u)
    note full = exact_full [OF g [unfolded Ready] h(4) sl]
    have op: "open_buf lib w = (None, w\<lparr>sh_dec_nonce := nonce_at (i + 1), sh_read_buf := p\<rparr>)"
      by (rule open_sealed [OF b]) (use kl keep full h(1) p(1) in \<open>simp_all add: ss_keyed_def\<close>)
    let ?t = "w\<lparr>sh_dec_nonce := nonce_at (i + 1), sh_read_buf := p, sh_read_state := R_pending n\<rparr>"
    have "ss_holds lib ?t (sh_read_buf ?t @ concat ps)"
      by (rule holds_pending [of _ n k "i + 1"]) (use p full keep h(1,3) in \<open>simp_all add: ss_keyed_def\<close>)
    then have "ss_owes lib ?t pl" using b keep full h(5) by (simp add: ss_owes_def ss_need_def)
    then show ?thesis using r Ready op keep(7) by (simp add: read_data_def ss_good_def)
  next
    case Pending
    then show ?thesis using r g same st keep(7) exact_good_cases(2) [of _ s w] by (auto simp: read_data_def ss_good_def step_delivers_def)
  next
    case (Failed e)
    then have "length (avail s) < n + TAG_LEN" using g exact_good_cases(3) [of _ s e w] by blast
    then show ?thesis using h(4) sl by simp
  qed
qed

lemma read_pending_good:
  assumes o: "ss_owes lib s pl" and st: "sh_read_state s = R_pending n" and cap: "0 < cap"
  shows "ss_good lib pl s (read_pending cap n s)"
proof -
  obtain k i ps where h: "ss_keyed s k i" "list_all chunk_ok ps" "n = length (sh_read_buf s)" "n \<noteq> 0"
    "arriving (sh_inner s) = ss_chunks lib (sh_kind s) k i ps" "pl = sh_read_buf s @ concat ps"
    and b: "ss_lib_ok lib" "unbroken (sh_inner s)" "sh_read_pos s = 0"
    using o st by (auto simp: ss_owes_def ss_holds_def ss_need_def)
  define m where "m = min cap n"
  have m: "m \<le> n" "0 < m" using cap h(4) by (simp_all add: m_def)
  let ?t = "s\<lparr>sh_read_buf := drop m (sh_read_buf s), sh_read_state := (if m < n then R_pending (n - m) else R_length)\<rparr>"
  have "ss_holds lib ?t (drop m (sh_read_buf s) @ concat ps)"
  proof (cases "m < n")
    case True
    have "ss_holds lib ?t (sh_read_buf ?t @ concat ps)"
      by (rule holds_pending [of _ "n - m" k i]) (use h True in \<open>simp_all add: ss_keyed_def\<close>)
    then show ?thesis by simp
  next
    case False
    have "ss_holds lib ?t (concat ps)"
      by (rule holds_length [of _ k i]) (use h b False in \<open>simp_all add: ss_keyed_def avail_def\<close>)
    then show ?thesis using False h(3) by simp
  qed
  then have "ss_owes lib ?t (drop m (sh_read_buf s) @ concat ps)" using b by (simp add: ss_owes_def)
  moreover have "pl = take m (sh_read_buf s) @ (drop m (sh_read_buf s) @ concat ps)"
    using h(6) by (metis append.assoc append_take_drop_id)
  moreover have "take m (sh_read_buf s) \<noteq> []" using h(3) m by auto
  moreover have "read_pending cap n s = SsDone (Ready (take m (sh_read_buf s))) ?t"
    unfolding read_pending_def m_def [symmetric] Let_def using h(3) m(1) by simp
  ultimately show ?thesis by (simp add: ss_good_def step_delivers_def)
qed

lemma ss_poll_delivers:
  "ss_owes lib s pl \<Longrightarrow> 0 < cap \<Longrightarrow> ss_poll_read lib cap s = (r, s') \<Longrightarrow> step_delivers (ss_owes lib) sh_waits pl s r s'"
proof (induction lib cap s rule: ss_poll_read.induct)
  case (1 lib cap s)
  have g: "ss_good lib pl s (ss_round lib cap s)"
    using read_salt_good [OF "1.prems"(1)] read_length_good [OF "1.prems"(1)] read_data_good [OF "1.prems"(1)]
      read_pending_good [OF "1.prems"(1) _ "1.prems"(2)]
    by (cases "sh_read_state s") (simp_all add: ss_round_def)
  show ?case
  proof (cases "ss_round lib cap s")
    case (SsDone r1 s1)
    then show ?thesis using g "1.prems"(3) ss_poll_read.simps [of lib cap s] by (simp add: ss_good_def)
  next
    case (SsLoop w)
    then have p: "ss_poll_read lib cap w = (r, s')" using "1.prems"(3) ss_poll_read.simps [of lib cap s] by simp
    have w: "ss_owes lib w pl" "sh_waits w \<le> sh_waits s" using g SsLoop by (simp_all add: ss_good_def)
    have "step_delivers (ss_owes lib) sh_waits pl w r s'" using "1.IH" [OF SsLoop w(1) "1.prems"(2) p] .
    then show ?thesis using w(2) by (auto simp: step_delivers_def split: poll.splits)
  qed
qed

interpretation ss_reader: layered_reader "ss_poll_read lib" "ss_owes lib" sh_waits for lib
  by unfold_locales (rule ss_poll_delivers)

section \<open>The writing half\<close>

datatype ss_write_state = W_salt | W_chunk | W_flush nat nat nat

record ss_uplink =
  su_kind :: ss_cipher
  su_psk :: bytes
  su_enc :: "bytes option"
  su_nonce :: bytes
  su_buf :: bytes
  su_state :: ss_write_state
  su_sink :: sink

definition ss_uplink_new :: "ss_lib \<Rightarrow> sink \<Rightarrow> rstr \<Rightarrow> rstr \<Rightarrow> ss_uplink option" where
  "ss_uplink_new lib k meth passwd =
     Option.bind (ss_cipher_parse meth) (\<lambda>kind.
       map_option (\<lambda>psk. \<lparr>su_kind = kind, su_psk = psk, su_enc = None, su_nonce = replicate NONCE_LEN 0,
           su_buf = [], su_state = W_salt, su_sink = k\<rparr>)
         (evp_bytes_to_key (lib_md5 lib) (as_bytes passwd) (ss_key_len kind)))"

text \<open>\<^verbatim>\<open>Aead::seal\<close> with the next nonce.\<close>

definition seal_next :: "ss_lib \<Rightarrow> bytes \<Rightarrow> ss_uplink \<Rightarrow> (io_error_kind + bytes) \<times> ss_uplink" where
  "seal_next lib p u =
     (case nonce_next (su_nonce u) of
        (nonce, nonce') \<Rightarrow>
          (let u = u\<lparr>su_nonce := nonce'\<rparr> in
           case su_enc u of
             None \<Rightarrow> (Inl Panicked, u)
           | Some key \<Rightarrow>
               (case lib_seal lib (su_kind u) key nonce p of
                  None \<Rightarrow> (Inl OtherError, u)
                | Some (ct, tag) \<Rightarrow> (Inr (ct @ tag), u))))"

datatype ss_write_next = SwDone "nat poll" ss_uplink | SwLoop ss_uplink

text \<open>\<open>salt\<close> is what the random generator returns; its first bytes fill the buffer.\<close>

definition write_salt :: "ss_lib \<Rightarrow> bytes \<Rightarrow> ss_uplink \<Rightarrow> ss_write_next" where
  "write_salt lib salt u =
     (let salt_len = ss_key_len (su_kind u); u = u\<lparr>su_buf := resize salt_len salt\<rparr> in
      case lib_hkdf lib (su_psk u) (su_buf u) salt_len of
        None \<Rightarrow> SwDone (Failed OtherError) u
      | Some key \<Rightarrow>
          if length key \<noteq> salt_len then SwDone (Failed Panicked) u
          else SwLoop (u\<lparr>su_enc := Some key, su_state := W_chunk\<rparr>))"

definition write_chunk :: "ss_lib \<Rightarrow> bytes \<Rightarrow> ss_uplink \<Rightarrow> ss_write_next" where
  "write_chunk lib buf u =
     (let consume = min (length buf) MAX_PAYLOAD in
      case seal_next lib (to_be16 (word_of_nat consume)) u of
        (Inl e, u) \<Rightarrow> SwDone (Failed e) u
      | (Inr piece, u) \<Rightarrow>
          (case seal_next lib (take consume buf) u of
             (Inl e, u) \<Rightarrow> SwDone (Failed e) u
           | (Inr payload, u) \<Rightarrow>
               (let u = u\<lparr>su_buf := su_buf u @ piece @ payload\<rparr>
                in SwLoop (u\<lparr>su_state := W_flush consume (length (su_buf u)) 0\<rparr>))))"

definition write_flush :: "nat \<Rightarrow> nat \<Rightarrow> nat \<Rightarrow> ss_uplink \<Rightarrow> ss_write_next" where
  "write_flush consumed all done u =
     (case sink_write (su_buf u) (su_sink u) of
        (Pending, k) \<Rightarrow> SwDone Pending (u\<lparr>su_sink := k\<rparr>)
      | (Failed e, k) \<Rightarrow> SwDone (Failed e) (u\<lparr>su_sink := k\<rparr>)
      | (Ready n, k) \<Rightarrow>
          if n = 0 then SwDone (Failed UnexpectedEof) (u\<lparr>su_sink := k\<rparr>)
          else
            (let u = u\<lparr>su_sink := k, su_buf := drop n (su_buf u)\<rparr> in
             if all \<le> done + n then SwDone (Ready consumed) (u\<lparr>su_state := W_chunk\<rparr>)
             else SwLoop (u\<lparr>su_state := W_flush consumed all (done + n)\<rparr>)))"

definition write_round :: "ss_lib \<Rightarrow> bytes \<Rightarrow> bytes \<Rightarrow> ss_uplink \<Rightarrow> ss_write_next" where
  "write_round lib salt buf u =
     (case su_state u of
        W_salt \<Rightarrow> write_salt lib salt u
      | W_chunk \<Rightarrow> write_chunk lib buf u
      | W_flush c a d \<Rightarrow> write_flush c a d u)"

definition write_rank :: "ss_write_state \<Rightarrow> nat" where
  "write_rank st = (case st of W_salt \<Rightarrow> 2 | W_chunk \<Rightarrow> 1 | W_flush _ _ _ \<Rightarrow> 0)"

definition flush_left :: "ss_write_state \<Rightarrow> nat" where
  "flush_left st = (case st of W_flush c a d \<Rightarrow> a - d | _ \<Rightarrow> 0)"

lemma write_round_shrinks:
  "write_round lib salt buf u = SwLoop u' \<Longrightarrow>
   write_rank (su_state u') < write_rank (su_state u)
   \<or> write_rank (su_state u') = write_rank (su_state u) \<and> flush_left (su_state u') < flush_left (su_state u)"
  by (auto simp: write_round_def write_salt_def write_chunk_def write_flush_def write_rank_def flush_left_def Let_def
      split: ss_write_state.splits prod.splits poll.splits option.splits sum.splits if_splits)

function ss_poll_write :: "ss_lib \<Rightarrow> bytes \<Rightarrow> bytes \<Rightarrow> ss_uplink \<Rightarrow> nat poll \<times> ss_uplink" where
  "ss_poll_write lib salt buf u =
     (case write_round lib salt buf u of SwDone r u \<Rightarrow> (r, u) | SwLoop u \<Rightarrow> ss_poll_write lib salt buf u)"
  by pat_completeness auto

termination ss_poll_write
  by (relation "measures [\<lambda>(lib, salt, buf, u). write_rank (su_state u), \<lambda>(lib, salt, buf, u). flush_left (su_state u)]")
    (auto dest: write_round_shrinks)

declare ss_poll_write.simps [simp del]

section \<open>The writer's contract\<close>

text \<open>\<open>w\<close> is what a peer needs to read \<open>acc\<close>: the salt and the chunks sealed so far.\<close>

definition su_sent :: "ss_lib \<Rightarrow> ss_cipher \<Rightarrow> bytes \<Rightarrow> ss_uplink \<Rightarrow> bytes \<Rightarrow> bytes \<Rightarrow> bool" where
  "su_sent lib c psk u acc w \<longleftrightarrow> su_kind u = c \<and> su_psk u = psk \<and>
     (\<exists>salt k ps. length salt = ss_key_len c \<and> lib_hkdf lib psk salt (ss_key_len c) = Some k \<and> length k = ss_key_len c
        \<and> list_all chunk_ok ps \<and> acc = concat ps \<and> w = salt @ ss_chunks lib c k 0 ps
        \<and> su_enc u = Some k \<and> su_nonce u = nonce_at (2 * length ps))"

definition su_fresh :: "ss_cipher \<Rightarrow> bytes \<Rightarrow> ss_uplink \<Rightarrow> bytes \<Rightarrow> bool" where
  "su_fresh c psk u acc \<longleftrightarrow> su_kind u = c \<and> su_psk u = psk \<and> su_state u = W_salt \<and> acc = []
     \<and> written (su_sink u) = [] \<and> su_nonce u = nonce_at 0"

definition su_ready :: "ss_lib \<Rightarrow> ss_cipher \<Rightarrow> bytes \<Rightarrow> ss_uplink \<Rightarrow> bytes \<Rightarrow> bool" where
  "su_ready lib c psk u acc \<longleftrightarrow> su_state u = W_chunk \<and> su_sent lib c psk u acc (written (su_sink u) @ su_buf u)"

definition su_idle :: "ss_lib \<Rightarrow> ss_cipher \<Rightarrow> bytes \<Rightarrow> ss_uplink \<Rightarrow> bytes \<Rightarrow> bool" where
  "su_idle lib c psk u acc \<longleftrightarrow> su_fresh c psk u acc \<or> su_ready lib c psk u acc \<and> su_buf u = []"

definition su_mid :: "ss_lib \<Rightarrow> ss_cipher \<Rightarrow> bytes \<Rightarrow> ss_uplink \<Rightarrow> bytes \<Rightarrow> bytes \<Rightarrow> bool" where
  "su_mid lib c psk u acc data \<longleftrightarrow>
     (\<exists>m a d. su_state u = W_flush m a d \<and> 0 < m \<and> m \<le> length data \<and> su_buf u \<noteq> [] \<and> a = d + length (su_buf u)
        \<and> su_sent lib c psk u (acc @ take m data) (written (su_sink u) @ su_buf u))"

definition su_good :: "ss_lib \<Rightarrow> ss_cipher \<Rightarrow> bytes \<Rightarrow> bytes \<Rightarrow> bytes \<Rightarrow> ss_uplink \<Rightarrow> ss_write_next \<Rightarrow> bool" where
  "su_good lib c psk acc data u x \<longleftrightarrow>
     (case x of
        SwDone r u' \<Rightarrow> write_delivers (su_idle lib c psk) (su_mid lib c psk) su_sink acc data u r u'
      | SwLoop u' \<Rightarrow> (su_ready lib c psk u' acc \<or> su_mid lib c psk u' acc data)
          \<and> length (slots (su_sink u')) \<le> length (slots (su_sink u)) \<and> (sink_good (su_sink u) \<longrightarrow> sink_good (su_sink u')))"

lemma su_sentI:
  "su_kind u = c \<Longrightarrow> su_psk u = psk \<Longrightarrow> length salt = ss_key_len c \<Longrightarrow> lib_hkdf lib psk salt (ss_key_len c) = Some k \<Longrightarrow>
   length k = ss_key_len c \<Longrightarrow> list_all chunk_ok ps \<Longrightarrow> acc = concat ps \<Longrightarrow> w = salt @ ss_chunks lib c k 0 ps \<Longrightarrow>
   su_enc u = Some k \<Longrightarrow> su_nonce u = nonce_at (2 * length ps) \<Longrightarrow> su_sent lib c psk u acc w"
  unfolding su_sent_def by blast

lemma write_salt_good:
  assumes "ss_lib_ok lib" "su_fresh c psk u acc"
  shows "su_good lib c psk acc data u (write_salt lib salt u)"
proof -
  let ?salt = "resize (ss_key_len c) salt"
  obtain k where k: "lib_hkdf lib psk ?salt (ss_key_len c) = Some k" "length k = ss_key_len c"
    using assms(1) unfolding ss_lib_ok_def by blast
  let ?u = "u\<lparr>su_buf := ?salt, su_enc := Some k, su_state := W_chunk\<rparr>"
  have "length ?salt = ss_key_len c" by (simp add: resize_def)
  then have "su_sent lib c psk ?u (concat []) (?salt @ ss_chunks lib c k 0 [])"
    unfolding su_sent_def using k assms(2) by (intro conjI exI [of _ ?salt] exI [of _ k] exI [of _ "[]"]) (simp_all add: su_fresh_def)
  then have "su_ready lib c psk ?u acc" using assms(2) by (simp add: su_ready_def su_fresh_def)
  then show ?thesis using assms(2) k by (simp add: su_good_def write_salt_def Let_def su_fresh_def)
qed

lemma seal_next_sealed:
  assumes "ss_lib_ok lib" "length k = ss_key_len (su_kind u)" "length p < 65536" "su_enc u = Some k" "su_nonce u = nonce_at i"
  shows "seal_next lib p u = (Inr (sealed lib (su_kind u) k i p), u\<lparr>su_nonce := nonce_at (i + 1)\<rparr>)"
proof -
  obtain ct tag where "lib_seal lib (su_kind u) k (nonce_at i) p = Some (ct, tag)" "sealed lib (su_kind u) k i p = ct @ tag"
    by (rule sealed_opens [OF assms(1-3), where i = i])
  then show ?thesis using assms(4,5) by (simp add: seal_next_def nonce_next_def nonce_at_Suc)
qed

lemma chunks_snoc:
  "ss_chunks lib c k i (ps @ [p]) = ss_chunks lib c k i ps
     @ sealed lib c k (i + 2 * length ps) (to_be16 (word_of_nat (length p))) @ sealed lib c k (i + 2 * length ps + 1) p"
  by (induction ps arbitrary: i) simp_all

lemma write_chunk_good:
  assumes ok: "ss_lib_ok lib" and r: "su_ready lib c psk u acc" and d: "data \<noteq> []"
  shows "su_good lib c psk acc data u (write_chunk lib data u)"
proof -
  obtain salt k ps where s: "su_kind u = c" "su_psk u = psk" "length salt = ss_key_len c" "lib_hkdf lib psk salt (ss_key_len c) = Some k"
    "length k = ss_key_len c" "list_all chunk_ok ps" "acc = concat ps" "written (su_sink u) @ su_buf u = salt @ ss_chunks lib c k 0 ps"
    "su_enc u = Some k" "su_nonce u = nonce_at (2 * length ps)"
    using r by (auto simp: su_ready_def su_sent_def)
  define m where "m = min (length data) MAX_PAYLOAD"
  define p where "p = take m data"
  have m: "0 < m" "m \<le> length data" "m < 65536" and lp: "length p = m"
    using d by (auto simp: m_def p_def MAX_PAYLOAD_def)
  then have p: "chunk_ok p" by (auto simp: chunk_ok_def)
  let ?l = "to_be16 (word_of_nat (length p))" and ?i = "2 * length ps"
  let ?pc = "sealed lib c k ?i ?l" and ?pl = "sealed lib c k (?i + 1) p"
  have 1: "seal_next lib ?l u = (Inr ?pc, u\<lparr>su_nonce := nonce_at (?i + 1)\<rparr>)"
    using seal_next_sealed [OF ok, of k u ?l ?i] s by simp
  have 2: "seal_next lib p (u\<lparr>su_nonce := nonce_at (?i + 1)\<rparr>) = (Inr ?pl, u\<lparr>su_nonce := nonce_at (?i + 2)\<rparr>)"
    using seal_next_sealed [OF ok, of k "u\<lparr>su_nonce := nonce_at (?i + 1)\<rparr>" p "?i + 1"] s p by (simp add: chunk_ok_def)
  define u' where "u' = u\<lparr>su_nonce := nonce_at (?i + 2), su_buf := su_buf u @ ?pc @ ?pl,
    su_state := W_flush m (length (su_buf u @ ?pc @ ?pl)) 0\<rparr>"
  have w: "write_chunk lib data u = SwLoop u'"
    using 1 2 lp unfolding write_chunk_def m_def [symmetric] p_def [symmetric] Let_def u'_def by simp
  have "length ?pc = 2 + TAG_LEN" using length_sealed [OF ok s(5), of ?l ?i] by simp
  then have ne: "su_buf u' \<noteq> []" by (auto simp: u'_def)
  have "su_sent lib c psk u' (concat (ps @ [p])) (written (su_sink u') @ su_buf u')"
  proof (rule su_sentI [where salt = salt and k = k and ps = "ps @ [p]"])
    have "written (su_sink u') @ su_buf u' = (written (su_sink u) @ su_buf u) @ ?pc @ ?pl" by (simp add: u'_def)
    then show "written (su_sink u') @ su_buf u' = salt @ ss_chunks lib c k 0 (ps @ [p])"
      unfolding s(8) chunks_snoc by simp
  qed (use s p in \<open>simp_all add: u'_def\<close>)
  then have "su_sent lib c psk u' (acc @ take m data) (written (su_sink u') @ su_buf u')" using s(7) by (simp add: p_def)
  moreover have "su_state u' = W_flush m (length (su_buf u')) 0" by (simp add: u'_def)
  ultimately have "su_mid lib c psk u' acc data"
    using m ne unfolding su_mid_def by (intro exI [of _ m] exI [of _ "length (su_buf u')"] exI [of _ 0]) simp
  moreover have "su_sink u' = su_sink u" by (simp add: u'_def)
  ultimately show ?thesis unfolding w by (simp add: su_good_def)
qed

lemma write_flush_good:
  assumes "su_mid lib c psk u acc data" "su_state u = W_flush m a d"
  shows "su_good lib c psk acc data u (write_flush m a d u)"
proof -
  have s: "0 < m" "m \<le> length data" "su_buf u \<noteq> []" "a = d + length (su_buf u)"
    "su_sent lib c psk u (acc @ take m data) (written (su_sink u) @ su_buf u)"
    using assms by (auto simp: su_mid_def)
  obtain q k where q: "sink_write (su_buf u) (su_sink u) = (q, k)" by fastforce
  note sp = sink_write_spec [OF q] and good = sink_write_good [OF _ q]
  show ?thesis
  proof (cases q)
    case Pending
    have "su_mid lib c psk (u\<lparr>su_sink := k\<rparr>) acc data"
      using assms(2) s sp(2) [OF Pending] by (simp add: su_mid_def su_sent_def)
    then show ?thesis using q Pending sp(1) sp(2) [OF Pending] good by (simp add: write_flush_def su_good_def write_delivers_def)
  next
    case (Failed e)
    then show ?thesis using q sp(1) good by (auto simp: write_flush_def su_good_def write_delivers_def)
  next
    case (Ready n)
    show ?thesis
    proof (cases "n = 0")
      case True
      then show ?thesis using q Ready sp(1) good s(3) by (auto simp: write_flush_def su_good_def write_delivers_def)
    next
      case False
      have n: "n \<le> length (su_buf u)" "written k = written (su_sink u) @ take n (su_buf u)" using sp(3) [OF Ready] by simp_all
      let ?u = "u\<lparr>su_sink := k, su_buf := drop n (su_buf u)\<rparr>"
      have t: "su_sent lib c psk (?u\<lparr>su_state := st\<rparr>) (acc @ take m data) (written k @ drop n (su_buf u))" for st
        using s(5) n(2) by (simp add: su_sent_def)
      show ?thesis
      proof (cases "a \<le> d + n")
        case True
        then have "drop n (su_buf u) = []" using s(4) by simp
        then have "su_idle lib c psk (?u\<lparr>su_state := W_chunk\<rparr>) (acc @ take m data)"
          using t [of W_chunk] by (simp add: su_idle_def su_ready_def)
        then show ?thesis using q Ready False True s(1,2) sp(1) good
          by (simp add: write_flush_def su_good_def write_delivers_def Let_def)
      next
        case more: False
        then have "drop n (su_buf u) \<noteq> []" "a = (d + n) + length (drop n (su_buf u))" using s(4) n(1) by auto
        then have "su_mid lib c psk (?u\<lparr>su_state := W_flush m a (d + n)\<rparr>) acc data"
          unfolding su_mid_def using t [of "W_flush m a (d + n)"] s(1,2)
          by (intro exI [of _ m] exI [of _ a] exI [of _ "d + n"]) simp
        then show ?thesis using q Ready False more sp(1) good by (simp add: write_flush_def su_good_def Let_def)
      qed
    qed
  qed
qed

lemma ss_write_delivers:
  "ss_lib_ok lib \<Longrightarrow> data \<noteq> [] \<Longrightarrow> su_idle lib c psk u acc \<or> su_ready lib c psk u acc \<or> su_mid lib c psk u acc data \<Longrightarrow>
   ss_poll_write lib salt data u = (r, u') \<Longrightarrow>
   write_delivers (su_idle lib c psk) (su_mid lib c psk) su_sink acc data u r u'"
proof (induction lib salt data u rule: ss_poll_write.induct)
  case (1 lib salt data u)
  have g: "su_good lib c psk acc data u (write_round lib salt data u)"
  proof (cases "su_state u")
    case W_salt
    then have "su_fresh c psk u acc" using "1.prems"(3) by (auto simp: su_idle_def su_ready_def su_mid_def)
    then show ?thesis using write_salt_good "1.prems"(1) W_salt by (simp add: write_round_def)
  next
    case W_chunk
    then have "su_ready lib c psk u acc" using "1.prems"(3) by (auto simp: su_idle_def su_fresh_def su_mid_def)
    then show ?thesis using write_chunk_good "1.prems"(1,2) W_chunk by (simp add: write_round_def)
  next
    case (W_flush m a d)
    then have "su_mid lib c psk u acc data" using "1.prems"(3) by (auto simp: su_idle_def su_fresh_def su_ready_def)
    then show ?thesis using write_flush_good W_flush by (simp add: write_round_def)
  qed
  show ?case
  proof (cases "write_round lib salt data u")
    case (SwDone r1 u1)
    then show ?thesis using g "1.prems"(4) ss_poll_write.simps [of lib salt data u] by (simp add: su_good_def)
  next
    case (SwLoop w)
    then have p: "ss_poll_write lib salt data w = (r, u')" using "1.prems"(4) ss_poll_write.simps [of lib salt data u] by simp
    have w: "su_ready lib c psk w acc \<or> su_mid lib c psk w acc data"
      "length (slots (su_sink w)) \<le> length (slots (su_sink u))" "sink_good (su_sink u) \<Longrightarrow> sink_good (su_sink w)"
      using g SwLoop by (simp_all add: su_good_def)
    have "write_delivers (su_idle lib c psk) (su_mid lib c psk) su_sink acc data w r u'"
      using "1.IH" [OF SwLoop "1.prems"(1,2) _ p] w(1) by blast
    then show ?thesis by (rule write_delivers_weaken) (use w in simp_all)
  qed
qed

definition ss_fits :: "ss_lib \<Rightarrow> bytes \<Rightarrow> bool" where
  "ss_fits lib data \<longleftrightarrow> ss_lib_ok lib"

interpretation ss_writer: layered_writer "ss_poll_write lib" "su_idle lib c psk" "su_mid lib c psk" su_sink "ss_fits lib" for lib c psk
proof (unfold_locales, goal_cases)
  case (1 s acc data rnd r s')
  then show ?case by (intro ss_write_delivers) (auto simp: ss_fits_def)
qed (simp add: ss_fits_def)

section \<open>Both ends together\<close>

lemma replicate_nonce: "replicate NONCE_LEN 0 = nonce_at 0"
  by (simp add: nonce_at_def)

lemma ss_lib_md5: "ss_lib_ok lib \<Longrightarrow> \<forall>bs. length (lib_md5 lib bs) = 16"
  by (simp add: ss_lib_ok_def)

lemma ss_uplink_new_idle:
  assumes "ss_cipher_parse meth = Some c" "evp_bytes_to_key (lib_md5 lib) (as_bytes passwd) (ss_key_len c) = Some psk" "written k = []"
  shows "\<exists>u. ss_uplink_new lib k meth passwd = Some u \<and> su_idle lib c psk u [] \<and> su_sink u = k"
  using assms by (simp add: ss_uplink_new_def su_idle_def su_fresh_def replicate_nonce)

lemma su_idle_sent: "su_idle lib c psk u acc \<Longrightarrow> acc \<noteq> [] \<Longrightarrow> su_sent lib c psk u acc (written (su_sink u))"
  by (auto simp: su_idle_def su_fresh_def su_ready_def)

lemma shadowed_new_owes:
  assumes "ss_lib_ok lib" "ss_cipher_parse meth = Some c" "evp_bytes_to_key (lib_md5 lib) (as_bytes passwd) (ss_key_len c) = Some psk"
    and "unbroken es" "su_sent lib c psk u pl (arriving es)"
  shows "\<exists>s. shadowed_new lib es meth passwd = Some s \<and> ss_owes lib s pl \<and> sh_inner s = es"
proof -
  let ?s = "\<lparr>sh_inner = es, sh_kind = c, sh_psk = psk, sh_dec = None, sh_dec_nonce = nonce_at 0,
      sh_read_buf = [], sh_read_state = R_salt, sh_read_pos = 0\<rparr>"
  have "ss_holds lib ?s pl" using assms(5) unfolding su_sent_def ss_holds_def by (auto simp: avail_def)
  then have "ss_owes lib ?s pl" using assms(1,4) by (simp add: ss_owes_def)
  then show ?thesis using assms(2,3) by (simp add: shadowed_new_def replicate_nonce)
qed

text \<open>
  C21: What is written through a Shadowsocks stream is exactly what a peer made with the same method
  and password reads, whatever the salt, however the socket splits the bytes it takes or gives and
  whatever the sizes of the reads; the writer ends and does not fail on a working socket.
\<close>

theorem ss_roundtrip:
  assumes "ss_lib_ok lib" "ss_cipher_parse meth = Some c" "written k = []" "sink_good k" "data \<noteq> []"
    "length data + length (slots k) < fuel"
  shows "\<exists>u0 u. ss_uplink_new lib k meth passwd = Some u0
    \<and> offer_all (ss_poll_write lib) fuel salts data u0 = (Some True, u)
    \<and> (\<forall>es caps. unbroken es \<and> arriving es = written (su_sink u) \<and> (\<forall>n \<in> set caps. 0 < n)
        \<and> length data + waits es < length caps \<longrightarrow>
        (\<exists>s. shadowed_new lib es meth passwd = Some s
          \<and> delivered (fst (read_many (ss_poll_read lib) caps s)) = data))"
proof -
  obtain psk where psk: "evp_bytes_to_key (lib_md5 lib) (as_bytes passwd) (ss_key_len c) = Some psk"
    using evp_bytes_to_key_ends [OF ss_lib_md5 [OF assms(1)]] by blast
  obtain u0 where u0: "ss_uplink_new lib k meth passwd = Some u0" "su_idle lib c psk u0 []" "su_sink u0 = k"
    using ss_uplink_new_idle [OF assms(2) psk assms(3)] by blast
  obtain u where u: "offer_all (ss_poll_write lib) fuel salts data u0 = (Some True, u)" "su_idle lib c psk u data"
    using ss_writer.write_all_succeeds [OF u0(2) _ assms(5), of fuel salts] assms(1,4,6) u0(3) by (auto simp: ss_fits_def)
  have "\<exists>s. shadowed_new lib es meth passwd = Some s \<and> delivered (fst (read_many (ss_poll_read lib) caps s)) = data"
    if a: "unbroken es" "arriving es = written (su_sink u)" "\<forall>n \<in> set caps. 0 < n" "length data + waits es < length caps" for es caps
  proof -
    obtain s where s: "shadowed_new lib es meth passwd = Some s" "ss_owes lib s data" "sh_inner s = es"
      using shadowed_new_owes [OF assms(1,2) psk a(1), of u data] su_idle_sent [OF u(2) assms(5)] a(2) by auto
    obtain rs v where rs: "read_many (ss_poll_read lib) caps s = (rs, v)" by fastforce
    have "delivered rs = data" using ss_reader.read_to_end(4) [OF s(2) a(3) rs] a(4) s(3) by simp
    then show ?thesis using s(1) rs by simp
  qed
  then show ?thesis using u0(1) u(1) by blast
qed

text \<open>An empty chunk is handed out as a read of no bytes, which a caller takes for the end, although
  the next read goes on with the chunk after it.\<close>

lemma ss_empty_chunk_ends_read:
  "sh_read_state s = R_pending 0 \<Longrightarrow> ss_poll_read lib cap s = (Ready [], s\<lparr>sh_read_state := R_length\<rparr>)"
  by (subst ss_poll_read.simps) (simp add: ss_round_def read_pending_def)

text \<open>A library whose cipher only tags, for evaluation.\<close>

definition tagging_lib :: ss_lib where
  "tagging_lib = \<lparr>lib_md5 = (\<lambda>bs. replicate 16 (word_of_nat (length bs))), lib_hkdf = (\<lambda>psk salt n. Some (resize n salt)),
     lib_seal = (\<lambda>c k n p. Some (map (\<lambda>b. b XOR 0x55) p, replicate TAG_LEN (n ! 0))),
     lib_open = (\<lambda>c k n ct tag. if tag = replicate TAG_LEN (n ! 0) then Some (map (\<lambda>b. b XOR 0x55) ct) else None)\<rparr>"

lemma tagging_lib_ok: "ss_lib_ok tagging_lib"
proof -
  have "map (\<lambda>b :: u8. b XOR 0x55) (map (\<lambda>b. b XOR 0x55) p) = p" for p
    by (induction p) (simp_all add: xor.assoc)
  moreover have "length (resize n bs) = n" for n and bs :: bytes by (simp add: resize_def)
  ultimately show ?thesis by (simp add: ss_lib_ok_def tagging_lib_def)
qed

theorem ss_roundtrip_witness:
  "\<exists>u0 u. ss_uplink_new tagging_lib \<lparr>slots = [Accept 30, Block, Accept 400], written = []\<rparr> ''aes-128-gcm'' ''pw'' = Some u0
    \<and> offer_all (ss_poll_write tagging_lib) 9 (\<lambda>i. [word_of_nat i]) [7, 8, 9] u0 = (Some True, u)
    \<and> (\<exists>s. shadowed_new tagging_lib [Data (take 20 (written (su_sink u))), Wait, Data (drop 20 (written (su_sink u)))]
          ''aes-128-gcm'' ''pw'' = Some s
        \<and> delivered (fst (read_many (ss_poll_read tagging_lib) [1, 1, 5, 5, 5] s)) = [7, 8, 9])"
proof -
  let ?k = "\<lparr>slots = [Accept 30, Block, Accept 400], written = []\<rparr>"
  have "ss_cipher_parse ''aes-128-gcm'' \<noteq> None" by code_simp
  then obtain c where c: "ss_cipher_parse ''aes-128-gcm'' = Some c" by blast
  have g: "sink_good ?k" by (simp add: sink_good_def)
  obtain u0 u where u: "ss_uplink_new tagging_lib ?k ''aes-128-gcm'' ''pw'' = Some u0"
    "offer_all (ss_poll_write tagging_lib) 9 (\<lambda>i. [word_of_nat i]) [7, 8, 9] u0 = (Some True, u)"
    "\<forall>es caps. unbroken es \<and> arriving es = written (su_sink u) \<and> (\<forall>n \<in> set caps. 0 < n)
        \<and> length [7 :: u8, 8, 9] + waits es < length caps \<longrightarrow>
        (\<exists>s. shadowed_new tagging_lib es ''aes-128-gcm'' ''pw'' = Some s
          \<and> delivered (fst (read_many (ss_poll_read tagging_lib) caps s)) = [7, 8, 9])"
    using ss_roundtrip [OF tagging_lib_ok c _ g, of "[7, 8, 9]" 9 "''pw''" "\<lambda>i. [word_of_nat i]"] by auto
  show ?thesis
    by (rule exI [of _ u0], rule exI [of _ u], rule conjI [OF u(1)], rule conjI [OF u(2)], rule u(3) [rule_format])
      (simp add: unbroken_def)
qed

end
