(* ===== verification/Rounds.thy ===== *)
theory Rounds
  imports ProxySink
begin

text \<open>
  Layers whose \<^verbatim>\<open>poll_read\<close> and \<^verbatim>\<open>poll_write\<close> are a \<^verbatim>\<open>loop { match state { .. } }\<close>: one turn of the loop
  either returns or goes on in a new state. The contracts of \<open>layered_reader\<close> and \<open>layered_writer\<close>
  follow from a condition on single turns and a well-founded order in which the turns go down.
\<close>

datatype ('r, 's) turn = Return 'r 's | Again 's

locale reader_rounds =
  fixes round :: "nat \<Rightarrow> 's \<Rightarrow> (bytes poll, 's) turn"
    and poll :: "nat \<Rightarrow> 's \<Rightarrow> bytes poll \<times> 's"
    and owes :: "'s \<Rightarrow> bytes \<Rightarrow> bool"
    and waiting :: "'s \<Rightarrow> nat"
    and below :: "('s \<times> 's) set"
  assumes wf_below: "wf below"
    and poll_return: "round cap s = Return r s' \<Longrightarrow> poll cap s = (r, s')"
    and poll_again: "round cap s = Again s' \<Longrightarrow> poll cap s = poll cap s'"
    and turn_return: "owes s pl \<Longrightarrow> 0 < cap \<Longrightarrow> round cap s = Return r s' \<Longrightarrow> step_delivers owes waiting pl s r s'"
    and turn_again: "owes s pl \<Longrightarrow> 0 < cap \<Longrightarrow> round cap s = Again s' \<Longrightarrow>
      owes s' pl \<and> waiting s' \<le> waiting s \<and> (s', s) \<in> below"
begin

lemma rounds_deliver:
  "owes s pl \<Longrightarrow> 0 < cap \<Longrightarrow> poll cap s = (r, s') \<Longrightarrow> step_delivers owes waiting pl s r s'"
  using wf_below
proof (induction s rule: wf_induct_rule)
  case (less s)
  show ?case
  proof (cases "round cap s")
    case (Return q t)
    then show ?thesis using turn_return [OF less.prems(1,2) Return] poll_return [OF Return] less.prems(3) by simp
  next
    case (Again t)
    note t = turn_again [OF less.prems(1,2) Again]
    have "step_delivers owes waiting pl t r s'"
      using less.IH [of t] t less.prems(2,3) poll_again [OF Again] by simp
    then show ?thesis using t by (cases r) (auto simp: step_delivers_def)
  qed
qed

end

sublocale reader_rounds \<subseteq> layered_reader poll owes waiting
  by unfold_locales (rule rounds_deliver)

text \<open>\<open>busy\<close> covers the states the loop of a write can be in.\<close>

locale writer_rounds =
  fixes round :: "'r \<Rightarrow> bytes \<Rightarrow> 's \<Rightarrow> (nat poll, 's) turn"
    and push :: "'r \<Rightarrow> bytes \<Rightarrow> 's \<Rightarrow> nat poll \<times> 's"
    and busy :: "'s \<Rightarrow> bytes \<Rightarrow> bytes \<Rightarrow> bool"
    and idle :: "'s \<Rightarrow> bytes \<Rightarrow> bool"
    and mid :: "'s \<Rightarrow> bytes \<Rightarrow> bytes \<Rightarrow> bool"
    and out :: "'s \<Rightarrow> sink"
    and fits :: "bytes \<Rightarrow> bool"
    and below :: "('s \<times> 's) set"
  assumes wf_turns: "wf below"
    and push_return: "round rnd data s = Return r s' \<Longrightarrow> push rnd data s = (r, s')"
    and push_again: "round rnd data s = Again s' \<Longrightarrow> push rnd data s = push rnd data s'"
    and turn_writes: "busy s acc data \<Longrightarrow> data \<noteq> [] \<Longrightarrow> fits data \<Longrightarrow> round rnd data s = Return r s' \<Longrightarrow>
      write_delivers idle mid out acc data s r s'"
    and turn_goes_on: "busy s acc data \<Longrightarrow> data \<noteq> [] \<Longrightarrow> fits data \<Longrightarrow> round rnd data s = Again s' \<Longrightarrow>
      busy s' acc data \<and> (s', s) \<in> below \<and> length (slots (out s')) \<le> length (slots (out s))
      \<and> (sink_good (out s) \<longrightarrow> sink_good (out s'))"
    and idle_busy: "idle s acc \<Longrightarrow> busy s acc data"
    and mid_busy: "mid s acc data \<Longrightarrow> busy s acc data"
    and fits_rest: "fits data \<Longrightarrow> fits (drop n data)"
begin

lemma rounds_push_deliver:
  "busy s acc data \<Longrightarrow> data \<noteq> [] \<Longrightarrow> fits data \<Longrightarrow> push rnd data s = (r, s') \<Longrightarrow>
   write_delivers idle mid out acc data s r s'"
  using wf_turns
proof (induction s rule: wf_induct_rule)
  case (less s)
  show ?case
  proof (cases "round rnd data s")
    case (Return q t)
    then show ?thesis using turn_writes [OF less.prems(1-3) Return] push_return [OF Return] less.prems(4) by simp
  next
    case (Again t)
    note t = turn_goes_on [OF less.prems(1-3) Again]
    have "write_delivers idle mid out acc data t r s'"
      using less.IH [of t] t less.prems(2-4) push_again [OF Again] by simp
    then show ?thesis by (rule write_delivers_weaken) (use t in simp_all)
  qed
qed

end

sublocale writer_rounds \<subseteq> layered_writer push idle mid out fits
  by unfold_locales (blast intro: rounds_push_deliver idle_busy mid_busy, rule fits_rest)

text \<open>Some layers report every end as \<open>UnexpectedEof\<close>; their callers take it for the end.\<close>

fun end_at_eof :: "bytes poll \<Rightarrow> bytes poll" where
  "end_at_eof (Failed UnexpectedEof) = Ready []"
| "end_at_eof r = r"

fun turn_end :: "(bytes poll, 's) turn \<Rightarrow> (bytes poll, 's) turn" where
  "turn_end (Return r s) = Return (end_at_eof r) s"
| "turn_end (Again s) = Again s"

end
