(* ===== verification/Obfs.thy ===== *)
theory Obfs
  imports WebSocket SsStream Rounds
begin

text \<open>
  \<^verbatim>\<open>crates/clash-proxynet/src/obfs.rs\<close>: the simple-obfs plugins, which make a stream look like an HTTP
  upgrade or like TLS records, and \<^verbatim>\<open>dial_ss\<close>, which stacks them under Shadowsocks (which layer a plugin
  asks for, or that it is refused, is in \<open>Nodes\<close>). Random bytes and the clock are arguments. The results:
  what is written through the HTTP layer is read back exactly by its reader; the TLS layer puts the first
  buffer into its hello and the rest into records that its reader undoes; a write of an empty buffer need
  not return.
\<close>

section \<open>The HTTP layer\<close>

subsection \<open>Reading\<close>

datatype http_read = H_header bytes | H_leftover bytes nat | H_transfer

record http_obfs =
  ho_inner :: inner_stream
  ho_read :: http_read

definition http_obfs_new :: "inner_stream \<Rightarrow> http_obfs" where
  "http_obfs_new es = \<lparr>ho_inner = es, ho_read = H_header []\<rparr>"

type_synonym http_turn = "(bytes poll, http_obfs) turn"

definition http_header :: "bytes \<Rightarrow> http_obfs \<Rightarrow> http_turn" where
  "http_header acc s =
     (if 4096 < length acc then Return (Failed OtherError) s
      else
        (case inner_read 256 (ho_inner s) of
           (Pending, es) \<Rightarrow> Return Pending (s\<lparr>ho_inner := es\<rparr>)
         | (Failed e, es) \<Rightarrow> Return (Failed e) (s\<lparr>ho_inner := es\<rparr>)
         | (Ready bs, es) \<Rightarrow>
             if bs = [] then Return (Failed UnexpectedEof) (s\<lparr>ho_inner := es\<rparr>)
             else
               (let acc = acc @ bs in
                case find_header_end acc of
                  Some pos \<Rightarrow> Again (s\<lparr>ho_inner := es, ho_read := H_leftover (drop pos acc) 0\<rparr>)
                | None \<Rightarrow> Again (s\<lparr>ho_inner := es, ho_read := H_header acc\<rparr>))))"

definition http_leftover :: "nat \<Rightarrow> bytes \<Rightarrow> nat \<Rightarrow> http_obfs \<Rightarrow> http_turn" where
  "http_leftover cap data pos s =
     (let remaining = length data - pos in
      if remaining = 0 then Again (s\<lparr>ho_read := H_transfer\<rparr>)
      else
        (let n = min remaining cap in
         Return (Ready (slice pos (pos + n) data))
           (s\<lparr>ho_read := (if pos + n = length data then H_transfer else H_leftover data (pos + n))\<rparr>)))"

definition http_round :: "nat \<Rightarrow> http_obfs \<Rightarrow> http_turn" where
  "http_round cap s =
     (case ho_read s of
        H_header acc \<Rightarrow> http_header acc s
      | H_leftover data pos \<Rightarrow> http_leftover cap data pos s
      | H_transfer \<Rightarrow> (case inner_read cap (ho_inner s) of (r, es) \<Rightarrow> Return r (s\<lparr>ho_inner := es\<rparr>)))"

definition http_rank :: "http_read \<Rightarrow> nat" where
  "http_rank r = (case r of H_header _ \<Rightarrow> 0 | H_leftover _ _ \<Rightarrow> 1 | H_transfer \<Rightarrow> 0)"

lemma http_round_shrinks:
  "http_round cap s = Again s' \<Longrightarrow>
   stream_size (ho_inner s') < stream_size (ho_inner s)
   \<or> stream_size (ho_inner s') = stream_size (ho_inner s) \<and> http_rank (ho_read s') < http_rank (ho_read s)"
  by (auto simp: http_round_def http_header_def http_leftover_def http_rank_def Let_def dest: inner_read_got
      split: http_read.splits prod.splits poll.splits if_splits option.splits)

function http_obfs_read :: "nat \<Rightarrow> http_obfs \<Rightarrow> bytes poll \<times> http_obfs" where
  "http_obfs_read cap s = (case http_round cap s of Return r s \<Rightarrow> (r, s) | Again s \<Rightarrow> http_obfs_read cap s)"
  by pat_completeness auto

termination http_obfs_read
  by (relation "measures [\<lambda>(cap, s). stream_size (ho_inner s), \<lambda>(cap, s). http_rank (ho_read s)]")
    (auto dest: http_round_shrinks)

declare http_obfs_read.simps [simp del]

subsection \<open>Writing\<close>

text \<open>What a request draws at random: the 16 bytes of the key and the two parts of the version.\<close>

type_synonym http_rnd = "128 word \<times> u32 \<times> u32"

definition ws_key :: "128 word \<Rightarrow> bytes" where
  "ws_key w = be_bytes 16 (unat w)"

definition http_request_head :: "b64_enc \<Rightarrow> rstr \<Rightarrow> rstr \<Rightarrow> http_rnd \<Rightarrow> nat \<Rightarrow> rstr" where
  "http_request_head b64 path host rnd n =
     (case rnd of (key, r1, r2) \<Rightarrow>
        ''GET '' @ (if path = [] then ''/'' else path) @ '' HTTP/1.1'' @ crlf @ ''Host: '' @ host @ crlf
        @ ''User-Agent: curl/7.'' @ show_nat (unat r1 mod 51) @ ''.'' @ show_nat (unat r2 mod 2) @ crlf
        @ ''Upgrade: websocket'' @ crlf @ ''Connection: Upgrade'' @ crlf
        @ ''Sec-WebSocket-Key: '' @ b64 (ws_key key) @ crlf @ ''Content-Length: '' @ show_nat n @ crlf @ crlf)"

definition build_http_request :: "b64_enc \<Rightarrow> rstr \<Rightarrow> rstr \<Rightarrow> http_rnd \<Rightarrow> bytes \<Rightarrow> bytes" where
  "build_http_request b64 path host rnd body =
     as_bytes (http_request_head b64 path host rnd (length body)) @ body"

datatype http_write = Hw_first | Hw_flush bytes nat | Hw_transfer

record http_uplink =
  hu_path :: rstr
  hu_host :: rstr
  hu_write :: http_write
  hu_sink :: sink

definition http_uplink_new :: "sink \<Rightarrow> rstr \<Rightarrow> rstr \<Rightarrow> http_uplink" where
  "http_uplink_new k path host = \<lparr>hu_path = path, hu_host = host, hu_write = Hw_first, hu_sink = k\<rparr>"

text \<open>\<^verbatim>\<open>poll_write_buf\<close> writes what is left of a cursor and advances it; with nothing left it reports 0.\<close>

definition write_buf :: "bytes \<Rightarrow> nat \<Rightarrow> sink \<Rightarrow> nat poll \<times> nat \<times> sink" where
  "write_buf data pos k =
     (if length data \<le> pos then (Ready 0, pos, k)
      else (case sink_write (drop pos data) k of
              (Ready n, k) \<Rightarrow> (Ready n, pos + n, k)
            | (r, k) \<Rightarrow> (r, pos, k)))"

definition http_write_round :: "b64_enc \<Rightarrow> http_rnd \<Rightarrow> bytes \<Rightarrow> http_uplink \<Rightarrow> (nat poll, http_uplink) turn" where
  "http_write_round b64 rnd buf u =
     (case hu_write u of
        Hw_first \<Rightarrow> Again (u\<lparr>hu_write := Hw_flush (build_http_request b64 (hu_path u) (hu_host u) rnd buf) 0\<rparr>)
      | Hw_flush data pos \<Rightarrow>
          (case write_buf data pos (hu_sink u) of
             (Pending, pos, k) \<Rightarrow> Return Pending (u\<lparr>hu_sink := k, hu_write := Hw_flush data pos\<rparr>)
           | (Failed e, pos, k) \<Rightarrow> Return (Failed e) (u\<lparr>hu_sink := k, hu_write := Hw_flush data pos\<rparr>)
           | (Ready _, pos, k) \<Rightarrow>
               if length data \<le> pos then Return (Ready (length buf)) (u\<lparr>hu_sink := k, hu_write := Hw_transfer\<rparr>)
               else Again (u\<lparr>hu_sink := k, hu_write := Hw_flush data pos\<rparr>))
      | Hw_transfer \<Rightarrow> (case sink_write buf (hu_sink u) of (r, k) \<Rightarrow> Return r (u\<lparr>hu_sink := k\<rparr>)))"

definition http_write_rank :: "http_uplink \<Rightarrow> nat" where
  "http_write_rank u = length (slots (hu_sink u)) + (case hu_write u of Hw_first \<Rightarrow> 1 | _ \<Rightarrow> 0)"

text \<open>A write that does not end the buffer has used up one of the sink's turns.\<close>

lemma write_buf_spec:
  assumes "write_buf data pos k = (r, pos', k')" "pos \<le> length data"
  shows "pos \<le> pos' \<and> pos' \<le> length data \<and> written k' = written k @ slice pos pos' data
    \<and> length (slots k') \<le> length (slots k)
    \<and> (pos' < length data \<longrightarrow> length (slots k') < length (slots k))
    \<and> (r = Pending \<longrightarrow> pos' = pos \<and> pos < length data)
    \<and> (sink_good k \<longrightarrow> sink_good k' \<and> (\<forall>e. r \<noteq> Failed e))"
  using assms
  by (auto simp: write_buf_def sink_write_def slice_def sink_good_def min_def split: if_splits list.splits write_slot.splits)

lemma http_write_round_shrinks:
  "http_write_round b64 rnd buf u = Again u' \<Longrightarrow> http_write_rank u' < http_write_rank u"
  by (auto simp: http_write_round_def http_write_rank_def write_buf_def sink_write_def
      split: http_write.splits prod.splits poll.splits if_splits list.splits write_slot.splits)

function http_obfs_write :: "b64_enc \<Rightarrow> http_rnd \<Rightarrow> bytes \<Rightarrow> http_uplink \<Rightarrow> nat poll \<times> http_uplink" where
  "http_obfs_write b64 rnd buf u =
     (case http_write_round b64 rnd buf u of Return r u \<Rightarrow> (r, u) | Again u \<Rightarrow> http_obfs_write b64 rnd buf u)"
  by pat_completeness auto

termination http_obfs_write
  by (relation "measure (\<lambda>(b64, rnd, buf, u). http_write_rank u)") (auto dest: http_write_round_shrinks)

declare http_obfs_write.simps [simp del]

subsection \<open>The reader's contract\<close>

text \<open>A head ends with the first empty line.\<close>

definition http_head :: "bytes \<Rightarrow> bool" where
  "http_head head \<longleftrightarrow> find_header_end head = Some (length head) \<and> length head \<le> 4096"

definition ho_owes :: "http_obfs \<Rightarrow> bytes \<Rightarrow> bool" where
  "ho_owes s pl \<longleftrightarrow> unbroken (ho_inner s) \<and>
     (case ho_read s of
        H_header acc \<Rightarrow> (\<exists>head. http_head head \<and> length acc < length head \<and> acc @ arriving (ho_inner s) = head @ pl)
      | H_leftover data pos \<Rightarrow> pos \<le> length data \<and> pl = drop pos data @ arriving (ho_inner s)
      | H_transfer \<Rightarrow> pl = arriving (ho_inner s))"

abbreviation ho_waits :: "http_obfs \<Rightarrow> nat" where
  "ho_waits s \<equiv> waits (ho_inner s)"

definition ho_below :: "(http_obfs \<times> http_obfs) set" where
  "ho_below = measures [\<lambda>s. stream_size (ho_inner s), \<lambda>s. http_rank (ho_read s)]"

definition ho_good :: "bytes \<Rightarrow> http_obfs \<Rightarrow> http_turn \<Rightarrow> bool" where
  "ho_good pl s x \<longleftrightarrow>
     (case x of
        Return r s' \<Rightarrow> step_delivers ho_owes ho_waits pl s r s'
      | Again s' \<Rightarrow> ho_owes s' pl \<and> ho_waits s' \<le> ho_waits s)"

lemma http_header_good:
  assumes "ho_owes s pl" "ho_read s = H_header acc"
  shows "ho_good pl s (http_header acc s)"
proof -
  obtain head where h: "http_head head" "length acc < length head" "acc @ arriving (ho_inner s) = head @ pl"
    and u: "unbroken (ho_inner s)" using assms by (auto simp: ho_owes_def)
  have lt: "\<not> 4096 < length acc" using h(1,2) by (simp add: http_head_def)
  obtain r es where r: "inner_read 256 (ho_inner s) = (r, es)" by fastforce
  have un: "unbroken es" "\<forall>e. r \<noteq> Failed e" "waits es \<le> ho_waits s" "r = Pending \<Longrightarrow> waits es < ho_waits s"
    using inner_read_unbroken [OF u r] by auto
  note ar = inner_read_arriving [OF r]
  show ?thesis
  proof (cases r)
    case Pending
    then have "ho_owes (s\<lparr>ho_inner := es\<rparr>) pl" using h un(1) ar assms(2) by (auto simp: ho_owes_def)
    then show ?thesis using Pending r lt un by (simp add: http_header_def ho_good_def step_delivers_def)
  next
    case (Failed e)
    then show ?thesis using un(2) by simp
  next
    case (Ready bs)
    have ne: "bs \<noteq> []"
    proof
      assume "bs = []"
      then have "arriving (ho_inner s) = []" using inner_read_eof [of 256] r Ready by simp
      then show False using h(2,3) by (metis append_Nil2 append_eq_append_conv_if le_antisym length_append less_imp_le_nat
            linorder_not_less nat_le_iff_add)
    qed
    have sp: "(acc @ bs) @ arriving es = head @ pl" using ar h(3) Ready by simp
    have fh: "find_header_end head = Some (length head)" using h(1) by (simp add: http_head_def)
    note f = header_end_found [OF fh sp]
    show ?thesis
    proof (cases "length head \<le> length (acc @ bs)")
      case True
      have "drop (length head) (acc @ bs) @ arriving es = pl"
        using sp True by (metis append_eq_append_conv_if append_take_drop_id same_append_eq)
      then have "ho_owes (s\<lparr>ho_inner := es, ho_read := H_leftover (drop (length head) (acc @ bs)) 0\<rparr>) pl"
        using un(1) by (simp add: ho_owes_def)
      then show ?thesis using Ready r lt ne f True un(3) by (simp add: http_header_def ho_good_def)
    next
      case False
      then have "ho_owes (s\<lparr>ho_inner := es, ho_read := H_header (acc @ bs)\<rparr>) pl"
        using un(1) h(1) sp by (auto simp: ho_owes_def)
      then show ?thesis using Ready r lt ne f False un(3) by (simp add: http_header_def ho_good_def)
    qed
  qed
qed

lemma http_leftover_good:
  assumes "ho_owes s pl" "ho_read s = H_leftover data pos" "0 < cap"
  shows "ho_good pl s (http_leftover cap data pos s)"
proof -
  have h: "pos \<le> length data" "pl = drop pos data @ arriving (ho_inner s)" "unbroken (ho_inner s)"
    using assms(1,2) by (auto simp: ho_owes_def)
  show ?thesis
  proof (cases "pos = length data")
    case True
    then show ?thesis using h by (simp add: http_leftover_def ho_good_def ho_owes_def)
  next
    case False
    define n where "n = min (length data - pos) cap"
    have n: "0 < n" "pos + n \<le> length data" using False h(1) assms(3) by (auto simp: n_def)
    have "drop pos data = slice pos (pos + n) data @ drop (pos + n) data"
      by (simp add: slice_def add.commute flip: drop_drop)
    then have pl: "pl = slice pos (pos + n) data @ drop (pos + n) data @ arriving (ho_inner s)" using h(2) by simp
    have "slice pos (pos + n) data \<noteq> []" using n by (simp add: slice_def)
    then show ?thesis using False h(1,3) n pl unfolding http_leftover_def ho_good_def Let_def n_def [symmetric]
      by (auto simp: step_delivers_def ho_owes_def)
  qed
qed

lemma http_round_good:
  assumes "ho_owes s pl" "0 < cap"
  shows "ho_good pl s (http_round cap s)"
proof (cases "ho_read s")
  case (H_header acc)
  then show ?thesis using http_header_good [OF assms(1)] by (simp add: http_round_def)
next
  case (H_leftover data pos)
  then show ?thesis using http_leftover_good [OF assms(1) _ assms(2)] by (simp add: http_round_def)
next
  case H_transfer
  then have o: "stream_owes (ho_inner s) pl" using assms(1) by (simp add: ho_owes_def stream_owes_def)
  obtain r es where r: "inner_read cap (ho_inner s) = (r, es)" by fastforce
  have "step_delivers stream_owes waits pl (ho_inner s) r es" by (rule inner.step [OF o assms(2) r])
  then show ?thesis using r H_transfer
    by (cases r) (auto simp: http_round_def ho_good_def step_delivers_def ho_owes_def stream_owes_def)
qed

interpretation http_reader: reader_rounds http_round http_obfs_read ho_owes ho_waits ho_below
proof (unfold_locales, goal_cases)
  case 1
  then show ?case by (simp add: ho_below_def)
next
  case (2 cap s r s')
  then show ?case by (subst http_obfs_read.simps) simp
next
  case (3 cap s s')
  then show ?case by (subst http_obfs_read.simps) simp
next
  case (4 s pl cap r s')
  then show ?case using http_round_good [of s pl cap] by (simp add: ho_good_def)
next
  case (5 s pl cap s')
  then show ?case using http_round_good [of s pl cap] http_round_shrinks [of cap s s'] by (simp add: ho_good_def ho_below_def)
qed

subsection \<open>The writer's contract\<close>

text \<open>The first buffer travels as the body of a request, everything after it as it is.\<close>

definition http_carries :: "b64_enc \<Rightarrow> rstr \<Rightarrow> rstr \<Rightarrow> bytes \<Rightarrow> bytes \<Rightarrow> bool" where
  "http_carries b64 path host w acc \<longleftrightarrow>
     (\<exists>rnd body later. acc = body @ later \<and> w = build_http_request b64 path host rnd body @ later)"

definition is_request :: "b64_enc \<Rightarrow> rstr \<Rightarrow> rstr \<Rightarrow> bytes \<Rightarrow> bytes \<Rightarrow> bool" where
  "is_request b64 path host body d \<longleftrightarrow> (\<exists>rnd. d = build_http_request b64 path host rnd body)"

lemma is_request_build: "is_request b64 path host body (build_http_request b64 path host rnd body)"
  unfolding is_request_def by (rule exI [of _ rnd]) (rule refl)

definition hu_busy :: "b64_enc \<Rightarrow> rstr \<Rightarrow> rstr \<Rightarrow> http_uplink \<Rightarrow> bytes \<Rightarrow> bytes \<Rightarrow> bool" where
  "hu_busy b64 path host u acc data \<longleftrightarrow> hu_path u = path \<and> hu_host u = host \<and>
     (case hu_write u of
        Hw_first \<Rightarrow> acc = [] \<and> written (hu_sink u) = []
      | Hw_flush d pos \<Rightarrow> acc = [] \<and> is_request b64 path host data d \<and> pos < length d \<and> written (hu_sink u) = take pos d
      | Hw_transfer \<Rightarrow> http_carries b64 path host (written (hu_sink u)) acc)"

definition hu_idle :: "b64_enc \<Rightarrow> rstr \<Rightarrow> rstr \<Rightarrow> http_uplink \<Rightarrow> bytes \<Rightarrow> bool" where
  "hu_idle b64 path host u acc \<longleftrightarrow> hu_busy b64 path host u acc [] \<and> (hu_write u = Hw_first \<or> hu_write u = Hw_transfer)"

lemma hu_idle_busy: "hu_idle b64 path host u acc \<Longrightarrow> hu_busy b64 path host u acc data"
  by (auto simp: hu_idle_def hu_busy_def)

lemma request_not_empty: "0 < length (build_http_request b64 path host rnd body)"
  by (simp add: build_http_request_def http_request_head_def split: prod.splits)

lemma carries_more: "http_carries b64 path host w acc \<Longrightarrow> http_carries b64 path host (w @ x) (acc @ x)"
  unfolding http_carries_def by (metis append.assoc)

lemma carries_first: "is_request b64 path host body d \<Longrightarrow> http_carries b64 path host d body"
  unfolding http_carries_def is_request_def by (metis append_Nil2)

abbreviation hu_delivers where
  "hu_delivers b64 path host \<equiv> write_delivers (hu_idle b64 path host) (hu_busy b64 path host) hu_sink"

lemma flush_turn:
  assumes "hu_busy b64 path host u acc data" "data \<noteq> []" "hu_write u = Hw_flush d pos"
  shows "case http_write_round b64 rnd data u of
      Return r u' \<Rightarrow> hu_delivers b64 path host acc data u r u'
    | Again u' \<Rightarrow> hu_busy b64 path host u' acc data \<and> length (slots (hu_sink u')) \<le> length (slots (hu_sink u))
        \<and> (sink_good (hu_sink u) \<longrightarrow> sink_good (hu_sink u'))"
proof -
  have h: "hu_path u = path" "hu_host u = host" "acc = []" "is_request b64 path host data d"
    "pos < length d" "written (hu_sink u) = take pos d" using assms(1,3) by (auto simp: hu_busy_def)
  obtain r pos' k where w: "write_buf d pos (hu_sink u) = (r, pos', k)" by (metis surj_pair)
  note sp = write_buf_spec [OF w less_imp_le_nat [OF h(5)]]
  have wr: "written k = take pos' d" using sp h(6) take_slice [of pos pos' d] by simp
  show ?thesis
  proof (cases r)
    case Pending
    then have "hu_busy b64 path host (u\<lparr>hu_sink := k, hu_write := Hw_flush d pos'\<rparr>) acc data"
      using h sp wr by (auto simp: hu_busy_def)
    then show ?thesis using Pending w assms(3) sp by (simp add: http_write_round_def write_delivers_def)
  next
    case (Failed e)
    then show ?thesis using w assms(3) sp by (auto simp: http_write_round_def write_delivers_def)
  next
    case (Ready n)
    show ?thesis
    proof (cases "length d \<le> pos'")
      case True
      then have "http_carries b64 path host (written k) data" using wr carries_first [OF h(4)] by simp
      then have "hu_idle b64 path host (u\<lparr>hu_sink := k, hu_write := Hw_transfer\<rparr>) (acc @ take (length data) data)"
        using h by (simp add: hu_idle_def hu_busy_def)
      then show ?thesis using Ready True w assms(2,3) sp by (simp add: http_write_round_def write_delivers_def)
    next
      case False
      then have "hu_busy b64 path host (u\<lparr>hu_sink := k, hu_write := Hw_flush d pos'\<rparr>) acc data"
        using h wr by (auto simp: hu_busy_def)
      then show ?thesis using Ready False w assms(3) sp by (simp add: http_write_round_def)
    qed
  qed
qed

lemma transfer_turn:
  assumes "hu_busy b64 path host u acc data" "data \<noteq> []" "hu_write u = Hw_transfer"
  shows "\<exists>r u'. http_write_round b64 rnd data u = Return r u' \<and> hu_delivers b64 path host acc data u r u'"
proof -
  obtain r k where w: "sink_write data (hu_sink u) = (r, k)" by fastforce
  note sp = sink_write_spec [OF w] and good = sink_write_good [OF _ w]
  have h: "hu_path u = path" "hu_host u = host" "http_carries b64 path host (written (hu_sink u)) acc"
    using assms(1,3) by (auto simp: hu_busy_def)
  have i: "hu_idle b64 path host (u\<lparr>hu_sink := k\<rparr>) (acc @ x)" if "written k = written (hu_sink u) @ x" for x
    using that h carries_more [OF h(3), of x] assms(3) by (simp add: hu_idle_def hu_busy_def)
  have "hu_delivers b64 path host acc data u r (u\<lparr>hu_sink := k\<rparr>)"
  proof (cases r)
    case (Ready n)
    then show ?thesis using sp(1) sp(3) [OF Ready] good assms(2) i by (auto simp: write_delivers_def)
  next
    case Pending
    then show ?thesis using sp(1) sp(2) [OF Pending] good i [of "[]"] by (auto simp: write_delivers_def)
  next
    case (Failed e)
    then show ?thesis using sp(1) good by (auto simp: write_delivers_def)
  qed
  then show ?thesis using w assms(3) by (simp add: http_write_round_def)
qed

lemma http_write_turn:
  assumes "hu_busy b64 path host u acc data" "data \<noteq> []"
  shows "case http_write_round b64 rnd data u of
      Return r u' \<Rightarrow> hu_delivers b64 path host acc data u r u'
    | Again u' \<Rightarrow> hu_busy b64 path host u' acc data \<and> length (slots (hu_sink u')) \<le> length (slots (hu_sink u))
        \<and> (sink_good (hu_sink u) \<longrightarrow> sink_good (hu_sink u'))"
proof (cases "hu_write u")
  case Hw_first
  then have "hu_busy b64 path host (u\<lparr>hu_write := Hw_flush (build_http_request b64 (hu_path u) (hu_host u) rnd data) 0\<rparr>) acc data"
    using assms(1) request_not_empty is_request_build by (auto simp: hu_busy_def)
  then show ?thesis using Hw_first by (simp add: http_write_round_def)
next
  case (Hw_flush d pos)
  show ?thesis by (rule flush_turn [OF assms Hw_flush])
next
  case Hw_transfer
  then show ?thesis using transfer_turn [OF assms Hw_transfer, of rnd] by auto
qed

definition any_data :: "bytes \<Rightarrow> bool" where "any_data data = True"

interpretation http_writer: writer_rounds "http_write_round b64" "http_obfs_write b64" "hu_busy b64 path host"
  "hu_idle b64 path host" "hu_busy b64 path host" hu_sink any_data "measure http_write_rank" for b64 path host
proof (unfold_locales, goal_cases)
  case (2 rnd data s r s')
  then show ?case by (subst http_obfs_write.simps) simp
next
  case (3 rnd data s s')
  then show ?case by (subst http_obfs_write.simps) simp
next
  case (4 s acc data rnd r s')
  then show ?case using http_write_turn [of b64 path host s acc data rnd] by simp
next
  case (5 s acc data rnd s')
  then show ?case using http_write_turn [of b64 path host s acc data rnd] http_write_round_shrinks [of b64 rnd data s s']
    by simp
qed (simp_all add: hu_idle_busy any_data_def)

subsection \<open>The head of a request ends at its empty line\<close>

lemma find_sub_skip: "c \<notin> set l \<Longrightarrow> find_sub (c # p) (l @ y) = map_option (\<lambda>i. length l + i) (find_sub (c # p) y)"
  by (induction l; cases "find_sub (c # p) y") simp_all

lemma find_crlf2:
  "find_sub CRLFCRLF (13 # 10 # 13 # 10 # y) = Some 0"
  "c \<noteq> 13 \<Longrightarrow> find_sub CRLFCRLF (13 # 10 # c # y) = map_option (\<lambda>i. 2 + i) (find_sub CRLFCRLF (c # y))"
  by (auto simp: CRLFCRLF_def option.map_comp comp_def)

definition line_ok :: "bytes \<Rightarrow> bool" where
  "line_ok l \<longleftrightarrow> l \<noteq> [] \<and> 13 \<notin> set l"

definition head_of :: "bytes list \<Rightarrow> bytes" where
  "head_of ls = concat (map (\<lambda>l. l @ [13, 10]) ls) @ [13, 10]"

lemma find_head_of: "ls \<noteq> [] \<Longrightarrow> list_all line_ok ls \<Longrightarrow> find_sub CRLFCRLF (head_of ls) = Some (length (head_of ls) - 4)"
proof (induction ls)
  case (Cons l ls)
  then have l: "13 \<notin> set l" by (simp add: line_ok_def)
  have sk: "find_sub CRLFCRLF (l @ y) = map_option (\<lambda>i. length l + i) (find_sub CRLFCRLF y)" for y
    unfolding CRLFCRLF_def by (rule find_sub_skip [OF l])
  show ?case
  proof (cases ls)
    case Nil
    then show ?thesis using sk [of "[13, 10, 13, 10]"] find_crlf2(1) [of "[]"] by (simp add: head_of_def)
  next
    case c: (Cons m ms)
    then obtain b bs where m: "m = b # bs" "b \<noteq> 13" using Cons.prems(2) by (cases m) (auto simp: line_ok_def)
    have e: "head_of (l # ls) = l @ 13 # 10 # head_of ls" by (simp add: head_of_def)
    have h: "head_of ls = b # tl (head_of ls)" using c m by (simp add: head_of_def)
    have "find_sub CRLFCRLF (head_of (l # ls))
        = map_option (\<lambda>i. length l + i) (find_sub CRLFCRLF (13 # 10 # b # tl (head_of ls)))"
      unfolding e sk by (subst h) (rule refl)
    also have "\<dots> = map_option (\<lambda>i. length l + i) (map_option (\<lambda>i. 2 + i) (find_sub CRLFCRLF (head_of ls)))"
      by (subst (2) h) (simp only: find_crlf2(2) [OF m(2)])
    also have "\<dots> = Some (length (head_of (l # ls)) - 4)"
      using Cons.IH Cons.prems(2) c m(1) e by (simp del: find_sub.simps) (simp add: head_of_def)
    finally show ?thesis .
  qed
qed simp

lemma header_end_head_of:
  assumes "ls \<noteq> []" "list_all line_ok ls"
  shows "find_header_end (head_of ls) = Some (length (head_of ls))"
proof -
  obtain l ls' where "ls = l # ls'" "l \<noteq> []" using assms by (cases ls) (auto simp: line_ok_def)
  then have "4 \<le> length (head_of ls)" by (cases l) (auto simp: head_of_def)
  then show ?thesis using find_head_of [OF assms] by (simp add: find_header_end_def)
qed

definition request_lines :: "b64_enc \<Rightarrow> rstr \<Rightarrow> rstr \<Rightarrow> http_rnd \<Rightarrow> nat \<Rightarrow> rstr list" where
  "request_lines b64 path host rnd n =
     (case rnd of (key, r1, r2) \<Rightarrow>
        [''GET '' @ (if path = [] then ''/'' else path) @ '' HTTP/1.1'', ''Host: '' @ host,
         ''User-Agent: curl/7.'' @ show_nat (unat r1 mod 51) @ ''.'' @ show_nat (unat r2 mod 2),
         ''Upgrade: websocket'', ''Connection: Upgrade'', ''Sec-WebSocket-Key: '' @ b64 (ws_key key), ''Content-Length: '' @ show_nat n])"

lemma byte_13: "byte_of (CHR 13) = 13" by (simp add: byte_of_def)

lemma byte_10: "byte_of (CHR 10) = 10" by (simp add: byte_of_def)

lemma no_cr_bytes: "13 \<in> set (as_bytes s) \<longleftrightarrow> CHR 13 \<in> set s"
  unfolding byte_13 [symmetric] as_bytes_def by auto

lemma request_head_lines:
  "as_bytes (http_request_head b64 path host rnd n) = head_of (map as_bytes (request_lines b64 path host rnd n))"
  by (cases rnd) (simp add: http_request_head_def request_lines_def head_of_def as_bytes_def crlf_def byte_13 byte_10)

definition no_cr :: "rstr \<Rightarrow> bool" where
  "no_cr s \<longleftrightarrow> CHR 13 \<notin> set s"

lemma no_cr_simps: "no_cr (s @ t) \<longleftrightarrow> no_cr s \<and> no_cr t" "no_cr (c # s) \<longleftrightarrow> c \<noteq> CHR 13 \<and> no_cr s" "no_cr []" "no_cr (show_nat n)"
  using show_nat_digits [of "CHR 13" n] by (auto simp: no_cr_def is_digit_def code_of_def)

text \<open>The base64 text of a key.\<close>

definition key_text_ok :: "b64_enc \<Rightarrow> bool" where
  "key_text_ok b64 \<longleftrightarrow> (\<forall>key. length key = 16 \<longrightarrow> no_cr (b64 key) \<and> length (b64 key) = 24)"

lemma length_show_nat: "n < 10 ^ k \<Longrightarrow> 0 < k \<Longrightarrow> length (show_nat n) \<le> k"
proof (induction k arbitrary: n)
  case (Suc k)
  show ?case
  proof (cases "n < 10")
    case True
    then show ?thesis by (simp add: show_nat.simps [of n])
  next
    case False
    then have "k \<noteq> 0" using Suc.prems(1) by (cases k) auto
    moreover have "n div 10 < 10 ^ k" using Suc.prems(1) by (simp add: less_mult_imp_div_less mult.commute)
    ultimately show ?thesis using Suc.IH [of "n div 10"] False by (simp add: show_nat.simps [of n])
  qed
qed simp

lemma request_head_short:
  assumes "key_text_ok b64" "length path + length host \<le> 3800" "n < 10 ^ 20"
  shows "length (http_request_head b64 path host rnd n) \<le> 4096"
proof -
  obtain key r1 r2 where r: "rnd = (key, r1, r2)" by (metis surj_pair)
  have "length (b64 (ws_key key)) = 24" using assms(1) by (simp add: key_text_ok_def ws_key_def)
  moreover have "length (show_nat n) \<le> 20" using length_show_nat [OF assms(3)] by simp
  moreover have "length (show_nat (unat r1 mod 51)) \<le> 2" "length (show_nat (unat r2 mod 2)) \<le> 1"
    by (rule length_show_nat; simp)+
  ultimately show ?thesis using assms(2) by (simp add: r http_request_head_def crlf_def)
qed

lemma request_head_ends:
  assumes "no_cr path" "no_cr host" "key_text_ok b64"
  shows "find_header_end (as_bytes (http_request_head b64 path host rnd n)) = Some (length (http_request_head b64 path host rnd n))"
proof -
  have "line_ok (as_bytes l)" if "l \<in> set (request_lines b64 path host rnd n)" for l
  proof -
    have "l \<noteq> [] \<and> no_cr l" using that assms by (cases rnd) (auto simp: request_lines_def no_cr_simps key_text_ok_def ws_key_def)
    then show ?thesis using no_cr_bytes [of l] by (simp add: line_ok_def no_cr_def as_bytes_def)
  qed
  then have "list_all line_ok (map as_bytes (request_lines b64 path host rnd n))" by (simp add: list_all_iff)
  moreover have "map as_bytes (request_lines b64 path host rnd n) \<noteq> []" by (cases rnd) (simp add: request_lines_def)
  ultimately have "find_header_end (head_of (map as_bytes (request_lines b64 path host rnd n)))
      = Some (length (head_of (map as_bytes (request_lines b64 path host rnd n))))" by (intro header_end_head_of)
  then show ?thesis unfolding request_head_lines [symmetric] by simp
qed

lemma hu_idle_carries: "hu_idle b64 path host u acc \<Longrightarrow> acc \<noteq> [] \<Longrightarrow> http_carries b64 path host (written (hu_sink u)) acc"
  by (auto simp: hu_idle_def hu_busy_def)

text \<open>
  C25: what is written through the HTTP layer is delivered, without the head of the request, by the
  reader of the same layer, for any random draws, partial writes, chunking and sizes of the reads,
  when neither path nor host breaks its line and the head fits the reader's 4096 bytes.
\<close>

theorem http_obfs_roundtrip:
  assumes "no_cr path" "no_cr host" "key_text_ok b64"
    and "length path + length host \<le> 3800" "length data < 10 ^ 20"
    and "written k = []" "sink_good k" "data \<noteq> []" "length data + length (slots k) < fuel"
  shows "\<exists>u. offer_all (http_obfs_write b64) fuel rnds data (http_uplink_new k path host) = (Some True, u)
    \<and> (\<forall>es caps. unbroken es \<and> arriving es = written (hu_sink u) \<and> (\<forall>n \<in> set caps. 0 < n)
        \<and> length data + waits es < length caps \<longrightarrow>
        delivered (fst (read_many http_obfs_read caps (http_obfs_new es))) = data)"
proof -
  have "hu_idle b64 path host (http_uplink_new k path host) []"
    using assms(6) by (simp add: hu_idle_def hu_busy_def http_uplink_new_def)
  then obtain u where u: "offer_all (http_obfs_write b64) fuel rnds data (http_uplink_new k path host) = (Some True, u)"
    "hu_idle b64 path host u data"
    using http_writer.write_all_succeeds [of b64 path host "http_uplink_new k path host" data fuel rnds] assms(7-9)
    by (auto simp: http_uplink_new_def any_data_def)
  obtain rnd body later where w: "data = body @ later" "written (hu_sink u) = build_http_request b64 path host rnd body @ later"
    using hu_idle_carries [OF u(2) assms(8)] unfolding http_carries_def by blast
  let ?head = "as_bytes (http_request_head b64 path host rnd (length body))"
  have head: "http_head ?head" using request_head_ends [OF assms(1-3)] request_head_short [OF assms(3,4)] assms(5) w(1)
    by (simp add: http_head_def)
  have ne: "?head \<noteq> []" by (cases rnd) (simp add: http_request_head_def as_bytes_def)
  have "delivered (fst (read_many http_obfs_read caps (http_obfs_new es))) = data"
    if a: "unbroken es" "arriving es = written (hu_sink u)" "\<forall>n \<in> set caps. 0 < n" "length data + waits es < length caps" for es caps
  proof -
    have "arriving es = ?head @ data" using a(2) w by (simp add: build_http_request_def)
    then have "ho_owes (http_obfs_new es) data"
      using a(1) head ne unfolding ho_owes_def http_obfs_new_def by (auto intro!: exI [of _ ?head])
    moreover obtain rs v where rs: "read_many http_obfs_read caps (http_obfs_new es) = (rs, v)" by fastforce
    ultimately show ?thesis using http_reader.read_to_end(4) [OF _ a(3) rs] a(4) by (simp add: http_obfs_new_def)
  qed
  then show ?thesis using u(1) by blast
qed

theorem http_obfs_roundtrip_witness:
  "\<exists>u. offer_all (http_obfs_write (\<lambda>_. replicate 24 (CHR ''A''))) 9 (\<lambda>i. (5, 3, word_of_nat i)) [7, 8, 9]
        (http_uplink_new \<lparr>slots = [Accept 30, Block, Accept 400], written = []\<rparr> ''/a'' ''h.org'') = (Some True, u)
    \<and> delivered (fst (read_many http_obfs_read [1, 1, 5, 5, 5]
        (http_obfs_new [Data (take 20 (written (hu_sink u))), Wait, Data (drop 20 (written (hu_sink u)))]))) = [7, 8, 9]"
proof -
  let ?k = "\<lparr>slots = [Accept 30, Block, Accept 400], written = []\<rparr>"
  have b: "key_text_ok (\<lambda>_. replicate 24 (CHR ''A''))" by (simp add: key_text_ok_def no_cr_def)
  have c: "no_cr ''/a''" "no_cr ''h.org''" by (simp_all add: no_cr_def)
  have g: "sink_good ?k" by (simp add: sink_good_def)
  obtain u where u: "offer_all (http_obfs_write (\<lambda>_. replicate 24 (CHR ''A''))) 9 (\<lambda>i. (5, 3, word_of_nat i)) [7, 8, 9]
        (http_uplink_new ?k ''/a'' ''h.org'') = (Some True, u)"
    "\<forall>es caps. unbroken es \<and> arriving es = written (hu_sink u) \<and> (\<forall>n \<in> set caps. 0 < n)
        \<and> length [7 :: u8, 8, 9] + waits es < length caps \<longrightarrow>
        delivered (fst (read_many http_obfs_read caps (http_obfs_new es))) = [7, 8, 9]"
    using http_obfs_roundtrip [OF c b _ _ _ g, of "[7, 8, 9]" 9 "\<lambda>i. (5, 3, word_of_nat i)"] by auto
  show ?thesis
    by (rule exI [of _ u], rule conjI [OF u(1)], rule u(2) [rule_format]) (simp add: unbroken_def)
qed

section \<open>The TLS layer\<close>

definition TLS_RECORD :: bytes where "TLS_RECORD = [0x17, 0x03, 0x03]"
definition HELLO_SKIP :: nat where "HELLO_SKIP = 96 + 6 + 3"
definition TLS_MAX :: nat where "TLS_MAX = 16 * 1024"

subsection \<open>Reading\<close>

datatype tls_read = T_skip nat | T_hdr nat bytes | T_body nat

record tls_obfs =
  to_inner :: inner_stream
  to_read :: tls_read

definition tls_obfs_new :: "inner_stream \<Rightarrow> tls_obfs" where
  "tls_obfs_new es = \<lparr>to_inner = es, to_read = T_skip HELLO_SKIP\<rparr>"

type_synonym tls_turn = "(bytes poll, tls_obfs) turn"

text \<open>The three states begin alike: a read into the room given, where no bytes are an early end.\<close>

definition tls_take :: "nat \<Rightarrow> tls_obfs \<Rightarrow> (bytes \<Rightarrow> tls_obfs \<Rightarrow> tls_turn) \<Rightarrow> tls_turn" where
  "tls_take n s k =
     (case inner_read n (to_inner s) of
        (Pending, es) \<Rightarrow> Return Pending (s\<lparr>to_inner := es\<rparr>)
      | (Failed e, es) \<Rightarrow> Return (Failed e) (s\<lparr>to_inner := es\<rparr>)
      | (Ready bs, es) \<Rightarrow>
          if bs = [] then Return (Failed UnexpectedEof) (s\<lparr>to_inner := es\<rparr>) else k bs (s\<lparr>to_inner := es\<rparr>))"

definition tls_skip :: "nat \<Rightarrow> tls_obfs \<Rightarrow> tls_turn" where
  "tls_skip left s =
     tls_take (min left 128) s (\<lambda>bs s.
       let left = left - length bs
       in Again (s\<lparr>to_read := (if left = 0 then T_hdr 0 (replicate 5 0) else T_skip left)\<rparr>))"

definition tls_hdr :: "nat \<Rightarrow> bytes \<Rightarrow> tls_obfs \<Rightarrow> tls_turn" where
  "tls_hdr got hdr s =
     tls_take (5 - got) s (\<lambda>bs s.
       let hdr = put_at got bs hdr; got = got + length bs
       in Again (s\<lparr>to_read := (if got < 5 then T_hdr got hdr else T_body (unat (from_be16 (hdr ! 3) (hdr ! 4))))\<rparr>))"

definition tls_body :: "nat \<Rightarrow> nat \<Rightarrow> tls_obfs \<Rightarrow> tls_turn" where
  "tls_body cap left s =
     tls_take (min left cap) s (\<lambda>bs s.
       let left = left - length bs
       in Return (Ready bs) (s\<lparr>to_read := (if left = 0 then T_hdr 0 (replicate 5 0) else T_body left)\<rparr>))"

definition tls_round :: "nat \<Rightarrow> tls_obfs \<Rightarrow> tls_turn" where
  "tls_round cap s =
     (case to_read s of
        T_skip left \<Rightarrow> tls_skip left s
      | T_hdr got hdr \<Rightarrow> tls_hdr got hdr s
      | T_body left \<Rightarrow> tls_body cap left s)"

lemma tls_round_shrinks: "tls_round cap s = Again s' \<Longrightarrow> stream_size (to_inner s') < stream_size (to_inner s)"
  by (auto simp: tls_round_def tls_skip_def tls_hdr_def tls_body_def tls_take_def Let_def dest: inner_read_got
      split: tls_read.splits prod.splits poll.splits if_splits)

function tls_obfs_read :: "nat \<Rightarrow> tls_obfs \<Rightarrow> bytes poll \<times> tls_obfs" where
  "tls_obfs_read cap s = (case tls_round cap s of Return r s \<Rightarrow> (r, s) | Again s \<Rightarrow> tls_obfs_read cap s)"
  by pat_completeness auto

termination tls_obfs_read
  by (relation "measure (\<lambda>(cap, s). stream_size (to_inner s))") (auto dest: tls_round_shrinks)

declare tls_obfs_read.simps [simp del]

subsection \<open>The hello\<close>

definition cipher_suites :: bytes where
  "cipher_suites =
     [0xc0, 0x2c, 0xc0, 0x30, 0x00, 0x9f, 0xcc, 0xa9, 0xcc, 0xa8, 0xcc, 0xaa, 0xc0, 0x2b, 0xc0,
      0x2f, 0x00, 0x9e, 0xc0, 0x24, 0xc0, 0x28, 0x00, 0x6b, 0xc0, 0x23, 0xc0, 0x27, 0x00, 0x67,
      0xc0, 0x0a, 0xc0, 0x14, 0x00, 0x39, 0xc0, 0x09, 0xc0, 0x13, 0x00, 0x33, 0x00, 0x9d, 0x00,
      0x9c, 0x00, 0x3d, 0x00, 0x3c, 0x00, 0x35, 0x00, 0x2f, 0x00, 0xff]"

definition other_extensions :: bytes where
  "other_extensions =
     [0x00, 0x0b, 0x00, 0x04, 0x03, 0x01, 0x00, 0x02, 0x00, 0x0a, 0x00, 0x0a, 0x00, 0x08, 0x00,
      0x1d, 0x00, 0x17, 0x00, 0x19, 0x00, 0x18, 0x00, 0x0d, 0x00, 0x20, 0x00, 0x1e, 0x06, 0x01,
      0x06, 0x02, 0x06, 0x03, 0x05, 0x01, 0x05, 0x02, 0x05, 0x03, 0x04, 0x01, 0x04, 0x02, 0x04,
      0x03, 0x03, 0x01, 0x03, 0x02, 0x03, 0x03, 0x02, 0x01, 0x02, 0x02, 0x02, 0x03, 0x00, 0x16,
      0x00, 0x00, 0x00, 0x17, 0x00, 0x00]"

text \<open>32 random bytes, the seconds of the clock and a random session id of 32 bytes.\<close>

type_synonym tls_rnd = "256 word \<times> u32 \<times> 256 word"

abbreviation len16 :: "nat \<Rightarrow> bytes" where
  "len16 n \<equiv> to_be16 (word_of_nat n)"

definition session_ticket :: "bytes \<Rightarrow> bytes" where
  "session_ticket payload = to_be16 0x0023 @ len16 (length payload) @ payload"

definition server_name :: "bytes \<Rightarrow> bytes" where
  "server_name host =
     to_be16 0x0000 @ len16 (3 + length host + 2) @ len16 (3 + length host) @ [0] @ len16 (length host) @ host"

definition hello_body :: "tls_rnd \<Rightarrow> bytes \<Rightarrow> bytes \<Rightarrow> bytes" where
  "hello_body rnd host payload =
     (case rnd of (random, unix, session) \<Rightarrow>
        to_be16 0x0303 @ put_at 0 (to_be32 unix) (be_bytes 32 (unat random)) @ [32] @ be_bytes 32 (unat session)
        @ len16 (length cipher_suites) @ cipher_suites @ [1, 0]
        @ len16 (length (session_ticket payload) + length (server_name host) + length other_extensions)
        @ session_ticket payload @ server_name host @ other_extensions)"

definition build_tls_client_hello :: "tls_rnd \<Rightarrow> bytes \<Rightarrow> bytes \<Rightarrow> bytes" where
  "build_tls_client_hello rnd host payload =
     (let body = hello_body rnd host payload; hs_len = length body in
      [0x16] @ to_be16 0x0301 @ len16 (4 + hs_len) @ [0x01] @ [word_of_nat (hs_len div 65536)] @ len16 hs_len @ body)"

subsection \<open>Writing\<close>

datatype tls_write = Tw_hello | Tw_flush bytes nat | Tw_hdr u16 nat | Tw_body nat

record tls_uplink =
  tu_host :: rstr
  tu_write :: tls_write
  tu_sink :: sink

definition tls_uplink_new :: "sink \<Rightarrow> rstr \<Rightarrow> tls_uplink" where
  "tls_uplink_new k host = \<lparr>tu_host = host, tu_write = Tw_hello, tu_sink = k\<rparr>"

definition record_header :: "u16 \<Rightarrow> bytes" where
  "record_header payload = TLS_RECORD @ to_be16 payload"

definition tls_write_flush :: "bytes \<Rightarrow> bytes \<Rightarrow> nat \<Rightarrow> tls_uplink \<Rightarrow> (nat poll, tls_uplink) turn" where
  "tls_write_flush buf data pos u =
     (case write_buf data pos (tu_sink u) of
        (Pending, pos, k) \<Rightarrow> Return Pending (u\<lparr>tu_sink := k, tu_write := Tw_flush data pos\<rparr>)
      | (Failed e, pos, k) \<Rightarrow> Return (Failed e) (u\<lparr>tu_sink := k, tu_write := Tw_flush data pos\<rparr>)
      | (Ready _, pos, k) \<Rightarrow>
          if length data \<le> pos then Return (Ready (min (length buf) TLS_MAX)) (u\<lparr>tu_sink := k, tu_write := Tw_body 0\<rparr>)
          else Again (u\<lparr>tu_sink := k, tu_write := Tw_flush data pos\<rparr>))"

definition tls_write_hdr :: "u16 \<Rightarrow> nat \<Rightarrow> tls_uplink \<Rightarrow> (nat poll, tls_uplink) turn" where
  "tls_write_hdr payload off u =
     (case sink_write (drop off (record_header payload)) (tu_sink u) of
        (Pending, k) \<Rightarrow> Return Pending (u\<lparr>tu_sink := k\<rparr>)
      | (Failed e, k) \<Rightarrow> Return (Failed e) (u\<lparr>tu_sink := k\<rparr>)
      | (Ready n, k) \<Rightarrow>
          if n = 0 then Return (Failed WriteZero) (u\<lparr>tu_sink := k\<rparr>)
          else
            (let off = off + n in
             Again (u\<lparr>tu_sink := k, tu_write := (if 5 \<le> off then Tw_body (unat payload) else Tw_hdr payload off)\<rparr>)))"

definition tls_write_body :: "bytes \<Rightarrow> nat \<Rightarrow> tls_uplink \<Rightarrow> (nat poll, tls_uplink) turn" where
  "tls_write_body buf left u =
     (if left = 0 then Again (u\<lparr>tu_write := Tw_hdr (word_of_nat (min (length buf) TLS_MAX)) 0\<rparr>)
      else
        (case sink_write (take left buf) (tu_sink u) of
           (Pending, k) \<Rightarrow> Return Pending (u\<lparr>tu_sink := k\<rparr>)
         | (Failed e, k) \<Rightarrow> Return (Failed e) (u\<lparr>tu_sink := k\<rparr>)
         | (Ready n, k) \<Rightarrow>
             if n = 0 then Return (Failed WriteZero) (u\<lparr>tu_sink := k\<rparr>)
             else Return (Ready n) (u\<lparr>tu_sink := k, tu_write := Tw_body (left - n)\<rparr>)))"

definition tls_write_round :: "tls_rnd \<Rightarrow> bytes \<Rightarrow> tls_uplink \<Rightarrow> (nat poll, tls_uplink) turn" where
  "tls_write_round rnd buf u =
     (case tu_write u of
        Tw_hello \<Rightarrow>
          Again (u\<lparr>tu_write := Tw_flush (build_tls_client_hello rnd (as_bytes (tu_host u)) (take TLS_MAX buf)) 0\<rparr>)
      | Tw_flush data pos \<Rightarrow> tls_write_flush buf data pos u
      | Tw_hdr payload off \<Rightarrow> tls_write_hdr payload off u
      | Tw_body left \<Rightarrow> tls_write_body buf left u)"

text \<open>The loop need not end: \<open>None\<close> is a call that never returns.\<close>

partial_function (option) tls_write_loop :: "tls_rnd \<Rightarrow> bytes \<Rightarrow> tls_uplink \<Rightarrow> (nat poll \<times> tls_uplink) option" where
  "tls_write_loop rnd buf u =
     (case tls_write_round rnd buf u of Return r u \<Rightarrow> Some (r, u) | Again u \<Rightarrow> tls_write_loop rnd buf u)"

declare tls_write_loop.simps [code, simp del]

lemma write_loop_return: "tls_write_round rnd buf u = Return r u' \<Longrightarrow> tls_write_loop rnd buf u = Some (r, u')"
  by (subst tls_write_loop.simps) simp

lemma write_loop_again: "tls_write_round rnd buf u = Again u' \<Longrightarrow> tls_write_loop rnd buf u = tls_write_loop rnd buf u'"
  by (subst tls_write_loop.simps) simp

definition tls_obfs_write :: "tls_rnd \<Rightarrow> bytes \<Rightarrow> tls_uplink \<Rightarrow> nat poll \<times> tls_uplink" where
  "tls_obfs_write rnd buf u = the (tls_write_loop rnd buf u)"

subsection \<open>Whether a write returns\<close>

text \<open>
  A sink answers a given, finite number of writes in part or not at all and then takes everything, so
  these results are about sockets that do not refuse for ever. One that keeps answering \<^verbatim>\<open>Ok(0)\<close> is
  outside the model: the flush of the hello does not look for that answer and would go on without end.
\<close>

definition tls_write_rank :: "tls_uplink \<Rightarrow> nat" where
  "tls_write_rank u =
     (case tu_write u of
        Tw_hello \<Rightarrow> Suc (length (slots (tu_sink u)))
      | Tw_flush _ _ \<Rightarrow> length (slots (tu_sink u))
      | Tw_hdr payload off \<Rightarrow> (if payload = 0 then 8 else 1) + (5 - off)
      | Tw_body left \<Rightarrow> if left = 0 then 7 else 0)"

lemma length_record_header [simp]: "length (record_header p) = 5"
  by (simp add: record_header_def TLS_RECORD_def)

lemma piece_size: "data \<noteq> [] \<Longrightarrow> unat (word_of_nat (min (length data) TLS_MAX) :: u16) = min (length data) TLS_MAX"
  unfolding unat_of_nat_u16 by (simp add: TLS_MAX_def)

lemma piece_nonzero: "data \<noteq> [] \<Longrightarrow> (word_of_nat (min (length data) TLS_MAX) :: u16) \<noteq> 0"
  using piece_size [of data] by (auto simp: TLS_MAX_def min_def split: if_splits)

lemma hdr_round_again:
  assumes "tls_write_hdr payload off u = Again u'"
  obtains n k where "sink_write (drop off (record_header payload)) (tu_sink u) = (Ready n, k)" "0 < n" "off + n \<le> 5"
    "u' = u\<lparr>tu_sink := k, tu_write := (if 5 \<le> off + n then Tw_body (unat payload) else Tw_hdr payload (off + n))\<rparr>"
proof -
  obtain q k where q: "sink_write (drop off (record_header payload)) (tu_sink u) = (q, k)" by fastforce
  then obtain n where n: "q = Ready n" "0 < n"
    "u' = u\<lparr>tu_sink := k, tu_write := (if 5 \<le> off + n then Tw_body (unat payload) else Tw_hdr payload (off + n))\<rparr>"
    using assms by (cases q) (auto simp: tls_write_hdr_def Let_def split: if_splits)
  have "n \<le> 5 - off" using sink_write_spec(3) [OF q n(1)] by simp
  then show ?thesis using that q n by simp
qed

lemma flush_round_shrinks:
  "tls_write_flush buf data pos u = Again u' \<Longrightarrow>
   (\<exists>pos'. tu_write u' = Tw_flush data pos') \<and> length (slots (tu_sink u')) < length (slots (tu_sink u))"
  by (auto simp: tls_write_flush_def write_buf_def sink_write_def
      split: prod.splits poll.splits if_splits list.splits write_slot.splits)

lemma tls_write_round_shrinks:
  assumes "data \<noteq> []" "tls_write_round rnd data u = Again u'"
  shows "tls_write_rank u' < tls_write_rank u"
proof (cases "tu_write u")
  case (Tw_hdr payload off)
  then have w: "tls_write_hdr payload off u = Again u'" using assms(2) by (simp add: tls_write_round_def)
  show ?thesis
    by (rule hdr_round_again [OF w]) (use Tw_hdr in \<open>auto simp: tls_write_rank_def unat_eq_zero\<close>)
next
  case (Tw_body left)
  then show ?thesis using assms piece_nonzero [OF assms(1)]
    by (auto simp: tls_write_round_def tls_write_body_def tls_write_rank_def split: prod.splits poll.splits if_splits)
next
  case (Tw_flush d pos)
  then show ?thesis using assms flush_round_shrinks [of data d pos u u'] by (auto simp: tls_write_round_def tls_write_rank_def)
qed (use assms in \<open>auto simp: tls_write_round_def tls_write_rank_def\<close>)

lemma tls_write_loop_returns: "data \<noteq> [] \<Longrightarrow> \<exists>r u'. tls_write_loop rnd data u = Some (r, u')"
proof (induction u rule: measure_induct_rule [of tls_write_rank])
  case (less u)
  show ?case
  proof (cases "tls_write_round rnd data u")
    case (Return r v)
    then show ?thesis using write_loop_return by blast
  next
    case (Again v)
    then show ?thesis using less.IH [OF tls_write_round_shrinks [OF less.prems Again] less.prems] write_loop_again by simp
  qed
qed

text \<open>Once the hello is out, an empty buffer is announced in one empty record after the other.\<close>

definition spinning :: "tls_uplink \<Rightarrow> bool" where
  "spinning u \<longleftrightarrow> slots (tu_sink u) = [] \<and> (tu_write u = Tw_body 0 \<or> (\<exists>off < 5. tu_write u = Tw_hdr 0 off))"

lemma spinning_round:
  assumes "spinning u"
  shows "\<exists>u'. tls_write_round rnd [] u = Again u' \<and> spinning u'"
proof (cases "tu_write u = Tw_body 0")
  case True
  then show ?thesis using assms by (simp add: spinning_def tls_write_round_def tls_write_body_def)
next
  case False
  then obtain off where o: "off < 5" "tu_write u = Tw_hdr 0 off" "slots (tu_sink u) = []" using assms by (auto simp: spinning_def)
  then have "\<not> length (drop off (record_header 0)) = 0" by simp
  then show ?thesis using o by (simp add: spinning_def tls_write_round_def tls_write_hdr_def sink_write_def Let_def)
qed

lemma empty_write_hangs: "spinning u \<Longrightarrow> tls_write_loop rnd [] u = None"
proof (rule ccontr)
  assume s: "spinning u" and "tls_write_loop rnd [] u \<noteq> None"
  then obtain y where y: "tls_write_loop rnd [] u = Some y" by auto
  have "[] = ([] :: bytes) \<longrightarrow> \<not> spinning u"
  proof (rule tls_write_loop.raw_induct [where P = "\<lambda>rnd buf u y. buf = [] \<longrightarrow> \<not> spinning u", OF _ y], intro impI notI)
    fix loop and rnd :: tls_rnd and buf :: bytes and u y
    assume ih: "\<And>rnd buf u y. loop rnd buf u = Some y \<Longrightarrow> buf = [] \<longrightarrow> \<not> spinning u"
      and r: "(case tls_write_round rnd buf u of Return r u \<Rightarrow> Some (r, u) | Again u \<Rightarrow> loop rnd buf u) = Some y"
      and b: "buf = []" and sp: "spinning u"
    obtain v where "tls_write_round rnd buf u = Again v" "spinning v" using spinning_round [OF sp, of rnd] b by blast
    then show False using ih [of rnd buf v y] r b by simp
  qed
  then show False using s by simp
qed

subsection \<open>The reader against a reference decoder\<close>

text \<open>
  What a sequence of records holds: five bytes of header, of which the last two are the length of
  the payload. The last record may be cut short; an empty record ends the reading.
\<close>

function unframe :: "bytes \<Rightarrow> bytes" where
  "unframe w =
     (if length w < 5 then []
      else
        (let n = unat (from_be16 (w ! 3) (w ! 4)) in
         if n = 0 then [] else take n (drop 5 w) @ unframe (drop (5 + n) w)))"
  by pat_completeness auto

termination unframe
  by (relation "measure length") auto

declare unframe.simps [simp del]

lemma unframe_short: "length w < 5 \<Longrightarrow> unframe w = []"
  by (subst unframe.simps) simp

definition to_owes :: "tls_obfs \<Rightarrow> bytes \<Rightarrow> bool" where
  "to_owes s pl \<longleftrightarrow> unbroken (to_inner s) \<and>
     (case to_read s of
        T_skip left \<Rightarrow> 0 < left \<and> pl = unframe (drop left (arriving (to_inner s)))
      | T_hdr got hdr \<Rightarrow> length hdr = 5 \<and> got < 5 \<and> pl = unframe (take got hdr @ arriving (to_inner s))
      | T_body left \<Rightarrow>
          pl = (if left = 0 then [] else take left (arriving (to_inner s)) @ unframe (drop left (arriving (to_inner s)))))"

abbreviation to_waits :: "tls_obfs \<Rightarrow> nat" where
  "to_waits s \<equiv> waits (to_inner s)"

text \<open>The layer reports every end as \<open>UnexpectedEof\<close>; a caller that takes it for the end reads like this.\<close>

definition tls_read_end :: "nat \<Rightarrow> tls_obfs \<Rightarrow> bytes poll \<times> tls_obfs" where
  "tls_read_end cap s = apfst end_at_eof (tls_obfs_read cap s)"

definition to_good :: "bytes \<Rightarrow> tls_obfs \<Rightarrow> tls_turn \<Rightarrow> bool" where
  "to_good pl s x \<longleftrightarrow>
     (case turn_end x of
        Return r s' \<Rightarrow> step_delivers to_owes to_waits pl s r s'
      | Again s' \<Rightarrow> to_owes s' pl \<and> to_waits s' \<le> to_waits s)"

text \<open>It is enough to look at a read that brings something.\<close>

lemma tls_take_good:
  assumes "to_owes s pl" "0 < n \<or> to_read s = T_body 0"
    and "\<And>bs es. bs \<noteq> [] \<Longrightarrow> length bs \<le> n \<Longrightarrow> arriving (to_inner s) = bs @ arriving es \<Longrightarrow> unbroken es \<Longrightarrow>
      waits es \<le> to_waits s \<Longrightarrow> to_good pl s (k bs (s\<lparr>to_inner := es\<rparr>))"
  shows "to_good pl s (tls_take n s k)"
proof -
  obtain r es where r: "inner_read n (to_inner s) = (r, es)" by fastforce
  have u: "unbroken (to_inner s)" using assms(1) by (simp add: to_owes_def)
  have un: "unbroken es" "\<forall>e. r \<noteq> Failed e" "waits es \<le> to_waits s" "r = Pending \<Longrightarrow> waits es < to_waits s"
    using inner_read_unbroken [OF u r] by auto
  note ar = inner_read_arriving [OF r]
  show ?thesis
  proof (cases r)
    case Pending
    then have "to_owes (s\<lparr>to_inner := es\<rparr>) pl" using assms(1) un(1) ar by (cases "to_read s") (auto simp: to_owes_def)
    then show ?thesis using Pending r un by (simp add: tls_take_def to_good_def step_delivers_def)
  next
    case (Failed e)
    then show ?thesis using un(2) by simp
  next
    case (Ready bs)
    show ?thesis
    proof (cases "bs = []")
      case True
      have "pl = [] \<and> to_owes (s\<lparr>to_inner := es\<rparr>) []"
      proof (cases "0 < n")
        case pos: True
        then have "arriving (to_inner s) = []" "es = []" using inner_read_eof [of n] r Ready True by auto
        then show ?thesis using assms(1) by (cases "to_read s") (auto simp: to_owes_def unbroken_def unframe_short)
      next
        case False
        then show ?thesis using assms(1,2) un(1) by (auto simp: to_owes_def)
      qed
      then show ?thesis using Ready True r un(3) by (simp add: tls_take_def to_good_def step_delivers_def)
    next
      case False
      then show ?thesis using assms(3) [OF False] inner_read_cap [of n _ bs es] r Ready ar un by (simp add: tls_take_def)
    qed
  qed
qed

lemma tls_skip_good:
  assumes "to_owes s pl" "to_read s = T_skip left"
  shows "to_good pl s (tls_skip left s)"
  unfolding tls_skip_def
proof (rule tls_take_good [OF assms(1)])
  have h: "0 < left" "pl = unframe (drop left (arriving (to_inner s)))" using assms by (simp_all add: to_owes_def)
  then show "0 < min left 128 \<or> to_read s = T_body 0" by simp
  fix bs es
  assume a: "length bs \<le> min left 128" "arriving (to_inner s) = bs @ arriving es" "unbroken es" "waits es \<le> to_waits s"
  then show "to_good pl s (let left = left - length bs in Again (s\<lparr>to_inner := es,
      to_read := (if left = 0 then T_hdr 0 (replicate 5 0) else T_skip left)\<rparr>))"
    using h by (simp add: to_good_def to_owes_def Let_def)
qed

lemma tls_hdr_good:
  assumes "to_owes s pl" "to_read s = T_hdr got hdr"
  shows "to_good pl s (tls_hdr got hdr s)"
  unfolding tls_hdr_def
proof (rule tls_take_good [OF assms(1)])
  have h: "length hdr = 5" "got < 5" "pl = unframe (take got hdr @ arriving (to_inner s))" using assms by (simp_all add: to_owes_def)
  then show "0 < 5 - got \<or> to_read s = T_body 0" by simp
  fix bs es
  assume a: "length bs \<le> 5 - got" "arriving (to_inner s) = bs @ arriving es" "unbroken es" "waits es \<le> to_waits s"
  define hdr' where "hdr' = put_at got bs hdr"
  have h': "length hdr' = 5" "take (got + length bs) hdr' = take got hdr @ bs" "got + length bs \<le> 5"
    using h(1,2) a(1) by (auto simp: hdr'_def put_at_def)
  show "to_good pl s (let hdr = put_at got bs hdr; got = got + length bs in Again (s\<lparr>to_inner := es,
      to_read := (if got < 5 then T_hdr got hdr else T_body (unat (from_be16 (hdr ! 3) (hdr ! 4))))\<rparr>))"
  proof (cases "got + length bs < 5")
    case True
    then show ?thesis using h h' a by (simp add: to_good_def to_owes_def flip: hdr'_def)
  next
    case False
    then have f: "got + length bs = 5" using h'(3) by simp
    then have "take got hdr @ arriving (to_inner s) = hdr' @ arriving es" using h' a(2) by simp
    then have "pl = unframe (hdr' @ arriving es)" using h(3) by simp
    also have "\<dots> = (let n = unat (from_be16 (hdr' ! 3) (hdr' ! 4)) in
        if n = 0 then [] else take n (arriving es) @ unframe (drop n (arriving es)))"
      using h'(1) by (subst unframe.simps) (simp add: nth_append Let_def)
    finally show ?thesis using f a(3,4) by (simp add: to_good_def to_owes_def Let_def flip: hdr'_def)
  qed
qed

lemma tls_body_good:
  assumes "to_owes s pl" "to_read s = T_body left" "0 < cap"
  shows "to_good pl s (tls_body cap left s)"
  unfolding tls_body_def
proof (rule tls_take_good [OF assms(1)])
  show "0 < min left cap \<or> to_read s = T_body 0" using assms(2,3) by auto
  fix bs es
  assume a: "bs \<noteq> []" "length bs \<le> min left cap" "arriving (to_inner s) = bs @ arriving es" "unbroken es" "waits es \<le> to_waits s"
  then have l: "0 < left" by (cases bs) auto
  have "pl = bs @ (take (left - length bs) (arriving es) @ unframe (drop (left - length bs) (arriving es)))"
    using assms(1,2) a(2,3) l by (simp add: to_owes_def)
  then show "to_good pl s (let left = left - length bs in Return (Ready bs) (s\<lparr>to_inner := es,
      to_read := (if left = 0 then T_hdr 0 (replicate 5 0) else T_body left)\<rparr>))"
    using a by (auto simp: to_good_def step_delivers_def to_owes_def Let_def)
qed

lemma tls_round_good: "to_owes s pl \<Longrightarrow> 0 < cap \<Longrightarrow> to_good pl s (tls_round cap s)"
  using tls_skip_good [of s pl] tls_hdr_good [of s pl] tls_body_good [of s pl]
  by (cases "to_read s") (simp_all add: tls_round_def)

interpretation tls_reader: reader_rounds "\<lambda>cap s. turn_end (tls_round cap s)" tls_read_end to_owes to_waits
  "measure (\<lambda>s. stream_size (to_inner s))"
proof (unfold_locales, goal_cases)
  case (2 cap s r s')
  then obtain r0 where "tls_round cap s = Return r0 s'" "r = end_at_eof r0" by (cases "tls_round cap s") auto
  then show ?case by (simp add: tls_read_end_def, subst tls_obfs_read.simps, simp)
next
  case (3 cap s s')
  then have "tls_round cap s = Again s'" by (cases "tls_round cap s") auto
  then show ?case unfolding tls_read_end_def by (subst tls_obfs_read.simps) simp
next
  case (4 s pl cap r s')
  then show ?case using tls_round_good [of s pl cap] by (simp add: to_good_def)
next
  case (5 s pl cap s')
  then have "tls_round cap s = Again s'" by (cases "tls_round cap s") auto
  then show ?case using 5 tls_round_good [of s pl cap] tls_round_shrinks [of cap s s'] by (simp add: to_good_def)
qed simp

text \<open>
  Whatever a peer sends, the reader of the TLS layer delivers exactly what the reference decoder
  finds after the 105 bytes of the server's hello, for any chunking and sizes of the reads, within a
  bounded number of reads; the only error it reports is \<open>UnexpectedEof\<close>.
\<close>

theorem tls_obfs_exact:
  assumes "unbroken es" "\<forall>c \<in> set caps. 0 < c" "read_many tls_read_end caps (tls_obfs_new es) = (rs, s')"
  shows "(\<forall>e. Failed e \<notin> set rs) \<and> (\<exists>pl. unframe (drop 105 (arriving es)) = delivered rs @ pl)
    \<and> (length (unframe (drop 105 (arriving es))) + waits es < length caps \<longrightarrow>
        delivered rs = unframe (drop 105 (arriving es)))"
proof -
  have "to_owes (tls_obfs_new es) (unframe (drop 105 (arriving es)))"
    using assms(1) by (simp add: to_owes_def tls_obfs_new_def HELLO_SKIP_def)
  from tls_reader.read_to_end [OF this assms(2,3)] show ?thesis by (auto simp: tls_obfs_new_def)
qed

theorem tls_obfs_exact_witness:
  "delivered (fst (read_many tls_read_end [1, 1, 5, 5, 5]
      (tls_obfs_new [Data (replicate 105 0 @ [0x17, 3]), Wait, Data [3, 0, 2, 7, 8, 0x17]]))) = [7, 8]"
proof -
  let ?es = "[Data (replicate 105 0 @ [0x17, 3]), Wait, Data [3, 0, 2, 7, 8, 0x17]] :: inner_stream"
  have u: "unframe [0x17, 3, 3, 0, 2, 7, 8, 0x17] = [7, 8]"
    by (subst unframe.simps, simp add: from_be16_def, subst unframe.simps, simp)
  obtain rs s' where r: "read_many tls_read_end [1, 1, 5, 5, 5] (tls_obfs_new ?es) = (rs, s')" by fastforce
  have "delivered rs = unframe (drop 105 (arriving ?es))"
    using tls_obfs_exact [OF _ _ r] u by (simp add: unbroken_def)
  then show ?thesis using r u by simp
qed

subsection \<open>The writer's contract\<close>

definition tls_records :: "bytes list \<Rightarrow> bytes" where
  "tls_records ps = concat (map (\<lambda>p. record_header (word_of_nat (length p)) @ p) ps)"

definition tls_piece :: "bytes \<Rightarrow> bool" where
  "tls_piece p \<longleftrightarrow> p \<noteq> [] \<and> length p \<le> TLS_MAX"

text \<open>A record of which \<open>left\<close> bytes are still missing.\<close>

definition open_record :: "nat \<Rightarrow> bytes \<Rightarrow> bytes" where
  "open_record left part = (if left = 0 then [] else record_header (word_of_nat (length part + left)) @ part)"

definition open_part :: "nat \<Rightarrow> bytes \<Rightarrow> bool" where
  "open_part left part \<longleftrightarrow> (if left = 0 then part = [] else length part + left \<le> TLS_MAX)"

definition tls_carries :: "rstr \<Rightarrow> bytes \<Rightarrow> bytes \<Rightarrow> nat \<Rightarrow> bool" where
  "tls_carries host w acc left \<longleftrightarrow>
     (\<exists>rnd first ps part. acc = first @ concat ps @ part \<and> list_all tls_piece ps \<and> open_part left part
        \<and> w = build_tls_client_hello rnd (as_bytes host) first @ tls_records ps @ open_record left part)"

definition is_hello :: "rstr \<Rightarrow> bytes \<Rightarrow> bytes \<Rightarrow> bool" where
  "is_hello host payload d \<longleftrightarrow> (\<exists>rnd. d = build_tls_client_hello rnd (as_bytes host) payload)"

lemma is_hello_build: "is_hello host payload (build_tls_client_hello rnd (as_bytes host) payload)"
  unfolding is_hello_def by (rule exI [of _ rnd]) (rule refl)

lemma hello_carries: "is_hello host payload w \<Longrightarrow> tls_carries host w payload 0"
  unfolding is_hello_def tls_carries_def
  by (elim exE, rule_tac x = rnd in exI, rule exI [of _ payload], rule exI [of _ "[]"], rule exI [of _ "[]"])
    (simp add: tls_records_def open_record_def open_part_def)

lemma carries_opens:
  assumes "tls_carries host w acc 0" "0 < unat p" "unat p \<le> TLS_MAX"
  shows "tls_carries host (w @ record_header p) acc (unat p)"
proof -
  obtain rnd first ps where "acc = first @ concat ps" "list_all tls_piece ps"
    "w = build_tls_client_hello rnd (as_bytes host) first @ tls_records ps"
    using assms(1) by (auto simp: tls_carries_def open_record_def open_part_def)
  then show ?thesis unfolding tls_carries_def
    by (intro exI [of _ rnd] exI [of _ first] exI [of _ ps] exI [of _ "[]"])
      (use assms(2,3) in \<open>simp add: open_record_def open_part_def\<close>)
qed

lemma carries_grows:
  assumes "tls_carries host w acc left" "0 < left" "x \<noteq> []" "length x \<le> left"
  shows "tls_carries host (w @ x) (acc @ x) (left - length x)"
proof -
  obtain rnd first ps part where c: "acc = first @ concat ps @ part" "list_all tls_piece ps" "length part + left \<le> TLS_MAX"
    "w = build_tls_client_hello rnd (as_bytes host) first @ tls_records ps @ record_header (word_of_nat (length part + left)) @ part"
    using assms(1,2) unfolding tls_carries_def open_record_def open_part_def by auto
  show ?thesis
  proof (cases "left = length x")
    case True
    have "tls_piece (part @ x)" using c(3) True assms(3) by (simp add: tls_piece_def)
    then show ?thesis unfolding tls_carries_def
      by (intro exI [of _ rnd] exI [of _ first] exI [of _ "ps @ [part @ x]"] exI [of _ "[]"])
        (use c True in \<open>simp add: open_record_def open_part_def tls_records_def\<close>)
  next
    case False
    then have "length (part @ x) + (left - length x) = length part + left" using assms(4) by simp
    then show ?thesis unfolding tls_carries_def
      by (intro exI [of _ rnd] exI [of _ first] exI [of _ ps] exI [of _ "part @ x"])
        (use c False assms(4) in \<open>simp add: open_record_def open_part_def\<close>)
  qed
qed

definition tu_busy :: "rstr \<Rightarrow> tls_uplink \<Rightarrow> bytes \<Rightarrow> bytes \<Rightarrow> bool" where
  "tu_busy host u acc data \<longleftrightarrow> tu_host u = host \<and>
     (case tu_write u of
        Tw_hello \<Rightarrow> acc = [] \<and> written (tu_sink u) = []
      | Tw_flush d pos \<Rightarrow> acc = [] \<and> is_hello host (take TLS_MAX data) d \<and> pos < length d \<and> written (tu_sink u) = take pos d
      | Tw_hdr p off \<Rightarrow> off < 5 \<and> 0 < unat p \<and> unat p \<le> TLS_MAX
          \<and> (\<exists>w. tls_carries host w acc 0 \<and> written (tu_sink u) = w @ take off (record_header p))
      | Tw_body left \<Rightarrow> tls_carries host (written (tu_sink u)) acc left)"

definition tu_idle :: "rstr \<Rightarrow> tls_uplink \<Rightarrow> bytes \<Rightarrow> bool" where
  "tu_idle host u acc \<longleftrightarrow> tu_busy host u acc [] \<and> (tu_write u = Tw_hello \<or> (\<exists>left. tu_write u = Tw_body left))"

lemma tu_idle_busy: "tu_idle host u acc \<Longrightarrow> tu_busy host u acc data"
  by (auto simp: tu_idle_def tu_busy_def)

lemma tu_idle_body:
  "tu_write u = Tw_body left \<Longrightarrow> tu_host u = host \<Longrightarrow> tls_carries host (written (tu_sink u)) acc left \<Longrightarrow> tu_idle host u acc"
  by (simp add: tu_idle_def tu_busy_def)

text \<open>What one turn of the loop must do.\<close>

definition tu_good :: "rstr \<Rightarrow> bytes \<Rightarrow> bytes \<Rightarrow> tls_uplink \<Rightarrow> (nat poll, tls_uplink) turn \<Rightarrow> bool" where
  "tu_good host acc data u x \<longleftrightarrow>
     (case x of
        Return r u' \<Rightarrow> write_delivers (tu_idle host) (tu_busy host) tu_sink acc data u r u'
      | Again u' \<Rightarrow> tu_busy host u' acc data \<and> length (slots (tu_sink u')) \<le> length (slots (tu_sink u))
          \<and> (sink_good (tu_sink u) \<longrightarrow> sink_good (tu_sink u')))"

lemma hello_not_empty: "build_tls_client_hello rnd host payload \<noteq> []"
  by (simp add: build_tls_client_hello_def Let_def)

lemma take_piece: "take (min (length data) TLS_MAX) data = take TLS_MAX data"
  by (simp add: min_def)

lemma tls_flush_good:
  assumes "tu_busy host u acc data" "data \<noteq> []" "tu_write u = Tw_flush d pos"
  shows "tu_good host acc data u (tls_write_flush data d pos u)"
proof -
  have h: "tu_host u = host" "acc = []" "is_hello host (take TLS_MAX data) d" "pos < length d" "written (tu_sink u) = take pos d"
    using assms(1,3) by (auto simp: tu_busy_def)
  obtain r pos' k where w: "write_buf d pos (tu_sink u) = (r, pos', k)" by (metis surj_pair)
  note sp = write_buf_spec [OF w less_imp_le_nat [OF h(4)]]
  have wr: "written k = take pos' d" using sp h(5) take_slice [of pos pos' d] by simp
  have mid: "tu_busy host (u\<lparr>tu_sink := k, tu_write := Tw_flush d pos'\<rparr>) acc data" if "pos' < length d"
    using that h(1-3) wr by (simp add: tu_busy_def)
  show ?thesis
  proof (cases r)
    case Pending
    then show ?thesis using mid h(4) w sp by (simp add: tls_write_flush_def tu_good_def write_delivers_def)
  next
    case (Failed e)
    then show ?thesis using w sp by (auto simp: tls_write_flush_def tu_good_def write_delivers_def)
  next
    case (Ready n)
    show ?thesis
    proof (cases "length d \<le> pos'")
      case True
      have "tls_carries host (written k) (take TLS_MAX data) 0" using wr True hello_carries [OF h(3)] by simp
      then have "tu_idle host (u\<lparr>tu_sink := k, tu_write := Tw_body 0\<rparr>) (acc @ take (min (length data) TLS_MAX) data)"
        using h(1,2) take_piece [of data] by (intro tu_idle_body) simp_all
      moreover have "min (length data) TLS_MAX \<noteq> 0" using assms(2) by (simp add: TLS_MAX_def)
      ultimately show ?thesis using Ready True w sp by (simp add: tls_write_flush_def tu_good_def write_delivers_def)
    next
      case False
      then show ?thesis using Ready mid w sp by (simp add: tls_write_flush_def tu_good_def)
    qed
  qed
qed

lemma tls_write_hdr_good:
  assumes "tu_busy host u acc data" "tu_write u = Tw_hdr p off"
  shows "tu_good host acc data u (tls_write_hdr p off u)"
proof -
  obtain w where h: "tu_host u = host" "off < 5" "0 < unat p" "unat p \<le> TLS_MAX" "tls_carries host w acc 0"
    "written (tu_sink u) = w @ take off (record_header p)" using assms by (auto simp: tu_busy_def)
  obtain r k where q: "sink_write (drop off (record_header p)) (tu_sink u) = (r, k)" by fastforce
  note sp = sink_write_spec [OF q]
  have ne: "drop off (record_header p) \<noteq> []" using h(2) length_record_header [of p] by (metis drop_eq_Nil2 linorder_not_less)
  note good = sink_write_good [OF _ q]
  show ?thesis
  proof (cases r)
    case Pending
    then have "tu_busy host (u\<lparr>tu_sink := k\<rparr>) acc data" using h assms(2) sp(2) by (auto simp: tu_busy_def)
    then show ?thesis using Pending q sp(1) sp(2) good by (simp add: tls_write_hdr_def tu_good_def write_delivers_def)
  next
    case (Failed e)
    then show ?thesis using q sp(1) good by (auto simp: tls_write_hdr_def tu_good_def write_delivers_def)
  next
    case (Ready n)
    show ?thesis
    proof (cases "n = 0")
      case True
      then show ?thesis using Ready q sp(1) good ne by (auto simp: tls_write_hdr_def tu_good_def write_delivers_def)
    next
      case False
      have n: "off + n \<le> 5" "written k = w @ take (off + n) (record_header p)"
        using sp(3) [OF Ready] h(2,6) by (auto simp: take_add)
      have "tu_busy host (u\<lparr>tu_sink := k,
          tu_write := (if 5 \<le> off + n then Tw_body (unat p) else Tw_hdr p (off + n))\<rparr>) acc data"
        using h n carries_opens [OF h(5,3,4)] by (auto simp: tu_busy_def)
      then show ?thesis using Ready False q sp(1) good by (simp add: tls_write_hdr_def tu_good_def Let_def)
    qed
  qed
qed

lemma tls_write_body_good:
  assumes "tu_busy host u acc data" "data \<noteq> []" "tu_write u = Tw_body left"
  shows "tu_good host acc data u (tls_write_body data left u)"
proof -
  have h: "tu_host u = host" "tls_carries host (written (tu_sink u)) acc left" using assms(1,3) by (auto simp: tu_busy_def)
  show ?thesis
  proof (cases "left = 0")
    case True
    have "tu_busy host (u\<lparr>tu_write := Tw_hdr (word_of_nat (min (length data) TLS_MAX)) 0\<rparr>) acc data"
      using h True piece_size [OF assms(2)] assms(2) by (simp add: tu_busy_def TLS_MAX_def)
    then show ?thesis using True by (simp add: tls_write_body_def tu_good_def)
  next
    case False
    obtain r k where q: "sink_write (take left data) (tu_sink u) = (r, k)" by fastforce
    note sp = sink_write_spec [OF q] and good = sink_write_good [OF _ q]
    have ne: "take left data \<noteq> []" using False assms(2) by simp
    show ?thesis
    proof (cases r)
      case Pending
      then have "tu_idle host (u\<lparr>tu_sink := k\<rparr>) acc" using h assms(3) sp(2) by (intro tu_idle_body) auto
      then show ?thesis using Pending False q sp(1) sp(2) good by (simp add: tls_write_body_def tu_good_def write_delivers_def)
    next
      case (Failed e)
      then show ?thesis using False q sp(1) good by (auto simp: tls_write_body_def tu_good_def write_delivers_def)
    next
      case (Ready n)
      show ?thesis
      proof (cases "n = 0")
        case True
        then show ?thesis using Ready False q sp(1) good ne by (auto simp: tls_write_body_def tu_good_def write_delivers_def)
      next
        case n0: False
        have n: "n \<le> left" "n \<le> length data" "written k = written (tu_sink u) @ take n data" using sp(3) [OF Ready] by simp_all
        have "tls_carries host (written k) (acc @ take n data) (left - n)"
          using carries_grows [OF h(2), of "take n data"] False n0 n assms(2) by simp
        then have "tu_idle host (u\<lparr>tu_sink := k, tu_write := Tw_body (left - n)\<rparr>) (acc @ take n data)"
          using h(1) by (intro tu_idle_body) simp_all
        then show ?thesis using Ready False n0 q sp(1) good n(2) by (simp add: tls_write_body_def tu_good_def write_delivers_def)
      qed
    qed
  qed
qed

lemma tls_write_round_good:
  assumes "tu_busy host u acc data" "data \<noteq> []"
  shows "tu_good host acc data u (tls_write_round rnd data u)"
proof (cases "tu_write u")
  case Tw_hello
  then have "tu_busy host (u\<lparr>tu_write := Tw_flush (build_tls_client_hello rnd (as_bytes (tu_host u)) (take TLS_MAX data)) 0\<rparr>) acc data"
    using assms(1) is_hello_build hello_not_empty by (simp add: tu_busy_def)
  then show ?thesis using Tw_hello by (simp add: tls_write_round_def tu_good_def)
next
  case (Tw_flush d pos)
  then show ?thesis using tls_flush_good [OF assms] by (simp add: tls_write_round_def)
next
  case (Tw_hdr p off)
  then show ?thesis using tls_write_hdr_good [OF assms(1)] by (simp add: tls_write_round_def)
next
  case (Tw_body left)
  then show ?thesis using tls_write_body_good [OF assms] by (simp add: tls_write_round_def)
qed

text \<open>The order only has to go down while the buffer is not empty.\<close>

interpretation tls_writer: writer_rounds tls_write_round tls_obfs_write "tu_busy host" "tu_idle host" "tu_busy host" tu_sink
  any_data "measure tls_write_rank" for host
proof (unfold_locales, goal_cases)
  case (2 rnd data s r s')
  then show ?case by (simp add: tls_obfs_write_def write_loop_return)
next
  case (3 rnd data s s')
  then show ?case by (simp add: tls_obfs_write_def write_loop_again)
next
  case (4 s acc data rnd r s')
  then show ?case using tls_write_round_good [of host s acc data rnd] by (simp add: tu_good_def)
next
  case (5 s acc data rnd s')
  then show ?case using tls_write_round_good [of host s acc data rnd] tls_write_round_shrinks [of data rnd s s']
    by (simp add: tu_good_def)
qed (simp_all add: tu_idle_busy any_data_def)

subsection \<open>Both ends\<close>

lemma from_be16_header: "from_be16 (record_header n ! 3) (record_header n ! 4) = n"
  by (simp add: record_header_def TLS_RECORD_def to_be16_def)

lemma unframe_record:
  assumes "0 < n" "n < 65536"
  shows "unframe (record_header (word_of_nat n) @ w) = take n w @ unframe (drop n w)"
proof -
  have "unat (word_of_nat n :: u16) = n" using assms(2) unfolding unat_of_nat_u16 by simp
  then show ?thesis using assms(1) by (subst unframe.simps) (simp add: nth_append from_be16_header)
qed

lemma unframe_records:
  assumes "list_all tls_piece ps"
  shows "unframe (tls_records ps @ w) = concat ps @ unframe w"
  using assms
proof (induction ps)
  case (Cons p ps)
  then have "0 < length p" "length p < 65536" by (auto simp: tls_piece_def TLS_MAX_def)
  then show ?case using Cons unframe_record [of "length p" "p @ tls_records ps @ w"] by (simp add: tls_records_def)
qed (simp add: tls_records_def)

lemma unframe_open:
  assumes "open_part left part"
  shows "unframe (open_record left part) = part"
proof (cases "left = 0")
  case False
  then have "0 < length part + left" "length part + left < 65536" using assms by (simp_all add: open_part_def TLS_MAX_def)
  then show ?thesis using False unframe_record [of "length part + left" part] by (simp add: open_record_def unframe_short)
qed (use assms in \<open>simp add: open_part_def open_record_def unframe_short\<close>)

text \<open>The payload of the hello lies where the session ticket puts it.\<close>

lemma hello_ticket: "slice 142 (142 + length payload) (build_tls_client_hello rnd host payload) = payload"
proof -
  obtain random unix session where r: "rnd = (random, unix, session)" by (metis surj_pair)
  have "length (be_bytes 32 n) = 32" "length (put_at 0 (to_be32 unix) (be_bytes 32 n)) = 32" for n by simp_all
  moreover have "length cipher_suites = 56" by (simp add: cipher_suites_def)
  ultimately have "\<exists>pre post. build_tls_client_hello rnd host payload = pre @ payload @ post \<and> length pre = 142"
    unfolding build_tls_client_hello_def Let_def hello_body_def session_ticket_def r prod.case
    by (intro exI [of _ "[0x16] @ to_be16 0x0301 @ len16 (4 + length (hello_body rnd host payload)) @ [0x01]
        @ [word_of_nat (length (hello_body rnd host payload) div 65536)] @ len16 (length (hello_body rnd host payload))
        @ to_be16 0x0303 @ put_at 0 (to_be32 unix) (be_bytes 32 (unat random)) @ [32] @ be_bytes 32 (unat session)
        @ len16 (length cipher_suites) @ cipher_suites @ [1, 0]
        @ len16 (length (session_ticket payload) + length (server_name host) + length other_extensions)
        @ to_be16 0x0023 @ len16 (length payload)"] exI [of _ "server_name host @ other_extensions"])
      (simp add: hello_body_def session_ticket_def r)
  then show ?thesis by (auto simp: slice_def)
qed

lemma hello_length: "142 \<le> length (build_tls_client_hello rnd host payload)"
  by (cases rnd) (simp add: build_tls_client_hello_def Let_def hello_body_def session_ticket_def cipher_suites_def)

text \<open>
  C26: What is written through the TLS layer, for any random draws and partial writes, is a hello that
  carries a first part of the data in its session ticket, followed by records from which the reader
  of the same layer delivers exactly the rest of the data.
\<close>

theorem tls_obfs_roundtrip:
  assumes "written k = []" "sink_good k" "data \<noteq> []" "length data + length (slots k) < fuel"
  shows "\<exists>u rnd first later w. offer_all tls_obfs_write fuel rnds data (tls_uplink_new k host) = (Some True, u)
    \<and> data = first @ later \<and> written (tu_sink u) = build_tls_client_hello rnd (as_bytes host) first @ w
    \<and> slice 142 (142 + length first) (written (tu_sink u)) = first
    \<and> (\<forall>es caps skip. unbroken es \<and> length skip = 105 \<and> arriving es = skip @ w \<and> (\<forall>n \<in> set caps. 0 < n)
        \<and> length later + waits es < length caps \<longrightarrow>
        delivered (fst (read_many tls_read_end caps (tls_obfs_new es))) = later)"
proof -
  have "tu_idle host (tls_uplink_new k host) []"
    using assms(1) by (simp add: tu_idle_def tu_busy_def tls_uplink_new_def)
  then obtain u where u: "offer_all tls_obfs_write fuel rnds data (tls_uplink_new k host) = (Some True, u)" "tu_idle host u data"
    using tls_writer.write_all_succeeds [of host "tls_uplink_new k host" data fuel rnds] assms(2-4)
    by (auto simp: tls_uplink_new_def any_data_def)
  obtain left where "tls_carries host (written (tu_sink u)) data left" using u(2) assms(3) by (auto simp: tu_idle_def tu_busy_def)
  then obtain rnd first ps part where c: "data = first @ concat ps @ part" "list_all tls_piece ps" "open_part left part"
    "written (tu_sink u) = build_tls_client_hello rnd (as_bytes host) first @ tls_records ps @ open_record left part"
    unfolding tls_carries_def by blast
  define later where "later = concat ps @ part"
  define w where "w = tls_records ps @ open_record left part"
  have un: "unframe w = later" using unframe_records [OF c(2)] unframe_open [OF c(3)] by (simp add: w_def later_def)
  have "142 + length first \<le> length (build_tls_client_hello rnd (as_bytes host) first)"
  proof -
    have "length (slice 142 (142 + length first) (build_tls_client_hello rnd (as_bytes host) first)) = length first"
      unfolding hello_ticket ..
    then show ?thesis by (cases first) (auto simp: hello_length min_def split: if_splits)
  qed
  then have t: "slice 142 (142 + length first) (written (tu_sink u)) = first"
    using hello_ticket [of first rnd "as_bytes host"] unfolding c(4) by (simp add: slice_def)
  have "delivered (fst (read_many tls_read_end caps (tls_obfs_new es))) = later"
    if a: "unbroken es" "length skip = 105" "arriving es = skip @ w" "\<forall>n \<in> set caps. 0 < n" "length later + waits es < length caps"
    for es caps skip
  proof -
    have "to_owes (tls_obfs_new es) later" using a(1-3) un by (simp add: to_owes_def tls_obfs_new_def HELLO_SKIP_def)
    moreover obtain rs v where rs: "read_many tls_read_end caps (tls_obfs_new es) = (rs, v)" by fastforce
    ultimately show ?thesis using tls_reader.read_to_end(4) [OF _ a(4) rs] a(5) by (simp add: tls_obfs_new_def)
  qed
  then show ?thesis using u(1) c(1,4) t unfolding later_def w_def by blast
qed

theorem tls_obfs_roundtrip_witness:
  "\<exists>u rnd first later w. offer_all tls_obfs_write 9 (\<lambda>i. (1, 2, word_of_nat i)) [7, 8, 9]
        (tls_uplink_new \<lparr>slots = [Accept 100, Block, Accept 2], written = []\<rparr> ''h'') = (Some True, u)
    \<and> [7, 8, 9] = first @ later \<and> written (tu_sink u) = build_tls_client_hello rnd (as_bytes ''h'') first @ w
    \<and> slice 142 (142 + length first) (written (tu_sink u)) = first
    \<and> delivered (fst (read_many tls_read_end [1, 1, 5, 5, 5] (tls_obfs_new [Data (replicate 105 0), Wait, Data w]))) = later"
proof -
  let ?k = "\<lparr>slots = [Accept 100, Block, Accept 2], written = []\<rparr>"
  have g: "sink_good ?k" by (simp add: sink_good_def)
  obtain u rnd first later w where u: "offer_all tls_obfs_write 9 (\<lambda>i. (1, 2, word_of_nat i)) [7, 8, 9] (tls_uplink_new ?k ''h'') = (Some True, u)"
    "[7, 8, 9] = first @ later" "written (tu_sink u) = build_tls_client_hello rnd (as_bytes ''h'') first @ w"
    "slice 142 (142 + length first) (written (tu_sink u)) = first"
    "\<forall>es caps skip. unbroken es \<and> length skip = 105 \<and> arriving es = skip @ w \<and> (\<forall>n \<in> set caps. 0 < n)
        \<and> length later + waits es < length caps \<longrightarrow>
        delivered (fst (read_many tls_read_end caps (tls_obfs_new es))) = later"
    using tls_obfs_roundtrip [OF _ g, of "[7, 8, 9]" 9 "\<lambda>i. (1, 2, word_of_nat i)" "''h''"] by auto
  have "length (first @ later) = 3" unfolding u(2) [symmetric] by simp
  then have "length later + 1 < 5" by simp
  then have "delivered (fst (read_many tls_read_end [1, 1, 5, 5, 5] (tls_obfs_new [Data (replicate 105 0), Wait, Data w]))) = later"
    by (intro u(5) [rule_format, of _ "replicate 105 0"]) (simp add: unbroken_def)
  then show ?thesis using u(1-4) by blast
qed

section \<open>Dialling Shadowsocks\<close>

text \<open>The plugin is put under the cipher, and the address of the target is what is written first.\<close>

definition dial_ss :: "ss_options \<Rightarrow> rstr \<Rightarrow> u16 \<Rightarrow> fault + plugin_layer \<times> ss_cipher \<times> bytes" where
  "dial_ss options dest_host dest_port =
     (case ss_plugin_layer options of
        Inl e \<Rightarrow> Inl (Fault e)
      | Inr layer \<Rightarrow>
          (case ss_cipher_parse (ss_method options) of
             None \<Rightarrow> Inl (Fault AuthRequired)
           | Some kind \<Rightarrow>
               bind_result (write_socks_port_last dest_host dest_port (replicate (2 + MAX_LENGTH) 0))
                 (\<lambda>(n, header). Inr (layer, kind, take n header))))"

lemma dial_ss_header:
  assumes "host_ok host" "ss_cipher_parse (ss_method opts) = Some kind"
    and "ss_plugin opts = None \<and> layer = Plain \<or>
      (\<exists>p. ss_plugin opts = Some p \<and> apply_plugin p (ss_plugin_opts opts) (ss_host opts) = Inr layer)"
  shows "dial_ss opts host port = Inr (layer, kind, address_bytes host 1 3 4 @ to_be16 port)"
  using assms by (auto simp: dial_ss_def ss_plugin_layer_def write_socks_port_last_eq MAX_LENGTH_def Let_def)

text \<open>The filter of the catalogue trims the plugin's name, the step that turns a \<^verbatim>\<open>v2ray-plugin\<close> into
  WebSocket options does not: with a blank around it the node is offered and its dial refused.\<close>

lemma blank_v2ray_plugin_refused:
  "ss_plugin_ok (default_node\<lparr>pn_plugin := Some '' v2ray-plugin''\<rparr>)"
  "pn_plugin (normalize_ss_plugin (default_node\<lparr>pn_plugin := Some '' v2ray-plugin''\<rparr>)) = Some '' v2ray-plugin''"
  "apply_plugin '' v2ray-plugin'' opts host = Inl TransportUpgradeFailed"
proof -
  have "lowercase (trim '' v2ray-plugin'') = ''v2ray-plugin''" "lowercase '' v2ray-plugin'' = '' v2ray-plugin''" by code_simp+
  then show "ss_plugin_ok (default_node\<lparr>pn_plugin := Some '' v2ray-plugin''\<rparr>)"
    "pn_plugin (normalize_ss_plugin (default_node\<lparr>pn_plugin := Some '' v2ray-plugin''\<rparr>)) = Some '' v2ray-plugin''"
    "apply_plugin '' v2ray-plugin'' opts host = Inl TransportUpgradeFailed"
    by (simp_all add: ss_plugin_ok_def normalize_ss_plugin_def apply_plugin_def Let_def unwrap_or_def)
qed

end
