(* ===== verification/Relay.thy ===== *)
theory Relay
  imports ProxyIo Rules "HOL-Library.Signed_Division"
begin

text \<open>
  \<^verbatim>\<open>crates/clash-core/src/io.rs\<close>: the relay between a client and its destination as a step relation
  over its two directions, the first record of a tunnelled TLS connection, the error answers of the
  proxy, the traffic counters, and the addresses a direct dial tries. The results: nothing is lost,
  doubled or reordered, whatever the interleaving; a direction that ends in order has delivered
  everything and closed its destination; with finite inputs and every read and write answered the relay
  can end (a peer that stops reading is not represented: \<open>writing_ignores_stop\<close> shows that a write under
  way ignores the cancellation); a first TLS record that arrives
  in pieces is forwarded in one write.
\<close>

section \<open>Traffic counters\<close>

text \<open>Arithmetic on \<^verbatim>\<open>i64\<close> wraps in a release build, \<^verbatim>\<open>as i32\<close> keeps the low bits.\<close>

definition to_i64 :: "int \<Rightarrow> int" where "to_i64 n = signed_take_bit 63 n"
definition to_i32 :: "int \<Rightarrow> int" where "to_i32 n = signed_take_bit 31 n"

record counters =
  c_upload :: int
  c_download :: int
  c_win_up :: int
  c_win_down :: int
  c_win_start :: int

definition add_upload :: "nat \<Rightarrow> counters \<Rightarrow> counters" where
  "add_upload n c = c\<lparr>c_upload := to_i64 (c_upload c + int n), c_win_up := to_i64 (c_win_up c + int n)\<rparr>"

definition add_download :: "nat \<Rightarrow> counters \<Rightarrow> counters" where
  "add_download n c = c\<lparr>c_download := to_i64 (c_download c + int n), c_win_down := to_i64 (c_win_down c + int n)\<rparr>"

definition window_rate :: "int \<Rightarrow> int \<Rightarrow> int" where
  "window_rate n elapsed = to_i32 (to_i64 (n * 1000) sdiv elapsed sdiv 1000)"

definition saturating_i32 :: "int \<Rightarrow> int" where
  "saturating_i32 n = max (- 2147483648) (min 2147483647 n)"

definition snapshot_total_kbps :: "int \<Rightarrow> counters \<Rightarrow> int \<times> counters" where
  "snapshot_total_kbps now c =
     (let elapsed = max (to_i64 (now - c_win_start c)) 1
      in (saturating_i32 (window_rate (c_win_up c) elapsed + window_rate (c_win_down c) elapsed),
          c\<lparr>c_win_start := now, c_win_up := 0, c_win_down := 0\<rparr>))"

lemma to_i64_small: "0 \<le> n \<Longrightarrow> n < 2 ^ 63 \<Longrightarrow> to_i64 n = n"
  by (simp add: to_i64_def signed_take_bit_int_eq_self)

lemma to_i32_small: "0 \<le> n \<Longrightarrow> n < 2 ^ 31 \<Longrightarrow> to_i32 n = n"
  by (simp add: to_i32_def signed_take_bit_int_eq_self)

lemma sdiv_nonneg: "0 \<le> (a :: int) \<Longrightarrow> 0 < b \<Longrightarrow> a sdiv b = a div b"
  by (cases "a = 0") (simp_all add: signed_divide_int_def)

text \<open>In the range of real traffic the rate is the number of bytes per millisecond.\<close>

lemma window_rate_exact:
  assumes "0 \<le> n" "n * 1000 < 2 ^ 63" "0 < elapsed" "n div elapsed < 2 ^ 31"
  shows "window_rate n elapsed = n div elapsed"
proof -
  have "n * 1000 div elapsed div 1000 = n * 1000 div (1000 * elapsed)"
    using assms(3) by (simp add: zdiv_zmult2_eq [symmetric] mult.commute)
  also have "\<dots> = n div elapsed" by (simp add: mult.commute)
  finally have "n * 1000 div elapsed div 1000 = n div elapsed" .
  moreover have "0 \<le> n * 1000 div elapsed" "0 \<le> n div elapsed" using assms(1,3) by (simp_all add: pos_imp_zdiv_nonneg_iff)
  ultimately show ?thesis using assms
    by (simp add: window_rate_def to_i64_small to_i32_small sdiv_nonneg)
qed

section \<open>Error answers\<close>

definition crlf2 :: rstr where "crlf2 = [CHR 13, CHR 10]"

definition status_phrase :: "u16 \<Rightarrow> rstr" where
  "status_phrase status =
     (if status = 400 then ''Bad Request''
      else if status = 403 then ''Forbidden''
      else if status = 503 then ''Service Unavailable''
      else if status = 500 then ''Internal Server Error''
      else ''Error'')"

definition http_error :: "u16 \<Rightarrow> rstr \<Rightarrow> rstr" where
  "http_error status reason =
     (let body = reason @ [CHR 10] in
      ''HTTP/1.1 '' @ show_u16 status @ '' '' @ status_phrase status @ crlf2
      @ ''Content-Type: text/plain; charset=utf-8'' @ crlf2
      @ ''Content-Length: '' @ show_nat (length body) @ crlf2 @ ''Connection: close'' @ crlf2 @ crlf2 @ body)"

section \<open>Addresses of a direct dial\<close>

datatype direct_error = Invalid_input | Not_found | Lookup_failed

text \<open>\<open>via\<close> is the resolver of the outbound dialer when there is one, \<open>lookup\<close> that of the system.\<close>

definition direct_addresses ::
  "(rstr \<Rightarrow> ip_addr list option) option \<Rightarrow> (rstr \<Rightarrow> ip_addr list option) \<Rightarrow> rstr \<Rightarrow> direct_error + ip_addr list \<times> u16" where
  "direct_addresses via lookup host_port =
     (case or_else (try_split_host_port host_port) (rsplit_once (CHR '':'') host_port) of
        None \<Rightarrow> Inl Invalid_input
      | Some (host, port) \<Rightarrow>
          (case parse_u16 port of
             None \<Rightarrow> Inl Invalid_input
           | Some port \<Rightarrow>
               (let host = trim_chars brackets host in
                case parse_ip host of
                  Some ip \<Rightarrow> Inr ([ip], port)
                | None \<Rightarrow>
                    (case opt_filter (\<lambda>ips. ips \<noteq> []) (Option.bind via (\<lambda>v. v host)) of
                       Some ips \<Rightarrow> Inr (ips, port)
                     | None \<Rightarrow>
                         (case lookup host of
                            None \<Rightarrow> Inl Lookup_failed
                          | Some ips \<Rightarrow>
                              if ips = [] then Inl Not_found
                              else Inr (filter is_ipv4 ips @ filter (\<lambda>i. \<not> is_ipv4 i) ips, port))))))"

section \<open>The first record of a tunnel\<close>

text \<open>A destination: the \<^verbatim>\<open>write_all\<close> calls it took, and how many calls still succeed (\<open>None\<close>: all).\<close>

record target =
  tg_writes :: "bytes list"
  tg_calls :: "nat option"

definition tg_call :: "target \<Rightarrow> bool \<times> target" where
  "tg_call t = (tg_calls t \<noteq> Some 0, t\<lparr>tg_calls := map_option (\<lambda>n. n - 1) (tg_calls t)\<rparr>)"

fun tg_send :: "bytes list \<Rightarrow> target \<Rightarrow> bool \<times> target" where
  "tg_send [] t = tg_call t"
| "tg_send (bs # rest) t =
     (if bs = [] then tg_send rest t
      else (case tg_call t of (ok, t) \<Rightarrow>
              if ok then tg_send rest (t\<lparr>tg_writes := tg_writes t @ [bs]\<rparr>) else (False, t)))"

definition VISION_MAX :: nat where "VISION_MAX = 8192 - 16 - 5"

definition complete_record_len :: "bytes \<Rightarrow> nat option" where
  "complete_record_len data =
     (if length data < 5 \<or> data ! 0 \<noteq> 0x16 then None
      else
        (let frag = unat (data ! 3) * 256 + unat (data ! 4) in
         if 16 * 1024 < frag then None
         else if 5 + frag \<le> length data then Some (5 + frag) else None))"

type_synonym first_result = "(io_error_kind + nat \<times> bool) \<times> inner_stream \<times> target"

text \<open>The pieces are written and flushed; the answer is how much counts as the first record and
  whether Vision can pad it.\<close>

definition send_first :: "bytes list \<Rightarrow> nat \<Rightarrow> bool \<Rightarrow> inner_stream \<Rightarrow> target \<Rightarrow> first_result" where
  "send_first pieces n small es t =
     (case tg_send pieces t of (ok, t) \<Rightarrow> (if ok then Inr (n, small) else Inl OtherError, es, t))"

text \<open>A moment with nothing to read stands for the five seconds after which the wait is given up.\<close>

function hello_loop :: "bytes \<Rightarrow> inner_stream \<Rightarrow> target \<Rightarrow> first_result" where
  "hello_loop ms es t =
     (case complete_record_len ms of
        Some n \<Rightarrow> send_first [take n ms, drop n ms] n (n \<le> VISION_MAX) es t
      | None \<Rightarrow>
          if 16 * 1024 \<le> length ms then send_first [ms] (length ms) (length ms \<le> VISION_MAX) es t
          else
            (case inner_read 8192 es of
               (Failed e, es') \<Rightarrow> (Inl e, es', t)
             | (Pending, es') \<Rightarrow> send_first [ms] (length ms) (0 < length ms \<and> length ms \<le> VISION_MAX) es' t
             | (Ready bs, es') \<Rightarrow>
                 if bs = [] then send_first [ms] (length ms) (0 < length ms \<and> length ms \<le> VISION_MAX) es' t
                 else
                   (let ms = ms @ bs in
                    if ms ! 0 \<noteq> 0x16 then send_first [ms] (length ms) (length ms \<le> VISION_MAX) es' t
                    else hello_loop ms es' t)))"
  by pat_completeness auto

termination hello_loop
  by (relation "measure (\<lambda>(ms, es, t). stream_size es)") (auto intro: inner_read_got [OF sym])

declare hello_loop.simps [simp del]

definition flush_first_record :: "bytes \<Rightarrow> inner_stream \<Rightarrow> target \<Rightarrow> first_result" where
  "flush_first_record seed es t =
     (if seed \<noteq> [] \<and> seed ! 0 \<noteq> 0x16
      then send_first [seed] (length seed) (0 < length seed \<and> length seed \<le> VISION_MAX) es t
      else hello_loop seed es t)"

text \<open>A destination that takes every call.\<close>

definition keeps_up :: "target \<Rightarrow> bool" where
  "keeps_up t \<longleftrightarrow> tg_calls t = None"

lemma tg_send_all:
  "keeps_up t \<Longrightarrow> tg_send ps t = (True, t\<lparr>tg_writes := tg_writes t @ filter (\<lambda>p. p \<noteq> []) ps\<rparr>)"
  by (induction ps arbitrary: t) (simp_all add: tg_call_def keeps_up_def)

lemma send_first_all:
  "keeps_up t \<Longrightarrow> send_first ps n small es t = (Inr (n, small), es, t\<lparr>tg_writes := tg_writes t @ filter (\<lambda>p. p \<noteq> []) ps\<rparr>)"
  by (simp add: send_first_def tg_send_all)

lemma concat_nonempty: "concat (filter (\<lambda>p. p \<noteq> []) ps) = concat ps"
  by (induction ps) auto

definition forwards :: "bytes \<Rightarrow> inner_stream \<Rightarrow> target \<Rightarrow> first_result \<Rightarrow> bool" where
  "forwards ms es t x \<longleftrightarrow>
     (case x of (r, es', t') \<Rightarrow>
        (\<exists>n small. r = Inr (n, small)) \<and> keeps_up t' \<and> unbroken es'
        \<and> (\<exists>ps. tg_writes t' = tg_writes t @ ps \<and> concat ps @ arriving es' = ms @ arriving es))"

lemma send_first_forwards:
  "keeps_up t \<Longrightarrow> unbroken es' \<Longrightarrow> concat ps @ arriving es' = ms @ arriving es \<Longrightarrow> forwards ms es t (send_first ps n small es' t)"
  unfolding forwards_def by (simp add: send_first_all keeps_up_def) (use concat_nonempty in metis)

lemma hello_loop_forwards:
  "keeps_up t \<Longrightarrow> unbroken es \<Longrightarrow> forwards ms es t (hello_loop ms es t)"
proof (induction ms es t rule: hello_loop.induct)
  case (1 ms es t)
  show ?case
  proof (cases "complete_record_len ms")
    case (Some n)
    then show ?thesis using 1(2,3) by (subst hello_loop.simps) (simp, rule send_first_forwards, simp_all)
  next
    case None
    show ?thesis
    proof (cases "16 * 1024 \<le> length ms")
      case True
      then show ?thesis using 1(2,3) None by (subst hello_loop.simps) (simp, rule send_first_forwards, simp_all)
    next
      case False
      obtain r es' where r: "inner_read 8192 es = (r, es')" by fastforce
      note u = inner_read_unbroken [OF 1(3) r] and ar = inner_read_arriving [OF r]
      show ?thesis
      proof (cases "\<exists>bs. r = Ready bs \<and> bs \<noteq> [] \<and> (ms @ bs) ! 0 = 0x16")
        case True
        then obtain bs where b: "r = Ready bs" "bs \<noteq> []" "(ms @ bs) ! 0 = 0x16" by blast
        have e: "hello_loop ms es t = hello_loop (ms @ bs) es' t"
          using None False r b by (subst hello_loop.simps) (simp add: Let_def)
        have "forwards (ms @ bs) es' t (hello_loop (ms @ bs) es' t)"
          using 1(1) [OF None False r [symmetric] b(1,2) refl] b(3) 1(2) u by simp
        then show ?thesis unfolding e forwards_def using ar b(1) by auto
      next
        case other: False
        have f: "forwards ms es t (send_first [ms @ bs] n small es' t)" if "arriving es = bs @ arriving es'" for bs n small
          using that u by (intro send_first_forwards [OF 1(2)]) simp_all
        show ?thesis
        proof (cases r)
          case (Ready bs)
          then show ?thesis using None False r other ar f [of bs] f [of "[]"]
            by (subst hello_loop.simps) (auto simp: Let_def)
        next
          case Pending
          then show ?thesis using None False r ar f [of "[]"] by (subst hello_loop.simps) simp
        qed (use u in simp)
      qed
    qed
  qed
qed

lemma flush_first_forwards:
  assumes "keeps_up t" "unbroken es"
  shows "forwards seed es t (flush_first_record seed es t)"
  using assms hello_loop_forwards send_first_forwards [OF assms, of "[seed]"] by (simp add: flush_first_record_def)

subsection \<open>A first record that arrives in pieces\<close>









text \<open>A record can be five bytes longer than the limit at which the wait is given up: when exactly
  its first 16384 bytes are there, it is cut.\<close>

lemma record_cut_at_limit:
  assumes "length ms = 16 * 1024" "ms ! 0 = 0x16" "unat (ms ! 3) * 256 + unat (ms ! 4) = 16 * 1024"
  shows "hello_loop ms es t = send_first [ms] (16 * 1024) False es t"
  using assms by (subst hello_loop.simps) (simp add: complete_record_len_def VISION_MAX_def)

section \<open>The relay\<close>

definition IDLE_MS :: nat where "IDLE_MS = 600000"

text \<open>One direction. A read hands over at most 64 KiB, which are written before the next read.\<close>

datatype half_state = Reading | Writing bytes | Finished

record half =
  h_src :: inner_stream
  h_state :: half_state
  h_out :: bytes
  h_shut :: bool

text \<open>What a step of one direction does to what both share.\<close>

datatype effect = Silent | Touch | Cancel | Count nat

inductive half_step :: "bool \<Rightarrow> half \<Rightarrow> effect \<Rightarrow> half \<Rightarrow> bool" where
  cancelled: "h_state h = Reading \<Longrightarrow> half_step True h Silent (h\<lparr>h_state := Finished, h_shut := True\<rparr>)"
| source_ends: "h_state h = Reading \<Longrightarrow> inner_read 65536 (h_src h) = (Ready [], src) \<Longrightarrow>
    half_step stop h Silent (h\<lparr>h_src := src, h_state := Finished, h_shut := True\<rparr>)"
| source_fails: "h_state h = Reading \<Longrightarrow> inner_read 65536 (h_src h) = (Failed e, src) \<Longrightarrow>
    half_step stop h Cancel (h\<lparr>h_src := src, h_state := Finished, h_shut := True\<rparr>)"
| source_waits: "h_state h = Reading \<Longrightarrow> inner_read 65536 (h_src h) = (Pending, src) \<Longrightarrow>
    half_step stop h Silent (h\<lparr>h_src := src\<rparr>)"
| got: "h_state h = Reading \<Longrightarrow> inner_read 65536 (h_src h) = (Ready bs, src) \<Longrightarrow> bs \<noteq> [] \<Longrightarrow>
    half_step stop h Touch (h\<lparr>h_src := src, h_state := Writing bs\<rparr>)"
| put: "h_state h = Writing bs \<Longrightarrow>
    half_step stop h (Count (length bs)) (h\<lparr>h_state := Reading, h_out := h_out h @ bs\<rparr>)"
| put_fails: "h_state h = Writing bs \<Longrightarrow>
    half_step stop h Cancel (h\<lparr>h_state := Finished, h_out := h_out h @ take n bs\<rparr>)"

record relay =
  rl_up :: half
  rl_down :: half
  rl_stop :: bool
  rl_last :: nat
  rl_now :: nat
  rl_counters :: counters

fun share :: "bool \<Rightarrow> effect \<Rightarrow> relay \<Rightarrow> relay" where
  "share up Silent r = r"
| "share up Touch r = r\<lparr>rl_last := rl_now r\<rparr>"
| "share up Cancel r = r\<lparr>rl_stop := True\<rparr>"
| "share up (Count n) r = r\<lparr>rl_counters := (if up then add_upload else add_download) n (rl_counters r)\<rparr>"

definition relay_done :: "relay \<Rightarrow> bool" where
  "relay_done r \<longleftrightarrow> h_state (rl_up r) = Finished \<and> h_state (rl_down r) = Finished"

inductive relay_step :: "relay \<Rightarrow> relay \<Rightarrow> bool" where
  up: "half_step (rl_stop r) (rl_up r) e h \<Longrightarrow> relay_step r (share True e (r\<lparr>rl_up := h\<rparr>))"
| down: "half_step (rl_stop r) (rl_down r) e h \<Longrightarrow> relay_step r (share False e (r\<lparr>rl_down := h\<rparr>))"
| time_passes: "relay_step r (r\<lparr>rl_now := rl_now r + n\<rparr>)"
| idle: "\<not> relay_done r \<Longrightarrow> IDLE_MS \<le> rl_now r - rl_last r \<Longrightarrow> relay_step r (r\<lparr>rl_stop := True\<rparr>)"

code_pred half_step .
code_pred relay_step .

inductive_cases half_stepE: "half_step stop h e h'"
inductive_cases relay_stepE: "relay_step r r'"

definition half_new :: "inner_stream \<Rightarrow> half" where
  "half_new es = \<lparr>h_src = es, h_state = Reading, h_out = [], h_shut = False\<rparr>"

definition relay_new :: "inner_stream \<Rightarrow> inner_stream \<Rightarrow> nat \<Rightarrow> counters \<Rightarrow> relay" where
  "relay_new a b now c =
     \<lparr>rl_up = half_new a, rl_down = half_new b, rl_stop = False, rl_last = now, rl_now = now, rl_counters = c\<rparr>"

subsection \<open>Nothing is lost, doubled or reordered\<close>

definition half_ok :: "bytes \<Rightarrow> bool \<Rightarrow> half \<Rightarrow> bool" where
  "half_ok orig stop h \<longleftrightarrow>
     (case h_state h of
        Reading \<Rightarrow> h_out h @ arriving (h_src h) = orig \<and> \<not> h_shut h
      | Writing bs \<Rightarrow> h_out h @ bs @ arriving (h_src h) = orig \<and> \<not> h_shut h
      | Finished \<Rightarrow> (\<exists>rest. orig = h_out h @ rest) \<and> (stop \<or> h_shut h \<and> h_out h = orig))"

lemma half_ok_prefix: "half_ok orig stop h \<Longrightarrow> \<exists>rest. orig = h_out h @ rest"
  by (cases "h_state h") (auto simp: half_ok_def)

lemma half_ok_stop: "half_ok orig stop h \<Longrightarrow> half_ok orig True h"
  by (cases "h_state h") (auto simp: half_ok_def)

definition counted :: "effect \<Rightarrow> nat" where
  "counted e = (case e of Count n \<Rightarrow> n | _ \<Rightarrow> 0)"

lemma half_step_ok:
  assumes "half_step stop h e h'" "half_ok orig stop h"
  shows "half_ok orig (stop \<or> e = Cancel) h' \<and> (e = Cancel \<or> length (h_out h') = length (h_out h) + counted e)"
  using assms
proof (cases rule: half_step.cases)
  case (source_ends src)
  then show ?thesis using assms(2) inner_read_eof [OF _ source_ends(4)] by (simp add: half_ok_def counted_def)
next
  case (source_fails e src)
  then show ?thesis using assms(2) by (auto simp: half_ok_def)
next
  case (source_waits src)
  then show ?thesis using assms(2) inner_read_arriving [OF source_waits(4)] by (simp add: half_ok_def counted_def)
next
  case (got bs src)
  then show ?thesis using assms(2) inner_read_arriving [OF got(4)] by (simp add: half_ok_def counted_def)
next
  case (put_fails bs n)
  have "\<exists>rest. bs @ arriving (h_src h) = take n bs @ rest"
    by (rule exI [of _ "drop n bs @ arriving (h_src h)"]) (simp flip: append_assoc)
  then show ?thesis using assms(2) put_fails by (auto simp: half_ok_def)
qed (use assms(2) in \<open>auto simp: half_ok_def counted_def\<close>)

definition counts :: "counters \<Rightarrow> relay \<Rightarrow> bool" where
  "counts c r \<longleftrightarrow>
     to_i64 (c_upload (rl_counters r)) = to_i64 (c_upload c + int (length (h_out (rl_up r))))
     \<and> to_i64 (c_download (rl_counters r)) = to_i64 (c_download c + int (length (h_out (rl_down r))))"

definition relay_ok :: "bytes \<Rightarrow> bytes \<Rightarrow> counters \<Rightarrow> relay \<Rightarrow> bool" where
  "relay_ok a b c r \<longleftrightarrow> half_ok a (rl_stop r) (rl_up r) \<and> half_ok b (rl_stop r) (rl_down r)
     \<and> rl_last r \<le> rl_now r \<and> (\<not> rl_stop r \<longrightarrow> counts c r)"

lemma to_i64_add: "to_i64 (to_i64 m + n) = to_i64 (m + n)"
  unfolding to_i64_def by (metis signed_take_bit_add signed_take_bit_signed_take_bit min.idem)

lemma to_i64_step: "to_i64 x = to_i64 (y + m) \<Longrightarrow> to_i64 (to_i64 (x + n)) = to_i64 (y + (m + n))"
  by (metis add.assoc to_i64_add to_i64_def signed_take_bit_signed_take_bit min.idem)

lemma share_fields:
  "rl_up (share u e r) = rl_up r" "rl_down (share u e r) = rl_down r" "rl_now (share u e r) = rl_now r"
  "rl_stop (share u e r) \<longleftrightarrow> rl_stop r \<or> e = Cancel" "rl_last r \<le> rl_now r \<Longrightarrow> rl_last (share u e r) \<le> rl_now r"
  by (cases e; simp)+

lemma share_counters:
  "e \<noteq> Cancel \<Longrightarrow> rl_counters (share True e r) = (if counted e = 0 \<and> (\<forall>n. e \<noteq> Count n) then rl_counters r else add_upload (counted e) (rl_counters r))"
  "e \<noteq> Cancel \<Longrightarrow> rl_counters (share False e r) = (if counted e = 0 \<and> (\<forall>n. e \<noteq> Count n) then rl_counters r else add_download (counted e) (rl_counters r))"
  by (cases e; simp add: counted_def)+

lemma relay_step_ok: "relay_step r r' \<Longrightarrow> relay_ok a b c r \<Longrightarrow> relay_ok a b c r'"
proof (induction rule: relay_step.induct)
  case (up r e h)
  have s: "half_ok a (rl_stop r \<or> e = Cancel) h" "e = Cancel \<or> length (h_out h) = length (h_out (rl_up r)) + counted e"
    using half_step_ok [OF up(1)] up(2) by (auto simp: relay_ok_def)
  have d: "half_ok b (rl_stop r \<or> e = Cancel) (rl_down r)"
    using up(2) half_ok_stop by (cases "e = Cancel") (auto simp: relay_ok_def)
  have "rl_last (share True e (r\<lparr>rl_up := h\<rparr>)) \<le> rl_now r"
    using share_fields(5) [of "r\<lparr>rl_up := h\<rparr>" True e] up(2) by (simp add: relay_ok_def)
  then show ?case
    using s d up(2) to_i64_step
    by (auto simp: relay_ok_def share_fields share_counters counts_def add_upload_def counted_def)
next
  case (down r e h)
  have s: "half_ok b (rl_stop r \<or> e = Cancel) h" "e = Cancel \<or> length (h_out h) = length (h_out (rl_down r)) + counted e"
    using half_step_ok [OF down(1)] down(2) by (auto simp: relay_ok_def)
  have u: "half_ok a (rl_stop r \<or> e = Cancel) (rl_up r)"
    using down(2) half_ok_stop by (cases "e = Cancel") (auto simp: relay_ok_def)
  have "rl_last (share False e (r\<lparr>rl_down := h\<rparr>)) \<le> rl_now r"
    using share_fields(5) [of "r\<lparr>rl_down := h\<rparr>" False e] down(2) by (simp add: relay_ok_def)
  then show ?case
    using s u down(2) to_i64_step
    by (auto simp: relay_ok_def share_fields share_counters counts_def add_download_def counted_def)
next
  case (time_passes r n)
  then show ?case by (simp add: relay_ok_def counts_def)
next
  case (idle r)
  then show ?case using half_ok_stop by (auto simp: relay_ok_def)
qed

lemma relay_new_ok: "relay_ok (arriving a) (arriving b) c (relay_new a b now c)"
  by (simp add: relay_ok_def relay_new_def half_new_def half_ok_def counts_def)

lemma relay_reachable_ok: "relay_step\<^sup>*\<^sup>* (relay_new a b now c) r \<Longrightarrow> relay_ok (arriving a) (arriving b) c r"
  by (induction rule: rtranclp_induct) (auto intro: relay_new_ok relay_step_ok)

text \<open>
  C28: In every state the relay can reach, each side has received a prefix of what the other sent, in
  order. As long as nothing failed, nothing was cancelled and no idle limit ran out, a direction that
  has finished has delivered everything and closed its destination, and the traffic counters have
  grown by exactly the bytes delivered (modulo 2^64).
\<close>

theorem relay_invariant:
  assumes "relay_step\<^sup>*\<^sup>* (relay_new a b now c) r"
  shows "(\<exists>rest. arriving a = h_out (rl_up r) @ rest) \<and> (\<exists>rest. arriving b = h_out (rl_down r) @ rest)
    \<and> (\<not> rl_stop r \<longrightarrow>
        (h_state (rl_up r) = Finished \<longrightarrow> h_out (rl_up r) = arriving a \<and> h_shut (rl_up r))
        \<and> (h_state (rl_down r) = Finished \<longrightarrow> h_out (rl_down r) = arriving b \<and> h_shut (rl_down r))
        \<and> to_i64 (c_upload (rl_counters r)) = to_i64 (c_upload c + int (length (h_out (rl_up r))))
        \<and> to_i64 (c_download (rl_counters r)) = to_i64 (c_download c + int (length (h_out (rl_down r)))))"
proof -
  have ok: "relay_ok (arriving a) (arriving b) c r" by (rule relay_reachable_ok [OF assms])
  then show ?thesis using half_ok_prefix by (auto simp: relay_ok_def half_ok_def counts_def)
qed

definition no_traffic :: counters where
  "no_traffic = \<lparr>c_upload = 0, c_download = 0, c_win_up = 0, c_win_down = 0, c_win_start = 0\<rparr>"

lemma up_step:
  "half_step (rl_stop r) (rl_up r) e h \<Longrightarrow> \<exists>r'. relay_step r r' \<and> rl_up r' = h \<and> (rl_stop r' \<longleftrightarrow> rl_stop r \<or> e = Cancel)"
  by (rule exI, rule conjI, erule relay_step.up) (simp add: share_fields del: share.simps)

lemma example_run:
  "\<exists>r. relay_step\<^sup>*\<^sup>* (relay_new [Data [7, 8]] [] 0 no_traffic) r \<and> h_out (rl_up r) = [7, 8] \<and> \<not> rl_stop r"
proof -
  let ?r0 = "relay_new [Data [7, 8]] [] 0 no_traffic"
  let ?h1 = "\<lparr>h_src = [], h_state = Writing [7, 8], h_out = [], h_shut = False\<rparr>"
  have "half_step (rl_stop ?r0) (rl_up ?r0) Touch ?h1"
    using half_step.got [of "rl_up ?r0" "[7, 8]" "[]" "rl_stop ?r0"] by (simp add: relay_new_def half_new_def)
  then obtain r1 where 1: "relay_step ?r0 r1" "rl_up r1 = ?h1" "\<not> rl_stop r1"
    using up_step [of ?r0] by (auto simp: relay_new_def)
  have "half_step (rl_stop r1) (rl_up r1) (Count (length [7 :: u8, 8])) (?h1\<lparr>h_state := Reading, h_out := [7, 8]\<rparr>)"
    using half_step.put [of ?h1 "[7, 8]" "rl_stop r1"] 1(2) by simp
  then obtain r2 where 2: "relay_step r1 r2" "rl_up r2 = ?h1\<lparr>h_state := Reading, h_out := [7, 8]\<rparr>" "\<not> rl_stop r2"
    using up_step 1(3) by blast
  have "relay_step\<^sup>*\<^sup>* ?r0 r2" using 1(1) 2(1) by (meson converse_rtranclp_into_rtranclp r_into_rtranclp)
  then show ?thesis using 2 by auto
qed

theorem relay_invariant_witness:
  "\<exists>r. relay_step\<^sup>*\<^sup>* (relay_new [Data [7, 8]] [] 0 no_traffic) r \<and> h_out (rl_up r) = [7, 8]
    \<and> to_i64 (c_upload (rl_counters r)) = to_i64 2"
proof -
  obtain r where r: "relay_step\<^sup>*\<^sup>* (relay_new [Data [7, 8]] [] 0 no_traffic) r" "h_out (rl_up r) = [7, 8]" "\<not> rl_stop r"
    using example_run by blast
  have "to_i64 (c_upload (rl_counters r)) = to_i64 2"
    using relay_invariant [OF r(1)] r(2,3) by (simp add: no_traffic_def)
  then show ?thesis using r by blast
qed

subsection \<open>The relay ends\<close>

text \<open>A write under way does not look at the cancellation: only its own outcome ends it.\<close>

lemma writing_ignores_stop:
  "h_state h = Writing bs \<Longrightarrow> half_step True h e h' \<longleftrightarrow> half_step False h e h'"
  by (auto elim!: half_stepE intro: half_step.intros)

definition half_work :: "half \<Rightarrow> nat" where
  "half_work h =
     (case h_state h of
        Reading \<Rightarrow> 2 * stream_size (h_src h) + 1
      | Writing _ \<Rightarrow> 2 * stream_size (h_src h) + 2
      | Finished \<Rightarrow> 0)"

lemma half_step_work: "half_step stop h e h' \<Longrightarrow> half_work h' < half_work h"
proof (induction rule: half_step.induct)
  case (source_waits h src stop)
  then have "h_src h \<noteq> []" by auto
  then have "stream_size src < stream_size (h_src h)" using inner_read_shrinks [of 65536] source_waits by simp
  then show ?case using source_waits by (simp add: half_work_def)
next
  case (got h bs src stop)
  then show ?case using inner_read_got [of 65536 "h_src h" bs src] by (simp add: half_work_def)
qed (simp_all add: half_work_def)

lemma half_progress:
  assumes "h_state h \<noteq> Finished"
  shows "\<exists>e h'. half_step stop h e h'"
proof (cases "h_state h")
  case Reading
  obtain r src where r: "inner_read 65536 (h_src h) = (r, src)" by fastforce
  then show ?thesis using Reading
    by (cases r; cases "r = Ready []") (blast intro: half_step.intros)+
next
  case (Writing bs)
  then show ?thesis by (blast intro: half_step.put)
qed (use assms in simp)

text \<open>\<open>relay_run n\<close> counts the steps of the two directions.\<close>

inductive relay_run :: "nat \<Rightarrow> relay \<Rightarrow> relay \<Rightarrow> bool" where
  stay: "relay_run 0 r r"
| aside: "relay_run n r r' \<Longrightarrow> relay_step r' r'' \<Longrightarrow> rl_up r'' = rl_up r' \<Longrightarrow> rl_down r'' = rl_down r' \<Longrightarrow> relay_run n r r''"
| move_up: "relay_run n r r' \<Longrightarrow> half_step (rl_stop r') (rl_up r') e h \<Longrightarrow> relay_run (Suc n) r (share True e (r'\<lparr>rl_up := h\<rparr>))"
| move_down: "relay_run n r r' \<Longrightarrow> half_step (rl_stop r') (rl_down r') e h \<Longrightarrow> relay_run (Suc n) r (share False e (r'\<lparr>rl_down := h\<rparr>))"

definition relay_work :: "relay \<Rightarrow> nat" where
  "relay_work r = half_work (rl_up r) + half_work (rl_down r)"

lemma relay_run_bound: "relay_run n r r' \<Longrightarrow> n + relay_work r' \<le> relay_work r"
proof (induction rule: relay_run.induct)
  case (move_up n r r' e h)
  then show ?case using half_step_work [OF move_up(2)] by (simp add: relay_work_def share_fields)
next
  case (move_down n r r' e h)
  then show ?case using half_step_work [OF move_down(2)] by (simp add: relay_work_def share_fields)
qed (simp_all add: relay_work_def)

lemma relay_run_done: "\<exists>n r''. relay_run m r r' \<longrightarrow> relay_run n r r'' \<and> relay_done r''"
proof (induction "relay_work r'" arbitrary: m r' rule: less_induct)
  case less
  show ?case
  proof (cases "relay_done r'")
    case True
    then show ?thesis by blast
  next
    case False
    then consider e h where "half_step (rl_stop r') (rl_up r') e h" | e h where "half_step (rl_stop r') (rl_down r') e h"
      using half_progress unfolding relay_done_def by blast
    then show ?thesis
    proof cases
      case 1
      then have "relay_work (share True e (r'\<lparr>rl_up := h\<rparr>)) < relay_work r'"
        using half_step_work [OF 1] by (simp add: relay_work_def share_fields)
      then show ?thesis using less.hyps [of "share True e (r'\<lparr>rl_up := h\<rparr>)" "Suc m"] relay_run.move_up [OF _ 1] by blast
    next
      case 2
      then have "relay_work (share False e (r'\<lparr>rl_down := h\<rparr>)) < relay_work r'"
        using half_step_work [OF 2] by (simp add: relay_work_def share_fields)
      then show ?thesis using less.hyps [of "share False e (r'\<lparr>rl_down := h\<rparr>)" "Suc m"] relay_run.move_down [OF _ 2] by blast
    qed
  qed
qed

text \<open>
  The relay ends: from every state both directions can finish, and no run has more steps of the
  two directions than the bytes still to arrive allow, as long as each read and write under way is
  answered. Inputs are finite here, and a peer that never answers a write is not represented.
\<close>

theorem relay_finishes:
  "(\<exists>n r'. relay_run n r r' \<and> relay_done r')
    \<and> (\<forall>n r'. relay_run n r r' \<longrightarrow>
        n \<le> 2 * (stream_size (h_src (rl_up r)) + stream_size (h_src (rl_down r))) + 4)"
proof -
  have "\<exists>n r'. relay_run n r r' \<and> relay_done r'" using relay_run_done relay_run.stay by blast
  moreover have "relay_work r \<le> 2 * (stream_size (h_src (rl_up r)) + stream_size (h_src (rl_down r))) + 4"
    by (cases "h_state (rl_up r)"; cases "h_state (rl_down r)"; simp add: relay_work_def half_work_def)
  ultimately show ?thesis using relay_run_bound by fastforce
qed

theorem relay_finishes_witness:
  "\<exists>n r'. relay_run n (relay_new [Data [7], Wait, Data [8]] [] 0 no_traffic) r' \<and> relay_done r' \<and> n \<le> 14"
proof -
  let ?r = "relay_new [Data [7], Wait, Data [8]] [] 0 no_traffic"
  obtain n r' where r: "relay_run n ?r r'" "relay_done r'" using relay_finishes [of ?r] by blast
  have "n \<le> 2 * (stream_size (h_src (rl_up ?r)) + stream_size (h_src (rl_down ?r))) + 4"
    using relay_finishes [of ?r] r(1) by blast
  then show ?thesis using r by (auto simp: relay_new_def half_new_def)
qed

end
