(* ===== verification/ShareLinks.thy ===== *)
theory ShareLinks
  imports Nodes Utf8
begin

text \<open>
  The share links of \<^verbatim>\<open>clash-core/src/config.rs\<close>: percent decoding, query strings, and the
  links for VLESS, Trojan, Shadowsocks, VMess, SOCKS and HTTP. Three libraries are arguments:
  \<open>url_parse\<close> (\<^verbatim>\<open>url::Url::parse\<close>), \<open>b64\<close> (the standard base64 decoder) and \<open>json\<close>
  (\<^verbatim>\<open>serde_json::from_str\<close>), and so is the order in which a hash map is iterated.
\<close>

section \<open>Percent decoding\<close>

text \<open>\<^verbatim>\<open>out.push(b as char)\<close>: the character with that code point, in UTF-8.\<close>

definition push_latin1 :: "u8 \<Rightarrow> rstr" where
  "push_latin1 b =
     (if unat b < 128 then [char_of (unat b)]
      else [char_of (192 + unat b div 64), char_of (128 + unat b mod 64)])"

text \<open>\<^verbatim>\<open>u8::from_str_radix\<close> on two bytes, base 16; a leading plus sign is allowed.\<close>

definition hex_val :: "char \<Rightarrow> nat" where
  "hex_val c =
     (if is_digit c then code_of c - 48 else if 97 \<le> code_of c then code_of c - 87 else code_of c - 55)"

definition hex_pair :: "char \<Rightarrow> char \<Rightarrow> u8 option" where
  "hex_pair a b =
     (if is_hexdigit a \<and> is_hexdigit b then Some (word_of_nat (16 * hex_val a + hex_val b))
      else if a = CHR ''+'' \<and> is_hexdigit b then Some (word_of_nat (hex_val b))
      else None)"

fun urlencoding_decode :: "rstr \<Rightarrow> rstr" where
  "urlencoding_decode (c # a # b # s) =
     (case (if c = CHR ''%'' then hex_pair a b else None) of
        Some v \<Rightarrow> push_latin1 v @ urlencoding_decode s
      | None \<Rightarrow> push_latin1 (byte_of c) @ urlencoding_decode (a # b # s))"
| "urlencoding_decode (c # s) = push_latin1 (byte_of c) @ urlencoding_decode s"
| "urlencoding_decode [] = []"

definition url_decode :: "rstr \<Rightarrow> rstr" where
  "url_decode s = urlencoding_decode s"

lemma url_decode_plain: "\<forall>c \<in> set s. is_ascii c \<and> c \<noteq> CHR ''%'' \<Longrightarrow> url_decode s = s"
proof -
  have p: "is_ascii c \<Longrightarrow> push_latin1 (byte_of c) = [c]" for c
    by (simp add: push_latin1_def is_ascii_def code_of_def)
  assume "\<forall>c \<in> set s. is_ascii c \<and> c \<noteq> CHR ''%''"
  then show ?thesis unfolding url_decode_def by (induction s rule: urlencoding_decode.induct) (simp_all add: p)
qed

definition parse_query_part :: "rstr \<Rightarrow> (rstr, rstr) hmap \<Rightarrow> (rstr, rstr) hmap" where
  "parse_query_part part m =
     (case split_once (CHR ''='') part of
        Some (k, v) \<Rightarrow> hm_insert (lowercase (url_decode k)) (url_decode v) m
      | None \<Rightarrow> hm_insert (url_decode part) [] m)"

definition parse_query :: "rstr \<Rightarrow> (rstr, rstr) hmap" where
  "parse_query q =
     (let q = unwrap_or q (strip_prefix ''?'' q)
      in fold parse_query_part (filter (\<lambda>s. s \<noteq> []) (split_char (CHR ''&'') q)) [])"

definition is_truthy :: "rstr option \<Rightarrow> bool" where
  "is_truthy s \<longleftrightarrow> is_some_and (\<lambda>s. s = ''1'' \<or> s = ''true'' \<or> s = ''True'' \<or> s = ''yes'') s"

section \<open>Links that are URLs\<close>

text \<open>What the program reads of a parsed URL.\<close>

record url =
  url_scheme :: rstr
  url_username :: rstr
  url_password :: "rstr option"
  url_host :: "rstr option"
  url_port :: "u16 option"
  url_path :: rstr
  url_query :: "rstr option"
  url_fragment :: "rstr option"

type_synonym url_fn = "rstr \<Rightarrow> url option"

definition fragment_name :: "url \<Rightarrow> rstr \<Rightarrow> rstr" where
  "fragment_name u fallback =
     unwrap_or fallback (opt_filter (\<lambda>s. s \<noteq> []) (map_option url_decode (url_fragment u)))"

definition query_network :: "(rstr, rstr) hmap \<Rightarrow> rstr" where
  "query_network qs =
     (let n = lowercase (unwrap_or ''tcp'' (or_else (hm_get qs ''type'') (hm_get qs ''network'')))
      in if n = ''websocket'' then ''ws'' else n)"

definition port_or_443 :: "url \<Rightarrow> u16" where
  "port_or_443 u = (if 0 < unwrap_or 0 (url_port u) then unwrap_or 0 (url_port u) else 443)"

definition parse_vless :: "url_fn \<Rightarrow> rstr \<Rightarrow> proxy_node option" where
  "parse_vless url_parse link =
     Option.bind (url_parse link) (\<lambda>u.
       let qs = parse_query (unwrap_or [] (url_query u));
           security = lowercase (trim (unwrap_or ''none'' (hm_get qs ''security'')));
           network = query_network qs;
           host = unwrap_or [] (url_host u);
           name = fragment_name u host;
           pbk = hm_get qs ''pbk'';
           security = (if is_some_and (\<lambda>s. s \<noteq> []) pbk then ''reality'' else security);
           tls = (security = ''tls'' \<or> security = ''reality'')
       in map_option (\<lambda>server. default_node\<lparr>
            pn_name := (if trim name = [] then host else name), pn_type := ''vless'', pn_server := server,
            pn_port := port_or_443 u, pn_uuid := Some (url_decode (url_username u)), pn_password := None,
            pn_tls := tls, pn_server_name := or_else (hm_get qs ''sni'') (hm_get qs ''servername''),
            pn_flow := hm_get qs ''flow'', pn_network := network, pn_client_fingerprint := hm_get qs ''fp'',
            pn_reality_public_key := pbk, pn_reality_short_id := hm_get qs ''sid'',
            pn_skip_cert_verify := is_truthy (or_else (hm_get qs ''allowinsecure'') (hm_get qs ''insecure'')),
            pn_ws_path := hm_get qs ''path'', pn_ws_host := hm_get qs ''host'', pn_security := Some security\<rparr>)
          (url_host u))"

definition parse_trojan :: "url_fn \<Rightarrow> rstr \<Rightarrow> proxy_node option" where
  "parse_trojan url_parse link =
     Option.bind (url_parse link) (\<lambda>u.
       let pw = url_decode (url_username u);
           qs = parse_query (unwrap_or [] (url_query u));
           security = lowercase (unwrap_or ''tls'' (hm_get qs ''security''));
           network = query_network qs;
           name = fragment_name u (unwrap_or [] (url_host u))
       in map_option (\<lambda>server. default_node\<lparr>
            pn_name := name, pn_type := ''trojan'', pn_server := server, pn_port := port_or_443 u,
            pn_uuid := None, pn_password := Some pw, pn_tls := (security \<noteq> ''none''),
            pn_server_name := or_else (hm_get qs ''sni'') (hm_get qs ''servername''), pn_flow := None,
            pn_network := network, pn_client_fingerprint := hm_get qs ''fp'', pn_reality_public_key := None,
            pn_reality_short_id := None,
            pn_skip_cert_verify := is_truthy (or_else (hm_get qs ''allowinsecure'') (hm_get qs ''insecure'')),
            pn_ws_path := hm_get qs ''path'', pn_ws_host := hm_get qs ''host'', pn_security := Some security\<rparr>)
          (url_host u))"

definition parse_socks_link :: "url_fn \<Rightarrow> rstr \<Rightarrow> proxy_node option" where
  "parse_socks_link url_parse link =
     Option.bind (url_parse link) (\<lambda>u. Option.bind (url_host u) (\<lambda>host.
       let user = url_decode (url_username u)
       in Some (default_node\<lparr>
            pn_name := fragment_name u host, pn_type := ''socks5'', pn_server := host,
            pn_port := unwrap_or 1080 (url_port u),
            pn_username := (if user = [] then None else Some user),
            pn_password := map_option url_decode (url_password u)\<rparr>)))"

definition parse_http_link :: "url_fn \<Rightarrow> rstr \<Rightarrow> proxy_node option" where
  "parse_http_link url_parse link =
     Option.bind (url_parse link) (\<lambda>u.
       if url_path u \<noteq> ''/'' \<and> url_path u \<noteq> [] then None
       else Option.bind (url_host u) (\<lambda>host.
         let user = url_decode (url_username u)
         in Some (default_node\<lparr>
              pn_name := fragment_name u host, pn_type := ''http'', pn_server := host,
              pn_port := unwrap_or (if url_scheme u = ''https'' then 443 else 80) (url_port u),
              pn_username := (if user = [] then None else Some user),
              pn_password := map_option url_decode (url_password u),
              pn_tls := (url_scheme u = ''https'')\<rparr>)))"

section \<open>Shadowsocks\<close>

type_synonym b64_fn = "rstr \<Rightarrow> bytes option"

definition b64_pad :: "rstr \<Rightarrow> rstr" where
  "b64_pad s = (let m = length s mod 4 in if m = 0 then s else s @ replicate (4 - m) (CHR ''=''))"

definition b64_alt :: "rstr \<Rightarrow> rstr" where
  "b64_alt s = replace_str ''_'' ''/'' (replace_str ''-'' ''+'' s)"

definition decode_b64_url :: "b64_fn \<Rightarrow> rstr \<Rightarrow> rstr option" where
  "decode_b64_url b64 s = Option.bind (or_else (b64 (b64_pad s)) (b64 (b64_pad (b64_alt s)))) from_utf8"

definition decode_ss_userinfo :: "b64_fn \<Rightarrow> rstr \<Rightarrow> rstr option" where
  "decode_ss_userinfo b64 left =
     (if CHR '':'' \<in> set left then Some (url_decode left) else decode_b64_url b64 left)"

definition split_host_port_str :: "rstr \<Rightarrow> (rstr \<times> u16) option" where
  "split_host_port_str s =
     (let s = trim s in
      case strip_prefix ''['' s of
        Some rest \<Rightarrow>
          Option.bind (split_once (CHR '']'') rest) (\<lambda>(host, rest).
            map_option (\<lambda>port. (host, port)) (parse_u16 (trim_start_chars (\<lambda>c. c = CHR '':'') rest)))
      | None \<Rightarrow>
          Option.bind (rsplit_once (CHR '':'') s) (\<lambda>(host, port).
            map_option (\<lambda>port. (host, port)) (parse_u16 port)))"

type_synonym iter_fn = "(rstr, rstr) hmap \<Rightarrow> (rstr \<times> rstr) list"

definition ss_plugin_of :: "iter_fn \<Rightarrow> (rstr, rstr) hmap \<Rightarrow> rstr option \<times> rstr option" where
  "ss_plugin_of iter qs =
     (case hm_get qs ''plugin'' of
        None \<Rightarrow> (None, None)
      | Some p \<Rightarrow>
          (case split_once (CHR '';'') p of
             Some (name, opts) \<Rightarrow> (Some name, Some opts)
           | None \<Rightarrow>
               (let ps = map (\<lambda>(k, v). k @ ''='' @ v) (filter (\<lambda>(k, v). k \<noteq> ''plugin'') (iter qs))
                in (Some p, if ps = [] then None else Some (join_with '';'' ps)))))"

text \<open>User information, host and port, and the query of the link's body.\<close>

definition ss_body :: "b64_fn \<Rightarrow> rstr \<Rightarrow> (rstr \<times> rstr \<times> rstr) option" where
  "ss_body b64 body =
     (case rfind_char (CHR ''@'') body of
        Some i \<Rightarrow>
          (let left = take i body; right = drop (i + 1) body;
               (hp, q) = unwrap_or (right, []) (split_once (CHR ''?'') right)
           in map_option (\<lambda>ui. (ui, hp, q)) (decode_ss_userinfo b64 left))
      | None \<Rightarrow>
          Option.bind (decode_b64_url b64 (drop_whitespace body)) (\<lambda>decoded.
            map_option (\<lambda>(left, right). (left, right, [])) (split_once (CHR ''@'') decoded)))"

definition parse_ss :: "b64_fn \<Rightarrow> iter_fn \<Rightarrow> rstr \<Rightarrow> proxy_node option" where
  "parse_ss b64 iter link =
     (let hash = map_option (\<lambda>i. url_decode (drop (i + 1) link)) (find_char (CHR ''#'') link);
          rest = hd (split_char (CHR ''#'') link);
          body = trim_start_matches ''SS://'' (trim_start_matches ''ss://'' rest)
      in Option.bind (ss_body b64 body) (\<lambda>(userinfo, hostport, query).
         Option.bind (split_once (CHR '':'') userinfo) (\<lambda>(cipher, pw).
         map_option (\<lambda>(host, port).
           let (plugin, opts) = ss_plugin_of iter (parse_query query)
           in default_node\<lparr>
                pn_name := unwrap_or host (opt_filter (\<lambda>s. s \<noteq> []) hash), pn_type := ''ss'',
                pn_server := host, pn_port := port, pn_password := Some pw, pn_cipher := Some cipher,
                pn_plugin := plugin, pn_plugin_opts := opts\<rparr>)
           (split_host_port_str hostport))))"

section \<open>JSON values\<close>

datatype json_num = Pos_int nat | Neg_int int | Float_num

datatype json =
    J_null
  | J_bool bool
  | J_num json_num
  | J_str rstr
  | J_arr "json list"
  | J_obj "(rstr \<times> json) list"

definition jget :: "json \<Rightarrow> rstr \<Rightarrow> json option" where
  "jget v k = (case v of J_obj kvs \<Rightarrow> map_of kvs k | _ \<Rightarrow> None)"

definition as_str :: "json \<Rightarrow> rstr option" where
  "as_str v = (case v of J_str s \<Rightarrow> Some s | _ \<Rightarrow> None)"

definition as_bool :: "json \<Rightarrow> bool option" where
  "as_bool v = (case v of J_bool b \<Rightarrow> Some b | _ \<Rightarrow> None)"

definition as_array :: "json \<Rightarrow> json list option" where
  "as_array v = (case v of J_arr xs \<Rightarrow> Some xs | _ \<Rightarrow> None)"

definition as_u64 :: "json \<Rightarrow> nat option" where
  "as_u64 v = (case v of J_num (Pos_int n) \<Rightarrow> Some n | _ \<Rightarrow> None)"

definition as_i64 :: "json \<Rightarrow> int option" where
  "as_i64 v =
     (case v of
        J_num (Pos_int n) \<Rightarrow> if n \<le> 9223372036854775807 then Some (int n) else None
      | J_num (Neg_int i) \<Rightarrow> Some i
      | _ \<Rightarrow> None)"

definition jstr :: "json \<Rightarrow> rstr \<Rightarrow> rstr option" where
  "jstr v k = Option.bind (jget v k) as_str"

definition jint :: "json \<Rightarrow> rstr \<Rightarrow> int" where
  "jint v k = unwrap_or 0 (Option.bind (jget v k) as_i64)"

text \<open>A number given as a number or as a string.\<close>

definition num_or_str :: "json \<Rightarrow> rstr \<Rightarrow> nat" where
  "num_or_str v k =
     unwrap_or 0 (Option.bind (jget v k) (\<lambda>p.
       or_else (as_u64 p) (Option.bind (as_str p) (parse_uint 18446744073709551615))))"

type_synonym json_fn = "rstr \<Rightarrow> json option"

section \<open>VMess\<close>

definition parse_vmess :: "b64_fn \<Rightarrow> json_fn \<Rightarrow> rstr \<Rightarrow> proxy_node option" where
  "parse_vmess b64 json link =
     (let body = trim_start_matches ''VMESS://'' (trim_start_matches ''vmess://'' link)
      in Option.bind (decode_b64_url b64 body) (\<lambda>text.
         Option.bind (json text) (\<lambda>v.
         Option.bind (jstr v ''add'') (\<lambda>server.
           let port = (word_of_nat (num_or_str v ''port'') :: u16) in
           if server = [] \<or> port = 0 then None
           else
             (let tls = is_some_and (\<lambda>s. s \<noteq> [] \<and> \<not> eq_ci s ''none'') (jstr v ''tls'');
                  network = lowercase (unwrap_or ''tcp'' (jstr v ''net''));
                  network = (if network = ''websocket'' then ''ws'' else network)
              in Some (default_node\<lparr>
                   pn_name := unwrap_or server (opt_filter (\<lambda>s. s \<noteq> []) (jstr v ''ps'')), pn_type := ''vmess'',
                   pn_server := server, pn_port := port, pn_uuid := jstr v ''id'', pn_tls := tls,
                   pn_server_name := jstr v ''sni'', pn_network := network, pn_ws_path := jstr v ''path'',
                   pn_ws_host := jstr v ''host'', pn_security := Some (if tls then ''tls'' else ''none''),
                   pn_cipher := jstr v ''scy'', pn_alter_id := word_of_nat (num_or_str v ''aid'')\<rparr>))))))"

section \<open>Any link\<close>

record libs =
  lib_url :: url_fn
  lib_b64 :: b64_fn
  lib_json :: json_fn
  lib_iter :: iter_fn

definition parse_share_link :: "libs \<Rightarrow> rstr \<Rightarrow> proxy_node option" where
  "parse_share_link L line =
     (let line = trim line; low = lowercase line in
      if line = [] then None
      else if starts_with ''vless://'' low then parse_vless (lib_url L) line
      else if starts_with ''trojan://'' low then parse_trojan (lib_url L) line
      else if starts_with ''ss://'' low then parse_ss (lib_b64 L) (lib_iter L) line
      else if starts_with ''vmess://'' low then parse_vmess (lib_b64 L) (lib_json L) line
      else if starts_with ''socks5://'' low \<or> starts_with ''socks://'' low then parse_socks_link (lib_url L) line
      else if starts_with ''http://'' low \<or> starts_with ''https://'' low then parse_http_link (lib_url L) line
      else None)"

section \<open>Reading a Shadowsocks link back\<close>

text \<open>Characters that need no quoting inside a link.\<close>

definition link_text :: "rstr \<Rightarrow> bool" where
  "link_text s \<longleftrightarrow> (\<forall>c \<in> set s. graphic c \<and> c \<notin> {CHR ''@'', CHR '':'', CHR ''#'', CHR ''?'', CHR ''['', CHR ''%''})"

lemma graphic_ascii: "graphic c \<Longrightarrow> is_ascii c"
  by (simp add: graphic_def is_ascii_def)

lemma link_text_free:
  assumes "link_text s"
  shows "CHR ''@'' \<notin> set s" "CHR '':'' \<notin> set s" "CHR ''#'' \<notin> set s" "CHR ''?'' \<notin> set s"
  using assms unfolding link_text_def by blast+

lemma scheme_once:
  assumes "CHR '':'' \<notin> set enc" "p = ''ss://'' \<or> p = ''SS://''"
  shows "trim_start_matches p (enc @ CHR ''@'' # r) = enc @ CHR ''@'' # r"
proof -
  have "take_prefix p (enc @ CHR ''@'' # r) = None"
    using assms by (cases enc; cases "tl enc"; cases "tl (tl enc)") auto
  then show ?thesis by (simp add: trim_start_matches_def strip_start.simps)
qed

lemma scheme_strip: "trim_start_matches ''ss://'' (''ss://'' @ s) = trim_start_matches ''ss://'' s"
  by (simp add: trim_start_matches_def strip_start.simps [of _ "CHR ''s'' # _"])

lemma digit_graphic: "is_digit c \<Longrightarrow> graphic c \<and> c \<notin> {CHR ''@'', CHR '':'', CHR ''#'', CHR ''?'', CHR ''[''}"
  by (auto simp: is_digit_def graphic_def code_of_def)

lemma rsplit_once_append: "c \<notin> set b \<Longrightarrow> rsplit_once c (a @ c # b) = Some (a, b)"
  by (simp add: rsplit_once_def rfind_char_append)

lemma show_port_chars: "c \<in> set (show_u16 p) \<Longrightarrow> graphic c \<and> c \<notin> {CHR ''@'', CHR '':'', CHR ''#'', CHR ''?'', CHR ''[''}"
  using show_nat_digits digit_graphic unfolding show_u16_def by blast

lemma show_port_free:
  "CHR ''@'' \<notin> set (show_u16 p)" "CHR '':'' \<notin> set (show_u16 p)" "CHR ''#'' \<notin> set (show_u16 p)" "CHR ''?'' \<notin> set (show_u16 p)"
  using show_port_chars by blast+

lemma split_host_port_written:
  assumes "link_text host" "host \<noteq> []"
  shows "split_host_port_str (host @ CHR '':'' # show_u16 port) = Some (host, port)"
proof -
  have ne: "show_u16 port \<noteq> []" by (simp add: show_u16_def)
  have l: "graphic (last (show_u16 port))" using show_port_chars ne by (meson last_in_set)
  have "trim (host @ CHR '':'' # show_u16 port) = host @ CHR '':'' # show_u16 port"
    by (rule trim_graphic) (use assms ne l in \<open>simp_all add: link_text_def\<close>)
  moreover have "take_prefix ''['' (host @ CHR '':'' # show_u16 port) = None"
    using assms by (cases host) (auto simp: link_text_def)
  ultimately show ?thesis by (simp add: split_host_port_str_def rsplit_once_append show_port_free)
qed

lemma parse_ss_written:
  assumes "b64 (b64_pad enc) = Some (as_bytes (cipher @ CHR '':'' # pw))"
    and "from_utf8 (as_bytes (cipher @ CHR '':'' # pw)) = Some (cipher @ CHR '':'' # pw)"
    and "link_text enc" "CHR '':'' \<notin> set cipher" "link_text host" "host \<noteq> []"
    and "\<forall>c \<in> set name. graphic c \<and> c \<noteq> CHR ''%''" "name \<noteq> []"
  shows "parse_ss b64 iter (''ss://'' @ enc @ ''@'' @ host @ '':'' @ show_u16 port @ ''#'' @ name) =
    Some (default_node\<lparr>pn_name := name, pn_type := ''ss'', pn_server := host, pn_port := port,
      pn_password := Some pw, pn_cipher := Some cipher, pn_plugin := None, pn_plugin_opts := None\<rparr>)"
proof -
  let ?hp = "host @ CHR '':'' # show_u16 port"
  let ?front = "''ss://'' @ enc @ CHR ''@'' # ?hp"
  have h: "CHR ''#'' \<notin> set ?front" "CHR ''@'' \<notin> set ?hp" "CHR ''?'' \<notin> set ?hp" "CHR '':'' \<notin> set enc"
    using link_text_free [OF assms(3)] link_text_free [OF assms(5)] show_port_free [of port] by simp_all
  have "\<forall>c \<in> set name. is_ascii c \<and> c \<noteq> CHR ''%''" using assms(7) graphic_ascii by blast
  then have n: "url_decode name = name" by (rule url_decode_plain)
  have f: "find_char (CHR ''#'') (?front @ CHR ''#'' # name) = Some (length ?front)" by (rule find_char_append [OF h(1)])
  have s: "hd (split_char (CHR ''#'') (?front @ CHR ''#'' # name)) = ?front"
    using split_at_append_sep [of ?front "\<lambda>x. x = CHR ''#''" "CHR ''#''" name] h(1) unfolding split_char_def by force
  have b: "trim_start_matches ''SS://'' (trim_start_matches ''ss://'' ?front) = enc @ CHR ''@'' # ?hp"
    using scheme_once [OF h(4)] scheme_strip by simp
  have u: "decode_ss_userinfo b64 enc = Some (cipher @ CHR '':'' # pw)"
    using h(4) assms(1,2) by (simp add: decode_ss_userinfo_def decode_b64_url_def)
  have body: "ss_body b64 (enc @ CHR ''@'' # ?hp) = Some (cipher @ CHR '':'' # pw, ?hp, [])"
    unfolding ss_body_def rfind_char_append [OF h(2)] using u split_once_none [OF h(3)] by simp
  have dr: "drop (length a + 1) (a @ x # b) = b" for a b :: rstr and x by simp
  have q: "ss_plugin_of iter (parse_query []) = (None, None)"
    by (simp add: parse_query_def ss_plugin_of_def split_char_def)
  have "parse_ss b64 iter (?front @ CHR ''#'' # name) =
    Some (default_node\<lparr>pn_name := name, pn_type := ''ss'', pn_server := host, pn_port := port,
      pn_password := Some pw, pn_cipher := Some cipher, pn_plugin := None, pn_plugin_opts := None\<rparr>)"
    unfolding parse_ss_def Let_def f s b body option.map dr n
    using split_once_append [OF assms(4), of pw] split_host_port_written [OF assms(5,6), of port] q assms(8)
    by (simp add: opt_filter_def)
  then show ?thesis by simp
qed

lemma link_trim:
  assumes "name \<noteq> []" "graphic (last name)"
  shows "trim (''ss://'' @ r @ name) = ''ss://'' @ r @ name"
  by (rule trim_graphic) (use assms in \<open>simp_all add: graphic_def code_of_def\<close>)

text \<open>
  a Shadowsocks link \<^verbatim>\<open>ss://\<close> with base64 credentials, host, port and a name is read back as
  exactly the node it was written for, for every cipher, password, host name, port and plain
  name, whatever else the base64 decoder accepts.
\<close>

theorem ss_link_roundtrip:
  assumes "lib_b64 L (b64_pad enc) = Some (as_bytes (cipher @ '':'' @ pw))"
    and "from_utf8 (as_bytes (cipher @ '':'' @ pw)) = Some (cipher @ '':'' @ pw)"
    and "link_text enc" "CHR '':'' \<notin> set cipher" "link_text host" "host \<noteq> []"
    and "\<forall>c \<in> set name. graphic c \<and> c \<noteq> CHR ''%''" "name \<noteq> []"
  shows "parse_share_link L (''ss://'' @ enc @ ''@'' @ host @ '':'' @ show_u16 port @ ''#'' @ name) =
    Some (default_node\<lparr>pn_name := name, pn_type := ''ss'', pn_server := host, pn_port := port,
      pn_password := Some pw, pn_cipher := Some cipher\<rparr>)"
proof -
  let ?l = "''ss://'' @ (enc @ ''@'' @ host @ '':'' @ show_u16 port @ ''#'') @ name"
  have t: "trim ?l = ?l" using assms(7,8) by (intro link_trim) simp_all
  have low: "lowercase ?l = ''ss://'' @ lowercase ((enc @ ''@'' @ host @ '':'' @ show_u16 port @ ''#'') @ name)"
  proof -
    have "lowercase ''ss://'' = ''ss://''" by code_simp
    then show ?thesis by (simp only: lowercase_append)
  qed
  have p: "parse_share_link L ?l = parse_ss (lib_b64 L) (lib_iter L) ?l"
    unfolding parse_share_link_def Let_def t low by (simp add: starts_with_def)
  have d: "default_node\<lparr>pn_name := name, pn_type := ''ss'', pn_server := host, pn_port := port,
      pn_password := Some pw, pn_cipher := Some cipher, pn_plugin := None, pn_plugin_opts := None\<rparr>
    = default_node\<lparr>pn_name := name, pn_type := ''ss'', pn_server := host, pn_port := port,
      pn_password := Some pw, pn_cipher := Some cipher\<rparr>"
    by (simp add: default_node_def)
  have "parse_ss (lib_b64 L) (lib_iter L) (''ss://'' @ enc @ ''@'' @ host @ '':'' @ show_u16 port @ ''#'' @ name) =
    Some (default_node\<lparr>pn_name := name, pn_type := ''ss'', pn_server := host, pn_port := port,
      pn_password := Some pw, pn_cipher := Some cipher, pn_plugin := None, pn_plugin_opts := None\<rparr>)"
    by (rule parse_ss_written) (use assms in simp_all)
  from this [unfolded d] show ?thesis using p by simp
qed

theorem ss_link_roundtrip_witness:
  "parse_share_link
     \<lparr>lib_url = \<lambda>_. None, lib_b64 = \<lambda>s. if s = ''cmM0OnB3'' then Some (as_bytes ''rc4:pw'') else None,
      lib_json = \<lambda>_. None, lib_iter = \<lambda>m. m\<rparr>
     (''ss://'' @ ''cmM0OnB3'' @ ''@'' @ ''example.org'' @ '':'' @ show_u16 8388 @ ''#'' @ ''home'') =
   Some (default_node\<lparr>pn_name := ''home'', pn_type := ''ss'', pn_server := ''example.org'', pn_port := 8388,
     pn_password := Some ''pw'', pn_cipher := Some ''rc4''\<rparr>)"
proof (rule ss_link_roundtrip, goal_cases)
  case 1
  show ?case by code_simp
next
  case 2
  show ?case by code_simp
qed (simp_all add: link_text_def graphic_def code_of_def)

section \<open>Percent-encoded names\<close>

text \<open>
  Percent decoding turns every byte into the character with that number, so a name in UTF-8 does
  not survive: the two characters for \<open>official website\<close> come out as six others, and the entry
  that carries them is no longer recognised as information about the subscription.
\<close>

lemma percent_decoding_mangles_utf8:
  "url_decode ''%E5%AE%98%E7%BD%91'' =
     str_of [0xc3, 0xa5, 0xc2, 0xae, 0xc2, 0x98, 0xc3, 0xa7, 0xc2, 0xbd, 0xc2, 0x91]
   \<and> is_subscription_info (default_node\<lparr>pn_name := str_of [0xe5, 0xae, 0x98, 0xe7, 0xbd, 0x91]\<rparr>)
   \<and> \<not> is_subscription_info (default_node\<lparr>pn_name := url_decode ''%E5%AE%98%E7%BD%91''\<rparr>)"
  by code_simp

end
