(* ===== verification/YamlText.thy ===== *)
theory YamlText
  imports Utf8
begin

text \<open>
  Quoting in the YAML subset of \<^verbatim>\<open>clash-core/src/config.rs\<close>: \<^verbatim>\<open>yaml_escape\<close> writes a
  scalar, \<^verbatim>\<open>unquote\<close> reads one. They are inverse on every text without line breaks; a line
  break is written as an escape that \<^verbatim>\<open>unquote\<close> leaves in place.
\<close>

definition needs_quotes :: "rstr \<Rightarrow> bool" where
  "needs_quotes s \<longleftrightarrow>
     CHR '':'' \<in> set s \<or> CHR ''#'' \<in> set s \<or> CHR 34 \<in> set s \<or> CHR 39 \<in> set s
     \<or> CHR 10 \<in> set s \<or> CHR 13 \<in> set s \<or> starts_with '' '' s \<or> ends_with '' '' s"

abbreviation backslash :: char where "backslash \<equiv> CHR 92"
abbreviation dquote :: char where "dquote \<equiv> CHR 34"

definition yaml_escape :: "rstr \<Rightarrow> rstr" where
  "yaml_escape s =
     (if s = [] then [dquote, dquote]
      else if needs_quotes s then
        [dquote]
        @ replace_str [CHR 10] [backslash, CHR ''n'']
            (replace_str [CHR 13] [backslash, CHR ''r'']
              (replace_str [dquote] [backslash, dquote]
                (replace_str [backslash] [backslash, backslash] s)))
        @ [dquote]
      else s)"

definition quoted_by :: "char \<Rightarrow> rstr \<Rightarrow> bool" where
  "quoted_by q s \<longleftrightarrow> starts_with [q] s \<and> ends_with [q] s"

definition unquote :: "rstr \<Rightarrow> rstr" where
  "unquote s =
     (if 2 \<le> length s \<and> (quoted_by dquote s \<or> quoted_by (CHR 39) s)
      then replace_str [backslash, backslash] [backslash]
             (replace_str [backslash, dquote] [dquote] (slice 1 (length s - 1) s))
      else s)"

lemma starts_with_one [simp]: "starts_with [c] s \<longleftrightarrow> s \<noteq> [] \<and> hd s = c"
  by (cases s) (auto simp: starts_with_def)

lemma ends_with_one [simp]: "ends_with [c] s \<longleftrightarrow> s \<noteq> [] \<and> last s = c"
  by (cases s rule: rev_cases) (auto simp: ends_with_def)

lemma unquote_plain: "\<not> quoted_by dquote s \<Longrightarrow> \<not> quoted_by (CHR 39) s \<Longrightarrow> unquote s = s"
  by (simp add: unquote_def)

lemma unquote_quoted:
  "unquote (dquote # s @ [dquote]) =
     replace_str [backslash, backslash] [backslash] (replace_str [backslash, dquote] [dquote] s)"
  by (simp add: unquote_def quoted_by_def slice_def)

text \<open>What the escapes of backslash and quote leave, after each of the two passes of \<open>unquote\<close>.\<close>

fun escaped :: "rstr \<Rightarrow> rstr" where
  "escaped [] = []"
| "escaped (c # cs) =
     (if c = backslash then backslash # backslash # escaped cs
      else if c = dquote then backslash # dquote # escaped cs
      else c # escaped cs)"

fun half_escaped :: "rstr \<Rightarrow> rstr" where
  "half_escaped [] = []"
| "half_escaped (c # cs) =
     (if c = backslash then backslash # backslash # half_escaped cs else c # half_escaped cs)"

lemma escaped_eq:
  assumes "CHR 10 \<notin> set s" "CHR 13 \<notin> set s"
  shows "replace_str [CHR 10] [backslash, CHR ''n'']
           (replace_str [CHR 13] [backslash, CHR ''r'']
             (replace_str [dquote] [backslash, dquote]
               (replace_str [backslash] [backslash, backslash] s))) = escaped s"
  using assms by (induction s) (auto simp: replace_str_one)

lemma escaped_head: "escaped s \<noteq> [] \<Longrightarrow> hd (escaped s) \<noteq> dquote"
  by (cases s) auto

lemma unescape_quotes: "replace_str [backslash, dquote] [dquote] (escaped s) = half_escaped s"
proof (induction s)
  case (Cons c cs)
  moreover have "escaped cs = [] \<Longrightarrow> cs = []" by (cases cs) (auto split: if_splits)
  ultimately show ?case using escaped_head [of cs] by (auto simp: replace_str_two)
qed simp

lemma unescape_backslashes: "replace_str [backslash, backslash] [backslash] (half_escaped s) = s"
  by (induction s) (simp_all add: replace_str_two)

text \<open>Reading back what was written, for any text without line breaks.\<close>

lemma unquote_escape:
  assumes "CHR 10 \<notin> set s" "CHR 13 \<notin> set s"
  shows "unquote (yaml_escape s) = s"
proof -
  consider "s = []" | "s \<noteq> []" "needs_quotes s" | "s \<noteq> []" "\<not> needs_quotes s" by blast
  then show ?thesis
  proof cases
    case 1
    then show ?thesis by (simp add: yaml_escape_def unquote_def quoted_by_def slice_def)
  next
    case 2
    then show ?thesis
      using unquote_quoted [of "escaped s"] escaped_eq [OF assms] unescape_quotes unescape_backslashes
      by (simp add: yaml_escape_def)
  next
    case 3
    then show ?thesis
      by (cases s) (auto simp: yaml_escape_def needs_quotes_def unquote_def quoted_by_def)
  qed
qed

text \<open>A written scalar has no line breaks, and trimming does not change it unless it was written
  without quotes and has white space other than a blank at an end.\<close>

definition yaml_safe :: "rstr \<Rightarrow> bool" where
  "yaml_safe s \<longleftrightarrow> CHR 10 \<notin> set s \<and> CHR 13 \<notin> set s \<and> (needs_quotes s \<or> trim s = s)"

lemma graphic_dquote: "graphic dquote"
  by (simp add: graphic_def code_of_def)

lemma escaped_set: "c \<in> set (escaped s) \<Longrightarrow> c \<in> set s \<or> c = backslash"
  by (induction s) (auto split: if_splits)

lemma yaml_escape_lines:
  assumes "yaml_safe s"
  shows "CHR 10 \<notin> set (yaml_escape s)" "CHR 13 \<notin> set (yaml_escape s)"
  using assms escaped_eq [of s] escaped_set [of "CHR 10" s] escaped_set [of "CHR 13" s]
  by (auto simp: yaml_safe_def yaml_escape_def)

lemma yaml_escape_trim:
  assumes "yaml_safe s"
  shows "trim (yaml_escape s) = yaml_escape s"
proof (cases "s = [] \<or> needs_quotes s")
  case True
  then have "\<exists>m. yaml_escape s = dquote # m @ [dquote]" by (cases "s = []") (auto simp: yaml_escape_def)
  then obtain m where "yaml_escape s = dquote # m @ [dquote]" ..
  then show ?thesis using graphic_dquote trim_graphic [of "dquote # m @ [dquote]"] by simp
next
  case False
  then show ?thesis using assms by (simp add: yaml_safe_def yaml_escape_def)
qed

lemma yaml_escape_ne [simp]: "yaml_escape s \<noteq> []"
  by (simp add: yaml_escape_def)

lemma yaml_safe_unquote: "yaml_safe s \<Longrightarrow> unquote (trim (yaml_escape s)) = s"
  by (simp add: yaml_escape_trim unquote_escape yaml_safe_def)

lemma unquote_length: "length (unquote s) \<le> length s"
proof -
  have two: "length (replace_from k [x, y] [z] s) \<le> length s" for k x y z s
    by (induction k "[x, y]" "[z]" s rule: replace_from.induct) auto
  have "length (unquote s) \<le> length (slice 1 (length s - 1) s)"
    if "2 \<le> length s \<and> (quoted_by dquote s \<or> quoted_by (CHR 39) s)"
  proof -
    have "length (unquote s) \<le> length (replace_str [backslash, dquote] [dquote] (slice 1 (length s - 1) s))"
      using that two [of 0] by (simp add: unquote_def replace_str_def)
    also have "\<dots> \<le> length (slice 1 (length s - 1) s)" unfolding replace_str_def by (rule two)
    finally show ?thesis .
  qed
  then show ?thesis by (cases "2 \<le> length s \<and> (quoted_by dquote s \<or> quoted_by (CHR 39) s)") (auto simp: unquote_def)
qed

section \<open>Lines with a key and a value\<close>

text \<open>The longer encodings of white space have no ASCII byte, so trimming never reaches over one.\<close>

lemma ws_wide_not_ascii: "e \<in> set ws_encodings \<Longrightarrow> 2 \<le> length e \<Longrightarrow> c \<in> set e \<Longrightarrow> \<not> is_ascii c"
  by (auto simp: ws_encodings_def is_ascii_def code_of_def of_char_of)

lemma take_prefix_over:
  assumes "take_prefix p (x @ c # y) \<noteq> None" "take_prefix p x = None" "x \<noteq> []"
  shows "c \<in> set p \<and> 2 \<le> length p"
  using assms
proof (induction p x rule: take_prefix.induct)
  case (3 p ps d cs)
  then show ?case by (cases cs; cases ps) (auto split: if_splits)
qed auto

lemma first_prefix_None_iff:
  "\<forall>e \<in> set es. e \<noteq> [] \<Longrightarrow> first_prefix es s = None \<longleftrightarrow> (\<forall>e \<in> set es. take_prefix e s = None)"
  by (induction es) (auto simp: take_prefix_Some_iff split: option.splits)

lemma first_prefix_over:
  assumes "\<forall>e \<in> set es. e \<noteq> [] \<and> (2 \<le> length e \<longrightarrow> c \<notin> set e)" "first_prefix es x = None" "x \<noteq> []"
  shows "first_prefix es (x @ c # y) = None"
proof -
  have "take_prefix e (x @ c # y) = None" if "e \<in> set es" for e
  proof -
    have "take_prefix e x = None" using assms(1,2) that by (simp add: first_prefix_None_iff)
    then show ?thesis using take_prefix_over [of e x c y] assms(1,3) that by blast
  qed
  then show ?thesis using assms(1) by (simp add: first_prefix_None_iff)
qed

lemma trim_end_after:
  assumes "is_ascii c" "e \<noteq> []" "trim_end e = e"
  shows "trim_end (a @ c # e) = a @ c # e"
proof -
  let ?es = "map rev ws_encodings"
  have "first_prefix ?es (rev e) = None"
    using strip_start_fixed [of ?es "rev e"] assms(3) unfolding trim_end_def by (metis rev_rev_ident)
  moreover have "\<forall>e \<in> set ?es. e \<noteq> [] \<and> (2 \<le> length e \<longrightarrow> c \<notin> set e)"
    using ws_wide_not_ascii assms(1) ws_heads by fastforce
  ultimately have "first_prefix ?es (rev e @ c # rev a) = None"
    using first_prefix_over [of ?es c "rev e" "rev a"] assms(2) by simp
  then show ?thesis by (simp add: trim_end_def strip_start.simps)
qed

lemma trim_fixed:
  assumes "trim e = e"
  shows "trim_start e = e" "trim_end e = e"
proof -
  have "length e \<le> length (trim_start e)"
    using assms trim_end_def strip_start_length by (metis length_rev trim_def)
  then show a: "trim_start e = e"
    using strip_start_suffix [of e ws_encodings] unfolding trim_start_def
    by (metis append_Nil append_eq_append_conv le_add2 length_append nle_le)
  then show "trim_end e = e" using assms by (simp add: trim_def)
qed

lemma first_prefix_one:
  "[c] \<in> set es \<Longrightarrow> \<forall>e \<in> set es. e \<noteq> [] \<and> (hd e = c \<longrightarrow> e = [c]) \<Longrightarrow> first_prefix es (c # s) = Some s"
proof (induction es)
  case (Cons e es)
  then show ?case by (cases e) auto
qed simp

lemma ws_blank: "list_all (\<lambda>e. e \<noteq> [] \<and> (hd e = CHR '' '' \<longrightarrow> e = '' '')) ws_encodings" "'' '' \<in> set ws_encodings"
  by code_simp+

lemma trim_start_blank [simp]: "trim_start (CHR '' '' # s) = trim_start s"
proof -
  have "first_prefix ws_encodings (CHR '' '' # s) = Some s"
    by (rule first_prefix_one [OF ws_blank(2) ws_blank(1) [unfolded list_all_iff]])
  then show ?thesis by (simp add: trim_start_def strip_start.simps)
qed

lemma trim_start_blanks [simp]: "trim_start (replicate n (CHR '' '') @ s) = trim_start s"
  by (induction n) simp_all

lemma trim_blanks [simp]: "trim (CHR '' '' # s) = trim s" "trim (replicate n (CHR '' '') @ s) = trim s"
  by (simp_all add: trim_def)

lemma ascii_blank: "is_ascii (CHR '' '')" "is_ascii (CHR '':'')"
  by (simp_all add: is_ascii_def code_of_def)

text \<open>Keys of graphic characters, and the two kinds of lines they start.\<close>

definition plain_key :: "rstr \<Rightarrow> bool" where
  "plain_key k \<longleftrightarrow> k \<noteq> [] \<and> (\<forall>c \<in> set k. graphic c \<and> c \<noteq> CHR '':'') \<and> hd k \<noteq> CHR ''#''"

lemma plain_key_trim: "plain_key k \<Longrightarrow> trim k = k"
  by (rule trim_graphic) (auto simp: plain_key_def)

lemma graphic_colon: "graphic (CHR '':'')"
  by (simp add: graphic_def code_of_def)

lemma trim_scalar_line:
  assumes "plain_key k" "trim e = e" "e \<noteq> []"
  shows "trim (k @ '': '' @ e) = k @ '': '' @ e"
proof -
  have "trim_start (k @ '': '' @ e) = k @ '': '' @ e" using assms(1) by (cases k) (auto simp: plain_key_def)
  moreover have "trim_end ((k @ '':'') @ CHR '' '' # e) = (k @ '':'') @ CHR '' '' # e"
    by (rule trim_end_after [OF ascii_blank(1) assms(3) trim_fixed(2) [OF assms(2)]])
  ultimately show ?thesis by (simp add: trim_def)
qed

lemma trim_header_line: "plain_key k \<Longrightarrow> trim (k @ '':'') = k @ '':''"
  by (rule trim_graphic) (auto simp: plain_key_def graphic_colon)

lemma find_key_colon: "plain_key k \<Longrightarrow> find_char (CHR '':'') (k @ CHR '':'' # s) = Some (length k)"
  by (rule find_char_append) (auto simp: plain_key_def)

lemma plain_key_dash: "plain_key k \<Longrightarrow> take_prefix ''- '' (k @ CHR '':'' # s) = None"
proof -
  assume k: "plain_key k"
  have "\<not> graphic (CHR '' '')" by (simp add: graphic_def code_of_def)
  then have "CHR '' '' \<notin> set k" using k plain_key_def by blast
  then show ?thesis by (cases k; cases "tl k") auto
qed

text \<open>Escaping keeps text well-formed.\<close>

lemma yaml_escape_valid: "valid_utf8 s \<Longrightarrow> valid_utf8 (yaml_escape s)"
  unfolding yaml_escape_def
  by (auto simp: is_ascii_def code_of_def
      intro!: valid_utf8_Cons valid_utf8_append valid_utf8_replace)

section \<open>Files of lines\<close>

lemma lines_of_written:
  assumes "list_all (\<lambda>l. CHR 10 \<notin> set l \<and> CHR 13 \<notin> set l) ls"
  shows "lines_of (concat (map (\<lambda>l. l @ [CHR 10]) ls)) = ls"
proof -
  have s: "split_char (CHR 10) (concat (map (\<lambda>l. l @ [CHR 10]) ls)) = ls @ [[]]"
    using assms
  proof (induction ls)
    case Nil
    then show ?case by (simp add: split_char_def)
  next
    case (Cons l ls)
    have "\<forall>c \<in> set l. c \<noteq> CHR 10" using Cons.prems by auto
    then show ?case
      using split_at_append_sep [of l "\<lambda>x. x = CHR 10" "CHR 10"] Cons by (simp add: split_char_def)
  qed
  have "strip_cr l = l" if "l \<in> set ls" for l
  proof -
    have "CHR 13 \<notin> set l" using assms that by (simp add: list_all_iff)
    then show ?thesis by (metis last_in_set strip_cr_def)
  qed
  then have "map strip_cr ls = ls" by (simp add: map_idI)
  then show ?thesis by (simp add: lines_of_def s)
qed

end
