(* ===== verification/Inbound.thy ===== *)
theory Inbound
  imports Relay ShareLinks Obfs YamlText
begin

text \<open>
  \<^verbatim>\<open>crates/clash-core/src/inbound.rs\<close>: the local HTTP proxy. Reading and parsing a request, choosing
  its target, rewriting it for the origin server, routing it by the rules, collecting what a client
  sends while a tunnel is being dialled, and the life of the service with its listener, its 256 slots
  and its cancellation tokens. Sockets are event lists or inner streams, the URL parser is an argument.
  The CONNECT request of an outbound HTTP proxy dial is shown to be one this proxy reads.
  The system proxy of the operating system is not modelled.
\<close>

section \<open>Reading a request\<close>

definition header_end :: "bytes \<Rightarrow> nat option" where
  "header_end buf = find_sub CRLFCRLF buf"

type_synonym headers = "(rstr \<times> rstr) list"

record http_request =
  rq_method :: rstr
  rq_target :: rstr
  rq_headers :: headers
  rq_leftover :: bytes

text \<open>\<^verbatim>\<open>text.split("\r\n")\<close>.\<close>

fun split_crlf :: "rstr \<Rightarrow> rstr list" where
  "split_crlf [] = [[]]"
| "split_crlf [c] = [[c]]"
| "split_crlf (c # d # cs) =
     (if c = CHR 13 \<and> d = CHR 10 then [] # split_crlf cs
      else (case split_crlf (d # cs) of [] \<Rightarrow> [[c]] | l # ls \<Rightarrow> (c # l) # ls))"

text \<open>\<^verbatim>\<open>first.splitn(3, ' ').filter(..)\<close>.\<close>

definition request_parts :: "rstr \<Rightarrow> rstr list" where
  "request_parts first =
     filter (\<lambda>p. p \<noteq> [])
       (case split_once (CHR '' '') first of
          None \<Rightarrow> [first]
        | Some (a, r) \<Rightarrow>
            (case split_once (CHR '' '') r of None \<Rightarrow> [a, r] | Some (b, c) \<Rightarrow> [a, b, c]))"

text \<open>A further cookie is appended to the first one.\<close>

fun append_cookie :: "rstr \<Rightarrow> headers \<Rightarrow> headers option" where
  "append_cookie v [] = None"
| "append_cookie v ((n, w) # hs) =
     (if eq_ci n ''Cookie'' then Some ((n, w @ ''; '' @ v) # hs) else map_option (Cons (n, w)) (append_cookie v hs))"

definition add_header :: "rstr \<Rightarrow> headers \<Rightarrow> headers" where
  "add_header line hs =
     (if line = [] then hs
      else
        (case split_once (CHR '':'') line of
           None \<Rightarrow> hs
         | Some (name, value) \<Rightarrow>
             (let name = trim name; value = trim value in
              case (if eq_ci name ''Cookie'' then append_cookie value hs else None) of
                Some hs' \<Rightarrow> hs'
              | None \<Rightarrow> hs @ [(name, value)])))"

definition parse_request :: "rstr \<Rightarrow> bytes \<Rightarrow> http_request option" where
  "parse_request text leftover =
     (case split_crlf text of
        [] \<Rightarrow> None
      | first # lines \<Rightarrow>
          (case request_parts first of
             m # t # _ \<Rightarrow> Some \<lparr>rq_method = m, rq_target = t, rq_headers = List.fold add_header lines [], rq_leftover = leftover\<rparr>
           | _ \<Rightarrow> None))"

function read_http_request :: "bytes \<Rightarrow> inner_stream \<Rightarrow> http_request option \<times> inner_stream" where
  "read_http_request ms es =
     (case await_read 4096 es of
        (Inl e, es') \<Rightarrow> (None, es')
      | (Inr bs, es') \<Rightarrow>
          if bs = [] then (None, es')
          else
            (let ms = ms @ bs in
             case header_end ms of
               Some idx \<Rightarrow>
                 (if 64 * 1024 < idx then None else parse_request (from_utf8_lossy (take idx ms)) (drop (idx + 4) ms), es')
             | None \<Rightarrow> if 64 * 1024 < length ms then (None, es') else read_http_request ms es'))"
  by pat_completeness auto

termination read_http_request
  by (relation "measure (\<lambda>(ms, es). stream_size es)") (auto, metis await_read_shrinks zero_less_numeral)

declare read_http_request.simps [simp del]

section \<open>Target and rewriting\<close>

definition forward_target :: "url_fn \<Rightarrow> rstr \<Rightarrow> headers \<Rightarrow> (rstr \<times> rstr) option" where
  "forward_target url target headers =
     (if starts_with ''http://'' (lowercase target) then
        Option.bind (url target) (\<lambda>u.
        Option.bind (url_host u) (\<lambda>h.
          let host = (case url_port u of Some p \<Rightarrow> h @ '':'' @ show_u16 p | None \<Rightarrow> h);
              path = (if url_path u = [] then ''/'' else url_path u)
                @ (case url_query u of Some q \<Rightarrow> CHR ''?'' # q | None \<Rightarrow> [])
          in Some (host, path)))
      else
        Option.bind (opt_filter (\<lambda>s. s \<noteq> []) (map_option snd (List.find (\<lambda>h. eq_ci (fst h) ''Host'') headers))) (\<lambda>host.
          Some (host, if starts_with ''/'' target then target else CHR ''/'' # target)))"

definition hop_headers :: "rstr list" where
  "hop_headers =
     [''host'', ''connection'', ''keep-alive'', ''proxy-authenticate'', ''proxy-authorization'', ''te'',
      ''trailer'', ''trailers'', ''transfer-encoding'', ''upgrade'', ''proxy-connection'']"

definition is_hop :: "rstr \<Rightarrow> bool" where
  "is_hop k \<longleftrightarrow> list_ex (\<lambda>h. eq_ci k h) hop_headers"

definition header_line :: "rstr \<times> rstr \<Rightarrow> rstr" where
  "header_line h = fst h @ '': '' @ snd h"

definition end_to_end :: "headers \<Rightarrow> headers" where
  "end_to_end hs = filter (\<lambda>h. \<not> is_hop (fst h)) hs"

definition rewrite_forward :: "rstr \<Rightarrow> rstr \<Rightarrow> rstr \<Rightarrow> headers \<Rightarrow> bytes \<Rightarrow> bytes" where
  "rewrite_forward meth path host headers leftover =
     as_bytes (meth @ '' '' @ path @ '' HTTP/1.1'' @ crlf @ ''Host: '' @ host @ crlf
       @ concat (map (\<lambda>h. header_line h @ crlf) (end_to_end headers))
       @ ''Connection: close'' @ crlf @ crlf) @ leftover"

section \<open>One client\<close>

text \<open>What is to be done for a request. The flag says whether the connection goes through the selected node.\<close>

datatype inbound_action =
    Answer u16 rstr
  | Forward bool rstr bytes
  | Tunnel bool rstr bytes

definition routed :: "rule_action \<times> rule_db \<Rightarrow> (bool \<Rightarrow> inbound_action) \<Rightarrow> inbound_action \<times> rule_db" where
  "routed r go =
     (case r of
        (Reject, db) \<Rightarrow> (Answer 403 ''Forbidden by rules'', db)
      | (Direct, db) \<Rightarrow> (go False, db)
      | (Proxy, db) \<Rightarrow> (go True, db))"

definition handle_connect :: "idna_fn \<Rightarrow> cache_order \<Rightarrow> nat \<Rightarrow> nat \<Rightarrow> rstr \<Rightarrow> bytes \<Rightarrow> rule_db \<Rightarrow> inbound_action \<times> rule_db" where
  "handle_connect idna order now now2 host_port leftover db =
     routed (decide_route idna order now now2 host_port db) (\<lambda>proxy. Tunnel proxy host_port leftover)"

definition handle_client ::
  "url_fn \<Rightarrow> idna_fn \<Rightarrow> cache_order \<Rightarrow> nat \<Rightarrow> nat \<Rightarrow> http_request option \<Rightarrow> rule_db \<Rightarrow> inbound_action \<times> rule_db" where
  "handle_client url idna order now now2 parsed db =
     (case parsed of
        None \<Rightarrow> (Answer 400 ''bad request'', db)
      | Some rq \<Rightarrow>
          if eq_ci (rq_method rq) ''CONNECT'' then
            (case with_port (rq_target rq) ''443'' of
               None \<Rightarrow> (Answer 400 ''Invalid host'', db)
             | Some host_port \<Rightarrow> handle_connect idna order now now2 host_port (rq_leftover rq) db)
          else if starts_with ''https://'' (lowercase (rq_target rq)) then (Answer 400 ''HTTPS requires CONNECT'', db)
          else
            (case forward_target url (rq_target rq) (rq_headers rq) of
               None \<Rightarrow> (Answer 400 ''Invalid host'', db)
             | Some (host_header, path) \<Rightarrow>
                 (case with_port host_header ''80'' of
                    None \<Rightarrow> (Answer 400 ''Invalid host'', db)
                  | Some host_port \<Rightarrow>
                      routed (decide_route idna order now now2 host_port db) (\<lambda>proxy.
                        Forward proxy host_port
                          (rewrite_forward (rq_method rq) path host_header (rq_headers rq) (rq_leftover rq))))))"

section \<open>Opening a tunnel\<close>

definition MAX_EARLY :: nat where "MAX_EARLY = 256 * 1024"

text \<open>What happens while the dial is under way; a read of no bytes is the client's end.\<close>

datatype tunnel_event = Aborted | Dialled | Dial_error | Client_sent bytes | Client_error

datatype tunnel_wait = Gone | Refused u16 rstr | Opened bytes | Still_waiting bytes

fun tunnel_loop :: "bytes \<Rightarrow> tunnel_event list \<Rightarrow> tunnel_wait" where
  "tunnel_loop early [] = Still_waiting early"
| "tunnel_loop early (Aborted # evs) = Gone"
| "tunnel_loop early (Dialled # evs) = Opened early"
| "tunnel_loop early (Dial_error # evs) = Refused 503 ''Failed to reach destination''"
| "tunnel_loop early (Client_error # evs) = Gone"
| "tunnel_loop early (Client_sent bs # evs) =
     (if bs = [] then Gone
      else if MAX_EARLY < length early + length bs then Refused 400 ''CONNECT early buffer limit exceeded''
      else tunnel_loop (early @ bs) evs)"

definition tunnel_connect :: "bytes \<Rightarrow> tunnel_event list \<Rightarrow> tunnel_wait" where
  "tunnel_connect leftover evs =
     (if MAX_EARLY < length leftover then Refused 400 ''CONNECT early buffer limit exceeded''
      else tunnel_loop leftover evs)"

definition established :: rstr where
  "established = ''HTTP/1.1 200 Connection Established'' @ crlf @ crlf"

text \<open>Then the first record goes out, whatever comes of it, and the relay starts on the rest.\<close>

definition tunnel_relay :: "bytes \<Rightarrow> inner_stream \<Rightarrow> inner_stream \<Rightarrow> Relay.target \<Rightarrow> nat \<Rightarrow> counters \<Rightarrow> Relay.target \<times> relay" where
  "tunnel_relay early client dest t now c =
     (case flush_first_record early client t of (r, client', t') \<Rightarrow> (t', relay_new client' dest now c))"

section \<open>The service\<close>

text \<open>
  Cancellation tokens are numbers handed out once each; a running accept loop is known by its listening
  token, a client with a slot by the token it was accepted with.
\<close>

record service =
  sv_listening :: bool
  sv_listen :: nat
  sv_conn :: nat
  sv_cancelled :: "nat set"
  sv_next :: nat
  sv_handle :: "nat option"
  sv_loops :: "nat list"
  sv_free :: nat
  sv_clients :: "nat list"

definition SLOTS :: nat where "SLOTS = 256"

definition service_new :: service where
  "service_new =
     \<lparr>sv_listening = False, sv_listen = 0, sv_conn = 1, sv_cancelled = {}, sv_next = 2, sv_handle = None,
      sv_loops = [], sv_free = SLOTS, sv_clients = []\<rparr>"

definition abort_active :: "service \<Rightarrow> service" where
  "abort_active s =
     s\<lparr>sv_cancelled := insert (sv_conn s) (sv_cancelled s), sv_conn := sv_next s, sv_next := Suc (sv_next s)\<rparr>"

text \<open>\<open>bound\<close> tells whether the port could be bound. An aborted accept loop ends at its next await
  point: until then it stays in \<open>sv_loops\<close>.\<close>

definition set_listening :: "bool \<Rightarrow> bool \<Rightarrow> service \<Rightarrow> service" where
  "set_listening bound on s =
     (if on = sv_listening s \<and> on then s
      else if \<not> on then
        abort_active (s\<lparr>sv_listening := False, sv_cancelled := insert (sv_listen s) (sv_cancelled s)\<rparr>)\<lparr>sv_handle := None\<rparr>
      else if \<not> bound then s
      else s\<lparr>sv_listening := True, sv_listen := sv_next s, sv_next := Suc (sv_next s),
             sv_loops := sv_loops s @ [sv_next s], sv_handle := Some (sv_next s)\<rparr>)"

inductive service_step :: "service \<Rightarrow> service \<Rightarrow> bool" where
  listens: "service_step s (set_listening bound on s)"
| aborts: "service_step s (abort_active s)"
| accepts: "l \<in> set (sv_loops s) \<Longrightarrow> 0 < sv_free s \<Longrightarrow>
    service_step s (s\<lparr>sv_free := sv_free s - 1, sv_clients := sv_clients s @ [sv_conn s]\<rparr>)"
| turns_away: "l \<in> set (sv_loops s) \<Longrightarrow> sv_free s = 0 \<Longrightarrow> service_step s s"
| loop_ends: "l \<in> set (sv_loops s) \<Longrightarrow> l \<in> sv_cancelled s \<or> sv_handle s \<noteq> Some l \<Longrightarrow>
    service_step s (s\<lparr>sv_loops := remove1 l (sv_loops s)\<rparr>)"
| client_ends: "c \<in> set (sv_clients s) \<Longrightarrow>
    service_step s (s\<lparr>sv_free := Suc (sv_free s), sv_clients := remove1 c (sv_clients s)\<rparr>)"

code_pred service_step .

inductive_cases service_stepE: "service_step s s'"

definition service_ok :: "service \<Rightarrow> bool" where
  "service_ok s \<longleftrightarrow>
     sv_free s + length (sv_clients s) = SLOTS
     \<and> (\<forall>c \<in> set (sv_clients s). c = sv_conn s \<or> c \<in> sv_cancelled s)
     \<and> (\<forall>l \<in> set (sv_loops s). sv_listening s \<and> l = sv_listen s \<or> l \<in> sv_cancelled s)
     \<and> sv_conn s \<notin> sv_cancelled s \<and> (sv_listening s \<longrightarrow> sv_listen s \<notin> sv_cancelled s)
     \<and> sv_listen s \<noteq> sv_conn s \<and> sv_listen s < sv_next s \<and> sv_conn s < sv_next s
     \<and> (\<forall>t \<in> sv_cancelled s. t < sv_next s)"

lemma abort_active_ok: "service_ok s \<Longrightarrow> service_ok (abort_active s)"
  by (auto simp: service_ok_def abort_active_def)

lemma set_listening_ok: "service_ok s \<Longrightarrow> service_ok (set_listening bound on s)"
  by (auto simp: service_ok_def set_listening_def abort_active_def)

lemma service_step_ok: "service_step s s' \<Longrightarrow> service_ok s \<Longrightarrow> service_ok s'"
proof (induction rule: service_step.induct)
  case (accepts l s)
  then show ?case by (auto simp: service_ok_def)
next
  case (loop_ends l s)
  have "set (remove1 l (sv_loops s)) \<subseteq> set (sv_loops s)" by (rule set_remove1_subset)
  then show ?case using loop_ends(3) by (auto simp: service_ok_def)
next
  case (client_ends c s)
  have "set (remove1 c (sv_clients s)) \<subseteq> set (sv_clients s)" by (rule set_remove1_subset)
  moreover have "Suc (sv_free s) + length (remove1 c (sv_clients s)) = sv_free s + length (sv_clients s)"
    using client_ends(1) length_pos_if_in_set [OF client_ends(1)] by (simp add: length_remove1)
  ultimately show ?case using client_ends(2) by (auto simp: service_ok_def)
qed (simp_all add: abort_active_ok set_listening_ok)

lemma service_new_ok: "service_ok service_new"
  by (simp add: service_ok_def service_new_def)

lemma service_reachable_ok: "service_step\<^sup>*\<^sup>* service_new s \<Longrightarrow> service_ok s"
  by (induction rule: rtranclp_induct) (auto intro: service_new_ok service_step_ok)

text \<open>
  C31: In every reachable state of the service at most 256 clients are served and the free slots are
  the rest. Aborting, and stopping, cancels every client served at that moment, the client accepted
  next is not cancelled, and a stopped service has no accept loop that is not cancelled.
\<close>

theorem service_slots_and_cancellation:
  assumes "service_step\<^sup>*\<^sup>* service_new s"
  shows "sv_free s + length (sv_clients s) = 256
    \<and> set (sv_clients (abort_active s)) \<subseteq> sv_cancelled (abort_active s)
    \<and> set (sv_clients (set_listening bound False s)) \<subseteq> sv_cancelled (set_listening bound False s)
    \<and> sv_conn s \<notin> sv_cancelled s
    \<and> set (sv_loops (set_listening bound False s)) \<subseteq> sv_cancelled (set_listening bound False s)"
proof -
  have ok: "service_ok s" by (rule service_reachable_ok [OF assms])
  then have "set (sv_clients (abort_active s)) \<subseteq> sv_cancelled (abort_active s)"
    by (auto simp: service_ok_def abort_active_def)
  moreover have "set (sv_clients (set_listening bound False s)) \<subseteq> sv_cancelled (set_listening bound False s)"
    "set (sv_loops (set_listening bound False s)) \<subseteq> sv_cancelled (set_listening bound False s)"
    using ok by (auto simp: service_ok_def set_listening_def abort_active_def)
  ultimately show ?thesis using ok by (simp add: service_ok_def SLOTS_def)
qed

lemma example_service:
  "\<exists>s. service_step\<^sup>*\<^sup>* service_new s \<and> length (sv_clients s) = 1"
proof -
  let ?s = "set_listening True True service_new"
  have "service_step service_new ?s" by (rule listens)
  moreover have "service_step ?s (?s\<lparr>sv_free := sv_free ?s - 1, sv_clients := sv_clients ?s @ [sv_conn ?s]\<rparr>)"
    by (rule accepts [of 2]) (simp_all add: set_listening_def service_new_def SLOTS_def)
  ultimately have "service_step\<^sup>*\<^sup>* service_new (?s\<lparr>sv_free := sv_free ?s - 1, sv_clients := sv_clients ?s @ [sv_conn ?s]\<rparr>)"
    by (meson converse_rtranclp_into_rtranclp r_into_rtranclp)
  then show ?thesis by (intro exI conjI) (assumption, simp add: set_listening_def service_new_def)
qed

theorem service_slots_and_cancellation_witness:
  "\<exists>s. length (sv_clients s) = 1 \<and> sv_free s = 255
    \<and> set (sv_clients (abort_active s)) \<subseteq> sv_cancelled (abort_active s)"
proof -
  obtain s where s: "service_step\<^sup>*\<^sup>* service_new s" "length (sv_clients s) = 1" using example_service by blast
  then show ?thesis using service_slots_and_cancellation [OF s(1)] by (intro exI [of _ s]) simp
qed

section \<open>A forwarded request\<close>

lemma read_http_request_whole:
  assumes "unbroken es" "find_header_end head = Some (length head)" "length head \<le> 64 * 1024"
    and "ms @ arriving es = head @ rest" "length ms < length head"
  shows "\<exists>left es'. read_http_request ms es = (parse_request (from_utf8_lossy (take (length head - 4) head)) left, es')
    \<and> left @ arriving es' = rest \<and> unbroken es' \<and> waits es' \<le> waits es"
  using assms
proof (induction ms es rule: read_http_request.induct)
  case (1 ms es)
  obtain r es1 where r: "await_read 4096 es = (r, es1)" by fastforce
  note sp = await_read_spec [OF "1.prems"(1) _ r]
  obtain bs where bs: "r = Inr bs" "arriving es = bs @ arriving es1" "bs = [] \<Longrightarrow> arriving es = []"
    using sp(3) [OF zero_less_numeral] by blast
  have "length ms < length (ms @ arriving es)" unfolding "1.prems"(4) using "1.prems"(5) by simp
  then have "arriving es \<noteq> []" by auto
  then have ne: "bs \<noteq> []" using bs(3) by blast
  have eq: "(ms @ bs) @ arriving es1 = head @ rest" using "1.prems"(4) bs(2) by simp
  have h4: "4 \<le> length head" using "1.prems"(2) by (auto simp: find_header_end_def)
  have he: "header_end x = map_option (\<lambda>i. i - 4) (find_header_end x)" for x
    by (cases "find_sub CRLFCRLF x") (simp_all add: header_end_def find_header_end_def)
  note fh = header_end_found [OF "1.prems"(2) eq]
  show ?case
  proof (cases "length head \<le> length (ms @ bs)")
    case True
    then obtain left where left: "ms @ bs = head @ left" "left @ arriving es1 = rest"
      using eq by (metis append_eq_append_conv_if append_take_drop_id)
    have "header_end (ms @ bs) = Some (length head - 4)" using fh True he by simp
    moreover have "\<not> 64 * 1024 < length head - 4" using "1.prems"(3) by linarith
    moreover have "take (length head - 4) (ms @ bs) = take (length head - 4) head" "drop (length head - 4 + 4) (ms @ bs) = left"
      using left(1) h4 by simp_all
    ultimately have "read_http_request ms es = (parse_request (from_utf8_lossy (take (length head - 4) head)) left, es1)"
      using read_http_request.simps [of ms es] r bs(1) ne by (simp add: Let_def)
    then show ?thesis using left(2) sp(1,2) [OF zero_less_numeral] by blast
  next
    case False
    have n: "header_end (ms @ bs) = None" and l: "\<not> 64 * 1024 < length (ms @ bs)"
      using fh False he "1.prems"(3) by simp_all
    have u: "read_http_request ms es = read_http_request (ms @ bs) es1"
      using read_http_request.simps [of ms es] r bs(1) ne n l by (simp add: Let_def)
    have "\<exists>left es'. read_http_request (ms @ bs) es1 = (parse_request (from_utf8_lossy (take (length head - 4) head)) left, es')
      \<and> left @ arriving es' = rest \<and> unbroken es' \<and> waits es' \<le> waits es1"
      using "1.IH" [OF r [symmetric] bs(1) ne refl n l] sp(1) [OF zero_less_numeral] "1.prems"(2,3) eq False by simp
    then show ?thesis using u sp(2) [OF zero_less_numeral] by (auto intro: le_trans)
  qed
qed

lemma split_crlf_line: "no_cr l \<Longrightarrow> split_crlf l = [l]"
  by (induction l rule: split_crlf.induct) (auto simp: no_cr_def)

lemma split_crlf_more: "no_cr l \<Longrightarrow> split_crlf (l @ CHR 13 # CHR 10 # s) = l # split_crlf s"
proof (induction l)
  case (Cons c l)
  have "split_crlf (c # (l @ CHR 13 # CHR 10 # s)) = (c # l) # split_crlf s" if "l @ CHR 13 # CHR 10 # s = d # r" for d r
    using that Cons by (auto simp: no_cr_def simp del: append.simps)
  then show ?case by (cases "l @ CHR 13 # CHR 10 # s") auto
qed simp

lemma crlf_chars: "crlf = [CHR 13, CHR 10]"
  by (simp add: crlf_def)

lemma split_crlf_join: "ls \<noteq> [] \<Longrightarrow> list_all no_cr ls \<Longrightarrow> split_crlf (join_with crlf ls) = ls"
  by (induction crlf ls rule: join_with.induct) (simp_all add: split_crlf_line split_crlf_more crlf_chars)

definition forward_lines :: "rstr \<Rightarrow> rstr \<Rightarrow> rstr \<Rightarrow> headers \<Rightarrow> rstr list" where
  "forward_lines meth path host hs =
     (meth @ '' '' @ path @ '' HTTP/1.1'') # map header_line ((''Host'', host) # end_to_end hs @ [(''Connection'', ''close'')])"

definition word_ok :: "rstr \<Rightarrow> bool" where
  "word_ok s \<longleftrightarrow> s \<noteq> [] \<and> CHR '' '' \<notin> set s \<and> no_cr s \<and> valid_utf8 s"

definition header_ok :: "rstr \<times> rstr \<Rightarrow> bool" where
  "header_ok h \<longleftrightarrow> CHR '':'' \<notin> set (fst h) \<and> no_cr (fst h) \<and> no_cr (snd h) \<and> trim (fst h) = fst h
     \<and> trim (snd h) = snd h \<and> valid_utf8 (fst h) \<and> valid_utf8 (snd h)"

definition is_cookie :: "rstr \<times> rstr \<Rightarrow> bool" where
  "is_cookie h \<longleftrightarrow> eq_ci (fst h) ''Cookie''"

definition one_cookie :: "headers \<Rightarrow> bool" where
  "one_cookie hs \<longleftrightarrow> length (filter is_cookie hs) \<le> 1"

lemma append_cookie_none: "append_cookie v hs = None \<longleftrightarrow> filter is_cookie hs = []"
  by (induction v hs rule: append_cookie.induct) (auto simp: is_cookie_def)

lemma add_header_ok:
  assumes "header_ok h" "one_cookie (hs @ [h])"
  shows "add_header (header_line h) hs = hs @ [h]"
proof -
  have "split_once (CHR '':'') (header_line h) = Some (fst h, CHR '' '' # snd h)"
    using assms(1) by (simp add: header_line_def header_ok_def split_once_append)
  moreover have "header_line h \<noteq> []" by (simp add: header_line_def)
  moreover have "trim (CHR '' '' # snd h) = snd h" "trim (fst h) = fst h" using assms(1) by (simp_all add: header_ok_def)
  moreover have "eq_ci (fst h) ''Cookie'' \<Longrightarrow> append_cookie (snd h) hs = None"
    using assms(2) unfolding append_cookie_none by (simp add: one_cookie_def is_cookie_def)
  ultimately show ?thesis by (simp add: add_header_def Let_def)
qed

lemma one_cookie_parts: "one_cookie (a @ b) \<Longrightarrow> one_cookie a"
  by (simp add: one_cookie_def)

lemma add_headers_ok:
  "list_all header_ok new \<Longrightarrow> one_cookie (hs @ new) \<Longrightarrow> List.fold add_header (map header_line new) hs = hs @ new"
proof (induction new arbitrary: hs)
  case (Cons h new)
  have "one_cookie (hs @ [h])" using Cons.prems(2) one_cookie_parts [of "hs @ [h]" new] by simp
  then show ?case using Cons add_header_ok by simp
qed simp

lemma request_parts_ok:
  assumes "word_ok meth" "word_ok path"
  shows "request_parts (meth @ '' '' @ path @ '' HTTP/1.1'') = [meth, path, ''HTTP/1.1'']"
  using assms split_once_append [of "CHR '' ''" meth "path @ '' HTTP/1.1''"] split_once_append [of "CHR '' ''" path "''HTTP/1.1''"]
  by (simp add: request_parts_def word_ok_def)

lemma parse_forward_lines:
  assumes "word_ok meth" "word_ok path" "list_all header_ok hs" "one_cookie hs"
    and "list_all no_cr (map header_line hs)"
  shows "parse_request (join_with crlf ((meth @ '' '' @ path @ '' HTTP/1.1'') # map header_line hs)) left
    = Some \<lparr>rq_method = meth, rq_target = path, rq_headers = hs, rq_leftover = left\<rparr>"
proof -
  have "no_cr (meth @ '' '' @ path @ '' HTTP/1.1'')" using assms(1,2) by (simp add: word_ok_def no_cr_simps)
  then show ?thesis using assms split_crlf_join request_parts_ok add_headers_ok [of hs "[]"] by (simp add: parse_request_def)
qed

lemma join_head: "ls \<noteq> [] \<Longrightarrow> as_bytes (join_with crlf ls) @ [13, 10, 13, 10] = head_of (map as_bytes ls)"
  by (induction crlf ls rule: join_with.induct) (simp_all add: head_of_def as_bytes_def crlf_chars byte_13 byte_10)

lemma join_utf8: "valid_utf8 sep \<Longrightarrow> list_all valid_utf8 ls \<Longrightarrow> valid_utf8 (join_with sep ls)"
  by (induction sep ls rule: join_with.induct) (simp_all add: valid_utf8_append)

lemma forward_head:
  "rewrite_forward meth path host hs body = head_of (map as_bytes (forward_lines meth path host hs)) @ body"
  by (simp add: rewrite_forward_def forward_lines_def head_of_def as_bytes_def crlf_chars byte_13 byte_10 header_line_def
      map_concat comp_def)

text \<open>Any request written as a head of such lines is read back, whatever the pieces.\<close>

definition message_head :: "rstr \<Rightarrow> rstr \<Rightarrow> headers \<Rightarrow> bytes" where
  "message_head meth target fs =
     head_of (map as_bytes ((meth @ '' '' @ target @ '' HTTP/1.1'') # map header_line fs))"

lemma written_request_read_back:
  assumes "word_ok meth" "word_ok target" "list_all header_ok fs" "one_cookie fs"
    and "length (message_head meth target fs) \<le> 64 * 1024" "unbroken es" "arriving es = message_head meth target fs @ body"
  shows "\<exists>left es'. read_http_request [] es
      = (Some \<lparr>rq_method = meth, rq_target = target, rq_headers = fs, rq_leftover = left\<rparr>, es')
    \<and> left @ arriving es' = body"
proof -
  have "no_cr (header_line h) \<and> valid_utf8 (header_line h)" if "header_ok h" for h
    using that by (simp add: header_line_def header_ok_def no_cr_simps valid_utf8_append valid_utf8_Cons is_ascii_def code_of_def)
  then have hl: "list_all no_cr (map header_line fs)" "list_all valid_utf8 (map header_line fs)"
    using assms(3) by (simp_all add: list_all_iff)
  let ?first = "meth @ '' '' @ target @ '' HTTP/1.1''"
  have first: "no_cr ?first" "valid_utf8 ?first"
    using assms(1,2) by (simp_all add: word_ok_def no_cr_simps valid_utf8_append valid_utf8_Cons is_ascii_def code_of_def)
  define ls where "ls = ?first # map header_line fs"
  let ?head = "head_of (map as_bytes ls)"
  have mh: "message_head meth target fs = ?head" by (simp add: message_head_def ls_def)
  have "list_all no_cr ls" "\<forall>l \<in> set ls. l \<noteq> []" unfolding ls_def using first(1) hl(1) by (auto simp: header_line_def)
  then have "list_all line_ok (map as_bytes ls)"
    using no_cr_bytes by (auto simp: list_all_iff line_ok_def no_cr_def as_bytes_def)
  then have fh: "find_header_end ?head = Some (length ?head)" by (intro header_end_head_of) (simp_all add: ls_def)
  have "?head = as_bytes (join_with crlf ls) @ [13, 10, 13, 10]" using join_head [of ls] by (simp add: ls_def)
  then have taken: "take (length ?head - 4) ?head = as_bytes (join_with crlf ls)" by simp
  have "valid_utf8 (join_with crlf ls)"
    unfolding ls_def using first(2) hl(2) by (intro join_utf8) (simp_all add: crlf_chars valid_utf8_ascii is_ascii_def code_of_def)
  then have lossy: "from_utf8_lossy (as_bytes (join_with crlf ls)) = join_with crlf ls"
    using valid_utf8_decodes from_utf8_exact by blast
  have "0 < length ?head" by (simp add: head_of_def)
  then obtain left es' where r: "read_http_request [] es = (parse_request (join_with crlf ls) left, es')" "left @ arriving es' = body"
    using read_http_request_whole [OF assms(6) fh, of "[]" body] assms(5,7) taken lossy mh by auto
  have "parse_request (join_with crlf ls) left
      = Some \<lparr>rq_method = meth, rq_target = target, rq_headers = fs, rq_leftover = left\<rparr>"
    unfolding ls_def by (rule parse_forward_lines [OF assms(1-4) hl(1)])
  then show ?thesis using r by auto
qed

definition forwarded_headers :: "rstr \<Rightarrow> headers \<Rightarrow> headers" where
  "forwarded_headers host hs = (''Host'', host) # end_to_end hs @ [(''Connection'', ''close'')]"

text \<open>
  C30: Forwarding loses nothing and adds nothing: a request that the proxy rewrites is read back, however
  the bytes arrive, as the same method and path, the chosen Host, exactly the end-to-end headers in
  their order and \<open>Connection: close\<close>; the body behind the head follows unchanged.
\<close>

theorem forwarded_request_read_back:
  assumes "word_ok meth" "word_ok path" "header_ok (''Host'', host)" "list_all header_ok (end_to_end hs)"
    and "one_cookie (end_to_end hs)" "length (rewrite_forward meth path host hs []) \<le> 64 * 1024"
    and "unbroken es" "arriving es = rewrite_forward meth path host hs body"
  shows "\<exists>left es'. read_http_request [] es
      = (Some \<lparr>rq_method = meth, rq_target = path, rq_headers = forwarded_headers host hs, rq_leftover = left\<rparr>, es')
    \<and> left @ arriving es' = body"
proof -
  have trims: "trim ''Connection'' = ''Connection''" "trim ''close'' = ''close''" by code_simp+
  have ok: "list_all header_ok (forwarded_headers host hs)" "one_cookie (forwarded_headers host hs)"
    using assms(3-5) trims by (simp_all add: forwarded_headers_def header_ok_def one_cookie_def is_cookie_def no_cr_simps
        eq_ci_def lowercase_def lower_char_def valid_utf8_ascii is_ascii_def code_of_def is_upper_def)
  have "rewrite_forward meth path host hs more = message_head meth path (forwarded_headers host hs) @ more" for more
    by (simp add: forward_head message_head_def forward_lines_def forwarded_headers_def)
  then show ?thesis using written_request_read_back [OF assms(1,2) ok _ assms(7), of body] assms(6,8) by simp
qed

theorem forwarded_request_read_back_witness:
  "\<exists>left es'. read_http_request [] [Wait, Data (rewrite_forward ''GET'' ''/'' ''h'' [(''A'', ''b''), (''TE'', ''x'')] [1, 2])]
      = (Some \<lparr>rq_method = ''GET'', rq_target = ''/'', rq_headers = [(''Host'', ''h''), (''A'', ''b''), (''Connection'', ''close'')],
          rq_leftover = left\<rparr>, es') \<and> left @ arriving es' = [1, 2]"
proof -
  let ?hs = "[(''A'', ''b''), (''TE'', ''x'')]" and ?b = "[1, 2] :: bytes"
  let ?es = "[Wait, Data (rewrite_forward ''GET'' ''/'' ''h'' ?hs ?b)]"
  have w: "word_ok ''GET''" "word_ok ''/''"
    by (auto simp: word_ok_def no_cr_def is_ascii_def code_of_def intro!: valid_utf8_ascii)
  have e: "end_to_end ?hs = [(''A'', ''b'')]" by code_simp
  have tr: "trim ''Host'' = ''Host''" "trim ''h'' = ''h''" "trim ''A'' = ''A''" "trim ''b'' = ''b''" by code_simp+
  have h: "header_ok (''Host'', ''h'')" "list_all header_ok (end_to_end ?hs)" "one_cookie (end_to_end ?hs)"
    unfolding e using tr
    by (auto simp: header_ok_def no_cr_def is_ascii_def code_of_def one_cookie_def intro!: valid_utf8_ascii le_trans [OF length_filter_le])
  have l: "length (rewrite_forward ''GET'' ''/'' ''h'' ?hs []) \<le> 64 * 1024"
    using e by (simp add: rewrite_forward_def as_bytes_def header_line_def crlf_def)
  have "unbroken ?es" "arriving ?es = rewrite_forward ''GET'' ''/'' ''h'' ?hs ?b" by (simp_all add: unbroken_def)
  from forwarded_request_read_back [OF w h l this] show ?thesis by (simp add: forwarded_headers_def e)
qed

text \<open>
  The status line of a response: version, code and, after a blank, the reason. The dial looks for
  \<^verbatim>\<open> 200\<close> anywhere in the line, so a reason that contains it is excluded here.
\<close>

definition status_line :: "rstr \<Rightarrow> rstr \<Rightarrow> rstr \<Rightarrow> bool" where
  "status_line version status reason \<longleftrightarrow>
     (\<forall>c \<in> set (version @ status @ reason). is_ascii c \<and> c \<noteq> CHR 13 \<and> c \<noteq> CHR 10)
     \<and> CHR '' '' \<notin> set version \<and> length status = 3 \<and> CHR '' '' \<notin> set status
     \<and> (reason = [] \<or> hd reason = CHR '' '') \<and> \<not> contains_str '' 200'' reason"

lemma lossy_ascii_prefix: "\<forall>c \<in> set s. is_ascii c \<Longrightarrow> from_utf8_lossy (as_bytes s @ bs) = s @ from_utf8_lossy bs"
proof (induction s)
  case (Cons c s)
  then have "unat (byte_of c) < 128" by (simp add: is_ascii_def code_of_def)
  then show ?case using Cons utf8_scan_ascii [of "byte_of c"] by (simp add: as_bytes_def from_utf8_lossy.simps)
qed (simp add: as_bytes_def)

lemma contains_str_iff: "contains_str p s \<longleftrightarrow> (\<exists>a b. s = a @ p @ b)"
proof
  assume "contains_str p s"
  then obtain i where "find_sub p s = Some i" by (auto simp: contains_str_def)
  from find_sub_Some [OF this] show "\<exists>a b. s = a @ p @ b" by blast
next
  assume "\<exists>a b. s = a @ p @ b"
  then obtain a b where "s = a @ p @ b" by blast
  then show "contains_str p s" using find_sub_append [of a p b] by (auto simp: contains_str_def)
qed

lemma contains_after: "CHR '' '' \<notin> set a \<Longrightarrow> contains_str (CHR '' '' # p) (a @ s) \<longleftrightarrow> contains_str (CHR '' '' # p) s"
  by (induction a) (auto simp: contains_str_def)

lemma contains_blank:
  "contains_str (CHR '' '' # p) (CHR '' '' # s) \<longleftrightarrow> take (length p) s = p \<or> contains_str (CHR '' '' # p) s"
  by (auto simp: contains_str_def take_prefix_Some_iff split: option.splits)
    (metis append_eq_conv_conj take_prefix_Some_iff not_None_eq append_take_drop_id)+

lemma status_200:
  assumes "status_line version status reason"
  shows "contains_str '' 200'' (version @ '' '' @ status @ reason) \<longleftrightarrow> status = ''200''"
proof -
  have s: "length status = 3" "CHR '' '' \<notin> set status" "\<not> contains_str '' 200'' reason" "CHR '' '' \<notin> set version"
    using assms by (simp_all add: status_line_def)
  have "contains_str '' 200'' (version @ '' '' @ status @ reason) \<longleftrightarrow> contains_str '' 200'' ('' '' @ status @ reason)"
    using contains_after [OF s(4), of "''200''"] by simp
  also have "\<dots> \<longleftrightarrow> take 3 (status @ reason) = ''200'' \<or> contains_str '' 200'' (status @ reason)"
    using contains_blank [of "''200''" "status @ reason"] by (simp add: eval_nat_numeral)
  also have "\<dots> \<longleftrightarrow> status = ''200''" using contains_after [OF s(2), of "''200''" reason] s(1,3) by simp
  finally show ?thesis .
qed

lemma status_first_line:
  assumes "status_line version status reason"
  shows "first_line (from_utf8_lossy (as_bytes (version @ '' '' @ status @ reason) @ [13, 10] @ later)) = version @ '' '' @ status @ reason"
proof -
  let ?l = "version @ '' '' @ status @ reason"
  have a: "\<forall>c \<in> set ?l. is_ascii c" "\<forall>c \<in> set ?l. c \<noteq> CHR 10"
    using assms by (auto simp: status_line_def is_ascii_def code_of_def)
  then have "\<forall>c \<in> set (?l @ [CHR 13, CHR 10]). is_ascii c" by (auto simp: is_ascii_def code_of_def)
  then have "from_utf8_lossy (as_bytes ?l @ [13, 10] @ later) = (?l @ [CHR 13, CHR 10]) @ from_utf8_lossy later"
    using lossy_ascii_prefix [of "?l @ [CHR 13, CHR 10]" later] by (simp add: as_bytes_def byte_13 byte_10)
  moreover have "takeWhile (\<lambda>c. c \<noteq> CHR 10) (?l @ [CHR 13, CHR 10] @ r) = ?l @ [CHR 13]" for r
    using a(2) by (subst takeWhile_append2) auto
  moreover have "butlast (?l @ [CHR 13]) = ?l" by (rule butlast_snoc)
  ultimately show ?thesis by (simp add: first_line_def Let_def)
qed

text \<open>A host of visible ASCII characters without brackets, and the credentials of a CONNECT request.\<close>

definition plain_host :: "rstr \<Rightarrow> bool" where
  "plain_host host \<longleftrightarrow> host \<noteq> [] \<and> (\<forall>c \<in> set host. graphic c \<and> c \<noteq> CHR ''['' \<and> c \<noteq> CHR '']'')"

definition connect_auth :: "(rstr \<Rightarrow> rstr) \<Rightarrow> proxy_auth \<Rightarrow> headers" where
  "connect_auth b64 opts =
     (case (username opts, password opts) of
        (Some user, Some pass) \<Rightarrow>
          if user = [] then [] else [(''Proxy-Authorization'', ''Basic '' @ b64 (user @ '':'' @ pass))]
      | _ \<Rightarrow> [])"

definition connect_headers :: "(rstr \<Rightarrow> rstr) \<Rightarrow> proxy_auth \<Rightarrow> rstr \<Rightarrow> headers" where
  "connect_headers b64 opts authority =
     (''Host'', authority) # connect_auth b64 opts @ [(''Proxy-Connection'', ''Keep-Alive'')]"

lemma connect_request_head:
  "as_bytes (connect_request b64 opts host port)
    = message_head ''CONNECT'' (http_host_port host port) (connect_headers b64 opts (http_host_port host port))"
  by (auto simp: connect_request_def message_head_def connect_headers_def connect_auth_def head_of_def as_bytes_def
      ProxyWire.crlf_def byte_13 byte_10 header_line_def Let_def split: option.splits)

lemma port_text: "\<forall>c \<in> set (show_u16 port). graphic c \<and> c \<noteq> CHR '':''" "show_u16 port \<noteq> []"
  using show_port_chars [of _ port] by (auto simp: show_u16_def)

lemma trim_chars_none: "\<forall>c \<in> set s. \<not> p c \<Longrightarrow> trim_chars p s = s"
proof -
  assume p: "\<forall>c \<in> set s. \<not> p c"
  have d: "dropWhile p t = t" if "\<forall>c \<in> set t. \<not> p c" for t using that by (cases t) auto
  show ?thesis using d [of s] d [of "rev s"] p by (simp add: trim_chars_def trim_start_chars_def trim_end_chars_def)
qed

lemma authority_parts:
  assumes "plain_host host"
  shows "dial_target (http_host_port host port) = Inr (host, port)"
    and "\<forall>c \<in> set (http_host_port host port). graphic c" "http_host_port host port \<noteq> []"
proof -
  have h: "host \<noteq> []" "CHR ''['' \<notin> set host" "CHR '']'' \<notin> set host" "\<forall>c \<in> set host. graphic c"
    using assms by (auto simp: plain_host_def)
  have "\<forall>c \<in> set host. \<not> brackets c" using h(2,3) by (auto simp: brackets_def)
  then have b: "trim_chars brackets host = host" by (rule trim_chars_none)
  have s: "\<not> starts_with ''['' host" using h(1,2) by (cases host) (auto simp: starts_with_def)
  then have j: "http_host_port host port = join_host_port host (show_u16 port)"
    by (simp add: http_host_port_def join_host_port_def)
  have "try_split_host_port (http_host_port host port) = Some (host, show_u16 port)"
    unfolding j using try_split_brackets [of host "show_u16 port"] try_split_plain [of host "show_u16 port"] h s port_text [of port]
    by (cases host) (auto simp: join_host_port_def)
  then show "dial_target (http_host_port host port) = Inr (host, port)" by (simp add: dial_target_def b)
  show "\<forall>c \<in> set (http_host_port host port). graphic c" "http_host_port host port \<noteq> []"
    using h(1,4) port_text [of port] by (auto simp: http_host_port_def graphic_def code_of_def)
qed

lemma graphic_facts: "graphic c \<Longrightarrow> is_ascii c \<and> c \<noteq> CHR '' '' \<and> c \<noteq> CHR 13"
  by (auto simp: graphic_def is_ascii_def code_of_def)

lemma connect_parts_ok:
  assumes "plain_host host" "list_all header_ok (connect_auth b64 opts)" "authority = http_host_port host port"
  shows "word_ok ''CONNECT''" "word_ok authority" "list_all header_ok (connect_headers b64 opts authority)"
    "one_cookie (connect_headers b64 opts authority)"
proof -
  have a: "\<forall>c \<in> set authority. graphic c" "authority \<noteq> []"
    using authority_parts(2,3) [OF assms(1), of port] assms(3) by simp_all
  show "word_ok ''CONNECT''" by (simp add: word_ok_def no_cr_def valid_utf8_ascii is_ascii_def code_of_def)
  show "word_ok authority" using a graphic_facts by (auto simp: word_ok_def no_cr_def intro: valid_utf8_ascii)
  have "trim authority = authority" using a by (intro trim_graphic) auto
  then have "header_ok (''Host'', authority)"
    using \<open>word_ok authority\<close> trim_graphic [of "''Host''"]
    by (simp add: header_ok_def word_ok_def no_cr_def valid_utf8_ascii is_ascii_def code_of_def graphic_def)
  moreover have "header_ok (''Proxy-Connection'', ''Keep-Alive'')"
    using trim_graphic [of "''Proxy-Connection''"] trim_graphic [of "''Keep-Alive''"]
    by (simp add: header_ok_def no_cr_def valid_utf8_ascii is_ascii_def code_of_def graphic_def)
  ultimately show "list_all header_ok (connect_headers b64 opts authority)"
    using assms(2) by (simp add: connect_headers_def)
  show "one_cookie (connect_headers b64 opts authority)"
    by (simp add: connect_headers_def connect_auth_def one_cookie_def is_cookie_def eq_ci_def lowercase_def lower_char_def
        is_upper_def code_of_def split: option.splits)
qed

text \<open>
  C18: an HTTP CONNECT dial consumes the response exactly up to its blank line, so every byte of the
  tunnel is still to be read, and for a status line with a three-character code succeeds exactly when
  the code is 200 (a reason phrase that itself contains \<^verbatim>\<open> 200\<close> is excluded) and otherwise fails with
  \<^verbatim>\<open>InvalidResponse\<close>. What it has sent is read by this program's own proxy, however it arrives, as a
  CONNECT request for the host and port, with the credentials exactly if both user and password are
  set and the user is not empty, and nothing left over.
\<close>

theorem dial_http_connect_correct:
  assumes "inbox c = head @ rest" "has_window CRLFCRLF head" "length head \<le> 8192"
    and "\<forall>k < length head. \<not> has_window CRLFCRLF (take k head)"
    and "head = as_bytes (version @ '' '' @ status @ reason) @ [13, 10] @ tail" "status_line version status reason"
    and "plain_host host" "list_all header_ok (connect_auth b64 opts)"
    and "length (connect_request b64 opts host port) \<le> 64 * 1024"
  shows "\<exists>sent. dial_http_connect b64 opts host port c =
        (if status = ''200'' then Inr () else Inl (Fault InvalidResponse), c\<lparr>inbox := rest, outbox := outbox c @ sent\<rparr>)
    \<and> (\<forall>es body. unbroken es \<and> arriving es = sent @ body \<longrightarrow>
         (\<exists>rq es'. read_http_request [] es = (Some rq, es') \<and> rq_leftover rq @ arriving es' = body
            \<and> rq_method rq = ''CONNECT'' \<and> dial_target (rq_target rq) = Inr (host, port)
            \<and> rq_headers rq = (''Host'', rq_target rq) # connect_auth b64 opts @ [(''Proxy-Connection'', ''Keep-Alive'')]))"
proof -
  let ?sent = "as_bytes (connect_request b64 opts host port)" and ?a = "http_host_port host port"
  have "contains_str '' 200'' (first_line (from_utf8_lossy head)) \<longleftrightarrow> status = ''200''"
    unfolding assms(5) status_first_line [OF assms(6)] by (rule status_200 [OF assms(6)])
  then have d: "dial_http_connect b64 opts host port c =
      (if status = ''200'' then Inr () else Inl (Fault InvalidResponse), c\<lparr>inbox := rest, outbox := outbox c @ ?sent\<rparr>)"
    using dial_http_connect_reply [OF assms(1-4)] by simp
  note ok = connect_parts_ok [where port = port, OF assms(7,8) refl]
  have len: "length (message_head ''CONNECT'' ?a (connect_headers b64 opts ?a)) \<le> 64 * 1024"
    using assms(9) unfolding connect_request_head [symmetric] by simp
  have "\<exists>rq es'. read_http_request [] es = (Some rq, es') \<and> rq_leftover rq @ arriving es' = body
      \<and> rq_method rq = ''CONNECT'' \<and> dial_target (rq_target rq) = Inr (host, port)
      \<and> rq_headers rq = (''Host'', rq_target rq) # connect_auth b64 opts @ [(''Proxy-Connection'', ''Keep-Alive'')]"
    if "unbroken es" "arriving es = ?sent @ body" for es body
    using written_request_read_back [OF ok len that(1), of body] that(2) authority_parts(1) [OF assms(7)]
    by (auto simp: connect_request_head connect_headers_def)
  then show ?thesis using d by blast
qed

theorem dial_http_connect_correct_witness:
  "let c = \<lparr>inbox = as_bytes ''HTTP/1.1 200 OK'' @ [13, 10, 13, 10, 22, 3], outbox = []\<rparr>;
       opts = \<lparr>username = Some ''me'', password = Some ''pw''\<rparr>
   in \<exists>sent. dial_http_connect (\<lambda>_. ''bWU6cHc='') opts ''h.io'' 443 c = (Inr (), c\<lparr>inbox := [22, 3], outbox := sent\<rparr>)
    \<and> (\<exists>rq es'. read_http_request [] [Data (sent @ [22, 3])] = (Some rq, es') \<and> rq_leftover rq @ arriving es' = [22, 3]
         \<and> rq_method rq = ''CONNECT'' \<and> dial_target (rq_target rq) = Inr (''h.io'', 443))"
proof -
  define h where "h = as_bytes (''HTTP/1.1'' @ '' '' @ ''200'' @ '' OK'') @ [13, 10] @ [13, 10 :: 8 word]"
  define b where "b = (\<lambda>_ :: rstr. ''bWU6cHc='')"
  define opts where "opts = \<lparr>username = Some ''me'', password = Some ''pw''\<rparr>"
  let ?c = "\<lparr>inbox = h @ [22, 3], outbox = []\<rparr>"
  have w: "has_window CRLFCRLF h" "length h \<le> 8192"
    and n: "list_all (\<lambda>k. \<not> has_window CRLFCRLF (take k h)) [0..<length h]" unfolding h_def by code_simp+
  have n: "\<forall>k < length h. \<not> has_window CRLFCRLF (take k h)" using n by (simp add: list_all_iff)
  have l: "status_line ''HTTP/1.1'' ''200'' '' OK''"
    by (simp add: status_line_def is_ascii_def code_of_def contains_str_def)
  have p: "plain_host ''h.io''" by (simp add: plain_host_def graphic_def code_of_def)
  have k: "list_all header_ok (connect_auth b opts)" "length (connect_request b opts ''h.io'' 443) \<le> 64 * 1024"
    unfolding b_def opts_def by code_simp+
  from dial_http_connect_correct [OF _ w n h_def l p k, of ?c "[22, 3]"]
  obtain sent where "dial_http_connect b opts ''h.io'' 443 ?c = (Inr (), ?c\<lparr>inbox := [22, 3], outbox := outbox ?c @ sent\<rparr>)"
    and r: "\<forall>es body. unbroken es \<and> arriving es = sent @ body \<longrightarrow>
         (\<exists>rq es'. read_http_request [] es = (Some rq, es') \<and> rq_leftover rq @ arriving es' = body
            \<and> rq_method rq = ''CONNECT'' \<and> dial_target (rq_target rq) = Inr (''h.io'', 443)
            \<and> rq_headers rq = (''Host'', rq_target rq) # connect_auth b opts @ [(''Proxy-Connection'', ''Keep-Alive'')])"
    by auto
  moreover have "unbroken [Data (sent @ [22, 3])] \<and> arriving [Data (sent @ [22, 3])] = sent @ [22, 3]"
    by (simp add: unbroken_def)
  note r [rule_format, OF this]
  moreover have "h @ [22, 3] = as_bytes ''HTTP/1.1 200 OK'' @ [13, 10, 13, 10, 22, 3]" unfolding h_def by simp
  ultimately show ?thesis unfolding Let_def b_def opts_def by auto
qed

text \<open>The body of a chunked request is passed on as it is, without the header that says so.\<close>

lemma transfer_encoding_dropped:
  "rewrite_forward meth path host ((''Transfer-Encoding'', ''chunked'') # hs) body = rewrite_forward meth path host hs body"
proof -
  have "is_hop ''Transfer-Encoding''" by code_simp
  then show ?thesis by (simp add: rewrite_forward_def end_to_end_def)
qed

section \<open>A tunnel delivers\<close>

fun sent_until_dialled :: "tunnel_event list \<Rightarrow> bytes" where
  "sent_until_dialled (Client_sent bs # evs) = bs @ sent_until_dialled evs"
| "sent_until_dialled _ = []"

lemma tunnel_loop_opened:
  "tunnel_loop early evs = Opened got \<Longrightarrow> length early \<le> MAX_EARLY \<Longrightarrow>
   got = early @ sent_until_dialled evs \<and> length got \<le> MAX_EARLY"
  by (induction early evs rule: tunnel_loop.induct) (auto split: if_splits)

text \<open>
  C29: Once a tunnel is open, what the destination has received from the first record on is a prefix of
  everything the client sent: what came with the request, what came during the dial and what came
  later, in order, with nothing lost or doubled; and when the client's direction ended in order, it
  is all of it.
\<close>

theorem tunnel_delivers:
  assumes "tunnel_connect leftover evs = Opened early" "keeps_up t" "tg_writes t = []" "unbroken client"
    and "tunnel_relay early client dest t now c = (t', r0)" "relay_step\<^sup>*\<^sup>* r0 r"
  shows "\<exists>rest. leftover @ sent_until_dialled evs @ arriving client = concat (tg_writes t') @ h_out (rl_up r) @ rest
    \<and> (h_state (rl_up r) = Finished \<longrightarrow> \<not> rl_stop r \<longrightarrow> rest = [] \<and> h_shut (rl_up r))"
proof -
  have early: "early = leftover @ sent_until_dialled evs"
    using assms(1) tunnel_loop_opened [of leftover evs early] by (simp add: tunnel_connect_def split: if_splits)
  obtain x client' t1 where f: "flush_first_record early client t = (x, client', t1)" by (metis surj_pair)
  have t: "t' = t1" "r0 = relay_new client' dest now c" using assms(5) f by (simp_all add: tunnel_relay_def)
  have "concat (tg_writes t') @ arriving client' = early @ arriving client"
    using flush_first_forwards [OF assms(2,4), of early] assms(3) unfolding f t by (auto simp: forwards_def)
  moreover have "relay_ok (arriving client') (arriving dest) c r"
    using relay_reachable_ok assms(6) unfolding t(2) by blast
  then have up: "half_ok (arriving client') (rl_stop r) (rl_up r)" by (simp add: relay_ok_def)
  then obtain rest where rest: "arriving client' = h_out (rl_up r) @ rest" using half_ok_prefix by blast
  ultimately have "leftover @ sent_until_dialled evs @ arriving client = concat (tg_writes t') @ h_out (rl_up r) @ rest"
    using early by simp
  moreover have "rest = [] \<and> h_shut (rl_up r)" if "h_state (rl_up r) = Finished" "\<not> rl_stop r"
    using up that rest by (simp add: half_ok_def)
  ultimately show ?thesis by blast
qed

theorem tunnel_delivers_witness:
  "\<exists>t' r0 rest. tunnel_relay [0x16, 3, 1] [Data [0, 1, 7], Data [9]] [] \<lparr>tg_writes = [], tg_calls = None\<rparr> 0 no_traffic = (t', r0)
    \<and> [0x16, 3, 1, 0, 1, 7, 9] = concat (tg_writes t') @ h_out (rl_up r0) @ rest"
proof -
  let ?t = "\<lparr>tg_writes = [], tg_calls = None\<rparr>" and ?c = "[Data [0, 1, 7], Data [9]]"
  have o: "tunnel_connect [0x16] [Client_sent [3, 1], Dialled] = Opened [0x16, 3, 1]"
    by (simp add: tunnel_connect_def MAX_EARLY_def)
  have k: "keeps_up ?t" "tg_writes ?t = []" "unbroken ?c" by (simp_all add: keeps_up_def unbroken_def)
  obtain t' r0 where r: "tunnel_relay [0x16, 3, 1] ?c [] ?t 0 no_traffic = (t', r0)" by (metis surj_pair)
  show ?thesis using tunnel_delivers [OF o k r rtranclp.rtrancl_refl] r by auto
qed

end
