(* ===== verification/VmessWire.thy ===== *)
theory VmessWire
  imports ProxyWire Utf8
begin

text \<open>
  \<^verbatim>\<open>crates/clash-proxynet/src/vmess\<close>: key derivation (\<^verbatim>\<open>kdf.rs\<close>), body ciphers, nonces and chunk sizes
  (\<^verbatim>\<open>crypto.rs\<close>), and the request header with the decoder of the file's tests (\<^verbatim>\<open>protocol.rs\<close>). The hash
  functions and ciphers are parameters (\<open>vmess_lib\<close>) with their documented laws (\<open>vmess_lib_ok\<close>); clock
  and random bytes are arguments. The result: the decoder reads back from a request exactly the
  session, host, port and cipher it was made from.
\<close>

section \<open>Libraries\<close>

datatype aead_kind = Aes_gcm | Chacha_poly

fun aead_key_len :: "aead_kind \<Rightarrow> nat" where
  "aead_key_len Aes_gcm = 16"
| "aead_key_len Chacha_poly = 32"

text \<open>\<open>lv_shake seed i\<close> is the \<open>i\<close>-th big-endian 16-bit number of SHAKE128's output for the seed. A seal
  takes key, nonce, associated data and text and gives ciphertext and tag.\<close>

record vmess_lib =
  lv_md5 :: "bytes \<Rightarrow> bytes"
  lv_sha256 :: "bytes \<Rightarrow> bytes"
  lv_hmac_md5 :: "bytes \<Rightarrow> bytes \<Rightarrow> bytes"
  lv_hmac_sha256 :: "bytes \<Rightarrow> bytes \<Rightarrow> bytes"
  lv_shake :: "bytes \<Rightarrow> nat \<Rightarrow> u16"
  lv_crc32 :: "bytes \<Rightarrow> u32"
  lv_aes_block :: "bytes \<Rightarrow> bytes \<Rightarrow> bytes"
  lv_cfb_encrypt :: "bytes \<Rightarrow> bytes \<Rightarrow> bytes \<Rightarrow> bytes"
  lv_cfb_decrypt :: "bytes \<Rightarrow> bytes \<Rightarrow> bytes \<Rightarrow> bytes"
  lv_seal :: "aead_kind \<Rightarrow> bytes \<Rightarrow> bytes \<Rightarrow> bytes \<Rightarrow> bytes \<Rightarrow> (bytes \<times> bytes) option"
  lv_open :: "aead_kind \<Rightarrow> bytes \<Rightarrow> bytes \<Rightarrow> bytes \<Rightarrow> bytes \<Rightarrow> bytes \<Rightarrow> bytes option"

definition vmess_lib_ok :: "vmess_lib \<Rightarrow> bool" where
  "vmess_lib_ok lib \<longleftrightarrow>
     (\<forall>bs. length (lv_md5 lib bs) = 16) \<and> (\<forall>bs. length (lv_sha256 lib bs) = 32)
     \<and> (\<forall>k bs. length (lv_hmac_sha256 lib k bs) = 32)
     \<and> (\<forall>k b. length b = 16 \<longrightarrow> length (lv_aes_block lib k b) = 16)
     \<and> (\<forall>c k n ad p. length k = aead_key_len c \<longrightarrow> length n = 12 \<longrightarrow> length p < 65536 \<longrightarrow>
          (\<exists>ct tag. lv_seal lib c k n ad p = Some (ct, tag) \<and> length ct = length p \<and> length tag = 16
             \<and> lv_open lib c k n ad ct tag = Some p))"

section \<open>Key derivation\<close>

definition IPAD :: u8 where "IPAD = 0x36"
definition OPAD :: u8 where "OPAD = 0x5C"
definition BLOCK_LEN :: nat where "BLOCK_LEN = 64"
definition KDF_TAG_LEN :: nat where "KDF_TAG_LEN = 32"

definition AUTH_ID_ENCRYPTION_KEY :: bytes where "AUTH_ID_ENCRYPTION_KEY = as_bytes ''AES Auth ID Encryption''"
definition AEAD_RESP_HEADER_LEN_KEY :: bytes where "AEAD_RESP_HEADER_LEN_KEY = as_bytes ''AEAD Resp Header Len Key''"
definition AEAD_RESP_HEADER_LEN_IV :: bytes where "AEAD_RESP_HEADER_LEN_IV = as_bytes ''AEAD Resp Header Len IV''"
definition AEAD_RESP_HEADER_PAYLOAD_KEY :: bytes where "AEAD_RESP_HEADER_PAYLOAD_KEY = as_bytes ''AEAD Resp Header Key''"
definition AEAD_RESP_HEADER_PAYLOAD_IV :: bytes where "AEAD_RESP_HEADER_PAYLOAD_IV = as_bytes ''AEAD Resp Header IV''"
definition VMESS_AEAD_KDF :: bytes where "VMESS_AEAD_KDF = as_bytes ''VMess AEAD KDF''"
definition HEADER_PAYLOAD_AEAD_KEY :: bytes where "HEADER_PAYLOAD_AEAD_KEY = as_bytes ''VMess Header AEAD Key''"
definition HEADER_PAYLOAD_AEAD_IV :: bytes where "HEADER_PAYLOAD_AEAD_IV = as_bytes ''VMess Header AEAD Nonce''"
definition HEADER_LENGTH_AEAD_KEY :: bytes where "HEADER_LENGTH_AEAD_KEY = as_bytes ''VMess Header AEAD Key_Length''"
definition HEADER_LENGTH_AEAD_IV :: bytes where "HEADER_LENGTH_AEAD_IV = as_bytes ''VMess Header AEAD Nonce_Length''"

text \<open>A hasher is the function from all that is fed to it to its digest. Each layer is an HMAC over the
  hasher below.\<close>

definition kdf_block :: "(bytes \<Rightarrow> bytes) \<Rightarrow> bytes \<Rightarrow> bytes" where
  "kdf_block hasher key =
     (let k = (if BLOCK_LEN < length key then take KDF_TAG_LEN (hasher key) else key)
      in k @ replicate (BLOCK_LEN - length k) 0)"

definition kdf_layer :: "(bytes \<Rightarrow> bytes) \<Rightarrow> bytes \<Rightarrow> bytes \<Rightarrow> bytes" where
  "kdf_layer hasher key m =
     (let ikey = map (\<lambda>b. b XOR IPAD) (kdf_block hasher key);
          okey = map (\<lambda>b. b XOR OPAD) (kdf_block hasher key);
          h1 = hasher (ikey @ m)
      in hasher (okey @ h1))"

definition get_vmess_kdf_1 :: "vmess_lib \<Rightarrow> bytes \<Rightarrow> bytes \<Rightarrow> bytes" where
  "get_vmess_kdf_1 lib key1 = kdf_layer (lv_hmac_sha256 lib VMESS_AEAD_KDF) key1"

definition get_vmess_kdf_2 :: "vmess_lib \<Rightarrow> bytes \<Rightarrow> bytes \<Rightarrow> bytes \<Rightarrow> bytes" where
  "get_vmess_kdf_2 lib key1 key2 = kdf_layer (get_vmess_kdf_1 lib key1) key2"

definition get_vmess_kdf_3 :: "vmess_lib \<Rightarrow> bytes \<Rightarrow> bytes \<Rightarrow> bytes \<Rightarrow> bytes \<Rightarrow> bytes" where
  "get_vmess_kdf_3 lib key1 key2 key3 = kdf_layer (get_vmess_kdf_2 lib key1 key2) key3"

definition vmess_kdf_1_one_shot :: "vmess_lib \<Rightarrow> bytes \<Rightarrow> bytes \<Rightarrow> bytes" where
  "vmess_kdf_1_one_shot lib k key1 = get_vmess_kdf_1 lib key1 k"

definition vmess_kdf_3_one_shot :: "vmess_lib \<Rightarrow> bytes \<Rightarrow> bytes \<Rightarrow> bytes \<Rightarrow> bytes \<Rightarrow> bytes" where
  "vmess_kdf_3_one_shot lib k key1 key2 key3 = get_vmess_kdf_3 lib key1 key2 key3 k"

lemma length_kdf:
  assumes "vmess_lib_ok lib"
  shows "length (vmess_kdf_1_one_shot lib k a) = 32" "length (vmess_kdf_3_one_shot lib k a b c) = 32"
  using assms
  by (simp_all add: vmess_kdf_1_one_shot_def vmess_kdf_3_one_shot_def get_vmess_kdf_1_def get_vmess_kdf_2_def
      get_vmess_kdf_3_def kdf_layer_def Let_def vmess_lib_ok_def)

section \<open>Body ciphers, nonces and sizes\<close>

datatype body_aead = Aes128 bytes | ChaCha bytes

definition chacha_key :: "vmess_lib \<Rightarrow> bytes \<Rightarrow> bytes" where
  "chacha_key lib key = (let k1 = lv_md5 lib key; k2 = lv_md5 lib k1 in k1 @ k2)"

definition body_new :: "vmess_lib \<Rightarrow> rstr \<Rightarrow> bytes \<Rightarrow> fault + body_aead" where
  "body_new lib name key =
     (let name = lowercase name in
      if name = ''aes-128-gcm'' then (if length key = 16 then Inr (Aes128 key) else Inl (Fault AuthRequired))
      else if name = ''chacha20-poly1305'' \<or> name = ''chacha20-ietf-poly1305'' then
        (let derived = chacha_key lib key in
         if length derived = 32 then Inr (ChaCha derived) else Inl (Fault AuthRequired))
      else Inl (Fault AuthRequired))"

fun body_kind :: "body_aead \<Rightarrow> aead_kind" where
  "body_kind (Aes128 _) = Aes_gcm"
| "body_kind (ChaCha _) = Chacha_poly"

fun body_key :: "body_aead \<Rightarrow> bytes" where
  "body_key (Aes128 k) = k"
| "body_key (ChaCha k) = k"

definition body_tag_len :: "body_aead \<Rightarrow> nat" where "body_tag_len a = 16"

text \<open>A nonce of another length than twelve panics in \<^verbatim>\<open>Nonce::from_slice\<close>.\<close>

definition body_seal :: "vmess_lib \<Rightarrow> body_aead \<Rightarrow> bytes \<Rightarrow> bytes \<Rightarrow> fault + bytes" where
  "body_seal lib a nonce buf =
     (if length nonce \<noteq> 12 then Inl Panic
      else
        (case lv_seal lib (body_kind a) (body_key a) nonce [] buf of
           None \<Rightarrow> Inl (Fault InvalidResponse)
         | Some (ct, tag) \<Rightarrow> Inr (ct @ tag)))"

definition body_open :: "vmess_lib \<Rightarrow> body_aead \<Rightarrow> bytes \<Rightarrow> bytes \<Rightarrow> fault + bytes" where
  "body_open lib a nonce buf =
     (if length buf < 16 then Inl (Fault InvalidResponse)
      else if length nonce \<noteq> 12 then Inl Panic
      else
        (let ct = take (length buf - 16) buf; tag = drop (length buf - 16) buf in
         case lv_open lib (body_kind a) (body_key a) nonce [] ct tag of
           None \<Rightarrow> Inl (Fault InvalidResponse)
         | Some p \<Rightarrow> Inr p))"

record vmess_nonce =
  vn_nonce :: bytes
  vn_size :: nat
  vn_count :: u16

definition vn_new :: "bytes \<Rightarrow> nat \<Rightarrow> vmess_nonce" where
  "vn_new iv n = \<lparr>vn_nonce = iv @ replicate (n - length iv) 0, vn_size = n, vn_count = 0xffff\<rparr>"

definition vn_next :: "vmess_nonce \<Rightarrow> bytes \<times> vmess_nonce" where
  "vn_next n =
     (let c = vn_count n + 1; v = put_at 0 (to_be16 c) (vn_nonce n)
      in (take (vn_size n) v, n\<lparr>vn_count := c, vn_nonce := v\<rparr>))"

record shake_sizes =
  sk_seed :: bytes
  sk_pos :: nat

definition sk_new :: "bytes \<Rightarrow> shake_sizes" where
  "sk_new nonce = \<lparr>sk_seed = nonce, sk_pos = 0\<rparr>"

definition next_u16 :: "vmess_lib \<Rightarrow> shake_sizes \<Rightarrow> u16 \<times> shake_sizes" where
  "next_u16 lib s = (lv_shake lib (sk_seed s) (sk_pos s), s\<lparr>sk_pos := Suc (sk_pos s)\<rparr>)"

definition sk_decode :: "vmess_lib \<Rightarrow> u8 \<Rightarrow> u8 \<Rightarrow> shake_sizes \<Rightarrow> u16 \<times> shake_sizes" where
  "sk_decode lib b0 b1 s = (case next_u16 lib s of (m, s) \<Rightarrow> (m XOR from_be16 b0 b1, s))"

definition sk_encode :: "vmess_lib \<Rightarrow> u16 \<Rightarrow> shake_sizes \<Rightarrow> bytes \<times> shake_sizes" where
  "sk_encode lib n s = (case next_u16 lib s of (m, s) \<Rightarrow> (to_be16 (m XOR n), s))"

definition next_padding_len :: "vmess_lib \<Rightarrow> shake_sizes \<Rightarrow> u16 \<times> shake_sizes" where
  "next_padding_len lib s = (case next_u16 lib s of (m, s) \<Rightarrow> (m mod 64, s))"

lemma body_new_ok:
  assumes "vmess_lib_ok lib" "length key = 16" "body_new lib name key = Inr a"
  shows "length (body_key a) = aead_key_len (body_kind a)"
  using assms by (auto simp: body_new_def Let_def split: if_splits)

lemma body_seals:
  assumes "vmess_lib_ok lib" "length (body_key a) = aead_key_len (body_kind a)" "length nonce = 12" "length p < 65536"
  shows "\<exists>c. body_seal lib a nonce p = Inr c \<and> length c = length p + 16 \<and> body_open lib a nonce c = Inr p"
proof -
  obtain ct tag where "lv_seal lib (body_kind a) (body_key a) nonce [] p = Some (ct, tag)" "length ct = length p"
    "length tag = 16" "lv_open lib (body_kind a) (body_key a) nonce [] ct tag = Some p"
    using assms unfolding vmess_lib_ok_def by blast
  then show ?thesis using assms(3) by (simp add: body_seal_def body_open_def)
qed

section \<open>The request header\<close>

definition CMD_TCP :: u8 where "CMD_TCP = 0x01"
definition SECURITY_AES128_GCM :: u8 where "SECURITY_AES128_GCM = 0x03"
definition SECURITY_CHACHA20 :: u8 where "SECURITY_CHACHA20 = 0x04"
definition OPT_CHUNK_STREAM :: u8 where "OPT_CHUNK_STREAM = 0x01"
definition OPT_CHUNK_MASKING :: u8 where "OPT_CHUNK_MASKING = 0x04"
definition OPT_GLOBAL_PADDING :: u8 where "OPT_GLOBAL_PADDING = 0x08"

record client_session =
  cs_request_key :: bytes
  cs_request_iv :: bytes
  cs_response_key :: bytes
  cs_response_iv :: bytes
  cs_response_header :: u8
  cs_aead :: bool

text \<open>Random bytes are drawn one by one.\<close>

definition draw :: "(nat \<Rightarrow> u8) \<Rightarrow> nat \<Rightarrow> bytes" where
  "draw rnd n = map rnd [0..<n]"

definition session_new :: "vmess_lib \<Rightarrow> bool \<Rightarrow> (nat \<Rightarrow> u8) \<Rightarrow> client_session" where
  "session_new lib aead rnd =
     (let rnd = draw rnd 33; rk = take 16 rnd; ri = slice 16 32 rnd;
          hash = (if aead then lv_sha256 lib else lv_md5 lib)
      in \<lparr>cs_request_key = rk, cs_request_iv = ri, cs_response_key = take 16 (hash rk),
          cs_response_iv = take 16 (hash ri), cs_response_header = rnd ! 32, cs_aead = aead\<rparr>)"

definition fnv1a32 :: "bytes \<Rightarrow> u32" where
  "fnv1a32 data = List.fold (\<lambda>b h. (h XOR word_of_nat (unat b)) * 0x01000193) data 0x811c9dc5"

definition cmd_key :: "vmess_lib \<Rightarrow> bytes \<Rightarrow> bytes" where
  "cmd_key lib uuid = lv_md5 lib (uuid @ as_bytes ''c48619fe-8f02-49e0-b9e9-edf763e17e21'')"

definition create_auth_id :: "vmess_lib \<Rightarrow> bytes \<Rightarrow> 64 word \<Rightarrow> (nat \<Rightarrow> u8) \<Rightarrow> bytes" where
  "create_auth_id lib key ts rnd =
     (let buf = to_be64 ts @ draw rnd 4; buf = buf @ to_be32 (lv_crc32 lib buf);
          k = take 16 (vmess_kdf_1_one_shot lib key AUTH_ID_ENCRYPTION_KEY)
      in lv_aes_block lib k buf)"

text \<open>\<^verbatim>\<open>Aes128Gcm\<close> with the errors the callers map them to.\<close>

definition gcm_seal :: "vmess_lib \<Rightarrow> bytes \<Rightarrow> bytes \<Rightarrow> bytes \<Rightarrow> bytes \<Rightarrow> fault + bytes" where
  "gcm_seal lib key iv ad p =
     (if length key \<noteq> 16 then Inl (Fault AuthRequired)
      else if length iv \<noteq> 12 then Inl Panic
      else
        (case lv_seal lib Aes_gcm key iv ad p of
           None \<Rightarrow> Inl (Fault InvalidResponse)
         | Some (ct, tag) \<Rightarrow> Inr (ct @ tag)))"

definition gcm_open :: "vmess_lib \<Rightarrow> bytes \<Rightarrow> bytes \<Rightarrow> bytes \<Rightarrow> bytes \<Rightarrow> bytes \<Rightarrow> fault + bytes" where
  "gcm_open lib key iv ad ct tag =
     (if length key \<noteq> 16 then Inl (Fault AuthRequired)
      else if length iv \<noteq> 12 \<or> length tag \<noteq> 16 then Inl Panic
      else
        (case lv_open lib Aes_gcm key iv ad ct tag of
           None \<Rightarrow> Inl (Fault InvalidResponse)
         | Some p \<Rightarrow> Inr p))"

definition seal_aead_header ::
  "vmess_lib \<Rightarrow> bytes \<Rightarrow> 64 word \<Rightarrow> (nat \<Rightarrow> u8) \<Rightarrow> (nat \<Rightarrow> u8) \<Rightarrow> bytes \<Rightarrow> fault + bytes" where
  "seal_aead_header lib key ts rnd_id rnd_nonce data =
     (let auth_id = create_auth_id lib key ts rnd_id; nonce8 = draw rnd_nonce 8;
          len_key = take 16 (vmess_kdf_3_one_shot lib key HEADER_LENGTH_AEAD_KEY auth_id nonce8);
          len_iv = take 12 (vmess_kdf_3_one_shot lib key HEADER_LENGTH_AEAD_IV auth_id nonce8)
      in bind_result (gcm_seal lib len_key len_iv auth_id (to_be16 (word_of_nat (length data)))) (\<lambda>len_plain.
         let pkey = take 16 (vmess_kdf_3_one_shot lib key HEADER_PAYLOAD_AEAD_KEY auth_id nonce8);
             piv = take 12 (vmess_kdf_3_one_shot lib key HEADER_PAYLOAD_AEAD_IV auth_id nonce8)
         in bind_result (gcm_seal lib pkey piv auth_id data) (\<lambda>payload.
            Inr (auth_id @ len_plain @ nonce8 @ payload))))"

text \<open>What a request draws from the clock and the random generator.\<close>

record request_draws =
  dr_time :: "64 word"
  dr_delta :: u32
  dr_padding :: u8
  dr_pad :: "nat \<Rightarrow> u8"
  dr_seal_time :: "64 word"
  dr_auth :: "nat \<Rightarrow> u8"
  dr_nonce :: "nat \<Rightarrow> u8"

definition request_time :: "bool \<Rightarrow> request_draws \<Rightarrow> 64 word" where
  "request_time aead d =
     (if aead then dr_time d else dr_time d + word_of_int (int (unat (dr_delta d) mod 60) - 30))"

definition request_body ::
  "rstr \<Rightarrow> u16 \<Rightarrow> u8 \<Rightarrow> client_session \<Rightarrow> request_draws \<Rightarrow> fault + bytes" where
  "request_body dest_host dest_port security sess d =
     (let padding_len = unat (dr_padding d) mod 16 in
      bind_result (write_socks_port_first dest_host dest_port (replicate (2 + MAX_LENGTH) 0)) (\<lambda>(n, addr).
        Inr ([1] @ cs_request_iv sess @ cs_request_key sess
          @ [cs_response_header sess, OPT_CHUNK_STREAM OR OPT_CHUNK_MASKING OR OPT_GLOBAL_PADDING,
             push_bit 4 (word_of_nat padding_len) OR security, 0, CMD_TCP]
          @ take n addr @ draw (dr_pad d) padding_len)))"

definition encode_request ::
  "vmess_lib \<Rightarrow> (bytes \<Rightarrow> bytes) \<Rightarrow> rstr \<Rightarrow> rstr \<Rightarrow> u16 \<Rightarrow> u8 \<Rightarrow> client_session \<Rightarrow> request_draws \<Rightarrow> fault + bytes" where
  "encode_request lib sha1 uuid dest_host dest_port security sess d =
     (case uuid_write_be sha1 uuid of
        None \<Rightarrow> Inl (Fault AuthRequired)
      | Some uid \<Rightarrow>
          (let ts = request_time (cs_aead sess) d;
               auth = (if cs_aead sess then [] else lv_hmac_md5 lib uid (to_be64 ts))
           in bind_result (request_body dest_host dest_port security sess d) (\<lambda>buf.
              let buf = buf @ to_be32 (fnv1a32 buf); key = cmd_key lib uid in
              if cs_aead sess then seal_aead_header lib key (dr_seal_time d) (dr_auth d) (dr_nonce d) buf
              else
                (let src = to_be64 ts; iv = lv_md5 lib (src @ src @ src @ src)
                 in Inr (auth @ lv_cfb_encrypt lib key iv buf)))))"

section \<open>Decoding a request header\<close>

definition AEAD_HEADER_PREFIX :: nat where "AEAD_HEADER_PREFIX = 16 + 18 + 8"

definition cmd_key_from_uuid :: "vmess_lib \<Rightarrow> (bytes \<Rightarrow> bytes) \<Rightarrow> rstr \<Rightarrow> fault + bytes" where
  "cmd_key_from_uuid lib sha1 uuid =
     (case uuid_write_be sha1 uuid of None \<Rightarrow> Inl (Fault AuthRequired) | Some uid \<Rightarrow> Inr (cmd_key lib uid))"

definition aead_header_payload_len :: "vmess_lib \<Rightarrow> bytes \<Rightarrow> bytes \<Rightarrow> fault + nat" where
  "aead_header_payload_len lib key prefix =
     (if length prefix < AEAD_HEADER_PREFIX then Inl (Fault InvalidResponse)
      else
        (let auth_id = take 16 prefix; ct = slice 16 18 prefix; tag = slice 18 34 prefix; nonce8 = slice 34 42 prefix;
             len_key = take 16 (vmess_kdf_3_one_shot lib key HEADER_LENGTH_AEAD_KEY auth_id nonce8);
             len_iv = take 12 (vmess_kdf_3_one_shot lib key HEADER_LENGTH_AEAD_IV auth_id nonce8)
         in bind_result (gcm_open lib len_key len_iv auth_id ct tag) (\<lambda>p.
            if length p < 2 then Inl Panic else Inr (unat (from_be16 (p ! 0) (p ! 1))))))"

text \<open>\<^verbatim>\<open>Ipv6Addr::from(octets)\<close>.\<close>

fun words_of :: "bytes \<Rightarrow> u16 list" where
  "words_of (a # b # bs) = from_be16 a b # words_of bs"
| "words_of _ = []"

definition parse_socks_host :: "bytes \<Rightarrow> fault + rstr \<times> nat" where
  "parse_socks_host buf =
     (if buf = [] then Inl (Fault InvalidResponse)
      else if buf ! 0 = 1 \<and> 5 \<le> length buf then
        Inr (show_ipv4 (Ipv4 (buf ! 1) (buf ! 2) (buf ! 3) (buf ! 4)), 5)
      else if buf ! 0 = 3 \<and> 2 \<le> length buf then
        (let n = unat (buf ! 1) in
         if length buf < 2 + n then Inl (Fault InvalidResponse)
         else Inr (from_utf8_lossy (slice 2 (2 + n) buf), 2 + n))
      else if buf ! 0 = 4 \<and> 17 \<le> length buf then Inr (show_ipv6 (words_of (slice 1 17 buf)), 17)
      else Inl (Fault InvalidResponse))"

definition decode_aead_header ::
  "vmess_lib \<Rightarrow> (bytes \<Rightarrow> bytes) \<Rightarrow> rstr \<Rightarrow> bytes \<Rightarrow> fault + client_session \<times> rstr \<times> u16 \<times> u8" where
  "decode_aead_header lib sha1 uuid packet =
     bind_result (cmd_key_from_uuid lib sha1 uuid) (\<lambda>key.
     bind_result (aead_header_payload_len lib key packet) (\<lambda>payload_len.
     if length packet < AEAD_HEADER_PREFIX + payload_len + 16 then Inl (Fault InvalidResponse)
     else
       (let auth_id = take 16 packet; nonce8 = slice 34 42 packet;
            payload = slice AEAD_HEADER_PREFIX (AEAD_HEADER_PREFIX + payload_len + 16) packet;
            tag = drop payload_len payload; payload = take payload_len payload;
            pkey = take 16 (vmess_kdf_3_one_shot lib key HEADER_PAYLOAD_AEAD_KEY auth_id nonce8);
            piv = take 12 (vmess_kdf_3_one_shot lib key HEADER_PAYLOAD_AEAD_IV auth_id nonce8)
        in bind_result (gcm_open lib pkey piv auth_id payload tag) (\<lambda>payload.
           if length payload < 42 \<or> payload ! 0 \<noteq> 1 then Inl (Fault InvalidResponse)
           else
             (let riv = slice 1 17 payload; rkey = slice 17 33 payload in
              bind_result (parse_socks_host (drop 40 payload)) (\<lambda>(host, _).
                Inr (\<lparr>cs_request_key = rkey, cs_request_iv = riv, cs_response_key = take 16 (lv_sha256 lib rkey),
                      cs_response_iv = take 16 (lv_sha256 lib riv), cs_response_header = payload ! 33, cs_aead = True\<rparr>,
                     host, from_be16 (payload ! 38) (payload ! 39), payload ! 35 AND 0x0f)))))))"

text \<open>What a server answers.\<close>

definition encode_aead_response :: "vmess_lib \<Rightarrow> client_session \<Rightarrow> fault + bytes" where
  "encode_aead_response lib sess =
     (let payload = [cs_response_header sess, 0, 0, 0];
          len_key = take 16 (vmess_kdf_1_one_shot lib (cs_response_key sess) AEAD_RESP_HEADER_LEN_KEY);
          len_iv = take 12 (vmess_kdf_1_one_shot lib (cs_response_iv sess) AEAD_RESP_HEADER_LEN_IV)
      in bind_result (gcm_seal lib len_key len_iv [] (to_be16 (word_of_nat (length payload)))) (\<lambda>len_plain.
         let pkey = take 16 (vmess_kdf_1_one_shot lib (cs_response_key sess) AEAD_RESP_HEADER_PAYLOAD_KEY);
             piv = take 12 (vmess_kdf_1_one_shot lib (cs_response_iv sess) AEAD_RESP_HEADER_PAYLOAD_IV)
         in bind_result (gcm_seal lib pkey piv [] payload) (\<lambda>payload. Inr (len_plain @ payload))))"

section \<open>A request is decoded to what it was made from\<close>

lemma gcm_seals:
  assumes "vmess_lib_ok lib" "length key = 16" "length iv = 12" "length p < 65536"
  shows "\<exists>ct tag. gcm_seal lib key iv ad p = Inr (ct @ tag) \<and> length ct = length p \<and> length tag = 16
    \<and> gcm_open lib key iv ad ct tag = Inr p"
proof -
  have "length key = aead_key_len Aes_gcm" using assms(2) by simp
  then obtain ct tag where "lv_seal lib Aes_gcm key iv ad p = Some (ct, tag)" "length ct = length p"
    "length tag = 16" "lv_open lib Aes_gcm key iv ad ct tag = Some p"
    using assms(1,3,4) unfolding vmess_lib_ok_def by blast
  then show ?thesis using assms(2,3) by (intro exI [of _ ct] exI [of _ tag]) (simp add: gcm_seal_def gcm_open_def)
qed

lemma length_draw [simp]: "length (draw f n) = n"
  by (simp add: draw_def)

lemma length_auth_id: "vmess_lib_ok lib \<Longrightarrow> length (create_auth_id lib key ts rnd) = 16"
  by (simp add: create_auth_id_def Let_def vmess_lib_ok_def)

lemma slice_parts: "length a = m \<Longrightarrow> n = m + length b \<Longrightarrow> slice m n (a @ b @ c) = b"
  by (simp add: slice_def)

text \<open>The four parts of a sealed header.\<close>

lemma sealed_header:
  assumes ok: "vmess_lib_ok lib" and small: "length data < 65536"
  shows "\<exists>packet. seal_aead_header lib key ts r1 r2 data = Inr packet
    \<and> length packet = AEAD_HEADER_PREFIX + length data + 16
    \<and> aead_header_payload_len lib key packet = Inr (length data)
    \<and> (let payload = slice AEAD_HEADER_PREFIX (AEAD_HEADER_PREFIX + length data + 16) packet;
           pkey = take 16 (vmess_kdf_3_one_shot lib key HEADER_PAYLOAD_AEAD_KEY (take 16 packet) (slice 34 42 packet));
           piv = take 12 (vmess_kdf_3_one_shot lib key HEADER_PAYLOAD_AEAD_IV (take 16 packet) (slice 34 42 packet))
       in gcm_open lib pkey piv (take 16 packet) (take (length data) payload) (drop (length data) payload) = Inr data)"
proof -
  let ?id = "create_auth_id lib key ts r1" and ?n = "draw r2 8"
  note li = length_auth_id [OF ok, of key ts r1] and k = length_kdf [OF ok]
  let ?lk = "take 16 (vmess_kdf_3_one_shot lib key HEADER_LENGTH_AEAD_KEY ?id ?n)"
    and ?li = "take 12 (vmess_kdf_3_one_shot lib key HEADER_LENGTH_AEAD_IV ?id ?n)"
    and ?pk = "take 16 (vmess_kdf_3_one_shot lib key HEADER_PAYLOAD_AEAD_KEY ?id ?n)"
    and ?pi = "take 12 (vmess_kdf_3_one_shot lib key HEADER_PAYLOAD_AEAD_IV ?id ?n)"
    and ?len = "to_be16 (word_of_nat (length data))"
  have lens: "length ?lk = 16" "length ?li = 12" "length ?pk = 16" "length ?pi = 12" using k by simp_all
  obtain lc lt where l: "gcm_seal lib ?lk ?li ?id ?len = Inr (lc @ lt)" "length lc = 2" "length lt = 16"
    "gcm_open lib ?lk ?li ?id lc lt = Inr ?len"
    using gcm_seals [OF ok lens(1,2), of ?len ?id] by auto
  obtain pc pt where p: "gcm_seal lib ?pk ?pi ?id data = Inr (pc @ pt)" "length pc = length data" "length pt = 16"
    "gcm_open lib ?pk ?pi ?id pc pt = Inr data"
    using gcm_seals [OF ok lens(3,4) small, of ?id] by auto
  define packet where "packet = ?id @ lc @ lt @ ?n @ pc @ pt"
  have s: "seal_aead_header lib key ts r1 r2 data = Inr packet"
    using l(1) p(1) by (simp add: seal_aead_header_def Let_def packet_def)
  have parts: "take 16 packet = ?id" "slice 16 18 packet = lc" "slice 18 34 packet = lt" "slice 34 42 packet = ?n"
    "slice AEAD_HEADER_PREFIX (AEAD_HEADER_PREFIX + length data + 16) packet = pc @ pt"
    "length packet = AEAD_HEADER_PREFIX + length data + 16"
    using li l(2,3) p(2,3) by (simp_all add: packet_def slice_def AEAD_HEADER_PREFIX_def)
  have "unat (from_be16 (?len ! 0) (?len ! 1)) = length data"
    using small by (simp add: to_be16_def unat_of_nat_u16)
  then have "aead_header_payload_len lib key packet = Inr (length data)"
    using parts l(4) by (simp add: aead_header_payload_len_def Let_def)
  then show ?thesis using s parts p(2,4) by (simp add: Let_def)
qed

lemma socks_port_first_eq:
  assumes "host_ok host"
  shows "\<exists>rest. write_socks_port_first host port (replicate (2 + MAX_LENGTH) 0) =
    Inr (2 + length (address_bytes host 1 3 4), to_be16 port @ address_bytes host 1 3 4 @ rest)"
proof -
  have "checked_put 0 (to_be16 port) (replicate (2 + MAX_LENGTH) 0) = Inr (to_be16 port @ replicate MAX_LENGTH 0)"
    using checked_put_start [of "to_be16 port" "replicate (2 + MAX_LENGTH) 0"] by simp
  moreover have "write_address_at 2 host 1 3 4 (to_be16 port @ replicate MAX_LENGTH 0) =
      Inr (length (address_bytes host 1 3 4), (to_be16 port @ address_bytes host 1 3 4)
        @ drop (length (address_bytes host 1 3 4)) (replicate MAX_LENGTH 0))"
    using write_address_at_eq [OF assms, of "replicate MAX_LENGTH 0" 2 "to_be16 port" 1 3 4]
    by (simp add: MAX_LENGTH_def Let_def)
  ultimately show ?thesis by (simp add: write_socks_port_first_def add.commute)
qed

definition header_bytes :: "rstr \<Rightarrow> u16 \<Rightarrow> u8 \<Rightarrow> client_session \<Rightarrow> request_draws \<Rightarrow> bytes" where
  "header_bytes host port security sess d =
     (let padding_len = unat (dr_padding d) mod 16 in
      [1] @ cs_request_iv sess @ cs_request_key sess
      @ [cs_response_header sess, OPT_CHUNK_STREAM OR OPT_CHUNK_MASKING OR OPT_GLOBAL_PADDING,
         push_bit 4 (word_of_nat padding_len) OR security, 0, CMD_TCP]
      @ to_be16 port @ address_bytes host 1 3 4 @ draw (dr_pad d) padding_len)"

lemma request_body_eq: "host_ok host \<Longrightarrow> request_body host port security sess d = Inr (header_bytes host port security sess d)"
  using socks_port_first_eq [of host port] by (auto simp: request_body_def header_bytes_def Let_def)

lemma words_of_octets6: "words_of (octets6 ss) = ss"
  by (induction ss) (simp_all add: octets6_def to_be16_def)

definition host_text :: "rstr \<Rightarrow> rstr" where
  "host_text host = (case parse_ip host of Some ip \<Rightarrow> show_ip ip | None \<Rightarrow> host)"

lemma parse_address_bytes:
  assumes "host_ok host" "valid_utf8 host"
  shows "parse_socks_host (address_bytes host 1 3 4 @ rest) = Inr (host_text host, length (address_bytes host 1 3 4))"
proof (cases "parse_ip host")
  case None
  then have "length host \<le> 255" using assms(1) by (simp add: host_ok_def)
  moreover have "from_utf8_lossy (as_bytes host) = host"
    using valid_utf8_decodes [OF assms(2)] from_utf8_exact by blast
  ultimately show ?thesis using None
    by (simp add: parse_socks_host_def address_bytes_def host_text_def slice_def unat_of_nat_u8 Let_def)
next
  case (Some ip)
  show ?thesis
  proof (cases ip)
    case (V4 a)
    then show ?thesis using Some
      by (cases a) (simp add: parse_socks_host_def address_bytes_def host_text_def show_ip_def octets_def)
  next
    case (V6 ss)
    then have "length ss = 8" using Some parse_ip_V6_length by simp
    then show ?thesis using V6 Some
      by (simp add: parse_socks_host_def address_bytes_def host_text_def show_ip_def slice_def words_of_octets6)
  qed
qed

lemma low_nibble: "(security :: u8) AND 0x0f = security \<Longrightarrow> (push_bit 4 p OR security) AND 0x0f = security"
proof -
  assume a: "security AND 0x0f = security"
  have m: "(0x0f :: u8) = mask 4" by (simp add: mask_eq_exp_minus_1)
  have "push_bit 4 p AND (0x0f :: u8) = 0" unfolding m by (simp add: take_bit_push_bit flip: take_bit_eq_mask)
  then show "(push_bit 4 p OR security) AND 0x0f = security" using a by (simp add: bit.conj_disj_distrib2)
qed

lemma vmess_address_length: "host_ok host \<Longrightarrow> 2 \<le> length (address_bytes host t4 td t6) \<and> length (address_bytes host t4 td t6) \<le> 257"
  using parse_ip_V6_length [of host]
  by (auto simp: address_bytes_def host_ok_def split: option.splits ip_addr.splits)

lemma session_parts:
  assumes "vmess_lib_ok lib"
  shows "length (cs_request_key (session_new lib aead rnd)) = 16" "length (cs_request_iv (session_new lib aead rnd)) = 16"
    "length (cs_response_key (session_new lib aead rnd)) = 16" "length (cs_response_iv (session_new lib aead rnd)) = 16"
  using assms by (simp_all add: session_new_def Let_def vmess_lib_ok_def)

text \<open>
  C22: A VMess request with an authenticated header is decoded, with the same user id, to exactly what
  it was made from: the session with its keys, vectors and response byte, the host (an address literal
  in its canonical form), the port and the cipher, whatever the clock and the random bytes.
\<close>

theorem vmess_request_roundtrip:
  assumes "vmess_lib_ok lib" "uuid_write_be sha1 uuid = Some uid" "host_ok host" "valid_utf8 host"
    and "security AND 0x0f = security" "sess = session_new lib True rnd"
  shows "\<exists>packet. encode_request lib sha1 uuid host port security sess d = Inr packet
    \<and> decode_aead_header lib sha1 uuid packet = Inr (sess, host_text host, port, security)"
proof -
  define body where "body = header_bytes host port security sess d"
  define data where "data = body @ to_be32 (fnv1a32 body)"
  note sp = session_parts [OF assms(1), of True rnd, folded assms(6)]
  have aead: "cs_aead sess" "cs_response_key sess = take 16 (lv_sha256 lib (cs_request_key sess))"
    "cs_response_iv sess = take 16 (lv_sha256 lib (cs_request_iv sess))"
    unfolding assms(6) by (simp_all add: session_new_def Let_def)
  note la = vmess_address_length [OF assms(3), of 1 3 4]
  have "unat (dr_padding d) mod 16 < 16" by simp
  then have len: "length data < 65536" "42 \<le> length data"
    using sp la unfolding data_def body_def header_bytes_def Let_def by (simp_all, linarith)
  obtain packet where p: "seal_aead_header lib (cmd_key lib uid) (dr_seal_time d) (dr_auth d) (dr_nonce d) data = Inr packet"
    "length packet = AEAD_HEADER_PREFIX + length data + 16" "aead_header_payload_len lib (cmd_key lib uid) packet = Inr (length data)"
    "let payload = slice AEAD_HEADER_PREFIX (AEAD_HEADER_PREFIX + length data + 16) packet;
         pkey = take 16 (vmess_kdf_3_one_shot lib (cmd_key lib uid) HEADER_PAYLOAD_AEAD_KEY (take 16 packet) (slice 34 42 packet));
         piv = take 12 (vmess_kdf_3_one_shot lib (cmd_key lib uid) HEADER_PAYLOAD_AEAD_IV (take 16 packet) (slice 34 42 packet))
     in gcm_open lib pkey piv (take 16 packet) (take (length data) payload) (drop (length data) payload) = Inr data"
    using sealed_header [OF assms(1) len(1)] by blast
  have enc: "encode_request lib sha1 uuid host port security sess d = Inr packet"
    using assms(2) aead(1) request_body_eq [OF assms(3)] p(1) by (simp add: encode_request_def Let_def data_def body_def)
  have fields: "data ! 0 = 1" "slice 1 17 data = cs_request_iv sess" "slice 17 33 data = cs_request_key sess"
    "data ! 33 = cs_response_header sess" "data ! 35 AND 0x0f = security" "from_be16 (data ! 38) (data ! 39) = port"
    using sp low_nibble [OF assms(5)]
    by (simp_all add: data_def body_def header_bytes_def Let_def slice_def nth_append to_be16_def)
  have "drop 40 data = address_bytes host 1 3 4 @ (draw (dr_pad d) (unat (dr_padding d) mod 16) @ to_be32 (fnv1a32 body))"
    using sp by (simp add: data_def body_def header_bytes_def Let_def)
  then have host: "parse_socks_host (drop 40 data) = Inr (host_text host, length (address_bytes host 1 3 4))"
    using parse_address_bytes [OF assms(3,4)] by simp
  have sess: "\<lparr>cs_request_key = cs_request_key sess, cs_request_iv = cs_request_iv sess,
      cs_response_key = take 16 (lv_sha256 lib (cs_request_key sess)), cs_response_iv = take 16 (lv_sha256 lib (cs_request_iv sess)),
      cs_response_header = cs_response_header sess, cs_aead = True\<rparr> = sess"
    using aead by (cases sess) simp
  have "decode_aead_header lib sha1 uuid packet = Inr (sess, host_text host, port, security)"
    using p(2-4) fields host sess len(2) assms(2)
    by (simp add: decode_aead_header_def cmd_key_from_uuid_def Let_def)
  then show ?thesis using enc by blast
qed

text \<open>A library of simple functions with the documented laws, for evaluation: its cipher only tags.\<close>

definition plain_tag :: "bytes \<Rightarrow> bytes \<Rightarrow> bytes \<Rightarrow> bytes" where
  "plain_tag k n p = replicate 16 (sum_list k + 3 * sum_list n + sum_list p + 1)"

definition plain_vmess_lib :: vmess_lib where
  "plain_vmess_lib =
     \<lparr>lv_md5 = (\<lambda>bs. replicate 16 (word_of_nat (length bs))), lv_sha256 = (\<lambda>bs. replicate 32 (word_of_nat (length bs))),
      lv_hmac_md5 = (\<lambda>k bs. replicate 16 0), lv_hmac_sha256 = (\<lambda>k bs. replicate 32 (5 * sum_list bs + 7)),
      lv_shake = (\<lambda>seed i. word_of_nat (37 * i)), lv_crc32 = (\<lambda>bs. 0), lv_aes_block = (\<lambda>k b. b),
      lv_cfb_encrypt = (\<lambda>k iv bs. bs), lv_cfb_decrypt = (\<lambda>k iv bs. bs),
      lv_seal = (\<lambda>c k n ad p. Some (p, plain_tag k n p)),
      lv_open = (\<lambda>c k n ad ct tag. if tag = plain_tag k n ct then Some ct else None)\<rparr>"

lemma plain_vmess_lib_ok: "vmess_lib_ok plain_vmess_lib"
  by (simp add: vmess_lib_ok_def plain_vmess_lib_def plain_tag_def)

definition plain_draws :: request_draws where
  "plain_draws =
     \<lparr>dr_time = 7, dr_delta = 0, dr_padding = 5, dr_pad = (\<lambda>i. 9), dr_seal_time = 8, dr_auth = (\<lambda>i. 1), dr_nonce = (\<lambda>i. 2)\<rparr>"

theorem vmess_request_roundtrip_witness:
  "\<exists>packet. encode_request plain_vmess_lib (\<lambda>bs. replicate 20 1) ''user'' ''a.org'' 443 3
      (session_new plain_vmess_lib True word_of_nat) plain_draws = Inr packet
    \<and> decode_aead_header plain_vmess_lib (\<lambda>bs. replicate 20 1) ''user'' packet
        = Inr (session_new plain_vmess_lib True word_of_nat, ''a.org'', 443, 3)"
proof -
  have "uuid_write_be (\<lambda>bs. replicate 20 1) ''user'' \<noteq> None" by code_simp
  then obtain uid where u: "uuid_write_be (\<lambda>bs. replicate 20 1) ''user'' = Some uid" by blast
  have h: "host_ok ''a.org''" and t: "host_text ''a.org'' = ''a.org''" by code_simp+
  have v: "valid_utf8 ''a.org''" by (rule valid_utf8_ascii) (simp add: is_ascii_def code_of_def)
  have s: "(3 :: u8) AND 0x0f = 3" by simp
  show ?thesis
    using vmess_request_roundtrip [OF plain_vmess_lib_ok u h v s refl, of 443 word_of_nat plain_draws] t by simp
qed

end
