(* ===== verification/VmessStream.thy ===== *)
theory VmessStream
  imports VmessWire ExactRead Nodes Rounds
begin

text \<open>
  \<^verbatim>\<open>crates/clash-proxynet/src/vmess/stream.rs\<close>: the VMess stream behind the request header. The reader
  takes the response header, then chunks of a masked length, a sealed text and padding; the writer
  makes such chunks. The results: any chunking of a response is read as exactly its payload, as long
  as the response header is not torn apart, and what the writer accepts is what a reader with the
  request's keys delivers.
\<close>

section \<open>The reading half\<close>

datatype vmess_read = V_header | V_length | V_data nat nat | V_pending nat

record vmess_stream =
  vs_in :: exact_buf
  vs_sess :: client_session
  vs_dec :: body_aead
  vs_nonce :: vmess_nonce
  vs_size :: shake_sizes
  vs_read :: vmess_read

text \<open>\<^verbatim>\<open>VmessAuthStream::new\<close>, the reading half; the cipher of the other half is made first.\<close>

definition vmess_stream_new :: "vmess_lib \<Rightarrow> inner_stream \<Rightarrow> client_session \<Rightarrow> rstr \<Rightarrow> fault + vmess_stream" where
  "vmess_stream_new lib es sess security =
     bind_result (body_new lib security (cs_request_key sess)) (\<lambda>_.
     bind_result (body_new lib security (cs_response_key sess)) (\<lambda>dec.
     Inr \<lparr>vs_in = \<lparr>eb_inner = es, eb_buf = [], eb_pos = 0\<rparr>, vs_sess = sess, vs_dec = dec,
          vs_nonce = vn_new (cs_response_iv sess) 12, vs_size = sk_new (cs_response_iv sess), vs_read = V_header\<rparr>))"

type_synonym vmess_turn = "(bytes poll, vmess_stream) turn"

definition set_buf :: "bytes \<Rightarrow> vmess_stream \<Rightarrow> vmess_stream" where
  "set_buf buf s = s\<lparr>vs_in := (vs_in s)\<lparr>eb_buf := buf\<rparr>\<rparr>"

text \<open>\<^verbatim>\<open>decrypt_in_place\<close> on a buffer that ends with its tag.\<close>

definition open_response :: "vmess_lib \<Rightarrow> bytes \<Rightarrow> bytes \<Rightarrow> bytes \<Rightarrow> fault + bytes" where
  "open_response lib key iv buf =
     (if length buf < 16 then Inl (Fault InvalidResponse)
      else gcm_open lib key iv [] (take (length buf - 16) buf) (drop (length buf - 16) buf))"

definition check_header :: "vmess_stream \<Rightarrow> vmess_turn" where
  "check_header s =
     (case eb_buf (vs_in s) of
        b # _ \<Rightarrow> if b = cs_response_header (vs_sess s) then Again (s\<lparr>vs_read := V_length\<rparr>) else Return (Failed OtherError) s
      | [] \<Rightarrow> Return (Failed OtherError) s)"

definition read_plain_header :: "vmess_lib \<Rightarrow> vmess_stream \<Rightarrow> vmess_turn" where
  "read_plain_header lib s =
     (case read_exactly 4 (vs_in s) of
        (Pending, b) \<Rightarrow> Return Pending (s\<lparr>vs_in := b\<rparr>)
      | (Failed e, b) \<Rightarrow> Return (Failed e) (s\<lparr>vs_in := b\<rparr>)
      | (Ready _, b) \<Rightarrow>
          (let sess = vs_sess s; buf = eb_buf b in
           check_header (s\<lparr>vs_in := b\<lparr>eb_buf :=
             lv_cfb_decrypt lib (cs_response_key sess) (cs_response_iv sess) (take 4 buf) @ drop 4 buf\<rparr>\<rparr>)))"

definition read_aead_payload :: "vmess_lib \<Rightarrow> nat \<Rightarrow> vmess_stream \<Rightarrow> vmess_turn" where
  "read_aead_payload lib len s =
     (let sess = vs_sess s;
          pkey = take 16 (vmess_kdf_1_one_shot lib (cs_response_key sess) AEAD_RESP_HEADER_PAYLOAD_KEY);
          piv = take 12 (vmess_kdf_1_one_shot lib (cs_response_iv sess) AEAD_RESP_HEADER_PAYLOAD_IV)
      in case read_exactly (len + 16) (vs_in s) of
           (Pending, b) \<Rightarrow> Return Pending (s\<lparr>vs_in := b\<rparr>)
         | (Failed e, b) \<Rightarrow> Return (Failed e) (s\<lparr>vs_in := b\<rparr>)
         | (Ready _, b) \<Rightarrow>
             (case open_response lib pkey piv (take (len + 16) (eb_buf b)) of
                Inl e \<Rightarrow> Return (Failed (io_of e)) (s\<lparr>vs_in := b\<rparr>)
              | Inr payload \<Rightarrow> check_header (s\<lparr>vs_in := b\<lparr>eb_buf := payload\<rparr>\<rparr>)))"

definition read_aead_header :: "vmess_lib \<Rightarrow> vmess_stream \<Rightarrow> vmess_turn" where
  "read_aead_header lib s =
     (let sess = vs_sess s;
          key = take 16 (vmess_kdf_1_one_shot lib (cs_response_key sess) AEAD_RESP_HEADER_LEN_KEY);
          iv = take 12 (vmess_kdf_1_one_shot lib (cs_response_iv sess) AEAD_RESP_HEADER_LEN_IV)
      in case read_exactly 18 (vs_in s) of
           (Pending, b) \<Rightarrow> Return Pending (s\<lparr>vs_in := b\<rparr>)
         | (Failed e, b) \<Rightarrow> Return (Failed e) (s\<lparr>vs_in := b\<rparr>)
         | (Ready _, b) \<Rightarrow>
             (case open_response lib key iv (take 18 (eb_buf b)) of
                Inl e \<Rightarrow> Return (Failed (io_of e)) (s\<lparr>vs_in := b\<rparr>)
              | Inr tmp \<Rightarrow>
                  if length tmp < 2 then Return (Failed Panicked) (s\<lparr>vs_in := b\<rparr>)
                  else read_aead_payload lib (unat (from_be16 (tmp ! 0) (tmp ! 1))) (s\<lparr>vs_in := b\<rparr>)))"

definition read_size :: "vmess_lib \<Rightarrow> vmess_stream \<Rightarrow> vmess_turn" where
  "read_size lib s =
     (case read_exactly 2 (vs_in s) of
        (Pending, b) \<Rightarrow> Return Pending (s\<lparr>vs_in := b\<rparr>)
      | (Failed e, b) \<Rightarrow> Return (Failed e) (s\<lparr>vs_in := b\<rparr>)
      | (Ready _, b) \<Rightarrow>
          (case next_padding_len lib (vs_size s) of
             (padding, sizes) \<Rightarrow>
               (case sk_decode lib (eb_buf b ! 0) (eb_buf b ! 1) sizes of
                  (n, sizes) \<Rightarrow>
                    Again (s\<lparr>vs_in := b, vs_size := sizes, vs_read := V_data (unat n) (unat padding)\<rparr>))))"

definition read_chunk :: "vmess_lib \<Rightarrow> nat \<Rightarrow> nat \<Rightarrow> vmess_stream \<Rightarrow> vmess_turn" where
  "read_chunk lib n padding s =
     (case read_exactly n (vs_in s) of
        (Pending, b) \<Rightarrow> Return Pending (s\<lparr>vs_in := b\<rparr>)
      | (Failed e, b) \<Rightarrow> Return (Failed e) (s\<lparr>vs_in := b\<rparr>)
      | (Ready _, b) \<Rightarrow>
          (let buf = take (n - padding) (eb_buf b) in
           case vn_next (vs_nonce s) of
             (nonce, nonce') \<Rightarrow>
               (let s = s\<lparr>vs_in := b\<lparr>eb_buf := buf\<rparr>, vs_nonce := nonce'\<rparr> in
                case body_open lib (vs_dec s) nonce buf of
                  Inl e \<Rightarrow> Return (Failed (io_of e)) s
                | Inr p \<Rightarrow> Again (s\<lparr>vs_in := b\<lparr>eb_buf := p\<rparr>, vs_read := V_pending (length p)\<rparr>))))"

definition hand_out :: "nat \<Rightarrow> nat \<Rightarrow> vmess_stream \<Rightarrow> vmess_turn" where
  "hand_out cap n s =
     (let k = min cap n; buf = eb_buf (vs_in s) in
      if length buf < k then Return (Failed Panicked) s
      else Return (Ready (take k buf))
        (set_buf (drop k buf) s\<lparr>vs_read := (if k < n then V_pending (n - k) else V_length)\<rparr>))"

definition vmess_round :: "vmess_lib \<Rightarrow> nat \<Rightarrow> vmess_stream \<Rightarrow> vmess_turn" where
  "vmess_round lib cap s =
     (case vs_read s of
        V_header \<Rightarrow> if cs_aead (vs_sess s) then read_aead_header lib s else read_plain_header lib s
      | V_length \<Rightarrow> read_size lib s
      | V_data n padding \<Rightarrow> read_chunk lib n padding s
      | V_pending n \<Rightarrow> hand_out cap n s)"

definition vmess_rank :: "vmess_stream \<Rightarrow> nat" where
  "vmess_rank s = (case vs_read s of V_header \<Rightarrow> 3 | V_length \<Rightarrow> 2 | V_data _ _ \<Rightarrow> 1 | V_pending _ \<Rightarrow> 0)"

lemma check_header_state: "check_header s = Again s' \<Longrightarrow> vs_read s' = V_length"
  by (auto simp: check_header_def split: list.splits if_splits)

lemma vmess_round_rank: "vmess_round lib cap s = Again s' \<Longrightarrow> vmess_rank s' < vmess_rank s"
proof (cases "vs_read s")
  case V_header
  assume a: "vmess_round lib cap s = Again s'"
  have "vs_read s' = V_length"
    using a V_header check_header_state
    by (auto simp: vmess_round_def read_aead_header_def read_aead_payload_def read_plain_header_def Let_def
        split: prod.splits poll.splits sum.splits if_splits)
  then show ?thesis using V_header by (simp add: vmess_rank_def)
qed (auto simp: vmess_round_def read_size_def read_chunk_def hand_out_def vmess_rank_def Let_def
      split: prod.splits poll.splits sum.splits if_splits)

function vmess_poll_read :: "vmess_lib \<Rightarrow> nat \<Rightarrow> vmess_stream \<Rightarrow> bytes poll \<times> vmess_stream" where
  "vmess_poll_read lib cap s =
     (case vmess_round lib cap s of Return r s \<Rightarrow> (r, s) | Again s \<Rightarrow> vmess_poll_read lib cap s)"
  by pat_completeness auto

termination vmess_poll_read
  by (relation "measure (\<lambda>(lib, cap, s). vmess_rank s)") (auto dest: vmess_round_rank)

declare vmess_poll_read.simps [simp del]

text \<open>Every end is reported as \<open>UnexpectedEof\<close>, also one between two chunks.\<close>

definition vmess_read_end :: "vmess_lib \<Rightarrow> nat \<Rightarrow> vmess_stream \<Rightarrow> bytes poll \<times> vmess_stream" where
  "vmess_read_end lib cap s = apfst end_at_eof (vmess_poll_read lib cap s)"

section \<open>The writing half\<close>

datatype vmess_write = VW_chunk | VW_flush nat nat nat

record vmess_uplink =
  vu_enc :: body_aead
  vu_nonce :: vmess_nonce
  vu_size :: shake_sizes
  vu_tag_len :: nat
  vu_buf :: bytes
  vu_state :: vmess_write
  vu_sink :: sink

definition vmess_uplink_new :: "vmess_lib \<Rightarrow> sink \<Rightarrow> client_session \<Rightarrow> rstr \<Rightarrow> fault + vmess_uplink" where
  "vmess_uplink_new lib k sess security =
     bind_result (body_new lib security (cs_request_key sess)) (\<lambda>enc.
     bind_result (body_new lib security (cs_response_key sess)) (\<lambda>_.
     Inr \<lparr>vu_enc = enc, vu_nonce = vn_new (cs_request_iv sess) 12, vu_size = sk_new (cs_request_iv sess),
          vu_tag_len = body_tag_len enc, vu_buf = [], vu_state = VW_chunk, vu_sink = k\<rparr>))"

type_synonym vmess_write_turn = "(nat poll, vmess_uplink) turn"

text \<open>\<open>rnd\<close> is the random padding.\<close>

definition stage_chunk :: "vmess_lib \<Rightarrow> (nat \<Rightarrow> u8) \<Rightarrow> bytes \<Rightarrow> vmess_uplink \<Rightarrow> vmess_write_turn" where
  "stage_chunk lib rnd data u =
     (case next_padding_len lib (vu_size u) of
        (padding, sizes) \<Rightarrow>
          (let padding = unat padding; max_payload = 0x4000 - vu_tag_len u - padding;
               consume = min (length data) max_payload; payload_len = consume + vu_tag_len u + padding
           in case sk_encode lib (word_of_nat payload_len) sizes of
                (masked, sizes) \<Rightarrow>
                  (case vn_next (vu_nonce u) of
                     (nonce, nonce') \<Rightarrow>
                       (let u = u\<lparr>vu_size := sizes, vu_nonce := nonce', vu_buf := masked\<rparr> in
                        case body_seal lib (vu_enc u) nonce (take consume data) of
                          Inl e \<Rightarrow> Return (Failed (io_of e)) u
                        | Inr piece \<Rightarrow>
                            (let buf = masked @ piece @ draw rnd padding
                             in Again (u\<lparr>vu_buf := buf, vu_state := VW_flush consume (length buf) 0\<rparr>))))))"

definition flush_chunk :: "nat \<Rightarrow> nat \<Rightarrow> nat \<Rightarrow> vmess_uplink \<Rightarrow> vmess_write_turn" where
  "flush_chunk consumed all done u =
     (case sink_write (vu_buf u) (vu_sink u) of
        (Pending, k) \<Rightarrow> Return Pending (u\<lparr>vu_sink := k\<rparr>)
      | (Failed e, k) \<Rightarrow> Return (Failed e) (u\<lparr>vu_sink := k\<rparr>)
      | (Ready n, k) \<Rightarrow>
          if n = 0 then Return (Failed UnexpectedEof) (u\<lparr>vu_sink := k\<rparr>)
          else
            (let u = u\<lparr>vu_sink := k, vu_buf := drop n (vu_buf u)\<rparr> in
             if all \<le> done + n then Return (Ready consumed) (u\<lparr>vu_state := VW_chunk\<rparr>)
             else Again (u\<lparr>vu_state := VW_flush consumed all (done + n)\<rparr>)))"

definition vmess_write_round :: "vmess_lib \<Rightarrow> (nat \<Rightarrow> u8) \<Rightarrow> bytes \<Rightarrow> vmess_uplink \<Rightarrow> vmess_write_turn" where
  "vmess_write_round lib rnd data u =
     (case vu_state u of VW_chunk \<Rightarrow> stage_chunk lib rnd data u | VW_flush c a d \<Rightarrow> flush_chunk c a d u)"

definition vmess_write_work :: "vmess_uplink \<Rightarrow> nat \<times> nat" where
  "vmess_write_work u = (case vu_state u of VW_chunk \<Rightarrow> (1, 0) | VW_flush c a d \<Rightarrow> (0, a - d))"

definition vmess_write_below :: "(vmess_uplink \<times> vmess_uplink) set" where
  "vmess_write_below = inv_image (less_than <*lex*> less_than) vmess_write_work"

lemma wf_vmess_write_below: "wf vmess_write_below"
  unfolding vmess_write_below_def by (intro wf_inv_image wf_lex_prod wf_less_than)

lemma vmess_write_round_below: "vmess_write_round lib rnd data u = Again u' \<Longrightarrow> (u', u) \<in> vmess_write_below"
  by (auto simp: vmess_write_round_def stage_chunk_def flush_chunk_def vmess_write_below_def vmess_write_work_def Let_def
      split: vmess_write.splits prod.splits poll.splits sum.splits if_splits)

function vmess_poll_write :: "vmess_lib \<Rightarrow> (nat \<Rightarrow> u8) \<Rightarrow> bytes \<Rightarrow> vmess_uplink \<Rightarrow> nat poll \<times> vmess_uplink" where
  "vmess_poll_write lib rnd data u =
     (case vmess_write_round lib rnd data u of Return r u \<Rightarrow> (r, u) | Again u \<Rightarrow> vmess_poll_write lib rnd data u)"
  by pat_completeness auto

termination vmess_poll_write
  by (relation "inv_image vmess_write_below (\<lambda>(lib, rnd, data, u). u)") (auto simp: wf_vmess_write_below dest: vmess_write_round_below)

declare vmess_poll_write.simps [simp del]

section \<open>Dialling\<close>

text \<open>\<^verbatim>\<open>dial_vmess\<close>: the request goes out, then the session and the names of both ciphers are fixed.\<close>

definition dial_vmess ::
  "vmess_lib \<Rightarrow> (bytes \<Rightarrow> bytes) \<Rightarrow> (nat \<Rightarrow> u8) \<Rightarrow> request_draws \<Rightarrow> vmess_options \<Rightarrow> rstr \<Rightarrow> u16 \<Rightarrow> (client_session \<times> body_aead \<times> body_aead) io" where
  "dial_vmess lib sha1 rnd d options dest_host dest_port =
     (let name = body_security options;
          security = (if name = ''aes-128-gcm'' then Some SECURITY_AES128_GCM
            else if name = ''chacha20-poly1305'' then Some SECURITY_CHACHA20 else None);
          sess = session_new lib (vmess_aead options) rnd
      in case security of
           None \<Rightarrow> io_fail (Fault AuthRequired)
         | Some security \<Rightarrow>
             io_bind (io_lift (encode_request lib sha1 (vm_id options) dest_host dest_port security sess d)) (\<lambda>header.
             io_bind (write_all header) (\<lambda>_.
             io_bind (io_lift (body_new lib name (cs_request_key sess))) (\<lambda>enc.
             io_bind (io_lift (body_new lib name (cs_response_key sess))) (\<lambda>dec.
             io_ok (sess, enc, dec))))))"

section \<open>What a peer sends\<close>

text \<open>Padding, mask and nonce of the \<open>i\<close>-th chunk.\<close>

definition pad_len :: "vmess_lib \<Rightarrow> bytes \<Rightarrow> nat \<Rightarrow> nat" where
  "pad_len lib iv i = unat (lv_shake lib iv (2 * i) mod 64)"

definition size_mask :: "vmess_lib \<Rightarrow> bytes \<Rightarrow> nat \<Rightarrow> u16" where
  "size_mask lib iv i = lv_shake lib iv (Suc (2 * i))"

definition vn_at :: "bytes \<Rightarrow> nat \<Rightarrow> vmess_nonce" where
  "vn_at iv i = ((\<lambda>n. snd (vn_next n)) ^^ i) (vn_new iv 12)"

definition nonce_of :: "bytes \<Rightarrow> nat \<Rightarrow> bytes" where
  "nonce_of iv i = fst (vn_next (vn_at iv i))"

lemma vn_at_Suc: "vn_at iv (Suc i) = snd (vn_next (vn_at iv i))"
  by (simp add: vn_at_def)

lemma vn_next_at: "vn_next (vn_at iv i) = (nonce_of iv i, vn_at iv (Suc i))"
  by (simp add: nonce_of_def vn_at_def prod_eq_iff)

lemma vn_at_shape: "12 \<le> length (vn_nonce (vn_at iv i)) \<and> vn_size (vn_at iv i) = 12"
  by (induction i) (simp_all add: vn_at_def vn_new_def vn_next_def Let_def)

lemma length_nonce_of [simp]: "length (nonce_of iv i) = 12"
  using vn_at_shape [of iv i] by (simp add: nonce_of_def vn_next_def Let_def)

text \<open>A chunk is a text and its padding; an empty text ends the stream.\<close>

type_synonym chunk = "bytes \<times> bytes"

definition chunk_text :: "vmess_lib \<Rightarrow> body_aead \<Rightarrow> bytes \<Rightarrow> nat \<Rightarrow> bytes \<Rightarrow> bytes" where
  "chunk_text lib a iv i p = (case body_seal lib a (nonce_of iv i) p of Inl e \<Rightarrow> [] | Inr c \<Rightarrow> c)"

definition chunk_size :: "vmess_lib \<Rightarrow> bytes \<Rightarrow> nat \<Rightarrow> chunk \<Rightarrow> bytes" where
  "chunk_size lib iv i c = to_be16 (size_mask lib iv i XOR word_of_nat (length (fst c) + 16 + length (snd c)))"

fun chunks_wire :: "vmess_lib \<Rightarrow> body_aead \<Rightarrow> bytes \<Rightarrow> nat \<Rightarrow> chunk list \<Rightarrow> bytes" where
  "chunks_wire lib a iv i [] = []"
| "chunks_wire lib a iv i (c # cs) =
     chunk_size lib iv i c @ chunk_text lib a iv i (fst c) @ snd c @ chunks_wire lib a iv (Suc i) cs"

definition chunk_fits :: "vmess_lib \<Rightarrow> bytes \<Rightarrow> nat \<Rightarrow> chunk \<Rightarrow> bool" where
  "chunk_fits lib iv i c \<longleftrightarrow> length (snd c) = pad_len lib iv i \<and> length (fst c) + 16 + length (snd c) < 65536"

fun chunks_ok :: "vmess_lib \<Rightarrow> bytes \<Rightarrow> nat \<Rightarrow> chunk list \<Rightarrow> bool" where
  "chunks_ok lib iv i [] = True"
| "chunks_ok lib iv i (c # cs) \<longleftrightarrow> chunk_fits lib iv i c \<and> (fst c = [] \<longrightarrow> cs = []) \<and> chunks_ok lib iv (Suc i) cs"

definition chunks_payload :: "chunk list \<Rightarrow> bytes" where
  "chunks_payload cs = concat (map fst cs)"

lemma chunks_payload_simps [simp]: "chunks_payload [] = []" "chunks_payload (c # cs) = fst c @ chunks_payload cs"
  by (simp_all add: chunks_payload_def)

definition key_fits :: "body_aead \<Rightarrow> bool" where
  "key_fits a \<longleftrightarrow> length (body_key a) = aead_key_len (body_kind a)"

lemma chunk_text_seals:
  assumes "vmess_lib_ok lib" "key_fits a" "length p < 65536"
  shows "body_seal lib a (nonce_of iv i) p = Inr (chunk_text lib a iv i p)" "length (chunk_text lib a iv i p) = length p + 16"
    "body_open lib a (nonce_of iv i) (chunk_text lib a iv i p) = Inr p"
proof -
  obtain c where "body_seal lib a (nonce_of iv i) p = Inr c" "length c = length p + 16" "body_open lib a (nonce_of iv i) c = Inr p"
    using body_seals [OF assms(1) assms(2) [unfolded key_fits_def] length_nonce_of assms(3)] by blast
  then show "body_seal lib a (nonce_of iv i) p = Inr (chunk_text lib a iv i p)" "length (chunk_text lib a iv i p) = length p + 16"
    "body_open lib a (nonce_of iv i) (chunk_text lib a iv i p) = Inr p" by (simp_all add: chunk_text_def)
qed

section \<open>The response header\<close>

lemma open_sealed_response:
  assumes "gcm_open lib key iv [] ct tag = Inr p" "length tag = 16"
  shows "open_response lib key iv (ct @ tag) = Inr p"
  using assms by (simp add: open_response_def)

lemma response_parts:
  assumes ok: "vmess_lib_ok lib" and e: "encode_aead_response lib sess = Inr hdr"
  obtains l p where "hdr = l @ p" "length l = 18" "length p = 20"
    "open_response lib (take 16 (vmess_kdf_1_one_shot lib (cs_response_key sess) AEAD_RESP_HEADER_LEN_KEY))
       (take 12 (vmess_kdf_1_one_shot lib (cs_response_iv sess) AEAD_RESP_HEADER_LEN_IV)) l = Inr (to_be16 4)"
    "open_response lib (take 16 (vmess_kdf_1_one_shot lib (cs_response_key sess) AEAD_RESP_HEADER_PAYLOAD_KEY))
       (take 12 (vmess_kdf_1_one_shot lib (cs_response_iv sess) AEAD_RESP_HEADER_PAYLOAD_IV)) p
       = Inr [cs_response_header sess, 0, 0, 0]"
proof -
  let ?lk = "take 16 (vmess_kdf_1_one_shot lib (cs_response_key sess) AEAD_RESP_HEADER_LEN_KEY)"
    and ?li = "take 12 (vmess_kdf_1_one_shot lib (cs_response_iv sess) AEAD_RESP_HEADER_LEN_IV)"
    and ?pk = "take 16 (vmess_kdf_1_one_shot lib (cs_response_key sess) AEAD_RESP_HEADER_PAYLOAD_KEY)"
    and ?pi = "take 12 (vmess_kdf_1_one_shot lib (cs_response_iv sess) AEAD_RESP_HEADER_PAYLOAD_IV)"
    and ?h = "[cs_response_header sess, 0, 0, 0]"
  have lens: "length ?lk = 16" "length ?li = 12" "length ?pk = 16" "length ?pi = 12" using length_kdf [OF ok] by simp_all
  have n: "word_of_nat (length ?h) = (4 :: u16)" by simp
  obtain lc lt where l: "gcm_seal lib ?lk ?li [] (to_be16 4) = Inr (lc @ lt)" "length lc = 2" "length lt = 16"
    "gcm_open lib ?lk ?li [] lc lt = Inr (to_be16 4)"
    using gcm_seals [OF ok lens(1,2), of "to_be16 4" "[]"] by auto
  obtain pc pt where p: "gcm_seal lib ?pk ?pi [] ?h = Inr (pc @ pt)" "length pc = 4" "length pt = 16"
    "gcm_open lib ?pk ?pi [] pc pt = Inr ?h"
    using gcm_seals [OF ok lens(3,4), of ?h "[]"] by auto
  have "hdr = (lc @ lt) @ (pc @ pt)"
    using e l(1) p(1) unfolding encode_aead_response_def Let_def n by simp
  then show thesis using that [of "lc @ lt" "pc @ pt"] l p open_sealed_response by simp
qed

section \<open>The reader's contract\<close>

definition vs_keyed :: "vmess_stream \<Rightarrow> body_aead \<Rightarrow> bytes \<Rightarrow> nat \<Rightarrow> nat \<Rightarrow> bool" where
  "vs_keyed s a iv i m \<longleftrightarrow> vs_dec s = a \<and> key_fits a \<and> vs_nonce s = vn_at iv i \<and> vs_size s = \<lparr>sk_seed = iv, sk_pos = m\<rparr>"

definition holds_header :: "vmess_lib \<Rightarrow> vmess_stream \<Rightarrow> bytes \<Rightarrow> bool" where
  "holds_header lib s pl \<longleftrightarrow>
     (\<exists>a iv hdr cs. vs_keyed s a iv 0 0 \<and> cs_aead (vs_sess s) \<and> eb_pos (vs_in s) = 0 \<and> prompt 38 (eb_inner (vs_in s))
        \<and> encode_aead_response lib (vs_sess s) = Inr hdr \<and> chunks_ok lib iv 0 cs
        \<and> arriving (eb_inner (vs_in s)) = hdr @ chunks_wire lib a iv 0 cs \<and> pl = chunks_payload cs)"

definition holds_chunks :: "vmess_lib \<Rightarrow> vmess_stream \<Rightarrow> bytes \<Rightarrow> bool" where
  "holds_chunks lib s pl \<longleftrightarrow>
     (\<exists>a iv i cs. vs_keyed s a iv i (2 * i) \<and> chunks_ok lib iv i cs \<and> at_hand (vs_in s) = chunks_wire lib a iv i cs
        \<and> pl = chunks_payload cs)"

definition holds_text :: "vmess_lib \<Rightarrow> nat \<Rightarrow> nat \<Rightarrow> vmess_stream \<Rightarrow> bytes \<Rightarrow> bool" where
  "holds_text lib n padding s pl \<longleftrightarrow>
     (\<exists>a iv i c cs. vs_keyed s a iv i (2 * Suc i) \<and> chunks_ok lib iv i (c # cs)
        \<and> n = length (fst c) + 16 + length (snd c) \<and> padding = length (snd c)
        \<and> at_hand (vs_in s) = chunk_text lib a iv i (fst c) @ snd c @ chunks_wire lib a iv (Suc i) cs
        \<and> pl = fst c @ chunks_payload cs)"

definition holds_rest :: "vmess_lib \<Rightarrow> nat \<Rightarrow> vmess_stream \<Rightarrow> bytes \<Rightarrow> bool" where
  "holds_rest lib n s pl \<longleftrightarrow>
     (\<exists>a iv i cs. vs_keyed s a iv i (2 * i) \<and> chunks_ok lib iv i cs \<and> n = length (eb_buf (vs_in s))
        \<and> (n = 0 \<longrightarrow> cs = []) \<and> arriving (eb_inner (vs_in s)) = chunks_wire lib a iv i cs
        \<and> pl = eb_buf (vs_in s) @ chunks_payload cs)"

definition vs_holds :: "vmess_lib \<Rightarrow> vmess_stream \<Rightarrow> bytes \<Rightarrow> bool" where
  "vs_holds lib s pl \<longleftrightarrow>
     (case vs_read s of
        V_header \<Rightarrow> holds_header lib s pl
      | V_length \<Rightarrow> holds_chunks lib s pl
      | V_data n padding \<Rightarrow> holds_text lib n padding s pl
      | V_pending n \<Rightarrow> holds_rest lib n s pl)"

definition vs_need :: "vmess_stream \<Rightarrow> nat" where
  "vs_need s = (case vs_read s of V_header \<Rightarrow> 18 | V_length \<Rightarrow> 2 | V_data n _ \<Rightarrow> n | V_pending _ \<Rightarrow> 0)"

abbreviation vs_waits :: "vmess_stream \<Rightarrow> nat" where
  "vs_waits s \<equiv> eb_waits (vs_in s)"

definition vs_owes :: "vmess_lib \<Rightarrow> vmess_stream \<Rightarrow> bytes \<Rightarrow> bool" where
  "vs_owes lib s pl \<longleftrightarrow> vmess_lib_ok lib \<and> eb_ok (vs_need s) (vs_in s) \<and> vs_holds lib s pl"

definition vs_good :: "vmess_lib \<Rightarrow> bytes \<Rightarrow> vmess_stream \<Rightarrow> vmess_turn \<Rightarrow> bool" where
  "vs_good lib pl s x \<longleftrightarrow>
     (case turn_end x of
        Return r s' \<Rightarrow> step_delivers (vs_owes lib) vs_waits pl s r s'
      | Again s' \<Rightarrow> vs_owes lib s' pl \<and> vs_waits s' \<le> vs_waits s)"

text \<open>A step that has not read all it needs leaves what is owed as it was.\<close>

lemma vs_owes_same:
  assumes "vs_owes lib s pl" "reads_exactly (vs_need s) (vs_in s) r b" "at_hand b = at_hand (vs_in s)"
    and "vs_read s = V_length \<or> (\<exists>n p. vs_read s = V_data n p)"
  shows "vs_owes lib (s\<lparr>vs_in := b\<rparr>) pl"
  using assms reads_exactly_ok(1) [OF assms(2)]
  by (auto simp: vs_owes_def vs_need_def vs_holds_def holds_chunks_def holds_text_def vs_keyed_def)

lemma vs_pending_good:
  assumes "vs_owes lib s pl" "reads_exactly (vs_need s) (vs_in s) Pending b"
    and "vs_read s = V_length \<or> (\<exists>n p. vs_read s = V_data n p)"
  shows "vs_good lib pl s (Return Pending (s\<lparr>vs_in := b\<rparr>))"
  using vs_owes_same [OF assms(1,2) _ assms(3)] reads_exactly_cases(2) [OF assms(2)] by (simp add: vs_good_def step_delivers_def)

lemma length_chunk_size [simp]: "length (chunk_size lib iv i c) = 2"
  by (simp add: chunk_size_def)

lemma read_size_good:
  assumes o: "vs_owes lib s pl" and st: "vs_read s = V_length"
  shows "vs_good lib pl s (read_size lib s)"
proof -
  obtain a iv i cs where h: "vs_keyed s a iv i (2 * i)" "chunks_ok lib iv i cs" "at_hand (vs_in s) = chunks_wire lib a iv i cs"
    "pl = chunks_payload cs" and ok: "vmess_lib_ok lib" "eb_ok 2 (vs_in s)"
    using o st by (auto simp: vs_owes_def vs_holds_def holds_chunks_def vs_need_def)
  obtain r b where r: "read_exactly 2 (vs_in s) = (r, b)" by fastforce
  have need: "vs_need s = 2" using st by (simp add: vs_need_def)
  have g: "reads_exactly 2 (vs_in s) r b" by (rule read_exactly_reads [OF ok(2) r])
  show ?thesis
  proof (cases r)
    case (Ready u)
    then have "length (at_hand (vs_in s)) \<noteq> 0" using g reads_exactly_cases(1) [of 2 "vs_in s" u b] by auto
    then obtain c ds where cs: "cs = c # ds" using h(3) by (cases cs) auto
    have fits: "chunk_fits lib iv i c" using h(2) cs by simp
    have at: "at_hand (vs_in s) = chunk_size lib iv i c @ (chunk_text lib a iv i (fst c) @ snd c @ chunks_wire lib a iv (Suc i) ds)"
      using h(3) cs by simp
    note full = reads_exactly_full [OF g [unfolded Ready] at length_chunk_size]
    let ?n = "length (fst c) + 16 + length (snd c)"
    have sizes: "next_padding_len lib (vs_size s) = (lv_shake lib iv (2 * i) mod 64, \<lparr>sk_seed = iv, sk_pos = Suc (2 * i)\<rparr>)"
      using h(1) by (simp add: next_padding_len_def next_u16_def vs_keyed_def)
    define w :: u16 where "w = word_of_nat ?n"
    have w: "unat w = ?n" using fits unfolding w_def chunk_fits_def unat_of_nat_u16 by simp
    have pad: "unat (lv_shake lib iv (2 * i) mod 64) = length (snd c)" using fits by (simp add: chunk_fits_def pad_len_def)
    have "size_mask lib iv i XOR from_be16 (chunk_size lib iv i c ! 0) (chunk_size lib iv i c ! 1) = w"
      unfolding chunk_size_def w_def [symmetric] by (simp add: to_be16_def flip: xor.assoc)
    then have size: "sk_decode lib (eb_buf b ! 0) (eb_buf b ! 1) \<lparr>sk_seed = iv, sk_pos = Suc (2 * i)\<rparr>
        = (w, \<lparr>sk_seed = iv, sk_pos = 2 * Suc i\<rparr>)"
      unfolding full(1) by (simp add: sk_decode_def next_u16_def size_mask_def)
    let ?t = "s\<lparr>vs_in := b, vs_size := \<lparr>sk_seed = iv, sk_pos = 2 * Suc i\<rparr>, vs_read := V_data ?n (length (snd c))\<rparr>"
    have x: "read_size lib s = Again ?t"
      using r Ready sizes size by (simp add: read_size_def w pad)
    have "holds_text lib ?n (length (snd c)) ?t pl"
      unfolding holds_text_def using h(1,2,4) cs full(4)
      by (intro exI [of _ a] exI [of _ iv] exI [of _ i] exI [of _ c] exI [of _ ds]) (simp add: vs_keyed_def)
    moreover have "eb_ok ?n b" using reads_exactly_ok(1) [OF g] full(3) by (simp add: eb_ok_def)
    ultimately have "vs_owes lib ?t pl" using ok(1) by (simp add: vs_owes_def vs_holds_def vs_need_def)
    then show ?thesis unfolding x using reads_exactly_ok(2) [OF g] by (simp add: vs_good_def)
  next
    case Pending
    then show ?thesis using r g st vs_pending_good [OF o, unfolded need] by (simp add: read_size_def)
  next
    case (Failed e)
    have f: "e = UnexpectedEof" "at_hand b = at_hand (vs_in s)" "length (at_hand (vs_in s)) < 2"
      using reads_exactly_cases(3) [OF g [unfolded Failed]] by simp_all
    then have "cs = []" using h(3) by (cases cs) auto
    moreover have "vs_owes lib (s\<lparr>vs_in := b\<rparr>) pl" using vs_owes_same [OF o, unfolded need, OF g f(2)] st by simp
    ultimately show ?thesis using r Failed f(1) h(4) reads_exactly_ok(2) [OF g] by (simp add: read_size_def vs_good_def step_delivers_def)
  qed
qed

lemma read_chunk_good:
  assumes o: "vs_owes lib s pl" and st: "vs_read s = V_data n padding"
  shows "vs_good lib pl s (read_chunk lib n padding s)"
proof -
  have "holds_text lib n padding s pl" using o st by (simp add: vs_owes_def vs_holds_def)
  then obtain a iv i c cs where h: "vs_keyed s a iv i (2 * Suc i)" "chunks_ok lib iv i (c # cs)"
    "n = length (fst c) + 16 + length (snd c)" "padding = length (snd c)"
    "at_hand (vs_in s) = chunk_text lib a iv i (fst c) @ snd c @ chunks_wire lib a iv (Suc i) cs" "pl = fst c @ chunks_payload cs"
    unfolding holds_text_def by blast
  have ok: "vmess_lib_ok lib" "eb_ok n (vs_in s)" using o st by (simp_all add: vs_owes_def vs_need_def)
  obtain r b where r: "read_exactly n (vs_in s) = (r, b)" by fastforce
  have need: "vs_need s = n" using st by (simp add: vs_need_def)
  have g: "reads_exactly n (vs_in s) r b" by (rule read_exactly_reads [OF ok(2) r])
  have small: "length (fst c) < 65536" using h(2) by (simp add: chunk_fits_def)
  note sealed = chunk_text_seals [OF ok(1) _ small, of a iv i]
  have key: "key_fits a" "vs_dec s = a" "vs_nonce s = vn_at iv i" using h(1) by (simp_all add: vs_keyed_def)
  have at: "at_hand (vs_in s) = (chunk_text lib a iv i (fst c) @ snd c) @ chunks_wire lib a iv (Suc i) cs" using h(5) by simp
  have len: "length (chunk_text lib a iv i (fst c) @ snd c) = n" using sealed(2) [OF key(1)] h(3) by simp
  show ?thesis
  proof (cases r)
    case (Ready u)
    note full = reads_exactly_full [OF g [unfolded Ready] at len]
    have buf: "take (n - padding) (eb_buf b) = chunk_text lib a iv i (fst c)"
      unfolding full(1) using h(3,4) sealed(2) [OF key(1)] by simp
    let ?t = "s\<lparr>vs_in := b\<lparr>eb_buf := fst c\<rparr>, vs_nonce := vn_at iv (Suc i), vs_read := V_pending (length (fst c))\<rparr>"
    have x: "read_chunk lib n padding s = Again ?t"
      unfolding read_chunk_def r Ready key(3) using buf vn_next_at [of iv i] sealed(3) [OF key(1)] key(2) by (simp add: Let_def)
    have "holds_rest lib (length (fst c)) ?t pl"
      unfolding holds_rest_def using h(1,2,6) full(2)
      by (intro exI [of _ a] exI [of _ iv] exI [of _ "Suc i"] exI [of _ cs]) (simp add: vs_keyed_def)
    moreover have "eb_ok 0 (b\<lparr>eb_buf := fst c\<rparr>)" using reads_exactly_ok(1) [OF g] full(3) by (simp add: eb_ok_def)
    ultimately have "vs_owes lib ?t pl" using ok(1) by (simp add: vs_owes_def vs_holds_def vs_need_def)
    then show ?thesis unfolding x using reads_exactly_ok(2) [OF g] by (simp add: vs_good_def)
  next
    case Pending
    then show ?thesis using r g st vs_pending_good [OF o, unfolded need] by (simp add: read_chunk_def)
  next
    case (Failed e)
    have "length (at_hand (vs_in s)) < n" using reads_exactly_cases(3) [OF g [unfolded Failed]] by simp
    then show ?thesis unfolding at using len by simp
  qed
qed

lemma hand_out_good:
  assumes o: "vs_owes lib s pl" and st: "vs_read s = V_pending n" and cap: "0 < cap"
  shows "vs_good lib pl s (hand_out cap n s)"
proof -
  obtain a iv i cs where h: "vs_keyed s a iv i (2 * i)" "chunks_ok lib iv i cs" "n = length (eb_buf (vs_in s))" "n = 0 \<longrightarrow> cs = []"
    "arriving (eb_inner (vs_in s)) = chunks_wire lib a iv i cs" "pl = eb_buf (vs_in s) @ chunks_payload cs"
    and ok: "vmess_lib_ok lib" "unbroken (eb_inner (vs_in s))" "eb_pos (vs_in s) = 0"
    using o st by (auto simp: vs_owes_def vs_holds_def holds_rest_def vs_need_def eb_ok_def)
  define m where "m = min cap n"
  define buf where "buf = eb_buf (vs_in s)"
  let ?t = "set_buf (drop m buf) s\<lparr>vs_read := (if m < n then V_pending (n - m) else V_length)\<rparr>"
  have m: "m \<le> n" "m = 0 \<Longrightarrow> n = 0" using cap by (auto simp: m_def min_def split: if_splits)
  have x: "hand_out cap n s = Return (Ready (take m buf)) ?t"
    using h(3) m(1) unfolding hand_out_def m_def [symmetric] buf_def [symmetric] Let_def by simp
  have "vs_holds lib ?t (drop m buf @ chunks_payload cs)"
  proof (cases "m < n")
    case True
    then have "holds_rest lib (n - m) ?t (drop m buf @ chunks_payload cs)"
      unfolding holds_rest_def using h by (intro exI [of _ a] exI [of _ iv] exI [of _ i] exI [of _ cs]) (simp add: vs_keyed_def set_buf_def buf_def)
    then show ?thesis using True by (simp add: vs_holds_def)
  next
    case False
    then have "holds_chunks lib ?t (chunks_payload cs)"
      unfolding holds_chunks_def using h ok(3)
      by (intro exI [of _ a] exI [of _ iv] exI [of _ i] exI [of _ cs]) (simp add: vs_keyed_def set_buf_def at_hand_def)
    then show ?thesis using False h(3) by (simp add: vs_holds_def buf_def)
  qed
  then have "vs_owes lib ?t (drop m buf @ chunks_payload cs)" using ok by (simp add: vs_owes_def set_buf_def eb_ok_def)
  moreover have "pl = take m buf @ (drop m buf @ chunks_payload cs)" using h(6) by (simp add: buf_def)
  moreover have "take m buf = [] \<Longrightarrow> pl = []" using m(2) h(3,4,6) by (auto simp: buf_def)
  ultimately show ?thesis unfolding x by (auto simp: vs_good_def step_delivers_def set_buf_def)
qed

lemma read_aead_header_good:
  assumes o: "vs_owes lib s pl" and st: "vs_read s = V_header"
  shows "vs_good lib pl s (read_aead_header lib s)"
proof -
  obtain a iv hdr cs where h: "vs_keyed s a iv 0 0" "cs_aead (vs_sess s)" "eb_pos (vs_in s) = 0" "prompt 38 (eb_inner (vs_in s))"
    "encode_aead_response lib (vs_sess s) = Inr hdr" "chunks_ok lib iv 0 cs"
    "arriving (eb_inner (vs_in s)) = hdr @ chunks_wire lib a iv 0 cs" "pl = chunks_payload cs"
    and ok: "vmess_lib_ok lib" "eb_ok 18 (vs_in s)"
    using o st by (auto simp: vs_owes_def vs_holds_def holds_header_def vs_need_def)
  let ?lk = "take 16 (vmess_kdf_1_one_shot lib (cs_response_key (vs_sess s)) AEAD_RESP_HEADER_LEN_KEY)"
    and ?li = "take 12 (vmess_kdf_1_one_shot lib (cs_response_iv (vs_sess s)) AEAD_RESP_HEADER_LEN_IV)"
    and ?pk = "take 16 (vmess_kdf_1_one_shot lib (cs_response_key (vs_sess s)) AEAD_RESP_HEADER_PAYLOAD_KEY)"
    and ?pi = "take 12 (vmess_kdf_1_one_shot lib (cs_response_iv (vs_sess s)) AEAD_RESP_HEADER_PAYLOAD_IV)"
  obtain l p where parts: "hdr = l @ p" "length l = 18" "length p = 20" "open_response lib ?lk ?li l = Inr (to_be16 4)"
    "open_response lib ?pk ?pi p = Inr [cs_response_header (vs_sess s), 0, 0, 0]"
    by (rule response_parts [OF ok(1) h(5)])
  have at: "at_hand (vs_in s) = l @ (p @ chunks_wire lib a iv 0 cs)" using h(3,7) parts(1) by (simp add: at_hand_def)
  have "(\<exists>b. read_exactly 18 (vs_in s) = (Ready (), b) \<and> 20 \<le> length (upfront (eb_inner b)))
      \<or> (\<exists>b. read_exactly 18 (vs_in s) = (Pending, b) \<and> eb_pos b = 0 \<and> prompt 38 (eb_inner b))"
    using read_exactly_prompt [OF h(3,4), of 18] by simp
  then consider b where "read_exactly 18 (vs_in s) = (Ready (), b)" "20 \<le> length (upfront (eb_inner b))"
    | b where "read_exactly 18 (vs_in s) = (Pending, b)" "eb_pos b = 0" "prompt 38 (eb_inner b)" by blast
  then show ?thesis
  proof cases
    case 2
    have g: "reads_exactly 18 (vs_in s) Pending b" by (rule read_exactly_reads [OF ok(2) 2(1)])
    have "arriving (eb_inner b) = arriving (eb_inner (vs_in s))"
      using reads_exactly_cases(2) [OF g] 2(2) h(3) by (simp add: at_hand_def)
    then have "holds_header lib (s\<lparr>vs_in := b\<rparr>) pl"
      unfolding holds_header_def using h 2(2,3)
      by (intro exI [of _ a] exI [of _ iv] exI [of _ hdr] exI [of _ cs]) (simp add: vs_keyed_def)
    then have "vs_owes lib (s\<lparr>vs_in := b\<rparr>) pl" using ok(1) reads_exactly_ok(1) [OF g] st by (simp add: vs_owes_def vs_holds_def vs_need_def)
    then show ?thesis using 2(1) reads_exactly_cases(2) [OF g] by (simp add: read_aead_header_def Let_def vs_good_def step_delivers_def)
  next
    case 1
    have g: "reads_exactly 18 (vs_in s) (Ready ()) b" by (rule read_exactly_reads [OF ok(2) 1(1)])
    note full = reads_exactly_full [OF g at parts(2)]
    obtain c where c: "read_exactly 20 b = (Ready (), c)" using read_exactly_upfront [OF full(3) 1(2)] by blast
    have "eb_ok 20 b" using reads_exactly_ok(1) [OF g] full(3) by (simp add: eb_ok_def)
    then have g2: "reads_exactly 20 b (Ready ()) c" by (rule read_exactly_reads [OF _ c])
    note full2 = reads_exactly_full [OF g2 full(4) parts(3)]
    let ?t = "s\<lparr>vs_in := c\<lparr>eb_buf := [cs_response_header (vs_sess s), 0, 0, 0]\<rparr>, vs_read := V_length\<rparr>"
    have four: "unat (from_be16 (to_be16 4 ! 0) (to_be16 4 ! 1)) + 16 = 20" by (simp add: to_be16_def)
    have "take 18 (eb_buf b) = l" "take 20 (eb_buf c) = p" using full(1) full2(1) parts(2,3) by simp_all
    then have x: "read_aead_header lib s = Again ?t"
      using 1(1) c parts(4,5) four
      by (simp add: read_aead_header_def read_aead_payload_def check_header_def Let_def)
    have "holds_chunks lib ?t pl"
      unfolding holds_chunks_def using h(1,6,8) full2(2,3)
      by (intro exI [of _ a] exI [of _ iv] exI [of _ 0] exI [of _ cs]) (simp add: vs_keyed_def at_hand_def)
    moreover have "eb_ok 2 (c\<lparr>eb_buf := [cs_response_header (vs_sess s), 0, 0, 0]\<rparr>)"
      using reads_exactly_ok(1) [OF g2] full2(3) by (simp add: eb_ok_def)
    ultimately have "vs_owes lib ?t pl" using ok(1) by (simp add: vs_owes_def vs_holds_def vs_need_def)
    then show ?thesis unfolding x using reads_exactly_ok(2) [OF g] reads_exactly_ok(2) [OF g2] by (simp add: vs_good_def)
  qed
qed

lemma vmess_round_good:
  assumes "vs_owes lib s pl" "0 < cap"
  shows "vs_good lib pl s (vmess_round lib cap s)"
proof (cases "vs_read s")
  case V_header
  then have "cs_aead (vs_sess s)" using assms(1) by (auto simp: vs_owes_def vs_holds_def holds_header_def)
  then show ?thesis using V_header read_aead_header_good [OF assms(1)] by (simp add: vmess_round_def)
qed (use assms read_size_good read_chunk_good hand_out_good in \<open>simp_all add: vmess_round_def\<close>)

interpretation vmess_reader: reader_rounds "\<lambda>cap s. turn_end (vmess_round lib cap s)" "vmess_read_end lib" "vs_owes lib" vs_waits
  "measure vmess_rank" for lib
proof (unfold_locales, goal_cases)
  case (2 cap s r s')
  then obtain r0 where "vmess_round lib cap s = Return r0 s'" "r = end_at_eof r0" by (cases "vmess_round lib cap s") auto
  then show ?case by (simp add: vmess_read_end_def, subst vmess_poll_read.simps, simp)
next
  case (3 cap s s')
  then have "vmess_round lib cap s = Again s'" by (cases "vmess_round lib cap s") auto
  then show ?case unfolding vmess_read_end_def by (subst vmess_poll_read.simps) simp
next
  case (4 s pl cap r s')
  then show ?case using vmess_round_good [of lib s pl cap] by (simp add: vs_good_def)
next
  case (5 s pl cap s')
  then have "vmess_round lib cap s = Again s'" by (cases "vmess_round lib cap s") auto
  then show ?case using 5 vmess_round_good [of lib s pl cap] vmess_round_rank [of lib cap s s'] by (simp add: vs_good_def)
qed simp

section \<open>The writer's contract\<close>

definition vu_sent :: "vmess_lib \<Rightarrow> body_aead \<Rightarrow> bytes \<Rightarrow> vmess_uplink \<Rightarrow> bytes \<Rightarrow> bytes \<Rightarrow> bool" where
  "vu_sent lib a iv u acc w \<longleftrightarrow> vu_enc u = a \<and> key_fits a \<and> vu_tag_len u = 16 \<and>
     (\<exists>cs. vu_nonce u = vn_at iv (length cs) \<and> vu_size u = \<lparr>sk_seed = iv, sk_pos = 2 * length cs\<rparr>
        \<and> chunks_ok lib iv 0 cs \<and> list_all (\<lambda>c. fst c \<noteq> []) cs \<and> acc = chunks_payload cs \<and> w = chunks_wire lib a iv 0 cs)"

definition vu_idle :: "vmess_lib \<Rightarrow> body_aead \<Rightarrow> bytes \<Rightarrow> vmess_uplink \<Rightarrow> bytes \<Rightarrow> bool" where
  "vu_idle lib a iv u acc \<longleftrightarrow> vu_state u = VW_chunk \<and> vu_sent lib a iv u acc (written (vu_sink u))"

definition vu_mid :: "vmess_lib \<Rightarrow> body_aead \<Rightarrow> bytes \<Rightarrow> vmess_uplink \<Rightarrow> bytes \<Rightarrow> bytes \<Rightarrow> bool" where
  "vu_mid lib a iv u acc data \<longleftrightarrow>
     (\<exists>m e d. vu_state u = VW_flush m e d \<and> 0 < m \<and> m \<le> length data \<and> vu_buf u \<noteq> [] \<and> e = d + length (vu_buf u)
        \<and> vu_sent lib a iv u (acc @ take m data) (written (vu_sink u) @ vu_buf u))"

lemma chunks_ok_snoc:
  "list_all (\<lambda>c. fst c \<noteq> []) cs \<Longrightarrow> chunks_ok lib iv i (cs @ [c]) \<longleftrightarrow> chunks_ok lib iv i cs \<and> chunk_fits lib iv (i + length cs) c"
  by (induction cs arbitrary: i) auto

lemma chunks_wire_snoc:
  "chunks_wire lib a iv i (cs @ [c]) = chunks_wire lib a iv i cs @ chunk_size lib iv (i + length cs) c
     @ chunk_text lib a iv (i + length cs) (fst c) @ snd c"
  by (induction cs arbitrary: i) simp_all

lemma chunks_payload_snoc: "chunks_payload (cs @ [c]) = chunks_payload cs @ fst c"
  by (simp add: chunks_payload_def)

lemma pad_len_small: "pad_len lib iv i < 64"
  by (simp add: pad_len_def unat_mod)

lemma stage_chunk_mid:
  assumes ok: "vmess_lib_ok lib" and i: "vu_idle lib a iv u acc" and d: "data \<noteq> []"
  shows "\<exists>u'. stage_chunk lib rnd data u = Again u' \<and> vu_mid lib a iv u' acc data \<and> vu_sink u' = vu_sink u"
proof -
  obtain cs where s: "vu_enc u = a" "key_fits a" "vu_tag_len u = 16" "vu_nonce u = vn_at iv (length cs)"
    "vu_size u = \<lparr>sk_seed = iv, sk_pos = 2 * length cs\<rparr>" "chunks_ok lib iv 0 cs" "list_all (\<lambda>c. fst c \<noteq> []) cs"
    "acc = chunks_payload cs" "written (vu_sink u) = chunks_wire lib a iv 0 cs"
    using i by (auto simp: vu_idle_def vu_sent_def)
  let ?i = "length cs" and ?p = "pad_len lib iv (length cs)"
  define m where "m = min (length data) (0x4000 - 16 - ?p)"
  define c where "c = (take m data, draw rnd ?p)"
  have m: "0 < m" "m \<le> length data" "m + 16 + ?p \<le> 0x4000"
    using d pad_len_small [of lib iv ?i] by (auto simp: m_def min_def)
  have fits: "chunk_fits lib iv ?i c" "fst c \<noteq> []" "length (fst c) < 65536"
    using m by (auto simp: c_def chunk_fits_def)
  note sealed = chunk_text_seals [OF ok s(2) fits(3), of iv ?i]
  define buf where "buf = chunk_size lib iv ?i c @ chunk_text lib a iv ?i (fst c) @ snd c"
  define u' where "u' = u\<lparr>vu_size := \<lparr>sk_seed = iv, sk_pos = 2 * Suc ?i\<rparr>, vu_nonce := vn_at iv (Suc ?i), vu_buf := buf,
    vu_state := VW_flush m (length buf) 0\<rparr>"
  have pad: "next_padding_len lib (vu_size u) = (lv_shake lib iv (2 * ?i) mod 64, \<lparr>sk_seed = iv, sk_pos = Suc (2 * ?i)\<rparr>)"
    using s(5) by (simp add: next_padding_len_def next_u16_def)
  have size: "sk_encode lib (word_of_nat (m + 16 + ?p)) \<lparr>sk_seed = iv, sk_pos = Suc (2 * ?i)\<rparr>
      = (chunk_size lib iv ?i c, \<lparr>sk_seed = iv, sk_pos = 2 * Suc ?i\<rparr>)"
    using m(2) by (simp add: sk_encode_def next_u16_def chunk_size_def size_mask_def c_def)
  have seal: "body_seal lib (vu_enc u) (nonce_of iv ?i) (take m data) = Inr (chunk_text lib a iv ?i (fst c))"
    using sealed(1) s(1) by (simp add: c_def)
  have x: "stage_chunk lib rnd data u = Again u'"
    unfolding stage_chunk_def pad s(3,4) vn_next_at Let_def prod.case pad_len_def [symmetric] m_def [symmetric] size
    by (simp add: seal u'_def buf_def c_def)
  have "vu_sent lib a iv u' (acc @ take m data) (written (vu_sink u') @ vu_buf u')"
    unfolding vu_sent_def using s fits chunks_ok_snoc [OF s(7), of lib iv 0 c] chunks_wire_snoc [of lib a iv 0 cs c]
    by (intro conjI exI [of _ "cs @ [c]"]) (simp_all add: u'_def buf_def chunks_payload_snoc, simp_all add: c_def)
  moreover have "buf \<noteq> []" using length_chunk_size [of lib iv ?i c] by (auto simp: buf_def simp del: length_chunk_size)
  ultimately have "vu_mid lib a iv u' acc data"
    unfolding vu_mid_def using m by (intro exI [of _ m] exI [of _ "length buf"] exI [of _ 0]) (simp add: u'_def)
  moreover have "vu_sink u' = vu_sink u" by (simp add: u'_def)
  ultimately show ?thesis using x by blast
qed

definition flush_good ::
  "vmess_lib \<Rightarrow> body_aead \<Rightarrow> bytes \<Rightarrow> bytes \<Rightarrow> bytes \<Rightarrow> vmess_uplink \<Rightarrow> vmess_write_turn \<Rightarrow> bool" where
  "flush_good lib a iv acc data u x \<longleftrightarrow>
     (case x of
        Return r u' \<Rightarrow> write_delivers (vu_idle lib a iv) (vu_mid lib a iv) vu_sink acc data u r u'
      | Again u' \<Rightarrow> vu_mid lib a iv u' acc data
          \<and> length (slots (vu_sink u')) \<le> length (slots (vu_sink u)) \<and> (sink_good (vu_sink u) \<longrightarrow> sink_good (vu_sink u')))"

lemma vu_sent_same:
  "vu_sent lib a iv u acc w \<Longrightarrow> vu_enc v = vu_enc u \<Longrightarrow> vu_tag_len v = vu_tag_len u \<Longrightarrow> vu_nonce v = vu_nonce u \<Longrightarrow>
   vu_size v = vu_size u \<Longrightarrow> vu_sent lib a iv v acc w"
  by (simp add: vu_sent_def)

lemma flush_chunk_good:
  assumes "vu_mid lib a iv u acc data" "vu_state u = VW_flush m e d"
  shows "flush_good lib a iv acc data u (flush_chunk m e d u)"
proof -
  have s: "0 < m" "m \<le> length data" "vu_buf u \<noteq> []" "e = d + length (vu_buf u)"
    "vu_sent lib a iv u (acc @ take m data) (written (vu_sink u) @ vu_buf u)"
    using assms by (auto simp: vu_mid_def)
  obtain q k where q: "sink_write (vu_buf u) (vu_sink u) = (q, k)" by fastforce
  note sp = sink_write_spec [OF q] and good = sink_write_good [OF _ q]
  show ?thesis
  proof (cases q)
    case Pending
    have "vu_sent lib a iv (u\<lparr>vu_sink := k\<rparr>) (acc @ take m data) (written k @ vu_buf u)"
      using vu_sent_same [OF s(5), of "u\<lparr>vu_sink := k\<rparr>"] sp(2) [OF Pending] by simp
    then have "vu_mid lib a iv (u\<lparr>vu_sink := k\<rparr>) acc data" using assms(2) s(1-4) by (simp add: vu_mid_def)
    then show ?thesis using q Pending sp(1) sp(2) [OF Pending] good by (simp add: flush_chunk_def flush_good_def write_delivers_def)
  next
    case (Failed x)
    then show ?thesis using q sp(1) good by (auto simp: flush_chunk_def flush_good_def write_delivers_def)
  next
    case (Ready n)
    show ?thesis
    proof (cases "n = 0")
      case True
      then show ?thesis using q Ready sp(1) good s(3) by (auto simp: flush_chunk_def flush_good_def write_delivers_def)
    next
      case False
      have n: "n \<le> length (vu_buf u)" "written k = written (vu_sink u) @ take n (vu_buf u)" using sp(3) [OF Ready] by simp_all
      let ?u = "u\<lparr>vu_sink := k, vu_buf := drop n (vu_buf u)\<rparr>"
      have t: "vu_sent lib a iv (?u\<lparr>vu_state := st\<rparr>) (acc @ take m data) (written k @ drop n (vu_buf u))" for st
        using vu_sent_same [OF s(5), of "?u\<lparr>vu_state := st\<rparr>"] n(2) by simp
      show ?thesis
      proof (cases "e \<le> d + n")
        case True
        then have "drop n (vu_buf u) = []" using s(4) by simp
        then have "vu_idle lib a iv (?u\<lparr>vu_state := VW_chunk\<rparr>) (acc @ take m data)" using t [of VW_chunk] by (simp add: vu_idle_def)
        then show ?thesis using q Ready False True s(1,2) sp(1) good
          by (simp add: flush_chunk_def flush_good_def write_delivers_def Let_def)
      next
        case more: False
        then have "drop n (vu_buf u) \<noteq> []" "e = (d + n) + length (drop n (vu_buf u))" using s(4) n(1) by auto
        then have "vu_mid lib a iv (?u\<lparr>vu_state := VW_flush m e (d + n)\<rparr>) acc data"
          unfolding vu_mid_def using t [of "VW_flush m e (d + n)"] s(1,2)
          by (intro exI [of _ m] exI [of _ e] exI [of _ "d + n"]) simp
        then show ?thesis using q Ready False more sp(1) good by (simp add: flush_chunk_def flush_good_def Let_def)
      qed
    qed
  qed
qed

lemma vmess_write_round_good:
  assumes "vmess_lib_ok lib" "vu_idle lib a iv u acc \<or> vu_mid lib a iv u acc data" "data \<noteq> []"
  shows "flush_good lib a iv acc data u (vmess_write_round lib rnd data u)"
proof (cases "vu_state u")
  case VW_chunk
  then have "vu_idle lib a iv u acc" using assms(2) by (auto simp: vu_mid_def)
  then show ?thesis using stage_chunk_mid [OF assms(1) _ assms(3), of a iv u acc rnd] VW_chunk
    by (auto simp: vmess_write_round_def flush_good_def)
next
  case (VW_flush m e d)
  then have "vu_mid lib a iv u acc data" using assms(2) by (auto simp: vu_idle_def)
  then show ?thesis using flush_chunk_good VW_flush by (simp add: vmess_write_round_def)
qed

definition vmess_fits :: "vmess_lib \<Rightarrow> bytes \<Rightarrow> bool" where
  "vmess_fits lib data \<longleftrightarrow> vmess_lib_ok lib"

interpretation vmess_writer: writer_rounds "vmess_write_round lib" "vmess_poll_write lib"
  "\<lambda>u acc data. vu_idle lib a iv u acc \<or> vu_mid lib a iv u acc data" "vu_idle lib a iv" "vu_mid lib a iv" vu_sink "vmess_fits lib"
  vmess_write_below for lib a iv
proof (unfold_locales, goal_cases)
  case 1
  show ?case by (rule wf_vmess_write_below)
next
  case (2 rnd data u r u')
  then show ?case by (subst vmess_poll_write.simps) simp
next
  case (3 rnd data u u')
  then show ?case by (subst vmess_poll_write.simps) simp
next
  case (4 u acc data rnd r u')
  then show ?case using vmess_write_round_good [of lib a iv u acc data rnd] by (simp add: vmess_fits_def flush_good_def)
next
  case (5 u acc data rnd u')
  then show ?case using vmess_write_round_good [of lib a iv u acc data rnd] vmess_write_round_below [OF 5(4)]
    by (simp add: vmess_fits_def flush_good_def)
qed (simp_all add: vmess_fits_def)

section \<open>A whole response, and both ends\<close>

lemma vn_new_at: "vn_new iv 12 = vn_at iv 0"
  by (simp add: vn_at_def)

lemma vmess_stream_new_parts:
  assumes "vmess_stream_new lib es sess security = Inr s" "body_new lib security (cs_response_key sess) = Inr a"
    "vmess_lib_ok lib" "length (cs_response_key sess) = 16"
  shows "vs_keyed s a (cs_response_iv sess) 0 0" "vs_sess s = sess" "vs_in s = \<lparr>eb_inner = es, eb_buf = [], eb_pos = 0\<rparr>"
    "vs_read s = V_header"
  using assms body_new_ok [OF assms(3,4,2)]
  by (auto simp: vmess_stream_new_def bind_result_Inr_iff vs_keyed_def key_fits_def vn_new_at sk_new_def)

text \<open>
  C23: When the server answers with its response header and then sends chunks (each with the padding
  and the mask the session prescribes, an empty one at most at the end), reading never fails, returns
  a prefix of the payload, reports the end only after all of it, and returns all of it once there are
  more reads than payload bytes and moments of waiting, for any chunking that does not tear the
  38 bytes of the header apart. (An end between two chunks counts as the end here; the stream itself
  reports it as \<open>UnexpectedEof\<close>.)
\<close>

theorem vmess_response_exact:
  assumes "vmess_lib_ok lib" "cs_aead sess" "length (cs_response_key sess) = 16"
    and "vmess_stream_new lib es sess security = Inr s" "body_new lib security (cs_response_key sess) = Inr a"
    and "encode_aead_response lib sess = Inr hdr" "chunks_ok lib (cs_response_iv sess) 0 cs"
    and "unbroken es" "arriving es = hdr @ chunks_wire lib a (cs_response_iv sess) 0 cs" "prompt 38 es"
    and "\<forall>n \<in> set caps. 0 < n" "read_many (vmess_read_end lib) caps s = (rs, s')"
  shows "(\<forall>e. Failed e \<notin> set rs) \<and> (\<exists>pl. chunks_payload cs = delivered rs @ pl)
    \<and> (Ready [] \<in> set rs \<longrightarrow> delivered rs = chunks_payload cs)
    \<and> (length (chunks_payload cs) + waits es < length caps \<longrightarrow> delivered rs = chunks_payload cs)"
proof -
  note s = vmess_stream_new_parts [OF assms(4,5,1,3)]
  have "holds_header lib s (chunks_payload cs)"
    unfolding holds_header_def using s assms(2,6,7,9,10)
    by (intro exI [of _ a] exI [of _ "cs_response_iv sess"] exI [of _ hdr] exI [of _ cs]) simp
  then have o: "vs_owes lib s (chunks_payload cs)" using s assms(1,8) by (simp add: vs_owes_def vs_holds_def eb_ok_def)
  show ?thesis using vmess_reader.read_to_end [OF o assms(11,12)] s(3) by auto
qed

text \<open>The other end of a request: it reads with the keys the client writes with, and gets no response header.\<close>

definition server_view :: "client_session \<Rightarrow> client_session" where
  "server_view sess = sess\<lparr>cs_response_key := cs_request_key sess, cs_response_iv := cs_request_iv sess\<rparr>"

definition past_header :: "vmess_stream \<Rightarrow> vmess_stream" where
  "past_header s = s\<lparr>vs_read := V_length\<rparr>"

text \<open>
  C24: What is written through a VMess stream is exactly what the other end reads with the same keys,
  whatever the padding bytes, however the socket splits what it takes or gives and whatever the sizes
  of the reads; the writer ends and does not fail on a working socket.
\<close>

theorem vmess_roundtrip:
  assumes "vmess_lib_ok lib" "length (cs_request_key sess) = 16"
    and "vmess_uplink_new lib k sess security = Inr u0" "written k = []" "sink_good k" "data \<noteq> []"
    and "length data + length (slots k) < fuel"
  shows "\<exists>u. offer_all (vmess_poll_write lib) fuel pads data u0 = (Some True, u)
    \<and> (\<forall>es caps. unbroken es \<and> arriving es = written (vu_sink u) \<and> (\<forall>n \<in> set caps. 0 < n)
        \<and> length data + waits es < length caps \<longrightarrow>
        (\<exists>s. vmess_stream_new lib es (server_view sess) security = Inr s
          \<and> delivered (fst (read_many (vmess_read_end lib) caps (past_header s))) = data))"
proof -
  let ?iv = "cs_request_iv sess"
  obtain a where a: "body_new lib security (cs_request_key sess) = Inr a"
    and u0: "vu_enc u0 = a" "vu_nonce u0 = vn_at ?iv 0" "vu_size u0 = \<lparr>sk_seed = ?iv, sk_pos = 0\<rparr>" "vu_tag_len u0 = 16"
      "vu_state u0 = VW_chunk" "vu_sink u0 = k"
    using assms(3) by (auto simp: vmess_uplink_new_def bind_result_Inr_iff vn_new_at sk_new_def body_tag_len_def)
  have key: "key_fits a" using body_new_ok [OF assms(1,2) a] by (simp add: key_fits_def)
  have "vu_sent lib a ?iv u0 [] []" unfolding vu_sent_def using u0 key by (intro conjI exI [of _ "[]"]) simp_all
  then have idle: "vu_idle lib a ?iv u0 []" using u0(5,6) assms(4) by (simp add: vu_idle_def)
  obtain u where u: "offer_all (vmess_poll_write lib) fuel pads data u0 = (Some True, u)" "vu_idle lib a ?iv u data"
    using vmess_writer.write_all_succeeds [OF idle _ assms(6), of fuel pads] assms(1,5,7) u0(6) by (auto simp: vmess_fits_def)
  obtain cs where cs: "chunks_ok lib ?iv 0 cs" "data = chunks_payload cs" "written (vu_sink u) = chunks_wire lib a ?iv 0 cs"
    using u(2) by (auto simp: vu_idle_def vu_sent_def)
  have "\<exists>s. vmess_stream_new lib es (server_view sess) security = Inr s
      \<and> delivered (fst (read_many (vmess_read_end lib) caps (past_header s))) = data"
    if e: "unbroken es" "arriving es = written (vu_sink u)" "\<forall>n \<in> set caps. 0 < n" "length data + waits es < length caps" for es caps
  proof -
    let ?sv = "server_view sess"
    have b: "body_new lib security (cs_response_key ?sv) = Inr a" "length (cs_response_key ?sv) = 16" "cs_response_iv ?sv = ?iv"
      using a assms(2) by (simp_all add: server_view_def)
    have "\<exists>s. vmess_stream_new lib es ?sv security = Inr s" using a by (simp add: vmess_stream_new_def server_view_def)
    then obtain s where s: "vmess_stream_new lib es ?sv security = Inr s" by blast
    note p = vmess_stream_new_parts [OF s b(1) assms(1) b(2)]
    have "holds_chunks lib (past_header s) data"
      unfolding holds_chunks_def using p b(3) cs e(2)
      by (intro exI [of _ a] exI [of _ ?iv] exI [of _ 0] exI [of _ cs]) (simp add: vs_keyed_def past_header_def at_hand_def)
    then have o: "vs_owes lib (past_header s) data"
      using p(3) assms(1) e(1) by (simp add: vs_owes_def vs_holds_def past_header_def vs_need_def eb_ok_def)
    obtain rs v where rs: "read_many (vmess_read_end lib) caps (past_header s) = (rs, v)" by fastforce
    have "delivered rs = data" using vmess_reader.read_to_end(4) [OF o e(3) rs] e(4) p(3) by (simp add: past_header_def)
    then show ?thesis using s rs by simp
  qed
  then show ?thesis using u(1) by blast
qed

subsection \<open>Examples\<close>

definition plain_session :: client_session where
  "plain_session = session_new plain_vmess_lib True word_of_nat"

lemma plain_session_keys: "length (cs_request_key plain_session) = 16" "length (cs_response_key plain_session) = 16" "cs_aead plain_session"
  using session_parts [OF plain_vmess_lib_ok, of True word_of_nat] by (simp_all add: plain_session_def session_new_def Let_def)

definition plain_aead :: body_aead where
  "plain_aead = Aes128 (cs_response_key plain_session)"

lemma plain_body: "length k = 16 \<Longrightarrow> body_new plain_vmess_lib ''aes-128-gcm'' k = Inr (Aes128 k)"
proof -
  assume "length k = 16"
  moreover have "lowercase ''aes-128-gcm'' = ''aes-128-gcm''" by code_simp
  ultimately show ?thesis by (simp add: body_new_def Let_def)
qed

definition plain_response :: bytes where
  "plain_response = (case encode_aead_response plain_vmess_lib plain_session of Inl _ \<Rightarrow> [] | Inr hdr \<Rightarrow> hdr)"

lemma plain_response: "encode_aead_response plain_vmess_lib plain_session = Inr plain_response" "length plain_response = 38"
proof -
  have "\<exists>hdr. encode_aead_response plain_vmess_lib plain_session = Inr hdr"
    using length_kdf [OF plain_vmess_lib_ok] by (simp add: encode_aead_response_def gcm_seal_def plain_vmess_lib_def Let_def)
  then show r: "encode_aead_response plain_vmess_lib plain_session = Inr plain_response" by (auto simp: plain_response_def)
  obtain l p where lp: "plain_response = l @ p" "length l = 18" "length p = 20"
    by (rule response_parts [OF plain_vmess_lib_ok r])
  show "length plain_response = 38" unfolding lp(1) using lp(2,3) by simp
qed

definition plain_chunks :: bytes where
  "plain_chunks = chunks_wire plain_vmess_lib plain_aead (cs_response_iv plain_session) 0 [([7, 8, 9], []), ([], replicate 10 0)]"

theorem vmess_response_exact_witness:
  "\<exists>s. vmess_stream_new plain_vmess_lib [Wait, Data (plain_response @ take 5 plain_chunks), Wait, Data (drop 5 plain_chunks)]
      plain_session ''aes-128-gcm'' = Inr s
    \<and> delivered (fst (read_many (vmess_read_end plain_vmess_lib) [1, 1, 5, 5, 5, 5] s)) = [7, 8, 9]"
proof -
  let ?es = "[Wait, Data (plain_response @ take 5 plain_chunks), Wait, Data (drop 5 plain_chunks)]"
    and ?cs = "[([7, 8, 9], []), ([], replicate 10 0)] :: chunk list"
  have b: "body_new plain_vmess_lib ''aes-128-gcm'' (cs_response_key plain_session) = Inr plain_aead"
    using plain_body plain_session_keys(2) by (simp add: plain_aead_def)
  have "\<exists>s. vmess_stream_new plain_vmess_lib ?es plain_session ''aes-128-gcm'' = Inr s"
    using b plain_body [OF plain_session_keys(1)] by (simp add: vmess_stream_new_def)
  then obtain s where s: "vmess_stream_new plain_vmess_lib ?es plain_session ''aes-128-gcm'' = Inr s" by blast
  have c: "chunks_ok plain_vmess_lib (cs_response_iv plain_session) 0 ?cs"
    by (simp add: chunk_fits_def pad_len_def plain_vmess_lib_def)
  have "arriving ?es = plain_response @ plain_chunks" by simp
  then have e: "unbroken ?es" "arriving ?es = plain_response @ chunks_wire plain_vmess_lib plain_aead (cs_response_iv plain_session) 0 ?cs"
    "prompt 38 ?es" "\<forall>n \<in> set [1, 1, 5, 5, 5, 5 :: nat]. 0 < n"
    using plain_response(2) by (simp_all only: plain_chunks_def) (simp_all add: unbroken_def)
  obtain rs s' where rs: "read_many (vmess_read_end plain_vmess_lib) [1, 1, 5, 5, 5, 5] s = (rs, s')" by fastforce
  show ?thesis
    using vmess_response_exact [OF plain_vmess_lib_ok plain_session_keys(3,2) s b plain_response(1) c e rs] s rs by simp
qed

theorem vmess_roundtrip_witness:
  "\<exists>u0 u. vmess_uplink_new plain_vmess_lib \<lparr>slots = [Accept 3, Block, Accept 400], written = []\<rparr> plain_session ''aes-128-gcm'' = Inr u0
    \<and> offer_all (vmess_poll_write plain_vmess_lib) 9 (\<lambda>i j. word_of_nat i) [7, 8, 9] u0 = (Some True, u)
    \<and> (\<exists>s. vmess_stream_new plain_vmess_lib [Data (take 4 (written (vu_sink u))), Wait, Data (drop 4 (written (vu_sink u)))]
          (server_view plain_session) ''aes-128-gcm'' = Inr s
        \<and> delivered (fst (read_many (vmess_read_end plain_vmess_lib) [1, 1, 5, 5, 5] (past_header s))) = [7, 8, 9])"
proof -
  let ?k = "\<lparr>slots = [Accept 3, Block, Accept 400], written = []\<rparr>"
  have "\<exists>u0. vmess_uplink_new plain_vmess_lib ?k plain_session ''aes-128-gcm'' = Inr u0"
    using plain_body [OF plain_session_keys(1)] plain_body [OF plain_session_keys(2)] by (simp add: vmess_uplink_new_def)
  then obtain u0 where u0: "vmess_uplink_new plain_vmess_lib ?k plain_session ''aes-128-gcm'' = Inr u0" by blast
  have g: "sink_good ?k" by (simp add: sink_good_def)
  obtain u where u: "offer_all (vmess_poll_write plain_vmess_lib) 9 (\<lambda>i j. word_of_nat i) [7, 8, 9] u0 = (Some True, u)"
    "\<forall>es caps. unbroken es \<and> arriving es = written (vu_sink u) \<and> (\<forall>n \<in> set caps. 0 < n)
        \<and> length [7 :: u8, 8, 9] + waits es < length caps \<longrightarrow>
        (\<exists>s. vmess_stream_new plain_vmess_lib es (server_view plain_session) ''aes-128-gcm'' = Inr s
          \<and> delivered (fst (read_many (vmess_read_end plain_vmess_lib) caps (past_header s))) = [7, 8, 9])"
    using vmess_roundtrip [OF plain_vmess_lib_ok plain_session_keys(1) u0 _ g, of "[7, 8, 9]" 9 "\<lambda>i j. word_of_nat i"] by auto
  show ?thesis
    by (rule exI [of _ u0], rule exI [of _ u], rule conjI [OF u0], rule conjI [OF u(1)], rule u(2) [rule_format])
      (simp add: unbroken_def)
qed

subsection \<open>A response header in two pieces\<close>

text \<open>
  When the length part of the header has been read and the rest is still missing, the poll forgets the
  length part: it stays in the state of the header, and the next one takes what comes then for a length
  part again.
\<close>

lemma torn_header_restarts:
  assumes "vs_read s = V_header" "cs_aead (vs_sess s)" "eb_ok 18 (vs_in s)" "read_exactly 18 (vs_in s) = (Ready (), b)"
    and "open_response lib (take 16 (vmess_kdf_1_one_shot lib (cs_response_key (vs_sess s)) AEAD_RESP_HEADER_LEN_KEY))
      (take 12 (vmess_kdf_1_one_shot lib (cs_response_iv (vs_sess s)) AEAD_RESP_HEADER_LEN_IV)) (eb_buf b) = Inr (to_be16 4)"
    and "read_exactly 20 b = (Pending, c)"
  shows "vmess_poll_read lib cap s = (Pending, s\<lparr>vs_in := c\<rparr>)" "vs_read (s\<lparr>vs_in := c\<rparr>) = V_header"
    "at_hand c = drop 18 (at_hand (vs_in s))"
proof -
  have g: "reads_exactly 18 (vs_in s) (Ready ()) b" by (rule read_exactly_reads [OF assms(3,4)])
  note g' = reads_exactly_cases(1) [OF g]
  have "eb_ok 20 b" using reads_exactly_ok(1) [OF g] g' by (simp add: eb_ok_def)
  then have "reads_exactly 20 b Pending c" by (rule read_exactly_reads [OF _ assms(6)])
  then have "at_hand c = at_hand b" by (simp add: reads_exactly_def)
  then show "at_hand c = drop 18 (at_hand (vs_in s))" using g' by (simp add: at_hand_def)
  have "unat (from_be16 (to_be16 4 ! 0) (to_be16 4 ! 1)) + 16 = 20" by (simp add: to_be16_def)
  then have "vmess_round lib cap s = Return Pending (s\<lparr>vs_in := c\<rparr>)"
    using assms g' by (simp add: vmess_round_def read_aead_header_def read_aead_payload_def Let_def)
  then show "vmess_poll_read lib cap s = (Pending, s\<lparr>vs_in := c\<rparr>)" by (subst vmess_poll_read.simps) simp
  show "vs_read (s\<lparr>vs_in := c\<rparr>) = V_header" using assms(1) by simp
qed

text \<open>The count of a nonce has sixteen bits: after 65536 chunks the nonces come again.\<close>

lemma vmess_nonce_repeats: "nonce_of iv (i + 65536) = nonce_of iv i"
proof -
  have c: "vn_count (vn_at iv j) = word_of_nat j - 1" for j
    by (induction j) (simp_all add: vn_at_def vn_new_def vn_next_def Let_def)
  have n: "drop 2 (vn_nonce (vn_at iv j)) = drop 2 (vn_nonce (vn_new iv 12))" for j
  proof (induction j)
    case (Suc j)
    have "vn_nonce (vn_at iv (Suc j)) = to_be16 (vn_count (vn_at iv j) + 1) @ drop 2 (vn_nonce (vn_at iv j))"
      using vn_at_shape [of iv j] by (simp add: vn_at_Suc vn_next_def Let_def put_at_def numeral_2_eq_2)
    then show ?case using Suc by simp
  qed (simp add: vn_at_def)
  have a: "nonce_of iv j = take 12 (to_be16 (word_of_nat j) @ drop 2 (vn_nonce (vn_new iv 12)))" for j
    using vn_at_shape [of iv j] c [of j] n [of j] by (simp add: nonce_of_def vn_next_def Let_def put_at_def numeral_2_eq_2)
  have w: "(word_of_nat (i + 65536) :: u16) = word_of_nat i"
    unfolding word_unat_eq_iff unat_of_nat_u16 by simp
  show ?thesis unfolding a w ..
qed

end
