(* ===== verification/TlsRecord.thy ===== *)
theory TlsRecord
  imports Rounds
begin

text \<open>
  The record layer of \<^verbatim>\<open>crates/clash-proxynet/src/reality\<close>: the key schedule (\<^verbatim>\<open>schedule.rs\<close>), the
  protection of records and the record stream (\<^verbatim>\<open>record.rs\<close>), with the poll functions of \<^verbatim>\<open>stream.rs\<close>.
  Hashes, HMAC, HKDF and the ciphers are parameters (\<open>tls_lib\<close>) with their documented laws (\<open>tls_lib_ok\<close>).
  The results: nonces of one key never repeat, and a buffered record is opened to what was sealed.
\<close>

section \<open>Libraries\<close>

datatype hash_kind = Sha256 | Sha384

fun hash_len :: "hash_kind \<Rightarrow> nat" where
  "hash_len Sha256 = 32"
| "hash_len Sha384 = 48"

datatype tls_aead = Aes128_gcm | Aes256_gcm | Chacha20_poly1305

fun tls_key_len :: "tls_aead \<Rightarrow> nat" where
  "tls_key_len Aes128_gcm = 16"
| "tls_key_len Aes256_gcm = 32"
| "tls_key_len Chacha20_poly1305 = 32"

text \<open>A seal takes key, nonce, associated data and text and gives ciphertext and tag in one buffer. The
  last three are HMAC-SHA512 and the key agreement, which the handshake uses.\<close>

record tls_lib =
  lt_digest :: "hash_kind \<Rightarrow> bytes \<Rightarrow> bytes"
  lt_hmac :: "hash_kind \<Rightarrow> bytes \<Rightarrow> bytes \<Rightarrow> bytes"
  lt_expand :: "hash_kind \<Rightarrow> bytes \<Rightarrow> bytes \<Rightarrow> nat \<Rightarrow> bytes"
  lt_seal :: "tls_aead \<Rightarrow> bytes \<Rightarrow> bytes \<Rightarrow> bytes \<Rightarrow> bytes \<Rightarrow> bytes option"
  lt_open :: "tls_aead \<Rightarrow> bytes \<Rightarrow> bytes \<Rightarrow> bytes \<Rightarrow> bytes \<Rightarrow> bytes option"
  lt_hmac512 :: "bytes \<Rightarrow> bytes \<Rightarrow> bytes"
  lt_public :: "bytes \<Rightarrow> bytes"
  lt_agree :: "bytes \<Rightarrow> bytes \<Rightarrow> bytes"

definition tls_lib_ok :: "tls_lib \<Rightarrow> bool" where
  "tls_lib_ok lib \<longleftrightarrow>
     (\<forall>h bs. length (lt_digest lib h bs) = hash_len h)
     \<and> (\<forall>h k bs. length (lt_hmac lib h k bs) = hash_len h)
     \<and> (\<forall>h k info n. length (lt_expand lib h k info n) = n)
     \<and> (\<forall>c k n ad p. length k = tls_key_len c \<longrightarrow> length n = 12 \<longrightarrow> length p < 65536 \<longrightarrow>
          (\<exists>ct. lt_seal lib c k n ad p = Some ct \<and> length ct = length p + 16 \<and> lt_open lib c k n ad ct = Some p))
     \<and> (\<forall>k bs. length (lt_hmac512 lib k bs) = 64)
     \<and> (\<forall>a. length (lt_public lib a) = 32) \<and> (\<forall>a b. length (lt_agree lib a b) = 32)
     \<and> (\<forall>a b. lt_agree lib a (lt_public lib b) = lt_agree lib b (lt_public lib a))"

lemma lib_seals:
  assumes "tls_lib_ok lib" "length k = tls_key_len c" "length n = 12" "length p < 65536"
  shows "\<exists>ct. lt_seal lib c k n ad p = Some ct \<and> length ct = length p + 16 \<and> lt_open lib c k n ad ct = Some p"
  using assms unfolding tls_lib_ok_def by blast

text \<open>A library for the examples: ciphers that only append a tag.\<close>

definition plain_tls_lib :: tls_lib where
  "plain_tls_lib =
     \<lparr>lt_digest = \<lambda>h bs. replicate (hash_len h) 7, lt_hmac = \<lambda>h k bs. replicate (hash_len h) 9, lt_expand = \<lambda>h k info n. replicate n 5,
      lt_seal = \<lambda>c k n ad p. Some (p @ replicate 16 0), lt_open = \<lambda>c k n ad ct. if length ct < 16 then None else Some (take (length ct - 16) ct),
      lt_hmac512 = \<lambda>k bs. replicate 64 1, lt_public = \<lambda>a. replicate 32 3, lt_agree = \<lambda>a b. replicate 32 4\<rparr>"

lemma plain_tls_lib_ok: "tls_lib_ok plain_tls_lib"
  by (simp add: tls_lib_ok_def plain_tls_lib_def)

section \<open>Key schedule\<close>

definition hash_empty :: "tls_lib \<Rightarrow> hash_kind \<Rightarrow> bytes" where
  "hash_empty lib h = lt_digest lib h []"

definition hkdf_extract :: "tls_lib \<Rightarrow> hash_kind \<Rightarrow> bytes \<Rightarrow> bytes \<Rightarrow> bytes" where
  "hkdf_extract lib h salt ikm = (let salt_v = (if salt = [] then replicate (hash_len h) 0 else salt) in lt_hmac lib h salt_v ikm)"

text \<open>\<^verbatim>\<open>from_prk\<close> refuses a key shorter than the hash, \<^verbatim>\<open>expand\<close> more than 255 blocks; both are \<^verbatim>\<open>expect\<close>ed.\<close>

definition hkdf_expand :: "tls_lib \<Rightarrow> hash_kind \<Rightarrow> bytes \<Rightarrow> bytes \<Rightarrow> nat \<Rightarrow> fault + bytes" where
  "hkdf_expand lib h prk info n =
     (if length prk < hash_len h \<or> 255 * hash_len h < n then Inl Panic else Inr (lt_expand lib h prk info n))"

definition expand_info :: "bytes \<Rightarrow> bytes \<Rightarrow> nat \<Rightarrow> bytes" where
  "expand_info label context n =
     (let prefix = as_bytes ''tls13 ''; label_len = length prefix + length label
      in to_be16 (word_of_nat n) @ [word_of_nat label_len] @ prefix @ label @ [word_of_nat (length context)] @ context)"

definition expand_label :: "tls_lib \<Rightarrow> hash_kind \<Rightarrow> bytes \<Rightarrow> bytes \<Rightarrow> bytes \<Rightarrow> nat \<Rightarrow> fault + bytes" where
  "expand_label lib h secret label context n = hkdf_expand lib h secret (expand_info label context n) n"

definition derive_secret :: "tls_lib \<Rightarrow> hash_kind \<Rightarrow> bytes \<Rightarrow> bytes \<Rightarrow> bytes \<Rightarrow> nat \<Rightarrow> fault + bytes" where
  "derive_secret lib h secret label transcript n = expand_label lib h secret label transcript n"

definition traffic_keys :: "tls_lib \<Rightarrow> hash_kind \<Rightarrow> bytes \<Rightarrow> nat \<Rightarrow> nat \<Rightarrow> fault + bytes \<times> bytes" where
  "traffic_keys lib h traffic key_len iv_len =
     bind_result (expand_label lib h traffic (as_bytes ''key'') [] key_len) (\<lambda>key.
     bind_result (expand_label lib h traffic (as_bytes ''iv'') [] iv_len) (\<lambda>iv. Inr (key, iv)))"

text \<open>\<^verbatim>\<open>out.copy_from_slice\<close> panics when the digest has another length.\<close>

definition finished_verify :: "tls_lib \<Rightarrow> hash_kind \<Rightarrow> bytes \<Rightarrow> bytes \<Rightarrow> nat \<Rightarrow> fault + bytes" where
  "finished_verify lib h base_key transcript n =
     bind_result (expand_label lib h base_key (as_bytes ''finished'') [] n) (\<lambda>finished_key.
     if n = hash_len h then Inr (lt_hmac lib h finished_key transcript) else Inl Panic)"

definition from_be64 :: "bytes \<Rightarrow> 64 word" where
  "from_be64 bs = foldl (\<lambda>w b. push_bit 8 w OR ucast b) 0 bs"

definition build_nonce :: "bytes \<Rightarrow> 64 word \<Rightarrow> bytes" where
  "build_nonce iv sq = (let v = from_be64 (slice 4 12 iv) XOR sq in put_at 4 (to_be64 v) iv)"

section \<open>Protection of records\<close>

definition MAX_PLAINTEXT :: nat where "MAX_PLAINTEXT = 16384"
definition MAX_CIPHERTEXT :: nat where "MAX_CIPHERTEXT = MAX_PLAINTEXT + 256"
definition TAG_LEN :: nat where "TAG_LEN = 16"
definition NONCE_LEN :: nat where "NONCE_LEN = 12"
definition HEADER_LEN :: nat where "HEADER_LEN = 5"

lemmas record_sizes = MAX_PLAINTEXT_def MAX_CIPHERTEXT_def TAG_LEN_def NONCE_LEN_def HEADER_LEN_def

datatype content_type = ChangeCipherSpec | Alert | Handshake | ApplicationData

fun content_byte :: "content_type \<Rightarrow> u8" where
  "content_byte ChangeCipherSpec = 20"
| "content_byte Alert = 21"
| "content_byte Handshake = 22"
| "content_byte ApplicationData = 23"

definition content_from_u8 :: "u8 \<Rightarrow> content_type option" where
  "content_from_u8 v =
     (if v = 20 then Some ChangeCipherSpec
      else if v = 21 then Some Alert
      else if v = 22 then Some Handshake
      else if v = 23 then Some ApplicationData
      else None)"

lemma content_from_byte [simp]: "content_from_u8 (content_byte t) = Some t"
  by (cases t) (simp_all add: content_from_u8_def)

lemma content_byte_nonzero [simp]: "content_byte t \<noteq> 0"
  by (cases t) simp_all

record cipher_suite =
  su_hash :: hash_kind
  su_key_len :: nat
  su_chacha :: bool

definition suite_from_id :: "u16 \<Rightarrow> cipher_suite option" where
  "suite_from_id i =
     (if i = 0x1301 then Some \<lparr>su_hash = Sha256, su_key_len = 16, su_chacha = False\<rparr>
      else if i = 0x1302 then Some \<lparr>su_hash = Sha384, su_key_len = 32, su_chacha = False\<rparr>
      else if i = 0x1303 then Some \<lparr>su_hash = Sha256, su_key_len = 32, su_chacha = True\<rparr>
      else None)"

record record_protection =
  rp_iv :: bytes
  rp_aead :: tls_aead
  rp_key :: bytes
  rp_seq :: "64 word"

definition protection_new :: "tls_lib \<Rightarrow> cipher_suite \<Rightarrow> bytes \<Rightarrow> fault + record_protection" where
  "protection_new lib suite traffic =
     bind_result (traffic_keys lib (su_hash suite) traffic (su_key_len suite) NONCE_LEN) (\<lambda>(key, iv).
     let aead = (if su_chacha suite then Chacha20_poly1305 else if su_key_len suite = 16 then Aes128_gcm else Aes256_gcm)
     in if length key = tls_key_len aead then Inr \<lparr>rp_iv = iv, rp_aead = aead, rp_key = key, rp_seq = 0\<rparr> else Inl Panic)"

definition protect :: "tls_lib \<Rightarrow> record_protection \<Rightarrow> bytes \<Rightarrow> bytes \<Rightarrow> fault + bytes \<times> record_protection" where
  "protect lib rp plaintext header =
     (let nonce = build_nonce (rp_iv rp) (rp_seq rp); rp = rp\<lparr>rp_seq := rp_seq rp + 1\<rparr> in
      case lt_seal lib (rp_aead rp) (rp_key rp) nonce header plaintext of
        None \<Rightarrow> Inl Panic
      | Some buf \<Rightarrow> Inr (buf, rp))"

text \<open>The sequence number moves on also when the record is not authentic.\<close>

definition unprotect :: "tls_lib \<Rightarrow> record_protection \<Rightarrow> bytes \<Rightarrow> bytes \<Rightarrow> (fault + bytes) \<times> record_protection" where
  "unprotect lib rp ct header =
     (let nonce = build_nonce (rp_iv rp) (rp_seq rp); rp = rp\<lparr>rp_seq := rp_seq rp + 1\<rparr> in
      case lt_open lib (rp_aead rp) (rp_key rp) nonce header ct of
        None \<Rightarrow> (Inl (Fault AuthFailed), rp)
      | Some buf \<Rightarrow> (Inr buf, rp))"

section \<open>The record stream\<close>

text \<open>\<open>tr_in\<close> and \<open>tr_sink\<close> are the two directions of the transport.\<close>

record tls_records =
  tr_in :: inner_stream
  tr_sink :: sink
  tr_inbound :: bytes
  tr_start :: nat
  tr_end :: nat
  tr_scratch :: bytes
  tr_outbound :: bytes
  tr_off :: nat
  tr_plain :: nat
  tr_write :: "record_protection option"
  tr_read :: "record_protection option"

definition tls_records_new :: "inner_stream \<Rightarrow> sink \<Rightarrow> tls_records" where
  "tls_records_new es k =
     \<lparr>tr_in = es, tr_sink = k, tr_inbound = replicate 65536 0, tr_start = 0, tr_end = 0, tr_scratch = [], tr_outbound = [],
      tr_off = 0, tr_plain = 0, tr_write = None, tr_read = None\<rparr>"

text \<open>The last byte that is not zero is the type of the record, the bytes before it are its content.\<close>

definition inner_type :: "bytes \<Rightarrow> (bytes \<times> u8) option" where
  "inner_type inner =
     (case dropWhile (\<lambda>b. b = 0) (rev inner) of
        [] \<Rightarrow> None
      | t # rp \<Rightarrow> Some (rev rp, t))"

type_synonym tls_record = "content_type \<times> bytes"

definition open_record :: "tls_lib \<Rightarrow> record_protection \<Rightarrow> bytes \<Rightarrow> bytes \<Rightarrow> tls_records \<Rightarrow> (fault + tls_record option) \<times> tls_records" where
  "open_record lib rp header ct s =
     (case unprotect lib rp ct header of
        (Inl e, rp) \<Rightarrow> (Inl e, s\<lparr>tr_read := Some rp\<rparr>)
      | (Inr inner, rp) \<Rightarrow>
          (let s = s\<lparr>tr_read := Some rp\<rparr> in
           case inner_type inner of
             None \<Rightarrow> (Inl (Fault InvalidResponse), s)
           | Some (plain, t) \<Rightarrow>
               (case content_from_u8 t of
                  None \<Rightarrow> (Inl (Fault InvalidResponse), s)
                | Some real \<Rightarrow> (Inr (Some (real, plain)), s\<lparr>tr_scratch := plain\<rparr>))))"

definition try_read_buffered :: "tls_lib \<Rightarrow> tls_records \<Rightarrow> (fault + tls_record option) \<times> tls_records" where
  "try_read_buffered lib s =
     (let available = tr_end s - tr_start s in
      if available < HEADER_LEN then (Inr None, s)
      else
        (let header = slice (tr_start s) (tr_start s + HEADER_LEN) (tr_inbound s);
             len = unat (header ! 3) * 256 + unat (header ! 4) in
         if MAX_CIPHERTEXT < len then (Inl (Fault InvalidResponse), s)
         else if available < HEADER_LEN + len then (Inr None, s)
         else
           (case content_from_u8 (header ! 0) of
              None \<Rightarrow> (Inl (Fault InvalidResponse), s)
            | Some ty \<Rightarrow>
                (let body_start = tr_start s + HEADER_LEN;
                     body = slice body_start (body_start + len) (tr_inbound s);
                     s = s\<lparr>tr_start := tr_start s + (HEADER_LEN + len)\<rparr> in
                 case tr_read s of
                   None \<Rightarrow> (Inr (Some (ty, body)), s)
                 | Some rp \<Rightarrow>
                     if ty = ChangeCipherSpec then (Inr (Some (ty, body)), s)
                     else if len < TAG_LEN then (Inl (Fault InvalidResponse), s)
                     else open_record lib rp header body s))))"

text \<open>\<^verbatim>\<open>copy_within(start..end, 0)\<close>.\<close>

definition compact_inbound :: "tls_records \<Rightarrow> tls_records" where
  "compact_inbound s =
     (if 0 < tr_start s then
        s\<lparr>tr_inbound := put_at 0 (slice (tr_start s) (tr_end s) (tr_inbound s)) (tr_inbound s),
          tr_end := tr_end s - tr_start s, tr_start := 0\<rparr>
      else s)"

definition push_inbound :: "bytes \<Rightarrow> tls_records \<Rightarrow> tls_records" where
  "push_inbound d s =
     (let s = compact_inbound s; need = tr_end s + length d;
          buf = (if length (tr_inbound s) < need then tr_inbound s @ replicate (need - length (tr_inbound s)) 0 else tr_inbound s)
      in s\<lparr>tr_inbound := put_at (tr_end s) d buf, tr_end := tr_end s + length d\<rparr>)"

lemma tr_in_parts [simp]:
  "tr_in (compact_inbound s) = tr_in s" "tr_in (push_inbound d s) = tr_in s"
  "tr_read (compact_inbound s) = tr_read s" "tr_read (push_inbound d s) = tr_read s"
  "tr_sink (compact_inbound s) = tr_sink s" "tr_sink (push_inbound d s) = tr_sink s"
  "tr_write (compact_inbound s) = tr_write s" "tr_write (push_inbound d s) = tr_write s"
  "tr_outbound (compact_inbound s) = tr_outbound s" "tr_outbound (push_inbound d s) = tr_outbound s"
  by (simp_all add: compact_inbound_def push_inbound_def Let_def)

lemma try_read_parts:
  assumes "try_read_buffered lib s = (r, s')"
  shows "tr_in s' = tr_in s" "tr_inbound s' = tr_inbound s" "tr_end s' = tr_end s" "tr_sink s' = tr_sink s"
    "tr_write s' = tr_write s" "tr_outbound s' = tr_outbound s"
  using assms by (auto simp: try_read_buffered_def open_record_def Let_def split: if_splits option.splits prod.splits sum.splits)

lemma await_read_got: "await_read cap es = (Inr bs, es') \<Longrightarrow> bs \<noteq> [] \<Longrightarrow> stream_size es' < stream_size es"
  by (induction cap es rule: await_read.induct) (auto split: if_splits)

text \<open>\<^verbatim>\<open>read_record\<close>: the loop waits for more bytes until a record is complete.\<close>

function read_record_loop :: "tls_lib \<Rightarrow> tls_records \<Rightarrow> (fault + tls_record) \<times> tls_records" where
  "read_record_loop lib s0 =
     (let s = compact_inbound s0 in
      case await_read (length (tr_inbound s) - tr_end s) (tr_in s) of
        (Inl e, es) \<Rightarrow> (Inl (Fault ConnectionFailed), s\<lparr>tr_in := es\<rparr>)
      | (Inr bs, es) \<Rightarrow>
          if bs = [] then (Inl (Fault ConnectionFailed), s\<lparr>tr_in := es\<rparr>)
          else
            (case try_read_buffered lib (s\<lparr>tr_in := es, tr_inbound := put_at (tr_end s) bs (tr_inbound s), tr_end := tr_end s + length bs\<rparr>) of
               (Inl e, s) \<Rightarrow> (Inl e, s)
             | (Inr (Some r), s) \<Rightarrow> (Inr r, s)
             | (Inr None, s) \<Rightarrow> read_record_loop lib s))"
  by pat_completeness auto

termination read_record_loop
  by (relation "measure (\<lambda>(lib, s). stream_size (tr_in s))")
    (auto dest!: try_read_parts(1) [OF sym] await_read_got [OF sym])

declare read_record_loop.simps [simp del]

definition read_record :: "tls_lib \<Rightarrow> tls_records \<Rightarrow> (fault + tls_record) \<times> tls_records" where
  "read_record lib s =
     (case try_read_buffered lib s of
        (Inl e, s) \<Rightarrow> (Inl e, s)
      | (Inr (Some r), s) \<Rightarrow> (Inr r, s)
      | (Inr None, s) \<Rightarrow> read_record_loop lib s)"

definition steal_inbound_leftover :: "tls_records \<Rightarrow> bytes \<times> tls_records" where
  "steal_inbound_leftover s =
     (if tr_end s - tr_start s = 0 then ([], s)
      else (slice (tr_start s) (tr_end s) (tr_inbound s), s\<lparr>tr_start := 0, tr_end := 0\<rparr>))"

section \<open>Writing records\<close>

definition plain_header :: "content_type \<Rightarrow> bytes \<Rightarrow> bytes" where
  "plain_header ty payload =
     [content_byte ty, 3, if payload \<noteq> [] \<and> ty = Handshake then 1 else 3, word_of_nat (length payload div 256), word_of_nat (length payload)]"

definition sealed_header :: "nat \<Rightarrow> bytes" where
  "sealed_header n = [content_byte ApplicationData, 3, 3, word_of_nat (n div 256), word_of_nat n]"

definition stage_record :: "tls_lib \<Rightarrow> content_type \<Rightarrow> bytes \<Rightarrow> tls_records \<Rightarrow> fault + bytes \<times> tls_records" where
  "stage_record lib ty payload s =
     (case tr_write s of
        None \<Rightarrow> Inr (plain_header ty payload @ payload, s)
      | Some rp \<Rightarrow>
          (let len = length payload + 1; header = sealed_header (len + TAG_LEN) in
           bind_result (protect lib rp (payload @ [content_byte ty]) header) (\<lambda>(buf, rp).
           if length buf \<le> len + TAG_LEN then Inr (header @ put_at 0 buf (replicate (len + TAG_LEN) 0), s\<lparr>tr_write := Some rp\<rparr>)
           else Inl Panic)))"

text \<open>\<^verbatim>\<open>write_all(..).await\<close>: the task sleeps while the transport takes nothing.\<close>

fun await_write :: "bytes \<Rightarrow> write_slot list \<Rightarrow> bytes \<Rightarrow> (fault + unit) \<times> write_slot list \<times> bytes" where
  "await_write bs [] w = (Inr (), [], w @ bs)"
| "await_write bs (sl # ss) w =
     (if bs = [] then (Inr (), sl # ss, w)
      else
        (case sl of
           Accept n \<Rightarrow> if n = 0 then (Inl (Fault ConnectionFailed), ss, w) else await_write (drop n bs) ss (w @ take n bs)
         | Block \<Rightarrow> await_write bs ss w
         | Break \<Rightarrow> (Inl (Fault ConnectionFailed), ss, w)))"

definition sink_write_all :: "bytes \<Rightarrow> sink \<Rightarrow> (fault + unit) \<times> sink" where
  "sink_write_all bs k = (case await_write bs (slots k) (written k) of (r, ss, w) \<Rightarrow> (r, k\<lparr>slots := ss, written := w\<rparr>))"

definition write_record :: "tls_lib \<Rightarrow> content_type \<Rightarrow> bytes \<Rightarrow> tls_records \<Rightarrow> (fault + unit) \<times> tls_records" where
  "write_record lib ty payload s =
     (if MAX_PLAINTEXT < length payload then (Inl (Fault InvalidResponse), s)
      else
        (case stage_record lib ty payload s of
           Inl e \<Rightarrow> (Inl e, s)
         | Inr (staged, s) \<Rightarrow> (case sink_write_all staged (tr_sink s) of (r, k) \<Rightarrow> (r, s\<lparr>tr_sink := k\<rparr>))))"

text \<open>\<^verbatim>\<open>poll_write_app\<close>: its loop is \<open>flush_from\<close> with the check of the position in front.\<close>

definition push_outbound :: "tls_records \<Rightarrow> unit poll \<times> tls_records" where
  "push_outbound s =
     (case flush_from WriteZero (tr_outbound s) (tr_off s) (tr_sink s) of
        (r, off, k) \<Rightarrow> (r, s\<lparr>tr_off := off, tr_sink := k\<rparr>))"

definition written_out :: "tls_records \<Rightarrow> nat poll \<times> tls_records" where
  "written_out s = (Ready (tr_plain s), s\<lparr>tr_outbound := [], tr_off := 0, tr_plain := 0\<rparr>)"

definition write_staged :: "tls_records \<Rightarrow> nat poll \<times> tls_records" where
  "write_staged s =
     (case push_outbound s of
        (Pending, s) \<Rightarrow> (Pending, s)
      | (Failed e, s) \<Rightarrow> (Failed e, s)
      | (Ready _, s) \<Rightarrow> written_out s)"

definition poll_write_app :: "tls_lib \<Rightarrow> bytes \<Rightarrow> tls_records \<Rightarrow> nat poll \<times> tls_records" where
  "poll_write_app lib buf s =
     (if length (tr_outbound s) \<le> tr_off s then
        (if tr_outbound s \<noteq> [] then written_out s
         else if buf = [] then (Ready 0, s)
         else
           (let n = min (length buf) MAX_PLAINTEXT in
            case stage_record lib ApplicationData (take n buf) s of
              Inl e \<Rightarrow> (Failed (io_of e), s)
            | Inr (out, s) \<Rightarrow> write_staged (s\<lparr>tr_outbound := out, tr_off := 0, tr_plain := n\<rparr>)))
      else write_staged s)"

definition poll_flush_app :: "tls_records \<Rightarrow> unit poll \<times> tls_records" where
  "poll_flush_app s = push_outbound s"

section \<open>Polling for a record\<close>

definition poll_read_record :: "tls_lib \<Rightarrow> tls_records \<Rightarrow> (fault + tls_record) poll \<times> tls_records" where
  "poll_read_record lib s =
     (case try_read_buffered lib s of
        (Inr (Some r), s) \<Rightarrow> (Ready (Inr r), s)
      | (Inl e, s) \<Rightarrow> (Ready (Inl e), s)
      | (Inr None, s) \<Rightarrow>
          (case inner_read 8192 (tr_in s) of
             (Pending, es) \<Rightarrow> (Pending, s\<lparr>tr_in := es\<rparr>)
           | (Failed e, es) \<Rightarrow> (Ready (Inl (Fault ConnectionFailed)), s\<lparr>tr_in := es\<rparr>)
           | (Ready bs, es) \<Rightarrow>
               if bs = [] then (Ready (Inl (Fault ConnectionFailed)), s\<lparr>tr_in := es\<rparr>)
               else
                 (case try_read_buffered lib (push_inbound bs (s\<lparr>tr_in := es\<rparr>)) of
                    (Inr (Some r), s) \<Rightarrow> (Ready (Inr r), s)
                  | (Inr None, s) \<Rightarrow> (Pending, s)
                  | (Inl e, s) \<Rightarrow> (Ready (Inl e), s))))"

section \<open>The buffer\<close>

text \<open>The bytes that have arrived and are not taken yet.\<close>

definition unread :: "tls_records \<Rightarrow> bytes" where
  "unread s = slice (tr_start s) (tr_end s) (tr_inbound s)"

definition tr_ok :: "tls_records \<Rightarrow> bool" where
  "tr_ok s \<longleftrightarrow> tr_start s \<le> tr_end s \<and> tr_end s \<le> length (tr_inbound s)"

lemma length_unread: "tr_ok s \<Longrightarrow> length (unread s) = tr_end s - tr_start s"
  by (auto simp: unread_def tr_ok_def min_def)

lemma compact_inbound_unread:
  assumes "tr_ok s"
  shows "tr_ok (compact_inbound s)" "unread (compact_inbound s) = unread s" "tr_start (compact_inbound s) = 0"
    "length (tr_inbound (compact_inbound s)) = length (tr_inbound s)"
  using assms by (auto simp: tr_ok_def unread_def compact_inbound_def put_at_def slice_def)

lemma append_inbound_unread:
  assumes "tr_ok s" "tr_end s + length d \<le> length (tr_inbound s)"
  shows "unread (s\<lparr>tr_inbound := put_at (tr_end s) d (tr_inbound s), tr_end := tr_end s + length d\<rparr>) = unread s @ d"
  using assms by (simp add: tr_ok_def unread_def put_at_def slice_def flip: drop_take)

lemma push_inbound_unread:
  assumes "tr_ok s"
  shows "tr_ok (push_inbound d s)" "unread (push_inbound d s) = unread s @ d"
proof -
  define c where "c = compact_inbound s"
  have c: "tr_ok c" "unread c = unread s" using compact_inbound_unread [OF assms] by (simp_all add: c_def)
  define buf where "buf = (if length (tr_inbound c) < tr_end c + length d
    then tr_inbound c @ replicate (tr_end c + length d - length (tr_inbound c)) 0 else tr_inbound c)"
  define e where "e = c\<lparr>tr_inbound := buf\<rparr>"
  have e: "tr_ok e" "unread e = unread c" "tr_end e + length d \<le> length (tr_inbound e)"
    using c(1) by (auto simp: e_def buf_def tr_ok_def unread_def slice_def)
  have p: "push_inbound d s = e\<lparr>tr_inbound := put_at (tr_end e) d (tr_inbound e), tr_end := tr_end e + length d\<rparr>"
    by (simp add: push_inbound_def Let_def e_def buf_def flip: c_def)
  show "unread (push_inbound d s) = unread s @ d" using append_inbound_unread [OF e(1,3)] e(2) c(2) p by simp
  show "tr_ok (push_inbound d s)" using e unfolding p by (simp add: tr_ok_def)
qed

section \<open>Messages on the wire\<close>

text \<open>A record is sealed, with some zeros behind its type, or in clear, with some minor version.\<close>

datatype tls_msg = Sealed content_type bytes nat | Clear content_type u8 bytes

fun msg_record :: "tls_msg \<Rightarrow> tls_record" where
  "msg_record (Sealed ty p z) = (ty, p)"
| "msg_record (Clear ty v p) = (ty, p)"

fun msg_after :: "record_protection option \<Rightarrow> tls_msg \<Rightarrow> record_protection option" where
  "msg_after (Some rp) (Sealed ty p z) = Some (rp\<lparr>rp_seq := rp_seq rp + 1\<rparr>)"
| "msg_after ro m = ro"

definition sealed_plain :: "content_type \<Rightarrow> bytes \<Rightarrow> nat \<Rightarrow> bytes" where
  "sealed_plain ty p z = p @ [content_byte ty] @ replicate z 0"

definition sealed_body :: "tls_lib \<Rightarrow> record_protection \<Rightarrow> content_type \<Rightarrow> bytes \<Rightarrow> nat \<Rightarrow> bytes" where
  "sealed_body lib rp ty p z =
     the (lt_seal lib (rp_aead rp) (rp_key rp) (build_nonce (rp_iv rp) (rp_seq rp))
       (sealed_header (length p + 1 + z + TAG_LEN)) (sealed_plain ty p z))"

fun msg_wire :: "tls_lib \<Rightarrow> record_protection option \<Rightarrow> tls_msg \<Rightarrow> bytes" where
  "msg_wire lib (Some rp) (Sealed ty p z) = sealed_header (length p + 1 + z + TAG_LEN) @ sealed_body lib rp ty p z"
| "msg_wire lib None (Sealed ty p z) = []"
| "msg_wire lib ro (Clear ty v p) = [content_byte ty, 3, v, word_of_nat (length p div 256), word_of_nat (length p)] @ p"

fun msgs_wire :: "tls_lib \<Rightarrow> record_protection option \<Rightarrow> tls_msg list \<Rightarrow> bytes" where
  "msgs_wire lib ro [] = []"
| "msgs_wire lib ro (m # ms) = msg_wire lib ro m @ msgs_wire lib (msg_after ro m) ms"

text \<open>What the reader with the given keys accepts at all.\<close>

fun msg_fits :: "record_protection option \<Rightarrow> tls_msg \<Rightarrow> bool" where
  "msg_fits ro (Sealed ty p z) \<longleftrightarrow> ro \<noteq> None \<and> length p + 1 + z + TAG_LEN \<le> MAX_CIPHERTEXT"
| "msg_fits ro (Clear ty v p) \<longleftrightarrow> (ro = None \<or> ty = ChangeCipherSpec) \<and> length p \<le> MAX_CIPHERTEXT"

definition rp_fits :: "record_protection option \<Rightarrow> bool" where
  "rp_fits ro \<longleftrightarrow> (\<forall>rp. ro = Some rp \<longrightarrow> length (rp_key rp) = tls_key_len (rp_aead rp) \<and> length (rp_iv rp) = 12)"

lemma rp_fits_after [simp]: "rp_fits ro \<Longrightarrow> rp_fits (msg_after ro m)"
  by (cases ro; cases m) (simp_all add: rp_fits_def)

lemma msg_after_some [simp]: "msg_after ro m = None \<longleftrightarrow> ro = None"
  by (cases ro; cases m) simp_all

lemma length_build_nonce [simp]: "length iv = 12 \<Longrightarrow> length (build_nonce iv sq) = 12"
  by (simp add: build_nonce_def Let_def)

lemma inner_type_sealed: "inner_type (sealed_plain ty p z) = Some (p, content_byte ty)"
proof -
  have "dropWhile (\<lambda>b. b = 0) (replicate z 0 @ content_byte ty # rev p) = content_byte ty # rev p"
    by (induction z) simp_all
  then show ?thesis by (simp add: inner_type_def sealed_plain_def)
qed

lemma record_sealed_opens:
  assumes "tls_lib_ok lib" "rp_fits (Some rp)" "length p + 1 + z + TAG_LEN \<le> MAX_CIPHERTEXT"
  shows "lt_seal lib (rp_aead rp) (rp_key rp) (build_nonce (rp_iv rp) (rp_seq rp))
      (sealed_header (length p + 1 + z + TAG_LEN)) (sealed_plain ty p z) = Some (sealed_body lib rp ty p z)"
    "length (sealed_body lib rp ty p z) = length p + 1 + z + TAG_LEN"
    "unprotect lib rp (sealed_body lib rp ty p z) (sealed_header (length p + 1 + z + TAG_LEN))
      = (Inr (sealed_plain ty p z), rp\<lparr>rp_seq := rp_seq rp + 1\<rparr>)"
proof -
  have "length (sealed_plain ty p z) < 65536" using assms(3) by (simp add: sealed_plain_def record_sizes)
  then obtain ct where ct: "lt_seal lib (rp_aead rp) (rp_key rp) (build_nonce (rp_iv rp) (rp_seq rp))
      (sealed_header (length p + 1 + z + TAG_LEN)) (sealed_plain ty p z) = Some ct" "length ct = length (sealed_plain ty p z) + 16"
    "lt_open lib (rp_aead rp) (rp_key rp) (build_nonce (rp_iv rp) (rp_seq rp)) (sealed_header (length p + 1 + z + TAG_LEN)) ct
      = Some (sealed_plain ty p z)"
    using lib_seals [OF assms(1), of "rp_key rp" "rp_aead rp" "build_nonce (rp_iv rp) (rp_seq rp)" "sealed_plain ty p z"] assms(2)
    by (auto simp: rp_fits_def)
  moreover have "sealed_body lib rp ty p z = ct" using ct(1) by (simp add: sealed_body_def)
  ultimately show "lt_seal lib (rp_aead rp) (rp_key rp) (build_nonce (rp_iv rp) (rp_seq rp))
      (sealed_header (length p + 1 + z + TAG_LEN)) (sealed_plain ty p z) = Some (sealed_body lib rp ty p z)"
    "length (sealed_body lib rp ty p z) = length p + 1 + z + TAG_LEN"
    "unprotect lib rp (sealed_body lib rp ty p z) (sealed_header (length p + 1 + z + TAG_LEN))
      = (Inr (sealed_plain ty p z), rp\<lparr>rp_seq := rp_seq rp + 1\<rparr>)"
    by (simp_all add: sealed_plain_def TAG_LEN_def unprotect_def Let_def)
qed

text \<open>Header and body of a message.\<close>

fun msg_head :: "tls_msg \<Rightarrow> bytes" where
  "msg_head (Sealed ty p z) = sealed_header (length p + 1 + z + TAG_LEN)"
| "msg_head (Clear ty v p) = [content_byte ty, 3, v, word_of_nat (length p div 256), word_of_nat (length p)]"

fun msg_body :: "tls_lib \<Rightarrow> record_protection option \<Rightarrow> tls_msg \<Rightarrow> bytes" where
  "msg_body lib ro (Sealed ty p z) = sealed_body lib (the ro) ty p z"
| "msg_body lib ro (Clear ty v p) = p"

lemma two_length_bytes:
  "n < 65536 \<Longrightarrow> unat (word_of_nat (n div 256) :: u8) * 256 + unat (word_of_nat n :: u8) = n"
proof -
  assume "n < 65536"
  then have "n div 256 < 256" by simp
  then show ?thesis unfolding unat_of_nat_u8 by simp
qed

lemma msg_wire_parts:
  assumes "tls_lib_ok lib" "rp_fits ro" "msg_fits ro m"
  shows "msg_wire lib ro m = msg_head m @ msg_body lib ro m" "length (msg_head m) = 5"
    "length (msg_body lib ro m) \<le> MAX_CIPHERTEXT"
    "unat (msg_head m ! 3) * 256 + unat (msg_head m ! 4) = length (msg_body lib ro m)"
proof -
  have "msg_wire lib ro m = msg_head m @ msg_body lib ro m \<and> length (msg_head m) = 5 \<and> length (msg_body lib ro m) \<le> MAX_CIPHERTEXT
    \<and> unat (msg_head m ! 3) * 256 + unat (msg_head m ! 4) = length (msg_body lib ro m)"
  proof (cases m)
    case (Sealed ty p z)
    then obtain rp where rp: "ro = Some rp" using assms(3) by auto
    have n: "length p + 1 + z + TAG_LEN \<le> MAX_CIPHERTEXT" using assms(3) Sealed by simp
    then have small: "length p + 1 + z + TAG_LEN < 65536" by (simp add: record_sizes)
    show ?thesis using Sealed rp record_sealed_opens(2) [OF assms(1) assms(2) [unfolded rp] n, of ty] n two_length_bytes [OF small]
      by (simp add: sealed_header_def)
  next
    case (Clear ty v p)
    then have "length p < 65536" using assms(3) by (simp add: record_sizes)
    then show ?thesis using Clear assms(3) two_length_bytes [of "length p"] by (simp add: record_sizes)
  qed
  then show "msg_wire lib ro m = msg_head m @ msg_body lib ro m" "length (msg_head m) = 5"
    "length (msg_body lib ro m) \<le> MAX_CIPHERTEXT" "unat (msg_head m ! 3) * 256 + unat (msg_head m ! 4) = length (msg_body lib ro m)"
    by blast+
qed

section \<open>Taking a message from the buffer\<close>

lemma slice_unread:
  assumes "tr_ok s" "a \<le> b" "b \<le> length (unread s)"
  shows "slice (tr_start s + a) (tr_start s + b) (tr_inbound s) = take (b - a) (drop a (unread s))"
proof -
  have "min (b - a) (tr_end s - (a + tr_start s)) = b - a" using assms length_unread [OF assms(1)] by simp
  then show ?thesis by (simp add: unread_def slice_def drop_take add.commute)
qed

lemma rest_of_unread:
  assumes "tr_ok s" "n \<le> length (unread s)"
  shows "unread (s\<lparr>tr_start := tr_start s + n\<rparr>) = drop n (unread s)" "tr_ok (s\<lparr>tr_start := tr_start s + n\<rparr>)"
  using assms length_unread [OF assms(1)] by (auto simp: unread_def slice_def tr_ok_def drop_take add.commute)

lemma unread_read [simp]: "unread (s\<lparr>tr_read := r\<rparr>) = unread s" "unread (s\<lparr>tr_scratch := b\<rparr>) = unread s"
  "tr_ok (s\<lparr>tr_read := r\<rparr>) = tr_ok s" "tr_ok (s\<lparr>tr_scratch := b\<rparr>) = tr_ok s"
  "unread (s\<lparr>tr_in := es\<rparr>) = unread s" "tr_ok (s\<lparr>tr_in := es\<rparr>) = tr_ok s"
  by (simp_all add: unread_def tr_ok_def)

lemma try_read_short: "tr_ok s \<Longrightarrow> length (unread s) < 5 \<Longrightarrow> try_read_buffered lib s = (Inr None, s)"
  by (simp add: try_read_buffered_def length_unread HEADER_LEN_def)

lemma try_read_head:
  assumes "tr_ok s" "take 5 (unread s) = h" "length h = 5" "unat (h ! 3) * 256 + unat (h ! 4) = n" "n \<le> MAX_CIPHERTEXT"
  shows "length (unread s) < 5 + n \<Longrightarrow> try_read_buffered lib s = (Inr None, s)"
    "5 + n \<le> length (unread s) \<Longrightarrow> content_from_u8 (h ! 0) = Some ty \<Longrightarrow>
     try_read_buffered lib s =
       (let t = s\<lparr>tr_start := tr_start s + (5 + n)\<rparr>; body = take n (drop 5 (unread s)) in
        case tr_read s of
          None \<Rightarrow> (Inr (Some (ty, body)), t)
        | Some rp \<Rightarrow>
            if ty = ChangeCipherSpec then (Inr (Some (ty, body)), t)
            else if n < TAG_LEN then (Inl (Fault InvalidResponse), t)
            else open_record lib rp h body t)"
proof -
  have five: "5 \<le> length (unread s)" using assms(2,3) by auto
  have hd: "slice (tr_start s) (tr_start s + HEADER_LEN) (tr_inbound s) = h"
    using slice_unread [OF assms(1), of 0 5] five assms(2) by (simp add: HEADER_LEN_def)
  have l: "length (unread s) = tr_end s - tr_start s" by (rule length_unread [OF assms(1)])
  show "length (unread s) < 5 + n \<Longrightarrow> try_read_buffered lib s = (Inr None, s)"
    using five assms(5) unfolding try_read_buffered_def Let_def hd assms(4) by (simp add: HEADER_LEN_def l)
  assume n: "5 + n \<le> length (unread s)" and ty: "content_from_u8 (h ! 0) = Some ty"
  have body: "slice (tr_start s + HEADER_LEN) (tr_start s + HEADER_LEN + n) (tr_inbound s) = take n (drop 5 (unread s))"
    using slice_unread [OF assms(1), of 5 "5 + n"] n by (simp add: HEADER_LEN_def add.assoc)
  show "try_read_buffered lib s =
       (let t = s\<lparr>tr_start := tr_start s + (5 + n)\<rparr>; body = take n (drop 5 (unread s)) in
        case tr_read s of
          None \<Rightarrow> (Inr (Some (ty, body)), t)
        | Some rp \<Rightarrow>
            if ty = ChangeCipherSpec then (Inr (Some (ty, body)), t)
            else if n < TAG_LEN then (Inl (Fault InvalidResponse), t)
            else open_record lib rp h body t)"
    using n five assms(5) ty unfolding try_read_buffered_def Let_def hd assms(4) body
    by (simp add: HEADER_LEN_def l del: add_Suc add_Suc_right split: option.split)
qed

text \<open>A message that is not there completely is left alone, one that is there is taken.\<close>

definition took :: "tls_msg \<Rightarrow> record_protection option \<Rightarrow> tls_records \<Rightarrow> tls_records \<Rightarrow> bool" where
  "took m ro s s' \<longleftrightarrow> tr_ok s' \<and> tr_read s' = msg_after ro m \<and> tr_in s' = tr_in s \<and> tr_inbound s' = tr_inbound s
     \<and> tr_sink s' = tr_sink s \<and> tr_write s' = tr_write s \<and> tr_outbound s' = tr_outbound s"

lemma open_record_sealed:
  assumes "tls_lib_ok lib" "rp_fits (Some rp)" "length p + 1 + z + TAG_LEN \<le> MAX_CIPHERTEXT"
  shows "open_record lib rp (sealed_header (length p + 1 + z + TAG_LEN)) (sealed_body lib rp ty p z) s
    = (Inr (Some (ty, p)), s\<lparr>tr_read := Some (rp\<lparr>rp_seq := rp_seq rp + 1\<rparr>), tr_scratch := p\<rparr>)"
  using record_sealed_opens(3) [OF assms, of ty] by (simp add: open_record_def inner_type_sealed Let_def)

lemma try_read_msg:
  assumes ok: "tls_lib_ok lib" "rp_fits ro" "msg_fits ro m" and s: "tr_ok s" "tr_read s = ro"
    and u: "unread s @ x = msg_wire lib ro m @ y"
  shows "length (unread s) < length (msg_wire lib ro m) \<Longrightarrow> try_read_buffered lib s = (Inr None, s)"
    "length (msg_wire lib ro m) \<le> length (unread s) \<Longrightarrow>
     \<exists>s'. try_read_buffered lib s = (Inr (Some (msg_record m)), s') \<and> unread s' @ x = y \<and> took m ro s s'"
proof -
  note w = msg_wire_parts [OF ok]
  let ?n = "length (msg_body lib ro m)"
  have len: "length (msg_wire lib ro m) = 5 + ?n" using w(1,2) by simp
  have head: "take 5 (unread s) = msg_head m" if "5 \<le> length (unread s)"
  proof -
    have "take 5 (unread s) = take 5 (unread s @ x)" using that by simp
    then show ?thesis unfolding u w(1) using w(2) by simp
  qed
  show "length (unread s) < length (msg_wire lib ro m) \<Longrightarrow> try_read_buffered lib s = (Inr None, s)"
  proof (cases "5 \<le> length (unread s)")
    case True
    assume "length (unread s) < length (msg_wire lib ro m)"
    then show ?thesis using try_read_head(1) [OF s(1) head [OF True] w(2,4,3)] len by simp
  qed (use try_read_short s(1) in simp)
  assume "length (msg_wire lib ro m) \<le> length (unread s)"
  then have le: "5 + ?n \<le> length (unread s)" by (simp add: len)
  then have h: "take 5 (unread s) = msg_head m" using head by simp
  have split: "unread s = msg_wire lib ro m @ drop (5 + ?n) (unread s)" "drop (5 + ?n) (unread s) @ x = y"
    using arg_cong [OF u, of "take (5 + ?n)"] arg_cong [OF u, of "drop (5 + ?n)"] le len append_take_drop_id [of "5 + ?n" "unread s"]
    by (simp_all add: w(1,2))
  have body: "take ?n (drop 5 (unread s)) = msg_body lib ro m"
    using arg_cong [OF split(1), of "\<lambda>b. take ?n (drop 5 b)"] w(1,2) by simp
  define t where "t = s\<lparr>tr_start := tr_start s + (5 + ?n)\<rparr>"
  have t: "tr_ok t" "unread t @ x = y" "tr_read t = ro" "tr_in t = tr_in s" "tr_inbound t = tr_inbound s" "tr_sink t = tr_sink s"
    "tr_write t = tr_write s" "tr_outbound t = tr_outbound s"
    using rest_of_unread [OF s(1) le] split(2) s(2) by (simp_all add: t_def)
  note step = try_read_head(2) [OF s(1) h w(2,4,3) le, of _ lib, unfolded Let_def body s(2), folded t_def]
  show "\<exists>s'. try_read_buffered lib s = (Inr (Some (msg_record m)), s') \<and> unread s' @ x = y \<and> took m ro s s'"
  proof (cases m)
    case (Sealed ty p z)
    then obtain rp where rp: "ro = Some rp" and n: "length p + 1 + z + TAG_LEN \<le> MAX_CIPHERTEXT" using ok(3) by auto
    have "content_from_u8 (msg_head m ! 0) = Some ApplicationData" using Sealed by (simp add: sealed_header_def content_from_u8_def)
    moreover have "\<not> ?n < TAG_LEN" using Sealed rp record_sealed_opens(2) [OF ok(1) ok(2) [unfolded rp] n] by simp
    ultimately have "try_read_buffered lib s = open_record lib rp (msg_head m) (msg_body lib ro m) t"
      using step rp by simp
    then show ?thesis
      using Sealed rp open_record_sealed [OF ok(1) ok(2) [unfolded rp] n] t by (simp add: took_def)
  next
    case (Clear ty v p)
    have "content_from_u8 (msg_head m ! 0) = Some ty" using Clear by simp
    moreover have "tr_read t = msg_after ro m" using Clear t(3) by (cases ro) simp_all
    ultimately show ?thesis using step Clear ok(3) t by (cases ro) (auto simp: took_def)
  qed
qed

section \<open>Polling and waiting for a message\<close>

definition incoming :: "tls_records \<Rightarrow> bytes" where
  "incoming s = unread s @ arriving (tr_in s)"

text \<open>What reading leaves alone, and the invariant of the reading side.\<close>

definition same_writer :: "tls_records \<Rightarrow> tls_records \<Rightarrow> bool" where
  "same_writer s s' \<longleftrightarrow> tr_sink s' = tr_sink s \<and> tr_write s' = tr_write s \<and> tr_outbound s' = tr_outbound s"

lemma same_writer_trans: "same_writer s t \<Longrightarrow> same_writer t u \<Longrightarrow> same_writer s u"
  by (simp add: same_writer_def)

definition reads_ok :: "tls_records \<Rightarrow> bool" where
  "reads_ok s \<longleftrightarrow> tr_ok s \<and> unbroken (tr_in s)"

definition polled :: "tls_lib \<Rightarrow> tls_records \<Rightarrow> tls_msg \<Rightarrow> bytes \<Rightarrow> (fault + tls_record) poll \<Rightarrow> tls_records \<Rightarrow> bool" where
  "polled lib s m y r s' \<longleftrightarrow> reads_ok s' \<and> same_writer s s' \<and> stream_size (tr_in s') \<le> stream_size (tr_in s)
     \<and> (r = Pending \<and> tr_read s' = tr_read s \<and> incoming s' = incoming s \<and> stream_size (tr_in s') < stream_size (tr_in s)
        \<or> r = Ready (Inr (msg_record m)) \<and> tr_read s' = msg_after (tr_read s) m \<and> incoming s' = y)"

lemma inner_read_pending: "inner_read cap es = (Pending, es') \<Longrightarrow> stream_size es' < stream_size es"
  by (induction cap es rule: inner_read.induct) (auto split: if_splits)

lemma poll_read_record_polled:
  assumes ok: "tls_lib_ok lib" "rp_fits (tr_read s)" "msg_fits (tr_read s) m" "reads_ok s"
    and u: "incoming s = msg_wire lib (tr_read s) m @ y" and p: "poll_read_record lib s = (r, s')"
  shows "polled lib s m y r s'"
proof -
  have s: "tr_ok s" "unbroken (tr_in s)" using ok(4) by (simp_all add: reads_ok_def)
  note step = try_read_msg [OF ok(1-3) s(1) refl u [unfolded incoming_def]]
  show ?thesis
  proof (cases "length (msg_wire lib (tr_read s) m) \<le> length (unread s)")
    case True
    obtain t where t: "try_read_buffered lib s = (Inr (Some (msg_record m)), t)" "unread t @ arriving (tr_in s) = y" "took m (tr_read s) s t"
      using step(2) [OF True] by blast
    then show ?thesis using p s(2) by (simp add: poll_read_record_def polled_def took_def reads_ok_def same_writer_def incoming_def)
  next
    case short: False
    then have t: "try_read_buffered lib s = (Inr None, s)" using step(1) by simp
    obtain q es where q: "inner_read 8192 (tr_in s) = (q, es)" by fastforce
    note a = inner_read_arriving [OF q] and b = inner_read_unbroken [OF s(2) q]
    show ?thesis
    proof (cases q)
      case Pending
      then show ?thesis using p t q a b s(1) inner_read_pending [of 8192 "tr_in s" es]
        by (auto simp: poll_read_record_def polled_def reads_ok_def same_writer_def incoming_def)
    next
      case (Failed e)
      then show ?thesis using b by simp
    next
      case (Ready bs)
      have ne: "bs \<noteq> []"
      proof
        assume "bs = []"
        then have "arriving (tr_in s) = []" using inner_read_eof [of 8192 "tr_in s" es] q Ready by simp
        then show False using u short by (simp add: incoming_def)
      qed
      have less: "stream_size es < stream_size (tr_in s)" using inner_read_got q Ready ne by blast
      define v where "v = push_inbound bs (s\<lparr>tr_in := es\<rparr>)"
      have v: "tr_ok v" "unread v = unread s @ bs" "tr_read v = tr_read s" "tr_in v = es" "same_writer s v"
        using push_inbound_unread [of "s\<lparr>tr_in := es\<rparr>" bs] s(1) by (simp_all add: v_def same_writer_def)
      have uv: "unread v @ arriving es = msg_wire lib (tr_read s) m @ y" using u a Ready v(2) by (simp add: incoming_def)
      note again = try_read_msg [OF ok(1-3) v(1,3) uv]
      have x: "(r, s') = (case try_read_buffered lib v of
                    (Inr (Some r), s) \<Rightarrow> (Ready (Inr r), s)
                  | (Inr None, s) \<Rightarrow> (Pending, s)
                  | (Inl e, s) \<Rightarrow> (Ready (Inl e), s))"
        using p t q Ready ne by (simp add: poll_read_record_def v_def)
      show ?thesis
      proof (cases "length (msg_wire lib (tr_read s) m) \<le> length (unread v)")
        case True
        then show ?thesis using again(2) x v(4,5) b less
          by (auto simp: polled_def took_def reads_ok_def same_writer_def incoming_def)
      next
        case False
        then show ?thesis using again(1) x v b less u uv
          by (auto simp: polled_def took_def reads_ok_def incoming_def)
      qed
    qed
  qed
qed

text \<open>When nothing more comes, a poll waits or reports the closed connection.\<close>

lemma poll_read_record_end:
  assumes "reads_ok s" "incoming s = []" "poll_read_record lib s = (r, s')"
  shows "reads_ok s' \<and> incoming s' = [] \<and> tr_read s' = tr_read s \<and> stream_size (tr_in s') \<le> stream_size (tr_in s)
    \<and> (r = Pending \<and> stream_size (tr_in s') < stream_size (tr_in s) \<or> r = Ready (Inl (Fault ConnectionFailed)))"
proof -
  have s: "tr_ok s" "unbroken (tr_in s)" "unread s = []" "arriving (tr_in s) = []"
    using assms(1,2) by (simp_all add: reads_ok_def incoming_def)
  have t: "try_read_buffered lib s = (Inr None, s)" using try_read_short [OF s(1)] s(3) by simp
  obtain q es where q: "inner_read 8192 (tr_in s) = (q, es)" by fastforce
  note a = inner_read_arriving [OF q] and b = inner_read_unbroken [OF s(2) q]
  show ?thesis
  proof (cases q)
    case Pending
    then show ?thesis using assms(3) t q a b s inner_read_pending [of 8192 "tr_in s" es]
      by (auto simp: poll_read_record_def reads_ok_def incoming_def)
  next
    case (Ready bs)
    then have "bs = []" "arriving es = []" using a s(4) by simp_all
    then show ?thesis using assms(3) t q Ready b s inner_read_size [of 8192 "tr_in s" bs es]
      by (auto simp: poll_read_record_def reads_ok_def incoming_def)
  qed (use b in simp)
qed

text \<open>A record that is returned has been taken off the input.\<close>

definition input_left :: "tls_records \<Rightarrow> nat" where
  "input_left s = (tr_end s - tr_start s) + stream_size (tr_in s)"

lemma try_read_takes:
  assumes "try_read_buffered lib s = (Inr (Some r), s')"
  shows "input_left s' < input_left s"
proof -
  have a: "\<not> tr_end s - tr_start s < HEADER_LEN" using assms by (auto simp: try_read_buffered_def Let_def)
  then have "tr_start s < tr_end s" by (simp add: HEADER_LEN_def)
  moreover have "\<exists>n. tr_start s' = tr_start s + (HEADER_LEN + n)"
    using assms a by (auto simp: try_read_buffered_def open_record_def Let_def split: if_splits option.splits prod.splits sum.splits)
  ultimately show ?thesis using try_read_parts [OF assms] by (auto simp: input_left_def HEADER_LEN_def)
qed

lemma try_read_none: "try_read_buffered lib s = (Inr None, s') \<Longrightarrow> s' = s"
  by (auto simp: try_read_buffered_def open_record_def Let_def split: if_splits option.splits prod.splits sum.splits)

lemma push_inbound_left: "input_left (push_inbound bs (s\<lparr>tr_in := es\<rparr>)) = (tr_end s - tr_start s) + length bs + stream_size es"
  by (auto simp: input_left_def push_inbound_def compact_inbound_def Let_def)

lemma poll_read_record_takes:
  assumes "poll_read_record lib s = (Ready (Inr r), s')"
  shows "input_left s' < input_left s"
proof (cases "\<exists>r s'. try_read_buffered lib s = (Inr (Some r), s')")
  case True
  then obtain r0 s0 where t: "try_read_buffered lib s = (Inr (Some r0), s0)" by blast
  then show ?thesis using assms try_read_takes [OF t] by (simp add: poll_read_record_def)
next
  case False
  obtain w t where w: "try_read_buffered lib s = (w, t)" by fastforce
  have "w = Inr None"
  proof (cases w)
    case (Inr o1)
    then show ?thesis using False w by (cases o1) blast+
  qed (use assms w in \<open>simp add: poll_read_record_def\<close>)
  then have t: "try_read_buffered lib s = (Inr None, s)" using w try_read_none [of lib s t] by simp
  obtain q es where q: "inner_read 8192 (tr_in s) = (q, es)" by fastforce
  then obtain bs where bs: "q = Ready bs" "bs \<noteq> []" and
    "try_read_buffered lib (push_inbound bs (s\<lparr>tr_in := es\<rparr>)) = (Inr (Some r), s')"
    using assms t by (auto simp: poll_read_record_def split: poll.splits if_splits prod.splits sum.splits option.splits)
  then show ?thesis using try_read_takes [of lib "push_inbound bs (s\<lparr>tr_in := es\<rparr>)" r s'] push_inbound_left [of bs es s]
      inner_read_size [of 8192 "tr_in s" bs es] q by (simp add: input_left_def [of s])
qed

section \<open>Waiting for a message\<close>

definition awaited :: "tls_records \<Rightarrow> tls_msg \<Rightarrow> bytes \<Rightarrow> (fault + tls_record) \<Rightarrow> tls_records \<Rightarrow> bool" where
  "awaited s m y r s' \<longleftrightarrow> reads_ok s' \<and> same_writer s s' \<and> stream_size (tr_in s') \<le> stream_size (tr_in s)
     \<and> length (tr_inbound s') = length (tr_inbound s)
     \<and> r = Inr (msg_record m) \<and> tr_read s' = msg_after (tr_read s) m \<and> incoming s' = y"

lemma await_read_cap: "await_read cap es = (Inr bs, es') \<Longrightarrow> length bs \<le> cap"
  by (induction cap es rule: await_read.induct) (auto split: if_splits)

text \<open>The buffer has room for the longest record, so there is always room to read into.\<close>

definition roomy :: "tls_records \<Rightarrow> bool" where
  "roomy s \<longleftrightarrow> HEADER_LEN + MAX_CIPHERTEXT \<le> length (tr_inbound s)"

lemma msg_wire_length:
  assumes "tls_lib_ok lib" "rp_fits ro" "msg_fits ro m"
  shows "length (msg_wire lib ro m) \<le> HEADER_LEN + MAX_CIPHERTEXT"
  using msg_wire_parts [OF assms] by (simp add: HEADER_LEN_def)

lemma read_record_loop_awaited:
  assumes "tls_lib_ok lib" "rp_fits (tr_read s)" "msg_fits (tr_read s) m" "reads_ok s" "roomy s"
    and "incoming s = msg_wire lib (tr_read s) m @ y" "length (unread s) < length (msg_wire lib (tr_read s) m)"
    and "read_record_loop lib s = (r, s')"
  shows "awaited s m y r s'"
  using assms
proof (induction "stream_size (tr_in s)" arbitrary: s rule: less_induct)
  case (less s)
  define c where "c = compact_inbound s"
  have s: "tr_ok s" "unbroken (tr_in s)" using less.prems(4) by (simp_all add: reads_ok_def)
  have c: "tr_ok c" "unread c = unread s" "tr_start c = 0" "length (tr_inbound c) = length (tr_inbound s)" "tr_in c = tr_in s"
    "tr_read c = tr_read s" "same_writer s c"
    using compact_inbound_unread [OF s(1)] by (simp_all add: c_def same_writer_def)
  have e: "tr_end c = length (unread s)" using length_unread [OF c(1)] c(2,3) by simp
  have room: "0 < length (tr_inbound c) - tr_end c"
    using msg_wire_length [OF less.prems(1-3)] less.prems(5,7) e c(4) by (simp add: roomy_def)
  obtain q es where q: "await_read (length (tr_inbound c) - tr_end c) (tr_in s) = (q, es)" by fastforce
  note sp = await_read_spec [OF s(2) room q]
  obtain bs where bs: "q = Inr bs" "arriving (tr_in s) = bs @ arriving es" "bs = [] \<Longrightarrow> arriving (tr_in s) = []" using sp(3) by blast
  have ne: "bs \<noteq> []" using bs(3) less.prems(6,7) by (auto simp: incoming_def)
  have fit: "tr_end c + length bs \<le> length (tr_inbound c)"
    using await_read_cap q bs(1) room by fastforce
  have smaller: "stream_size es < stream_size (tr_in s)" using await_read_got q bs(1) ne by blast
  define v where "v = c\<lparr>tr_in := es, tr_inbound := put_at (tr_end c) bs (tr_inbound c), tr_end := tr_end c + length bs\<rparr>"
  have v: "tr_ok v" "unread v = unread s @ bs" "tr_read v = tr_read s" "tr_in v = es" "same_writer s v"
    "length (tr_inbound v) = length (tr_inbound s)"
    using append_inbound_unread [of "c\<lparr>tr_in := es\<rparr>" bs] c fit by (auto simp: v_def tr_ok_def same_writer_def)
  have uv: "unread v @ arriving es = msg_wire lib (tr_read s) m @ y" using less.prems(6) bs(2) v(2) by (simp add: incoming_def)
  note again = try_read_msg [OF less.prems(1-3) v(1,3) uv]
  have x: "read_record_loop lib s = (case try_read_buffered lib v of
               (Inl e, s) \<Rightarrow> (Inl e, s)
             | (Inr (Some r), s) \<Rightarrow> (Inr r, s)
             | (Inr None, s) \<Rightarrow> read_record_loop lib s)"
    using q bs(1) ne c(5) by (subst read_record_loop.simps) (simp add: Let_def v_def flip: c_def)
  show ?case
  proof (cases "length (msg_wire lib (tr_read s) m) \<le> length (unread v)")
    case True
    then show ?thesis using again(2) x less.prems(8) v sp(1) smaller
      by (auto simp: awaited_def took_def reads_ok_def same_writer_def incoming_def)
  next
    case False
    then have n: "try_read_buffered lib v = (Inr None, v)" using again(1) by simp
    have "awaited v m y r s'"
      by (rule less.hyps) (use less.prems n x v uv sp(1) smaller False in \<open>simp_all add: reads_ok_def roomy_def incoming_def\<close>)
    then show ?thesis using v smaller by (auto simp: awaited_def same_writer_def)
  qed
qed

lemma read_record_awaited:
  assumes "tls_lib_ok lib" "rp_fits (tr_read s)" "msg_fits (tr_read s) m" "reads_ok s" "roomy s"
    and "incoming s = msg_wire lib (tr_read s) m @ y" "read_record lib s = (r, s')"
  shows "awaited s m y r s'"
proof -
  have s: "tr_ok s" using assms(4) by (simp add: reads_ok_def)
  note step = try_read_msg [OF assms(1-3) s refl assms(6) [unfolded incoming_def]]
  show ?thesis
  proof (cases "length (msg_wire lib (tr_read s) m) \<le> length (unread s)")
    case True
    then show ?thesis using step(2) assms(4,7)
      by (auto simp: read_record_def awaited_def took_def reads_ok_def same_writer_def incoming_def)
  next
    case False
    then have "read_record_loop lib s = (r, s')" using step(1) assms(7) by (simp add: read_record_def)
    then show ?thesis using read_record_loop_awaited [OF assms(1-6)] False by simp
  qed
qed

section \<open>Staging a record\<close>

lemma stage_sealed:
  assumes "tls_lib_ok lib" "rp_fits (Some rp)" "tr_write s = Some rp" "length payload \<le> MAX_PLAINTEXT"
  shows "stage_record lib ty payload s
    = Inr (msg_wire lib (Some rp) (Sealed ty payload 0), s\<lparr>tr_write := msg_after (Some rp) (Sealed ty payload 0)\<rparr>)"
proof -
  have "length payload + 1 + 0 + TAG_LEN \<le> MAX_CIPHERTEXT" using assms(4) by (simp add: record_sizes)
  note o = record_sealed_opens [OF assms(1,2) this, of ty]
  have "protect lib rp (payload @ [content_byte ty]) (sealed_header (length payload + 1 + TAG_LEN))
      = Inr (sealed_body lib rp ty payload 0, rp\<lparr>rp_seq := rp_seq rp + 1\<rparr>)"
    using o(1) by (simp add: protect_def sealed_plain_def Let_def)
  then show ?thesis using assms(3) o(2) by (simp add: stage_record_def bind_result_def Let_def put_at_def)
qed

lemma stage_clear:
  assumes "tr_write s = None"
  shows "stage_record lib ty payload s
    = Inr (msg_wire lib None (Clear ty (if payload \<noteq> [] \<and> ty = Handshake then 1 else 3) payload), s)"
  using assms by (simp add: stage_record_def plain_header_def)

lemma await_write_good:
  "Break \<notin> set ss \<Longrightarrow> Accept 0 \<notin> set ss \<Longrightarrow>
   \<exists>ss'. await_write bs ss w = (Inr (), ss', w @ bs) \<and> set ss' \<subseteq> set ss \<and> length ss' \<le> length ss"
proof (induction bs ss w rule: await_write.induct)
  case (2 bs sl ss w)
  show ?case
  proof (cases "bs = []")
    case False
    then show ?thesis using 2 by (cases sl) auto
  qed auto
qed simp

lemma sink_write_all_good:
  assumes "sink_good k"
  shows "\<exists>k'. sink_write_all bs k = (Inr (), k') \<and> written k' = written k @ bs \<and> sink_good k' \<and> length (slots k') \<le> length (slots k)"
proof -
  obtain ss where "await_write bs (slots k) (written k) = (Inr (), ss, written k @ bs)" "set ss \<subseteq> set (slots k)" "length ss \<le> length (slots k)"
    using await_write_good [of "slots k" bs "written k"] assms by (auto simp: sink_good_def)
  then show ?thesis using assms by (auto simp: sink_write_all_def sink_good_def)
qed

lemma write_record_clear:
  assumes "tr_write s = None" "sink_good (tr_sink s)" "length payload \<le> MAX_PLAINTEXT"
  shows "\<exists>k. write_record lib ty payload s = (Inr (), s\<lparr>tr_sink := k\<rparr>) \<and> sink_good k
    \<and> written k = written (tr_sink s) @ msg_wire lib None (Clear ty (if payload \<noteq> [] \<and> ty = Handshake then 1 else 3) payload)"
proof -
  let ?m = "msg_wire lib None (Clear ty (if payload \<noteq> [] \<and> ty = Handshake then 1 else 3) payload)"
  obtain k where k: "sink_write_all ?m (tr_sink s) = (Inr (), k)" "written k = written (tr_sink s) @ ?m" "sink_good k"
    using sink_write_all_good [OF assms(2)] by blast
  then have "write_record lib ty payload s = (Inr (), s\<lparr>tr_sink := k\<rparr>)"
    using stage_clear [OF assms(1), of lib ty payload] assms(3) by (simp add: write_record_def del: msg_wire.simps)
  then show ?thesis using k by blast
qed

lemma write_record_sealed:
  assumes "tls_lib_ok lib" "rp_fits (Some rp)" "tr_write s = Some rp" "sink_good (tr_sink s)" "length payload \<le> MAX_PLAINTEXT"
  shows "\<exists>k. write_record lib ty payload s = (Inr (), s\<lparr>tr_write := msg_after (Some rp) (Sealed ty payload 0), tr_sink := k\<rparr>)
    \<and> sink_good k \<and> written k = written (tr_sink s) @ msg_wire lib (Some rp) (Sealed ty payload 0)"
proof -
  let ?m = "msg_wire lib (Some rp) (Sealed ty payload 0)"
  obtain k where k: "sink_write_all ?m (tr_sink s) = (Inr (), k)" "written k = written (tr_sink s) @ ?m" "sink_good k"
    using sink_write_all_good [OF assms(4)] by blast
  then have "write_record lib ty payload s = (Inr (), s\<lparr>tr_write := msg_after (Some rp) (Sealed ty payload 0), tr_sink := k\<rparr>)"
    using stage_sealed [OF assms(1-3,5), of ty] assms(5) by (simp add: write_record_def del: msg_wire.simps msg_after.simps)
  then show ?thesis using k by blast
qed

section \<open>Nonces\<close>

lemma digits_eq:
  "\<forall>i < k. a div 256 ^ i mod 256 = b div 256 ^ i mod 256 \<Longrightarrow> a mod 256 ^ k = (b :: nat) mod 256 ^ k"
proof (induction k)
  case (Suc k)
  have "n mod 256 ^ Suc k = 256 ^ k * (n div 256 ^ k mod 256) + n mod 256 ^ k" for n :: nat
    by (metis mod_mult2_eq mult.commute power_Suc)
  then show ?case using Suc by simp
qed simp

lemma to_be64_inject: "to_be64 a = to_be64 b \<longleftrightarrow> a = b"
proof
  assume e: "to_be64 a = to_be64 b"
  have "unat a div 256 ^ i mod 256 = unat b div 256 ^ i mod 256" if "i < 8" for i
  proof -
    have "to_be64 a ! (7 - i) = to_be64 b ! (7 - i)" using e by simp
    then have "(word_of_nat (unat a div 256 ^ i) :: u8) = word_of_nat (unat b div 256 ^ i)" 
      using that nth_upt [of 0 "7 - i" 8] by (simp add: to_be64_def)
    then show ?thesis by (metis unat_of_nat_u8)
  qed
  then have "unat a mod 256 ^ 8 = unat b mod 256 ^ 8" using digits_eq by blast
  moreover have "unat c < 256 ^ 8" for c :: "64 word" using unsigned_less [of c, where 'a = nat] by simp
  ultimately show "a = b" by (simp add: word_unat_eq_iff)
qed simp

text \<open>Two records of one key are never sealed with one nonce: the sequence number can be read off it.\<close>

lemma build_nonce_inject:
  assumes "length iv = 12"
  shows "build_nonce iv a = build_nonce iv b \<longleftrightarrow> a = b"
proof
  assume "build_nonce iv a = build_nonce iv b"
  then have "from_be64 (slice 4 12 iv) XOR a = from_be64 (slice 4 12 iv) XOR b"
    using assms by (simp add: build_nonce_def Let_def put_at_def to_be64_inject)
  then show "a = b" by (metis bit.xor_left_self)
qed simp

end
