(* ===== verification/RealityHello.thy ===== *)
theory RealityHello
  imports TlsRecord ProxyWire Utils
begin

text \<open>
  The client's first message: \<^verbatim>\<open>writer.rs\<close>, \<^verbatim>\<open>hello.rs\<close> and \<^verbatim>\<open>auth.rs\<close> of \<^verbatim>\<open>crates/clash-proxynet/src/reality\<close>.
  A ClientHello is written with nested length-prefixed vectors; its session id is then replaced by a
  sealed token that only the holder of the server's private key can open. The result: a server that
  reads the message finds the server name, the protocols and the key share that were put in, and the
  token opens to the client's version, time and short id.
\<close>

section \<open>\<^verbatim>\<open>TlsWriter\<close>\<close>

definition tw_u8 :: "u8 \<Rightarrow> bytes \<Rightarrow> bytes" where "tw_u8 v w = w @ [v]"
definition tw_u16 :: "u16 \<Rightarrow> bytes \<Rightarrow> bytes" where "tw_u16 v w = w @ to_be16 v"
definition tw_bytes :: "bytes \<Rightarrow> bytes \<Rightarrow> bytes" where "tw_bytes v w = w @ v"
definition tw_zeros :: "nat \<Rightarrow> bytes \<Rightarrow> bytes" where "tw_zeros n w = w @ replicate n 0"

text \<open>The marker is the position behind the length field.\<close>

definition begin_vector8 :: "bytes \<Rightarrow> nat \<times> bytes" where
  "begin_vector8 w = (let w = tw_u8 0 w in (length w, w))"

definition begin_vector16 :: "bytes \<Rightarrow> nat \<times> bytes" where
  "begin_vector16 w = (let w = tw_u16 0 w in (length w, w))"

definition begin_vector24 :: "bytes \<Rightarrow> nat \<times> bytes" where
  "begin_vector24 w = (let w = tw_u16 0 (tw_u8 0 w) in (length w, w))"

text \<open>The length field; another size than one, two or three bytes panics, and none is used.\<close>

datatype vector_prefix = P8 | P16 | P24

fun prefix_size :: "vector_prefix \<Rightarrow> nat" where
  "prefix_size P8 = 1"
| "prefix_size P16 = 2"
| "prefix_size P24 = 3"

fun length_field :: "vector_prefix \<Rightarrow> nat \<Rightarrow> bytes" where
  "length_field P8 n = [word_of_nat n]"
| "length_field P16 n = [word_of_nat (n div 256), word_of_nat n]"
| "length_field P24 n = [word_of_nat (n div 65536), word_of_nat (n div 256), word_of_nat n]"

definition end_vector :: "nat \<Rightarrow> vector_prefix \<Rightarrow> bytes \<Rightarrow> bytes" where
  "end_vector marker prefix w =
     (let len = length w - marker; start = marker - prefix_size prefix in put_at start (length_field prefix len) w)"

section \<open>The ClientHello\<close>

definition SESSION_ID_SIZE :: nat where "SESSION_ID_SIZE = 32"
definition AUTH_KEY_SIZE :: nat where "AUTH_KEY_SIZE = 32"
definition SHORT_ID_SIZE :: nat where "SHORT_ID_SIZE = 8"
definition SESSION_ID_OFFSET :: nat where "SESSION_ID_OFFSET = 39"

lemmas hello_sizes = SESSION_ID_SIZE_def AUTH_KEY_SIZE_def SHORT_ID_SIZE_def SESSION_ID_OFFSET_def

definition to_alabel :: "idna_fn \<Rightarrow> rstr \<Rightarrow> rstr" where
  "to_alabel idna name = (if \<forall>c \<in> set name. is_ascii c then name else unwrap_or name (idna name))"

definition write_sni :: "idna_fn \<Rightarrow> rstr \<Rightarrow> bytes \<Rightarrow> bytes" where
  "write_sni idna name w =
     (let ascii = to_alabel idna name; w = tw_u16 0 w;
          (ext, w) = begin_vector16 w; (lst, w) = begin_vector16 w; w = tw_u8 0 w;
          (n, w) = begin_vector16 w; w = tw_bytes (as_bytes ascii) w
      in end_vector ext P16 (end_vector lst P16 (end_vector n P16 w)))"

definition write_groups :: "bytes \<Rightarrow> bytes" where
  "write_groups w =
     (let w = tw_u16 10 w; (ext, w) = begin_vector16 w; (g, w) = begin_vector16 w; w = tw_u16 0x001D w
      in end_vector ext P16 (end_vector g P16 w))"

definition sigalg_ids :: "u16 list" where
  "sigalg_ids = [0x0403, 0x0804, 0x0401, 0x0503, 0x0805, 0x0501, 0x0806, 0x0601]"

definition write_sigalgs :: "bytes \<Rightarrow> bytes" where
  "write_sigalgs w =
     (let w = tw_u16 13 w; (ext, w) = begin_vector16 w; (a, w) = begin_vector16 w;
          w = List.fold tw_u16 sigalg_ids w
      in end_vector ext P16 (end_vector a P16 w))"

definition write_versions :: "bytes \<Rightarrow> bytes" where
  "write_versions w =
     (let w = tw_u16 43 w; (ext, w) = begin_vector16 w; (v, w) = begin_vector8 w; w = tw_u16 0x0304 w
      in end_vector ext P16 (end_vector v P8 w))"

definition write_psk :: "bytes \<Rightarrow> bytes" where
  "write_psk w =
     (let w = tw_u16 45 w; (ext, w) = begin_vector16 w; (m, w) = begin_vector8 w; w = tw_u8 1 w
      in end_vector ext P16 (end_vector m P8 w))"

definition write_key_share :: "bytes \<Rightarrow> bytes \<Rightarrow> bytes" where
  "write_key_share pk w =
     (let w = tw_u16 51 w; (ext, w) = begin_vector16 w; (shares, w) = begin_vector16 w; w = tw_u16 0x001D w;
          (share, w) = begin_vector16 w; w = tw_bytes pk w
      in end_vector ext P16 (end_vector shares P16 (end_vector share P16 w)))"

definition write_protocol :: "rstr \<Rightarrow> bytes \<Rightarrow> bytes" where
  "write_protocol p w = (let (e, w) = begin_vector8 w in end_vector e P8 (tw_bytes (as_bytes p) w))"

definition write_alpn :: "rstr list \<Rightarrow> bytes \<Rightarrow> bytes" where
  "write_alpn alpn w =
     (let w = tw_u16 16 w; (ext, w) = begin_vector16 w; (lst, w) = begin_vector16 w; w = List.fold write_protocol alpn w
      in end_vector ext P16 (end_vector lst P16 w))"

record client_hello =
  ch_handshake :: bytes
  ch_private :: bytes

text \<open>\<open>priv\<close> is the fresh private key and \<open>random\<close> the client random; the public key belongs to the first.\<close>

definition build_hello :: "tls_lib \<Rightarrow> idna_fn \<Rightarrow> bytes \<Rightarrow> bytes \<Rightarrow> rstr \<Rightarrow> rstr list \<Rightarrow> client_hello" where
  "build_hello lib idna priv random server_name alpn =
     (let pub = lt_public lib priv; w = tw_u8 1 [];
          (body, w) = begin_vector24 w;
          w = tw_bytes random (tw_u16 0x0303 w);
          w = tw_zeros SESSION_ID_SIZE (tw_u8 (word_of_nat SESSION_ID_SIZE) w);
          (suites, w) = begin_vector16 w;
          w = end_vector suites P16 (tw_u16 0x1303 (tw_u16 0x1302 (tw_u16 0x1301 w)));
          (comp, w) = begin_vector8 w;
          w = end_vector comp P8 (tw_u8 0 w);
          (exts, w) = begin_vector16 w;
          w = write_key_share pub (write_psk (write_versions (write_sigalgs (write_groups (write_sni idna server_name w)))));
          w = (if alpn \<noteq> [] then write_alpn alpn w else w)
      in \<lparr>ch_handshake = end_vector body P24 (end_vector exts P16 w), ch_private = priv\<rparr>)"

section \<open>Authentication\<close>

text \<open>\<^verbatim>\<open>Hkdf::new\<close> extracts, \<^verbatim>\<open>expand\<close> gives the key; 32 bytes are never too many.\<close>

definition derive_auth_key :: "tls_lib \<Rightarrow> bytes \<Rightarrow> bytes \<Rightarrow> bytes \<Rightarrow> fault + bytes" where
  "derive_auth_key lib client_private server_public client_random =
     (if length client_random \<noteq> 32 then Inl (Fault InvalidResponse)
      else
        (let shared = lt_agree lib client_private server_public;
             prk = lt_hmac lib Sha256 (take 20 client_random) shared
         in Inr (lt_expand lib Sha256 prk (as_bytes ''REALITY'') AUTH_KEY_SIZE)))"

definition token_text :: "bytes \<Rightarrow> u32 \<Rightarrow> bytes \<Rightarrow> bytes" where
  "token_text client_version unix_time short_id =
     put_at 8 short_id (put_at 4 (to_be32 unix_time) (put_at 0 client_version (replicate 16 0)))"

definition seal_session_id :: "tls_lib \<Rightarrow> bytes \<Rightarrow> bytes \<Rightarrow> bytes \<Rightarrow> u32 \<Rightarrow> bytes \<Rightarrow> fault + bytes" where
  "seal_session_id lib hello auth_key short_id unix_time client_version =
     (if length hello < SESSION_ID_OFFSET + SESSION_ID_SIZE then Inl (Fault InvalidResponse)
      else if hello ! (SESSION_ID_OFFSET - 1) \<noteq> word_of_nat SESSION_ID_SIZE then Inl (Fault InvalidResponse)
      else
        (let client_random = slice 6 38 hello;
             plaintext = token_text client_version unix_time short_id;
             hello = put_at SESSION_ID_OFFSET (replicate SESSION_ID_SIZE 0) hello;
             nonce = drop 20 client_random
         in if length auth_key \<noteq> 32 then Inl (Fault InvalidResponse)
            else
              (case lt_seal lib Aes256_gcm auth_key nonce hello plaintext of
                 None \<Rightarrow> Inl (Fault InvalidResponse)
               | Some sealed \<Rightarrow>
                   if length sealed \<noteq> SESSION_ID_SIZE then Inl (Fault InvalidResponse)
                   else Inr (put_at SESSION_ID_OFFSET sealed hello))))"

text \<open>\<^verbatim>\<open>verify_slice\<close> compares with the whole tag.\<close>

definition verify_certificate :: "tls_lib \<Rightarrow> bytes \<Rightarrow> bytes \<Rightarrow> bytes \<Rightarrow> bool" where
  "verify_certificate lib auth_key ed25519_pk signature \<longleftrightarrow> length signature = 64 \<and> lt_hmac512 lib auth_key ed25519_pk = signature"

definition parse_short_id :: "rstr option \<Rightarrow> fault + bytes" where
  "parse_short_id hex =
     (let out = replicate SHORT_ID_SIZE 0 in
      case opt_filter (\<lambda>s. s \<noteq> []) hex of
        None \<Rightarrow> Inr out
      | Some hex \<Rightarrow>
          if length hex mod 2 \<noteq> 0 then Inl (Fault InvalidResponse)
          else if SHORT_ID_SIZE * 2 < length hex then Inl (Fault InvalidResponse)
          else
            (case hex_decode hex of
               None \<Rightarrow> Inl (Fault InvalidResponse)
             | Some bs \<Rightarrow> Inr (put_at 0 bs out)))"

definition decode_pbk :: "(rstr \<Rightarrow> bytes option) \<Rightarrow> rstr \<Rightarrow> fault + bytes" where
  "decode_pbk b64 value =
     (let padded = map (\<lambda>c. if c = CHR ''-'' then CHR ''+'' else if c = CHR ''_'' then CHR ''/'' else c) value;
          padded = padded @ (if length padded mod 4 = 2 then ''=='' else if length padded mod 4 = 3 then ''='' else '''')
      in case b64 padded of
           None \<Rightarrow> Inl (Fault InvalidResponse)
         | Some key \<Rightarrow> if length key \<noteq> 32 then Inl (Fault InvalidResponse) else Inr key)"

definition CLIENT_VERSION :: bytes where "CLIENT_VERSION = [26, 3, 27]"

text \<open>The first part of \<^verbatim>\<open>handshake\<close>: the sealed ClientHello with its private key, and the authentication key.\<close>

definition first_flight ::
  "tls_lib \<Rightarrow> idna_fn \<Rightarrow> (rstr \<Rightarrow> bytes option) \<Rightarrow> bytes \<Rightarrow> bytes \<Rightarrow> u32 \<Rightarrow> rstr \<Rightarrow> rstr \<Rightarrow> rstr option \<Rightarrow> rstr list \<Rightarrow>
   fault + client_hello \<times> bytes" where
  "first_flight lib idna b64 priv random now server_name pbk short_id alpn =
     bind_result (decode_pbk b64 pbk) (\<lambda>public.
     let hello = build_hello lib idna priv random server_name alpn in
     bind_result (derive_auth_key lib (ch_private hello) public (slice 6 38 (ch_handshake hello))) (\<lambda>auth_key.
     bind_result (parse_short_id short_id) (\<lambda>sid.
     bind_result (seal_session_id lib (ch_handshake hello) auth_key sid now CLIENT_VERSION) (\<lambda>sealed.
     Inr (hello\<lparr>ch_handshake := sealed\<rparr>, auth_key)))))"

section \<open>Vectors\<close>

definition vec :: "vector_prefix \<Rightarrow> bytes \<Rightarrow> bytes" where
  "vec p x = length_field p (length x) @ x"

lemma length_length_field [simp]: "length (length_field p n) = prefix_size p"
  by (cases p) simp_all

lemma begin_vectors:
  "begin_vector8 w = (length w + prefix_size P8, w @ replicate (prefix_size P8) 0)"
  "begin_vector16 w = (length w + prefix_size P16, w @ replicate (prefix_size P16) 0)"
  "begin_vector24 w = (length w + prefix_size P24, w @ replicate (prefix_size P24) 0)"
  by (simp_all add: begin_vector8_def begin_vector16_def begin_vector24_def tw_u8_def tw_u16_def to_be16_def hi8_def lo8_def
      Let_def numeral_2_eq_2 numeral_3_eq_3)

lemma end_vector_vec:
  "end_vector (length w + prefix_size p) p (w @ replicate (prefix_size p) 0 @ x) = w @ vec p x"
  by (simp add: end_vector_def Let_def put_at_def vec_def)

text \<open>The forms in which the writer's calls leave the buffer.\<close>

lemma end_vector_forms:
  "end_vector (length w + prefix_size p) p ((w @ replicate (prefix_size p) 0) @ x) = w @ vec p x"
  "n = length w + prefix_size p \<Longrightarrow> end_vector n p (w @ replicate (prefix_size p) 0 @ x) = w @ vec p x"
  using end_vector_vec [of w p x] by simp_all

lemma fold_tw_u16: "List.fold tw_u16 vs w = w @ concat (map to_be16 vs)"
  by (induction vs arbitrary: w) (simp_all add: tw_u16_def)

lemma write_protocol_vec: "write_protocol p w = w @ vec P8 (as_bytes p)"
  by (simp add: write_protocol_def begin_vectors tw_bytes_def end_vector_vec del: prefix_size.simps)

lemma fold_write_protocol: "List.fold write_protocol ps w = w @ concat (map (\<lambda>p. vec P8 (as_bytes p)) ps)"
  by (induction ps arbitrary: w) (simp_all add: write_protocol_vec)

definition ext_wire :: "u16 \<times> bytes \<Rightarrow> bytes" where
  "ext_wire e = to_be16 (fst e) @ vec P16 (snd e)"

definition sni_ext :: "rstr \<Rightarrow> u16 \<times> bytes" where
  "sni_ext name = (0, vec P16 (0 # vec P16 (as_bytes name)))"

definition groups_ext :: "u16 \<times> bytes" where
  "groups_ext = (10, vec P16 (to_be16 0x001D))"

definition sigalgs_ext :: "u16 \<times> bytes" where
  "sigalgs_ext = (13, vec P16 (concat (map to_be16 sigalg_ids)))"

definition versions_ext :: "u16 \<times> bytes" where
  "versions_ext = (43, vec P8 (to_be16 0x0304))"

definition psk_ext :: "u16 \<times> bytes" where
  "psk_ext = (45, vec P8 [1])"

definition key_share_ext :: "bytes \<Rightarrow> u16 \<times> bytes" where
  "key_share_ext pk = (51, vec P16 (to_be16 0x001D @ vec P16 pk))"

definition alpn_ext :: "rstr list \<Rightarrow> u16 \<times> bytes" where
  "alpn_ext alpn = (16, vec P16 (concat (map (\<lambda>p. vec P8 (as_bytes p)) alpn)))"

lemmas ext_defs = sni_ext_def groups_ext_def sigalgs_ext_def versions_ext_def psk_ext_def key_share_ext_def alpn_ext_def

lemma nested_vectors:
  "end_vector (length w + prefix_size p) p (end_vector (length w + prefix_size p + prefix_size q) q
     (w @ replicate (prefix_size p) 0 @ replicate (prefix_size q) 0 @ x)) = w @ vec p (vec q x)"
  using end_vector_vec [of "w @ replicate (prefix_size p) 0" q x] end_vector_vec [of w p "vec q x"] by simp

lemma write_groups_ext: "write_groups w = w @ ext_wire groups_ext"
  using nested_vectors [of "w @ to_be16 10" P16 P16 "to_be16 0x001D"]
  by (simp add: write_groups_def begin_vectors tw_u16_def Let_def ext_wire_def groups_ext_def add.assoc del: prefix_size.simps)

lemma write_sigalgs_ext: "write_sigalgs w = w @ ext_wire sigalgs_ext"
  using nested_vectors [of "w @ to_be16 13" P16 P16 "concat (map to_be16 sigalg_ids)"]
  by (simp add: write_sigalgs_def begin_vectors tw_u16_def fold_tw_u16 Let_def ext_wire_def sigalgs_ext_def add.assoc del: prefix_size.simps)

lemma write_versions_ext: "write_versions w = w @ ext_wire versions_ext"
  using nested_vectors [of "w @ to_be16 43" P16 P8 "to_be16 0x0304"]
  by (simp add: write_versions_def begin_vectors tw_u16_def Let_def ext_wire_def versions_ext_def add.assoc del: prefix_size.simps)

lemma write_psk_ext: "write_psk w = w @ ext_wire psk_ext"
  using nested_vectors [of "w @ to_be16 45" P16 P8 "[1]"]
  by (simp add: write_psk_def begin_vectors tw_u16_def tw_u8_def Let_def ext_wire_def psk_ext_def add.assoc del: prefix_size.simps)

lemma write_alpn_ext: "write_alpn alpn w = w @ ext_wire (alpn_ext alpn)"
  using nested_vectors [of "w @ to_be16 16" P16 P16 "concat (map (\<lambda>p. vec P8 (as_bytes p)) alpn)"]
  by (simp add: write_alpn_def begin_vectors tw_u16_def fold_write_protocol Let_def ext_wire_def alpn_ext_def add.assoc del: prefix_size.simps)

lemma write_sni_ext: "write_sni idna name w = w @ ext_wire (sni_ext (to_alabel idna name))"
  using nested_vectors [of "w @ to_be16 0" P16 P16 "0 # vec P16 (as_bytes (to_alabel idna name))"]
    end_vector_vec [of "w @ to_be16 0 @ replicate (prefix_size P16) 0 @ replicate (prefix_size P16) 0 @ [0]" P16 "as_bytes (to_alabel idna name)"]
  by (simp add: write_sni_def begin_vectors tw_u16_def tw_u8_def tw_bytes_def Let_def ext_wire_def sni_ext_def add.assoc del: prefix_size.simps)

lemma write_key_share_ext: "write_key_share pk w = w @ ext_wire (key_share_ext pk)"
  using nested_vectors [of "w @ to_be16 51" P16 P16 "to_be16 0x001D @ vec P16 pk"]
    end_vector_vec [of "w @ to_be16 51 @ replicate (prefix_size P16) 0 @ replicate (prefix_size P16) 0 @ to_be16 0x001D" P16 pk]
  by (simp add: write_key_share_def begin_vectors tw_u16_def tw_bytes_def Let_def ext_wire_def key_share_ext_def add.assoc del: prefix_size.simps)

lemmas write_exts = write_sni_ext write_groups_ext write_sigalgs_ext write_versions_ext write_psk_ext write_key_share_ext write_alpn_ext

text \<open>The whole message.\<close>

definition hello_exts :: "rstr \<Rightarrow> rstr list \<Rightarrow> bytes \<Rightarrow> (u16 \<times> bytes) list" where
  "hello_exts name alpn pub =
     [sni_ext name, groups_ext, sigalgs_ext, versions_ext, psk_ext, key_share_ext pub] @ (if alpn = [] then [] else [alpn_ext alpn])"

definition hello_suites :: bytes where
  "hello_suites = to_be16 0x1301 @ to_be16 0x1302 @ to_be16 0x1303"

definition client_body :: "bytes \<Rightarrow> bytes \<Rightarrow> bytes \<Rightarrow> bytes" where
  "client_body random sid exts = to_be16 0x0303 @ random @ vec P8 sid @ vec P16 hello_suites @ vec P8 [0] @ vec P16 exts"

definition hello_wire :: "bytes \<Rightarrow> bytes \<Rightarrow> bytes \<Rightarrow> bytes" where
  "hello_wire random sid exts = 1 # vec P24 (client_body random sid exts)"

lemma build_hello_wire:
  "build_hello lib idna priv random server_name alpn =
     \<lparr>ch_handshake = hello_wire random (replicate 32 0) (concat (map ext_wire (hello_exts (to_alabel idna server_name) alpn (lt_public lib priv)))),
      ch_private = priv\<rparr>"
proof -
  let ?E = "concat (map ext_wire (hello_exts (to_alabel idna server_name) alpn (lt_public lib priv)))"
  let ?z = "replicate (prefix_size P24) (0 :: u8)"
  let ?a = "1 # ?z @ to_be16 0x0303 @ random @ vec P8 (replicate 32 0)"
  have sid: "vec P8 (replicate 32 0) = 32 # replicate 32 0" by (simp add: vec_def)
  have suites: "end_vector (length ?a + prefix_size P16) P16 (?a @ replicate (prefix_size P16) 0 @ hello_suites) = ?a @ vec P16 hello_suites"
    by (rule end_vector_vec)
  have comp: "end_vector (length (?a @ vec P16 hello_suites) + prefix_size P8) P8 ((?a @ vec P16 hello_suites) @ replicate (prefix_size P8) 0 @ [0])
      = (?a @ vec P16 hello_suites) @ vec P8 [0]"
    by (rule end_vector_vec)
  let ?b = "?a @ vec P16 hello_suites @ vec P8 [0]"
  have exts: "end_vector (length ?b + prefix_size P16) P16 (?b @ replicate (prefix_size P16) 0 @ ?E) = ?b @ vec P16 ?E"
    by (rule end_vector_vec)
  have body: "end_vector (length [1 :: u8] + prefix_size P24) P24 ([1] @ ?z @ client_body random (replicate 32 0) ?E)
      = [1] @ vec P24 (client_body random (replicate 32 0) ?E)"
    by (rule end_vector_vec)
  show ?thesis
    using suites comp exts body
    by (cases "alpn = []") (simp_all add: build_hello_def begin_vectors tw_u8_def tw_u16_def tw_bytes_def tw_zeros_def SESSION_ID_SIZE_def Let_def write_exts
        hello_wire_def client_body_def hello_exts_def hello_suites_def sid add_ac del: prefix_size.simps)
qed

section \<open>A server that reads it\<close>

definition be_value :: "bytes \<Rightarrow> nat" where
  "be_value bs = foldl (\<lambda>n b. n * 256 + unat b) 0 bs"

definition read_vec :: "vector_prefix \<Rightarrow> bytes \<Rightarrow> (bytes \<times> bytes) option" where
  "read_vec p bs =
     (let k = prefix_size p; n = be_value (take k bs) in
      if length bs < k + n then None else Some (take n (drop k bs), drop (k + n) bs))"

function read_exts :: "bytes \<Rightarrow> (u16 \<times> bytes) list option" where
  "read_exts bs =
     (if bs = [] then Some []
      else if length bs < 2 then None
      else
        (case read_vec P16 (drop 2 bs) of
           None \<Rightarrow> None
         | Some (d, w) \<Rightarrow> map_option ((#) (from_be16 (bs ! 0) (bs ! 1), d)) (read_exts w)))"
  by pat_completeness auto

termination read_exts
  by (relation "measure length") (auto simp: read_vec_def Let_def split: if_splits)

declare read_exts.simps [simp del]

function read_vecs :: "bytes \<Rightarrow> bytes list option" where
  "read_vecs bs =
     (if bs = [] then Some []
      else (case read_vec P8 bs of None \<Rightarrow> None | Some (d, w) \<Rightarrow> map_option ((#) d) (read_vecs w)))"
  by pat_completeness auto

termination read_vecs
  by (relation "measure length") (auto simp: read_vec_def Let_def neq_Nil_conv split: if_splits)

declare read_vecs.simps [simp del]

record hello_view =
  hv_random :: bytes
  hv_session :: bytes
  hv_suites :: bytes
  hv_exts :: "(u16 \<times> bytes) list"

definition all_of :: "(bytes \<times> bytes) option \<Rightarrow> bytes option" where
  "all_of r = (case r of Some (d, []) \<Rightarrow> Some d | _ \<Rightarrow> None)"

definition read_client_hello :: "bytes \<Rightarrow> hello_view option" where
  "read_client_hello h =
     (if h = [] \<or> hd h \<noteq> 1 then None
      else
        Option.bind (all_of (read_vec P24 (tl h))) (\<lambda>body.
        if length body < 34 then None
        else
          Option.bind (read_vec P8 (drop 34 body)) (\<lambda>(sid, w).
          Option.bind (read_vec P16 w) (\<lambda>(suites, w).
          Option.bind (read_vec P8 w) (\<lambda>(comp, w).
          Option.bind (all_of (read_vec P16 w)) (\<lambda>exts.
          map_option (\<lambda>es. \<lparr>hv_random = slice 2 34 body, hv_session = sid, hv_suites = suites, hv_exts = es\<rparr>) (read_exts exts)))))))"

definition name_of :: "(u16 \<times> bytes) list \<Rightarrow> bytes option" where
  "name_of es =
     Option.bind (map_of es 0) (\<lambda>d. Option.bind (all_of (read_vec P16 d)) (\<lambda>l. if l = [] then None else all_of (read_vec P16 (tl l))))"

definition share_of :: "(u16 \<times> bytes) list \<Rightarrow> bytes option" where
  "share_of es =
     Option.bind (map_of es 51) (\<lambda>d. Option.bind (all_of (read_vec P16 d)) (\<lambda>l.
       if take 2 l = to_be16 0x001D then all_of (read_vec P16 (drop 2 l)) else None))"

definition protocols_of :: "(u16 \<times> bytes) list \<Rightarrow> bytes list option" where
  "protocols_of es = (case map_of es 16 of None \<Rightarrow> Some [] | Some d \<Rightarrow> Option.bind (all_of (read_vec P16 d)) read_vecs)"

text \<open>With the private key \<open>b\<close> the server agrees on the key the token was sealed with; the message with a
  zeroed session id is the associated data.\<close>

record reality_client =
  rc_name :: bytes
  rc_protocols :: "bytes list"
  rc_share :: bytes
  rc_auth :: bytes
  rc_token :: bytes

definition server_reads :: "tls_lib \<Rightarrow> bytes \<Rightarrow> bytes \<Rightarrow> reality_client option" where
  "server_reads lib b h =
     Option.bind (read_client_hello h) (\<lambda>v.
     Option.bind (name_of (hv_exts v)) (\<lambda>name.
     Option.bind (protocols_of (hv_exts v)) (\<lambda>protocols.
     Option.bind (share_of (hv_exts v)) (\<lambda>share.
       let auth = lt_expand lib Sha256 (lt_hmac lib Sha256 (take 20 (hv_random v)) (lt_agree lib b share)) (as_bytes ''REALITY'') 32;
           ad = put_at 39 (replicate 32 0) h
       in map_option (\<lambda>token. \<lparr>rc_name = name, rc_protocols = protocols, rc_share = share, rc_auth = auth, rc_token = token\<rparr>)
            (lt_open lib Aes256_gcm auth (drop 20 (hv_random v)) ad (hv_session v))))))"

section \<open>The server finds what was put in\<close>

lemma be_value_length_field: "n < 256 ^ prefix_size p \<Longrightarrow> be_value (length_field p n) = n"
proof (cases p)
  case P16
  assume "n < 256 ^ prefix_size p"
  then show ?thesis using P16 two_length_bytes [of n] by (simp add: be_value_def)
next
  case P24
  assume "n < 256 ^ prefix_size p"
  then have n: "n div 65536 < 256" "n < 16777216" using P24 by simp_all
  have "n = n div 256 * 256 + n mod 256" by simp
  also have "n div 256 = n div 65536 * 256 + n div 256 mod 256" using div_mult2_eq [of n 256 256] by simp
  finally have "n = (n div 65536 * 256 + n div 256 mod 256) * 256 + n mod 256" by simp
  then show ?thesis using P24 n by (simp add: be_value_def unat_of_nat_u8)
qed (simp add: be_value_def unat_of_nat_u8)

lemma read_vec_vec: "length x < 256 ^ prefix_size p \<Longrightarrow> read_vec p (vec p x @ y) = Some (x, y)"
  using be_value_length_field [of "length x" p] by (simp add: read_vec_def vec_def Let_def)

lemma all_of_vec: "length x < 256 ^ prefix_size p \<Longrightarrow> all_of (read_vec p (vec p x)) = Some x"
  using read_vec_vec [of x p "[]"] by (simp add: all_of_def)

lemma read_exts_step:
  "length (snd e) < 65536 \<Longrightarrow> read_exts (ext_wire e @ w) = map_option ((#) e) (read_exts w)"
  using read_vec_vec [of "snd e" P16 w] by (subst read_exts.simps) (simp add: ext_wire_def to_be16_def)

lemma read_vecs_step: "length p < 256 \<Longrightarrow> read_vecs (vec P8 p @ w) = map_option ((#) p) (read_vecs w)"
  using read_vec_vec [of p P8 w] by (subst read_vecs.simps) (simp add: vec_def)

lemma read_exts_wire: "\<forall>e \<in> set es. length (snd e) < 65536 \<Longrightarrow> read_exts (concat (map ext_wire es)) = Some es"
  by (induction es) (simp_all add: read_exts_step, simp add: read_exts.simps)

lemma read_vecs_wire: "\<forall>p \<in> set ps. length p < 256 \<Longrightarrow> read_vecs (concat (map (vec P8) ps)) = Some ps"
  by (induction ps) (simp_all add: read_vecs_step, simp add: read_vecs.simps)

text \<open>What fits into the length fields of the extensions.\<close>

definition hello_fits :: "rstr \<Rightarrow> rstr list \<Rightarrow> bool" where
  "hello_fits name alpn \<longleftrightarrow> (\<forall>p \<in> set alpn. length p < 256) \<and> length name + sum_list (map (\<lambda>p. 1 + length p) alpn) \<le> 65000"

lemma length_vec [simp]: "length (vec p x) = prefix_size p + length x"
  by (simp add: vec_def)

lemma length_protocols: "length (concat (map (\<lambda>p. vec P8 (as_bytes p)) ps)) = sum_list (map (\<lambda>p. 1 + length p) ps)"
  by (induction ps) simp_all

lemma length_exts:
  assumes "hello_fits name alpn" "length pub = 32"
  shows "\<forall>e \<in> set (hello_exts name alpn pub). length (snd e) < 65536"
    "length (concat (map ext_wire (hello_exts name alpn pub))) < 65536"
  using assms
  by (simp_all add: hello_exts_def ext_defs ext_wire_def hello_fits_def length_protocols sigalg_ids_def)

lemma read_hello_wire:
  assumes "length random = 32" "length sid = 32" "\<forall>e \<in> set es. length (snd e) < 65536" "length (concat (map ext_wire es)) < 65536"
  shows "read_client_hello (hello_wire random sid (concat (map ext_wire es)))
    = Some \<lparr>hv_random = random, hv_session = sid, hv_suites = hello_suites, hv_exts = es\<rparr>"
proof -
  let ?E = "concat (map ext_wire es)"
  let ?b = "client_body random sid ?E"
  have "length ?b < 256 ^ prefix_size P24" using assms by (simp add: client_body_def hello_suites_def)
  then have b: "all_of (read_vec P24 (vec P24 ?b)) = Some ?b" by (rule all_of_vec)
  have d: "drop 34 ?b = vec P8 sid @ vec P16 hello_suites @ vec P8 [0] @ vec P16 ?E" "slice 2 34 ?b = random" "34 \<le> length ?b"
    using assms(1) by (simp_all add: client_body_def slice_def)
  have r: "read_vec P8 (vec P8 sid @ w) = Some (sid, w)" "read_vec P16 (vec P16 hello_suites @ w) = Some (hello_suites, w)"
    "read_vec P8 (vec P8 [0] @ w) = Some ([0], w)" for w
    using read_vec_vec assms(2) by (simp_all add: hello_suites_def)
  have e: "all_of (read_vec P16 (vec P16 ?E)) = Some ?E" using all_of_vec [of ?E P16] assms(4) by simp
  show ?thesis using b d r e read_exts_wire [OF assms(3)] by (simp add: read_client_hello_def hello_wire_def)
qed

lemma exts_found:
  assumes "hello_fits name alpn" "length pub = 32"
  shows "name_of (hello_exts name alpn pub) = Some (as_bytes name)" "share_of (hello_exts name alpn pub) = Some pub"
    "protocols_of (hello_exts name alpn pub) = Some (map as_bytes alpn)"
proof -
  let ?ps = "concat (map (\<lambda>p. vec P8 (as_bytes p)) alpn)"
  have len: "length name \<le> 65000" "length ?ps \<le> 65000" using assms(1) by (simp_all add: hello_fits_def length_protocols)
  have "all_of (read_vec P16 (vec P16 (0 # vec P16 (as_bytes name)))) = Some (0 # vec P16 (as_bytes name))"
    "all_of (read_vec P16 (vec P16 (as_bytes name))) = Some (as_bytes name)"
    using all_of_vec [of _ P16] len by simp_all
  then show "name_of (hello_exts name alpn pub) = Some (as_bytes name)" by (simp add: name_of_def hello_exts_def ext_defs)
  have "all_of (read_vec P16 (vec P16 (to_be16 0x001D @ vec P16 pub))) = Some (to_be16 0x001D @ vec P16 pub)"
    "all_of (read_vec P16 (vec P16 pub)) = Some pub"
    using all_of_vec [of _ P16] assms(2) by simp_all
  then show "share_of (hello_exts name alpn pub) = Some pub" by (simp add: share_of_def hello_exts_def ext_defs)
  have "all_of (read_vec P16 (vec P16 ?ps)) = Some ?ps" using all_of_vec [of ?ps P16] len by simp
  moreover have "read_vecs ?ps = Some (map as_bytes alpn)"
    using read_vecs_wire [of "map as_bytes alpn"] assms(1) by (simp add: hello_fits_def comp_def)
  ultimately show "protocols_of (hello_exts name alpn pub) = Some (map as_bytes alpn)"
    by (simp add: protocols_of_def hello_exts_def ext_defs)
qed

text \<open>The session id sits at its fixed place.\<close>

definition hello_pre :: "bytes \<Rightarrow> bytes \<Rightarrow> bytes" where
  "hello_pre random exts = 1 # length_field P24 (length (client_body random (replicate 32 0) exts)) @ to_be16 0x0303 @ random @ [32]"

definition hello_post :: "bytes \<Rightarrow> bytes" where
  "hello_post exts = vec P16 hello_suites @ vec P8 [0] @ vec P16 exts"

lemma hello_wire_split:
  assumes "length random = 32" "length sid = 32"
  shows "hello_wire random sid exts = hello_pre random exts @ sid @ hello_post exts" "length (hello_pre random exts) = 39"
    "slice 6 38 (hello_pre random exts @ x) = random" "(hello_pre random exts @ x) ! 38 = 32"
  using assms by (simp_all add: hello_wire_def client_body_def hello_pre_def hello_post_def vec_def slice_def nth_append)

lemma put_session_id:
  assumes "length random = 32" "length sid = 32" "length sid' = 32"
  shows "put_at 39 sid' (hello_wire random sid exts) = hello_wire random sid' exts"
  using assms hello_wire_split [OF assms(1), of _ exts] by (simp add: put_at_def)

lemma parse_short_id_length: "parse_short_id short = Inr sid \<Longrightarrow> length sid = 8"
  by (auto simp: parse_short_id_def Let_def hello_sizes split: option.splits if_splits)

lemma length_token: "length v = 3 \<Longrightarrow> length sid = 8 \<Longrightarrow> length (token_text v t sid) = 16"
  by (simp add: token_text_def)

text \<open>What a successful \<open>first_flight\<close> has made.\<close>

definition hello_made :: "tls_lib \<Rightarrow> idna_fn \<Rightarrow> bytes \<Rightarrow> bytes \<Rightarrow> u32 \<Rightarrow> rstr \<Rightarrow> rstr list \<Rightarrow> bytes \<Rightarrow> bytes \<Rightarrow> client_hello \<Rightarrow> bytes \<Rightarrow> bool" where
  "hello_made lib idna priv random now server_name alpn public sid hello auth \<longleftrightarrow>
     (\<exists>sealed exts. exts = concat (map ext_wire (hello_exts (to_alabel idna server_name) alpn (lt_public lib priv)))
        \<and> auth = lt_expand lib Sha256 (lt_hmac lib Sha256 (take 20 random) (lt_agree lib priv public)) (as_bytes ''REALITY'') 32
        \<and> hello = \<lparr>ch_handshake = hello_wire random sealed exts, ch_private = priv\<rparr> \<and> length sealed = 32
        \<and> lt_open lib Aes256_gcm auth (drop 20 random) (hello_wire random (replicate 32 0) exts) sealed = Some (token_text CLIENT_VERSION now sid))"

lemma first_flight_made:
  assumes ok: "tls_lib_ok lib" and r: "length random = 32"
    and p: "decode_pbk b64 pbk = Inr public" "parse_short_id short_id = Inr sid"
  shows "\<exists>hello auth. first_flight lib idna b64 priv random now server_name pbk short_id alpn = Inr (hello, auth)
    \<and> hello_made lib idna priv random now server_name alpn public sid hello auth"
proof -
  let ?E = "concat (map ext_wire (hello_exts (to_alabel idna server_name) alpn (lt_public lib priv)))"
  let ?z = "hello_wire random (replicate 32 0) ?E"
  note w = hello_wire_split [OF r, of "replicate 32 0" ?E]
  have rnd: "slice 6 38 ?z = random" "?z ! 38 = 32" "\<not> length ?z < 71" using w by simp_all
  let ?auth = "lt_expand lib Sha256 (lt_hmac lib Sha256 (take 20 random) (lt_agree lib priv public)) (as_bytes ''REALITY'') 32"
  have a: "derive_auth_key lib priv public random = Inr ?auth" "length ?auth = 32"
    using r ok by (simp_all add: derive_auth_key_def Let_def AUTH_KEY_SIZE_def tls_lib_ok_def)
  have zz: "put_at 39 (replicate 32 0) ?z = ?z" using put_session_id [OF r, of "replicate 32 0" "replicate 32 0"] by simp
  let ?t = "token_text CLIENT_VERSION now sid"
  have t: "length ?t = 16" using length_token parse_short_id_length [OF p(2)] by (simp add: CLIENT_VERSION_def)
  then obtain ct where ct: "lt_seal lib Aes256_gcm ?auth (drop 20 random) ?z ?t = Some ct" "length ct = 32"
    "lt_open lib Aes256_gcm ?auth (drop 20 random) ?z ct = Some ?t"
    using lib_seals [OF ok, of ?auth Aes256_gcm "drop 20 random" ?t ?z] a(2) r by auto
  have "seal_session_id lib ?z ?auth sid now CLIENT_VERSION = Inr (hello_wire random ct ?E)"
    using rnd a(2) zz ct put_session_id [OF r, of "replicate 32 0" ct] by (simp add: seal_session_id_def hello_sizes Let_def)
  then have "first_flight lib idna b64 priv random now server_name pbk short_id alpn
      = Inr (\<lparr>ch_handshake = hello_wire random ct ?E, ch_private = priv\<rparr>, ?auth)"
    using p a(1) rnd(1) by (simp add: first_flight_def build_hello_wire Let_def)
  then show ?thesis using ct by (auto simp: hello_made_def)
qed

lemma first_flight_Inr:
  assumes "first_flight lib idna b64 priv random now server_name pbk short_id alpn = Inr (hello, auth)"
  shows "\<exists>public sid. decode_pbk b64 pbk = Inr public \<and> parse_short_id short_id = Inr sid"
  using assms by (auto simp: first_flight_def bind_result_Inr_iff Let_def)

lemma hello_made_read:
  assumes "tls_lib_ok lib" "length random = 32" "hello_fits (to_alabel idna server_name) alpn"
    and made: "hello_made lib idna priv random now server_name alpn (lt_public lib b) sid hello auth"
  shows "server_reads lib b (ch_handshake hello)
      = Some \<lparr>rc_name = as_bytes (to_alabel idna server_name), rc_protocols = map as_bytes alpn, rc_share = lt_public lib priv,
              rc_auth = auth, rc_token = token_text CLIENT_VERSION now sid\<rparr>"
proof -
  let ?name = "to_alabel idna server_name" and ?pub = "lt_public lib priv"
  from made obtain sealed exts where p: "exts = concat (map ext_wire (hello_exts ?name alpn ?pub))"
    "auth = lt_expand lib Sha256 (lt_hmac lib Sha256 (take 20 random) (lt_agree lib priv (lt_public lib b))) (as_bytes ''REALITY'') 32"
    "hello = \<lparr>ch_handshake = hello_wire random sealed exts, ch_private = priv\<rparr>" "length sealed = 32"
    "lt_open lib Aes256_gcm auth (drop 20 random) (hello_wire random (replicate 32 0) exts) sealed = Some (token_text CLIENT_VERSION now sid)"
    unfolding hello_made_def by blast
  have pub: "length ?pub = 32" "lt_agree lib priv (lt_public lib b) = lt_agree lib b ?pub" using assms(1) by (auto simp: tls_lib_ok_def)
  have v: "read_client_hello (ch_handshake hello)
      = Some \<lparr>hv_random = random, hv_session = sealed, hv_suites = hello_suites, hv_exts = hello_exts ?name alpn ?pub\<rparr>"
    using read_hello_wire [OF assms(2) p(4) length_exts [OF assms(3) pub(1)]] p(1,3) by simp
  have ad: "put_at 39 (replicate 32 0) (ch_handshake hello) = hello_wire random (replicate 32 0) exts"
    using put_session_id [OF assms(2) p(4)] p(3) by simp
  show "server_reads lib b (ch_handshake hello)
      = Some \<lparr>rc_name = as_bytes ?name, rc_protocols = map as_bytes alpn, rc_share = ?pub, rc_auth = auth, rc_token = token_text CLIENT_VERSION now sid\<rparr>"
    using v ad exts_found [OF assms(3) pub(1)] p(2,5) pub(2) by (simp add: server_reads_def Let_def)
qed

text \<open>
  C32: A server that holds the private key of the configured public key reads the first message as a TLS
  ClientHello with exactly the server name, the protocols and the key share of the client, agrees on
  the client's authentication key, and the session id opens to the client's version, the time and
  the short id.
\<close>

theorem reality_client_authenticates:
  assumes "tls_lib_ok lib" "length random = 32" "hello_fits (to_alabel idna server_name) alpn"
    and "decode_pbk b64 pbk = Inr (lt_public lib b)" "parse_short_id short_id = Inr sid"
  shows "\<exists>hello auth. first_flight lib idna b64 priv random now server_name pbk short_id alpn = Inr (hello, auth)
    \<and> server_reads lib b (ch_handshake hello)
      = Some \<lparr>rc_name = as_bytes (to_alabel idna server_name), rc_protocols = map as_bytes alpn, rc_share = lt_public lib priv,
              rc_auth = auth, rc_token = CLIENT_VERSION @ [0] @ to_be32 now @ sid\<rparr>"
proof -
  let ?name = "to_alabel idna server_name" and ?pub = "lt_public lib priv"
  obtain hello auth where f: "first_flight lib idna b64 priv random now server_name pbk short_id alpn = Inr (hello, auth)"
    and made: "hello_made lib idna priv random now server_name alpn (lt_public lib b) sid hello auth"
    using first_flight_made [OF assms(1,2,4,5)] by blast
  have t: "token_text CLIENT_VERSION now sid = CLIENT_VERSION @ [0] @ to_be32 now @ sid"
    using parse_short_id_length [OF assms(5)] by (simp add: token_text_def CLIENT_VERSION_def put_at_def numeral_3_eq_3 to_be32_def)
  show ?thesis using f t hello_made_read [OF assms(1-3) made] by auto
qed

text \<open>A base64 decoder for the examples, which knows one key.\<close>

definition plain_b64 :: "rstr \<Rightarrow> bytes option" where
  "plain_b64 s = Some (replicate 32 3)"

lemma plain_parts:
  "decode_pbk plain_b64 ''key'' = Inr (lt_public plain_tls_lib [9])" "parse_short_id (Some ''01aB'') = Inr [1, 171, 0, 0, 0, 0, 0, 0]"
  "to_alabel (\<lambda>h. None) ''a.com'' = ''a.com''"
  by (simp add: decode_pbk_def plain_b64_def plain_tls_lib_def) code_simp+

theorem reality_client_authenticates_witness:
  "\<exists>hello auth rc. first_flight plain_tls_lib (\<lambda>h. None) plain_b64 [8] (replicate 32 2) 5 ''a.com'' ''key'' (Some ''01aB'') [''h2''] = Inr (hello, auth)
    \<and> server_reads plain_tls_lib [9] (ch_handshake hello) = Some rc \<and> rc_name rc = as_bytes ''a.com''
    \<and> rc_token rc = [26, 3, 27, 0, 0, 0, 0, 5, 1, 171, 0, 0, 0, 0, 0, 0]"
  using reality_client_authenticates [OF plain_tls_lib_ok _ _ plain_parts(1,2), of "replicate 32 2" "\<lambda>h. None" "''a.com''" "[''h2'']" "[8]" 5]
  by (auto simp: plain_parts(3) hello_fits_def CLIENT_VERSION_def to_be32_def)

end
