(* ===== verification/RealityStream.thy ===== *)
theory RealityStream
  imports TlsRecord
begin

text \<open>
  \<^verbatim>\<open>crates/clash-proxynet/src/reality/stream.rs\<close>: the stream behind a finished REALITY handshake. The
  reader skips session tickets and empty records, the writer seals one record per call. The results:
  any chunking of the server's records is read as exactly the application data in them, and what the
  writer accepts is what a reader with the same traffic secret delivers.
\<close>

section \<open>The reading half\<close>

definition HANDSHAKE_NEW_SESSION_TICKET :: u8 where "HANDSHAKE_NEW_SESSION_TICKET = 4"
definition HANDSHAKE_KEY_UPDATE :: u8 where "HANDSHAKE_KEY_UPDATE = 24"

record reality_stream =
  rs_records :: tls_records
  rs_pending :: bytes
  rs_off :: nat
  rs_owns :: bool
  rs_close :: bool
  rs_empty :: u32

definition reality_stream_new :: "tls_records \<Rightarrow> bytes \<Rightarrow> reality_stream" where
  "reality_stream_new records leftover =
     \<lparr>rs_records = records, rs_pending = leftover, rs_off = 0, rs_owns = True, rs_close = False, rs_empty = 0\<rparr>"

definition steal_pending :: "reality_stream \<Rightarrow> bytes \<times> reality_stream" where
  "steal_pending s =
     (if length (rs_pending s) \<le> rs_off s then ([], s)
      else (drop (rs_off s) (rs_pending s), s\<lparr>rs_pending := [], rs_off := 0\<rparr>))"

text \<open>\<^verbatim>\<open>detach_transport\<close>: what has been read from the transport is put in front of it.\<close>

definition detach_transport :: "reality_stream \<Rightarrow> inner_stream \<times> reality_stream" where
  "detach_transport s =
     (case steal_inbound_leftover (rs_records s) of
        (leftover, t) \<Rightarrow>
          (if leftover = [] then tr_in t else Data leftover # tr_in t, s\<lparr>rs_owns := False, rs_records := t\<rparr>))"

definition reality_take_pending :: "nat \<Rightarrow> reality_stream \<Rightarrow> bytes \<times> reality_stream" where
  "reality_take_pending cap s =
     (if length (rs_pending s) \<le> rs_off s then ([], s)
      else
        (let rem = drop (rs_off s) (rs_pending s); n = min (length rem) cap
         in (take n rem, s\<lparr>rs_off := rs_off s + n\<rparr>)))"

text \<open>\<open>Inl\<close> after more than 64 empty records in a row.\<close>

definition count_empty :: "reality_stream \<Rightarrow> (bytes poll, reality_stream) turn" where
  "count_empty s =
     (let s = s\<lparr>rs_empty := rs_empty s + 1\<rparr> in
      if 64 < rs_empty s then Return (Failed OtherError) s else Again s)"

definition take_record :: "nat \<Rightarrow> tls_record \<Rightarrow> reality_stream \<Rightarrow> (bytes poll, reality_stream) turn" where
  "take_record cap rec s =
     (case rec of
        (ApplicationData, payload) \<Rightarrow>
          if payload \<noteq> [] then
            (case reality_take_pending cap (s\<lparr>rs_empty := 0, rs_pending := payload, rs_off := 0\<rparr>) of (bs, s) \<Rightarrow> Return (Ready bs) s)
          else count_empty s
      | (ChangeCipherSpec, payload) \<Rightarrow> count_empty s
      | (Handshake, payload) \<Rightarrow>
          (case payload of
             [] \<Rightarrow> count_empty s
           | b # _ \<Rightarrow>
               if b = HANDSHAKE_KEY_UPDATE then Return (Failed OtherError) s
               else if b = HANDSHAKE_NEW_SESSION_TICKET then count_empty s
               else Return (Failed OtherError) s)
      | (Alert, payload) \<Rightarrow>
          if 2 \<le> length payload \<and> payload ! 1 = 0 then Return (Ready []) (s\<lparr>rs_close := True\<rparr>)
          else Return (Failed OtherError) s)"

text \<open>One turn of the loop of \<^verbatim>\<open>poll_fill\<close>.\<close>

definition fill_round :: "tls_lib \<Rightarrow> nat \<Rightarrow> reality_stream \<Rightarrow> (bytes poll, reality_stream) turn" where
  "fill_round lib cap s =
     (case poll_read_record lib (rs_records s) of
        (Pending, t) \<Rightarrow> Return Pending (s\<lparr>rs_records := t\<rparr>)
      | (Failed e, t) \<Rightarrow> Return (Failed e) (s\<lparr>rs_records := t\<rparr>)
      | (Ready (Inl e), t) \<Rightarrow>
          if e = Fault ConnectionFailed then Return (Ready []) (s\<lparr>rs_records := t, rs_close := True\<rparr>)
          else Return (Failed (io_of e)) (s\<lparr>rs_records := t\<rparr>)
      | (Ready (Inr rec), t) \<Rightarrow> take_record cap rec (s\<lparr>rs_records := t\<rparr>))"

lemma count_empty_parts: "count_empty s = Again s' \<Longrightarrow> s' = s\<lparr>rs_empty := rs_empty s + 1\<rparr>"
  by (auto simp: count_empty_def Let_def split: if_splits)

lemma take_record_again: "take_record cap rec s = Again s' \<Longrightarrow> s' = s\<lparr>rs_empty := rs_empty s + 1\<rparr>"
  by (auto simp: take_record_def dest!: count_empty_parts split: prod.splits content_type.splits if_splits list.splits)

lemma fill_round_again:
  assumes "fill_round lib cap s = Again s'"
  shows "\<exists>rec t. poll_read_record lib (rs_records s) = (Ready (Inr rec), t) \<and> s' = s\<lparr>rs_records := t, rs_empty := rs_empty s + 1\<rparr>"
  using assms by (auto simp: fill_round_def dest!: take_record_again split: prod.splits poll.splits sum.splits if_splits)

lemma fill_round_takes: "fill_round lib cap s = Again s' \<Longrightarrow> input_left (rs_records s') < input_left (rs_records s)"
  using fill_round_again poll_read_record_takes by fastforce

function poll_fill :: "tls_lib \<Rightarrow> nat \<Rightarrow> reality_stream \<Rightarrow> bytes poll \<times> reality_stream" where
  "poll_fill lib cap s = (case fill_round lib cap s of Return r s \<Rightarrow> (r, s) | Again s \<Rightarrow> poll_fill lib cap s)"
  by pat_completeness auto

termination poll_fill
  by (relation "measure (\<lambda>(lib, cap, s). input_left (rs_records s))") (auto dest: fill_round_takes)

declare poll_fill.simps [simp del]

definition reality_poll_read :: "tls_lib \<Rightarrow> nat \<Rightarrow> reality_stream \<Rightarrow> bytes poll \<times> reality_stream" where
  "reality_poll_read lib cap s =
     (if cap = 0 then (Ready [], s)
      else
        (case reality_take_pending cap s of
           (bs, s) \<Rightarrow>
             if bs \<noteq> [] then (Ready bs, s)
             else if rs_close s then (Ready [], s)
             else poll_fill lib cap s))"

section \<open>The writing half\<close>

definition reality_poll_write :: "tls_lib \<Rightarrow> bytes \<Rightarrow> reality_stream \<Rightarrow> nat poll \<times> reality_stream" where
  "reality_poll_write lib buf s = (case poll_write_app lib buf (rs_records s) of (r, t) \<Rightarrow> (r, s\<lparr>rs_records := t\<rparr>))"

definition reality_poll_flush :: "reality_stream \<Rightarrow> unit poll \<times> reality_stream" where
  "reality_poll_flush s = (case poll_flush_app (rs_records s) of (r, t) \<Rightarrow> (r, s\<lparr>rs_records := t\<rparr>))"

section \<open>What the server sends\<close>

text \<open>Application data, and what the stream skips; a \<^verbatim>\<open>close_notify\<close> ends the data.\<close>

fun is_data :: "tls_msg \<Rightarrow> bool" where
  "is_data (Sealed ApplicationData p z) \<longleftrightarrow> p \<noteq> []"
| "is_data m = False"

fun is_close :: "tls_msg \<Rightarrow> bool" where
  "is_close (Sealed Alert p z) \<longleftrightarrow> 2 \<le> length p \<and> p ! 1 = 0"
| "is_close m = False"

fun is_skipped :: "tls_msg \<Rightarrow> bool" where
  "is_skipped (Sealed ApplicationData p z) \<longleftrightarrow> p = []"
| "is_skipped (Sealed ChangeCipherSpec p z) \<longleftrightarrow> True"
| "is_skipped (Sealed Handshake p z) \<longleftrightarrow> p = [] \<or> hd p = HANDSHAKE_NEW_SESSION_TICKET"
| "is_skipped (Sealed Alert p z) \<longleftrightarrow> False"
| "is_skipped (Clear ty v p) \<longleftrightarrow> ty = ChangeCipherSpec"

text \<open>\<open>k\<close> counts the records skipped since the last data.\<close>

fun server_msgs :: "record_protection option \<Rightarrow> nat \<Rightarrow> tls_msg list \<Rightarrow> bool" where
  "server_msgs ro k [] \<longleftrightarrow> True"
| "server_msgs ro k (m # ms) \<longleftrightarrow> msg_fits ro m \<and>
     (is_close m \<or> is_data m \<and> server_msgs (msg_after ro m) 0 ms
      \<or> is_skipped m \<and> k < 64 \<and> server_msgs (msg_after ro m) (Suc k) ms)"

fun server_data :: "tls_msg list \<Rightarrow> bytes" where
  "server_data [] = []"
| "server_data (m # ms) =
     (if is_close m then [] else if is_data m then snd (msg_record m) @ server_data ms else server_data ms)"

section \<open>The reader's contract\<close>

definition rs_rest :: "reality_stream \<Rightarrow> bytes" where
  "rs_rest s = drop (rs_off s) (rs_pending s)"

definition rs_owes :: "tls_lib \<Rightarrow> reality_stream \<Rightarrow> bytes \<Rightarrow> bool" where
  "rs_owes lib s pl \<longleftrightarrow>
     tls_lib_ok lib \<and> reads_ok (rs_records s)
     \<and> (if rs_close s then pl = rs_rest s
        else \<exists>k ms. rp_fits (tr_read (rs_records s)) \<and> tr_read (rs_records s) \<noteq> None
          \<and> incoming (rs_records s) = msgs_wire lib (tr_read (rs_records s)) ms
          \<and> server_msgs (tr_read (rs_records s)) k ms \<and> rs_empty s = word_of_nat k \<and> k \<le> 64
          \<and> pl = rs_rest s @ server_data ms)"

definition rs_waits :: "reality_stream \<Rightarrow> nat" where
  "rs_waits s = stream_size (tr_in (rs_records s))"

lemma take_pending_some:
  assumes "rs_rest s \<noteq> []" "0 < cap"
  shows "\<exists>bs. reality_take_pending cap s = (bs, s\<lparr>rs_off := rs_off s + length bs\<rparr>) \<and> bs \<noteq> []
    \<and> rs_rest s = bs @ rs_rest (s\<lparr>rs_off := rs_off s + length bs\<rparr>)"
proof -
  have "\<not> length (rs_pending s) \<le> rs_off s" using assms(1) by (simp add: rs_rest_def)
  then show ?thesis using assms
    by (auto simp: reality_take_pending_def rs_rest_def Let_def min_def add.commute simp flip: drop_drop)
qed

lemma take_pending_none: "rs_rest s = [] \<Longrightarrow> reality_take_pending cap s = ([], s)"
  by (simp add: reality_take_pending_def rs_rest_def)

lemma not_close_data: "is_data m \<Longrightarrow> \<not> is_close m \<and> \<not> is_skipped m" "is_skipped m \<Longrightarrow> \<not> is_close m \<and> \<not> is_data m"
  by (cases m; cases "fst (msg_record m)"; simp)+

lemma take_record_data:
  assumes "is_data m" "0 < cap"
  shows "\<exists>bs rest. snd (msg_record m) = bs @ rest \<and> bs \<noteq> [] \<and>
    take_record cap (msg_record m) s = Return (Ready bs) (s\<lparr>rs_empty := 0, rs_pending := snd (msg_record m), rs_off := length bs\<rparr>)"
proof -
  obtain p z where m: "m = Sealed ApplicationData p z" "p \<noteq> []" using assms(1) by (cases m rule: is_data.cases) simp_all
  let ?s = "s\<lparr>rs_empty := 0, rs_pending := p, rs_off := 0\<rparr>"
  obtain bs where "reality_take_pending cap ?s = (bs, ?s\<lparr>rs_off := rs_off ?s + length bs\<rparr>)" "bs \<noteq> []"
    "rs_rest ?s = bs @ rs_rest (?s\<lparr>rs_off := rs_off ?s + length bs\<rparr>)"
    using take_pending_some [of ?s cap] m(2) assms(2) by (auto simp: rs_rest_def)
  then show ?thesis using m by (auto simp: take_record_def rs_rest_def)
qed

lemma take_record_close: "is_close m \<Longrightarrow> take_record cap (msg_record m) s = Return (Ready []) (s\<lparr>rs_close := True\<rparr>)"
  by (cases m rule: is_close.cases) (simp_all add: take_record_def)

lemma take_record_skip: "is_skipped m \<Longrightarrow> take_record cap (msg_record m) s = count_empty s"
  by (cases m rule: is_skipped.cases)
    (auto simp: take_record_def HANDSHAKE_NEW_SESSION_TICKET_def HANDSHAKE_KEY_UPDATE_def split: list.splits)

lemma count_empty_small:
  assumes "rs_empty s = word_of_nat k" "k < 64"
  shows "count_empty s = Again (s\<lparr>rs_empty := word_of_nat (Suc k)\<rparr>)"
proof -
  have "rs_empty s + 1 = word_of_nat (Suc k)" using assms(1) by simp
  moreover have "\<not> 64 < (word_of_nat (Suc k) :: u32)"
    unfolding word_less_nat_alt unat_of_nat_u32 using assms(2) by simp
  ultimately show ?thesis unfolding count_empty_def Let_def by (simp del: of_nat_Suc)
qed

text \<open>The turn of \<open>poll_read\<close>: its two checks, which hold in the first turn only, then a turn of \<open>poll_fill\<close>.\<close>

definition reality_round :: "tls_lib \<Rightarrow> nat \<Rightarrow> reality_stream \<Rightarrow> (bytes poll, reality_stream) turn" where
  "reality_round lib cap s =
     (if cap = 0 then Return (Ready []) s
      else
        (case reality_take_pending cap s of
           (bs, s) \<Rightarrow>
             if bs \<noteq> [] then Return (Ready bs) s
             else if rs_close s then Return (Ready []) s
             else fill_round lib cap s))"

definition reality_good :: "tls_lib \<Rightarrow> bytes \<Rightarrow> reality_stream \<Rightarrow> (bytes poll, reality_stream) turn \<Rightarrow> bool" where
  "reality_good lib pl s x \<longleftrightarrow>
     (case x of
        Return r s' \<Rightarrow> step_delivers (rs_owes lib) rs_waits pl s r s'
      | Again s' \<Rightarrow> rs_owes lib s' pl \<and> rs_waits s' \<le> rs_waits s)"

lemma fill_round_good:
  assumes o: "rs_owes lib s pl" and rest: "rs_rest s = []" and c: "\<not> rs_close s" and cap: "0 < cap"
  shows "reality_good lib pl s (fill_round lib cap s)"
proof -
  let ?t = "rs_records s"
  obtain k ms where h: "tls_lib_ok lib" "reads_ok ?t" "rp_fits (tr_read ?t)" "tr_read ?t \<noteq> None"
    "incoming ?t = msgs_wire lib (tr_read ?t) ms" "server_msgs (tr_read ?t) k ms" "rs_empty s = word_of_nat k" "k \<le> 64" "pl = server_data ms"
    using o c rest unfolding rs_owes_def by auto
  obtain r u where p: "poll_read_record lib ?t = (r, u)" by fastforce
  show ?thesis
  proof (cases ms)
    case Nil
    then have "incoming ?t = []" using h(5) by simp
    note e = poll_read_record_end [OF h(2) this p]
    then consider "r = Pending" "stream_size (tr_in u) < stream_size (tr_in ?t)" | "r = Ready (Inl (Fault ConnectionFailed))" by blast
    then show ?thesis
    proof cases
      case 1
      have "rs_owes lib (s\<lparr>rs_records := u\<rparr>) pl"
        using e h Nil c rest by (auto simp: rs_owes_def rs_rest_def intro!: exI [of _ k] exI [of _ "[]"])
      then show ?thesis using 1 p by (simp add: fill_round_def reality_good_def step_delivers_def rs_waits_def)
    next
      case 2
      then show ?thesis using p e h Nil rest
        by (simp add: fill_round_def reality_good_def step_delivers_def rs_waits_def rs_owes_def rs_rest_def)
    qed
  next
    case (Cons m ms')
    have fits: "msg_fits (tr_read ?t) m" using h(6) Cons by simp
    have wire: "incoming ?t = msg_wire lib (tr_read ?t) m @ msgs_wire lib (msg_after (tr_read ?t) m) ms'" using h(5) Cons by simp
    note po = poll_read_record_polled [OF h(1,3) fits h(2) wire p]
    have keyed: "rp_fits (msg_after (tr_read ?t) m)" "msg_after (tr_read ?t) m \<noteq> None"
      using h(3,4) by simp_all
    from po consider "r = Pending" "tr_read u = tr_read ?t" "incoming u = incoming ?t" "stream_size (tr_in u) < stream_size (tr_in ?t)"
      | "r = Ready (Inr (msg_record m))" "tr_read u = msg_after (tr_read ?t) m" "incoming u = msgs_wire lib (msg_after (tr_read ?t) m) ms'"
      unfolding polled_def by blast
    then show ?thesis
    proof cases
      case 1
      have "rs_owes lib (s\<lparr>rs_records := u\<rparr>) pl"
        using 1 po h c rest by (auto simp: rs_owes_def rs_rest_def polled_def intro!: exI [of _ k] exI [of _ ms])
      then show ?thesis using 1 p by (simp add: fill_round_def reality_good_def step_delivers_def rs_waits_def)
    next
      case 2
      let ?s = "s\<lparr>rs_records := u\<rparr>"
      have u: "reads_ok u" "stream_size (tr_in u) \<le> stream_size (tr_in ?t)" using po by (simp_all add: polled_def)
      have x: "fill_round lib cap s = take_record cap (msg_record m) ?s" using p 2(1) by (simp add: fill_round_def)
      have "is_close m \<or> is_data m \<and> server_msgs (msg_after (tr_read ?t) m) 0 ms'
          \<or> is_skipped m \<and> k < 64 \<and> server_msgs (msg_after (tr_read ?t) m) (Suc k) ms'"
        using h(6) Cons by simp
      then consider (close) "is_close m" | (data) "is_data m" "server_msgs (tr_read u) 0 ms'"
        | (skip) "is_skipped m" "k < 64" "server_msgs (tr_read u) (Suc k) ms'"
        unfolding 2(2) by blast
      then show ?thesis
      proof cases
        case close
        then show ?thesis using x take_record_close h(1,9) u Cons rest
          by (simp add: reality_good_def step_delivers_def rs_owes_def rs_waits_def rs_rest_def)
      next
        case data
        obtain bs w where b: "snd (msg_record m) = bs @ w" "bs \<noteq> []"
          "take_record cap (msg_record m) ?s = Return (Ready bs) (?s\<lparr>rs_empty := 0, rs_pending := bs @ w, rs_off := length bs\<rparr>)"
          using take_record_data [OF data(1) cap, of ?s] by metis
        let ?s' = "?s\<lparr>rs_empty := 0, rs_pending := bs @ w, rs_off := length bs\<rparr>"
        have "pl = bs @ (w @ server_data ms')" using h(9) Cons b(1) not_close_data(1) [OF data(1)] data(1) by simp
        moreover have "rs_owes lib ?s' (w @ server_data ms')"
          unfolding rs_owes_def using h(1) u(1) 2 keyed data(2) c
          by (auto simp: rs_rest_def intro!: exI [of _ 0] exI [of _ ms'])
        ultimately show ?thesis unfolding x b(3) using b(2) u(2)
          by (auto simp: reality_good_def step_delivers_def rs_waits_def)
      next
        case skip
        let ?s' = "?s\<lparr>rs_empty := word_of_nat (Suc k)\<rparr>"
        have "fill_round lib cap s = Again ?s'"
          unfolding x take_record_skip [OF skip(1)] using count_empty_small [of ?s k] h(7) skip(2) by simp
        moreover have "rs_owes lib ?s' pl"
          unfolding rs_owes_def using h(1,9) u(1) 2 keyed skip c rest Cons not_close_data(2) [OF skip(1)]
          by (auto simp: rs_rest_def simp del: of_nat_Suc intro!: exI [of _ "Suc k"] exI [of _ ms'])
        ultimately show ?thesis using u(2) by (simp add: reality_good_def rs_waits_def)
      qed
    qed
  qed
qed

lemma reality_round_good:
  assumes "rs_owes lib s pl" "0 < cap"
  shows "reality_good lib pl s (reality_round lib cap s)"
proof (cases "rs_rest s = []")
  case True
  note t = take_pending_none [OF True, of cap]
  show ?thesis
  proof (cases "rs_close s")
    case True
    then show ?thesis using t assms \<open>rs_rest s = []\<close> by (simp add: reality_round_def reality_good_def step_delivers_def rs_owes_def)
  next
    case False
    then show ?thesis using t assms fill_round_good [OF assms(1) True False assms(2)] by (simp add: reality_round_def)
  qed
next
  case False
  obtain bs where bs: "reality_take_pending cap s = (bs, s\<lparr>rs_off := rs_off s + length bs\<rparr>)" "bs \<noteq> []"
    "rs_rest s = bs @ rs_rest (s\<lparr>rs_off := rs_off s + length bs\<rparr>)"
    using take_pending_some [OF False assms(2)] by blast
  let ?s = "s\<lparr>rs_off := rs_off s + length bs\<rparr>"
  have "\<exists>pl'. pl = bs @ pl' \<and> rs_owes lib ?s pl'"
  proof (cases "rs_close s")
    case True
    then show ?thesis using assms(1) bs(3) by (auto simp: rs_owes_def)
  next
    case nc: False
    then obtain k ms where "rp_fits (tr_read (rs_records s))" "tr_read (rs_records s) \<noteq> None"
      "incoming (rs_records s) = msgs_wire lib (tr_read (rs_records s)) ms" "server_msgs (tr_read (rs_records s)) k ms"
      "rs_empty s = word_of_nat k" "k \<le> 64" "pl = rs_rest s @ server_data ms" "tls_lib_ok lib" "reads_ok (rs_records s)"
      using assms(1) unfolding rs_owes_def by auto
    then show ?thesis using nc bs(3)
      by (intro exI [of _ "rs_rest ?s @ server_data ms"]) (auto simp: rs_owes_def intro!: exI [of _ k] exI [of _ ms])
  qed
  then show ?thesis using bs assms(2) by (simp add: reality_round_def reality_good_def step_delivers_def rs_waits_def)
qed

lemma reality_round_again:
  assumes "reality_round lib cap s = Again s'"
  shows "0 < cap" "fill_round lib cap s = Again s'" "reality_take_pending cap s = ([], s)" "\<not> rs_close s"
    "reality_take_pending cap s' = ([], s')" "\<not> rs_close s'"
proof -
  have a: "0 < cap" "fst (reality_take_pending cap s) = []"
    using assms by (auto simp: reality_round_def split: prod.splits if_splits)
  have r: "rs_rest s = []"
    using a take_pending_some [of s cap] by fastforce
  then show t: "reality_take_pending cap s = ([], s)" by (rule take_pending_none)
  then show f: "fill_round lib cap s = Again s'" and c: "\<not> rs_close s" and "0 < cap"
    using assms by (auto simp: reality_round_def split: if_splits)
  show "reality_take_pending cap s' = ([], s')" "\<not> rs_close s'"
    using fill_round_again [OF f] r c take_pending_none [of s' cap] by (auto simp: rs_rest_def)
qed

interpretation reality_reader: reader_rounds "reality_round lib" "reality_poll_read lib" "rs_owes lib" rs_waits
  "measure (\<lambda>s. input_left (rs_records s))" for lib
proof (unfold_locales, goal_cases)
  case (2 cap s r s')
  then show ?case
    by (cases "reality_take_pending cap s") (auto simp: reality_round_def reality_poll_read_def poll_fill.simps split: if_splits)
next
  case (3 cap s s')
  note a = reality_round_again [OF 3]
  then show ?case by (simp add: reality_poll_read_def poll_fill.simps [of lib cap s])
next
  case (4 s pl cap r s')
  then show ?case using reality_round_good [of lib s pl cap] by (simp add: reality_good_def)
next
  case (5 s pl cap s')
  then show ?case using reality_round_good [of lib s pl cap] fill_round_takes reality_round_again(2) [OF 5(3)]
    by (simp add: reality_good_def)
qed simp

section \<open>The writer's contract\<close>

definition keys_after :: "record_protection option \<Rightarrow> tls_msg list \<Rightarrow> record_protection option" where
  "keys_after ro ms = foldl msg_after ro ms"

lemma msgs_wire_append: "msgs_wire lib ro (ms @ ns) = msgs_wire lib ro ms @ msgs_wire lib (keys_after ro ms) ns"
  by (induction ms arbitrary: ro) (simp_all add: keys_after_def)

lemma keys_after_append: "keys_after ro (ms @ ns) = keys_after (keys_after ro ms) ns"
  by (simp add: keys_after_def)

lemma keys_after_fits [simp]: "rp_fits ro \<Longrightarrow> rp_fits (keys_after ro ms)"
  by (induction ms arbitrary: ro) (simp_all add: keys_after_def)

lemma keys_after_some [simp]: "keys_after ro ms = None \<longleftrightarrow> ro = None"
  by (induction ms arbitrary: ro) (simp_all add: keys_after_def)

text \<open>A record of the writer.\<close>

definition data_msg :: "tls_msg \<Rightarrow> bool" where
  "data_msg m \<longleftrightarrow> (\<exists>p. m = Sealed ApplicationData p 0 \<and> p \<noteq> [] \<and> length p \<le> MAX_PLAINTEXT)"

lemma data_msgs_served:
  "list_all data_msg ms \<Longrightarrow> ro \<noteq> None \<Longrightarrow> server_msgs ro k ms"
  by (induction ms arbitrary: ro k) (auto simp: data_msg_def record_sizes)

lemma server_data_append: "list_all data_msg ms \<Longrightarrow> server_data (ms @ ns) = server_data ms @ server_data ns"
  by (induction ms) (auto simp: data_msg_def)

definition rw_sent :: "tls_lib \<Rightarrow> record_protection \<Rightarrow> reality_stream \<Rightarrow> bytes \<Rightarrow> bytes \<Rightarrow> bool" where
  "rw_sent lib rp s acc w \<longleftrightarrow>
     (\<exists>ms. list_all data_msg ms \<and> tr_write (rs_records s) = keys_after (Some rp) ms \<and> acc = server_data ms
        \<and> w = msgs_wire lib (Some rp) ms)"

definition rw_out :: "reality_stream \<Rightarrow> sink" where
  "rw_out s = tr_sink (rs_records s)"

definition rw_idle :: "tls_lib \<Rightarrow> record_protection \<Rightarrow> reality_stream \<Rightarrow> bytes \<Rightarrow> bool" where
  "rw_idle lib rp s acc \<longleftrightarrow> tr_outbound (rs_records s) = [] \<and> rw_sent lib rp s acc (written (rw_out s))"

definition rw_mid :: "tls_lib \<Rightarrow> record_protection \<Rightarrow> reality_stream \<Rightarrow> bytes \<Rightarrow> bytes \<Rightarrow> bool" where
  "rw_mid lib rp s acc data \<longleftrightarrow>
     (let t = rs_records s in
      tr_outbound t \<noteq> [] \<and> tr_off t \<le> length (tr_outbound t) \<and> 0 < tr_plain t \<and> tr_plain t \<le> length data
      \<and> rw_sent lib rp s (acc @ take (tr_plain t) data) (written (tr_sink t) @ drop (tr_off t) (tr_outbound t)))"

abbreviation rw_delivers :: "tls_lib \<Rightarrow> record_protection \<Rightarrow> bytes \<Rightarrow> bytes \<Rightarrow> reality_stream \<Rightarrow> nat poll \<Rightarrow> reality_stream \<Rightarrow> bool" where
  "rw_delivers lib rp \<equiv> write_delivers (rw_idle lib rp) (rw_mid lib rp) rw_out"

lemma written_out_delivers:
  assumes "rw_mid lib rp s acc data" "tr_off (rs_records s) = length (tr_outbound (rs_records s))"
    and "written_out (rs_records s) = (r, t)"
  shows "rw_delivers lib rp acc data s r (s\<lparr>rs_records := t\<rparr>)"
  using assms by (auto simp: written_out_def rw_mid_def Let_def write_delivers_def rw_idle_def rw_out_def rw_sent_def)

lemma write_staged_delivers:
  assumes m: "rw_mid lib rp s acc data" and w: "write_staged (rs_records s) = (r, t)"
  shows "rw_delivers lib rp acc data s r (s\<lparr>rs_records := t\<rparr>)"
proof -
  let ?t = "rs_records s" and ?buf = "tr_outbound (rs_records s)"
  obtain q off k where f: "flush_from WriteZero ?buf (tr_off ?t) (tr_sink ?t) = (q, off, k)" by (metis prod_cases3)
  have le: "tr_off ?t \<le> length ?buf" using m by (simp add: rw_mid_def Let_def)
  have fl: "flushed ?buf (tr_off ?t) (tr_sink ?t) q off k" by (rule flush_from_flushed [OF f le])
  let ?u = "?t\<lparr>tr_off := off, tr_sink := k\<rparr>"
  let ?v = "s\<lparr>rs_records := ?u\<rparr>"
  have "drop (tr_off ?t) ?buf = slice (tr_off ?t) off ?buf @ drop off ?buf"
    using fl append_take_drop_id [of "off - tr_off ?t" "drop (tr_off ?t) ?buf"] by (simp add: slice_def flushed_def)
  then have mid: "rw_mid lib rp ?v acc data"
    using m fl by (auto simp: rw_mid_def Let_def rw_sent_def flushed_def)
  have p: "push_outbound ?t = (q, ?u)" using f by (simp add: push_outbound_def)
  show ?thesis
  proof (cases q)
    case (Ready a)
    then have "written_out (rs_records ?v) = (r, t)" using w p by (simp add: write_staged_def)
    moreover have "tr_off ?u = length (tr_outbound ?u)" using fl Ready by (simp add: flushed_def)
    ultimately have "rw_delivers lib rp acc data ?v r (?v\<lparr>rs_records := t\<rparr>)" using written_out_delivers [OF mid] by simp
    then have "rw_delivers lib rp acc data ?v r (s\<lparr>rs_records := t\<rparr>)" by simp
    then show ?thesis by (rule write_delivers_weaken) (use fl in \<open>simp_all add: rw_out_def flushed_def\<close>)
  next
    case Pending
    then show ?thesis using w p mid fl by (auto simp: write_staged_def write_delivers_def rw_out_def flushed_def)
  next
    case (Failed e)
    then show ?thesis using w p fl by (auto simp: write_staged_def write_delivers_def rw_out_def flushed_def)
  qed
qed

definition rw_fits :: "tls_lib \<Rightarrow> record_protection \<Rightarrow> bytes \<Rightarrow> bool" where
  "rw_fits lib rp data \<longleftrightarrow> tls_lib_ok lib \<and> rp_fits (Some rp)"

lemma stage_data_mid:
  assumes ok: "rw_fits lib rp data" and i: "rw_idle lib rp s acc" and d: "data \<noteq> []" and n: "n = min (length data) MAX_PLAINTEXT"
  shows "\<exists>out t. stage_record lib ApplicationData (take n data) (rs_records s) = Inr (out, t)
    \<and> rw_mid lib rp (s\<lparr>rs_records := t\<lparr>tr_outbound := out, tr_off := 0, tr_plain := n\<rparr>\<rparr>) acc data \<and> tr_sink t = tr_sink (rs_records s)"
proof -
  obtain ms where ms: "list_all data_msg ms" "tr_write (rs_records s) = keys_after (Some rp) ms" "acc = server_data ms"
    "written (tr_sink (rs_records s)) = msgs_wire lib (Some rp) ms"
    using i by (auto simp: rw_idle_def rw_sent_def rw_out_def)
  have "keys_after (Some rp) ms \<noteq> None" by simp
  then obtain rq where rq: "keys_after (Some rp) ms = Some rq" by blast
  have fits: "tls_lib_ok lib" "rp_fits (Some rq)" using ok keys_after_fits [of "Some rp" ms] rq by (simp_all add: rw_fits_def)
  let ?m = "Sealed ApplicationData (take n data) 0"
  have n1: "0 < n" "n \<le> length data" "length (take n data) \<le> MAX_PLAINTEXT" using d n by (auto simp: record_sizes)
  have st: "stage_record lib ApplicationData (take n data) (rs_records s)
      = Inr (msg_wire lib (Some rq) ?m, (rs_records s)\<lparr>tr_write := msg_after (Some rq) ?m\<rparr>)"
    using stage_sealed [OF fits _ n1(3), of "rs_records s" ApplicationData] ms(2) rq by simp
  have dm: "data_msg ?m" using n1 d by (auto simp: data_msg_def)
  have "rw_sent lib rp (s\<lparr>rs_records := (rs_records s)\<lparr>tr_write := msg_after (Some rq) ?m, tr_outbound := msg_wire lib (Some rq) ?m,
      tr_off := 0, tr_plain := n\<rparr>\<rparr>) (acc @ take n data) (written (tr_sink (rs_records s)) @ msg_wire lib (Some rq) ?m)"
    unfolding rw_sent_def using ms dm rq n1 d
    by (intro exI [of _ "ms @ [?m]"]) (simp add: keys_after_append msgs_wire_append server_data_append keys_after_def)
  moreover have "msg_wire lib (Some rq) ?m \<noteq> []" by (simp add: sealed_header_def)
  ultimately show ?thesis unfolding st using n1 by (auto simp: rw_mid_def Let_def)
qed

lemma reality_write_step:
  assumes "rw_idle lib rp s acc \<or> rw_mid lib rp s acc data" "data \<noteq> []" "rw_fits lib rp data" "reality_poll_write lib data s = (r, s')"
  shows "rw_delivers lib rp acc data s r s'"
proof -
  let ?t = "rs_records s"
  obtain t where p: "poll_write_app lib data ?t = (r, t)" "s' = s\<lparr>rs_records := t\<rparr>"
    using assms(4) by (auto simp: reality_poll_write_def split: prod.splits)
  show ?thesis
  proof (cases "tr_outbound ?t = []")
    case True
    then have i: "rw_idle lib rp s acc" using assms(1) by (auto simp: rw_mid_def Let_def)
    define n where "n = min (length data) MAX_PLAINTEXT"
    obtain out u where u: "stage_record lib ApplicationData (take n data) ?t = Inr (out, u)"
      "rw_mid lib rp (s\<lparr>rs_records := u\<lparr>tr_outbound := out, tr_off := 0, tr_plain := n\<rparr>\<rparr>) acc data" "tr_sink u = tr_sink ?t"
      using stage_data_mid [OF assms(3) i assms(2) n_def] by blast
    let ?u = "u\<lparr>tr_outbound := out, tr_off := 0, tr_plain := n\<rparr>"
    have "write_staged (rs_records (s\<lparr>rs_records := ?u\<rparr>)) = (r, t)"
      using p(1) True assms(2) u(1) by (simp add: poll_write_app_def Let_def n_def)
    then have "rw_delivers lib rp acc data (s\<lparr>rs_records := ?u\<rparr>) r s'"
      using write_staged_delivers [OF u(2)] p(2) by fastforce
    then show ?thesis by (rule write_delivers_same_sink) (simp add: rw_out_def u(3))
  next
    case False
    then have m: "rw_mid lib rp s acc data" using assms(1) by (auto simp: rw_idle_def)
    show ?thesis
    proof (cases "length (tr_outbound ?t) \<le> tr_off ?t")
      case True
      then have "written_out ?t = (r, t)" using p(1) False by (simp add: poll_write_app_def)
      moreover have "tr_off ?t = length (tr_outbound ?t)" using m True by (simp add: rw_mid_def Let_def)
      ultimately show ?thesis using written_out_delivers [OF m] p(2) by blast
    next
      case short: False
      then have "write_staged ?t = (r, t)" using p(1) by (simp add: poll_write_app_def)
      then show ?thesis using write_staged_delivers [OF m] p(2) by blast
    qed
  qed
qed

interpretation reality_writer: layered_writer "\<lambda>(u :: unit). reality_poll_write lib" "rw_idle lib rp" "rw_mid lib rp" rw_out "rw_fits lib rp" for lib rp
proof (unfold_locales, goal_cases)
  case (1 s acc data rnd r s')
  then show ?case using reality_write_step by blast
next
  case (2 data n)
  then show ?case by (simp add: rw_fits_def)
qed

section \<open>Both ends\<close>

lemma protection_new_fits:
  assumes "tls_lib_ok lib" "protection_new lib suite traffic = Inr rp"
  shows "rp_fits (Some rp)"
  using assms by (auto simp: protection_new_def traffic_keys_def expand_label_def hkdf_expand_def bind_result_Inr_iff rp_fits_def
      Let_def tls_lib_ok_def NONCE_LEN_def split: if_splits)

lemma tls_records_new_ok:
  "unbroken es \<Longrightarrow> reads_ok (tls_records_new es k\<lparr>tr_read := ro\<rparr>)"
  "incoming (tls_records_new es k\<lparr>tr_read := ro\<rparr>) = arriving es"
  by (simp_all add: reads_ok_def tr_ok_def incoming_def unread_def slice_def tls_records_new_def)

text \<open>The two ends of one direction: one writes with the keys of a traffic secret, the other reads with them.\<close>

definition writing_end :: "record_protection \<Rightarrow> sink \<Rightarrow> reality_stream" where
  "writing_end rp k = reality_stream_new (tls_records_new [] k\<lparr>tr_write := Some rp\<rparr>) []"

definition reading_end :: "record_protection \<Rightarrow> inner_stream \<Rightarrow> reality_stream" where
  "reading_end rp es = reality_stream_new (tls_records_new es \<lparr>slots = [], written = []\<rparr>\<lparr>tr_read := Some rp\<rparr>) []"

text \<open>
  C35: What is written through a REALITY stream is exactly what the other end reads with the keys of the
  same traffic secret, however the socket splits what it takes or gives and whatever the sizes of the
  reads; the writer ends and does not fail on a working socket.
\<close>

theorem reality_roundtrip:
  assumes "tls_lib_ok lib" "protection_new lib suite traffic = Inr rp"
    and "written k = []" "sink_good k" "data \<noteq> []" "length data + length (slots k) < fuel"
  shows "\<exists>s. offer_all (\<lambda>_. reality_poll_write lib) fuel (\<lambda>_. ()) data (writing_end rp k) = (Some True, s)
    \<and> (\<forall>es caps. unbroken es \<and> arriving es = written (tr_sink (rs_records s)) \<and> (\<forall>n \<in> set caps. 0 < n)
        \<and> length data + stream_size es < length caps \<longrightarrow>
        delivered (fst (read_many (reality_poll_read lib) caps (reading_end rp es))) = data)"
proof -
  have fits: "rp_fits (Some rp)" by (rule protection_new_fits [OF assms(1,2)])
  have out: "rw_out (writing_end rp k) = k" by (simp add: rw_out_def writing_end_def reality_stream_new_def tls_records_new_def)
  have "rw_sent lib rp (writing_end rp k) [] []"
    unfolding rw_sent_def by (intro exI [of _ "[]"]) (simp add: writing_end_def reality_stream_new_def keys_after_def)
  then have i: "rw_idle lib rp (writing_end rp k) []"
    using assms(3) out by (simp add: rw_idle_def) (simp add: writing_end_def reality_stream_new_def tls_records_new_def)
  obtain s where s: "offer_all (\<lambda>_. reality_poll_write lib) fuel (\<lambda>_. ()) data (writing_end rp k) = (Some True, s)" "rw_idle lib rp s data"
    using reality_writer.write_all_succeeds [OF i _ assms(5), of fuel "\<lambda>_. ()"] assms(1,4,6) fits out by (auto simp: rw_fits_def)
  obtain ms where ms: "list_all data_msg ms" "data = server_data ms" "written (tr_sink (rs_records s)) = msgs_wire lib (Some rp) ms"
    using s(2) by (auto simp: rw_idle_def rw_sent_def rw_out_def)
  have "delivered (fst (read_many (reality_poll_read lib) caps (reading_end rp es))) = data"
    if e: "unbroken es" "arriving es = written (tr_sink (rs_records s))" "\<forall>n \<in> set caps. 0 < n" "length data + stream_size es < length caps"
    for es caps
  proof -
    let ?r = "reading_end rp es"
    have r: "reads_ok (rs_records ?r)" "incoming (rs_records ?r) = msgs_wire lib (Some rp) ms" "tr_read (rs_records ?r) = Some rp"
      "tr_in (rs_records ?r) = es" "rs_rest ?r = []" "\<not> rs_close ?r" "rs_empty ?r = word_of_nat 0"
      using tls_records_new_ok e(1,2) ms(3)
      by (simp_all add: reading_end_def reality_stream_new_def rs_rest_def) (simp add: tls_records_new_def)
    have "rs_owes lib ?r data"
      unfolding rs_owes_def using r fits assms(1) ms(2) data_msgs_served [OF ms(1), of "Some rp" 0]
      by (auto intro!: exI [of _ 0] exI [of _ ms])
    moreover obtain rs v where rs: "read_many (reality_poll_read lib) caps ?r = (rs, v)" by fastforce
    ultimately have "delivered rs = data"
      using reality_reader.read_to_end(4) [of lib ?r data caps rs v] e(3,4) r(4) by (simp add: rs_waits_def)
    then show ?thesis using rs by simp
  qed
  then show ?thesis using s(1) by blast
qed

subsection \<open>Examples\<close>

definition plain_keys :: record_protection where
  "plain_keys = \<lparr>rp_iv = replicate 12 5, rp_aead = Aes128_gcm, rp_key = replicate 16 5, rp_seq = 0\<rparr>"

lemma plain_keys_new: "protection_new plain_tls_lib \<lparr>su_hash = Sha256, su_key_len = 16, su_chacha = False\<rparr> (replicate 32 5) = Inr plain_keys"
  by (simp add: protection_new_def traffic_keys_def expand_label_def hkdf_expand_def plain_tls_lib_def plain_keys_def NONCE_LEN_def)

theorem reality_roundtrip_witness:
  "\<exists>s. offer_all (\<lambda>_. reality_poll_write plain_tls_lib) 10 (\<lambda>_. ()) [1, 2, 3] (writing_end plain_keys \<lparr>slots = [Accept 2, Block], written = []\<rparr>) = (Some True, s)
    \<and> delivered (fst (read_many (reality_poll_read plain_tls_lib) (replicate (9 + length (written (tr_sink (rs_records s)))) 2)
        (reading_end plain_keys [Data (take 7 (written (tr_sink (rs_records s)))), Wait, Data (drop 7 (written (tr_sink (rs_records s))))]))) = [1, 2, 3]"
proof -
  obtain s where s: "offer_all (\<lambda>_. reality_poll_write plain_tls_lib) 10 (\<lambda>_. ()) [1, 2, 3] (writing_end plain_keys \<lparr>slots = [Accept 2, Block], written = []\<rparr>) = (Some True, s)"
    "\<forall>es caps. unbroken es \<and> arriving es = written (tr_sink (rs_records s)) \<and> (\<forall>n \<in> set caps. 0 < n)
        \<and> length [1 :: u8, 2, 3] + stream_size es < length caps \<longrightarrow>
        delivered (fst (read_many (reality_poll_read plain_tls_lib) caps (reading_end plain_keys es))) = [1, 2, 3]"
    using reality_roundtrip [OF plain_tls_lib_ok plain_keys_new, of "\<lparr>slots = [Accept 2, Block], written = []\<rparr>" "[1, 2, 3]" 10]
    by (auto simp: sink_good_def)
  show ?thesis
    by (rule exI [of _ s], rule conjI [OF s(1)], rule s(2) [rule_format]) (simp add: unbroken_def)
qed

section \<open>Where the stream does not do what it should\<close>

text \<open>A transport that breaks is reported as the end of the data, not as an error.\<close>

lemma broken_transport_ends_cleanly:
  assumes "rs_rest s = []" "\<not> rs_close s" "tr_ok (rs_records s)" "length (unread (rs_records s)) < 5" "tr_in (rs_records s) = Broken # es" "0 < cap"
  shows "fst (reality_poll_read lib cap s) = Ready []"
  using assms take_pending_none [OF assms(1), of cap] try_read_short [OF assms(3,4), of lib]
  by (simp add: reality_poll_read_def poll_fill.simps fill_round_def poll_read_record_def)

text \<open>And so is a connection that is closed in the middle of a record: data can be cut off unnoticed.\<close>

lemma truncated_record_ends_cleanly:
  assumes "rs_rest s = []" "\<not> rs_close s" "tr_ok (rs_records s)" "length (unread (rs_records s)) < 5" "tr_in (rs_records s) = []" "0 < cap"
  shows "fst (reality_poll_read lib cap s) = Ready []"
  using assms take_pending_none [OF assms(1), of cap] try_read_short [OF assms(3,4), of lib]
  by (simp add: reality_poll_read_def poll_fill.simps fill_round_def poll_read_record_def)

text \<open>A record that \<^verbatim>\<open>poll_flush\<close> has sent is still reported by the next \<^verbatim>\<open>poll_write\<close>, whatever data that is given:
  none of it is sent.\<close>

lemma write_after_flush_drops:
  assumes "tr_outbound (rs_records s) \<noteq> []" "length (tr_outbound (rs_records s)) \<le> tr_off (rs_records s)"
  shows "\<exists>s'. reality_poll_write lib data s = (Ready (tr_plain (rs_records s)), s') \<and> tr_sink (rs_records s') = tr_sink (rs_records s)"
  using assms by (simp add: reality_poll_write_def poll_write_app_def written_out_def)

end
