(* ===== verification/RealityServer.thy ===== *)
theory RealityServer
  imports RealityHandshake
begin

text \<open>
  A genuine REALITY server and the client's handshake with it. The server's messages are built here from
  its own keys; they are cut into records and the records into packets at will. The client's handshake
  then succeeds, and the stream it returns delivers the server's application data.
\<close>

section \<open>Handshake messages\<close>

definition hs_wire :: "u8 \<Rightarrow> bytes \<Rightarrow> bytes" where
  "hs_wire ty body = ty # vec P24 body"

definition small_body :: "bytes \<Rightarrow> bool" where
  "small_body body \<longleftrightarrow> length body < 16777216"

lemma hs_wire_length: "small_body body \<Longrightarrow> length (hs_wire ty body) = 4 + length body"
  by (simp add: hs_wire_def)

lemma length_field24:
  assumes "n < 16777216"
  shows "unat (length_field P24 n ! 0) * 65536 + unat (length_field P24 n ! 1) * 256 + unat (length_field P24 n ! 2) = n"
  using be_value_length_field [of n P24] assms by (simp add: be_value_def)

lemma try_take_wire:
  assumes "small_body body" "hr_buf r = hs_wire ty body @ R"
  shows "try_take r = Some (\<lparr>hm_ty = ty, hm_raw = hs_wire ty body, hm_body = body\<rparr>, r\<lparr>hr_buf := R\<rparr>)"
proof -
  let ?w = "hs_wire ty body"
  have l: "length ?w = 4 + length body" by (simp add: hs_wire_def)
  have "unat (hr_buf r ! 1) * 65536 + unat (hr_buf r ! 2) * 256 + unat (hr_buf r ! 3) = length body"
    using length_field24 [of "length body"] assms by (simp add: hs_wire_def vec_def small_body_def)
  moreover have "take (4 + length body) (hr_buf r) = ?w" "drop (4 + length body) (hr_buf r) = R" using assms(2) l by simp_all
  moreover have "?w ! 0 = ty" "drop 4 ?w = body" by (simp_all add: hs_wire_def vec_def)
  moreover have "\<not> length (hr_buf r) < 4 + length body" using assms(2) l by simp
  ultimately show ?thesis by (simp add: try_take_def Let_def)
qed

lemma try_take_short:
  assumes "small_body body" "hr_buf r @ x = hs_wire ty body @ R" "length (hr_buf r) < length (hs_wire ty body)"
  shows "try_take r = None"
proof (cases "length (hr_buf r) < 4")
  case False
  have "take 4 (hr_buf r @ x) = take 4 (hs_wire ty body @ R)" using assms(2) by simp
  then have t: "take 4 (hr_buf r) = ty # length_field P24 (length body)" using False by (simp add: hs_wire_def vec_def)
  have n: "hr_buf r ! i = (ty # length_field P24 (length body)) ! i" if "i < 4" for i
    using that arg_cong [OF t, of "\<lambda>l. l ! i"] by simp
  have "unat (hr_buf r ! 1) * 65536 + unat (hr_buf r ! 2) * 256 + unat (hr_buf r ! 3) = length body"
    using n [of 1] n [of 2] n [of 3] length_field24 [of "length body"] assms(1) by (simp add: small_body_def)
  then show ?thesis using assms(1,3) False by (simp add: try_take_def Let_def hs_wire_length)
qed (simp add: try_take_def Let_def)

section \<open>Records that carry messages\<close>

text \<open>The handshake records concatenate to \<open>raw\<close>; other than these only change-cipher-spec records, in front of them.\<close>

fun carries :: "record_protection option \<Rightarrow> tls_msg list \<Rightarrow> bytes \<Rightarrow> bool" where
  "carries ro [] raw \<longleftrightarrow> raw = []"
| "carries ro (m # ms) raw \<longleftrightarrow> raw \<noteq> [] \<and> msg_fits ro m \<and>
     (case msg_record m of
        (ChangeCipherSpec, p) \<Rightarrow> carries (msg_after ro m) ms raw
      | (Handshake, p) \<Rightarrow> p \<noteq> [] \<and> (\<exists>raw'. raw = p @ raw' \<and> carries (msg_after ro m) ms raw')
      | _ \<Rightarrow> False)"

text \<open>The client is about to put together the messages \<open>raws\<close>; \<open>y\<close> comes behind them.\<close>

definition hs_state :: "tls_lib \<Rightarrow> tls_records \<Rightarrow> hs_reader \<Rightarrow> bytes \<Rightarrow> bytes \<Rightarrow> bool" where
  "hs_state lib s r raws y \<longleftrightarrow> reads_ok s \<and> roomy s \<and> rp_fits (tr_read s) \<and>
     (\<exists>ms raw. incoming s = msgs_wire lib (tr_read s) ms @ y \<and> carries (tr_read s) ms raw \<and> hr_buf r @ raw = raws)"

definition hs_kept :: "tls_records \<Rightarrow> hs_reader \<Rightarrow> tls_records \<Rightarrow> hs_reader \<Rightarrow> bool" where
  "hs_kept s r s' r' \<longleftrightarrow> same_writer s s' \<and> hr_leftover r' = hr_leftover r \<and> stream_size (tr_in s') \<le> stream_size (tr_in s)"

lemma hs_kept_trans: "hs_kept s r t q \<Longrightarrow> hs_kept t q u p \<Longrightarrow> hs_kept s r u p"
  by (auto simp: hs_kept_def same_writer_def)

lemma hs_next_carried:
  assumes "tls_lib_ok lib" "small_body body"
  shows "reads_ok s \<Longrightarrow> roomy s \<Longrightarrow> rp_fits (tr_read s) \<Longrightarrow> incoming s = msgs_wire lib (tr_read s) ms @ y \<Longrightarrow>
    carries (tr_read s) ms raw \<Longrightarrow> hr_buf r @ raw = hs_wire ty body @ R \<Longrightarrow>
    \<exists>r' s'. hs_next lib r s = (Inr (\<lparr>hm_ty = ty, hm_raw = hs_wire ty body, hm_body = body\<rparr>, r'), s')
      \<and> hs_state lib s' r' R y \<and> hs_kept s r s' r'"
proof (induction ms arbitrary: s r raw)
  case Nil
  then have b: "hr_buf r = hs_wire ty body @ R" by simp
  have "hs_state lib s (r\<lparr>hr_buf := R\<rparr>) R y"
    using Nil by (auto simp: hs_state_def intro!: exI [of _ "[]"])
  then show ?case using try_take_wire [OF assms(2) b]
    by (subst hs_next.simps) (auto simp: hs_kept_def same_writer_def)
next
  case (Cons m ms)
  show ?case
  proof (cases "length (hs_wire ty body) \<le> length (hr_buf r)")
    case True
    then have b: "hr_buf r = hs_wire ty body @ drop (length (hs_wire ty body)) (hr_buf r)" "drop (length (hs_wire ty body)) (hr_buf r) @ raw = R"
      using Cons.prems(6) by (metis append_eq_append_conv_if append_take_drop_id)+
    have "hs_state lib s (r\<lparr>hr_buf := drop (length (hs_wire ty body)) (hr_buf r)\<rparr>) R y"
      using Cons.prems b(2) unfolding hs_state_def by (intro conjI exI [of _ "m # ms"] exI [of _ raw]) simp_all
    then show ?thesis using try_take_wire [OF assms(2) b(1)]
      by (subst hs_next.simps) (auto simp: hs_kept_def same_writer_def)
  next
    case False
    have none: "try_take r = None" using try_take_short [OF assms(2) Cons.prems(6)] False by simp
    have fits: "msg_fits (tr_read s) m" using Cons.prems(5) by simp
    have wire: "incoming s = msg_wire lib (tr_read s) m @ msgs_wire lib (msg_after (tr_read s) m) ms @ y" using Cons.prems(4) by simp
    obtain rec t where rr: "read_record lib s = (rec, t)" by fastforce
    have a: "awaited s m (msgs_wire lib (msg_after (tr_read s) m) ms @ y) rec t"
      by (rule read_record_awaited [OF assms(1) Cons.prems(3) fits Cons.prems(1,2) wire rr])
    have t: "reads_ok t" "roomy t" "rp_fits (tr_read t)" "incoming t = msgs_wire lib (tr_read t) ms @ y" "tr_read t = msg_after (tr_read s) m"
      "same_writer s t" "stream_size (tr_in t) \<le> stream_size (tr_in s)" "rec = Inr (msg_record m)"
      using a Cons.prems(2,3) by (simp_all add: awaited_def roomy_def)
    have x: "hs_next lib r s = (case feed (tr_read t \<noteq> None) (msg_record m) r of Inl e \<Rightarrow> (Inl e, t) | Inr r \<Rightarrow> hs_next lib r t)"
      using none rr t(8) by (subst hs_next.simps) simp
    obtain ct p where mr: "msg_record m = (ct, p)" by fastforce
    have "\<exists>raw' r1. feed (tr_read t \<noteq> None) (msg_record m) r = Inr r1 \<and> hr_leftover r1 = hr_leftover r
        \<and> carries (tr_read t) ms raw' \<and> hr_buf r1 @ raw' = hs_wire ty body @ R"
      using Cons.prems(5,6) mr t(5) by (cases ct) (auto simp: feed_def)
    then obtain raw' r1 where r1: "feed (tr_read t \<noteq> None) (msg_record m) r = Inr r1" "hr_leftover r1 = hr_leftover r"
      "carries (tr_read t) ms raw'" "hr_buf r1 @ raw' = hs_wire ty body @ R" by blast
    obtain r' s' where "hs_next lib r1 t = (Inr (\<lparr>hm_ty = ty, hm_raw = hs_wire ty body, hm_body = body\<rparr>, r'), s')"
      "hs_state lib s' r' R y" "hs_kept t r1 s' r'"
      using Cons.IH [OF t(1-4) r1(3,4)] by blast
    moreover have "hs_kept s r t r1" using t(6,7) r1(2) by (simp add: hs_kept_def)
    ultimately show ?thesis using x r1(1) hs_kept_trans by (auto intro!: exI)
  qed
qed

lemma hs_next_state:
  assumes "tls_lib_ok lib" "small_body body" "hs_state lib s r (hs_wire ty body @ R) y"
  shows "\<exists>r' s'. hs_next lib r s = (Inr (\<lparr>hm_ty = ty, hm_raw = hs_wire ty body, hm_body = body\<rparr>, r'), s')
      \<and> hs_state lib s' r' R y \<and> hs_kept s r s' r'"
proof -
  obtain ms raw where "reads_ok s" "roomy s" "rp_fits (tr_read s)" "incoming s = msgs_wire lib (tr_read s) ms @ y"
    "carries (tr_read s) ms raw" "hr_buf r @ raw = hs_wire ty body @ R"
    using assms(3) unfolding hs_state_def by blast
  then show ?thesis by (rule hs_next_carried [OF assms(1,2)])
qed

lemma hs_state_done:
  assumes "hs_state lib s r [] y"
  shows "reads_ok s" "roomy s" "incoming s = y" "hr_buf r = []"
proof -
  obtain ms where "reads_ok s" "roomy s" "incoming s = msgs_wire lib (tr_read s) ms @ y" "carries (tr_read s) ms []" "hr_buf r = []"
    using assms unfolding hs_state_def by auto
  then show "reads_ok s" "roomy s" "incoming s = y" "hr_buf r = []" by (cases ms; simp)+
qed

section \<open>The server's messages\<close>

definition server_hello :: "bytes \<Rightarrow> bytes \<Rightarrow> u16 \<Rightarrow> bytes \<Rightarrow> bytes" where
  "server_hello srandom sid suite_id share =
     [3, 3] @ srandom @ vec P8 sid @ to_be16 suite_id @ [0]
       @ vec P16 (concat (map ext_wire [(43, [3, 4]), (51, to_be16 0x001D @ vec P16 share)]))"

lemma hs_take_append: "length x = n \<Longrightarrow> hs_take n (x @ y) = Inr (x, y)"
  by (simp add: hs_take_def)

lemma be16_to_be16 [simp]: "be16_at (to_be16 w) = w"
  by (simp add: be16_at_def to_be16_def)

lemma be16_length_field: "n < 65536 \<Longrightarrow> unat (be16_at (length_field P16 n)) = n"
  using two_length_bytes [of n] by (simp add: be16_at_def unat_from_be16)

lemma server_exts_step:
  assumes "length (snd e) < 65536"
  shows "server_exts (ext_wire e @ w) st = server_exts w (server_ext (fst e) (snd e) st)"
proof -
  have "hs_take 2 (ext_wire e @ w) = Inr (to_be16 (fst e), vec P16 (snd e) @ w)"
    using hs_take_append [of "to_be16 (fst e)" 2 "vec P16 (snd e) @ w"] by (simp add: ext_wire_def)
  moreover have "hs_take 2 (vec P16 (snd e) @ w) = Inr (length_field P16 (length (snd e)), snd e @ w)"
    using hs_take_append [of "length_field P16 (length (snd e))" 2 "snd e @ w"] by (simp add: vec_def)
  moreover have "hs_take (unat (be16_at (length_field P16 (length (snd e))))) (snd e @ w) = Inr (snd e, w)"
    using be16_length_field [OF assms] hs_take_append by simp
  moreover have "ext_wire e \<noteq> []" by (simp add: ext_wire_def to_be16_def)
  ultimately show ?thesis by (subst server_exts.simps) (simp del: length_field.simps)
qed

lemma parse_server_hello_wire:
  assumes "length srandom = 32" "srandom \<noteq> HRR" "suite_from_id suite_id = Some suite" "length share = 32"
    and "71 \<le> length client_hello" "slice 39 71 client_hello = sid"
  shows "parse_server_hello (hs_wire 2 (server_hello srandom sid suite_id share)) client_hello = Inr (suite, share)"
proof -
  have sid: "length sid = 32" using assms(5,6) by auto
  let ?e1 = "(43, [3, 4]) :: u16 \<times> bytes" and ?e2 = "(51, to_be16 0x001D @ vec P16 share)"
  let ?E = "ext_wire ?e1 @ ext_wire ?e2 @ []"
  have "to_be16 32 = ([0, 32] :: bytes)" by (simp add: to_be16_def hi8_def lo8_def)
  moreover have "length_field P16 32 = [0, 32]" by simp
  ultimately have sh: "server_ext 51 (to_be16 0x001D @ vec P16 share) st = (Some share, snd st)" for st
    using assms(4) by (cases st) (simp add: server_ext_def vec_def to_be16_def slice_def Let_def unat_from_be16 hi8_def lo8_def from_be16_def)
  have e43: "server_ext 43 [3, 4] (None, False) = (None, True)" by (simp add: server_ext_def)
  have ex: "server_exts ?E (None, False) = Inr (Some share, True)"
    using server_exts_step [of ?e1 "ext_wire ?e2 @ []" "(None, False)"] server_exts_step [of ?e2 "[]" "(None, True)"] assms(4)
      sh [of "(None, True)"] e43 by (simp add: server_exts.simps [of "[]"])
  have E: "length ?E < 65536" using assms(4) by (simp add: ext_wire_def)
  have raw: "drop 4 (hs_wire 2 (server_hello srandom sid suite_id share))
      = ([3, 3] @ srandom) @ [32] @ sid @ to_be16 suite_id @ [0] @ length_field P16 (length ?E) @ ?E @ []"
    using sid by (simp add: hs_wire_def vec_def server_hello_def)
  have l: "\<not> length (hs_wire 2 (server_hello srandom sid suite_id share)) < 4" by (simp add: hs_wire_def)
  have t: "hs_take 34 (([3, 3] @ srandom) @ w) = Inr ([3, 3] @ srandom, w)" "hs_take 1 ([32] @ w) = Inr ([32], w)"
    "hs_take 32 (sid @ w) = Inr (sid, w)" "hs_take 2 (to_be16 suite_id @ w) = Inr (to_be16 suite_id, w)" "hs_take 1 ([0] @ w) = Inr ([0], w)"
    "hs_take 2 (length_field P16 (length ?E) @ w) = Inr (length_field P16 (length ?E), w)"
    "hs_take (unat (be16_at (length_field P16 (length ?E)))) (?E @ w) = Inr (?E, w)" for w
    by (rule hs_take_append, use assms(1) sid be16_length_field [OF E] in \<open>simp del: length_field.simps\<close>)+
  have n: "unat ([32 :: u8] ! 0) = 32" "drop 2 ([3, 3] @ srandom) = srandom" "[0 :: u8] ! 0 = 0" by simp_all
  have s: "\<not> length client_hello < SESSION_ID_OFFSET + SESSION_ID_SIZE" "slice SESSION_ID_OFFSET (SESSION_ID_OFFSET + SESSION_ID_SIZE) client_hello = sid"
    using assms(5,6) by (simp_all add: hello_sizes)
  show ?thesis
    unfolding parse_server_hello_def raw t bind_result_simps prod.case n s ex be16_to_be16 assms(3) option.case
    using l s assms(2) by simp
qed

text \<open>A certificate message with the given leaf, and further certificates behind it.\<close>

definition cert_message :: "bytes \<Rightarrow> bytes \<Rightarrow> bytes" where
  "cert_message leaf others = [0] @ vec P24 (vec P24 leaf @ others)"

lemma read_u24_field: "n < 16777216 \<Longrightarrow> read_u24 (length_field P24 n) = n"
  using length_field24 [of n] by (simp add: read_u24_def)

lemma extract_leaf_message:
  assumes "length leaf + length others < 16777000"
  shows "extract_leaf (cert_message leaf others) = Inr leaf"
proof -
  let ?l = "vec P24 leaf @ others"
  have n: "length ?l < 16777216" "length leaf < 16777216" using assms by simp_all
  have t: "hs_take 1 (cert_message leaf others) = Inr ([0], vec P24 ?l)" "hs_take (unat ([0 :: u8] ! 0)) w = Inr ([], w)"
    "hs_take 3 (vec P24 x @ w) = Inr (length_field P24 (length x), x @ w)" for x w
    using hs_take_append [of "length_field P24 (length x)" 3 "x @ w"]
    by (simp_all add: hs_take_def cert_message_def vec_def del: length_field.simps)
  have u: "hs_take (read_u24 (length_field P24 (length ?l))) (?l @ []) = Inr (?l, [])"
    "hs_take (read_u24 (length_field P24 (length leaf))) (leaf @ others) = Inr (leaf, others)"
    by (rule hs_take_append [OF read_u24_field [OF n(1), symmetric]], rule hs_take_append [OF read_u24_field [OF n(2), symmetric]])
  have ne: "?l \<noteq> []" by (simp add: vec_def)
  show ?thesis
    using t(1,2) t(3) [of ?l "[]"] t(3) [of leaf others] u ne
    by (simp add: extract_leaf_def del: length_field.simps)
qed

section \<open>Certificates\<close>

definition der_length :: "nat \<Rightarrow> bytes" where
  "der_length n =
     (if n < 128 then [word_of_nat n]
      else if n < 256 then 0x81 # length_field P8 n
      else if n < 65536 then 0x82 # length_field P16 n
      else 0x83 # length_field P24 n)"

definition der :: "u8 \<Rightarrow> bytes \<Rightarrow> bytes" where
  "der t body = t # der_length (length body) @ body"

lemma der_len_long:
  assumes "n < 256 ^ prefix_size p" "c AND 0x7F = word_of_nat (prefix_size p)" "\<not> c < 0x80"
  shows "der_len_at (t # c # length_field p n @ w) 1 = Some (n, 1 + prefix_size p)"
proof -
  have k: "prefix_size p = 1 \<or> prefix_size p = 2 \<or> prefix_size p = 3" by (cases p) simp_all
  then have u: "unat (c AND 0x7F) = prefix_size p" using assms(2) by auto
  have "slice 2 (2 + prefix_size p) (t # c # length_field p n @ w) = length_field p n"
    by (simp add: slice_def numeral_2_eq_2 del: length_field.simps)
  then show ?thesis using be_value_length_field [OF assms(1)] assms(3) u k
    by (auto simp: der_len_at_def Let_def numeral_2_eq_2 simp del: length_field.simps prefix_size.simps)
qed

lemma der_len_at_length:
  assumes "n < 16777216"
  shows "der_len_at (t # der_length n @ w) 1 = Some (n, length (der_length n))"
proof -
  consider "n < 128" | "128 \<le> n" "n < 256" | "256 \<le> n" "n < 65536" | "65536 \<le> n" using assms by linarith
  then show ?thesis
  proof cases
    case 1
    then have "unat (word_of_nat n :: u8) = n" "(word_of_nat n :: u8) < 0x80" by (simp_all add: word_less_nat_alt unat_of_nat_u8)
    then show ?thesis using 1 by (simp add: der_len_at_def der_length_def Let_def)
  next
    case 2
    then show ?thesis using der_len_long [of n P8 "0x81" t w] by (simp add: der_length_def)
  next
    case 3
    then show ?thesis using der_len_long [of n P16 "0x82" t w] by (simp add: der_length_def)
  next
    case 4
    then show ?thesis using der_len_long [of n P24 "0x83" t w] assms by (simp add: der_length_def)
  qed
qed

lemma take_tlv_der:
  assumes "length body < 16777216"
  shows "take_tlv (der t body @ w) = Some (t, body, w)"
  using der_len_at_length [OF assms, of t "body @ w"] by (simp add: take_tlv_def der_def Let_def slice_def)

lemma read_tagged_der: "length body < 16777216 \<Longrightarrow> read_tagged t (der t body @ w) = Some (body, w)"
  by (simp add: read_tagged_def take_tlv_der)

lemma skip_value_der: "length body < 16777216 \<Longrightarrow> skip_value (der t body @ w) = Some w"
  by (simp add: skip_value_def take_tlv_der)

lemma length_der: "length (der t body) \<le> 5 + length body"
  by (simp add: der_def der_length_def)

text \<open>An X.509 certificate for an Ed25519 key; the fields a REALITY client skips are free.\<close>

record cert_fields =
  cf_version :: "bytes option"
  cf_serial :: bytes
  cf_alg :: bytes
  cf_issuer :: bytes
  cf_validity :: bytes
  cf_subject :: bytes
  cf_more :: bytes

definition cert_version :: "cert_fields \<Rightarrow> bytes" where
  "cert_version f = (case cf_version f of None \<Rightarrow> [] | Some v \<Rightarrow> der 0xA0 v)"

definition cert_tbs :: "cert_fields \<Rightarrow> bytes \<Rightarrow> bytes" where
  "cert_tbs f pk =
     cert_version f @ der 0x02 (cf_serial f) @ der 0x30 (cf_alg f) @ der 0x30 (cf_issuer f) @ der 0x30 (cf_validity f)
       @ der 0x30 (cf_subject f) @ der 0x30 (der 0x30 (der 0x06 [0x2B, 0x65, 0x70]) @ der 0x03 (0 # pk)) @ cf_more f"

definition ed25519_cert :: "cert_fields \<Rightarrow> bytes \<Rightarrow> bytes \<Rightarrow> bytes" where
  "ed25519_cert f pk sig = der 0x30 (der 0x30 (cert_tbs f pk) @ der 0x30 (cf_alg f) @ der 0x03 (0 # sig))"

definition cert_size :: "cert_fields \<Rightarrow> nat" where
  "cert_size f = (case cf_version f of None \<Rightarrow> 0 | Some v \<Rightarrow> length v) + length (cf_serial f) + 2 * length (cf_alg f)
     + length (cf_issuer f) + length (cf_validity f) + length (cf_subject f) + length (cf_more f)"

lemma read_ed25519_cert_made:
  assumes "cert_size f \<le> 16000000" "length pk = 32" "length sig = 64"
  shows "read_ed25519_cert (ed25519_cert f pk sig) = Some (pk, sig)" "length (ed25519_cert f pk sig) \<le> 1000 + cert_size f"
proof -
  let ?alg = "der 0x30 (der 0x06 [0x2B, 0x65, 0x70])"
  let ?spki = "?alg @ der 0x03 (0 # pk)"
  let ?c = "der 0x30 (cert_tbs f pk) @ der 0x30 (cf_alg f) @ der 0x03 (0 # sig)"
  have d: "length (der t b) \<le> 5 + length b" for t b by (rule length_der)
  have spki: "length ?spki \<le> 60" using d [of "0x30" "der 0x06 [0x2B, 0x65, 0x70]"] d [of "0x06" "[0x2B, 0x65, 0x70]"] d [of "0x03" "0 # pk"] assms(2) by simp
  have v: "length (cert_version f) \<le> 5 + (case cf_version f of None \<Rightarrow> 0 | Some v \<Rightarrow> length v)"
    using d by (simp add: cert_version_def split: option.split)
  have tbs: "length (cert_tbs f pk) + length (cf_alg f) \<le> 200 + cert_size f"
    using spki v d [of "0x02" "cf_serial f"] d [of "0x30" "cf_alg f"] d [of "0x30" "cf_issuer f"] d [of "0x30" "cf_validity f"] d [of "0x30" "cf_subject f"]
      d [of "0x30" ?spki] by (simp add: cert_tbs_def cert_size_def)
  have c: "length ?c \<le> 600 + cert_size f"
    using tbs d [of "0x30" "cert_tbs f pk"] d [of "0x30" "cf_alg f"] d [of "0x03" "0 # sig"] assms(3) by simp
  show "length (ed25519_cert f pk sig) \<le> 1000 + cert_size f"
    using c d [of "0x30" ?c] by (simp add: ed25519_cert_def)
  have small: "length (cf_serial f) < 16777216" "length (cf_alg f) < 16777216" "length (cf_issuer f) < 16777216"
    "length (cf_validity f) < 16777216" "length (cf_subject f) < 16777216" "length (cert_tbs f pk) < 16777216" "length ?c < 16777216"
    "length ?spki < 16777216" "length (0 # pk) < 16777216" "length (0 # sig) < 16777216"
    using assms tbs c spki by (simp_all add: cert_size_def)
  let ?t = "der 0x02 (cf_serial f) @ der 0x30 (cf_alg f) @ der 0x30 (cf_issuer f) @ der 0x30 (cf_validity f)
       @ der 0x30 (cf_subject f) @ der 0x30 ?spki @ cf_more f"
  have "(if peek_tag (cert_version f @ ?t) = Some 0xA0 then skip_value (cert_version f @ ?t) else Some (cert_version f @ ?t)) = Some ?t"
  proof (cases "cf_version f")
    case (Some w)
    then have "length w < 16777216" using assms(1) by (simp add: cert_size_def)
    then have "skip_value (der 0xA0 w @ ?t) = Some ?t" by (rule skip_value_der)
    moreover have "peek_tag (der 0xA0 w @ ?t) = Some 0xA0" by (simp add: peek_tag_def der_def)
    ultimately show ?thesis unfolding cert_version_def Some option.case by simp
  qed (simp add: cert_version_def peek_tag_def der_def)
  then have tbs1: "(if peek_tag (cert_tbs f pk) = Some 0xA0 then skip_value (cert_tbs f pk) else Some (cert_tbs f pk)) = Some ?t"
    by (simp only: cert_tbs_def)
  have r: "read_seq (der 0x30 ?c) = Some (?c, [])" "read_seq (der 0x30 (cert_tbs f pk) @ w) = Some (cert_tbs f pk, w)"
    "read_seq (der 0x30 ?spki @ w) = Some (?spki, w)" "read_seq ?spki = Some (der 0x06 [0x2B, 0x65, 0x70], der 0x03 (0 # pk))"
    "read_oid (der 0x06 [0x2B, 0x65, 0x70]) = Some ([0x2B, 0x65, 0x70], [])" for w
    using read_tagged_der [OF small(7), of "0x30" "[]"] read_tagged_der [OF small(6), of "0x30" w] read_tagged_der [OF small(8), of "0x30" w]
      read_tagged_der [of "der 0x06 [0x2B, 0x65, 0x70]" "0x30" "der 0x03 (0 # pk)"] read_tagged_der [of "[0x2B, 0x65, 0x70]" "0x06" "[]"]
      d [of "0x06" "[0x2B, 0x65, 0x70]"]
    by (simp_all add: read_seq_def read_oid_def)
  have b: "read_bitstring (der 0x03 (0 # pk)) = Some (pk, [])" "read_bitstring (der 0x03 (0 # sig)) = Some (sig, [])"
    using read_tagged_der [OF small(9), of "0x03" "[]"] read_tagged_der [OF small(10), of "0x03" "[]"] by (simp_all add: read_bitstring_def)
  show "read_ed25519_cert (ed25519_cert f pk sig) = Some (pk, sig)"
    unfolding read_ed25519_cert_def ed25519_cert_def r(1) bind.bind_lunit prod.case r(2) tbs1
    by (simp add: skip_value_der small(1-5) r b assms(2) del: append_assoc)
qed

section \<open>Secrets\<close>

lemma derive_secret_ok:
  assumes "tls_lib_ok lib" "hash_len h \<le> length secret" "n \<le> 255 * hash_len h"
  shows "\<exists>x. derive_secret lib h secret label context n = Inr x \<and> length x = n"
    "\<exists>x. expand_label lib h secret label context n = Inr x \<and> length x = n"
  using assms by (auto simp: derive_secret_def expand_label_def hkdf_expand_def tls_lib_ok_def)

lemma length_hkdf_extract: "tls_lib_ok lib \<Longrightarrow> length (hkdf_extract lib h salt ikm) = hash_len h"
  by (simp add: hkdf_extract_def Let_def tls_lib_ok_def)

lemma handshake_secrets_ok:
  assumes "tls_lib_ok lib"
  shows "\<exists>c s m. derive_handshake_secrets lib h shared transcript = Inr (c, s, m)
    \<and> length c = hash_len h \<and> length s = hash_len h \<and> length m = hash_len h"
proof -
  have n: "hash_len h \<le> length (hkdf_extract lib h a b)" "hash_len h \<le> 255 * hash_len h" for a b
    using length_hkdf_extract [OF assms] by simp_all
  let ?early = "hkdf_extract lib h (replicate (hash_len h) 0) (replicate (hash_len h) 0)"
  obtain d where d: "derive_secret lib h ?early (as_bytes ''derived'') (hash_empty lib h) (hash_len h) = Inr d"
    using derive_secret_ok(1) [OF assms n] by blast
  let ?hs = "hkdf_extract lib h d shared"
  obtain c s d2 where "derive_secret lib h ?hs (as_bytes ''c hs traffic'') transcript (hash_len h) = Inr c" "length c = hash_len h"
    "derive_secret lib h ?hs (as_bytes ''s hs traffic'') transcript (hash_len h) = Inr s" "length s = hash_len h"
    "derive_secret lib h ?hs (as_bytes ''derived'') (hash_empty lib h) (hash_len h) = Inr d2"
    using derive_secret_ok(1) [OF assms n] by metis
  then show ?thesis using d length_hkdf_extract [OF assms] by (simp add: derive_handshake_secrets_def Let_def)
qed

lemma finished_verify_ok:
  assumes "tls_lib_ok lib" "hash_len h \<le> length key"
  shows "\<exists>x. finished_verify lib h key transcript (hash_len h) = Inr x \<and> length x = hash_len h"
proof -
  obtain k where "expand_label lib h key (as_bytes ''finished'') [] (hash_len h) = Inr k"
    using derive_secret_ok(2) [OF assms, of "hash_len h"] by auto
  then show ?thesis using assms(1) by (simp add: finished_verify_def tls_lib_ok_def)
qed

lemma suite_parts:
  assumes "suite_from_id i = Some suite"
  shows "tls_key_len (if su_chacha suite then Chacha20_poly1305 else if su_key_len suite = 16 then Aes128_gcm else Aes256_gcm) = su_key_len suite"
    "su_key_len suite \<le> 32"
  using assms by (auto simp: suite_from_id_def split: if_splits)

lemma protection_new_ok:
  assumes "tls_lib_ok lib" "suite_from_id i = Some suite" "hash_len (su_hash suite) \<le> length traffic"
  shows "\<exists>rp. protection_new lib suite traffic = Inr rp \<and> rp_fits (Some rp)"
proof -
  have h: "32 \<le> hash_len (su_hash suite)" by (cases "su_hash suite") simp_all
  obtain key iv where "expand_label lib (su_hash suite) traffic (as_bytes ''key'') [] (su_key_len suite) = Inr key" "length key = su_key_len suite"
    "expand_label lib (su_hash suite) traffic (as_bytes ''iv'') [] NONCE_LEN = Inr iv" "length iv = 12"
    using derive_secret_ok(2) [OF assms(1,3), of "su_key_len suite" "as_bytes ''key''" "[]"]
      derive_secret_ok(2) [OF assms(1,3), of NONCE_LEN "as_bytes ''iv''" "[]"]
      suite_parts(2) [OF assms(2)] h by (auto simp: NONCE_LEN_def)
  then have "\<exists>rp. protection_new lib suite traffic = Inr rp"
    using suite_parts(1) [OF assms(2)] by (simp add: protection_new_def traffic_keys_def Let_def)
  then show ?thesis using protection_new_fits [OF assms(1)] by blast
qed

section \<open>The server's answer\<close>

record reality_server =
  sv_private :: bytes
  sv_ephemeral :: bytes
  sv_random :: bytes
  sv_suite :: u16
  sv_extensions :: bytes
  sv_cert :: cert_fields
  sv_pk :: bytes
  sv_chain :: bytes
  sv_verify :: bytes

record server_answer =
  sa_hello :: bytes
  sa_flight :: bytes
  sa_keys :: record_protection
  sa_data_keys :: record_protection
  sa_client_keys :: record_protection
  sa_client_data :: record_protection
  sa_client_finished :: bytes

definition answer_hello :: "tls_lib \<Rightarrow> reality_server \<Rightarrow> bytes \<Rightarrow> bytes" where
  "answer_hello lib sv h = hs_wire 2 (server_hello (sv_random sv) (slice 39 71 h) (sv_suite sv) (lt_public lib (sv_ephemeral sv)))"

definition answer_cert :: "tls_lib \<Rightarrow> reality_server \<Rightarrow> bytes \<Rightarrow> bytes" where
  "answer_cert lib sv auth = ed25519_cert (sv_cert sv) (sv_pk sv) (lt_hmac512 lib auth (sv_pk sv))"

definition answer_flight :: "tls_lib \<Rightarrow> reality_server \<Rightarrow> bytes \<Rightarrow> (u8 \<times> bytes) list" where
  "answer_flight lib sv auth =
     [(8, sv_extensions sv), (11, cert_message (answer_cert lib sv auth) (sv_chain sv)), (15, sv_verify sv)]"

definition flight_wire :: "(u8 \<times> bytes) list \<Rightarrow> bytes" where
  "flight_wire fl = concat (map (\<lambda>(t, b). hs_wire t b) fl)"

text \<open>The server opens the token, agrees on the keys and answers for a client it has authenticated.\<close>

definition server_answers :: "tls_lib \<Rightarrow> reality_server \<Rightarrow> bytes \<Rightarrow> fault + server_answer" where
  "server_answers lib sv h =
     (case (server_reads lib (sv_private sv) h, suite_from_id (sv_suite sv)) of
        (Some rc, Some suite) \<Rightarrow>
          (let kind = su_hash suite; n = hash_len kind; sh = answer_hello lib sv h; flight = flight_wire (answer_flight lib sv (rc_auth rc)) in
           bind_result (derive_handshake_secrets lib kind (lt_agree lib (sv_ephemeral sv) (rc_share rc)) (lt_digest lib kind (h @ sh))) (\<lambda>(c_hs, s_hs, master).
           bind_result (finished_verify lib kind s_hs (lt_digest lib kind (h @ sh @ flight)) n) (\<lambda>fin.
           let after = lt_digest lib kind (h @ sh @ flight @ hs_wire 20 fin) in
           bind_result (finished_verify lib kind c_hs after n) (\<lambda>client_fin.
           bind_result (derive_secret lib kind master (as_bytes ''c ap traffic'') after n) (\<lambda>c_ap.
           bind_result (derive_secret lib kind master (as_bytes ''s ap traffic'') after n) (\<lambda>s_ap.
           bind_result (protection_new lib suite s_hs) (\<lambda>s1.
           bind_result (protection_new lib suite s_ap) (\<lambda>s2.
           bind_result (protection_new lib suite c_hs) (\<lambda>c1.
           bind_result (protection_new lib suite c_ap) (\<lambda>c2.
           Inr \<lparr>sa_hello = sh, sa_flight = flight @ hs_wire 20 fin, sa_keys = s1, sa_data_keys = s2, sa_client_keys = c1,
                sa_client_data = c2, sa_client_finished = hs_wire 20 client_fin\<rparr>))))))))))
      | _ \<Rightarrow> Inl (Fault AuthFailed))"

definition server_fits :: "reality_server \<Rightarrow> bool" where
  "server_fits sv \<longleftrightarrow> length (sv_random sv) = 32 \<and> sv_random sv \<noteq> HRR \<and> suite_from_id (sv_suite sv) \<noteq> None \<and> length (sv_pk sv) = 32
     \<and> small_body (sv_extensions sv) \<and> small_body (sv_verify sv) \<and> cert_size (sv_cert sv) + length (sv_chain sv) \<le> 16000000"

lemma server_answers_ok:
  assumes ok: "tls_lib_ok lib" and rd: "server_reads lib (sv_private sv) h = Some rc" and su: "suite_from_id (sv_suite sv) = Some suite"
  obtains c_hs s_hs master fin cfin s_ap c_ap s1 s2 c1 c2 where
    "derive_handshake_secrets lib (su_hash suite) (lt_agree lib (sv_ephemeral sv) (rc_share rc))
       (lt_digest lib (su_hash suite) (h @ answer_hello lib sv h)) = Inr (c_hs, s_hs, master)"
    "finished_verify lib (su_hash suite) s_hs (lt_digest lib (su_hash suite)
       (h @ answer_hello lib sv h @ flight_wire (answer_flight lib sv (rc_auth rc)))) (hash_len (su_hash suite)) = Inr fin"
    "length fin = hash_len (su_hash suite)"
    "let after = lt_digest lib (su_hash suite) (h @ answer_hello lib sv h @ flight_wire (answer_flight lib sv (rc_auth rc)) @ hs_wire 20 fin) in
       finished_verify lib (su_hash suite) c_hs after (hash_len (su_hash suite)) = Inr cfin \<and> length cfin = hash_len (su_hash suite)
       \<and> derive_secret lib (su_hash suite) master (as_bytes ''c ap traffic'') after (hash_len (su_hash suite)) = Inr c_ap
       \<and> derive_secret lib (su_hash suite) master (as_bytes ''s ap traffic'') after (hash_len (su_hash suite)) = Inr s_ap"
    "protection_new lib suite s_hs = Inr s1" "protection_new lib suite s_ap = Inr s2"
    "protection_new lib suite c_hs = Inr c1" "protection_new lib suite c_ap = Inr c2"
    "rp_fits (Some s1)" "rp_fits (Some s2)" "rp_fits (Some c1)" "rp_fits (Some c2)"
    "server_answers lib sv h = Inr \<lparr>sa_hello = answer_hello lib sv h,
       sa_flight = flight_wire (answer_flight lib sv (rc_auth rc)) @ hs_wire 20 fin, sa_keys = s1, sa_data_keys = s2, sa_client_keys = c1,
       sa_client_data = c2, sa_client_finished = hs_wire 20 cfin\<rparr>"
proof -
  let ?h = "su_hash suite" and ?sh = "answer_hello lib sv h" and ?fl = "flight_wire (answer_flight lib sv (rc_auth rc))"
  obtain c_hs s_hs master where d: "derive_handshake_secrets lib ?h (lt_agree lib (sv_ephemeral sv) (rc_share rc)) (lt_digest lib ?h (h @ ?sh))
      = Inr (c_hs, s_hs, master)" "length c_hs = hash_len ?h" "length s_hs = hash_len ?h" "length master = hash_len ?h"
    using handshake_secrets_ok [OF ok] by blast
  obtain fin where f: "finished_verify lib ?h s_hs (lt_digest lib ?h (h @ ?sh @ ?fl)) (hash_len ?h) = Inr fin" "length fin = hash_len ?h"
    using finished_verify_ok [OF ok, of ?h s_hs] d(3) by auto
  define after where "after = lt_digest lib ?h (h @ ?sh @ ?fl @ hs_wire 20 fin)"
  obtain cfin where cf: "finished_verify lib ?h c_hs after (hash_len ?h) = Inr cfin" "length cfin = hash_len ?h"
    using finished_verify_ok [OF ok, of ?h c_hs] d(2) by auto
  obtain c_ap s_ap where ap: "derive_secret lib ?h master (as_bytes ''c ap traffic'') after (hash_len ?h) = Inr c_ap" "length c_ap = hash_len ?h"
    "derive_secret lib ?h master (as_bytes ''s ap traffic'') after (hash_len ?h) = Inr s_ap" "length s_ap = hash_len ?h"
    using derive_secret_ok(1) [OF ok, of ?h master "hash_len ?h" "as_bytes ''c ap traffic''" after]
      derive_secret_ok(1) [OF ok, of ?h master "hash_len ?h" "as_bytes ''s ap traffic''" after] d(4) by auto
  obtain s1 where s1: "protection_new lib suite s_hs = Inr s1" "rp_fits (Some s1)" using protection_new_ok [OF ok su, of s_hs] d(3) by auto
  obtain s2 where s2: "protection_new lib suite s_ap = Inr s2" "rp_fits (Some s2)" using protection_new_ok [OF ok su, of s_ap] ap(4) by auto
  obtain c1 where c1: "protection_new lib suite c_hs = Inr c1" "rp_fits (Some c1)" using protection_new_ok [OF ok su, of c_hs] d(2) by auto
  obtain c2 where c2: "protection_new lib suite c_ap = Inr c2" "rp_fits (Some c2)" using protection_new_ok [OF ok su, of c_ap] ap(2) by auto
  have "server_answers lib sv h = Inr \<lparr>sa_hello = ?sh, sa_flight = ?fl @ hs_wire 20 fin, sa_keys = s1, sa_data_keys = s2, sa_client_keys = c1,
       sa_client_data = c2, sa_client_finished = hs_wire 20 cfin\<rparr>"
    unfolding server_answers_def rd su prod.case option.case Let_def after_def [symmetric]
    using d(1) f(1) cf(1) ap(1,3) s1(1) s2(1) c1(1) c2(1) by (simp add: after_def)
  then show thesis using that [OF d(1) f] cf ap(1,3) s1 s2 c1 c2 by (simp add: after_def Let_def)
qed

section \<open>The client behind the server's answer\<close>

lemma flight_wire_simps: "flight_wire [] = []" "flight_wire ((t, b) # fl) = hs_wire t b @ flight_wire fl"
  by (simp_all add: flight_wire_def)

lemma server_flight_answer:
  assumes ok: "tls_lib_ok lib" and small: "small_body ee" "small_body cm" "small_body cv" "small_body fin"
    and st: "hs_state lib s r (flight_wire [(8, ee), (11, cm), (15, cv)] @ hs_wire 20 fin) y"
    and leaf: "extract_leaf cm = Inr cert"
    and f: "finished_verify lib h s_hs (lt_digest lib h (tr @ flight_wire [(8, ee), (11, cm), (15, cv)])) (hash_len h) = Inr fin"
  shows "\<exists>r' s'. server_flight lib h s_hs 0 None tr r s
      = (Inr (Some cert, tr @ flight_wire [(8, ee), (11, cm), (15, cv)] @ hs_wire 20 fin, r'), s')
    \<and> hs_state lib s' r' [] y \<and> hs_kept s r s' r'"
proof -
  have "hs_state lib s r (hs_wire 8 ee @ (hs_wire 11 cm @ hs_wire 15 cv @ hs_wire 20 fin)) y" using st by (simp add: flight_wire_simps)
  then obtain r1 s1 where 1: "hs_next lib r s = (Inr (\<lparr>hm_ty = 8, hm_raw = hs_wire 8 ee, hm_body = ee\<rparr>, r1), s1)"
    "hs_state lib s1 r1 (hs_wire 11 cm @ (hs_wire 15 cv @ hs_wire 20 fin)) y" "hs_kept s r s1 r1"
    using hs_next_state [OF ok small(1)] by blast
  obtain r2 s2 where 2: "hs_next lib r1 s1 = (Inr (\<lparr>hm_ty = 11, hm_raw = hs_wire 11 cm, hm_body = cm\<rparr>, r2), s2)"
    "hs_state lib s2 r2 (hs_wire 15 cv @ hs_wire 20 fin) y" "hs_kept s1 r1 s2 r2"
    using hs_next_state [OF ok small(2) 1(2)] by blast
  obtain r3 s3 where 3: "hs_next lib r2 s2 = (Inr (\<lparr>hm_ty = 15, hm_raw = hs_wire 15 cv, hm_body = cv\<rparr>, r3), s3)"
    "hs_state lib s3 r3 (hs_wire 20 fin) y" "hs_kept s2 r2 s3 r3"
    using hs_next_state [OF ok small(3) 2(2)] by blast
  then have "hs_state lib s3 r3 (hs_wire 20 fin @ []) y" by simp
  then obtain r4 s4 where 4: "hs_next lib r3 s3 = (Inr (\<lparr>hm_ty = 20, hm_raw = hs_wire 20 fin, hm_body = fin\<rparr>, r4), s4)"
    "hs_state lib s4 r4 [] y" "hs_kept s3 r3 s4 r4"
    using hs_next_state [OF ok small(4)] by blast
  have v: "verify_finished lib h s_hs (lt_digest lib h (((tr @ hs_wire 8 ee) @ hs_wire 11 cm) @ hs_wire 15 cv)) fin = Inr ()"
    using f by (simp add: verify_finished_Inr flight_wire_simps)
  have "hs_kept s r s4 r4" using 1(3) 2(3) 3(3) 4(3) by (blast intro: hs_kept_trans)
  moreover have "server_flight lib h s_hs 0 None tr r s
      = (Inr (Some cert, (((tr @ hs_wire 8 ee) @ hs_wire 11 cm) @ hs_wire 15 cv) @ hs_wire 20 fin, r4), s4)"
    using 1(1) 2(1) 3(1) 4(1) leaf v
    by (simp add: server_flight.simps [of lib h s_hs 0 None tr r s] server_flight.simps [of lib h s_hs 1]
        server_flight.simps [of lib h s_hs "Suc 0"] server_flight.simps [of lib h s_hs 2] server_flight.simps [of lib h s_hs "Suc (Suc 0)"]
        server_flight.simps [of lib h s_hs 3] server_flight.simps [of lib h s_hs "Suc (Suc (Suc 0))"] Let_def MAX_FLIGHT_def del: append_assoc)
  ultimately show ?thesis using 4(2) by (auto simp: flight_wire_simps)
qed

lemma build_finished_wire:
  assumes "finished_verify lib h key transcript (hash_len h) = Inr v" "length v = hash_len h"
  shows "build_finished lib h key transcript = Inr (hs_wire 20 v)"
  using assms by (cases h) (simp_all add: build_finished_def hs_wire_def vec_def)

lemma finish_handshake_ok:
  assumes ok: "tls_lib_ok lib" and w: "tr_write s = None" "sink_good (tr_sink s)" and cert: "assert_reality lib cert auth = Inr ()"
    and c1: "protection_new lib suite c_hs = Inr c1" "rp_fits (Some c1)"
    and fin: "finished_verify lib (su_hash suite) c_hs (lt_digest lib (su_hash suite) transcript) (hash_len (su_hash suite)) = Inr cfin"
      "length cfin = hash_len (su_hash suite)"
    and ap: "derive_secret lib (su_hash suite) master (as_bytes ''c ap traffic'') (lt_digest lib (su_hash suite) transcript) (hash_len (su_hash suite)) = Inr c_ap"
      "derive_secret lib (su_hash suite) master (as_bytes ''s ap traffic'') (lt_digest lib (su_hash suite) transcript) (hash_len (su_hash suite)) = Inr s_ap"
      "protection_new lib suite c_ap = Inr c2" "protection_new lib suite s_ap = Inr s2"
  shows "\<exists>k. finish_handshake lib suite c_hs master auth (Some cert, transcript, reader) s
      = (let t = s\<lparr>tr_sink := k, tr_write := Some c2, tr_read := Some s2\<rparr> in (Inr (reality_stream_new t (hr_leftover reader)), t))
    \<and> sink_good k \<and> written k = written (tr_sink s) @ msg_wire lib None (Clear ChangeCipherSpec 3 [1])
        @ msg_wire lib (Some c1) (Sealed Handshake (hs_wire 20 cfin) 0)"
proof -
  obtain k1 where k1: "write_record lib ChangeCipherSpec [1] s = (Inr (), s\<lparr>tr_sink := k1\<rparr>)" "sink_good k1"
    "written k1 = written (tr_sink s) @ msg_wire lib None (Clear ChangeCipherSpec 3 [1])"
    using write_record_clear [OF w, of "[1]" lib ChangeCipherSpec] by (auto simp: MAX_PLAINTEXT_def)
  let ?s = "s\<lparr>tr_sink := k1, tr_write := Some c1\<rparr>" and ?m = "Sealed Handshake (hs_wire 20 cfin) 0"
  have "length (hs_wire 20 cfin) \<le> MAX_PLAINTEXT" using fin(2) by (cases "su_hash suite") (simp_all add: hs_wire_def MAX_PLAINTEXT_def)
  then obtain k2 where k2: "write_record lib Handshake (hs_wire 20 cfin) ?s = (Inr (), ?s\<lparr>tr_write := msg_after (Some c1) ?m, tr_sink := k2\<rparr>)"
    "sink_good k2" "written k2 = written k1 @ msg_wire lib (Some c1) ?m"
    using write_record_sealed [OF ok c1(2), of ?s "hs_wire 20 cfin" Handshake] k1(2) by auto
  have "finish_handshake lib suite c_hs master auth (Some cert, transcript, reader) s
      = (let t = s\<lparr>tr_sink := k2, tr_write := Some c2, tr_read := Some s2\<rparr> in (Inr (reality_stream_new t (hr_leftover reader)), t))"
    using cert k1(1) k2(1) c1(1) ap build_finished_wire [OF fin]
    by (simp add: finish_handshake_def rec_bind_def rec_lift_def use_keys_def Let_def del: msg_wire.simps msg_after.simps)
  then show ?thesis using k1(3) k2(2,3) by (auto simp del: msg_wire.simps)
qed

text \<open>A stream whose records arrive behind the handshake.\<close>

lemma stream_after_handshake:
  assumes "tls_lib_ok lib" "reads_ok t" "tr_read t = Some rp" "rp_fits (Some rp)" "incoming t = msgs_wire lib (Some rp) ms" "server_msgs (Some rp) 0 ms"
    and "\<forall>n \<in> set caps. 0 < n" "length (server_data ms) + stream_size (tr_in t) < length caps"
  shows "delivered (fst (read_many (reality_poll_read lib) caps (reality_stream_new t []))) = server_data ms"
proof -
  let ?s = "reality_stream_new t []"
  have "rs_owes lib ?s (server_data ms)"
    unfolding rs_owes_def using assms(1-6) by (auto simp: reality_stream_new_def rs_rest_def intro!: exI [of _ 0] exI [of _ ms])
  moreover obtain rs v where rs: "read_many (reality_poll_read lib) caps ?s = (rs, v)" by fastforce
  ultimately have "delivered rs = server_data ms"
    using reality_reader.read_to_end(4) [of lib ?s "server_data ms" caps rs v] assms(7,8) by (simp add: rs_waits_def reality_stream_new_def)
  then show ?thesis using rs by simp
qed

definition hello_short :: "rstr \<Rightarrow> rstr list \<Rightarrow> bool" where
  "hello_short name alpn \<longleftrightarrow> (\<forall>p \<in> set alpn. length p < 256) \<and> length name + sum_list (map (\<lambda>p. 1 + length p) alpn) \<le> 16000"

lemma hello_short_fits: "hello_short name alpn \<Longrightarrow> hello_fits name alpn"
  by (auto simp: hello_short_def hello_fits_def)

lemma hello_short_length:
  assumes "hello_short name alpn" "length random = 32" "length sid = 32" "length pub = 32"
  shows "length (hello_wire random sid (concat (map ext_wire (hello_exts name alpn pub)))) \<le> MAX_PLAINTEXT"
  using assms by (simp add: hello_wire_def client_body_def hello_suites_def hello_exts_def ext_defs ext_wire_def hello_short_def
      length_protocols sigalg_ids_def MAX_PLAINTEXT_def)

text \<open>The whole exchange, for one client, one server and any way the server's bytes arrive.\<close>

definition server_sends :: "tls_lib \<Rightarrow> server_answer \<Rightarrow> tls_msg list \<Rightarrow> inner_stream \<Rightarrow> bool" where
  "server_sends lib ans ms es \<longleftrightarrow> unbroken es \<and> server_msgs (Some (sa_data_keys ans)) 0 ms \<and>
     (\<exists>ms0 ms1. carries None ms0 (sa_hello ans) \<and> carries (Some (sa_keys ans)) ms1 (sa_flight ans)
        \<and> arriving es = msgs_wire lib None ms0 @ msgs_wire lib (Some (sa_keys ans)) ms1 @ msgs_wire lib (Some (sa_data_keys ans)) ms)"

definition client_wrote :: "tls_lib \<Rightarrow> client_hello \<Rightarrow> server_answer \<Rightarrow> bytes" where
  "client_wrote lib hello ans =
     msg_wire lib None (Clear Handshake 1 (ch_handshake hello)) @ msg_wire lib None (Clear ChangeCipherSpec 3 [1])
       @ msg_wire lib (Some (sa_client_keys ans)) (Sealed Handshake (sa_client_finished ans) 0)"

lemma hs_state_start:
  assumes "reads_ok s" "roomy s" "rp_fits (tr_read s)" "incoming s = msgs_wire lib (tr_read s) ms @ y" "carries (tr_read s) ms raw" "hr_buf r = []"
  shows "hs_state lib s r raw y"
  using assms unfolding hs_state_def by (intro conjI exI [of _ ms] exI [of _ raw]) simp_all

lemma reads_ok_parts [simp]:
  "reads_ok (s\<lparr>tr_sink := k\<rparr>) = reads_ok s" "reads_ok (s\<lparr>tr_write := w\<rparr>) = reads_ok s" "reads_ok (s\<lparr>tr_read := q\<rparr>) = reads_ok s"
  "roomy (s\<lparr>tr_sink := k\<rparr>) = roomy s" "roomy (s\<lparr>tr_read := q\<rparr>) = roomy s"
  "incoming (s\<lparr>tr_sink := k\<rparr>) = incoming s" "incoming (s\<lparr>tr_write := w\<rparr>) = incoming s" "incoming (s\<lparr>tr_read := q\<rparr>) = incoming s"
  by (simp_all add: reads_ok_def tr_ok_def roomy_def incoming_def unread_def)

lemma keyed_handshake_ok:
  assumes ok: "tls_lib_ok lib" and small: "small_body ee" "small_body cm" "small_body cv" "small_body fin"
    and s: "reads_ok s" "roomy s" "tr_write s = None" "sink_good (tr_sink s)" "incoming s = msgs_wire lib (Some s1) ms1 @ msgs_wire lib (Some s2) ms"
    and r: "hr_buf r = []" "hr_leftover r = []"
    and carry: "carries (Some s1) ms1 (flight_wire [(8, ee), (11, cm), (15, cv)] @ hs_wire 20 fin)"
    and leaf: "extract_leaf cm = Inr cert" "assert_reality lib cert auth = Inr ()"
    and sec: "derive_handshake_secrets lib (su_hash suite) (lt_agree lib (ch_private hello) share)
        (lt_digest lib (su_hash suite) (ch_handshake hello @ sh)) = Inr (c_hs, s_hs, master)"
    and fin: "finished_verify lib (su_hash suite) s_hs (lt_digest lib (su_hash suite)
        (ch_handshake hello @ sh @ flight_wire [(8, ee), (11, cm), (15, cv)])) (hash_len (su_hash suite)) = Inr fin"
    and aft: "let after = lt_digest lib (su_hash suite) (ch_handshake hello @ sh @ flight_wire [(8, ee), (11, cm), (15, cv)] @ hs_wire 20 fin) in
       finished_verify lib (su_hash suite) c_hs after (hash_len (su_hash suite)) = Inr cfin \<and> length cfin = hash_len (su_hash suite)
       \<and> derive_secret lib (su_hash suite) master (as_bytes ''c ap traffic'') after (hash_len (su_hash suite)) = Inr c_ap
       \<and> derive_secret lib (su_hash suite) master (as_bytes ''s ap traffic'') after (hash_len (su_hash suite)) = Inr s_ap"
    and prot: "protection_new lib suite s_hs = Inr s1" "protection_new lib suite s_ap = Inr s2"
      "protection_new lib suite c_hs = Inr c1" "protection_new lib suite c_ap = Inr c2"
    and fits: "rp_fits (Some s1)" "rp_fits (Some s2)" "rp_fits (Some c1)"
  shows "\<exists>t. keyed_handshake lib auth hello sh suite share r s = (Inr (reality_stream_new t []), t)
    \<and> reads_ok t \<and> tr_read t = Some s2 \<and> tr_write t = Some c2 \<and> incoming t = msgs_wire lib (Some s2) ms
    \<and> stream_size (tr_in t) \<le> stream_size (tr_in s)
    \<and> written (tr_sink t) = written (tr_sink s) @ msg_wire lib None (Clear ChangeCipherSpec 3 [1])
        @ msg_wire lib (Some c1) (Sealed Handshake (hs_wire 20 cfin) 0)"
proof -
  let ?fl = "flight_wire [(8, ee), (11, cm), (15, cv)]" and ?h = "su_hash suite" and ?tr = "ch_handshake hello @ sh"
  let ?s = "s\<lparr>tr_read := Some s1\<rparr>"
  have "hs_state lib ?s r (?fl @ hs_wire 20 fin) (msgs_wire lib (Some s2) ms)"
    by (rule hs_state_start [where ms = ms1]) (use s fits(1) carry r(1) in simp_all)
  moreover have "finished_verify lib ?h s_hs (lt_digest lib ?h (?tr @ ?fl)) (hash_len ?h) = Inr fin" using fin by simp
  ultimately obtain r' t where f: "server_flight lib ?h s_hs 0 None ?tr r ?s = (Inr (Some cert, ?tr @ ?fl @ hs_wire 20 fin, r'), t)"
    "hs_state lib t r' [] (msgs_wire lib (Some s2) ms)" "hs_kept ?s r t r'"
    using server_flight_answer [OF ok small _ leaf(1)] by blast
  note t = hs_state_done [OF f(2)]
  have w: "tr_write t = None" "sink_good (tr_sink t)" "tr_sink t = tr_sink s" "hr_leftover r' = []" "stream_size (tr_in t) \<le> stream_size (tr_in s)"
    using f(3) s(3,4) r(2) by (simp_all add: hs_kept_def same_writer_def)
  note a = aft [unfolded Let_def]
  have "lt_digest lib ?h (?tr @ ?fl @ hs_wire 20 fin) = lt_digest lib ?h (ch_handshake hello @ sh @ ?fl @ hs_wire 20 fin)" by simp
  note a' = a [folded this]
  obtain k where k: "finish_handshake lib suite c_hs master auth (Some cert, ?tr @ ?fl @ hs_wire 20 fin, r') t
      = (let t = t\<lparr>tr_sink := k, tr_write := Some c2, tr_read := Some s2\<rparr> in (Inr (reality_stream_new t (hr_leftover r')), t))"
    "written k = written (tr_sink t) @ msg_wire lib None (Clear ChangeCipherSpec 3 [1]) @ msg_wire lib (Some c1) (Sealed Handshake (hs_wire 20 cfin) 0)"
    using finish_handshake_ok [OF ok w(1,2) leaf(2) prot(3) fits(3)] a' prot(2,4) by blast
  have "keyed_handshake lib auth hello sh suite share r s
      = finish_handshake lib suite c_hs master auth (Some cert, ?tr @ ?fl @ hs_wire 20 fin, r') t"
    using sec prot(1) f(1) by (simp add: keyed_handshake_def rec_bind_def rec_lift_def use_keys_def Let_def)
  then show ?thesis using k t w by (auto simp: Let_def)
qed

text \<open>What the client needs of an answer with the flight \<open>fl\<close> and the Finished \<open>fin\<close>.\<close>

definition good_answer ::
  "tls_lib \<Rightarrow> client_hello \<Rightarrow> bytes \<Rightarrow> cipher_suite \<Rightarrow> bytes \<Rightarrow> (u8 \<times> bytes) list \<Rightarrow> bytes \<Rightarrow> server_answer \<Rightarrow> bool" where
  "good_answer lib hello auth suite share fl fin ans \<longleftrightarrow>
     (let h = su_hash suite; n = hash_len h; before = ch_handshake hello @ sa_hello ans @ flight_wire fl;
          after = lt_digest lib h (ch_handshake hello @ sa_hello ans @ flight_wire fl @ hs_wire 20 fin) in
      sa_flight ans = flight_wire fl @ hs_wire 20 fin \<and> small_body fin
      \<and> (\<exists>ee cm cv cert. fl = [(8, ee), (11, cm), (15, cv)] \<and> small_body ee \<and> small_body cm \<and> small_body cv
           \<and> extract_leaf cm = Inr cert \<and> assert_reality lib cert auth = Inr ())
      \<and> (\<exists>c_hs s_hs master cfin c_ap s_ap.
           derive_handshake_secrets lib h (lt_agree lib (ch_private hello) share) (lt_digest lib h (ch_handshake hello @ sa_hello ans))
             = Inr (c_hs, s_hs, master)
           \<and> finished_verify lib h s_hs (lt_digest lib h before) n = Inr fin
           \<and> (finished_verify lib h c_hs after n = Inr cfin \<and> length cfin = n
              \<and> derive_secret lib h master (as_bytes ''c ap traffic'') after n = Inr c_ap
              \<and> derive_secret lib h master (as_bytes ''s ap traffic'') after n = Inr s_ap)
           \<and> protection_new lib suite s_hs = Inr (sa_keys ans) \<and> protection_new lib suite s_ap = Inr (sa_data_keys ans)
           \<and> protection_new lib suite c_hs = Inr (sa_client_keys ans) \<and> protection_new lib suite c_ap = Inr (sa_client_data ans)
           \<and> sa_client_finished ans = hs_wire 20 cfin)
      \<and> rp_fits (Some (sa_keys ans)) \<and> rp_fits (Some (sa_data_keys ans)) \<and> rp_fits (Some (sa_client_keys ans)))"

lemma keyed_handshake_runs:
  assumes ok: "tls_lib_ok lib" and good: "good_answer lib hello auth suite share fl fin ans"
    and s: "reads_ok s" "roomy s" "tr_write s = None" "sink_good (tr_sink s)"
      "incoming s = msgs_wire lib (Some (sa_keys ans)) ms1 @ msgs_wire lib (Some (sa_data_keys ans)) ms"
    and r: "hr_buf r = []" "hr_leftover r = []" and carry: "carries (Some (sa_keys ans)) ms1 (sa_flight ans)"
  shows "\<exists>t. keyed_handshake lib auth hello (sa_hello ans) suite share r s = (Inr (reality_stream_new t []), t)
    \<and> reads_ok t \<and> tr_read t = Some (sa_data_keys ans) \<and> tr_write t = Some (sa_client_data ans)
    \<and> incoming t = msgs_wire lib (Some (sa_data_keys ans)) ms \<and> stream_size (tr_in t) \<le> stream_size (tr_in s)
    \<and> written (tr_sink t) = written (tr_sink s) @ msg_wire lib None (Clear ChangeCipherSpec 3 [1])
        @ msg_wire lib (Some (sa_client_keys ans)) (Sealed Handshake (sa_client_finished ans) 0)"
proof -
  note g = good [unfolded good_answer_def Let_def]
  obtain ee cm cv cert where m: "fl = [(8, ee), (11, cm), (15, cv)]" "small_body ee" "small_body cm" "small_body cv" "small_body fin"
    "extract_leaf cm = Inr cert" "assert_reality lib cert auth = Inr ()"
    using g by blast
  have c: "carries (Some (sa_keys ans)) ms1 (flight_wire [(8, ee), (11, cm), (15, cv)] @ hs_wire 20 fin)" using carry g m(1) by simp
  show ?thesis
    using g unfolding m(1)
    by (elim conjE exE) (simp only:, rule keyed_handshake_ok [OF ok m(2-5) s r c m(6,7)]; (simp only: Let_def; blast)?)
qed

lemma handshake_runs:
  assumes ok: "tls_lib_ok lib" and k: "sink_good k"
    and f: "first_flight lib idna b64 priv random now server_name pbk short_id alpn = Inr (hello, auth)"
    and hello: "length (ch_handshake hello) \<le> MAX_PLAINTEXT" "ch_handshake hello \<noteq> []"
    and sh: "sa_hello ans = hs_wire 2 body" "small_body body" "parse_server_hello (sa_hello ans) (ch_handshake hello) = Inr (suite, share)"
    and good: "good_answer lib hello auth suite share fl fin ans" and sends: "server_sends lib ans ms es"
  shows "\<exists>st t. reality_handshake lib idna b64 priv random now server_name pbk short_id alpn (tls_records_new es k) = (Inr st, t)
      \<and> written (tr_sink t) = written k @ client_wrote lib hello ans
      \<and> tr_write (rs_records st) = Some (sa_client_data ans)
      \<and> (\<forall>caps. (\<forall>n \<in> set caps. 0 < n) \<and> length (server_data ms) + stream_size es < length caps \<longrightarrow>
          delivered (fst (read_many (reality_poll_read lib) caps st)) = server_data ms)"
proof -
  let ?k1 = "Some (sa_keys ans)" and ?k2 = "Some (sa_data_keys ans)" and ?h = "ch_handshake hello"
  obtain ms0 ms1 where ms: "unbroken es" "server_msgs ?k2 0 ms" "carries None ms0 (sa_hello ans)" "carries ?k1 ms1 (sa_flight ans)"
    "arriving es = msgs_wire lib None ms0 @ msgs_wire lib ?k1 ms1 @ msgs_wire lib ?k2 ms"
    using sends by (auto simp: server_sends_def)
  let ?s0 = "tls_records_new es k" and ?r0 = "\<lparr>hr_buf = [], hr_leftover = []\<rparr>"
  have s0: "tr_write ?s0 = None" "tr_sink ?s0 = k" "tr_read ?s0 = None" "tr_in ?s0 = es" "roomy ?s0"
    by (simp_all add: tls_records_new_def roomy_def record_sizes)
  have "?s0 = ?s0\<lparr>tr_read := None\<rparr>" by (simp add: tls_records_new_def)
  then have s0r: "reads_ok ?s0" "incoming ?s0 = arriving es"
    using tls_records_new_ok(1) [of es None k] tls_records_new_ok(2) [of None es k] ms(1) by simp_all
  obtain k1 where k1: "write_record lib Handshake ?h ?s0 = (Inr (), ?s0\<lparr>tr_sink := k1\<rparr>)" "sink_good k1"
    "written k1 = written k @ msg_wire lib None (Clear Handshake 1 ?h)"
    using write_record_clear [OF s0(1) _ hello(1), of lib Handshake] k s0(2) hello(2) by auto
  have "hs_state lib (?s0\<lparr>tr_sink := k1\<rparr>) ?r0 (hs_wire 2 body @ []) (msgs_wire lib ?k1 ms1 @ msgs_wire lib ?k2 ms)"
    by (rule hs_state_start [where ms = ms0]) (use s0 s0r ms sh(1) in \<open>simp_all add: rp_fits_def\<close>)
  then obtain r1 t1 where n: "hs_next lib ?r0 (?s0\<lparr>tr_sink := k1\<rparr>) = (Inr (\<lparr>hm_ty = 2, hm_raw = hs_wire 2 body, hm_body = body\<rparr>, r1), t1)"
    "hs_state lib t1 r1 [] (msgs_wire lib ?k1 ms1 @ msgs_wire lib ?k2 ms)" "hs_kept (?s0\<lparr>tr_sink := k1\<rparr>) ?r0 t1 r1"
    using hs_next_state [OF ok sh(2)] by blast
  note t1 = hs_state_done [OF n(2)]
  have w1: "tr_write t1 = None" "tr_sink t1 = k1" "hr_leftover r1 = []" "stream_size (tr_in t1) \<le> stream_size es" "sink_good (tr_sink t1)"
    using n(3) s0 k1(2) by (simp_all add: hs_kept_def same_writer_def)
  have x: "reality_handshake lib idna b64 priv random now server_name pbk short_id alpn ?s0
      = keyed_handshake lib auth hello (sa_hello ans) suite share r1 t1"
    using f k1(1) n(1) sh(1,3) t1(4) by (simp add: reality_handshake_def rec_bind_def rec_lift_def)
  obtain t where t: "keyed_handshake lib auth hello (sa_hello ans) suite share r1 t1 = (Inr (reality_stream_new t []), t)"
    "reads_ok t" "tr_read t = ?k2" "tr_write t = Some (sa_client_data ans)" "incoming t = msgs_wire lib ?k2 ms" "stream_size (tr_in t) \<le> stream_size (tr_in t1)"
    "written (tr_sink t) = written (tr_sink t1) @ msg_wire lib None (Clear ChangeCipherSpec 3 [1])
      @ msg_wire lib (Some (sa_client_keys ans)) (Sealed Handshake (sa_client_finished ans) 0)"
    using keyed_handshake_runs [OF ok good t1(1,2) w1(1,5) t1(3,4) w1(3) ms(4)] by blast
  have "rp_fits ?k2" using good by (simp add: good_answer_def Let_def)
  then have "delivered (fst (read_many (reality_poll_read lib) caps (reality_stream_new t []))) = server_data ms"
    if "\<forall>n \<in> set caps. 0 < n" "length (server_data ms) + stream_size es < length caps" for caps
    by (rule stream_after_handshake [OF ok t(2,3) _ t(5) ms(2) that(1)]) (use that(2) t(6) w1(4) in simp)
  then show ?thesis using x t w1(2) k1(3) by (auto simp: client_wrote_def reality_stream_new_def)
qed

text \<open>The parts of the answer that do not depend on the secrets.\<close>

lemma answer_messages:
  assumes "tls_lib_ok lib" "server_fits sv" "length (slice 39 71 h) = 32"
  shows "small_body (sv_extensions sv)" "small_body (sv_verify sv)"
    "small_body (server_hello (sv_random sv) (slice 39 71 h) (sv_suite sv) (lt_public lib (sv_ephemeral sv)))"
    "small_body (cert_message (answer_cert lib sv auth) (sv_chain sv))"
    "extract_leaf (cert_message (answer_cert lib sv auth) (sv_chain sv)) = Inr (answer_cert lib sv auth)"
    "assert_reality lib (answer_cert lib sv auth) auth = Inr ()"
proof -
  let ?sig = "lt_hmac512 lib auth (sv_pk sv)"
  have cs: "cert_size (sv_cert sv) \<le> 16000000" "length (sv_pk sv) = 32" "length ?sig = 64"
    using assms(1,2) by (simp_all add: server_fits_def tls_lib_ok_def)
  note crt = read_ed25519_cert_made [OF cs]
  show "extract_leaf (cert_message (answer_cert lib sv auth) (sv_chain sv)) = Inr (answer_cert lib sv auth)"
    "small_body (cert_message (answer_cert lib sv auth) (sv_chain sv))"
    using extract_leaf_message [of "answer_cert lib sv auth" "sv_chain sv"] crt(2) assms(2)
    by (simp_all add: answer_cert_def server_fits_def cert_message_def small_body_def)
  show "assert_reality lib (answer_cert lib sv auth) auth = Inr ()"
    using crt(1) cs(3) by (simp add: assert_reality_def answer_cert_def verify_certificate_def)
  have "length (lt_public lib (sv_ephemeral sv)) = 32" using assms(1) by (simp add: tls_lib_ok_def)
  then show "small_body (server_hello (sv_random sv) (slice 39 71 h) (sv_suite sv) (lt_public lib (sv_ephemeral sv)))"
    using assms(2,3) by (simp add: server_fits_def small_body_def server_hello_def ext_wire_def)
  show "small_body (sv_extensions sv)" "small_body (sv_verify sv)" using assms(2) by (simp_all add: server_fits_def)
qed

text \<open>The server's answer is a good one for the client that made the hello.\<close>

lemma server_answer_good:
  assumes ok: "tls_lib_ok lib" and rc: "server_reads lib (sv_private sv) (ch_handshake hello) = Some rc" "rc_auth rc = auth"
      "rc_share rc = lt_public lib (ch_private hello)"
    and sv: "server_fits sv" "suite_from_id (sv_suite sv) = Some suite" and sess: "length (slice 39 71 (ch_handshake hello)) = 32"
  obtains ans fin where "server_answers lib sv (ch_handshake hello) = Inr ans" "sa_hello ans = answer_hello lib sv (ch_handshake hello)"
    "good_answer lib hello auth suite (lt_public lib (sv_ephemeral sv)) (answer_flight lib sv auth) fin ans"
proof -
  let ?kind = "su_hash suite" and ?h = "ch_handshake hello" and ?e = "sv_ephemeral sv"
  let ?sh = "answer_hello lib sv ?h" and ?fl = "answer_flight lib sv auth"
  obtain c_hs s_hs master fin cfin s_ap c_ap s1 s2 c1 c2 where
    sec: "derive_handshake_secrets lib ?kind (lt_agree lib ?e (rc_share rc)) (lt_digest lib ?kind (?h @ ?sh)) = Inr (c_hs, s_hs, master)"
    and fin: "finished_verify lib ?kind s_hs (lt_digest lib ?kind (?h @ ?sh @ flight_wire ?fl)) (hash_len ?kind) = Inr fin" "length fin = hash_len ?kind"
    and aft: "let after = lt_digest lib ?kind (?h @ ?sh @ flight_wire ?fl @ hs_wire 20 fin) in
       finished_verify lib ?kind c_hs after (hash_len ?kind) = Inr cfin \<and> length cfin = hash_len ?kind
       \<and> derive_secret lib ?kind master (as_bytes ''c ap traffic'') after (hash_len ?kind) = Inr c_ap
       \<and> derive_secret lib ?kind master (as_bytes ''s ap traffic'') after (hash_len ?kind) = Inr s_ap"
    and prot: "protection_new lib suite s_hs = Inr s1" "protection_new lib suite s_ap = Inr s2"
      "protection_new lib suite c_hs = Inr c1" "protection_new lib suite c_ap = Inr c2"
    and fits: "rp_fits (Some s1)" "rp_fits (Some s2)" "rp_fits (Some c1)" "rp_fits (Some c2)"
    and ans: "server_answers lib sv ?h = Inr \<lparr>sa_hello = ?sh, sa_flight = flight_wire ?fl @ hs_wire 20 fin, sa_keys = s1,
       sa_data_keys = s2, sa_client_keys = c1, sa_client_data = c2, sa_client_finished = hs_wire 20 cfin\<rparr>"
    by (rule server_answers_ok [OF ok rc(1) sv(2), unfolded rc(2)])
  have agree: "lt_agree lib (ch_private hello) (lt_public lib ?e) = lt_agree lib ?e (rc_share rc)"
    using ok rc(3) by (simp add: tls_lib_ok_def)
  have small: "small_body fin" using fin(2) by (cases ?kind) (simp_all add: small_body_def)
  let ?ans = "\<lparr>sa_hello = ?sh, sa_flight = flight_wire ?fl @ hs_wire 20 fin, sa_keys = s1,
       sa_data_keys = s2, sa_client_keys = c1, sa_client_data = c2, sa_client_finished = hs_wire 20 cfin\<rparr>"
  have parts: "\<exists>ee cm cv cert. ?fl = [(8, ee), (11, cm), (15, cv)] \<and> small_body ee \<and> small_body cm \<and> small_body cv
      \<and> extract_leaf cm = Inr cert \<and> assert_reality lib cert auth = Inr ()"
    unfolding answer_flight_def using answer_messages(1,2) [OF ok sv(1) sess] answer_messages(4,5,6) [OF ok sv(1) sess, of auth] by blast
  have sec': "derive_handshake_secrets lib ?kind (lt_agree lib (ch_private hello) (lt_public lib ?e)) (lt_digest lib ?kind (?h @ ?sh))
      = Inr (c_hs, s_hs, master)"
    using sec agree by simp
  have "good_answer lib hello auth suite (lt_public lib ?e) ?fl fin ?ans"
    unfolding good_answer_def Let_def server_answer.simps using small parts sec' fin(1) aft [unfolded Let_def] prot fits(1,2,3) by blast
  then show thesis by (rule that [OF ans, rotated]) simp
qed

lemma handshake_with_server:
  assumes ok: "tls_lib_ok lib" and rnd: "length random = 32" and short: "hello_short (to_alabel idna server_name) alpn"
    and pbk: "decode_pbk b64 pbk = Inr (lt_public lib (sv_private sv))" and sid: "parse_short_id short_id = Inr sid"
    and sv: "server_fits sv" and k: "sink_good k"
  shows "\<exists>hello auth ans. first_flight lib idna b64 priv random now server_name pbk short_id alpn = Inr (hello, auth)
    \<and> server_answers lib sv (ch_handshake hello) = Inr ans
    \<and> (\<forall>ms es. server_sends lib ans ms es \<longrightarrow>
        (\<exists>st t. reality_handshake lib idna b64 priv random now server_name pbk short_id alpn (tls_records_new es k) = (Inr st, t)
          \<and> written (tr_sink t) = written k @ client_wrote lib hello ans
          \<and> tr_write (rs_records st) = Some (sa_client_data ans)
          \<and> (\<forall>caps. (\<forall>n \<in> set caps. 0 < n) \<and> length (server_data ms) + stream_size es < length caps \<longrightarrow>
              delivered (fst (read_many (reality_poll_read lib) caps st)) = server_data ms)))"
proof -
  let ?name = "to_alabel idna server_name" and ?pub = "lt_public lib priv" and ?b = "sv_private sv"
  let ?E = "concat (map ext_wire (hello_exts ?name alpn ?pub))"
  obtain hello auth where f: "first_flight lib idna b64 priv random now server_name pbk short_id alpn = Inr (hello, auth)"
    and made: "hello_made lib idna priv random now server_name alpn (lt_public lib ?b) sid hello auth"
    using first_flight_made [OF ok rnd pbk sid] by blast
  have pub: "length ?pub = 32" "length (lt_public lib (sv_ephemeral sv)) = 32" using ok by (simp_all add: tls_lib_ok_def)
  obtain sealed where se: "ch_handshake hello = hello_wire random sealed ?E" "ch_private hello = priv" "length sealed = 32"
    using made by (auto simp: hello_made_def)
  let ?h = "ch_handshake hello"
  have short_hello: "length ?h \<le> MAX_PLAINTEXT" using hello_short_length [OF short rnd se(3) pub(1)] se(1) by simp
  have sess: "length (slice 39 71 ?h) = 32" "71 \<le> length ?h" "?h \<noteq> []"
    using hello_wire_split(1,2) [OF rnd se(3), of ?E] se(1,3) by auto
  obtain rc where rc: "server_reads lib ?b ?h = Some rc" "rc_auth rc = auth" "rc_share rc = lt_public lib (ch_private hello)"
    using hello_made_read [OF ok rnd hello_short_fits [OF short] made] se(2) by auto
  obtain suite where su: "suite_from_id (sv_suite sv) = Some suite" using sv by (auto simp: server_fits_def)
  obtain ans fin where ans: "server_answers lib sv ?h = Inr ans" "sa_hello ans = answer_hello lib sv ?h"
    "good_answer lib hello auth suite (lt_public lib (sv_ephemeral sv)) (answer_flight lib sv auth) fin ans"
    by (rule server_answer_good [OF ok rc sv su sess(1)])
  have "parse_server_hello (sa_hello ans) ?h = Inr (suite, lt_public lib (sv_ephemeral sv))"
    unfolding ans(2) answer_hello_def using parse_server_hello_wire [OF _ _ su pub(2) sess(2) refl] sv by (simp add: server_fits_def)
  then show ?thesis
    using f ans(1) handshake_runs [OF ok k f short_hello sess(3) ans(2) [unfolded answer_hello_def] answer_messages(3) [OF ok sv sess(1)] _ ans(3)]
    by blast
qed

text \<open>
  C34: With a server that holds the private key of the configured public key and answers as TLS 1.3
  prescribes, the handshake succeeds, however the server cuts its messages into records and however
  the records arrive: the client has sent its hello, a change-cipher-spec record and the Finished the
  server expects, writes with the keys the server reads with, and the stream delivers exactly the
  application data the server sends, session tickets and empty records in between skipped.
\<close>

theorem reality_handshake_delivers:
  assumes "tls_lib_ok lib" "length random = 32" "hello_short (to_alabel idna server_name) alpn"
    and "decode_pbk b64 pbk = Inr (lt_public lib (sv_private sv))" "parse_short_id short_id = Inr sid"
    and "server_fits sv" "sink_good k"
  shows "\<exists>hello auth ans. first_flight lib idna b64 priv random now server_name pbk short_id alpn = Inr (hello, auth)
    \<and> server_answers lib sv (ch_handshake hello) = Inr ans
    \<and> (\<forall>ms es. server_sends lib ans ms es \<longrightarrow>
        (\<exists>st t. reality_handshake lib idna b64 priv random now server_name pbk short_id alpn (tls_records_new es k) = (Inr st, t)
          \<and> written (tr_sink t) = written k @ client_wrote lib hello ans
          \<and> tr_write (rs_records st) = Some (sa_client_data ans)
          \<and> (\<forall>caps. (\<forall>n \<in> set caps. 0 < n) \<and> length (server_data ms) + stream_size es < length caps \<longrightarrow>
              delivered (fst (read_many (reality_poll_read lib) caps st)) = server_data ms)))"
  by (rule handshake_with_server [OF assms])

subsection \<open>Examples\<close>

text \<open>Any bytes can be carried, for instance one in each record.\<close>

lemma carries_bytes:
  "carries (Some rp) (map (\<lambda>b. Sealed Handshake [b] 0) raw) raw" "carries None (map (\<lambda>b. Clear Handshake 3 [b]) raw) raw"
proof -
  show "carries (Some rp) (map (\<lambda>b. Sealed Handshake [b] 0) raw) raw"
    by (induction raw arbitrary: rp) (simp_all add: record_sizes)
  show "carries None (map (\<lambda>b. Clear Handshake 3 [b]) raw) raw" by (induction raw) (simp_all add: record_sizes)
qed

definition bytewise :: "tls_lib \<Rightarrow> server_answer \<Rightarrow> tls_msg list \<Rightarrow> bytes" where
  "bytewise lib ans ms =
     msgs_wire lib None (map (\<lambda>b. Clear Handshake 3 [b]) (sa_hello ans))
       @ msgs_wire lib (Some (sa_keys ans)) (map (\<lambda>b. Sealed Handshake [b] 0) (sa_flight ans))
       @ msgs_wire lib (Some (sa_data_keys ans)) ms"

lemma bytewise_sent:
  assumes "server_msgs (Some (sa_data_keys ans)) 0 ms"
  shows "server_sends lib ans ms [Data (bytewise lib ans ms)]"
  unfolding server_sends_def
  by (intro conjI exI [of _ "map (\<lambda>b. Clear Handshake 3 [b]) (sa_hello ans)"] exI [of _ "map (\<lambda>b. Sealed Handshake [b] 0) (sa_flight ans)"])
    (simp_all add: assms carries_bytes bytewise_def unbroken_def)

definition plain_server :: reality_server where
  "plain_server =
     \<lparr>sv_private = [9], sv_ephemeral = [1], sv_random = replicate 32 6, sv_suite = 0x1301, sv_extensions = [0, 0],
      sv_cert = \<lparr>cf_version = Some [2], cf_serial = [1], cf_alg = [], cf_issuer = [], cf_validity = [], cf_subject = [], cf_more = []\<rparr>,
      sv_pk = replicate 32 8, sv_chain = [], sv_verify = [0]\<rparr>"

lemma plain_server_fits: "server_fits plain_server"
proof -
  have "hd (replicate 32 6) \<noteq> hd HRR" by (simp add: HRR_def)
  then have "replicate 32 6 \<noteq> HRR" by metis
  then show ?thesis by (simp add: server_fits_def plain_server_def suite_from_id_def small_body_def cert_size_def)
qed

definition two_messages :: "tls_msg list" where
  "two_messages = [Sealed Handshake [4, 0] 0, Sealed ApplicationData [1, 2, 3] 5]"

lemma two_messages: "server_msgs (Some rp) 0 two_messages" "server_data two_messages = [1, 2, 3]"
  by (simp_all add: two_messages_def record_sizes HANDSHAKE_NEW_SESSION_TICKET_def)

theorem reality_handshake_delivers_witness:
  "\<exists>es st t. reality_handshake plain_tls_lib (\<lambda>h. None) plain_b64 [8] (replicate 32 2) 5 ''a.com'' ''key'' (Some ''01aB'') [''h2'']
      (tls_records_new es \<lparr>slots = [Accept 3, Block], written = []\<rparr>) = (Inr st, t)
    \<and> delivered (fst (read_many (reality_poll_read plain_tls_lib) (replicate (9 + stream_size es) 2) st)) = [1, 2, 3]"
proof -
  have "hello_short (to_alabel (\<lambda>h. None) ''a.com'') [''h2'']" by (simp add: plain_parts(3) hello_short_def)
  moreover have "decode_pbk plain_b64 ''key'' = Inr (lt_public plain_tls_lib (sv_private plain_server))"
    using plain_parts(1) by (simp add: plain_server_def)
  moreover have "sink_good \<lparr>slots = [Accept 3, Block], written = []\<rparr>" by (simp add: sink_good_def)
  ultimately obtain hello auth ans where a: "\<forall>ms es. server_sends plain_tls_lib ans ms es \<longrightarrow>
        (\<exists>st t. reality_handshake plain_tls_lib (\<lambda>h. None) plain_b64 [8] (replicate 32 2) 5 ''a.com'' ''key'' (Some ''01aB'') [''h2'']
            (tls_records_new es \<lparr>slots = [Accept 3, Block], written = []\<rparr>) = (Inr st, t)
          \<and> written (tr_sink t) = written \<lparr>slots = [Accept 3, Block], written = []\<rparr> @ client_wrote plain_tls_lib hello ans
          \<and> tr_write (rs_records st) = Some (sa_client_data ans)
          \<and> (\<forall>caps. (\<forall>n \<in> set caps. 0 < n) \<and> length (server_data ms) + stream_size es < length caps \<longrightarrow>
              delivered (fst (read_many (reality_poll_read plain_tls_lib) caps st)) = server_data ms))"
    using reality_handshake_delivers [OF plain_tls_lib_ok _ _ _ plain_parts(2) plain_server_fits, of "replicate 32 2" "\<lambda>h. None" "''a.com''" "[''h2'']"
        plain_b64 "''key''" "\<lparr>slots = [Accept 3, Block], written = []\<rparr>" "[8]" 5] by auto
  let ?es = "[Data (bytewise plain_tls_lib ans two_messages)]"
  have "server_sends plain_tls_lib ans two_messages ?es" by (rule bytewise_sent [OF two_messages(1)])
  then obtain st t where "reality_handshake plain_tls_lib (\<lambda>h. None) plain_b64 [8] (replicate 32 2) 5 ''a.com'' ''key'' (Some ''01aB'') [''h2'']
            (tls_records_new ?es \<lparr>slots = [Accept 3, Block], written = []\<rparr>) = (Inr st, t)"
    "\<forall>caps. (\<forall>n \<in> set caps. 0 < n) \<and> length [1 :: u8, 2, 3] + stream_size ?es < length caps \<longrightarrow>
        delivered (fst (read_many (reality_poll_read plain_tls_lib) caps st)) = [1, 2, 3]"
    using a two_messages(2) by metis
  then show ?thesis by (intro exI [of _ ?es] exI [of _ st] exI [of _ t]) (simp del: stream_size.simps)
qed

text \<open>A run with that server, for the theorem on what a successful handshake has checked.\<close>

lemma plain_handshake:
  "\<exists>es st t. reality_handshake plain_tls_lib (\<lambda>h. None) plain_b64 [8] (replicate 32 2) 5 ''a.com'' ''key'' (Some ''01aB'') []
      (tls_records_new es \<lparr>slots = [], written = []\<rparr>) = (Inr st, t)"
proof -
  have "hello_short (to_alabel (\<lambda>h. None) ''a.com'') []" by (simp add: plain_parts(3) hello_short_def)
  moreover have "decode_pbk plain_b64 ''key'' = Inr (lt_public plain_tls_lib (sv_private plain_server))"
    using plain_parts(1) by (simp add: plain_server_def)
  ultimately obtain ans where "\<forall>ms es. server_sends plain_tls_lib ans ms es \<longrightarrow>
        (\<exists>st t. reality_handshake plain_tls_lib (\<lambda>h. None) plain_b64 [8] (replicate 32 2) 5 ''a.com'' ''key'' (Some ''01aB'') []
            (tls_records_new es \<lparr>slots = [], written = []\<rparr>) = (Inr st, t))"
    using handshake_with_server [OF plain_tls_lib_ok _ _ _ plain_parts(2) plain_server_fits, of "replicate 32 2" "\<lambda>h. None" "''a.com''" "[]"
        plain_b64 "''key''" "\<lparr>slots = [], written = []\<rparr>" "[8]" 5] by (auto simp: sink_good_def) blast
  then show ?thesis using bytewise_sent [of ans "[]"] by fastforce
qed

end
