(* ===== verification/RealityAuth.thy ===== *)
theory RealityAuth
  imports RealityServer
begin

text \<open>
  What a client knows once \<^verbatim>\<open>handshake\<close> of \<^verbatim>\<open>crates/clash-proxynet/src/reality/handshake.rs\<close> has
  succeeded, said about the bytes that arrived: how an observer with the keys reads records and the
  handshake messages in them off the wire, and the theorem that the bytes the client has consumed
  are such records, with a ServerHello, a certificate and a Finished that authenticate the server.
\<close>

section \<open>Records and handshake bytes on the wire\<close>

text \<open>
  A record is a header of five bytes with a 16-bit length and a body. Without keys, or when it is a
  change-cipher-spec record, the body is its content. Otherwise the body opens, under the next nonce and
  with the header as associated data, to the content, the byte of its type and any number of zeros.
\<close>

inductive wire_record :: "tls_lib \<Rightarrow> record_protection option \<Rightarrow> bytes \<Rightarrow> tls_record \<Rightarrow> record_protection option \<Rightarrow> bool" for lib where
  in_clear: "content_from_u8 t = Some ty \<Longrightarrow> length body = unat l1 * 256 + unat l2 \<Longrightarrow> ro = None \<or> ty = ChangeCipherSpec \<Longrightarrow>
    wire_record lib ro ([t, v1, v2, l1, l2] @ body) (ty, body) ro"
| protected: "length body = unat l1 * 256 + unat l2 \<Longrightarrow> set zeros \<subseteq> {0} \<Longrightarrow>
    lt_open lib (rp_aead rp) (rp_key rp) (build_nonce (rp_iv rp) (rp_seq rp)) [t, v1, v2, l1, l2] body
      = Some (payload @ content_byte ty # zeros) \<Longrightarrow>
    wire_record lib (Some rp) ([t, v1, v2, l1, l2] @ body) (ty, payload) (Some (rp\<lparr>rp_seq := rp_seq rp + 1\<rparr>))"

text \<open>A run of records carries the bytes of its handshake records; others may stand between them.\<close>

inductive wire_handshake :: "tls_lib \<Rightarrow> record_protection option \<Rightarrow> bytes \<Rightarrow> bytes \<Rightarrow> record_protection option \<Rightarrow> bool" for lib where
  no_record: "wire_handshake lib ro [] [] ro"
| handshake_record: "wire_record lib ro w (Handshake, p) ro1 \<Longrightarrow> wire_handshake lib ro1 ws bs ro2 \<Longrightarrow>
    wire_handshake lib ro (w @ ws) (p @ bs) ro2"
| other_record: "wire_record lib ro w (ty, p) ro1 \<Longrightarrow> ty = ChangeCipherSpec \<or> ty = ApplicationData \<Longrightarrow>
    wire_handshake lib ro1 ws bs ro2 \<Longrightarrow> wire_handshake lib ro (w @ ws) bs ro2"

lemma wire_handshake_append:
  "wire_handshake lib ro w bs ro1 \<Longrightarrow> wire_handshake lib ro1 w' bs' ro2 \<Longrightarrow> wire_handshake lib ro (w @ w') (bs @ bs') ro2"
  by (induction rule: wire_handshake.induct) (auto intro: wire_handshake.intros)

section \<open>The client reads records off the wire\<close>

lemma inner_type_bytes:
  assumes "inner_type bs = Some (p, t)"
  shows "\<exists>zeros. bs = p @ t # zeros \<and> set zeros \<subseteq> {0}"
proof -
  let ?d = "dropWhile (\<lambda>b. b = 0) (rev bs)" and ?t = "takeWhile (\<lambda>b. b = 0) (rev bs)"
  have d: "?d = t # rev p" using assms by (auto simp: inner_type_def split: list.splits)
  have "rev bs = ?t @ t # rev p" using takeWhile_dropWhile_id [of "\<lambda>b. b = 0" "rev bs"] d by simp
  then have "bs = p @ t # rev ?t" by (metis append.assoc append_Cons append_Nil rev.simps(2) rev_append rev_rev_ident)
  moreover have "set (rev ?t) \<subseteq> {0}" using set_takeWhileD by fastforce
  ultimately show ?thesis by blast
qed

lemma content_from_u8_byte: "content_from_u8 b = Some ty \<Longrightarrow> b = content_byte ty"
  by (auto simp: content_from_u8_def split: if_splits)

lemma header_bytes: "length h = 5 \<Longrightarrow> h = [h ! 0, h ! 1, h ! 2, h ! 3, h ! 4]"
  by (auto simp: length_Suc_conv numeral_eq_Suc)

lemma open_record_wire:
  assumes "open_record lib rp h body s = (Inr (Some (ty, p)), s')" "length h = 5"
    and "length body = unat (h ! 3) * 256 + unat (h ! 4)"
  shows "wire_record lib (Some rp) (h @ body) (ty, p) (tr_read s')"
proof -
  obtain pl where u: "lt_open lib (rp_aead rp) (rp_key rp) (build_nonce (rp_iv rp) (rp_seq rp)) h body = Some pl"
    and i: "\<exists>t. inner_type pl = Some (p, t) \<and> content_from_u8 t = Some ty" and r: "tr_read s' = Some (rp\<lparr>rp_seq := rp_seq rp + 1\<rparr>)"
    using assms(1) by (auto simp: open_record_def unprotect_def Let_def split: option.splits prod.splits sum.splits)
  obtain zeros where z: "pl = p @ content_byte ty # zeros" "set zeros \<subseteq> {0}"
    using i inner_type_bytes content_from_u8_byte by blast
  obtain a b c d e where h: "h = [a, b, c, d, e]" using header_bytes [OF assms(2)] by blast
  show ?thesis
    unfolding r using protected [of body d e zeros lib rp a b c p ty] assms(3) z u by (simp add: h)
qed

lemma slice_split: "a \<le> m \<Longrightarrow> m \<le> b \<Longrightarrow> slice a b xs = slice a m xs @ slice m b xs"
proof -
  assume a: "a \<le> m" "m \<le> b"
  define k where "k = m - a"
  define n where "n = b - m"
  have e: "m = a + k" "b = a + k + n" using a by (simp_all add: k_def n_def)
  show ?thesis unfolding e slice_def by (simp add: take_add add.commute)
qed

lemma try_read_wire:
  assumes "try_read_buffered lib s = (Inr (Some rec), s')" "tr_ok s"
  shows "\<exists>w. unread s = w @ unread s' \<and> wire_record lib (tr_read s) w rec (tr_read s') \<and> tr_ok s'"
proof -
  obtain ty p where rec: "rec = (ty, p)" by fastforce
  define h where "h = slice (tr_start s) (tr_start s + HEADER_LEN) (tr_inbound s)"
  define n where "n = unat (h ! 3) * 256 + unat (h ! 4)"
  define body where "body = slice (tr_start s + HEADER_LEN) (tr_start s + HEADER_LEN + n) (tr_inbound s)"
  define t where "t = s\<lparr>tr_start := tr_start s + (HEADER_LEN + n)\<rparr>"
  note folds = h_def [symmetric] n_def [symmetric] body_def [symmetric] t_def [symmetric]
  have room: "\<not> tr_end s - tr_start s < HEADER_LEN + n"
    using assms(1) by (auto simp: try_read_buffered_def Let_def folds split: if_splits)
  have tr: "tr_read t = tr_read s" by (simp add: t_def)
  have ok: "tr_start s \<le> tr_end s" "tr_end s \<le> length (tr_inbound s)" using assms(2) by (simp_all add: tr_ok_def)
  have lens: "length h = 5" "length body = n" using room ok by (simp_all add: h_def body_def slice_def HEADER_LEN_def)
  have u: "unread s = (h @ body) @ unread t"
    using slice_split [of "tr_start s" "tr_start s + HEADER_LEN" "tr_end s" "tr_inbound s"]
      slice_split [of "tr_start s + HEADER_LEN" "tr_start s + HEADER_LEN + n" "tr_end s" "tr_inbound s"] room ok HEADER_LEN_def
    by (auto simp: unread_def t_def h_def body_def add.assoc)
  obtain cty where c: "content_from_u8 (h ! 0) = Some cty"
    using assms(1) room by (auto simp: try_read_buffered_def Let_def folds split: if_splits option.splits)
  show ?thesis
  proof (cases "tr_read s = None \<or> cty = ChangeCipherSpec")
    case True
    then have "rec = (cty, body)" "s' = t"
      using assms(1) room c tr by (auto simp: try_read_buffered_def Let_def folds split: if_splits option.splits)
    moreover have "wire_record lib (tr_read s) (h @ body) (cty, body) (tr_read s)"
    proof -
      obtain a b d e f where h: "h = [a, b, d, e, f]" using header_bytes [OF lens(1)] by blast
      show ?thesis using in_clear [of a cty body e f "tr_read s" lib b d] c True lens(2) by (simp add: h n_def)
    qed
    ultimately show ?thesis using u ok room by (intro exI [of _ "h @ body"]) (auto simp: t_def tr_ok_def)
  next
    case False
    then obtain rp where rp: "tr_read s = Some rp" by (cases "tr_read s") auto
    have o: "open_record lib rp h body t = (Inr (Some (ty, p)), s')"
      using assms(1) room c False rp rec tr by (auto simp: try_read_buffered_def Let_def folds split: if_splits)
    have same: "unread s' = unread t" "tr_ok s' = tr_ok t"
      using o by (auto simp: open_record_def unread_def tr_ok_def Let_def split: option.splits prod.splits sum.splits)
    show ?thesis
      using open_record_wire [OF o lens(1)] lens(2) u ok room rp rec same
      by (intro exI [of _ "h @ body"]) (auto simp: n_def t_def tr_ok_def)
  qed
qed

lemma await_read_arriving: "await_read cap es = (Inr bs, es') \<Longrightarrow> arriving es = bs @ arriving es'"
  by (induction cap es arbitrary: es' rule: await_read.induct) (auto split: if_splits)

lemma read_record_loop_wire:
  assumes "read_record_loop lib s = (Inr rec, s')" "tr_ok s"
  shows "\<exists>w. incoming s = w @ incoming s' \<and> wire_record lib (tr_read s) w rec (tr_read s') \<and> tr_ok s'"
  using assms
proof (induction "stream_size (tr_in s)" arbitrary: s rule: less_induct)
  case less
  define c where "c = compact_inbound s"
  note co = compact_inbound_unread [OF less.prems(2), folded c_def]
  have ci: "tr_in c = tr_in s" "tr_read c = tr_read s" by (simp_all add: c_def)
  obtain q es where q: "await_read (length (tr_inbound c) - tr_end c) (tr_in c) = (q, es)" by fastforce
  obtain bs where bs: "q = Inr bs" "bs \<noteq> []"
    using less.prems q by (subst (asm) read_record_loop.simps) (auto simp: Let_def simp flip: c_def split: sum.splits if_splits)
  define v where "v = c\<lparr>tr_in := es, tr_inbound := put_at (tr_end c) bs (tr_inbound c), tr_end := tr_end c + length bs\<rparr>"
  have fits: "tr_end c + length bs \<le> length (tr_inbound c)"
    using await_read_cap q bs(1) co(1) by (fastforce simp: tr_ok_def)
  have v: "tr_ok v" "incoming v = incoming s" "tr_read v = tr_read s"
    using co fits append_inbound_unread [OF co(1) fits] await_read_arriving [of _ "tr_in c" bs es] q bs(1) ci
    by (simp_all add: v_def tr_ok_def incoming_def unread_def)
  have smaller: "stream_size (tr_in v) < stream_size (tr_in s)"
    using await_read_got [of _ "tr_in c" bs es] q bs ci by (simp add: v_def)
  obtain w t where w: "try_read_buffered lib v = (w, t)" by fastforce
  have x: "read_record_loop lib s = (case (w, t) of
               (Inl e, s) \<Rightarrow> (Inl e, s) | (Inr (Some r), s) \<Rightarrow> (Inr r, s) | (Inr None, s) \<Rightarrow> read_record_loop lib s)"
    using q bs w by (subst read_record_loop.simps) (simp add: Let_def v_def flip: c_def)
  consider (some) r0 where "w = Inr (Some r0)" | (none) "w = Inr None" | (err) e where "w = Inl e"
    by (metis old.sum.exhaust option.exhaust)
  then show ?case
  proof cases
    case some
    then have e: "rec = r0" "s' = t" using x less.prems(1) by simp_all
    obtain b where "unread v = b @ unread t" "wire_record lib (tr_read v) b r0 (tr_read t)" "tr_ok t"
      using try_read_wire [of lib v r0 t] w some v(1) by auto
    then show ?thesis
      using v(2,3) try_read_parts(1) [OF w] unfolding e by (intro exI [of _ b]) (simp add: incoming_def)
  next
    case none
    then have "t = v" using w try_read_none by blast
    then show ?thesis using less.hyps [OF smaller _ v(1)] x none less.prems(1) v(2,3) by simp
  qed (use x less.prems in simp)
qed

lemma read_record_wire:
  assumes "read_record lib s = (Inr rec, s')" "tr_ok s"
  shows "\<exists>w. incoming s = w @ incoming s' \<and> wire_record lib (tr_read s) w rec (tr_read s') \<and> tr_ok s'"
proof -
  obtain w t where w: "try_read_buffered lib s = (w, t)" by fastforce
  consider (some) r0 where "w = Inr (Some r0)" | (none) "w = Inr None" | (err) e where "w = Inl e"
    by (metis old.sum.exhaust option.exhaust)
  then show ?thesis
  proof cases
    case some
    then have "rec = r0" "s' = t" using assms(1) w by (simp_all add: read_record_def)
    then show ?thesis using try_read_wire [of lib s r0 t] w some assms(2) try_read_parts(1) [OF w] by (auto simp: incoming_def)
  next
    case none
    then have "t = s" using w try_read_none by blast
    then show ?thesis using read_record_loop_wire [of lib s rec s'] assms w none by (simp add: read_record_def)
  qed (use assms w in \<open>simp add: read_record_def\<close>)
qed

section \<open>The client reads handshake messages off the wire\<close>

text \<open>A message as \<^verbatim>\<open>try_take\<close> cuts it: type, 24-bit length and body.\<close>

definition whole_message :: "hs_msg \<Rightarrow> bool" where
  "whole_message m \<longleftrightarrow> (\<exists>l1 l2 l3. hm_raw m = [hm_ty m, l1, l2, l3] @ hm_body m
     \<and> length (hm_body m) = unat l1 * 65536 + unat l2 * 256 + unat l3)"

lemma try_take_cuts:
  assumes "try_take r = Some (m, r')"
  shows "hr_buf r = hm_raw m @ hr_buf r' \<and> whole_message m"
proof -
  define n where "n = unat (hr_buf r ! 1) * 65536 + unat (hr_buf r ! 2) * 256 + unat (hr_buf r ! 3)"
  have l: "4 + n \<le> length (hr_buf r)"
    and m: "m = \<lparr>hm_ty = take (4 + n) (hr_buf r) ! 0, hm_raw = take (4 + n) (hr_buf r), hm_body = drop 4 (take (4 + n) (hr_buf r))\<rparr>"
      "r' = r\<lparr>hr_buf := drop (4 + n) (hr_buf r)\<rparr>"
    using assms by (auto simp: try_take_def Let_def n_def split: if_splits)
  obtain a b c d z where z: "hr_buf r = a # b # c # d # z"
    using l by (cases "hr_buf r" rule: list.exhaust; cases "tl (hr_buf r)"; cases "tl (tl (hr_buf r))"; cases "tl (tl (tl (hr_buf r)))") auto
  have k: "take (4 + k) (a # b # c # d # z) = [a, b, c, d] @ take k z" "drop (4 + k) (a # b # c # d # z) = drop k z" for k
    by (simp_all add: numeral_eq_Suc)
  show ?thesis using l unfolding m z k by (auto simp: whole_message_def n_def z)
qed

lemma feed_wire:
  assumes "feed k rec r = Inr r'" "wire_record lib ro w rec ro1" "wire_handshake lib ro1 ws bs ro2"
  obtains p where "wire_handshake lib ro (w @ ws) (p @ bs) ro2" "hr_buf r' = hr_buf r @ p"
proof -
  obtain ty p where rec: "rec = (ty, p)" by fastforce
  show thesis
  proof (cases "ty = Handshake")
    case True
    then show thesis using assms that [of p] handshake_record rec by (auto simp: feed_def split: if_splits)
  next
    case False
    then have "ty = ChangeCipherSpec \<or> ty = ApplicationData" "hr_buf r' = hr_buf r"
      using assms(1) rec by (cases ty; auto simp: feed_def split: if_splits)+
    then show thesis using assms that [of "[]"] other_record rec by simp
  qed
qed

lemma hs_next_wire:
  assumes "hs_next lib r s = (Inr (m, r'), s')" "tr_ok s"
  shows "\<exists>w bs. incoming s = w @ incoming s' \<and> wire_handshake lib (tr_read s) w bs (tr_read s')
    \<and> hr_buf r @ bs = hm_raw m @ hr_buf r' \<and> whole_message m \<and> tr_ok s'"
  using assms
proof (induction lib r s arbitrary: rule: hs_next.induct)
  case (1 lib r s)
  show ?case
  proof (cases "try_take r")
    case (Some x)
    then have "x = (m, r')" "s' = s" using "1.prems"(1) by (subst (asm) hs_next.simps, simp)+
    then show ?thesis using try_take_cuts [of r m r'] Some "1.prems"(2)
      by (intro exI [of _ "[]"]) (auto intro: no_record)
  next
    case None
    obtain rec t where t: "read_record lib s = (Inr rec, t)"
      using "1.prems"(1) None by (subst (asm) hs_next.simps) (auto split: prod.splits sum.splits)
    obtain r1 where f: "feed (tr_read t \<noteq> None) rec r = Inr r1"
      using "1.prems"(1) None t by (subst (asm) hs_next.simps) (auto split: sum.splits)
    have n: "hs_next lib r1 t = (Inr (m, r'), s')"
      using "1.prems"(1) None t f by (subst (asm) hs_next.simps) simp
    obtain w where w: "incoming s = w @ incoming t" "wire_record lib (tr_read s) w rec (tr_read t)" "tr_ok t"
      using read_record_wire [OF t "1.prems"(2)] by blast
    obtain ws bs where i: "incoming t = ws @ incoming s'" "wire_handshake lib (tr_read t) ws bs (tr_read s')"
      "hr_buf r1 @ bs = hm_raw m @ hr_buf r'" "whole_message m" "tr_ok s'"
      using "1.IH" [OF None t [symmetric] refl f n w(3)] by blast
    obtain p where p: "wire_handshake lib (tr_read s) (w @ ws) (p @ bs) (tr_read s')" "hr_buf r1 = hr_buf r @ p"
      by (rule feed_wire [OF f w(2) i(2)])
    show ?thesis using w(1) i p by (intro exI [of _ "w @ ws"] exI [of _ "p @ bs"]) simp
  qed
qed

text \<open>The flight: messages, among them the certificate that was kept, and a Finished that fits them.\<close>

lemma server_flight_wire:
  assumes "server_flight lib h s_hs flight leaf transcript r s = (Inr (leaf', transcript', r'), s')" "tr_ok s"
  shows "\<exists>(msgs :: hs_msg list) (fin :: hs_msg) w bs. hm_ty fin = 20
    \<and> verify_finished lib h s_hs (lt_digest lib h (transcript @ concat (map hm_raw msgs))) (hm_body fin) = Inr ()
    \<and> (leaf' = leaf \<or> (\<exists>m \<in> set msgs. hm_ty m = 11 \<and> (\<exists>c. extract_leaf (hm_body m) = Inr c \<and> leaf' = Some c)))
    \<and> incoming s = w @ incoming s' \<and> wire_handshake lib (tr_read s) w bs (tr_read s')
    \<and> hr_buf r @ bs = concat (map hm_raw msgs) @ hm_raw fin @ hr_buf r' \<and> list_all whole_message (msgs @ [fin])"
  using assms
proof (induction lib h s_hs flight leaf transcript r s arbitrary: leaf' transcript' r' s' rule: server_flight.induct)
  case (1 lib h s_hs flight leaf transcript r s)
  obtain msg r1 t where n: "hs_next lib r s = (Inr (msg, r1), t)"
    using "1.prems"(1) by (subst (asm) server_flight.simps) (auto split: prod.splits sum.splits)
  obtain w bs where w: "incoming s = w @ incoming t" "wire_handshake lib (tr_read s) w bs (tr_read t)"
    "hr_buf r @ bs = hm_raw msg @ hr_buf r1" "whole_message msg" "tr_ok t"
    using hs_next_wire [OF n "1.prems"(2)] by blast
  have few: "\<not> MAX_FLIGHT < flight + 1"
    using "1.prems"(1) n by (subst (asm) server_flight.simps) (auto simp: Let_def split: if_splits)
  have more: ?case
    if ih: "\<exists>(msgs :: hs_msg list) (fin :: hs_msg) w bs. hm_ty fin = 20
      \<and> verify_finished lib h s_hs (lt_digest lib h ((transcript @ hm_raw msg) @ concat (map hm_raw msgs))) (hm_body fin) = Inr ()
      \<and> (leaf' = l1 \<or> (\<exists>m \<in> set msgs. hm_ty m = 11 \<and> (\<exists>c. extract_leaf (hm_body m) = Inr c \<and> leaf' = Some c)))
      \<and> incoming t = w @ incoming s' \<and> wire_handshake lib (tr_read t) w bs (tr_read s')
      \<and> hr_buf r1 @ bs = concat (map hm_raw msgs) @ hm_raw fin @ hr_buf r' \<and> list_all whole_message (msgs @ [fin])"
      and l1: "l1 = leaf \<or> hm_ty msg = 11 \<and> (\<exists>c. extract_leaf (hm_body msg) = Inr c \<and> l1 = Some c)" for l1
  proof -
    obtain msgs :: "hs_msg list" and fin :: hs_msg and ws cs where i: "hm_ty fin = 20"
      "verify_finished lib h s_hs (lt_digest lib h ((transcript @ hm_raw msg) @ concat (map hm_raw msgs))) (hm_body fin) = Inr ()"
      "leaf' = l1 \<or> (\<exists>m \<in> set msgs. hm_ty m = 11 \<and> (\<exists>c. extract_leaf (hm_body m) = Inr c \<and> leaf' = Some c))"
      "incoming t = ws @ incoming s'" "wire_handshake lib (tr_read t) ws cs (tr_read s')"
      "hr_buf r1 @ cs = concat (map hm_raw msgs) @ hm_raw fin @ hr_buf r'" "list_all whole_message (msgs @ [fin])"
      using ih by blast
    have "hr_buf r @ bs @ cs = concat (map hm_raw (msg # msgs)) @ hm_raw fin @ hr_buf r'" using w(3) i(6) by (metis append.assoc concat.simps(2) list.map(2))
    moreover have "leaf' = leaf \<or> (\<exists>m \<in> set (msg # msgs). hm_ty m = 11 \<and> (\<exists>c. extract_leaf (hm_body m) = Inr c \<and> leaf' = Some c))"
      using i(3) l1 by auto
    moreover have "verify_finished lib h s_hs (lt_digest lib h (transcript @ concat (map hm_raw (msg # msgs)))) (hm_body fin) = Inr ()"
      using i(2) by simp
    moreover have "incoming s = (w @ ws) @ incoming s'" using w(1) i(4) by simp
    moreover have "list_all whole_message ((msg # msgs) @ [fin])" using w(4) i(7) by simp
    ultimately show ?thesis using i(1) wire_handshake_append [OF w(2) i(5)] by blast
  qed
  consider (other) "hm_ty msg = 8 \<or> hm_ty msg = 15" | (cert) c where "\<not> (hm_ty msg = 8 \<or> hm_ty msg = 15)" "hm_ty msg = 11" "extract_leaf (hm_body msg) = Inr c"
    | (fin) "hm_ty msg = 20" "verify_finished lib h s_hs (lt_digest lib h transcript) (hm_body msg) = Inr ()"
      "leaf' = leaf" "r' = r1" "s' = t"
    using "1.prems"(1) n few by (subst (asm) server_flight.simps) (auto simp: Let_def split: if_splits sum.splits)
  then show ?case
  proof cases
    case other
    then have "server_flight lib h s_hs (flight + 1) leaf (transcript @ hm_raw msg) r1 t = (Inr (leaf', transcript', r'), s')"
      using "1.prems"(1) n few by (subst (asm) server_flight.simps) (simp add: Let_def)
    from more [OF "1.IH"(1) [OF n [symmetric] refl refl refl few other this w(5)]] show ?thesis by simp
  next
    case cert
    then have "server_flight lib h s_hs (flight + 1) (Some c) (transcript @ hm_raw msg) r1 t = (Inr (leaf', transcript', r'), s')"
      using "1.prems"(1) n few by (subst (asm) server_flight.simps) (simp add: Let_def)
    from more [OF "1.IH"(2) [OF n [symmetric] refl refl refl few cert this w(5)]] cert(2,3) show ?thesis by simp
  next
    case fin
    then show ?thesis using w by (intro exI [of _ "[]"] exI [of _ msg] exI [of _ w] exI [of _ bs]) simp
  qed
qed

section \<open>What a successful handshake has checked\<close>

text \<open>
  The bytes received are records in clear that carry a ServerHello made for this hello, then records under
  the keys the server derives with it, which carry messages up to a Finished. One message is a certificate
  that carries as signature the HMAC of its own Ed25519 key under \<open>auth\<close>; the Finished is the one the secrets
  give for the transcript of everything before it.
\<close>

definition authentic_answer :: "tls_lib \<Rightarrow> bytes \<Rightarrow> client_hello \<Rightarrow> bytes \<Rightarrow> bytes \<Rightarrow> bool" where
  "authentic_answer lib priv hello auth received \<longleftrightarrow>
     (\<exists>(sh :: hs_msg) clear sealed suite share c_hs s_hs master rp ro (msgs :: hs_msg list) (fin :: hs_msg) tail_bytes cert_msg cert pk.
        received = clear @ sealed
        \<and> wire_handshake lib None clear (hm_raw sh) None \<and> whole_message sh \<and> hm_ty sh = 2
        \<and> parse_server_hello (hm_raw sh) (ch_handshake hello) = Inr (suite, share)
        \<and> derive_handshake_secrets lib (su_hash suite) (lt_agree lib priv share)
            (lt_digest lib (su_hash suite) (ch_handshake hello @ hm_raw sh)) = Inr (c_hs, s_hs, master)
        \<and> protection_new lib suite s_hs = Inr rp
        \<and> wire_handshake lib (Some rp) sealed (concat (map hm_raw msgs) @ hm_raw fin @ tail_bytes) ro
        \<and> list_all whole_message (msgs @ [fin])
        \<and> cert_msg \<in> set msgs \<and> hm_ty cert_msg = 11 \<and> extract_leaf (hm_body cert_msg) = Inr cert
        \<and> read_ed25519_cert cert = Some (pk, lt_hmac512 lib auth pk)
        \<and> hm_ty fin = 20
        \<and> finished_verify lib (su_hash suite) s_hs
            (lt_digest lib (su_hash suite) (ch_handshake hello @ hm_raw sh @ concat (map hm_raw msgs))) (hash_len (su_hash suite))
          = Inr (hm_body fin))"

lemma write_record_reads:
  assumes "write_record lib ty bs s = (r, s')"
  shows "incoming s' = incoming s" "tr_read s' = tr_read s" "tr_ok s' = tr_ok s"
  using assms
  by (auto simp: write_record_def stage_record_def bind_result_def incoming_def unread_def tr_ok_def Let_def
      split: if_splits sum.splits option.splits prod.splits)

lemma finish_handshake_reads:
  assumes "finish_handshake lib suite c_hs master auth (leaf, transcript, r) s = (Inr st, s')"
  shows "incoming s' = incoming s" "\<exists>cert. leaf = Some cert \<and> assert_reality lib cert auth = Inr ()"
proof -
  have keys: "incoming (s\<lparr>tr_write := a\<rparr>) = incoming s" "incoming (s\<lparr>tr_write := a, tr_read := b\<rparr>) = incoming s" for s a b
    by (simp_all add: incoming_def unread_def)
  obtain cert where cert: "leaf = Some cert" using assms by (cases leaf) (auto simp: finish_handshake_def rec_lift_Inr)
  then show "\<exists>cert. leaf = Some cert \<and> assert_reality lib cert auth = Inr ()"
    using assms by (auto simp: finish_handshake_def rec_bind_Inr rec_lift_Inr Let_def)
  show "incoming s' = incoming s"
    using assms cert by (auto simp: finish_handshake_def rec_bind_Inr rec_lift_Inr use_keys_def Let_def keys dest!: write_record_reads(1))
qed

lemma handshake_stream_records:
  assumes "keyed_handshake lib auth hello sh suite share r s = (Inr st, s')"
  shows "incoming (rs_records st) = incoming s'"
proof -
  have "rs_records st = s'"
    using assms by (auto simp: keyed_handshake_def finish_handshake_def rec_bind_Inr rec_lift_Inr Let_def reality_stream_new_def split: option.splits)
  then show ?thesis by simp
qed

lemma keyed_handshake_wire:
  assumes "keyed_handshake lib auth hello sh suite share r s = (Inr st, s')" "tr_ok s" "hr_buf r = []"
  shows "\<exists>c_hs s_hs master rp ro (msgs :: hs_msg list) (fin :: hs_msg) w tail_bytes cert_msg cert pk.
      derive_handshake_secrets lib (su_hash suite) (lt_agree lib (ch_private hello) share)
            (lt_digest lib (su_hash suite) (ch_handshake hello @ sh)) = Inr (c_hs, s_hs, master)
        \<and> protection_new lib suite s_hs = Inr rp \<and> incoming s = w @ incoming s'
        \<and> wire_handshake lib (Some rp) w (concat (map hm_raw msgs) @ hm_raw fin @ tail_bytes) ro
        \<and> list_all whole_message (msgs @ [fin])
        \<and> cert_msg \<in> set msgs \<and> hm_ty cert_msg = 11 \<and> extract_leaf (hm_body cert_msg) = Inr cert
        \<and> read_ed25519_cert cert = Some (pk, lt_hmac512 lib auth pk)
        \<and> hm_ty fin = 20
        \<and> finished_verify lib (su_hash suite) s_hs
            (lt_digest lib (su_hash suite) (ch_handshake hello @ sh @ concat (map hm_raw msgs))) (hash_len (su_hash suite)) = Inr (hm_body fin)"
proof -
  let ?h = "su_hash suite" and ?tr = "ch_handshake hello @ sh"
  obtain c_hs s_hs master rp leaf transcript r1 t1 where
    d: "derive_handshake_secrets lib ?h (lt_agree lib (ch_private hello) share) (lt_digest lib ?h ?tr) = Inr (c_hs, s_hs, master)"
      "protection_new lib suite s_hs = Inr rp"
    and f: "server_flight lib ?h s_hs 0 None ?tr r (s\<lparr>tr_read := Some rp\<rparr>) = (Inr (leaf, transcript, r1), t1)"
    and e: "finish_handshake lib suite c_hs master auth (leaf, transcript, r1) t1 = (Inr st, s')"
    using assms(1) by (auto simp: keyed_handshake_def rec_bind_Inr rec_lift_Inr use_keys_def Let_def)
  have ok: "tr_ok (s\<lparr>tr_read := Some rp\<rparr>)" "incoming (s\<lparr>tr_read := Some rp\<rparr>) = incoming s"
    "tr_read (s\<lparr>tr_read := Some rp\<rparr>) = Some rp"
    using assms(2) by (simp_all add: tr_ok_def incoming_def unread_def)
  obtain msgs :: "hs_msg list" and fin :: hs_msg and w bs where m: "hm_ty fin = 20"
    "verify_finished lib ?h s_hs (lt_digest lib ?h (?tr @ concat (map hm_raw msgs))) (hm_body fin) = Inr ()"
    "leaf = None \<or> (\<exists>m \<in> set msgs. hm_ty m = 11 \<and> (\<exists>c. extract_leaf (hm_body m) = Inr c \<and> leaf = Some c))"
    "incoming s = w @ incoming t1" "wire_handshake lib (Some rp) w bs (tr_read t1)"
    "bs = concat (map hm_raw msgs) @ hm_raw fin @ hr_buf r1" "list_all whole_message (msgs @ [fin])"
    using server_flight_wire [OF f ok(1), unfolded ok(2,3) assms(3) append_Nil] by blast
  obtain cert where c: "leaf = Some cert" "assert_reality lib cert auth = Inr ()" using finish_handshake_reads(2) [OF e] by blast
  obtain cert_msg where cm: "cert_msg \<in> set msgs" "hm_ty cert_msg = 11" "extract_leaf (hm_body cert_msg) = Inr cert"
    using m(3) c(1) by auto
  obtain pk where pk: "read_ed25519_cert cert = Some (pk, lt_hmac512 lib auth pk)"
    using c(2) by (auto simp: assert_reality_def verify_certificate_def split: option.splits if_splits)
  have fv: "finished_verify lib ?h s_hs (lt_digest lib ?h (ch_handshake hello @ sh @ concat (map hm_raw msgs))) (hash_len ?h) = Inr (hm_body fin)"
    using m(2) by (simp add: verify_finished_Inr)
  show ?thesis
    using d m(1,4,5,7) cm pk fv finish_handshake_reads(1) [OF e] unfolding m(6) by metis
qed

lemma tls_records_new_incoming: "incoming (tls_records_new es k) = arriving es" "tr_ok (tls_records_new es k)" "tr_read (tls_records_new es k) = None"
  by (simp_all add: tls_records_new_def incoming_def unread_def tr_ok_def slice_def)

lemma hs_next_clear: "hs_next lib r s = (Inr x, s') \<Longrightarrow> tr_read s = None \<Longrightarrow> tr_ok s \<Longrightarrow> tr_read s' = None"
proof -
  have rec: "wire_record lib ro w x ro' \<Longrightarrow> ro = None \<Longrightarrow> ro' = None" for ro w x ro' by (auto elim: wire_record.cases)
  have "wire_handshake lib ro w bs ro' \<Longrightarrow> ro = None \<Longrightarrow> ro' = None" for ro w bs ro'
    by (induction rule: wire_handshake.induct) (auto dest: rec)
  then show "hs_next lib r s = (Inr x, s') \<Longrightarrow> tr_read s = None \<Longrightarrow> tr_ok s \<Longrightarrow> tr_read s' = None"
    using hs_next_wire by (metis surj_pair)
qed

text \<open>
  C33: A REALITY handshake that succeeds has authenticated the server by the bytes it consumed. What has
  arrived splits into the bytes received and those still unread, and the received bytes are, in records, a
  ServerHello that answers this very hello, and under the keys agreed with its key share a flight with a
  certificate and a Finished: the certificate's signature is the HMAC of its own public key under the key
  agreed with the configured public key, and the Finished verifies the whole transcript before it. The
  primitives are arbitrary functions.
\<close>

theorem reality_handshake_authenticates:
  assumes "reality_handshake lib idna b64 priv random now server_name pbk short_id alpn (tls_records_new es k) = (Inr st, s')"
    and "length random = 32"
  shows "\<exists>public hello auth received. decode_pbk b64 pbk = Inr public
    \<and> first_flight lib idna b64 priv random now server_name pbk short_id alpn = Inr (hello, auth)
    \<and> auth = lt_expand lib Sha256 (lt_hmac lib Sha256 (take 20 random) (lt_agree lib priv public)) (as_bytes ''REALITY'') 32
    \<and> arriving es = received @ incoming (rs_records st)
    \<and> authentic_answer lib priv hello auth received"
proof -
  let ?s0 = "tls_records_new es k" and ?r0 = "\<lparr>hr_buf = [], hr_leftover = []\<rparr>"
  obtain hello auth where f: "first_flight lib idna b64 priv random now server_name pbk short_id alpn = Inr (hello, auth)"
    using assms(1) by (auto simp: reality_handshake_def rec_bind_Inr rec_lift_Inr)
  obtain s1 sh r t suite share where wr: "write_record lib Handshake (ch_handshake hello) ?s0 = (Inr (), s1)"
    and n: "hs_next lib ?r0 s1 = (Inr (sh, r), t)" "hm_ty sh = 2"
    and h: "parse_server_hello (hm_raw sh) (ch_handshake hello) = Inr (suite, share)" "hr_buf r = []"
    and kh: "keyed_handshake lib auth hello (hm_raw sh) suite share r t = (Inr st, s')"
    using assms(1) f by (auto simp: reality_handshake_def rec_bind_Inr rec_lift_Inr split: if_splits)
  note s1 = write_record_reads [OF wr, unfolded tls_records_new_incoming]
  have ok1: "tr_ok s1" using s1(3) tls_records_new_incoming(2) by metis
  obtain w bs where w: "incoming s1 = w @ incoming t" "wire_handshake lib None w bs (tr_read t)" "bs = hm_raw sh" "whole_message sh" "tr_ok t"
    using hs_next_wire [OF n(1) ok1] s1(2) h(2) by auto
  have rt: "tr_read t = None" by (rule hs_next_clear [OF n(1) s1(2) ok1])
  obtain public where p: "decode_pbk b64 pbk = Inr public" using first_flight_Inr [OF f] by blast
  let ?E = "concat (map ext_wire (hello_exts (to_alabel idna server_name) alpn (lt_public lib priv)))"
  have "slice 6 38 (hello_wire random (replicate 32 0) ?E) = random"
    using hello_wire_split [OF assms(2), of "replicate 32 0" ?E] by simp
  then have priv: "ch_private hello = priv"
    "auth = lt_expand lib Sha256 (lt_hmac lib Sha256 (take 20 random) (lt_agree lib priv public)) (as_bytes ''REALITY'') 32"
    using f p by (auto simp: first_flight_def bind_result_Inr_iff build_hello_wire derive_auth_key_def AUTH_KEY_SIZE_def Let_def split: if_splits)
  obtain c_hs s_hs master rp ro and msgs :: "hs_msg list" and fin :: hs_msg and w2 tail_bytes cert_msg cert pk where
    "derive_handshake_secrets lib (su_hash suite) (lt_agree lib priv share)
            (lt_digest lib (su_hash suite) (ch_handshake hello @ hm_raw sh)) = Inr (c_hs, s_hs, master)"
    "protection_new lib suite s_hs = Inr rp" and w2: "incoming t = w2 @ incoming s'" and
    "wire_handshake lib (Some rp) w2 (concat (map hm_raw msgs) @ hm_raw fin @ tail_bytes) ro"
    "list_all whole_message (msgs @ [fin])" "cert_msg \<in> set msgs" "hm_ty cert_msg = 11" "extract_leaf (hm_body cert_msg) = Inr cert"
    "read_ed25519_cert cert = Some (pk, lt_hmac512 lib auth pk)" "hm_ty fin = 20"
    "finished_verify lib (su_hash suite) s_hs
       (lt_digest lib (su_hash suite) (ch_handshake hello @ hm_raw sh @ concat (map hm_raw msgs))) (hash_len (su_hash suite)) = Inr (hm_body fin)"
    using keyed_handshake_wire [OF kh w(5) h(2), unfolded priv(1)] by blast
  moreover have "wire_handshake lib None w (hm_raw sh) None" using w(2,3) rt by simp
  ultimately have "authentic_answer lib priv hello auth (w @ w2)"
    unfolding authentic_answer_def using w(4) n(2) h(1)
    by (rule_tac x = sh in exI, rule_tac x = w in exI, rule_tac x = w2 in exI, rule_tac x = suite in exI, rule_tac x = share in exI) blast
  moreover have "arriving es = (w @ w2) @ incoming s'" using s1(1) w(1) w2 by simp
  moreover have "incoming (rs_records st) = incoming s'" by (rule handshake_stream_records [OF kh])
  ultimately show ?thesis using f p priv(2) by auto
qed

theorem reality_handshake_authenticates_witness:
  "\<exists>es (st :: reality_stream) hello auth received. first_flight plain_tls_lib (\<lambda>h. None) plain_b64 [8] (replicate 32 2) 5 ''a.com'' ''key'' (Some ''01aB'') [] = Inr (hello, auth)
    \<and> arriving es = received @ incoming (rs_records st) \<and> authentic_answer plain_tls_lib [8] hello auth received"
proof -
  obtain es st t where run: "reality_handshake plain_tls_lib (\<lambda>h. None) plain_b64 [8] (replicate 32 2) 5 ''a.com'' ''key'' (Some ''01aB'') []
      (tls_records_new es \<lparr>slots = [], written = []\<rparr>) = (Inr st, t)"
    using plain_handshake by blast
  have "length (replicate 32 2 :: bytes) = 32" by simp
  from reality_handshake_authenticates [OF run this] show ?thesis by blast
qed

end
