(* ===== verification/Catalog.thy ===== *)
theory Catalog
  imports ShareLinks YamlNodes
begin

text \<open>
  \<^verbatim>\<open>NodeCatalog\<close> of \<^verbatim>\<open>clash-core/src/config.rs\<close>: how the content of a subscription is recognised
  (YAML, JSON of Xray, sing-box or SIP008, a list of share links, any of these in base64) and
  turned into nodes. The results are about whatever comes out, for every content and every
  behaviour of the libraries: each node converts to dial options,
  the refusals of the dial's own checks are exactly two described ones, and a node that asks for TLS and
  is let through starts with it.
\<close>

section \<open>JSON formats\<close>

definition head_opt :: "'a list \<Rightarrow> 'a option" where
  "head_opt xs = (case xs of [] \<Rightarrow> None | x # _ \<Rightarrow> Some x)"

definition first_of :: "json \<Rightarrow> rstr \<Rightarrow> json option" where
  "first_of v k = Option.bind (Option.bind (jget v k) as_array) head_opt"

text \<open>Server, port, uuid, password, flow, cipher, alter id and user of an Xray outbound.\<close>

record xray_peer =
  xp_server :: rstr
  xp_port :: u16
  xp_uuid :: "rstr option"
  xp_password :: "rstr option"
  xp_flow :: "rstr option"
  xp_cipher :: "rstr option"
  xp_alter_id :: u16
  xp_username :: "rstr option"

definition xray_peer_of :: "rstr \<Rightarrow> json \<Rightarrow> xray_peer option" where
  "xray_peer_of protocol settings =
     (let peer = (\<lambda>server v. \<lparr>xp_server = server, xp_port = word_of_int (jint v ''port''), xp_uuid = None,
            xp_password = None, xp_flow = None, xp_cipher = None, xp_alter_id = 0, xp_username = None\<rparr>)
      in if protocol = ''vless'' \<or> protocol = ''vmess'' then
           Option.bind (first_of settings ''vnext'') (\<lambda>v.
           Option.bind (jstr v ''address'') (\<lambda>server.
           Option.bind (first_of v ''users'') (\<lambda>u.
             Some ((peer server v)\<lparr>xp_uuid := jstr u ''id'', xp_flow := jstr u ''flow'',
               xp_cipher := or_else (jstr u ''security'') (jstr u ''encryption''),
               xp_alter_id := word_of_nat (unwrap_or 0 (Option.bind (jget u ''alterId'') as_u64))\<rparr>))))
         else if protocol = ''ss'' then
           (let s = unwrap_or settings (first_of settings ''servers'') in
            Option.bind (jstr s ''address'') (\<lambda>server.
              Some ((peer server s)\<lparr>xp_password := jstr s ''password'', xp_cipher := jstr s ''method''\<rparr>)))
         else if protocol = ''socks5'' \<or> protocol = ''http'' then
           (let s = unwrap_or settings (first_of settings ''servers''); users = first_of s ''users'' in
            Option.bind (jstr s ''address'') (\<lambda>server.
              Some ((peer server s)\<lparr>
                xp_password := or_else (Option.bind users (\<lambda>u. jstr u ''pass'')) (jstr s ''password''),
                xp_username := or_else (Option.bind users (\<lambda>u. jstr u ''user'')) (jstr s ''user'')\<rparr>)))
         else
           Option.bind (first_of settings ''servers'') (\<lambda>s.
           Option.bind (jstr s ''address'') (\<lambda>server.
             Some ((peer server s)\<lparr>xp_password := jstr s ''password''\<rparr>))))"

text \<open>The transport and TLS settings, on top of a node that has the defaults of the code.\<close>

definition xray_stream :: "json \<Rightarrow> proxy_node \<Rightarrow> proxy_node" where
  "xray_stream stream n =
     (let network = unwrap_or ''tcp'' (jstr stream ''network'');
          security = lowercase (unwrap_or ''none'' (jstr stream ''security''));
          n = n\<lparr>pn_network := network, pn_security := Some security,
                pn_tls := (security = ''tls'' \<or> security = ''reality'')\<rparr>;
          n = (if security = ''reality'' then
                 (case jget stream ''realitySettings'' of
                    None \<Rightarrow> n
                  | Some rs \<Rightarrow> n\<lparr>pn_server_name := jstr rs ''serverName'', pn_client_fingerprint := jstr rs ''fingerprint'',
                      pn_reality_public_key := jstr rs ''publicKey'', pn_reality_short_id := jstr rs ''shortId''\<rparr>)
               else if security = ''tls'' then
                 (case jget stream ''tlsSettings'' of
                    None \<Rightarrow> n
                  | Some ts \<Rightarrow> n\<lparr>pn_server_name := jstr ts ''serverName'', pn_client_fingerprint := jstr ts ''fingerprint'',
                      pn_skip_cert_verify := unwrap_or False (Option.bind (jget ts ''allowInsecure'') as_bool)\<rparr>)
               else n)
      in if network = ''ws'' \<or> network = ''websocket'' then
           (case jget stream ''wsSettings'' of
              None \<Rightarrow> n
            | Some ws \<Rightarrow> n\<lparr>pn_network := ''ws'', pn_ws_path := jstr ws ''path'',
                pn_ws_host := Option.bind (jget ws ''headers'') (\<lambda>h. jstr h ''Host'')\<rparr>)
         else n)"

definition map_xray :: "json \<Rightarrow> proxy_node option" where
  "map_xray ob =
     Option.bind (jstr ob ''protocol'') (\<lambda>p.
       let protocol = normalize_type p in
       if protocol \<notin> set supported_types then None
       else
         Option.bind (jget ob ''settings'') (\<lambda>settings.
         Option.bind (xray_peer_of protocol settings) (\<lambda>x.
           if trim (xp_server x) = [] \<or> xp_port x = 0 then None
           else
             (let n = default_node\<lparr>
                  pn_name := unwrap_or (xp_server x) (opt_filter (\<lambda>s. trim s \<noteq> []) (jstr ob ''tag'')),
                  pn_type := protocol, pn_server := xp_server x, pn_port := xp_port x, pn_uuid := xp_uuid x,
                  pn_password := xp_password x, pn_flow := xp_flow x, pn_security := Some ''none'',
                  pn_cipher := xp_cipher x, pn_username := xp_username x, pn_alter_id := xp_alter_id x\<rparr>
              in Some (case jget ob ''streamSettings'' of None \<Rightarrow> n | Some stream \<Rightarrow> xray_stream stream n)))))"

definition singbox_transport :: "json option \<Rightarrow> proxy_node \<Rightarrow> proxy_node" where
  "singbox_transport tr n =
     (case tr of
        None \<Rightarrow> n
      | Some tr \<Rightarrow>
          (let network = lowercase (unwrap_or ''tcp'' (jstr tr ''type'')) in
           if network = ''ws'' \<or> network = ''websocket'' then
             n\<lparr>pn_network := ''ws'', pn_ws_path := jstr tr ''path'',
               pn_ws_host := Option.bind (jget tr ''headers'') (\<lambda>h. jstr h ''Host'')\<rparr>
           else n\<lparr>pn_network := network\<rparr>))"

definition not_disabled :: "json \<Rightarrow> bool" where
  "not_disabled v \<longleftrightarrow> Option.bind (jget v ''enabled'') as_bool \<noteq> Some False"

definition singbox_tls :: "json option \<Rightarrow> proxy_node \<Rightarrow> proxy_node" where
  "singbox_tls el n =
     (case el of
        None \<Rightarrow> n
      | Some el \<Rightarrow>
          if not_disabled el then
            (let n = n\<lparr>pn_tls := True, pn_security := Some ''tls'', pn_server_name := jstr el ''server_name'',
                   pn_client_fingerprint := Option.bind (jget el ''utls'') (\<lambda>u. jstr u ''fingerprint''),
                   pn_skip_cert_verify := unwrap_or False (Option.bind (jget el ''insecure'') as_bool)\<rparr>
             in case jget el ''reality'' of
                  None \<Rightarrow> n
                | Some r \<Rightarrow>
                    if not_disabled r then
                      n\<lparr>pn_security := Some ''reality'', pn_reality_public_key := jstr r ''public_key'',
                        pn_reality_short_id := jstr r ''short_id''\<rparr>
                    else n)
          else n)"

definition map_singbox :: "json \<Rightarrow> proxy_node option" where
  "map_singbox ob =
     Option.bind (jstr ob ''type'') (\<lambda>t.
       let ty = normalize_type t in
       if ty \<notin> set supported_types then None
       else
         Option.bind (jstr ob ''server'') (\<lambda>server.
           let port = (word_of_int (jint ob ''server_port'') :: u16) in
           if trim server = [] \<or> port = 0 then None
           else
             Some (singbox_tls (jget ob ''tls'') (singbox_transport (jget ob ''transport'') (default_node\<lparr>
               pn_name := unwrap_or server (opt_filter (\<lambda>s. trim s \<noteq> []) (jstr ob ''tag'')), pn_type := ty,
               pn_server := server, pn_port := port, pn_uuid := jstr ob ''uuid'', pn_password := jstr ob ''password'',
               pn_flow := jstr ob ''flow'', pn_security := Some ''none'',
               pn_cipher := or_else (jstr ob ''method'') (jstr ob ''cipher''), pn_username := jstr ob ''username'',
               pn_alter_id := word_of_nat (unwrap_or 0 (Option.bind (jget ob ''alter_id'') as_u64)),
               pn_plugin := jstr ob ''plugin'', pn_plugin_opts := jstr ob ''plugin_opts''\<rparr>)))))"

definition sip008_node :: "json \<Rightarrow> proxy_node option" where
  "sip008_node s =
     Option.bind (jstr s ''server'') (\<lambda>server.
     Option.bind (jstr s ''password'') (\<lambda>pw.
       let port = (word_of_int (jint s ''server_port'') :: u16) in
       if server = [] \<or> port = 0 then None
       else Some (default_node\<lparr>
         pn_name := unwrap_or server (opt_filter (\<lambda>n. n \<noteq> []) (jstr s ''remarks'')), pn_type := ''ss'',
         pn_server := server, pn_port := port, pn_password := Some pw, pn_cipher := jstr s ''method'',
         pn_plugin := jstr s ''plugin'', pn_plugin_opts := jstr s ''plugin_opts''\<rparr>)))"

definition parse_sip008 :: "json \<Rightarrow> proxy_node list" where
  "parse_sip008 v =
     (case Option.bind (jget v ''servers'') as_array of
        None \<Rightarrow> []
      | Some servers \<Rightarrow> List.map_filter sip008_node servers)"

definition map_outbound :: "json \<Rightarrow> proxy_node option" where
  "map_outbound ob =
     (if jget ob ''protocol'' \<noteq> None then map_xray ob
      else if jget ob ''type'' \<noteq> None then map_singbox ob
      else None)"

definition try_parse_json :: "json_fn \<Rightarrow> rstr \<Rightarrow> proxy_node list" where
  "try_parse_json json text =
     (case json text of
        None \<Rightarrow> []
      | Some v \<Rightarrow>
          (case Option.bind (jget v ''outbounds'') as_array of
             None \<Rightarrow>
               if Option.bind (jget v ''servers'') as_array \<noteq> None then filter_all (parse_sip008 v) else []
           | Some obs \<Rightarrow> filter_all (List.map_filter map_outbound obs)))"

section \<open>Lists of links and base64\<close>

abbreviation line_break :: "char \<Rightarrow> bool" where
  "line_break c \<equiv> c = CHR 13 \<or> c = CHR 10"

definition blank :: "char \<Rightarrow> bool" where
  "blank c \<longleftrightarrow> c = CHR '' '' \<or> c = CHR 9"

definition line_parts :: "rstr \<Rightarrow> rstr list" where
  "line_parts raw =
     (let line = trim raw in
      if line = [] \<or> starts_with ''#'' line then []
      else if contains_str ''://'' line \<and> list_ex blank line
      then filter (\<lambda>s. s \<noteq> []) (split_at blank line)
      else [line])"

definition parse_uri_list :: "libs \<Rightarrow> rstr \<Rightarrow> proxy_node list" where
  "parse_uri_list L text =
     List.map_filter (parse_share_link L) (concat (map line_parts (split_at line_break text)))"

definition looks_like_uri_list :: "rstr \<Rightarrow> bool" where
  "looks_like_uri_list text \<longleftrightarrow>
     list_ex (\<lambda>l. let t = trim l in t \<noteq> [] \<and> \<not> starts_with ''#'' t \<and> contains_str ''://'' t)
       (split_at line_break text)"

definition try_decode_b64 :: "b64_fn \<Rightarrow> rstr \<Rightarrow> rstr option" where
  "try_decode_b64 b64 text =
     (let compact = drop_whitespace text in
      if length compact < 16 then None
      else
        or_else
          (opt_filter (\<lambda>d. contains_str ''://'' d \<or> contains_str ''proxies:'' d \<or> starts_with ''{'' (trim_start d))
            (Option.bind (b64 (b64_pad compact)) from_utf8))
          (opt_filter (\<lambda>s. s \<noteq> []) (Option.bind (b64 (b64_pad (b64_alt compact))) from_utf8)))"

definition decode_utf8 :: "bytes \<Rightarrow> rstr" where
  "decode_utf8 raw =
     (if 3 \<le> length raw \<and> take 3 raw = [0xEF, 0xBB, 0xBF] then from_utf8_lossy (drop 3 raw) else from_utf8_lossy raw)"

section \<open>Recognising the content\<close>

definition bom :: rstr where "bom = str_of [0xEF, 0xBB, 0xBF]"

definition strip_text :: "rstr \<Rightarrow> rstr" where
  "strip_text text = trim_start_matches bom (trim text)"

definition yaml_nodes :: "rstr \<Rightarrow> panic + proxy_node list" where
  "yaml_nodes text = bind_result (load_proxies_yaml text) (\<lambda>ns. Inr (filter_all ns))"

text \<open>What \<^verbatim>\<open>parse_text\<close> tries before base64, and \<open>None\<close> when nothing fits.\<close>

definition parse_direct :: "libs \<Rightarrow> rstr \<Rightarrow> (panic + proxy_node list) option" where
  "parse_direct L text =
     (if text = [] then Some (Inr [])
      else if contains_str ''proxies:'' text then Some (yaml_nodes text)
      else
        (let trimmed = trim_start text;
             from_json = (if starts_with ''{'' trimmed \<or> starts_with ''['' trimmed
                          then try_parse_json (lib_json L) trimmed else [])
         in if from_json \<noteq> [] then Some (Inr from_json)
            else if looks_like_uri_list text then Some (Inr (filter_all (parse_uri_list L text)))
            else None))"

definition parse_inner :: "libs \<Rightarrow> rstr \<Rightarrow> panic + proxy_node list" where
  "parse_inner L text = unwrap_or (Inr []) (parse_direct L (strip_text text))"

definition parse_text :: "libs \<Rightarrow> bool \<Rightarrow> rstr \<Rightarrow> panic + proxy_node list" where
  "parse_text L allow_b64 text =
     (let text = strip_text text in
      case parse_direct L text of
        Some r \<Rightarrow> r
      | None \<Rightarrow>
          if \<not> allow_b64 then Inr []
          else
            (case try_decode_b64 (lib_b64 L) text of
               None \<Rightarrow> Inr []
             | Some decoded \<Rightarrow>
                 bind_result (parse_inner L decoded) (\<lambda>found.
                   if found \<noteq> [] then Inr found
                   else if looks_like_uri_list decoded then Inr (filter_all (parse_uri_list L decoded))
                   else if contains_str ''proxies:'' decoded then yaml_nodes decoded
                   else Inr [])))"

lemma parse_inner_eq: "parse_text L False text = parse_inner L text"
  by (cases "parse_direct L (strip_text text)") (simp_all add: parse_text_def parse_inner_def Let_def)

definition catalog_parse :: "libs \<Rightarrow> bytes \<Rightarrow> panic + proxy_node list" where
  "catalog_parse L raw = parse_text L True (decode_utf8 raw)"

section \<open>Every node that comes out can be dialled\<close>

abbreviation typed :: "proxy_node \<Rightarrow> bool" where
  "typed n \<equiv> pn_type n \<in> set supported_types"

text \<open>Every parser gives its nodes a supported type.\<close>

lemma supported_literals:
  "''vless'' \<in> set supported_types" "''trojan'' \<in> set supported_types" "''ss'' \<in> set supported_types"
  "''vmess'' \<in> set supported_types" "''socks5'' \<in> set supported_types" "''http'' \<in> set supported_types"
  by (simp_all add: supported_types_def)

lemma guard_Some_iff: "(if P then None else r) = Some n \<longleftrightarrow> \<not> P \<and> r = Some n"
  by simp

lemmas parser_iff = Let_def bind_eq_Some_conv map_option_eq_Some guard_Some_iff option.inject

lemma vless_link_type: "parse_vless u l = Some n \<Longrightarrow> pn_type n = ''vless''"
  unfolding parse_vless_def parser_iff by (elim exE conjE, hypsubst, simp)

lemma trojan_link_type: "parse_trojan u l = Some n \<Longrightarrow> pn_type n = ''trojan''"
  unfolding parse_trojan_def parser_iff by (elim exE conjE, hypsubst, simp)

lemma ss_link_type: "parse_ss b i l = Some n \<Longrightarrow> pn_type n = ''ss''"
  unfolding parse_ss_def parser_iff case_prod_unfold by (elim exE conjE, hypsubst, simp)

lemma vmess_link_type: "parse_vmess b j l = Some n \<Longrightarrow> pn_type n = ''vmess''"
  unfolding parse_vmess_def parser_iff by (elim exE conjE, hypsubst, simp)

lemma socks_link_type: "parse_socks_link u l = Some n \<Longrightarrow> pn_type n = ''socks5''"
  unfolding parse_socks_link_def parser_iff by (elim exE conjE, hypsubst, simp)

lemma http_link_type: "parse_http_link u l = Some n \<Longrightarrow> pn_type n = ''http''"
  unfolding parse_http_link_def parser_iff by (elim exE conjE, hypsubst, simp)

lemmas link_types = vless_link_type trojan_link_type ss_link_type vmess_link_type socks_link_type http_link_type

lemma link_typed: "parse_share_link L line = Some n \<Longrightarrow> typed n"
proof -
  let ?low = "lowercase (trim line)"
  assume "parse_share_link L line = Some n"
  then consider "parse_vless (lib_url L) (trim line) = Some n" | "parse_trojan (lib_url L) (trim line) = Some n"
    | "parse_ss (lib_b64 L) (lib_iter L) (trim line) = Some n" | "parse_vmess (lib_b64 L) (lib_json L) (trim line) = Some n"
    | "parse_socks_link (lib_url L) (trim line) = Some n" | "parse_http_link (lib_url L) (trim line) = Some n"
    unfolding parse_share_link_def Let_def by (metis option.distinct(1))
  then show ?thesis by cases (simp_all only: link_types supported_literals)
qed

lemma yaml_typed: "yaml_to_node p = Some n \<Longrightarrow> typed n"
  by (auto simp: yaml_to_node_def yaml_base_node_def Let_def split: if_splits option.splits)

lemma singbox_keeps_type: "pn_type (singbox_tls a n) = pn_type n" "pn_type (singbox_transport b n) = pn_type n"
  by (simp_all add: singbox_tls_def singbox_transport_def Let_def split: option.splits)

lemma xray_keeps_type: "pn_type (xray_stream s n) = pn_type n"
  by (simp add: xray_stream_def Let_def split: option.splits)

lemma xray_typed: "map_xray ob = Some n \<Longrightarrow> typed n"
  by (auto simp: map_xray_def bind_eq_Some_conv Let_def xray_keeps_type split: if_splits option.splits)

lemma singbox_typed: "map_singbox ob = Some n \<Longrightarrow> typed n"
  by (auto simp: map_singbox_def bind_eq_Some_conv Let_def singbox_keeps_type split: if_splits)

lemma sip008_typed: "sip008_node s = Some n \<Longrightarrow> typed n"
  by (auto simp: sip008_node_def bind_eq_Some_conv Let_def supported_literals split: if_splits)

lemma outbound_typed: "map_outbound ob = Some n \<Longrightarrow> typed n"
  using xray_typed singbox_typed by (auto simp: map_outbound_def split: if_splits)

lemma map_filter_all: "(\<And>x y. f x = Some y \<Longrightarrow> P y) \<Longrightarrow> \<forall>y \<in> set (List.map_filter f xs). P y"
  by (auto simp: List.map_filter_def)

lemma map_filter_catalogued:
  assumes "\<And>x y. f x = Some y \<Longrightarrow> typed y" "n \<in> set (filter_all (List.map_filter f xs))"
  shows "catalogued n"
  by (rule filter_all_catalogued [OF assms(2)]) (rule map_filter_all, rule assms(1))

lemma uri_list_catalogued: "n \<in> set (filter_all (parse_uri_list L text)) \<Longrightarrow> catalogued n"
  unfolding parse_uri_list_def by (erule map_filter_catalogued [rotated]) (rule link_typed)

lemma yaml_catalogued: "yaml_nodes text = Inr ns \<Longrightarrow> n \<in> set ns \<Longrightarrow> catalogued n"
proof -
  assume y: "yaml_nodes text = Inr ns" "n \<in> set ns"
  then obtain entries where "ns = filter_all (List.map_filter yaml_to_node entries)"
    by (auto simp: yaml_nodes_def load_proxies_yaml_def Let_def bind_result_Inr_iff)
  then show ?thesis using map_filter_catalogued [of yaml_to_node n entries] yaml_typed y(2) by blast
qed

lemma json_catalogued: "n \<in> set (try_parse_json json text) \<Longrightarrow> catalogued n"
  using map_filter_catalogued [of map_outbound n] map_filter_catalogued [of sip008_node n] outbound_typed sip008_typed
  by (auto simp: try_parse_json_def parse_sip008_def split: option.splits if_splits)

lemma direct_catalogued: "parse_direct L text = Some (Inr ns) \<Longrightarrow> n \<in> set ns \<Longrightarrow> catalogued n"
  using yaml_catalogued uri_list_catalogued json_catalogued
  by (fastforce simp: parse_direct_def Let_def split: if_splits)

lemma text_catalogued:
  assumes "parse_text L allow text = Inr ns" "n \<in> set ns"
  shows "catalogued n"
proof (cases "parse_direct L (strip_text text)")
  case (Some r)
  then show ?thesis using assms direct_catalogued [of L "strip_text text" ns n] by (simp add: parse_text_def)
next
  case None
  then have allow: "allow" using assms by (cases allow) (simp_all add: parse_text_def)
  then obtain decoded where d: "try_decode_b64 (lib_b64 L) (strip_text text) = Some decoded"
    using assms None by (cases "try_decode_b64 (lib_b64 L) (strip_text text)") (simp_all add: parse_text_def)
  then obtain found where f: "parse_inner L decoded = Inr found"
    and ns: "(if found \<noteq> [] then Inr found
        else if looks_like_uri_list decoded then Inr (filter_all (parse_uri_list L decoded))
        else if contains_str ''proxies:'' decoded then yaml_nodes decoded else Inr []) = (Inr ns :: panic + proxy_node list)"
    using assms(1) None allow by (auto simp: parse_text_def bind_result_Inr_iff)
  have "m \<in> set found \<Longrightarrow> catalogued m" for m
    using f direct_catalogued [of L "strip_text decoded" found m]
    by (cases "parse_direct L (strip_text decoded)") (auto simp: parse_inner_def)
  then show ?thesis using ns assms(2) uri_list_catalogued yaml_catalogued by (auto split: if_splits)
qed

text \<open>
  C37: what becomes of every node of a subscription when it is dialled. Whatever the content and
  whatever the URL, base64 and JSON libraries return, each node the catalog yields converts to the
  options of a supported protocol, and the checks of the dial itself (the transport, the flow, the
  REALITY key, the Shadowsocks plugin and method) let it through, with two exceptions that are
  described exactly: a VLESS flow with blanks around it, and a Shadowsocks plugin that is a
  \<^verbatim>\<open>v2ray-plugin\<close> with blanks around its name or a simple-obfs in another mode than
  \<^verbatim>\<open>http\<close> and \<^verbatim>\<open>tls\<close>. A node marked for TLS that is let through has TLS or REALITY as its first
  layer, unless it is a SOCKS or HTTP proxy. What a handshake or the protocol itself refuses later
  (a key or an identifier that does not parse) is not part of it.
\<close>

theorem catalog_nodes_dial:
  assumes "catalog_parse L raw = Inr ns" "n \<in> set ns" "ips \<noteq> []"
  shows "\<exists>k ls. dial_via_ips n ips = Inr k \<and> dial k = (ls, dial_refusal n)
    \<and> (dial_refusal n = None \<and> pn_tls n \<and> pn_type n \<notin> {''http'', ''socks5''} \<longrightarrow> secure ls)"
proof -
  have "catalogued n" using assms(1,2) unfolding catalog_parse_def by (rule text_catalogued)
  then show ?thesis using assms(3) by (rule catalogued_dials)
qed

definition no_libs :: libs where
  "no_libs = \<lparr>lib_url = \<lambda>_. None, lib_b64 = \<lambda>_. None, lib_json = \<lambda>_. None, lib_iter = \<lambda>m. m\<rparr>"

definition example_subscription :: bytes where
  "example_subscription =
     as_bytes (''proxies:'' @ [CHR 10] @ ''- {name: a, type: trojan, server: h, port: 443, password: p, network: ws}''
       @ [CHR 10] @ ''- {name: b, type: ss, server: h, port: 8388, password: p, cipher: aes-128-gcm, plugin: obfs, tls: true, ''
       @ ''plugin-opts: {mode: quic}}'')"

definition example_trojan :: proxy_node where
  "example_trojan = default_node\<lparr>pn_name := ''a'', pn_type := ''trojan'', pn_server := ''h'', pn_port := 443,
     pn_password := Some ''p'', pn_tls := True, pn_network := ''ws'', pn_security := Some ''tls''\<rparr>"

definition example_ss :: proxy_node where
  "example_ss = default_node\<lparr>pn_name := ''b'', pn_type := ''ss'', pn_server := ''h'', pn_port := 8388,
     pn_password := Some ''p'', pn_tls := True, pn_security := Some ''tls'', pn_cipher := Some ''aes-128-gcm'',
     pn_plugin := Some ''obfs'', pn_plugin_opts := Some ''obfs=quic''\<rparr>"

lemma example_subscription_parses: "catalog_parse no_libs example_subscription = Inr [example_trojan, example_ss]"
  by code_simp

theorem catalog_nodes_dial_witness:
  "(\<exists>k ls. dial_via_ips example_trojan [V4 (Ipv4 1 2 3 4)] = Inr k \<and> dial k = (ls, None) \<and> secure ls)
    \<and> (\<exists>k ls. dial_via_ips example_ss [V4 (Ipv4 1 2 3 4)] = Inr k \<and> dial k = (ls, Some TransportUpgradeFailed))"
proof -
  have "dial_refusal example_trojan = None" "dial_refusal example_ss = Some TransportUpgradeFailed" by code_simp+
  moreover have "pn_type example_trojan = ''trojan''" "pn_tls example_trojan" by (simp_all add: example_trojan_def)
  ultimately show ?thesis
    using catalog_nodes_dial [OF example_subscription_parses, of example_trojan "[V4 (Ipv4 1 2 3 4)]"]
      catalog_nodes_dial [OF example_subscription_parses, of example_ss "[V4 (Ipv4 1 2 3 4)]"] by auto
qed

section \<open>Where intent and code part\<close>

text \<open>An \<^verbatim>\<open>https://\<close> proxy is marked for TLS and dialled without it.\<close>

lemma https_proxy_in_clear:
  assumes "parse_http_link u l = Some n" "is_some_and (\<lambda>u. url_scheme u = ''https'') (u l)" "ips \<noteq> []"
  shows "pn_tls n \<and> dial_via_ips n ips = Inr (Http (to_http n)) \<and> dial (Http (to_http n)) = ([], None)"
proof -
  have t: "pn_type n = ''http''" using assms(1) by (rule http_link_type)
  have "pn_tls n" using assms(1,2) unfolding parse_http_link_def parser_iff by (elim exE conjE, hypsubst, simp)
  moreover obtain h where "dial_host ips = Some h"
    using assms(3) by (cases ips; cases "List.find is_ipv4 ips") (auto simp: dial_host_def)
  moreover have "lowercase ''http'' = ''http''" by code_simp
  ultimately show ?thesis using t by (simp add: dial_via_ips_def to_kind_def dial_def)
qed

text \<open>In YAML the host of a \<^verbatim>\<open>v2ray-plugin\<close> is collected under another name than it is looked up.\<close>

lemma yaml_v2ray_host_lost:
  "map_option pn_ws_host (yaml_to_node
     [(''name'', ''a''), (''type'', ''ss''), (''server'', ''h''), (''port'', ''1''), (''plugin'', ''v2ray-plugin''),
      (''plugin-opts.mode'', ''websocket''), (''plugin-opts.host'', ''cdn.example'')]) = Some None"
  by code_simp

end
