(* ===== verification/Profiles.thy ===== *)
theory Profiles
  imports YamlText ProxyWire
begin

text \<open>
  \<^verbatim>\<open>ContentStore\<close> and \<^verbatim>\<open>ProfileStore\<close> of \<^verbatim>\<open>clash-core/src/config.rs\<close>. The disk is explicit: the
  files of the data directory by name, the text of the configuration file, and whether writes
  succeed. Two arguments stand for what is outside: \<open>sha256\<close>, and \<open>fk\<close>, which maps a file name
  to the key under which the file system finds it (the identity, or lower case on Windows).
  The results: the configuration file is read back as the store that was saved, names stay
  unique with the default among them, and no profile ever loses its content.
\<close>

section \<open>The disk\<close>

record disk =
  files :: "(rstr, bytes) hmap"
  app_config :: "bytes option"
  writable :: bool

type_synonym fold_fn = "rstr \<Rightarrow> rstr"
type_synonym sha_fn = "bytes \<Rightarrow> bytes"

definition fs_read :: "fold_fn \<Rightarrow> disk \<Rightarrow> rstr \<Rightarrow> bytes option" where
  "fs_read fk d name = hm_get (files d) (fk name)"

definition fs_write :: "fold_fn \<Rightarrow> rstr \<Rightarrow> bytes \<Rightarrow> disk \<Rightarrow> disk" where
  "fs_write fk name bs d = (if writable d then d\<lparr>files := hm_insert (fk name) bs (files d)\<rparr> else d)"

definition fs_remove :: "fold_fn \<Rightarrow> rstr \<Rightarrow> disk \<Rightarrow> disk" where
  "fs_remove fk name d = (if writable d then d\<lparr>files := hm_remove (fk name) (files d)\<rparr> else d)"

section \<open>Content store\<close>

definition sha256_hex :: "sha_fn \<Rightarrow> bytes \<Rightarrow> rstr" where
  "sha256_hex sha256 bs = map chr_of (hex_lower (sha256 bs))"

definition is_safe :: "rstr \<Rightarrow> bool" where
  "is_safe hash \<longleftrightarrow>
     length hash = 64 \<and> \<not> contains_str ''..'' hash \<and> CHR ''/'' \<notin> set hash \<and> CHR 92 \<notin> set hash
     \<and> CHR '':'' \<notin> set hash \<and> list_all is_hexdigit hash"

definition content_save :: "fold_fn \<Rightarrow> sha_fn \<Rightarrow> bytes \<Rightarrow> disk \<Rightarrow> rstr \<times> disk" where
  "content_save fk sha256 bs d =
     (let hash = sha256_hex sha256 bs in
      (hash, if fs_read fk d hash = None then fs_write fk hash bs d else d))"

text \<open>The check that the canonical path stays below the data directory holds for a plain file there.\<close>

definition try_read :: "fold_fn \<Rightarrow> disk \<Rightarrow> rstr \<Rightarrow> bytes option" where
  "try_read fk d hash = (if is_safe hash then fs_read fk d hash else None)"

definition delete_if_unreferenced :: "fold_fn \<Rightarrow> rstr \<Rightarrow> rstr list \<Rightarrow> disk \<Rightarrow> disk" where
  "delete_if_unreferenced fk hash referenced d =
     (if \<not> is_safe hash then d
      else if list_ex (\<lambda>h. eq_ci h hash) referenced then d
      else fs_remove fk hash d)"

section \<open>Profiles\<close>

datatype profile_kind = Cloud | Local

record profile_entry =
  pe_name :: rstr
  pe_hash :: rstr
  pe_kind :: profile_kind
  pe_url :: "rstr option"
  pe_used :: "int option"
  pe_total :: "int option"
  pe_expire :: "int option"

record user_info =
  ui_upload :: "int option"
  ui_download :: "int option"
  ui_total :: "int option"
  ui_expire :: "int option"

record profile_store =
  profiles :: "profile_entry list"
  default_name :: "rstr option"
  load_error :: "rstr option"

definition store_new :: profile_store where
  "store_new = \<lparr>profiles = [], default_name = None, load_error = None\<rparr>"

definition name_exists :: "profile_store \<Rightarrow> rstr \<Rightarrow> bool" where
  "name_exists st name \<longleftrightarrow> list_ex (\<lambda>p. pe_name p = name) (profiles st)"

definition active :: "profile_store \<Rightarrow> profile_entry option" where
  "active st =
     or_else (Option.bind (default_name st) (\<lambda>n. List.find (\<lambda>p. pe_name p = n) (profiles st)))
       (case profiles st of [] \<Rightarrow> None | p # _ \<Rightarrow> Some p)"

text \<open>Sums of \<^verbatim>\<open>i64\<close> wrap in a release build.\<close>

definition wrap_i64 :: "int \<Rightarrow> int" where
  "wrap_i64 n = (n + 9223372036854775808) mod 18446744073709551616 - 9223372036854775808"

definition apply_user_info :: "user_info option \<Rightarrow> profile_entry \<Rightarrow> profile_entry" where
  "apply_user_info info e =
     (case info of
        None \<Rightarrow> e
      | Some i \<Rightarrow>
          (let e = (if ui_upload i \<noteq> None \<or> ui_download i \<noteq> None
                    then e\<lparr>pe_used := Some (wrap_i64 (unwrap_or 0 (ui_upload i) + unwrap_or 0 (ui_download i)))\<rparr> else e);
               e = (if ui_total i \<noteq> None then e\<lparr>pe_total := ui_total i\<rparr> else e)
           in if ui_expire i \<noteq> None then e\<lparr>pe_expire := ui_expire i\<rparr> else e))"

section \<open>The configuration file\<close>

text \<open>The lines \<^verbatim>\<open>save\<close> writes, each followed by a line feed.\<close>

definition opt_line :: "rstr \<Rightarrow> rstr option \<Rightarrow> rstr list" where
  "opt_line k v = (case v of None \<Rightarrow> [] | Some s \<Rightarrow> [''    '' @ k @ '': '' @ s])"

definition positive :: "int option \<Rightarrow> int option" where
  "positive = opt_filter (\<lambda>t. 0 < t)"

definition profile_lines :: "profile_entry \<Rightarrow> rstr list" where
  "profile_lines p =
     [''  - name: '' @ yaml_escape (pe_name p), ''    hash: '' @ pe_hash p,
      ''    type: '' @ (if pe_kind p = Cloud then ''cloud'' else ''local'')]
     @ (if pe_kind p = Cloud then
          opt_line ''url'' (map_option yaml_escape (pe_url p))
          @ opt_line ''used'' (map_option show_int (pe_used p))
          @ opt_line ''total'' (map_option show_int (positive (pe_total p)))
          @ opt_line ''expire'' (map_option show_int (positive (pe_expire p)))
        else [])"

definition store_lines :: "profile_store \<Rightarrow> rstr list" where
  "store_lines st =
     (case default_name st of None \<Rightarrow> [] | Some d \<Rightarrow> [''default: '' @ yaml_escape d])
     @ [''profiles:''] @ concat (map profile_lines (profiles st))"

definition store_text :: "profile_store \<Rightarrow> rstr" where
  "store_text st = concat (map (\<lambda>l. l @ [CHR 10]) (store_lines st))"

definition store_save :: "profile_store \<Rightarrow> disk \<Rightarrow> disk" where
  "store_save st d = (if writable d then d\<lparr>app_config := Some (as_bytes (store_text st))\<rparr> else d)"

text \<open>The state of the loop in \<^verbatim>\<open>load_from_file\<close>: the store and the entry being read.\<close>

definition new_entry :: profile_entry where
  "new_entry = \<lparr>pe_name = [], pe_hash = [], pe_kind = Local, pe_url = None, pe_used = None, pe_total = None, pe_expire = None\<rparr>"

definition flush_entry :: "profile_entry option \<Rightarrow> profile_entry list" where
  "flush_entry cur =
     (case cur of None \<Rightarrow> [] | Some c \<Rightarrow> if pe_name c \<noteq> [] \<and> pe_hash c \<noteq> [] then [c] else [])"

definition set_field :: "rstr \<Rightarrow> rstr \<Rightarrow> profile_entry \<Rightarrow> profile_entry" where
  "set_field k val c =
     (if k = ''name'' then c\<lparr>pe_name := val\<rparr>
      else if k = ''hash'' then (if is_safe val then c\<lparr>pe_hash := val\<rparr> else c)
      else if k = ''type'' then c\<lparr>pe_kind := (if eq_ci val ''cloud'' then Cloud else Local)\<rparr>
      else if pe_kind c \<noteq> Cloud then c
      else if k = ''url'' then c\<lparr>pe_url := Some val\<rparr>
      else if k = ''used'' then c\<lparr>pe_used := parse_i64 val\<rparr>
      else if k = ''total'' then c\<lparr>pe_total := parse_i64 val\<rparr>
      else if k = ''expire'' then c\<lparr>pe_expire := parse_i64 val\<rparr>
      else c)"

definition load_field :: "rstr \<Rightarrow> profile_entry \<Rightarrow> profile_entry" where
  "load_field t c =
     (case find_char (CHR '':'') t of
        None \<Rightarrow> c
      | Some colon \<Rightarrow> set_field (trim (take colon t)) (unquote (trim (drop (colon + 1) t))) c)"

definition load_line :: "rstr \<Rightarrow> profile_store \<times> profile_entry option \<Rightarrow> profile_store \<times> profile_entry option" where
  "load_line raw st =
     (if trim raw = [] \<or> starts_with ''#'' (trim_start raw) then st
      else
        (let line = trim_end raw; (ps, cur) = st in
         case strip_prefix ''default:'' line of
           Some rest \<Rightarrow> (ps\<lparr>default_name := Some (unquote (trim rest))\<rparr>, cur)
         | None \<Rightarrow>
             (case strip_prefix ''- '' (trim_start line) of
                Some rest \<Rightarrow>
                  (let ps = ps\<lparr>profiles := profiles ps @ flush_entry cur\<rparr> in
                   case strip_prefix ''name:'' (trim rest) of
                     Some v \<Rightarrow> (ps, Some (new_entry\<lparr>pe_name := unquote (trim v)\<rparr>))
                   | None \<Rightarrow> (ps, Some new_entry))
              | None \<Rightarrow> (ps, map_option (load_field (trim line)) cur))))"

definition clear_local :: "profile_entry \<Rightarrow> profile_entry" where
  "clear_local p =
     (if pe_kind p = Local then p\<lparr>pe_url := None, pe_used := None, pe_total := None, pe_expire := None\<rparr> else p)"

definition load_finish :: "profile_store \<times> profile_entry option \<Rightarrow> profile_store" where
  "load_finish st =
     (let ps = map clear_local (profiles (fst st) @ flush_entry (snd st))
      in (fst st)\<lparr>profiles := ps,
           default_name := (if default_name (fst st) = None then map_option pe_name (case ps of [] \<Rightarrow> None | p # _ \<Rightarrow> Some p)
                            else default_name (fst st))\<rparr>)"

definition read_failed :: rstr where
  "read_failed = str_of [0xe9, 0x85, 0x8d, 0xe7, 0xbd, 0xae, 0xe8, 0xaf, 0xbb, 0xe5, 0x8f, 0x96, 0xe5, 0xa4, 0xb1, 0xe8, 0xb4, 0xa5]"

text \<open>\<^verbatim>\<open>read_to_string\<close> fails on a file that is not UTF-8.\<close>

definition load_from_file :: "bytes \<Rightarrow> profile_store \<Rightarrow> profile_store" where
  "load_from_file bs st =
     (case from_utf8 bs of
        None \<Rightarrow> st\<lparr>load_error := Some read_failed\<rparr>
      | Some text \<Rightarrow> load_finish (fold load_line (lines_of text) (st, None)))"

definition load_or_migrate :: "disk \<Rightarrow> profile_store" where
  "load_or_migrate d =
     (case app_config d of None \<Rightarrow> store_new | Some bs \<Rightarrow> load_from_file bs store_new)"

section \<open>Operations\<close>

text \<open>\<open>fresh\<close> is the random identifier of the last resort.\<close>

definition numbered :: "rstr \<Rightarrow> nat \<Rightarrow> rstr" where
  "numbered base i = base @ ''#'' @ show_nat i"

definition preferred_base :: "rstr option \<Rightarrow> rstr" where
  "preferred_base preferred = unwrap_or ''Proxy'' (opt_filter (\<lambda>s. s \<noteq> []) (map_option trim preferred))"

definition allocate_unique_name :: "rstr \<Rightarrow> rstr option \<Rightarrow> profile_store \<Rightarrow> rstr" where
  "allocate_unique_name fresh preferred st =
     (let base = preferred_base preferred in
      if \<not> name_exists st base then base
      else
        (case List.find (\<lambda>i. \<not> name_exists st (numbered base i)) [1..<10000] of
           Some i \<Rightarrow> numbered base i
         | None \<Rightarrow> base @ ''#'' @ fresh))"

definition set_default :: "rstr \<Rightarrow> profile_store \<times> disk \<Rightarrow> profile_store \<times> disk" where
  "set_default name sd =
     (case sd of (st, d) \<Rightarrow>
        if name_exists st name
        then (let st = st\<lparr>default_name := Some name\<rparr> in (st, store_save st d))
        else (st, d))"

definition add_local ::
  "fold_fn \<Rightarrow> sha_fn \<Rightarrow> rstr \<Rightarrow> rstr option \<Rightarrow> bytes \<Rightarrow> profile_store \<times> disk \<Rightarrow> profile_entry \<times> profile_store \<times> disk" where
  "add_local fk sha256 fresh name content sd =
     (case sd of (st, d) \<Rightarrow>
        (let name = allocate_unique_name fresh name st;
             (hash, d) = content_save fk sha256 content d;
             entry = new_entry\<lparr>pe_name := name, pe_hash := hash\<rparr>;
             st = st\<lparr>profiles := profiles st @ [entry], default_name := Some name\<rparr>
         in (entry, st, store_save st d)))"

datatype store_fault = Empty_url | Not_found | Not_cloud

definition add_cloud ::
  "fold_fn \<Rightarrow> sha_fn \<Rightarrow> rstr \<Rightarrow> rstr option \<Rightarrow> rstr \<Rightarrow> bytes \<Rightarrow> user_info option \<Rightarrow> profile_store \<times> disk
     \<Rightarrow> (store_fault + profile_entry) \<times> profile_store \<times> disk" where
  "add_cloud fk sha256 fresh name url content info sd =
     (case sd of (st, d) \<Rightarrow>
        if trim url = [] then (Inl Empty_url, st, d)
        else
          (let name = allocate_unique_name fresh name st;
               (hash, d) = content_save fk sha256 content d;
               entry = apply_user_info info
                 (new_entry\<lparr>pe_name := name, pe_hash := hash, pe_kind := Cloud, pe_url := Some (trim url)\<rparr>);
               st = st\<lparr>profiles := profiles st @ [entry], default_name := Some name\<rparr>
           in (Inr entry, st, store_save st d)))"

definition position :: "('a \<Rightarrow> bool) \<Rightarrow> 'a list \<Rightarrow> nat option" where
  "position p xs = (let i = length (takeWhile (\<lambda>x. \<not> p x) xs) in if i < length xs then Some i else None)"

definition update_cloud ::
  "fold_fn \<Rightarrow> sha_fn \<Rightarrow> rstr \<Rightarrow> bytes \<Rightarrow> user_info option \<Rightarrow> profile_store \<times> disk
     \<Rightarrow> (store_fault + unit) \<times> profile_store \<times> disk" where
  "update_cloud fk sha256 name content info sd =
     (case sd of (st, d) \<Rightarrow>
        (case position (\<lambda>p. pe_name p = name) (profiles st) of
           None \<Rightarrow> (Inl Not_found, st, d)
         | Some idx \<Rightarrow>
             if pe_kind (profiles st ! idx) \<noteq> Cloud then (Inl Not_cloud, st, d)
             else
               (let old = pe_hash (profiles st ! idx);
                    (hash, d) = content_save fk sha256 content d;
                    entry = apply_user_info info ((profiles st ! idx)\<lparr>pe_hash := hash\<rparr>);
                    st = st\<lparr>profiles := (profiles st)[idx := entry]\<rparr>;
                    d = store_save st d
                in (Inr (), st, delete_if_unreferenced fk old (map pe_hash (profiles st)) d))))"

definition remove_at :: "nat \<Rightarrow> 'a list \<Rightarrow> 'a list" where
  "remove_at i xs = take i xs @ drop (i + 1) xs"

definition default_after_remove :: "rstr \<Rightarrow> nat \<Rightarrow> profile_entry list \<Rightarrow> rstr option \<Rightarrow> rstr option" where
  "default_after_remove name idx ps d =
     (if ps = [] then None
      else if d = Some name \<or> (case d of None \<Rightarrow> True | Some n \<Rightarrow> list_all (\<lambda>p. pe_name p \<noteq> n) ps)
      then Some (if idx < length ps then pe_name (ps ! idx) else pe_name (ps ! 0))
      else d)"

definition store_remove :: "fold_fn \<Rightarrow> rstr \<Rightarrow> profile_store \<times> disk \<Rightarrow> bool \<times> profile_store \<times> disk" where
  "store_remove fk name sd =
     (case sd of (st, d) \<Rightarrow>
        (case position (\<lambda>p. pe_name p = name) (profiles st) of
           None \<Rightarrow> (False, st, d)
         | Some idx \<Rightarrow>
             (let old = pe_hash (profiles st ! idx);
                  ps = remove_at idx (profiles st);
                  st = st\<lparr>profiles := ps, default_name := default_after_remove name idx ps (default_name st)\<rparr>;
                  d = store_save st d
              in (True, st, delete_if_unreferenced fk old (map pe_hash ps) d))))"

section \<open>Reading the file back\<close>

text \<open>What a store satisfies that is read back unchanged: names and addresses without line breaks, a
  safe content hash, traffic numbers that fit, a limit and an expiry that are positive, and nothing but
  name and hash on a local profile.\<close>

definition in_i64 :: "int option \<Rightarrow> bool" where
  "in_i64 v \<longleftrightarrow> (case v of None \<Rightarrow> True | Some n \<Rightarrow> - 9223372036854775808 \<le> n \<and> n \<le> 9223372036854775807)"

definition text_ok :: "rstr \<Rightarrow> bool" where
  "text_ok s \<longleftrightarrow> yaml_safe s \<and> valid_utf8 s"

definition profile_ok :: "profile_entry \<Rightarrow> bool" where
  "profile_ok p \<longleftrightarrow> pe_name p \<noteq> [] \<and> text_ok (pe_name p) \<and> is_safe (pe_hash p) \<and>
     (case pe_kind p of
        Cloud \<Rightarrow> (case pe_url p of None \<Rightarrow> True | Some u \<Rightarrow> text_ok u)
          \<and> in_i64 (pe_used p) \<and> in_i64 (pe_total p) \<and> in_i64 (pe_expire p)
          \<and> positive (pe_total p) = pe_total p \<and> positive (pe_expire p) = pe_expire p
      | Local \<Rightarrow> pe_url p = None \<and> pe_used p = None \<and> pe_total p = None \<and> pe_expire p = None)"

definition store_ok :: "profile_store \<Rightarrow> bool" where
  "store_ok st \<longleftrightarrow> list_all profile_ok (profiles st) \<and> load_error st = None
     \<and> (case default_name st of None \<Rightarrow> profiles st = [] | Some d \<Rightarrow> text_ok d)"

lemma trim_end_scalar:
  assumes "trim e = e" "e \<noteq> []"
  shows "trim_end (a @ CHR '' '' # e) = a @ CHR '' '' # e"
  by (rule trim_end_after [OF ascii_blank(1) assms(2) trim_fixed(2) [OF assms(1)]])

lemma load_default_line:
  assumes "yaml_safe d"
  shows "load_line (''default: '' @ yaml_escape d) (ps, cur) = (ps\<lparr>default_name := Some d\<rparr>, cur)"
proof -
  let ?l = "''default:'' @ CHR '' '' # yaml_escape d"
  have g: "graphic (CHR ''d'')" by (simp add: graphic_def code_of_def)
  have te: "trim_end ?l = ?l" by (rule trim_end_scalar [OF yaml_escape_trim [OF assms] yaml_escape_ne])
  have ts: "trim_start ?l = ?l" using g by simp
  have "trim ?l = ?l" by (simp only: trim_def ts te)
  then have "load_line ?l (ps, cur) = (ps\<lparr>default_name := Some (unquote (trim (CHR '' '' # yaml_escape d)))\<rparr>, cur)"
    unfolding load_line_def Let_def te ts by simp
  then show ?thesis using yaml_safe_unquote [OF assms] by simp
qed

lemma load_profiles_line: "load_line ''profiles:'' (ps, None) = (ps, None)"
proof -
  have "trim ''profiles:'' = ''profiles:''" "trim_start ''profiles:'' = ''profiles:''" "trim_end ''profiles:'' = ''profiles:''"
    by code_simp+
  then show ?thesis by (simp add: load_line_def Let_def)
qed

lemma load_name_line:
  assumes "yaml_safe n"
  shows "load_line (''  - name: '' @ yaml_escape n) (ps, cur) =
    (ps\<lparr>profiles := profiles ps @ flush_entry cur\<rparr>, Some (new_entry\<lparr>pe_name := n\<rparr>))"
proof -
  let ?l = "''  - name:'' @ CHR '' '' # yaml_escape n"
  have g: "graphic (CHR ''-'')" "graphic (CHR ''n'')" by (simp_all add: graphic_def code_of_def)
  have e: "trim (yaml_escape n) = yaml_escape n" by (rule yaml_escape_trim [OF assms])
  have te: "trim_end ?l = ?l" by (rule trim_end_scalar [OF e yaml_escape_ne])
  have ts: "trim_start ?l = ''- name:'' @ CHR '' '' # yaml_escape n" using g by simp
  have tn: "trim (''name:'' @ CHR '' '' # yaml_escape n) = ''name:'' @ CHR '' '' # yaml_escape n"
    using trim_end_scalar [OF e yaml_escape_ne, of "''name:''"] g by (simp add: trim_def)
  have "trim ?l \<noteq> []"
    using trim_end_scalar [OF e yaml_escape_ne, of "''- name:''"] unfolding trim_def ts by simp
  then show ?thesis
    unfolding load_line_def Let_def
    using te ts tn yaml_safe_unquote [OF assms] by simp
qed

lemma load_field_line:
  assumes "plain_key k" "trim e = e" "e \<noteq> []" "take_prefix ''- '' (k @ '': '' @ e) = None"
  shows "load_line (''    '' @ k @ '': '' @ e) (ps, Some c) = (ps, Some (set_field k (unquote e) c))"
proof -
  let ?f = "k @ '': '' @ e"
  have t: "trim ?f = ?f" by (rule trim_scalar_line [OF assms(1-3)])
  have te: "trim_end (''    '' @ ?f) = ''    '' @ ?f"
    using trim_end_scalar [OF assms(2,3), of "''    '' @ k @ '':''"] by simp
  have ts: "trim_start (''    '' @ ?f) = ?f" using trim_fixed(1) [OF t] by simp
  have tt: "trim (''    '' @ ?f) = ?f" using t by simp
  have ne: "?f \<noteq> []" "hd ?f \<noteq> CHR ''#''" using assms(1) by (auto simp: plain_key_def)
  have f: "load_field ?f c = set_field k (unquote e) c"
    using find_key_colon [OF assms(1), of "CHR '' '' # e"] plain_key_trim [OF assms(1)] assms(2)
    by (simp add: load_field_def)
  have "\<not> starts_with ''#'' ?f" using ne by simp
  moreover have "take_prefix ''default:'' (''    '' @ ?f) = None" by simp
  ultimately show ?thesis
    unfolding load_line_def Let_def te ts tt using ne(1) assms(4) f t by simp
qed

text \<open>The seven keys.\<close>

lemma field_keys:
  "plain_key ''hash''" "plain_key ''type''" "plain_key ''url''" "plain_key ''used''" "plain_key ''total''" "plain_key ''expire''"
  by (simp_all add: plain_key_def graphic_def code_of_def)

lemma is_safe_text: "is_safe h \<Longrightarrow> trim h = h \<and> unquote h = h \<and> h \<noteq> [] \<and> valid_utf8 h \<and> CHR 10 \<notin> set h \<and> CHR 13 \<notin> set h"
proof -
  assume s: "is_safe h"
  then have ne: "h \<noteq> []" and x: "\<forall>c \<in> set h. is_hexdigit c" by (auto simp: is_safe_def list_all_iff)
  have g: "is_hexdigit c \<Longrightarrow> graphic c \<and> is_ascii c" for c
    by (auto simp: is_hexdigit_def is_digit_def graphic_def is_ascii_def)
  have nq: "\<not> is_hexdigit dquote" "\<not> is_hexdigit (CHR 39)" "\<not> is_hexdigit (CHR 10)" "\<not> is_hexdigit (CHR 13)"
    by (simp_all add: is_hexdigit_def is_digit_def code_of_def)
  have "trim h = h" by (rule trim_graphic [OF ne]) (use x ne g in simp_all)
  moreover have "unquote h = h"
    by (rule unquote_plain) (use x nq ne in \<open>auto simp: quoted_by_def dest: hd_in_set\<close>)
  moreover have "valid_utf8 h" using valid_utf8_ascii x g by blast
  ultimately show ?thesis using ne x nq by blast
qed

lemma parse_show_int: "in_i64 (Some n) \<Longrightarrow> parse_i64 (show_int n) = Some n"
proof -
  assume r: "in_i64 (Some n)"
  show ?thesis
  proof (cases "n < 0")
    case True
    then have "nat (- n) \<le> 9223372036854775808" using r by (simp add: in_i64_def nat_le_iff)
    then show ?thesis using True by (simp add: show_int_def parse_i64_def opt_filter_def)
  next
    case False
    obtain c cs where s: "show_nat (nat n) = c # cs" by (cases "show_nat (nat n)") auto
    have "is_digit c" using show_nat_digits [of c "nat n"] s by simp
    then have "c \<noteq> CHR ''-''" by (auto simp: is_digit_def code_of_def)
    moreover have "parse_uint 9223372036854775807 (show_nat (nat n)) = Some (nat n)"
      by (rule parse_uint_show_nat) (use r False in \<open>simp add: in_i64_def nat_le_iff\<close>)
    ultimately show ?thesis using False s by (simp add: show_int_def parse_i64_def)
  qed
qed

lemma show_int_text: "trim (show_int n) = show_int n \<and> unquote (show_int n) = show_int n \<and> show_int n \<noteq> []
  \<and> valid_utf8 (show_int n) \<and> CHR 10 \<notin> set (show_int n) \<and> CHR 13 \<notin> set (show_int n)"
proof -
  have c: "is_digit c \<or> c = CHR ''-''" if "c \<in> set (show_int n)" for c
    using that show_nat_digits by (auto simp: show_int_def split: if_splits)
  have g: "graphic c \<and> is_ascii c \<and> c \<noteq> dquote \<and> c \<noteq> CHR 39 \<and> c \<noteq> CHR 10 \<and> c \<noteq> CHR 13" if "c \<in> set (show_int n)" for c
    using c [OF that] by (auto simp: is_digit_def graphic_def is_ascii_def code_of_def)
  have ne: "show_int n \<noteq> []" by (simp add: show_int_def)
  have "trim (show_int n) = show_int n" by (rule trim_graphic [OF ne]) (use g ne in simp_all)
  moreover have "unquote (show_int n) = show_int n"
    by (rule unquote_plain) (use g ne in \<open>auto simp: quoted_by_def dest: hd_in_set\<close>)
  moreover have "valid_utf8 (show_int n)" using valid_utf8_ascii g by blast
  ultimately show ?thesis using ne g by blast
qed

lemma fold_opt_line:
  assumes "plain_key k" "\<forall>c. take_prefix ''- '' (k @ c) = None"
    and "\<forall>s. v = Some s \<longrightarrow> trim s = s \<and> s \<noteq> []"
  shows "fold load_line (opt_line k v) (ps, Some c) = (ps, Some (case v of None \<Rightarrow> c | Some s \<Rightarrow> set_field k (unquote s) c))"
  using assms load_field_line [of k _ ps c] by (cases v) (simp_all add: opt_line_def)

lemma set_fields:
  "set_field ''hash'' v c = (if is_safe v then c\<lparr>pe_hash := v\<rparr> else c)"
  "set_field ''type'' v c = c\<lparr>pe_kind := (if eq_ci v ''cloud'' then Cloud else Local)\<rparr>"
  "pe_kind c = Cloud \<Longrightarrow> set_field ''url'' v c = c\<lparr>pe_url := Some v\<rparr>"
  "pe_kind c = Cloud \<Longrightarrow> set_field ''used'' v c = c\<lparr>pe_used := parse_i64 v\<rparr>"
  "pe_kind c = Cloud \<Longrightarrow> set_field ''total'' v c = c\<lparr>pe_total := parse_i64 v\<rparr>"
  "pe_kind c = Cloud \<Longrightarrow> set_field ''expire'' v c = c\<lparr>pe_expire := parse_i64 v\<rparr>"
  by (simp_all add: set_field_def)

lemma kind_words:
  "eq_ci ''cloud'' ''cloud''" "\<not> eq_ci ''local'' ''cloud''" "unquote ''cloud'' = ''cloud''" "unquote ''local'' = ''local''"
  "trim ''cloud'' = ''cloud''" "trim ''local'' = ''local''"
  by code_simp+

lemma fold_head_lines:
  assumes "profile_ok p"
  shows "fold load_line [''  - name: '' @ yaml_escape (pe_name p), ''    hash: '' @ pe_hash p,
      ''    type: '' @ (if pe_kind p = Cloud then ''cloud'' else ''local'')] (ps, cur) =
    (ps\<lparr>profiles := profiles ps @ flush_entry cur\<rparr>,
     Some (new_entry\<lparr>pe_name := pe_name p, pe_hash := pe_hash p, pe_kind := pe_kind p\<rparr>))"
proof -
  have h: "is_safe (pe_hash p)" "yaml_safe (pe_name p)" using assms by (simp_all add: profile_ok_def text_ok_def)
  note s = is_safe_text [OF h(1)]
  let ?w = "if pe_kind p = Cloud then ''cloud'' else ''local''"
  have w: "trim ?w = ?w" "?w \<noteq> []" "unquote ?w = ?w" using kind_words by simp_all
  have k: "(if eq_ci ?w ''cloud'' then Cloud else Local) = pe_kind p"
    using kind_words by (cases "pe_kind p") simp_all
  have 2: "load_line (''    hash: '' @ pe_hash p) (q, Some c) = (q, Some (c\<lparr>pe_hash := pe_hash p\<rparr>))" for q c
    using load_field_line [OF field_keys(1), of "pe_hash p" q c] s h(1) by (simp add: set_fields)
  have 3: "load_line (''    type: '' @ ?w) (q, Some c) = (q, Some (c\<lparr>pe_kind := pe_kind p\<rparr>))" for q c
    using load_field_line [OF field_keys(2) w(1,2), of q c] unfolding w(3) set_fields k by simp
  show ?thesis using load_name_line [OF h(2)] 2 3 by simp
qed

lemma fold_profile_lines:
  assumes "profile_ok p"
  shows "fold load_line (profile_lines p) (ps, cur) = (ps\<lparr>profiles := profiles ps @ flush_entry cur\<rparr>, Some p)"
proof (cases "pe_kind p")
  case Local
  then have "p = new_entry\<lparr>pe_name := pe_name p, pe_hash := pe_hash p, pe_kind := pe_kind p\<rparr>"
    using assms by (cases p) (simp add: profile_ok_def new_entry_def)
  then show ?thesis using fold_head_lines [OF assms, of ps cur] Local by (simp add: profile_lines_def)
next
  case Cloud
  let ?c0 = "new_entry\<lparr>pe_name := pe_name p, pe_hash := pe_hash p, pe_kind := Cloud\<rparr>"
  let ?ps = "ps\<lparr>profiles := profiles ps @ flush_entry cur\<rparr>"
  have ok: "case pe_url p of None \<Rightarrow> True | Some u \<Rightarrow> text_ok u" "in_i64 (pe_used p)" "in_i64 (pe_total p)" "in_i64 (pe_expire p)"
    "positive (pe_total p) = pe_total p" "positive (pe_expire p) = pe_expire p"
    using assms Cloud by (simp_all add: profile_ok_def)
  have u: "fold load_line (opt_line ''url'' (map_option yaml_escape (pe_url p))) (q, Some c) = (q, Some (c\<lparr>pe_url := pe_url p\<rparr>))"
    if "pe_kind c = Cloud" "pe_url c = None" for q c
    using fold_opt_line [OF field_keys(3), of "map_option yaml_escape (pe_url p)" q c] that ok(1)
      yaml_escape_trim yaml_safe_unquote by (cases "pe_url p") (auto simp: set_fields text_ok_def)
  have n: "fold load_line (opt_line k (map_option show_int v)) (q, Some c) = (q, Some (case v of None \<Rightarrow> c | Some m \<Rightarrow> set_field k (show_int m) c))"
    if "plain_key k" "\<forall>c. take_prefix ''- '' (k @ c) = None" for k v q c
    using fold_opt_line [OF that, of "map_option show_int v" q c] show_int_text by (cases v) auto
  have i: "fold load_line (opt_line ''used'' (map_option show_int (pe_used p))) (q, Some c) = (q, Some (c\<lparr>pe_used := pe_used p\<rparr>))"
    if "pe_kind c = Cloud" "pe_used c = None" for q c
    using n [OF field_keys(4), of "pe_used p" q c] that ok(2) parse_show_int by (cases "pe_used p") (auto simp: set_fields)
  have j: "fold load_line (opt_line ''total'' (map_option show_int (pe_total p))) (q, Some c) = (q, Some (c\<lparr>pe_total := pe_total p\<rparr>))"
    if "pe_kind c = Cloud" "pe_total c = None" for q c
    using n [OF field_keys(5), of "pe_total p" q c] that ok(3) parse_show_int by (cases "pe_total p") (auto simp: set_fields)
  have k: "fold load_line (opt_line ''expire'' (map_option show_int (pe_expire p))) (q, Some c) = (q, Some (c\<lparr>pe_expire := pe_expire p\<rparr>))"
    if "pe_kind c = Cloud" "pe_expire c = None" for q c
    using n [OF field_keys(6), of "pe_expire p" q c] that ok(4) parse_show_int by (cases "pe_expire p") (auto simp: set_fields)
  have "fold load_line (profile_lines p) (ps, cur) = (?ps, Some (?c0\<lparr>pe_url := pe_url p, pe_used := pe_used p,
      pe_total := pe_total p, pe_expire := pe_expire p\<rparr>))"
    using fold_head_lines [OF assms, of ps cur] Cloud ok(5,6)
    by (simp add: profile_lines_def u i j k new_entry_def del: fold_simps(2))
  moreover have "?c0\<lparr>pe_url := pe_url p, pe_used := pe_used p, pe_total := pe_total p, pe_expire := pe_expire p\<rparr> = p"
    using Cloud by (cases p) (simp add: new_entry_def)
  ultimately show ?thesis by simp
qed

lemma flush_entry_ok: "profile_ok p \<Longrightarrow> flush_entry (Some p) = [p]"
  using is_safe_text by (auto simp: flush_entry_def profile_ok_def)

lemma fold_all_profiles:
  "list_all profile_ok es \<Longrightarrow> \<exists>qs cur'. fold load_line (concat (map profile_lines es)) (ps, cur) = (ps\<lparr>profiles := qs\<rparr>, cur')
     \<and> qs @ flush_entry cur' = profiles ps @ flush_entry cur @ es"
proof (induction es arbitrary: ps cur)
  case Nil
  then show ?case by (intro exI [of _ "profiles ps"] exI [of _ cur]) simp
next
  case (Cons p es)
  then obtain qs cur' where
    "fold load_line (concat (map profile_lines es)) (ps\<lparr>profiles := profiles ps @ flush_entry cur\<rparr>, Some p)
      = (ps\<lparr>profiles := qs\<rparr>, cur')" "qs @ flush_entry cur' = (profiles ps @ flush_entry cur) @ flush_entry (Some p) @ es"
    using Cons.IH [of "ps\<lparr>profiles := profiles ps @ flush_entry cur\<rparr>" "Some p"] by auto
  then show ?case using fold_profile_lines [of p ps cur] flush_entry_ok [of p] Cons.prems by (auto intro!: exI [of _ qs])
qed

lemma clear_local_ok: "profile_ok p \<Longrightarrow> clear_local p = p"
  by (cases p) (auto simp: clear_local_def profile_ok_def)

text \<open>Every written line is free of line breaks and well-formed.\<close>

definition good_line :: "rstr \<Rightarrow> bool" where
  "good_line l \<longleftrightarrow> CHR 10 \<notin> set l \<and> CHR 13 \<notin> set l \<and> valid_utf8 l"

lemma good_line_append: "good_line a \<Longrightarrow> good_line b \<Longrightarrow> good_line (a @ b)"
  by (auto simp: good_line_def valid_utf8_append)

lemma good_line_literals:
  "good_line ''default: ''" "good_line ''profiles:''" "good_line ''  - name: ''" "good_line ''    hash: ''"
  "good_line ''    type: ''" "good_line ''cloud''" "good_line ''local''" "good_line ''    ''" "good_line '': ''"
  "good_line ''url''" "good_line ''used''" "good_line ''total''" "good_line ''expire''"
  unfolding good_line_def valid_utf8_def by code_simp+

lemma good_line_scalars:
  "text_ok s \<Longrightarrow> good_line (yaml_escape s)" "is_safe h \<Longrightarrow> good_line h" "good_line (show_int n)"
  using yaml_escape_lines [of s] yaml_escape_valid [of s] is_safe_text [of h] show_int_text [of n]
  by (simp_all add: good_line_def text_ok_def)

lemma good_opt_line: "good_line k \<Longrightarrow> (\<And>s. v = Some s \<Longrightarrow> good_line s) \<Longrightarrow> list_all good_line (opt_line k v)"
  using good_line_append good_line_literals by (cases v) (simp_all add: opt_line_def del: append_Cons)

lemma good_profile_lines: "profile_ok p \<Longrightarrow> list_all good_line (profile_lines p)"
proof -
  assume p: "profile_ok p"
  have "list_all good_line [''  - name: '' @ yaml_escape (pe_name p), ''    hash: '' @ pe_hash p,
      ''    type: '' @ (if pe_kind p = Cloud then ''cloud'' else ''local'')]"
    using p good_line_literals good_line_scalars good_line_append
    by (simp add: profile_ok_def del: append_Cons)
  moreover have "list_all good_line (opt_line ''url'' (map_option yaml_escape (pe_url p)))" if "pe_kind p = Cloud"
    by (rule good_opt_line [OF good_line_literals(10)]) (use p that good_line_scalars(1) in \<open>auto simp: profile_ok_def\<close>)
  moreover have "list_all good_line (opt_line k (map_option show_int v))" if "good_line k" for k v
    by (rule good_opt_line [OF that]) (use good_line_scalars(3) in auto)
  ultimately show ?thesis
    unfolding profile_lines_def using good_line_literals by (simp del: append_Cons append.simps)
qed

lemma good_store_lines: "store_ok st \<Longrightarrow> list_all good_line (store_lines st)"
proof -
  assume st: "store_ok st"
  have "list_all good_line (concat (map profile_lines (profiles st)))"
    using st good_profile_lines by (fastforce simp: store_ok_def list_all_iff)
  then show ?thesis
    using st good_line_literals(1,2) good_line_scalars(1) good_line_append
    by (cases "default_name st") (simp_all add: store_lines_def store_ok_def del: append_Cons)
qed

lemma store_text_reads:
  assumes "store_ok st"
  shows "from_utf8 (as_bytes (store_text st)) = Some (store_text st)" "lines_of (store_text st) = store_lines st"
proof -
  note g = good_store_lines [OF assms]
  have "valid_utf8 [CHR 10]" by (rule valid_utf8_ascii) (simp add: is_ascii_def code_of_def)
  then have "valid_utf8 (store_text st)"
    unfolding store_text_def using g valid_utf8_append
    by (intro valid_utf8_concat) (auto simp: list_all_iff good_line_def)
  then show "from_utf8 (as_bytes (store_text st)) = Some (store_text st)" by (rule valid_utf8_decodes)
  show "lines_of (store_text st) = store_lines st"
    unfolding store_text_def by (rule lines_of_written) (use g in \<open>auto simp: list_all_iff good_line_def\<close>)
qed

lemma load_saved:
  assumes "store_ok st"
  shows "load_from_file (as_bytes (store_text st)) store_new = st"
proof -
  let ?ls = "case default_name st of None \<Rightarrow> [] | Some d \<Rightarrow> [''default: '' @ yaml_escape d]"
  have d: "fold load_line ?ls (store_new, None) = (store_new\<lparr>default_name := default_name st\<rparr>, None)"
    using assms load_default_line [of _ store_new None]
    by (cases "default_name st") (simp_all add: store_ok_def text_ok_def store_new_def)
  obtain qs cur where q: "fold load_line (concat (map profile_lines (profiles st))) (store_new\<lparr>default_name := default_name st\<rparr>, None)
      = (store_new\<lparr>default_name := default_name st, profiles := qs\<rparr>, cur)" "qs @ flush_entry cur = profiles st"
    using fold_all_profiles [of "profiles st" "store_new\<lparr>default_name := default_name st\<rparr>" None] assms
    by (auto simp: store_ok_def store_new_def flush_entry_def)
  have f: "fold load_line (store_lines st) (store_new, None) = (store_new\<lparr>default_name := default_name st, profiles := qs\<rparr>, cur)"
    unfolding store_lines_def using d q(1) load_profiles_line by simp
  have c: "map clear_local (profiles st) = profiles st"
    using assms clear_local_ok by (auto simp: store_ok_def list_all_iff intro: map_idI)
  have "load_finish (store_new\<lparr>default_name := default_name st, profiles := qs\<rparr>, cur) = st"
    using q(2) c assms by (cases st) (auto simp: load_finish_def Let_def store_new_def store_ok_def split: option.splits)
  then show ?thesis unfolding load_from_file_def store_text_reads [OF assms] option.case f .
qed

text \<open>
  What \<^verbatim>\<open>save\<close> writes of an entry: the limit and the expiry only when they are positive, and of a local
  profile the name and the hash.
\<close>

definition saved_entry :: "profile_entry \<Rightarrow> profile_entry" where
  "saved_entry p =
     (case pe_kind p of
        Local \<Rightarrow> new_entry\<lparr>pe_name := pe_name p, pe_hash := pe_hash p\<rparr>
      | Cloud \<Rightarrow> p\<lparr>pe_total := positive (pe_total p), pe_expire := positive (pe_expire p)\<rparr>)"

definition saved_store :: "profile_store \<Rightarrow> profile_store" where
  "saved_store st = st\<lparr>profiles := map saved_entry (profiles st), load_error := None\<rparr>"

text \<open>What an entry must satisfy for that: names and addresses that \<open>text_ok\<close> admits, 64-bit numbers.\<close>

definition saveable_entry :: "profile_entry \<Rightarrow> bool" where
  "saveable_entry p \<longleftrightarrow> pe_name p \<noteq> [] \<and> text_ok (pe_name p) \<and> is_safe (pe_hash p)
     \<and> (case pe_url p of None \<Rightarrow> True | Some u \<Rightarrow> text_ok u)
     \<and> in_i64 (pe_used p) \<and> in_i64 (pe_total p) \<and> in_i64 (pe_expire p)"

definition saveable_store :: "profile_store \<Rightarrow> bool" where
  "saveable_store st \<longleftrightarrow> list_all saveable_entry (profiles st)
     \<and> (case default_name st of None \<Rightarrow> profiles st = [] | Some d \<Rightarrow> text_ok d)"

lemma positive_twice: "positive (positive v) = positive v" "in_i64 v \<Longrightarrow> in_i64 (positive v)"
  by (auto simp: positive_def in_i64_def opt_filter_def split: option.splits)

lemma saved_lines: "profile_lines (saved_entry p) = profile_lines p"
  by (cases "pe_kind p") (simp_all add: saved_entry_def profile_lines_def new_entry_def positive_twice)

lemma saved_entry_ok: "saveable_entry p \<Longrightarrow> profile_ok (saved_entry p)"
  by (cases "pe_kind p") (simp_all add: saved_entry_def saveable_entry_def profile_ok_def new_entry_def positive_twice)

lemma saved_store_ok: "saveable_store st \<Longrightarrow> store_ok (saved_store st)"
  using saved_entry_ok by (auto simp: saveable_store_def store_ok_def saved_store_def list_all_iff split: option.splits)

lemma saved_text: "store_text (saved_store st) = store_text st"
  by (simp add: store_text_def store_lines_def saved_store_def saved_lines comp_def)

text \<open>
  C39: the configuration file is read back as it was saved. For every store whose names and addresses
  have no line breaks (and, where they are not quoted, no white space at their ends that trimming would
  remove), with safe content hashes and 64-bit traffic numbers, loading the file that \<^verbatim>\<open>save\<close> wrote gives
  the same default and the same profiles in the same order, except that a traffic limit or expiry that
  is not positive is dropped, and everything but the name and the hash of a local profile.
\<close>

theorem profile_store_roundtrip:
  assumes "saveable_store st" "writable d"
  shows "load_or_migrate (store_save st d) = saved_store st"
  using load_saved [OF saved_store_ok [OF assms(1)]] assms(2) by (simp add: load_or_migrate_def store_save_def saved_text)

definition example_store :: profile_store where
  "example_store =
     \<lparr>profiles =
        [\<lparr>pe_name = ''a: #1'', pe_hash = replicate 64 (CHR ''e''), pe_kind = Cloud, pe_url = Some ''https://h/x'',
          pe_used = Some 12, pe_total = Some 0, pe_expire = Some 99\<rparr>,
         new_entry\<lparr>pe_name := ''b'', pe_hash := replicate 64 (CHR ''0'')\<rparr>],
      default_name = Some ''b'', load_error = None\<rparr>"

theorem profile_store_roundtrip_witness:
  "load_or_migrate (store_save example_store \<lparr>files = [], app_config = None, writable = True\<rparr>) = saved_store example_store
   \<and> map pe_total (profiles (saved_store example_store)) = [None, None]
   \<and> map pe_expire (profiles (saved_store example_store)) = [Some 99, None]"
proof -
  have "saveable_store example_store" "map pe_total (profiles (saved_store example_store)) = [None, None]"
    "map pe_expire (profiles (saved_store example_store)) = [Some 99, None]" by code_simp+
  then show ?thesis using profile_store_roundtrip [of example_store "\<lparr>files = [], app_config = None, writable = True\<rparr>"] by simp
qed

section \<open>Unique names\<close>

lemma show_nat_inj: "show_nat i = show_nat j \<longleftrightarrow> i = j"
  by (metis digits_val_show_nat option.inject)

lemma find_none_iff: "List.find P xs = None \<longleftrightarrow> (\<forall>x \<in> set xs. \<not> P x)"
  by (auto simp: find_None_iff)

lemma allocate_unique:
  assumes "length (profiles st) < 10000"
  shows "\<not> name_exists st (allocate_unique_name fresh preferred st)"
proof -
  let ?b = "preferred_base preferred"
  let ?N = "set (map pe_name (profiles st))"
  have ex: "name_exists st n \<longleftrightarrow> n \<in> ?N" for n by (auto simp: name_exists_def list_ex_iff)
  show ?thesis
  proof (cases "name_exists st ?b")
    case False
    then show ?thesis by (simp add: allocate_unique_name_def Let_def)
  next
    case True
    have "\<exists>i \<in> {1..<10000}. numbered ?b i \<notin> ?N"
    proof (rule ccontr)
      assume "\<not> ?thesis"
      then have sub: "insert ?b (numbered ?b ` {1..<10000}) \<subseteq> ?N" using True ex by auto
      have "inj_on (numbered ?b) {1..<10000}" by (auto simp: inj_on_def numbered_def show_nat_inj)
      then have "card (numbered ?b ` {1..<10000}) = 9999" by (simp add: card_image)
      moreover have "?b \<notin> numbered ?b ` {1..<10000}" by (auto simp: numbered_def)
      ultimately have "card (insert ?b (numbered ?b ` {1..<10000})) = 10000" by simp
      then have "10000 \<le> card ?N" using card_mono [OF _ sub] by simp
      also have "\<dots> \<le> length (profiles st)" using card_length [of "map pe_name (profiles st)"] by simp
      finally show False using assms by simp
    qed
    then have "List.find (\<lambda>i. \<not> name_exists st (numbered ?b i)) [1..<10000] \<noteq> None"
      unfolding find_none_iff ex by auto
    then obtain i where i: "List.find (\<lambda>i. \<not> name_exists st (numbered ?b i)) [1..<10000] = Some i" by blast
    then have "\<not> name_exists st (numbered ?b i)" by (auto simp: find_Some_iff)
    then show ?thesis using True i by (simp add: allocate_unique_name_def Let_def)
  qed
qed

section \<open>Contents are never lost\<close>

text \<open>What the store relies on: file names that the file system identifies differ only in case, and
  a digest has 32 bytes.\<close>

definition content_params :: "fold_fn \<Rightarrow> sha_fn \<Rightarrow> bool" where
  "content_params fk sha256 \<longleftrightarrow> (\<forall>a b. fk a = fk b \<longrightarrow> eq_ci a b) \<and> (\<forall>bs. length (sha256 bs) = 32)"

definition stored :: "fold_fn \<Rightarrow> sha_fn \<Rightarrow> disk \<Rightarrow> rstr \<Rightarrow> bool" where
  "stored fk sha256 d h \<longleftrightarrow> is_some_and (\<lambda>bs. sha256_hex sha256 bs = h) (try_read fk d h)"

definition files_ok :: "fold_fn \<Rightarrow> sha_fn \<Rightarrow> disk \<Rightarrow> bool" where
  "files_ok fk sha256 d \<longleftrightarrow> (\<forall>k bs. hm_get (files d) k = Some bs \<longrightarrow> k = fk (sha256_hex sha256 bs))"

lemma stored_iff:
  "stored fk sha256 d g \<longleftrightarrow> is_safe g \<and> (\<exists>b. hm_get (files d) (fk g) = Some b \<and> sha256_hex sha256 b = g)"
  by (cases "hm_get (files d) (fk g)") (auto simp: stored_def try_read_def fs_read_def)

lemma hex_digit_lower: "is_hexdigit (hex_digit n) \<and> lower_char (hex_digit n) = hex_digit n"
proof -
  have "list_all (\<lambda>c. is_hexdigit c \<and> lower_char c = c) ''0123456789abcdef''" by code_simp
  moreover have "hex_digit n \<in> set ''0123456789abcdef''" unfolding hex_digit_def by (rule nth_mem) simp
  ultimately show ?thesis unfolding list_all_iff by blast
qed

lemma sha256_hex_chars: "c \<in> set (sha256_hex sha256 bs) \<Longrightarrow> is_hexdigit c \<and> lower_char c = c"
  using hex_digit_lower by (auto simp: sha256_hex_def hex_lower_def)

lemma sha256_hex_lower: "lowercase (sha256_hex sha256 bs) = sha256_hex sha256 bs"
  unfolding lowercase_def by (rule map_idI) (use sha256_hex_chars in blast)

lemma contains_str_set: "contains_str p s \<Longrightarrow> set p \<subseteq> set s"
proof -
  assume "contains_str p s"
  then obtain i where "find_sub p s = Some i" by (auto simp: contains_str_def)
  then obtain a r where "s = a @ p @ r" using find_sub_Some by blast
  then show ?thesis by auto
qed

lemma sha256_hex_safe:
  assumes "content_params fk sha256" shows "is_safe (sha256_hex sha256 bs)"
proof -
  have n: "\<not> is_hexdigit (CHR ''.'')" "\<not> is_hexdigit (CHR ''/'')" "\<not> is_hexdigit (CHR 92)" "\<not> is_hexdigit (CHR '':'')"
    by (simp_all add: is_hexdigit_def is_digit_def code_of_def)
  have x: "\<forall>c \<in> set (sha256_hex sha256 bs). is_hexdigit c" using sha256_hex_chars by blast
  have "\<not> contains_str ''..'' (sha256_hex sha256 bs)"
  proof
    assume "contains_str ''..'' (sha256_hex sha256 bs)"
    then have "CHR ''.'' \<in> set (sha256_hex sha256 bs)" using contains_str_set by fastforce
    then show False using x n(1) by blast
  qed
  moreover have "length (sha256_hex sha256 bs) = 64" using assms by (simp add: sha256_hex_def content_params_def)
  moreover have "CHR ''/'' \<notin> set (sha256_hex sha256 bs)" "CHR 92 \<notin> set (sha256_hex sha256 bs)" "CHR '':'' \<notin> set (sha256_hex sha256 bs)"
    using x n by blast+
  ultimately show ?thesis using x by (simp add: is_safe_def list_all_iff)
qed

lemma content_save_spec:
  assumes "content_params fk sha256" "files_ok fk sha256 d" "writable d" "content_save fk sha256 bs d = (h, d')"
  shows "stored fk sha256 d' h" "files_ok fk sha256 d'" "writable d'" "h = sha256_hex sha256 bs"
    "stored fk sha256 d g \<Longrightarrow> stored fk sha256 d' g"
proof -
  have h: "h = sha256_hex sha256 bs" using assms(4) by (simp add: content_save_def Let_def)
  have safe: "is_safe h" using sha256_hex_safe [OF assms(1)] h by simp
  show "h = sha256_hex sha256 bs" by (rule h)
  show w: "writable d'" using assms(3,4) by (auto simp: content_save_def Let_def fs_write_def)
  have c: "hm_get (files d') = (hm_get (files d))(fk h := Some (case hm_get (files d) (fk h) of None \<Rightarrow> bs | Some old \<Rightarrow> old))"
    using assms(3,4) h by (auto simp: content_save_def Let_def fs_read_def fs_write_def fun_eq_iff split: option.splits)
  have same: "sha256_hex sha256 old = h" if "hm_get (files d) (fk h) = Some old" for old
  proof -
    have "fk h = fk (sha256_hex sha256 old)" using assms(2) that by (simp add: files_ok_def)
    then have "lowercase h = lowercase (sha256_hex sha256 old)" using assms(1) unfolding content_params_def eq_ci_def by blast
    then show ?thesis unfolding h sha256_hex_lower by (rule sym)
  qed
  show "stored fk sha256 d' h"
    unfolding stored_iff c using safe same h by (cases "hm_get (files d) (fk h)") simp_all
  have "k = fk (sha256_hex sha256 b)" if "hm_get (files d') k = Some b" for k b
  proof (cases "k = fk h")
    case True
    then have "sha256_hex sha256 b = h" using that same h unfolding c by (cases "hm_get (files d) (fk h)") simp_all
    then show ?thesis using True by simp
  next
    case False
    then show ?thesis using that assms(2) unfolding c by (simp add: files_ok_def)
  qed
  then show "files_ok fk sha256 d'" by (simp add: files_ok_def)
  show "stored fk sha256 d' g" if "stored fk sha256 d g"
    using that unfolding stored_iff c by auto
qed

lemma delete_spec:
  assumes "content_params fk sha256" "files_ok fk sha256 d"
  shows "files_ok fk sha256 (delete_if_unreferenced fk old refs d)"
    "stored fk sha256 d g \<Longrightarrow> g \<in> set refs \<Longrightarrow> stored fk sha256 (delete_if_unreferenced fk old refs d) g"
    "writable (delete_if_unreferenced fk old refs d) = writable d"
proof -
  show "files_ok fk sha256 (delete_if_unreferenced fk old refs d)"
    using assms(2) by (auto simp: delete_if_unreferenced_def fs_remove_def files_ok_def split: if_splits)
  show "writable (delete_if_unreferenced fk old refs d) = writable d"
    by (simp add: delete_if_unreferenced_def fs_remove_def)
  assume g: "stored fk sha256 d g" "g \<in> set refs"
  show "stored fk sha256 (delete_if_unreferenced fk old refs d) g"
  proof (cases "list_ex (\<lambda>h. eq_ci h old) refs \<or> \<not> is_safe old \<or> \<not> writable d")
    case True
    then show ?thesis using g(1) by (auto simp: delete_if_unreferenced_def fs_remove_def)
  next
    case False
    then have "\<not> eq_ci g old" using g(2) by (auto simp: list_ex_iff)
    then have "fk g \<noteq> fk old" using assms(1) unfolding content_params_def by blast
    moreover have "files (delete_if_unreferenced fk old refs d) = hm_remove (fk old) (files d)"
      using False by (simp add: delete_if_unreferenced_def fs_remove_def)
    ultimately show ?thesis using g(1) by (simp add: stored_iff)
  qed
qed

lemma stored_save [simp]:
  "stored fk sha256 (store_save st d) h = stored fk sha256 d h" "files_ok fk sha256 (store_save st d) = files_ok fk sha256 d"
  "writable (store_save st d) = writable d"
  by (simp_all add: store_save_def stored_iff files_ok_def)

section \<open>The invariant of the store\<close>

definition default_known :: "profile_entry list \<Rightarrow> rstr option \<Rightarrow> bool" where
  "default_known ps d \<longleftrightarrow> (case d of None \<Rightarrow> ps = [] | Some n \<Rightarrow> n \<in> set (map pe_name ps))"

definition store_inv :: "fold_fn \<Rightarrow> sha_fn \<Rightarrow> profile_store \<times> disk \<Rightarrow> bool" where
  "store_inv fk sha256 sd \<longleftrightarrow>
     distinct (map pe_name (profiles (fst sd))) \<and> default_known (profiles (fst sd)) (default_name (fst sd))
     \<and> files_ok fk sha256 (snd sd) \<and> writable (snd sd)
     \<and> list_all (\<lambda>p. stored fk sha256 (snd sd) (pe_hash p)) (profiles (fst sd))"

text \<open>A sequence of operations; the bound on adding is that of the name search.\<close>

inductive store_step :: "fold_fn \<Rightarrow> sha_fn \<Rightarrow> profile_store \<times> disk \<Rightarrow> profile_store \<times> disk \<Rightarrow> bool"
  for fk sha256 where
  step_default: "store_step fk sha256 sd (set_default name sd)"
| step_local: "length (profiles (fst sd)) < 10000 \<Longrightarrow>
    store_step fk sha256 sd (snd (add_local fk sha256 fresh name bs sd))"
| step_cloud: "length (profiles (fst sd)) < 10000 \<Longrightarrow>
    store_step fk sha256 sd (snd (add_cloud fk sha256 fresh name addr bs info sd))"
| step_update: "store_step fk sha256 sd (snd (update_cloud fk sha256 name bs info sd))"
| step_remove: "store_step fk sha256 sd (snd (store_remove fk name sd))"

inductive store_reachable :: "fold_fn \<Rightarrow> sha_fn \<Rightarrow> profile_store \<times> disk \<Rightarrow> bool" for fk sha256 where
  reach_new: "store_reachable fk sha256 (store_new, \<lparr>files = [], app_config = None, writable = True\<rparr>)"
| reach_step: "store_reachable fk sha256 sd \<Longrightarrow> store_step fk sha256 sd sd' \<Longrightarrow> store_reachable fk sha256 sd'"

lemma position_Some: "position P xs = Some i \<Longrightarrow> i < length xs \<and> P (xs ! i)"
proof -
  assume p: "position P xs = Some i"
  then have i: "i = length (takeWhile (\<lambda>x. \<not> P x) xs)" "i < length xs" by (auto simp: position_def Let_def split: if_splits)
  then show ?thesis using nth_length_takeWhile [of "\<lambda>x. \<not> P x" xs] by simp
qed

lemma user_info_keeps [simp]: "pe_name (apply_user_info i e) = pe_name e" "pe_hash (apply_user_info i e) = pe_hash e"
  by (simp_all add: apply_user_info_def Let_def split: option.splits)

lemma set_default_inv: "store_inv fk sha256 sd \<Longrightarrow> store_inv fk sha256 (set_default name sd)"
proof -
  assume inv: "store_inv fk sha256 sd"
  obtain st d where sd: "sd = (st, d)" by fastforce
  show ?thesis
  proof (cases "name_exists st name")
    case True
    then have "name \<in> set (map pe_name (profiles st))" by (auto simp: name_exists_def list_ex_iff)
    then show ?thesis using inv sd True by (simp add: store_inv_def set_default_def default_known_def Let_def)
  next
    case False
    then show ?thesis using inv sd by (simp add: set_default_def)
  qed
qed

text \<open>Adding an entry with a new name whose content was just saved.\<close>

lemma append_inv:
  assumes "content_params fk sha256" "store_inv fk sha256 (st, d)" "content_save fk sha256 bs d = (h, d')"
    and "\<not> name_exists st (pe_name e)" "pe_hash e = h"
  shows "store_inv fk sha256 (st\<lparr>profiles := profiles st @ [e], default_name := Some (pe_name e)\<rparr>,
    store_save (st\<lparr>profiles := profiles st @ [e], default_name := Some (pe_name e)\<rparr>) d')"
proof -
  have i: "files_ok fk sha256 d" "writable d" using assms(2) by (simp_all add: store_inv_def)
  note c = content_save_spec [OF assms(1) i assms(3)]
  have "pe_name e \<notin> set (map pe_name (profiles st))" using assms(4) by (auto simp: name_exists_def list_ex_iff)
  then show ?thesis using assms(2,5) c by (auto simp: store_inv_def default_known_def list_all_iff)
qed

lemma add_local_inv:
  assumes "content_params fk sha256" "store_inv fk sha256 sd" "length (profiles (fst sd)) < 10000"
  shows "store_inv fk sha256 (snd (add_local fk sha256 fresh name bs sd))"
proof -
  obtain st d where sd: "sd = (st, d)" by fastforce
  obtain h d' where c: "content_save fk sha256 bs d = (h, d')" by fastforce
  let ?n = "allocate_unique_name fresh name st"
  have "\<not> name_exists st ?n" using allocate_unique assms(3) sd by simp
  then show ?thesis
    using append_inv [OF assms(1) assms(2) [unfolded sd] c, of "new_entry\<lparr>pe_name := ?n, pe_hash := h\<rparr>"] sd c
    by (simp add: add_local_def Let_def)
qed

lemma add_cloud_inv:
  assumes "content_params fk sha256" "store_inv fk sha256 sd" "length (profiles (fst sd)) < 10000"
  shows "store_inv fk sha256 (snd (add_cloud fk sha256 fresh name addr bs info sd))"
proof (cases "trim addr = []")
  case True
  then show ?thesis using assms(2) by (cases sd) (simp add: add_cloud_def)
next
  case False
  obtain st d where sd: "sd = (st, d)" by fastforce
  obtain h d' where c: "content_save fk sha256 bs d = (h, d')" by fastforce
  let ?n = "allocate_unique_name fresh name st"
  let ?e = "apply_user_info info (new_entry\<lparr>pe_name := ?n, pe_hash := h, pe_kind := Cloud, pe_url := Some (trim addr)\<rparr>)"
  have "\<not> name_exists st (pe_name ?e)" using allocate_unique assms(3) sd by simp
  then show ?thesis
    using append_inv [OF assms(1) assms(2) [unfolded sd] c, of ?e] sd c False by (simp add: add_cloud_def Let_def)
qed

text \<open>Changing the list of profiles, then dropping a content that may have become unused.\<close>

lemma replace_inv:
  assumes "content_params fk sha256" "files_ok fk sha256 d" "writable d"
    and "distinct (map pe_name (profiles st))" "default_known (profiles st) (default_name st)"
    and "\<forall>p \<in> set (profiles st). stored fk sha256 d (pe_hash p)"
  shows "store_inv fk sha256 (st, delete_if_unreferenced fk old (map pe_hash (profiles st)) (store_save st d))"
proof -
  have f: "files_ok fk sha256 (store_save st d)" using assms(2) by simp
  note del = delete_spec [OF assms(1) f]
  have "stored fk sha256 (delete_if_unreferenced fk old (map pe_hash (profiles st)) (store_save st d)) (pe_hash p)"
    if "p \<in> set (profiles st)" for p
    by (rule del(2)) (use assms(6) that in simp_all)
  then show ?thesis using assms del by (simp add: store_inv_def list_all_iff)
qed

lemma update_cloud_inv:
  assumes "content_params fk sha256" "store_inv fk sha256 sd"
  shows "store_inv fk sha256 (snd (update_cloud fk sha256 name bs info sd))"
proof -
  obtain st d where sd: "sd = (st, d)" by fastforce
  obtain h d' where c: "content_save fk sha256 bs d = (h, d')" by fastforce
  have i: "files_ok fk sha256 d" "writable d" using assms(2) sd by (simp_all add: store_inv_def)
  note s = content_save_spec [OF assms(1) i c]
  show ?thesis
  proof (cases "position (\<lambda>p. pe_name p = name) (profiles st)")
    case None
    then show ?thesis using assms(2) sd by (simp add: update_cloud_def)
  next
    case (Some idx)
    note p = position_Some [OF Some]
    let ?e = "apply_user_info info ((profiles st ! idx)\<lparr>pe_hash := h\<rparr>)"
    let ?st = "st\<lparr>profiles := (profiles st)[idx := ?e]\<rparr>"
    have n: "map pe_name ((profiles st)[idx := ?e]) = map pe_name (profiles st)"
      using p by (simp add: map_update list_update_same_conv)
    have u: "\<forall>q \<in> set (profiles ?st). stored fk sha256 d' (pe_hash q)"
      using assms(2) sd s(1,5) set_update_subset_insert [of "profiles st" idx ?e]
      by (auto simp: store_inv_def list_all_iff)
    have k: "default_known (profiles ?st) (default_name ?st)" "distinct (map pe_name (profiles ?st))"
      using assms(2) sd n p by (simp_all add: store_inv_def default_known_def split: option.splits)
    show ?thesis
      using replace_inv [OF assms(1) s(2,3) k(2,1) u, of "pe_hash (profiles st ! idx)"] assms(2) sd Some c
      by (cases "pe_kind (profiles st ! idx)") (simp_all add: update_cloud_def Let_def)
  qed
qed

lemma remove_at_set: "set (remove_at i xs) \<subseteq> set xs"
  by (auto simp: remove_at_def dest: in_set_takeD in_set_dropD)

lemma remove_at_distinct:
  assumes "distinct (map f xs)"
  shows "distinct (map f (remove_at i xs))"
proof -
  have "distinct (take i (map f xs) @ drop i (map f xs))" using assms by simp
  moreover have "set (drop (i + 1) (map f xs)) \<subseteq> set (drop i (map f xs))" by (rule set_drop_subset_set_drop) simp
  ultimately show ?thesis
    using assms unfolding remove_at_def map_append take_map [symmetric] drop_map [symmetric] distinct_append
    by (blast intro: distinct_drop)
qed

lemma default_after_known: "default_known ps (default_after_remove name idx ps d)"
  by (auto simp: default_known_def default_after_remove_def list_all_iff split: option.splits)

lemma store_remove_inv:
  assumes "content_params fk sha256" "store_inv fk sha256 sd"
  shows "store_inv fk sha256 (snd (store_remove fk name sd))"
proof -
  obtain st d where sd: "sd = (st, d)" by fastforce
  show ?thesis
  proof (cases "position (\<lambda>p. pe_name p = name) (profiles st)")
    case None
    then show ?thesis using assms(2) sd by (simp add: store_remove_def)
  next
    case (Some idx)
    let ?ps = "remove_at idx (profiles st)"
    let ?st = "st\<lparr>profiles := ?ps, default_name := default_after_remove name idx ?ps (default_name st)\<rparr>"
    have "store_inv fk sha256 (?st, delete_if_unreferenced fk (pe_hash (profiles st ! idx)) (map pe_hash (profiles ?st)) (store_save ?st d))"
      by (rule replace_inv [OF assms(1)])
        (use assms(2) sd remove_at_set [of idx "profiles st"] remove_at_distinct default_after_known in
          \<open>auto simp: store_inv_def list_all_iff\<close>)
    then show ?thesis using sd Some by (simp add: store_remove_def Let_def)
  qed
qed

lemma store_reachable_inv:
  assumes "store_reachable fk sha256 sd" "content_params fk sha256"
  shows "store_inv fk sha256 sd"
  using assms(1)
proof (induction rule: store_reachable.induct)
  case reach_new
  then show ?case by (simp add: store_inv_def store_new_def default_known_def files_ok_def)
next
  case (reach_step sd sd')
  from reach_step.hyps(2) reach_step.IH assms(2) show ?case
    by (cases rule: store_step.cases)
      (simp_all add: set_default_inv add_local_inv add_cloud_inv update_cloud_inv store_remove_inv)
qed

text \<open>
  C38: Whatever sequence of switches of the default, local additions, subscription additions and
  updates, and removals the store goes through (below the 10000 profiles the name search allows), the
  names are pairwise different, the default is one of them (and only an empty store has none), and
  the content of every profile can be read back and has the digest recorded in the profile: no
  operation removes or replaces a content another profile still uses.
\<close>

theorem profile_store_invariant:
  assumes "store_reachable fk sha256 (st, d)" "content_params fk sha256"
  shows "distinct (map pe_name (profiles st))
    \<and> (case default_name st of None \<Rightarrow> profiles st = [] | Some n \<Rightarrow> n \<in> set (map pe_name (profiles st)))
    \<and> (\<forall>p \<in> set (profiles st). \<exists>bs. try_read fk d (pe_hash p) = Some bs \<and> sha256_hex sha256 bs = pe_hash p)"
proof -
  note inv = store_reachable_inv [OF assms]
  have "\<exists>bs. try_read fk d (pe_hash p) = Some bs \<and> sha256_hex sha256 bs = pe_hash p" if "p \<in> set (profiles st)" for p
    using inv that by (cases "try_read fk d (pe_hash p)") (auto simp: store_inv_def list_all_iff stored_def)
  then show ?thesis using inv by (auto simp: store_inv_def default_known_def)
qed

definition example_sha :: sha_fn where
  "example_sha bs = replicate 32 (if bs = [] then 0 else 1)"

definition example_home :: "profile_store \<times> disk" where
  "example_home = snd (add_local lowercase example_sha ''x'' (Some ''home'') [7]
     (store_new, \<lparr>files = [], app_config = None, writable = True\<rparr>))"

theorem profile_store_invariant_witness:
  "map pe_name (profiles (fst example_home)) = [''home'']
   \<and> (\<exists>bs. try_read lowercase (snd example_home) (pe_hash (hd (profiles (fst example_home)))) = Some bs
        \<and> sha256_hex example_sha bs = pe_hash (hd (profiles (fst example_home))))"
proof -
  have params: "content_params lowercase example_sha" by (simp add: content_params_def eq_ci_def example_sha_def)
  have "store_reachable lowercase example_sha example_home"
    unfolding example_home_def by (rule reach_step [OF reach_new step_local]) (simp add: store_new_def)
  then have "store_reachable lowercase example_sha (fst example_home, snd example_home)" by simp
  note inv = profile_store_invariant [OF this params]
  have names: "map pe_name (profiles (fst example_home)) = [''home'']" by code_simp
  then have "hd (profiles (fst example_home)) \<in> set (profiles (fst example_home))" by (auto intro: hd_in_set)
  then show ?thesis using inv names by blast
qed

end
