(* ===== verification/Spec2Isabelle.thy ===== *)
theory Spec2Isabelle
  imports Stack FakeCache VisionStream VlessStream WebSocket Obfs Inbound VmessStream RealityAuth Catalog Profiles
begin

text \<open>
  A verification library for the proxy client \<^verbatim>\<open>rust-clash\<close> (\<^verbatim>\<open>src/crates\<close>). The program keeps a
  list of subscriptions, turns their contents into proxy nodes, routes connections by a rule
  database, and forwards them directly or through the selected node; a TUN device with fake
  addresses lets it capture all traffic of the machine.

  \<^bold>\<open>How the parts interact.\<close> A captured packet enters \<^verbatim>\<open>clash-tun/src/stack.rs\<close>
  (\<open>Stack.process_packet\<close>): DNS queries are answered with addresses from the fake pool of
  \<^verbatim>\<open>clash-core/src/dns.rs\<close> (\<open>FakeIp\<close>), TCP packets are redirected to a local listener through
  the translation table of \<^verbatim>\<open>nat.rs\<close> (\<open>TcpNat\<close>) with their headers rewritten by \<^verbatim>\<open>packet.rs\<close>
  (\<open>Packet\<close>). The acceptor finds the name behind a fake address, asks \<^verbatim>\<open>rules.rs\<close> (\<open>Rules\<close>, with the
  cache of \<open>Utils\<close>) for a route, and dials directly or through \<^verbatim>\<open>outbound.rs\<close> (\<open>Nodes\<close>), which
  sets up the layers of \<^verbatim>\<open>clash-proxynet\<close>: TLS or REALITY (\<open>RealityHello\<close> to \<open>RealityAuth\<close> over
  \<open>TlsRecord\<close> and \<open>RealityStream\<close>), WebSocket or HTTP upgrade (\<open>WebSocket\<close>), the obfuscation plugins of
  Shadowsocks (\<open>Obfs\<close>), then VLESS, Trojan, SOCKS5 or HTTP CONNECT (\<open>ProxyWire\<close>), Shadowsocks
  (\<open>SsStream\<close>) or VMess (\<open>VmessWire\<close>, \<open>VmessStream\<close>), and for VLESS the response reader (\<open>VlessStream\<close>)
  and the Vision layer (\<open>VisionStream\<close>). Instead of the tunnel an application may use the local proxy of
  \<^verbatim>\<open>inbound.rs\<close> (\<open>Inbound\<close>), whose connections are relayed by \<^verbatim>\<open>io.rs\<close> (\<open>Relay\<close>). Nodes come from \<^verbatim>\<open>config.rs\<close>: YAML (\<open>YamlText\<close>, \<open>YamlNodes\<close>), share
  links (\<open>ShareLinks\<close>) and JSON, tried and filtered by \<open>Catalog\<close>; the subscriptions themselves and
  their contents are kept by \<open>Profiles\<close>.

  \<^bold>\<open>Theories.\<close>

  \<^item> \<open>Prelude\<close>: bytes, words, endian conversions, slices, the error monad, hash maps with the locale
    \<open>hash_map\<close> of their laws. \<open>RustStr\<close>, \<open>Utf8\<close>, \<open>IpAddr\<close>: Rust's strings (as UTF-8 bytes), numbers and
    addresses.
  \<^item> \<open>Utils\<close> (\<^verbatim>\<open>utils.rs\<close>), \<open>Rules\<close> (\<^verbatim>\<open>rules.rs\<close>): the TTL cache, the rule database, its binary format, the
    label walk. Shown: the walk returns the action of the longest matching rule, the cache never
    changes a decision, a table is loaded back as written.
  \<^item> \<open>FakeIp\<close>, \<open>FakeCache\<close>, \<open>DnsWire\<close> (\<^verbatim>\<open>dns.rs\<close>): the fake pool with its least recently used eviction, the
    blocklist, DNS messages. Shown: the pool invariant in every reachable state, the pool refines a
    bounded list of bindings, names and addresses lead to each other, messages are read back as
    built, reading a name never leaves the message and makes progress.
  \<^item> \<open>Packet\<close>, \<open>TcpNat\<close>, \<open>Stack\<close> (\<^verbatim>\<open>clash-tun\<close>): headers with ones' complement checksums, the translation
    table, the packet handler, the two DNS handlers, the accept decision, generations. Shown:
    rewritten packets verify, a flow and its reply are inverse, the acceptor routes by name and
    dials no fake address unless the resolver answers with one, staleness holds exactly after a node change or stop.
  \<^item> \<open>ProxyIo\<close>: error codes, handshakes on a pair of byte queues, an inner stream that delivers its bytes
    in any pieces, and the locale \<open>layered_reader\<close>: what a decoding layer's \<^verbatim>\<open>poll_read\<close> owes its reader.
    \<open>ProxySink\<close>: a sink that takes bytes in any pieces, the loop that pushes a buffer out, and
    the locale \<open>layered_writer\<close> for \<^verbatim>\<open>poll_write\<close> under \<^verbatim>\<open>write_all\<close>. Both are interpreted on the
    layers below. \<open>ExactRead\<close> is the part of \<^verbatim>\<open>poll_read_exact\<close> the layers share, \<open>Rounds\<close> the loop of a
    \<^verbatim>\<open>poll\<close> that goes round until it has an answer.
  \<^item> \<open>ProxyWire\<close>, \<open>VlessStream\<close>, \<open>VisionStream\<close>, \<open>WebSocket\<close> (\<^verbatim>\<open>clash-proxynet\<close>): requests with exactly the
    asked target, handshakes that consume exactly their messages, readers that deliver exactly
    the payload for any chunking, writers whose output is read back. A Vision stream is read to its
    END frame, its end, or a DIRECT frame on a session that can be detached.
  \<^item> \<open>SsStream\<close> (\<^verbatim>\<open>ss.rs\<close>), \<open>Obfs\<close> (\<^verbatim>\<open>obfs.rs\<close>), \<open>VmessWire\<close>, \<open>VmessStream\<close> (\<^verbatim>\<open>vmess\<close>): the encrypted and
    obfuscated streams. Shown: what the writer accepts is what a reader with the same secrets
    delivers, for any random draws, partial writes and chunking.
  \<^item> \<open>TlsRecord\<close>, \<open>RealityStream\<close>, \<open>RealityHello\<close>, \<open>RealityHandshake\<close>, \<open>RealityServer\<close>, \<open>RealityAuth\<close>
    (\<^verbatim>\<open>reality\<close>): the record layer, the hello with its sealed token, the handshake and the stream.
    Shown: a server with the private key reads the token, a genuine server's handshake succeeds
    and its data arrives, and the bytes any successful handshake consumed hold a ServerHello for this
    hello, a certificate bound to the agreed key and a Finished of the transcript.
  \<^item> \<open>Relay\<close> (\<^verbatim>\<open>io.rs\<close>), \<open>Inbound\<close> (\<^verbatim>\<open>inbound.rs\<close>): the relay as a step relation, the first record of a
    tunnel, the local proxy and its service. Shown: nothing is lost or reordered in any interleaving,
    a forwarded request is read back, at most 256 clients are served and a stop cancels all of them.
  \<^item> \<open>YamlText\<close>, \<open>YamlNodes\<close>, \<open>Nodes\<close>, \<open>ShareLinks\<close>, \<open>Catalog\<close>, \<open>Profiles\<close> (\<^verbatim>\<open>config.rs\<close>, \<^verbatim>\<open>outbound.rs\<close>): parsing,
    filtering and dialling of nodes, the profile store and its content files. Shown: block YAML
    and links are read back, the outcome of the checks of a dial (\<open>dial\<close> covers flow, transport and the
    Shadowsocks plugin and method) is exactly described for every offered node, the store
    survives save and load, and no operation loses a content still in use.

  \<^bold>\<open>Conventions.\<close> Errors are values: \<open>Inl\<close> of an error type, \<open>None\<close>, or \<open>Panicked\<close> where the Rust code
  would panic. Time, random numbers, and code outside the repository (IDNA, URL, base64 and JSON parsers,
  hashes, ciphers, the DNS resolver, file system case folding) are arguments of the definitions. Loops are
  structural recursion, recursion with a measure (bytes still to arrive for the readers, the
  rest of the buffer for the writers), or bounded searches whose bound is shown sufficient: 55535
  ports for the translation table, the size of the address range for the pool. \<open>offer_all\<close> takes
  fuel, and the results hold for any fuel above the data length plus the number of partial writes.

  \<^bold>\<open>Not modelled.\<close> The user interface (\<^verbatim>\<open>rust-clash/src\<close>) and everything that only talks to Windows
  (\<^verbatim>\<open>wintun.rs\<close>, \<^verbatim>\<open>win.rs\<close>, \<^verbatim>\<open>routes.rs\<close>, \<^verbatim>\<open>net.rs\<close>, \<^verbatim>\<open>paths.rs\<close>); timers, tasks and sockets themselves: a
  stream is the finite sequence of things its reader will find, and a sink takes everything after finitely
  many partial answers, so a peer that never answers again is not represented. TLS other than
  REALITY is a library (\<^verbatim>\<open>tls.rs\<close>, \<^verbatim>\<open>shared.rs\<close>). The DNS client (system, UDP and HTTPS lookups with
  their cache) and the health checks of \<^verbatim>\<open>outbound.rs\<close> are network I/O: the resolver is an argument.
\<close>

end
